(* ===== verification/Oxide_Prelude.thy ===== *)
theory Oxide_Prelude
  imports Main "HOL-Library.Word"
begin

text \<open>
  Shared vocabulary of the development: bytes, results, machine-sized counters, the slice and
  vector operations of the Rust standard library that the archive formats use, and the generic
  lemmas about them.

  Conventions.
  \<^item> A byte is an \<open>8 word\<close>; byte strings are lists. \<open>ascii\<close> turns an Isabelle string
    literal into the bytes of the corresponding Rust byte-string literal.
  \<^item> \<open>u64\<close> and (64-bit) \<open>usize\<close> quantities are natural numbers; every place where the source
    uses \<open>checked_add\<close>, \<open>checked_mul\<close> or \<open>try_from\<close> keeps the range test against
    \<open>u64_max\<close>. Wrapping 32-bit sums are \<open>32 word\<close> values.
  \<^item> \<open>Result<T, E>\<close> is the sum \<open>'e + 'a\<close> with \<open>Inl\<close> for \<open>Err\<close>; \<open>bindE\<close> is the
    question-mark operator.
\<close>

unbundle bit_operations_syntax

named_theorems result_simps \<open>unfolding of the result combinators\<close>
named_theorems slice_simps \<open>unfolding of the slice operations\<close>

type_synonym byte = "8 word"
type_synonym bytes = "byte list"

definition ascii :: "string \<Rightarrow> bytes" where
  "ascii s = map of_char s"

definition is_ascii_digit :: "byte \<Rightarrow> bool" where
  "is_ascii_digit b \<longleftrightarrow> 48 \<le> b \<and> b \<le> 57"

section \<open>Results\<close>

definition bindE :: "'e + 'a \<Rightarrow> ('a \<Rightarrow> 'e + 'b) \<Rightarrow> 'e + 'b" where
  "bindE m k = (case m of Inl e \<Rightarrow> Inl e | Inr v \<Rightarrow> k v)"

definition map_err :: "('e \<Rightarrow> 'f) \<Rightarrow> 'e + 'a \<Rightarrow> 'f + 'a" where
  "map_err f m = (case m of Inl e \<Rightarrow> Inl (f e) | Inr v \<Rightarrow> Inr v)"

definition ok_or :: "'e \<Rightarrow> 'a option \<Rightarrow> 'e + 'a" where
  "ok_or e x = (case x of None \<Rightarrow> Inl e | Some v \<Rightarrow> Inr v)"

definition unwrap_or :: "'a \<Rightarrow> 'e + 'a \<Rightarrow> 'a" where
  "unwrap_or d m = (case m of Inl _ \<Rightarrow> d | Inr v \<Rightarrow> v)"

definition result_ok :: "'e + 'a \<Rightarrow> 'a option" where
  "result_ok m = (case m of Inl _ \<Rightarrow> None | Inr v \<Rightarrow> Some v)"

definition opt_or :: "'a \<Rightarrow> 'a option \<Rightarrow> 'a" where
  "opt_or d x = (case x of None \<Rightarrow> d | Some v \<Rightarrow> v)"

lemma bindE_simps [simp, result_simps]:
  "bindE (Inl e) k = Inl e" "bindE (Inr v) k = k v"
  by (simp_all add: bindE_def)

lemma map_err_simps [simp, result_simps]:
  "map_err f (Inl e) = Inl (f e)" "map_err f (Inr v) = Inr v"
  by (simp_all add: map_err_def)

lemma ok_or_simps [simp, result_simps]:
  "ok_or e None = Inl e" "ok_or e (Some v) = Inr v"
  by (simp_all add: ok_or_def)

lemma unwrap_or_simps [simp, result_simps]:
  "unwrap_or d (Inl e) = d" "unwrap_or d (Inr v) = v"
  by (simp_all add: unwrap_or_def)

lemma result_ok_simps [simp, result_simps]:
  "result_ok (Inl e) = None" "result_ok (Inr v) = Some v"
  by (simp_all add: result_ok_def)

lemma opt_or_simps [simp, result_simps]:
  "opt_or d None = d" "opt_or d (Some v) = v"
  by (simp_all add: opt_or_def)

lemma bindE_Inr_iff: "bindE m k = Inr b \<longleftrightarrow> (\<exists>a. m = Inr a \<and> k a = Inr b)"
  by (cases m) auto

lemma bindE_Inl_iff: "bindE m k = Inl e \<longleftrightarrow> m = Inl e \<or> (\<exists>a. m = Inr a \<and> k a = Inl e)"
  by (cases m) auto

lemma ok_or_Inr_iff [simp]: "ok_or e x = Inr v \<longleftrightarrow> x = Some v"
  by (cases x) auto

lemma ok_or_Inl_iff [simp]: "ok_or e x = Inl f \<longleftrightarrow> x = None \<and> f = e"
  by (cases x) auto

lemma map_err_Inr_iff [simp]: "map_err f m = Inr v \<longleftrightarrow> m = Inr v"
  by (cases m) auto

section \<open>Machine-sized counters\<close>

definition u64_max :: nat where
  "u64_max = 18446744073709551615"

abbreviation usize_max :: nat where
  "usize_max \<equiv> u64_max"

definition u32_max :: nat where
  "u32_max = 4294967295"

definition u16_max :: nat where
  "u16_max = 65535"

definition i64_max :: int where
  "i64_max = 9223372036854775807"

definition checked_add :: "nat \<Rightarrow> nat \<Rightarrow> nat option" where
  "checked_add a b = (if a + b \<le> u64_max then Some (a + b) else None)"

definition checked_mul :: "nat \<Rightarrow> nat \<Rightarrow> nat option" where
  "checked_mul a b = (if a * b \<le> u64_max then Some (a * b) else None)"

definition checked_sub :: "nat \<Rightarrow> nat \<Rightarrow> nat option" where
  "checked_sub a b = (if b \<le> a then Some (a - b) else None)"

definition i64_saturate :: "nat \<Rightarrow> int" where
  \<comment> \<open>\<open>i64::try_from(v).unwrap_or(i64::MAX)\<close>\<close>
  "i64_saturate v = (if int v \<le> i64_max then int v else i64_max)"

definition exceeds :: "nat option \<Rightarrow> nat \<Rightarrow> bool" where
  \<comment> \<open>\<open>limit.is_some_and(|limit| value > limit)\<close>\<close>
  "exceeds limit value = (case limit of None \<Rightarrow> False | Some l \<Rightarrow> l < value)"

lemma checked_add_Some [simp]:
  "checked_add a b = Some c \<longleftrightarrow> c = a + b \<and> a + b \<le> u64_max"
  by (auto simp: checked_add_def)

lemma checked_add_None [simp]: "checked_add a b = None \<longleftrightarrow> u64_max < a + b"
  by (auto simp: checked_add_def)

lemma checked_mul_Some [simp]:
  "checked_mul a b = Some c \<longleftrightarrow> c = a * b \<and> a * b \<le> u64_max"
  by (auto simp: checked_mul_def)

lemma checked_mul_None [simp]: "checked_mul a b = None \<longleftrightarrow> u64_max < a * b"
  by (auto simp: checked_mul_def)

lemma checked_sub_Some [simp]: "checked_sub a b = Some c \<longleftrightarrow> b \<le> a \<and> c = a - b"
  by (auto simp: checked_sub_def)

lemma checked_sub_None [simp]: "checked_sub a b = None \<longleftrightarrow> a < b"
  by (auto simp: checked_sub_def)

lemma exceeds_simps [simp]:
  "\<not> exceeds None v" "exceeds (Some l) v \<longleftrightarrow> l < v"
  by (simp_all add: exceeds_def)

lemma exceeds_mono: "exceeds l v \<Longrightarrow> v \<le> w \<Longrightarrow> exceeds l w"
  by (cases l) auto

text \<open>Low-bit masks on counters are remainders, so arithmetic reasoning applies to them.\<close>

lemma and_mask_nat:
  "(n::nat) AND 1 = n mod 2" "(n::nat) AND 3 = n mod 4" "(n::nat) AND 7 = n mod 8"
  "(n::nat) AND 0xf = n mod 16" "(n::nat) AND 0xfff = n mod 4096"
  "(n::nat) AND 0xffff = n mod 65536" "(n::nat) AND 0xffffffff = n mod 4294967296"
proof -
  have "n AND mask k = n mod 2 ^ k" for k
    by (simp flip: take_bit_eq_mask take_bit_eq_mod)
  from this [of 1] this [of 2] this [of 3] this [of 4] this [of 12] this [of 16] this [of 32]
  show "n AND 1 = n mod 2" "n AND 3 = n mod 4" "n AND 7 = n mod 8" "n AND 0xf = n mod 16"
    "n AND 0xfff = n mod 4096" "n AND 0xffff = n mod 65536" "n AND 0xffffffff = n mod 4294967296"
    by (simp_all add: mask_eq_exp_minus_1)
qed

section \<open>Slices and vectors\<close>

definition starts_with :: "'a list \<Rightarrow> 'a list \<Rightarrow> bool" where
  "starts_with xs p \<longleftrightarrow> take (length p) xs = p"

definition ends_with :: "'a list \<Rightarrow> 'a list \<Rightarrow> bool" where
  "ends_with xs s \<longleftrightarrow> length s \<le> length xs \<and> drop (length xs - length s) xs = s"

definition strip_prefix :: "'a list \<Rightarrow> 'a list \<Rightarrow> 'a list option" where
  "strip_prefix xs p = (if starts_with xs p then Some (drop (length p) xs) else None)"

definition strip_suffix :: "'a list \<Rightarrow> 'a list \<Rightarrow> 'a list option" where
  "strip_suffix xs s =
     (if ends_with xs s then Some (take (length xs - length s) xs) else None)"

fun position :: "('a \<Rightarrow> bool) \<Rightarrow> 'a list \<Rightarrow> nat option" where
  "position P [] = None"
| "position P (x # xs) = (if P x then Some 0 else map_option Suc (position P xs))"

definition slice :: "'a list \<Rightarrow> nat \<Rightarrow> nat \<Rightarrow> 'a list" where
  \<comment> \<open>\<open>&xs[a..b]\<close> where the source has checked the range\<close>
  "slice xs a b = take (b - a) (drop a xs)"

definition get_range :: "'a list \<Rightarrow> nat \<Rightarrow> nat \<Rightarrow> 'a list option" where
  \<comment> \<open>\<open>xs.get(a..b)\<close>\<close>
  "get_range xs a b = (if a \<le> b \<and> b \<le> length xs then Some (slice xs a b) else None)"

definition get_from :: "'a list \<Rightarrow> nat \<Rightarrow> 'a list option" where
  \<comment> \<open>\<open>xs.get(a..)\<close>\<close>
  "get_from xs a = (if a \<le> length xs then Some (drop a xs) else None)"

definition copy_at :: "'a list \<Rightarrow> nat \<Rightarrow> 'a list \<Rightarrow> 'a list" where
  \<comment> \<open>\<open>xs[a..a + ys.len()].copy_from_slice(ys)\<close>\<close>
  "copy_at xs a ys = take a xs @ ys @ drop (a + length ys) xs"

definition resize :: "'a list \<Rightarrow> nat \<Rightarrow> 'a \<Rightarrow> 'a list" where
  \<comment> \<open>\<open>Vec::resize\<close>\<close>
  "resize xs n x = take n xs @ replicate (n - length xs) x"

lemma starts_with_append [simp]: "starts_with (p @ xs) p"
  by (simp add: starts_with_def)

lemma starts_with_iff: "starts_with xs p \<longleftrightarrow> (\<exists>ys. xs = p @ ys)"
proof
  assume "starts_with xs p"
  then have "xs = p @ drop (length p) xs"
    by (metis append_take_drop_id starts_with_def)
  then show "\<exists>ys. xs = p @ ys" ..
qed (auto simp: starts_with_def)

lemma starts_with_length: "starts_with xs p \<Longrightarrow> length p \<le> length xs"
  by (auto simp: starts_with_iff)

lemma ends_with_iff: "ends_with xs s \<longleftrightarrow> (\<exists>ys. xs = ys @ s)"
proof
  assume *: "ends_with xs s"
  then have "xs = take (length xs - length s) xs @ s"
    by (metis append_take_drop_id ends_with_def)
  then show "\<exists>ys. xs = ys @ s" ..
qed (auto simp: ends_with_def)

lemma strip_suffix_append [simp]: "strip_suffix (xs @ s) s = Some xs"
  by (simp add: strip_suffix_def ends_with_iff)

lemma strip_suffix_Some: "strip_suffix xs s = Some ys \<Longrightarrow> xs = ys @ s"
  by (auto simp: strip_suffix_def ends_with_iff split: if_splits)

lemma strip_prefix_append [simp]: "strip_prefix (p @ xs) p = Some xs"
  by (simp add: strip_prefix_def)

lemma length_slice [simp]: "b \<le> length xs \<Longrightarrow> length (slice xs a b) = b - a"
  by (simp add: slice_def)

lemma get_range_Some: "get_range xs a b = Some ys \<longleftrightarrow> a \<le> b \<and> b \<le> length xs \<and> ys = slice xs a b"
  by (auto simp: get_range_def)

lemma length_copy_at [simp]:
  "a + length ys \<le> length xs \<Longrightarrow> length (copy_at xs a ys) = length xs"
  by (simp add: copy_at_def)

lemma length_resize [simp]: "length (resize xs n x) = n"
  by (simp add: resize_def)

lemma resize_Nil [simp]: "resize [] n x = replicate n x"
  by (simp add: resize_def)

lemma slice_append1: "b \<le> length xs \<Longrightarrow> slice (xs @ ys) a b = slice xs a b"
  by (simp add: slice_def)

lemma slice_copy_at_same:
  "a + length ys \<le> length xs \<Longrightarrow> slice (copy_at xs a ys) a (a + length ys) = ys"
  by (simp add: slice_def copy_at_def)

lemma take_min_length [simp]: "take (min (length xs) n) xs = take n xs" "take (min n (length xs)) xs = take n xs"
  by (simp_all add: min_def)

lemma drop_min_length [simp]: "drop (min (length xs) n) xs = drop n xs" "drop (min n (length xs)) xs = drop n xs"
  by (simp_all add: min_def)

lemma position_Some:
  "position P xs = Some i \<Longrightarrow> i < length xs \<and> P (xs ! i) \<and> (\<forall>j < i. \<not> P (xs ! j))"
  by (induction xs arbitrary: i) (auto split: if_splits simp: nth_Cons less_Suc_eq_0_disj)

lemma position_None: "position P xs = None \<longleftrightarrow> (\<forall>x \<in> set xs. \<not> P x)"
  by (induction xs) auto

end
