(* ===== verification/Oxide_Error.thy ===== *)
theory Oxide_Error
  imports Oxide_Prelude
begin

text \<open>
  The two error types of \<open>libarchive_oxide-core/src/error.rs\<close>: the crate-internal \<open>Error\<close>,
  raised by the field parsers, and the public \<open>ArchiveError\<close> with its stable kind and its
  diagnostic context. Error values carry the same format tags and messages as the source.
\<close>

datatype error =
    Malformed string
  | Unsupported string
  | LimitExceeded string
  | InvalidState string

datatype error_kind =
    ErrIo
  | ErrMalformed
  | ErrUnsupported
  | ErrLimit
  | ErrIntegrity
  | ErrCapability
  | ErrSizeRequired
  | ErrProtocol
  | ErrPolicy

record archive_error =
  ae_kind :: error_kind
  ae_format :: "string option"
  ae_offset :: "nat option"
  ae_entry_index :: "nat option"
  ae_entry_path :: "bytes option"
  ae_context :: "string list"

definition archive_error_new :: "error_kind \<Rightarrow> archive_error" where
  "archive_error_new k =
     \<lparr>ae_kind = k, ae_format = None, ae_offset = None, ae_entry_index = None,
      ae_entry_path = None, ae_context = []\<rparr>"

definition with_context :: "string \<Rightarrow> archive_error \<Rightarrow> archive_error" where
  "with_context c e = e\<lparr>ae_context := ae_context e @ [c]\<rparr>"

definition with_format :: "string \<Rightarrow> archive_error \<Rightarrow> archive_error" where
  "with_format f e = e\<lparr>ae_format := Some f\<rparr>"

definition with_offset :: "nat \<Rightarrow> archive_error \<Rightarrow> archive_error" where
  "with_offset n e = e\<lparr>ae_offset := Some n\<rparr>"

definition with_entry :: "nat \<Rightarrow> bytes \<Rightarrow> archive_error \<Rightarrow> archive_error" where
  "with_entry i p e = e\<lparr>ae_entry_index := Some i, ae_entry_path := Some p\<rparr>"

definition archive_error_entry :: "archive_error \<Rightarrow> (nat \<times> bytes) option" where
  "archive_error_entry e =
     (case ae_entry_index e of None \<Rightarrow> None
      | Some i \<Rightarrow> (case ae_entry_path e of None \<Rightarrow> None | Some p \<Rightarrow> Some (i, p)))"

fun archive_error_from :: "error \<Rightarrow> archive_error" where
  "archive_error_from (Malformed m) = with_context m (archive_error_new ErrMalformed)"
| "archive_error_from (Unsupported m) = with_context m (archive_error_new ErrUnsupported)"
| "archive_error_from (LimitExceeded m) = with_context m (archive_error_new ErrLimit)"
| "archive_error_from (InvalidState m) = with_context m (archive_error_new ErrProtocol)"

text \<open>
  The shape almost every format uses: \<open>ArchiveError::new(kind).with_format(f).with_context(c)\<close>,
  and the context-only variant of the protocol layer.
\<close>

definition format_error :: "string \<Rightarrow> error_kind \<Rightarrow> string \<Rightarrow> archive_error" where
  "format_error f k c = with_context c (with_format f (archive_error_new k))"

definition plain_error :: "error_kind \<Rightarrow> string \<Rightarrow> archive_error" where
  "plain_error k c = with_context c (archive_error_new k)"

lemma with_context_sel [simp]:
  "ae_kind (with_context c e) = ae_kind e"
  "ae_format (with_context c e) = ae_format e"
  "ae_context (with_context c e) = ae_context e @ [c]"
  by (simp_all add: with_context_def)

lemma with_format_sel [simp]:
  "ae_kind (with_format f e) = ae_kind e"
  "ae_format (with_format f e) = Some f"
  "ae_context (with_format f e) = ae_context e"
  by (simp_all add: with_format_def)

lemma archive_error_new_sel [simp]:
  "ae_kind (archive_error_new k) = k"
  "ae_format (archive_error_new k) = None"
  "ae_context (archive_error_new k) = []"
  by (simp_all add: archive_error_new_def)

lemma format_error_sel [simp]:
  "ae_kind (format_error f k c) = k"
  "ae_format (format_error f k c) = Some f"
  "ae_context (format_error f k c) = [c]"
  by (simp_all add: format_error_def)

lemma plain_error_sel [simp]:
  "ae_kind (plain_error k c) = k"
  "ae_format (plain_error k c) = None"
  "ae_context (plain_error k c) = [c]"
  by (simp_all add: plain_error_def)

end
