(* ===== verification/Oxide_Metadata.thy ===== *)
theory Oxide_Metadata
  imports Oxide_Error
begin

text \<open>
  \<open>libarchive_oxide-core/src/meta.rs\<close> and \<open>metadata.rs\<close>: entry kinds, timestamps,
  archive-native paths, sparse extents, checksums, the entry metadata record with its builder,
  and the cross-field validation that public writers run before they produce output. The UTF-8 and
  UTF-16 checks of the Rust standard library that \<open>validate_encoded_path\<close> calls are
  \<open>utf8_valid\<close> and \<open>utf16_valid\<close>.
\<close>

section \<open>Kinds and timestamps\<close>

datatype entry_kind =
    KindFile | KindDir | KindSymlink | KindHardlink | KindChar | KindBlock | KindFifo | KindSocket

fun default_mode :: "entry_kind \<Rightarrow> nat" where
  "default_mode KindDir = 0x1ed"
| "default_mode KindSymlink = 0x1ff"
| "default_mode KindFile = 0x1a4"
| "default_mode KindHardlink = 0x1a4"
| "default_mode KindChar = 0x180"
| "default_mode KindBlock = 0x180"
| "default_mode KindFifo = 0x180"
| "default_mode KindSocket = 0x180"

record timestamp =
  ts_secs :: int
  ts_nanos :: nat

definition timestamp_new :: "int \<Rightarrow> nat \<Rightarrow> archive_error + timestamp" where
  "timestamp_new secs nanos =
     (if 1000000000 \<le> nanos
      then Inl (plain_error ErrMalformed
             ''timestamp nanoseconds must be less than 1,000,000,000'')
      else Inr \<lparr>ts_secs = secs, ts_nanos = nanos\<rparr>)"

definition timestamp_from_seconds :: "int \<Rightarrow> timestamp" where
  "timestamp_from_seconds secs = \<lparr>ts_secs = secs, ts_nanos = 0\<rparr>"

section \<open>Archive-native paths\<close>

datatype path_encoding = EncBytes | EncUtf8 | EncUtf16Le

record archive_path =
  ap_raw :: bytes
  ap_encoding :: path_encoding

definition path_from_bytes :: "bytes \<Rightarrow> archive_path" where
  "path_from_bytes raw = \<lparr>ap_raw = raw, ap_encoding = EncBytes\<rparr>"

definition path_from_utf8 :: "bytes \<Rightarrow> archive_path" where
  "path_from_utf8 raw = \<lparr>ap_raw = raw, ap_encoding = EncUtf8\<rparr>"

definition utf8_tail :: "byte \<Rightarrow> bool" where
  "utf8_tail b \<longleftrightarrow> 0x80 \<le> b \<and> b \<le> 0xbf"

text \<open>Well-formed UTF-8 as accepted by \<open>core::str::from_utf8\<close>.\<close>

fun utf8_valid :: "bytes \<Rightarrow> bool" where
  "utf8_valid [] = True"
| "utf8_valid (a # r) =
     (if a \<le> 0x7f then utf8_valid r
      else if 0xc2 \<le> a \<and> a \<le> 0xdf then
        (case r of b # r1 \<Rightarrow> utf8_tail b \<and> utf8_valid r1 | _ \<Rightarrow> False)
      else if 0xe0 \<le> a \<and> a \<le> 0xef then
        (case r of
           b # c # r2 \<Rightarrow>
             utf8_tail b \<and> (a = 0xe0 \<longrightarrow> 0xa0 \<le> b) \<and> (a = 0xed \<longrightarrow> b \<le> 0x9f) \<and>
             utf8_tail c \<and> utf8_valid r2
         | _ \<Rightarrow> False)
      else if 0xf0 \<le> a \<and> a \<le> 0xf4 then
        (case r of
           b # c # d # r3 \<Rightarrow>
             utf8_tail b \<and> (a = 0xf0 \<longrightarrow> 0x90 \<le> b) \<and> (a = 0xf4 \<longrightarrow> b \<le> 0x8f) \<and>
             utf8_tail c \<and> utf8_tail d \<and> utf8_valid r3
         | _ \<Rightarrow> False)
      else False)"

text \<open>\<open>as_chunks::<2>\<close> with \<open>u16::from_le_bytes\<close>: the code units and the remainder.\<close>

fun le_units :: "bytes \<Rightarrow> nat list \<times> bytes" where
  "le_units (a # b # r) = (let (us, rest) = le_units r in ((unat a + 256 * unat b) # us, rest))"
| "le_units r = ([], r)"

text \<open>\<open>char::decode_utf16\<close> yields no error exactly when every surrogate is paired.\<close>

fun utf16_valid :: "nat list \<Rightarrow> bool" where
  "utf16_valid [] = True"
| "utf16_valid (u # us) =
     (if u < 0xd800 \<or> 0xdfff < u then utf16_valid us
      else if 0xdc00 \<le> u then False
      else (case us of v # vs \<Rightarrow> 0xdc00 \<le> v \<and> v \<le> 0xdfff \<and> utf16_valid vs | [] \<Rightarrow> False))"

fun validate_encoded_path :: "bytes \<Rightarrow> path_encoding \<Rightarrow> archive_error + unit" where
  "validate_encoded_path raw EncBytes = Inr ()"
| "validate_encoded_path raw EncUtf8 =
     (if utf8_valid raw then Inr ()
      else Inl (plain_error ErrMalformed ''path tagged as UTF-8 contains invalid UTF-8''))"
| "validate_encoded_path raw EncUtf16Le =
     (let (units, remainder) = le_units raw in
      if remainder \<noteq> [] then
        Inl (plain_error ErrMalformed ''UTF-16LE path has an odd byte length'')
      else if utf16_valid units then Inr ()
      else Inl (plain_error ErrMalformed ''UTF-16LE path contains an unpaired surrogate''))"

definition try_from_encoded :: "bytes \<Rightarrow> path_encoding \<Rightarrow> archive_error + archive_path" where
  "try_from_encoded raw enc =
     bindE (validate_encoded_path raw enc) (\<lambda>_. Inr \<lparr>ap_raw = raw, ap_encoding = enc\<rparr>)"

section \<open>Owners, devices, extents, checksums, extensions\<close>

record owner =
  own_uid :: "nat option"
  own_gid :: "nat option"
  own_user :: "bytes option"
  own_group :: "bytes option"

definition owner_default :: owner where
  "owner_default = \<lparr>own_uid = None, own_gid = None, own_user = None, own_group = None\<rparr>"

record entry_times =
  modified :: "timestamp option"
  accessed :: "timestamp option"
  changed :: "timestamp option"
  created :: "timestamp option"

definition times_default :: entry_times where
  "times_default = \<lparr>modified = None, accessed = None, changed = None, created = None\<rparr>"

record device =
  dev_major :: nat
  dev_minor :: nat

definition device_default :: device where
  "device_default = \<lparr>dev_major = 0, dev_minor = 0\<rparr>"

record sparse_extent =
  se_offset :: nat
  se_length :: nat

definition sparse_extent_new :: "nat \<Rightarrow> nat \<Rightarrow> archive_error + sparse_extent" where
  "sparse_extent_new off len =
     (if len = 0 then Inl (plain_error ErrMalformed ''sparse extent length must be non-zero'')
      else if checked_add off len = None
      then Inl (plain_error ErrMalformed ''sparse extent end offset overflows u64'')
      else Inr \<lparr>se_offset = off, se_length = len\<rparr>)"

definition se_end :: "sparse_extent \<Rightarrow> nat" where
  "se_end e = se_offset e + se_length e"

datatype checksum_algorithm = CpioSum32 | Crc32 | Sha256 | Blake2b256

fun output_bytes :: "checksum_algorithm \<Rightarrow> nat" where
  "output_bytes CpioSum32 = 4"
| "output_bytes Crc32 = 4"
| "output_bytes Sha256 = 32"
| "output_bytes Blake2b256 = 32"

record checksum =
  ck_algorithm :: checksum_algorithm
  ck_value :: bytes

definition checksum_new :: "checksum_algorithm \<Rightarrow> bytes \<Rightarrow> archive_error + checksum" where
  "checksum_new alg value =
     (if length value \<noteq> output_bytes alg
      then Inl (plain_error ErrMalformed
             ''checksum byte length does not match the selected checksum algorithm'')
      else Inr \<lparr>ck_algorithm = alg, ck_value = value\<rparr>)"

definition u32_to_be_bytes :: "32 word \<Rightarrow> bytes" where
  "u32_to_be_bytes w =
     [ucast (drop_bit 24 w), ucast (drop_bit 16 w), ucast (drop_bit 8 w), ucast w]"

definition u32_from_be_bytes :: "bytes \<Rightarrow> 32 word option" where
  \<comment> \<open>\<open>u32::from_be_bytes(bytes.try_into()?)\<close>: fails unless there are four bytes\<close>
  "u32_from_be_bytes bs =
     (case bs of
        [a, b, c, d] \<Rightarrow>
          Some (push_bit 24 (ucast a) OR push_bit 16 (ucast b) OR push_bit 8 (ucast c) OR ucast d)
      | _ \<Rightarrow> None)"

definition cpio_sum32 :: "32 word \<Rightarrow> checksum" where
  "cpio_sum32 v = \<lparr>ck_algorithm = CpioSum32, ck_value = u32_to_be_bytes v\<rparr>"

record extension =
  ext_namespace :: string
  ext_key :: bytes
  ext_value :: bytes

definition extension_new :: "string \<Rightarrow> bytes \<Rightarrow> bytes \<Rightarrow> extension" where
  "extension_new ns key value = \<lparr>ext_namespace = ns, ext_key = key, ext_value = value\<rparr>"

section \<open>Entry metadata and its builder\<close>

record entry_metadata =
  md_kind :: entry_kind
  md_path :: archive_path
  md_size :: "nat option"
  md_link_target :: "archive_path option"
  md_mode :: "nat option"
  md_owner :: owner
  md_times :: entry_times
  md_inode :: "nat option"
  md_links :: "nat option"
  md_device :: "device option"
  md_referenced_device :: "device option"
  md_sparse :: "sparse_extent list"
  md_xattrs :: "(bytes \<times> bytes) list"
  md_acl :: "bytes list"
  md_file_flags :: nat
  md_checksum :: "checksum option"
  md_encrypted :: bool
  md_comment :: "bytes option"
  md_extensions :: "extension list"

definition builder :: "entry_kind \<Rightarrow> archive_path \<Rightarrow> entry_metadata" where
  "builder kind path =
     \<lparr>md_kind = kind, md_path = path, md_size = None, md_link_target = None, md_mode = None,
      md_owner = owner_default, md_times = times_default, md_inode = None, md_links = None,
      md_device = None, md_referenced_device = None, md_sparse = [], md_xattrs = [],
      md_acl = [], md_file_flags = 0, md_checksum = None, md_encrypted = False,
      md_comment = None, md_extensions = []\<rparr>"

named_theorems builder_defs \<open>the setters of the metadata builder\<close>

definition b_kind :: "entry_kind \<Rightarrow> entry_metadata \<Rightarrow> entry_metadata" where
  [builder_defs]: "b_kind k m = m\<lparr>md_kind := k\<rparr>"

definition b_path :: "archive_path \<Rightarrow> entry_metadata \<Rightarrow> entry_metadata" where
  [builder_defs]: "b_path p m = m\<lparr>md_path := p\<rparr>"

definition b_size :: "nat option \<Rightarrow> entry_metadata \<Rightarrow> entry_metadata" where
  [builder_defs]: "b_size s m = m\<lparr>md_size := s\<rparr>"

definition b_mode :: "nat option \<Rightarrow> entry_metadata \<Rightarrow> entry_metadata" where
  [builder_defs]: "b_mode x m = m\<lparr>md_mode := x\<rparr>"

definition b_owner :: "owner \<Rightarrow> entry_metadata \<Rightarrow> entry_metadata" where
  [builder_defs]: "b_owner x m = m\<lparr>md_owner := x\<rparr>"

definition b_times :: "entry_times \<Rightarrow> entry_metadata \<Rightarrow> entry_metadata" where
  [builder_defs]: "b_times x m = m\<lparr>md_times := x\<rparr>"

definition b_link_target :: "archive_path option \<Rightarrow> entry_metadata \<Rightarrow> entry_metadata" where
  [builder_defs]: "b_link_target x m = m\<lparr>md_link_target := x\<rparr>"

definition b_inode_and_links ::
    "nat option \<Rightarrow> nat option \<Rightarrow> entry_metadata \<Rightarrow> entry_metadata" where
  [builder_defs]: "b_inode_and_links i l m = m\<lparr>md_inode := i, md_links := l\<rparr>"

definition b_devices ::
    "device option \<Rightarrow> device option \<Rightarrow> entry_metadata \<Rightarrow> entry_metadata" where
  [builder_defs]: "b_devices d r m = m\<lparr>md_device := d, md_referenced_device := r\<rparr>"

definition b_sparse_extent :: "sparse_extent \<Rightarrow> entry_metadata \<Rightarrow> entry_metadata" where
  [builder_defs]: "b_sparse_extent x m = m\<lparr>md_sparse := md_sparse m @ [x]\<rparr>"

definition b_xattr :: "bytes \<Rightarrow> bytes \<Rightarrow> entry_metadata \<Rightarrow> entry_metadata" where
  [builder_defs]: "b_xattr n v m = m\<lparr>md_xattrs := md_xattrs m @ [(n, v)]\<rparr>"

definition b_acl :: "bytes \<Rightarrow> entry_metadata \<Rightarrow> entry_metadata" where
  [builder_defs]: "b_acl v m = m\<lparr>md_acl := md_acl m @ [v]\<rparr>"

definition b_file_flags :: "nat \<Rightarrow> entry_metadata \<Rightarrow> entry_metadata" where
  [builder_defs]: "b_file_flags x m = m\<lparr>md_file_flags := x\<rparr>"

definition b_checksum :: "checksum option \<Rightarrow> entry_metadata \<Rightarrow> entry_metadata" where
  [builder_defs]: "b_checksum x m = m\<lparr>md_checksum := x\<rparr>"

definition b_encrypted :: "bool \<Rightarrow> entry_metadata \<Rightarrow> entry_metadata" where
  [builder_defs]: "b_encrypted x m = m\<lparr>md_encrypted := x\<rparr>"

definition b_comment :: "bytes option \<Rightarrow> entry_metadata \<Rightarrow> entry_metadata" where
  [builder_defs]: "b_comment x m = m\<lparr>md_comment := x\<rparr>"

definition b_extension :: "extension \<Rightarrow> entry_metadata \<Rightarrow> entry_metadata" where
  [builder_defs]: "b_extension x m = m\<lparr>md_extensions := md_extensions m @ [x]\<rparr>"

section \<open>Validation\<close>

fun validate_times :: "timestamp list \<Rightarrow> archive_error + unit" where
  "validate_times [] = Inr ()"
| "validate_times (t # ts) =
     bindE (timestamp_new (ts_secs t) (ts_nanos t)) (\<lambda>_. validate_times ts)"

fun validate_extents ::
    "nat option \<Rightarrow> nat \<Rightarrow> nat \<Rightarrow> sparse_extent list \<Rightarrow> archive_error + unit" where
  "validate_extents declared index previous_end [] = Inr ()"
| "validate_extents declared index previous_end (e # es) =
     bindE (sparse_extent_new (se_offset e) (se_length e)) (\<lambda>_.
       if index \<noteq> 0 \<and> se_offset e < previous_end
       then Inl (plain_error ErrMalformed ''sparse extents overlap or are not sorted'')
       else if exceeds declared (se_end e)
       then Inl (plain_error ErrMalformed ''sparse extent exceeds the declared entry size'')
       else validate_extents declared (Suc index) (se_end e) es)"

definition option_list :: "'a option list \<Rightarrow> 'a list" where
  "option_list xs = List.map_filter id xs"

definition validate :: "entry_metadata \<Rightarrow> archive_error + unit" where
  "validate m =
     (if ap_raw (md_path m) = []
      then Inl (plain_error ErrMalformed ''archive entry path must not be empty'')
      else
        bindE (validate_encoded_path (ap_raw (md_path m)) (ap_encoding (md_path m))) (\<lambda>_.
        bindE (case md_link_target m of None \<Rightarrow> Inr ()
               | Some t \<Rightarrow> validate_encoded_path (ap_raw t) (ap_encoding t)) (\<lambda>_.
        bindE (validate_times (option_list
                 [modified (md_times m), accessed (md_times m),
                  changed (md_times m), created (md_times m)])) (\<lambda>_.
        let is_link = (md_kind m = KindSymlink \<or> md_kind m = KindHardlink) in
        if is_link \<noteq> (md_link_target m \<noteq> None)
        then Inl (plain_error ErrMalformed
               ''link entries require a target and non-link entries must not carry one'')
        else if md_sparse m \<noteq> [] \<and> md_kind m \<noteq> KindFile
        then Inl (plain_error ErrMalformed ''only regular files may carry sparse extents'')
        else validate_extents (md_size m) 0 0 (md_sparse m)))))"

definition try_build :: "entry_metadata \<Rightarrow> archive_error + entry_metadata" where
  "try_build m = bindE (validate m) (\<lambda>_. Inr m)"

section \<open>Archive-level metadata\<close>

record archive_metadata =
  am_volume_name :: "archive_path option"
  am_comment :: "bytes option"
  am_extensions :: "extension list"

definition archive_metadata_new :: archive_metadata where
  "archive_metadata_new = \<lparr>am_volume_name = None, am_comment = None, am_extensions = []\<rparr>"

definition with_volume_name :: "archive_path \<Rightarrow> archive_metadata \<Rightarrow> archive_metadata" where
  "with_volume_name p m = m\<lparr>am_volume_name := Some p\<rparr>"

definition with_comment :: "bytes \<Rightarrow> archive_metadata \<Rightarrow> archive_metadata" where
  "with_comment c m = m\<lparr>am_comment := Some c\<rparr>"

definition with_extension :: "extension \<Rightarrow> archive_metadata \<Rightarrow> archive_metadata" where
  "with_extension x m = m\<lparr>am_extensions := am_extensions m @ [x]\<rparr>"

section \<open>What validation accepts\<close>

text \<open>
  The declarative reading of \<open>EntryMetadata::validate\<close>: what the documentation promises of
  accepted metadata, independent of the order in which the code tests it.
\<close>

definition path_wf :: "archive_path \<Rightarrow> bool" where
  "path_wf p \<longleftrightarrow>
     (case ap_encoding p of
        EncBytes \<Rightarrow> True
      | EncUtf8 \<Rightarrow> utf8_valid (ap_raw p)
      | EncUtf16Le \<Rightarrow> even (length (ap_raw p)) \<and> utf16_valid (fst (le_units (ap_raw p))))"

definition times_wf :: "entry_times \<Rightarrow> bool" where
  "times_wf t \<longleftrightarrow>
     (\<forall>x. Some x \<in> {modified t, accessed t, changed t, created t} \<longrightarrow> ts_nanos x < 1000000000)"

definition extents_wf :: "nat option \<Rightarrow> sparse_extent list \<Rightarrow> bool" where
  "extents_wf declared es \<longleftrightarrow>
     sorted_wrt (\<lambda>a b. se_end a \<le> se_offset b) es \<and>
     (\<forall>e \<in> set es. 0 < se_length e \<and> se_end e \<le> u64_max \<and> \<not> exceeds declared (se_end e))"

definition metadata_wf :: "entry_metadata \<Rightarrow> bool" where
  "metadata_wf m \<longleftrightarrow>
     ap_raw (md_path m) \<noteq> [] \<and> path_wf (md_path m) \<and>
     (\<forall>t. md_link_target m = Some t \<longrightarrow> path_wf t) \<and> times_wf (md_times m) \<and>
     (md_link_target m \<noteq> None \<longleftrightarrow> md_kind m \<in> {KindSymlink, KindHardlink}) \<and>
     (md_sparse m \<noteq> [] \<longrightarrow> md_kind m = KindFile) \<and> extents_wf (md_size m) (md_sparse m)"

lemma le_units_remainder: "snd (le_units raw) = [] \<longleftrightarrow> even (length raw)"
  by (induction raw rule: le_units.induct) (auto split: prod.splits)

lemma validate_encoded_path_ok:
  "validate_encoded_path (ap_raw p) (ap_encoding p) = Inr () \<longleftrightarrow> path_wf p"
  using le_units_remainder [of "ap_raw p"]
  by (cases "ap_encoding p") (auto simp: path_wf_def split: prod.splits)

lemma timestamp_new_ok: "timestamp_new s n = Inr t \<longleftrightarrow> n < 1000000000 \<and> t = \<lparr>ts_secs = s, ts_nanos = n\<rparr>"
  by (auto simp: timestamp_new_def)

lemma validate_times_ok:
  "validate_times ts = Inr () \<longleftrightarrow> (\<forall>t \<in> set ts. ts_nanos t < 1000000000)"
  by (induction ts) (auto simp: bindE_Inr_iff timestamp_new_ok)

lemma set_option_list: "set (option_list xs) = {x. Some x \<in> set xs}"
  by (auto simp: option_list_def List.map_filter_def image_iff)
    (metis mem_Collect_eq option.sel option.simps(3))

lemma validate_times_entry_ok:
  "validate_times (option_list [modified t, accessed t, changed t, created t]) = Inr () \<longleftrightarrow>
   times_wf t"
  by (auto simp: validate_times_ok set_option_list times_wf_def)

lemma sparse_extent_new_ok:
  "sparse_extent_new off len = Inr e \<longleftrightarrow>
   0 < len \<and> off + len \<le> u64_max \<and> e = \<lparr>se_offset = off, se_length = len\<rparr>"
  by (auto simp: sparse_extent_new_def)

lemma validate_extents_ok:
  "validate_extents declared index previous_end es = Inr () \<longleftrightarrow>
   extents_wf declared es \<and> (index \<noteq> 0 \<longrightarrow> (\<forall>e \<in> set es. previous_end \<le> se_offset e))"
proof (induction declared index previous_end es rule: validate_extents.induct)
  case (1 declared index previous_end)
  then show ?case by (simp add: extents_wf_def)
next
  case (2 declared index previous_end e es)
  have gap: "previous_end \<le> se_offset e \<Longrightarrow> se_end e \<le> se_offset x \<Longrightarrow> previous_end \<le> se_offset x" for x
    by (simp add: se_end_def)
  show ?case
    using "2.IH" gap
    by (auto simp: bindE_Inr_iff sparse_extent_new_ok extents_wf_def se_end_def)
qed

lemma extents_wf_Nil [simp]: "extents_wf declared []"
  by (simp add: extents_wf_def)

lemma validate_ok_wf: "validate m = Inr () \<longleftrightarrow> metadata_wf m"
  unfolding validate_def metadata_wf_def Let_def
  by (cases "md_link_target m")
    (auto simp: bindE_Inr_iff validate_encoded_path_ok validate_times_entry_ok validate_extents_ok)

text \<open>
  \<open>EntryMetadata::validate\<close> accepts exactly the metadata that satisfies the documented
  cross-field invariants: a non-empty, correctly encoded path, a correctly encoded link target that
  is present exactly for links, sub-second parts below one billion, and sparse extents that occur
  only on regular files and are non-empty, sorted, disjoint, representable and inside the declared
  size; and \<open>try_build\<close> returns the metadata unchanged in exactly that case.
\<close>

theorem try_build_iff_wf: "try_build m = Inr m' \<longleftrightarrow> metadata_wf m \<and> m' = m"
  by (auto simp: try_build_def bindE_Inr_iff validate_ok_wf)

lemma extents_fit:
  "extents_wf (Some n) es \<Longrightarrow> (\<forall>e \<in> set es. lo \<le> se_offset e) \<Longrightarrow> es \<noteq> [] \<Longrightarrow>
   lo + sum_list (map se_length es) \<le> n"
proof (induction es arbitrary: lo)
  case Nil
  then show ?case by simp
next
  case (Cons e es)
  show ?case
  proof (cases "es = []")
    case True
    with Cons.prems show ?thesis by (auto simp: extents_wf_def se_end_def)
  next
    case False
    have "extents_wf (Some n) es" and "\<forall>x \<in> set es. se_end e \<le> se_offset x"
      using Cons.prems by (auto simp: extents_wf_def)
    then have "se_end e + sum_list (map se_length es) \<le> n"
      using False by (rule Cons.IH)
    with Cons.prems show ?thesis by (auto simp: se_end_def)
  qed
qed

text \<open>
  Validated sparse metadata never describes more stored bytes than the declared entry size:
  because the extents are disjoint and in range, their lengths sum to at most the size.
\<close>

theorem validated_sparse_fits:
  assumes "validate m = Inr ()" and "md_size m = Some n"
  shows "sum_list (map se_length (md_sparse m)) \<le> n"
proof (cases "md_sparse m = []")
  case False
  from assms have "extents_wf (Some n) (md_sparse m)"
    by (simp add: validate_ok_wf metadata_wf_def)
  with False show ?thesis using extents_fit [of n "md_sparse m" 0] by simp
qed simp

theorem validated_sparse_fits_witness:
  "sum_list (map se_length (md_sparse
     (b_sparse_extent \<lparr>se_offset = 7, se_length = 3\<rparr>
       (b_sparse_extent \<lparr>se_offset = 0, se_length = 5\<rparr>
         (b_size (Some 10) (builder KindFile (path_from_bytes [97]))))))) \<le> 10"
  by (rule validated_sparse_fits)
    (simp_all add: validate_def builder_defs builder_def path_from_bytes_def times_default_def
      option_list_def List.map_filter_def sparse_extent_new_def se_end_def u64_max_def
      checked_add_def)

section \<open>Big-endian 32-bit values\<close>

lemma u32_be_roundtrip [simp]: "u32_from_be_bytes (u32_to_be_bytes w) = Some w"
proof -
  define v :: "32 word" where
    "v = push_bit 24 (ucast (ucast (drop_bit 24 w) :: 8 word)) OR
         push_bit 16 (ucast (ucast (drop_bit 16 w) :: 8 word)) OR
         push_bit 8 (ucast (ucast (drop_bit 8 w) :: 8 word)) OR ucast (ucast w :: 8 word)"
  have "bit v n = bit w n" if "n < 32" for n
    using that unfolding v_def
    by (cases "n < 8"; cases "n < 16"; cases "n < 24") (auto simp: bit_simps)
  then have "v = w" by (auto intro: bit_word_eqI)
  then show ?thesis by (simp add: u32_from_be_bytes_def u32_to_be_bytes_def v_def)
qed

lemma length_u32_to_be_bytes [simp]: "length (u32_to_be_bytes w) = 4"
  by (simp add: u32_to_be_bytes_def)

end
