(* ===== verification/Oxide_Limits.thy ===== *)
theory Oxide_Limits
  imports Oxide_Prelude
begin

text \<open>
  \<open>libarchive_oxide-core/src/limits.rs\<close>: the resource budgets every codec, format and adapter
  receives. \<open>None\<close> removes a budget; \<open>Some 0\<close> is a real zero-byte limit. The record's
  selectors are the accessor methods of the source.
\<close>

record limits =
  decoded_total :: "nat option"
  entry_bytes :: "nat option"
  max_entries :: "nat option"
  metadata_bytes :: "nat option"
  codec_memory :: "nat option"
  path_bytes :: "nat option"
  nesting :: "nat option"
  filter_depth :: "nat option"
  in_flight_bytes :: "nat option"

definition FOUR_GIB :: nat where
  "FOUR_GIB = 4 * 1024 * 1024 * 1024"

definition limits_safe :: limits where
  "limits_safe =
     \<lparr>decoded_total = Some FOUR_GIB,
      entry_bytes = Some FOUR_GIB,
      max_entries = Some 1000000,
      metadata_bytes = Some (64 * 1024 * 1024),
      codec_memory = Some (64 * 1024 * 1024),
      path_bytes = Some (64 * 1024),
      nesting = Some 64,
      filter_depth = Some 4,
      in_flight_bytes = Some (8 * 1024 * 1024)\<rparr>"

definition limits_unlimited :: limits where
  "limits_unlimited =
     \<lparr>decoded_total = None, entry_bytes = None, max_entries = None, metadata_bytes = None,
      codec_memory = None, path_bytes = None, nesting = None, filter_depth = None,
      in_flight_bytes = None\<rparr>"

definition with_decoded_total :: "nat option \<Rightarrow> limits \<Rightarrow> limits" where
  "with_decoded_total v l = l\<lparr>decoded_total := v\<rparr>"

definition with_entry_bytes :: "nat option \<Rightarrow> limits \<Rightarrow> limits" where
  "with_entry_bytes v l = l\<lparr>entry_bytes := v\<rparr>"

definition with_entries :: "nat option \<Rightarrow> limits \<Rightarrow> limits" where
  "with_entries v l = l\<lparr>max_entries := v\<rparr>"

definition with_metadata_bytes :: "nat option \<Rightarrow> limits \<Rightarrow> limits" where
  "with_metadata_bytes v l = l\<lparr>metadata_bytes := v\<rparr>"

definition with_codec_memory :: "nat option \<Rightarrow> limits \<Rightarrow> limits" where
  "with_codec_memory v l = l\<lparr>codec_memory := v\<rparr>"

definition with_path_bytes :: "nat option \<Rightarrow> limits \<Rightarrow> limits" where
  "with_path_bytes v l = l\<lparr>path_bytes := v\<rparr>"

definition with_nesting :: "nat option \<Rightarrow> limits \<Rightarrow> limits" where
  "with_nesting v l = l\<lparr>nesting := v\<rparr>"

definition with_filter_depth :: "nat option \<Rightarrow> limits \<Rightarrow> limits" where
  "with_filter_depth v l = l\<lparr>filter_depth := v\<rparr>"

definition with_in_flight_bytes :: "nat option \<Rightarrow> limits \<Rightarrow> limits" where
  "with_in_flight_bytes v l = l\<lparr>in_flight_bytes := v\<rparr>"

lemma limits_unlimited_sel [simp]:
  "decoded_total limits_unlimited = None" "entry_bytes limits_unlimited = None"
  "max_entries limits_unlimited = None" "metadata_bytes limits_unlimited = None"
  "path_bytes limits_unlimited = None"
  by (simp_all add: limits_unlimited_def)

end
