(* ===== verification/Oxide_Protocol.thy ===== *)
theory Oxide_Protocol
  imports Oxide_Metadata Oxide_Limits "HOL-Library.Sublist"
begin

text \<open>
  \<open>libarchive_oxide-core/src/protocol.rs\<close>: the sans-I/O protocols. A decoder is a step function
  on its state, the available input and the end-of-input flag; it reports how many input bytes it
  consumed and at most one structural event. The Rust method takes \<open>&mut self\<close>, so the model
  returns the new state together with the result, also when the result is an error.

  The locale \<open>archive_decoder\<close> states the contract that \<open>DecodeStep::validate\<close> and the pipeline
  rely on, and proves once what a client that feeds a whole archive gets from it: the loop ends, the
  payload is a subsequence of the archive, and the decoded-bytes budget is respected.
\<close>

section \<open>Data\<close>

datatype end_of_input = More | End

datatype 'a probe_result = ProbeMatch 'a | ProbeNeedMore nat | ProbeNoMatch

datatype codec_status = CodecNeedInput | CodecNeedOutput | CodecDone

record codec_step =
  cs_consumed :: nat
  cs_produced :: nat
  cs_status :: codec_status

datatype decode_event =
    EvNeedInput
  | EvNeedOutput
  | EvArchiveMetadata archive_metadata
  | EvEntry entry_metadata
  | EvData bytes
  | EvEndEntry
  | EvDone

record decode_step =
  ds_consumed :: nat
  ds_produced :: nat
  ds_event :: decode_event

definition dstep :: "nat \<Rightarrow> decode_event \<Rightarrow> decode_step" where
  \<comment> \<open>every core decoder except tar reports \<open>produced: 0\<close>\<close>
  "dstep n ev = \<lparr>ds_consumed = n, ds_produced = 0, ds_event = ev\<rparr>"

datatype encode_command =
    BeginEntry entry_metadata
  | EncData bytes
  | EncEndEntry
  | EncFinish

datatype encode_status = EncNeedCommand | EncNeedOutput | EncDone

record encode_step =
  es_consumed :: nat
  es_produced :: nat
  es_status :: encode_status

definition estep :: "nat \<Rightarrow> nat \<Rightarrow> encode_status \<Rightarrow> encode_step" where
  "estep c p s = \<lparr>es_consumed = c, es_produced = p, es_status = s\<rparr>"

lemma dstep_sel [simp]:
  "ds_consumed (dstep n ev) = n" "ds_produced (dstep n ev) = 0" "ds_event (dstep n ev) = ev"
  by (simp_all add: dstep_def)

lemma dstep_eq [simp]: "dstep n ev = dstep m fv \<longleftrightarrow> n = m \<and> ev = fv"
  by (auto simp: dstep_def)

lemma estep_sel [simp]:
  "es_consumed (estep c p s) = c" "es_produced (estep c p s) = p" "es_status (estep c p s) = s"
  by (simp_all add: estep_def)

lemma estep_eq [simp]: "estep c p s = estep c' p' s' \<longleftrightarrow> c = c' \<and> p = p' \<and> s = s'"
  by (auto simp: estep_def)

section \<open>Validation of reported progress\<close>

definition codec_validate :: "codec_step \<Rightarrow> nat \<Rightarrow> nat \<Rightarrow> archive_error + codec_step" where
  "codec_validate s input_len output_len =
     (if input_len < cs_consumed s \<or> output_len < cs_produced s
      then Inl (plain_error ErrProtocol ''codec reported out-of-range progress'')
      else if cs_consumed s = 0 \<and> cs_produced s = 0 \<and>
              \<not> (cs_status s = CodecNeedInput \<and> input_len = 0) \<and>
              \<not> (cs_status s = CodecNeedOutput \<and> output_len = 0) \<and>
              cs_status s \<noteq> CodecDone
      then Inl (plain_error ErrProtocol ''codec made no progress'')
      else Inr s)"

fun semantic_progress :: "decode_event \<Rightarrow> bool" where
  "semantic_progress (EvData chunk) = (chunk \<noteq> [])"
| "semantic_progress _ = True"

definition decode_validate :: "decode_step \<Rightarrow> nat \<Rightarrow> nat \<Rightarrow> archive_error + decode_step" where
  "decode_validate s input_len output_len =
     (if input_len < ds_consumed s \<or> output_len < ds_produced s
      then Inl (plain_error ErrProtocol ''archive decoder reported out-of-range progress'')
      else if ds_consumed s = 0 \<and> ds_produced s = 0 \<and> \<not> semantic_progress (ds_event s)
      then Inl (plain_error ErrProtocol ''archive decoder made no progress'')
      else Inr s)"

definition encode_validate :: "encode_step \<Rightarrow> nat option \<Rightarrow> nat \<Rightarrow> archive_error + encode_step" where
  "encode_validate s data_input_len output_len =
     (if opt_or 1 data_input_len < es_consumed s \<or> output_len < es_produced s
      then Inl (plain_error ErrProtocol ''archive encoder reported out-of-range progress'')
      else if data_input_len \<noteq> None \<and> es_consumed s = 0 \<and> es_produced s = 0 \<and>
              (es_status s \<noteq> EncNeedOutput \<or> output_len \<noteq> 0)
      then Inl (plain_error ErrProtocol ''archive encoder made no data progress'')
      else Inr s)"

text \<open>
  A codec step that passes validation either moves some byte, or waits for input it was not
  given, or waits for output room it was not given, or has finished; so a driver that supplies
  input or room after each validated step cannot spin without progress.
\<close>

theorem codec_validate_progress:
  assumes "codec_validate s input_len output_len = Inr t"
  shows "t = s \<and> cs_consumed t \<le> input_len \<and> cs_produced t \<le> output_len \<and>
         (0 < cs_consumed t + cs_produced t \<or> cs_status t = CodecDone \<or>
          cs_status t = CodecNeedInput \<and> input_len = 0 \<or>
          cs_status t = CodecNeedOutput \<and> output_len = 0)"
  using assms by (auto simp: codec_validate_def split: if_splits)

theorem codec_validate_progress_witness:
  "\<exists>t. codec_validate \<lparr>cs_consumed = 0, cs_produced = 2, cs_status = CodecNeedInput\<rparr> 3 4 = Inr t \<and>
       cs_produced t \<le> 4 \<and> 0 < cs_consumed t + cs_produced t"
proof -
  define s where "s = \<lparr>cs_consumed = 0, cs_produced = 2, cs_status = CodecNeedInput\<rparr>"
  have h: "codec_validate s 3 4 = Inr s" by (simp add: s_def codec_validate_def)
  have "cs_produced s \<le> 4 \<and> 0 < cs_consumed s + cs_produced s"
    using codec_validate_progress [OF h] by (simp add: s_def)
  with h show ?thesis unfolding s_def by blast
qed

section \<open>Feeding a whole archive to a decoder\<close>

type_synonym 's decoder_step =
  "'s \<Rightarrow> bytes \<Rightarrow> end_of_input \<Rightarrow> 's \<times> (archive_error + decode_step)"

text \<open>
  The client loop: present all remaining bytes with \<open>EndOfInput::End\<close>, record the event, drop
  what was consumed, stop at \<open>Done\<close> or at the first error. It may diverge for an arbitrary step
  function, so it is a partial function; \<open>None\<close> means that it does not return.
\<close>

partial_function (option) decode_all ::
    "'s decoder_step \<Rightarrow> 's \<Rightarrow> bytes \<Rightarrow> (decode_event list \<times> (archive_error + unit)) option" where
  "decode_all step s input =
     (case step s input End of
        (s', Inl err) \<Rightarrow> Some ([], Inl err)
      | (s', Inr d) \<Rightarrow>
          if ds_event d = EvDone then Some ([EvDone], Inr ())
          else Option.bind (decode_all step s' (drop (ds_consumed d) input))
                 (\<lambda>(evs, r). Some (ds_event d # evs, r)))"

fun payload :: "decode_event list \<Rightarrow> bytes" where
  "payload [] = []"
| "payload (EvData bs # evs) = bs @ payload evs"
| "payload (_ # evs) = payload evs"

lemma payload_Cons: "payload (ev # evs) = (case ev of EvData bs \<Rightarrow> bs | _ \<Rightarrow> []) @ payload evs"
  by (cases ev) auto

lemma payload_append [simp]: "payload (xs @ ys) = payload xs @ payload ys"
  by (induction xs) (simp_all add: payload_Cons)

definition visible :: "decode_event list \<Rightarrow> decode_event list" where
  "visible evs = filter (\<lambda>ev. ev \<noteq> EvNeedInput) evs"

lemma visible_simps [simp]:
  "visible [] = []" "visible (ev # evs) = (if ev = EvNeedInput then [] else [ev]) @ visible evs"
  "visible (xs @ ys) = visible xs @ visible ys"
  by (simp_all add: visible_def)

lemma decode_all_cons:
  assumes "step s input End = (s', Inr (dstep c ev))" and "ev \<noteq> EvDone"
    and "decode_all step s' (drop c input) = Some (evs, r)"
  shows "decode_all step s input = Some (ev # evs, r)"
  using assms by (simp add: decode_all.simps [of step s input])

text \<open>The same result reported \<open>k\<close> bytes further into the input.\<close>

definition shift_consumed :: "nat \<Rightarrow> 's \<times> (archive_error + decode_step) \<Rightarrow> 's \<times> (archive_error + decode_step)" where
  "shift_consumed k r = (case r of (s, Inl e) \<Rightarrow> (s, Inl e)
     | (s, Inr d) \<Rightarrow> (s, Inr (dstep (ds_consumed d + k) (ds_event d))))"

lemma shift_consumed_Inr: "shift_consumed k r = (s, Inr d) \<longleftrightarrow>
    (\<exists>d0. r = (s, Inr d0) \<and> d = dstep (ds_consumed d0 + k) (ds_event d0))"
  by (auto simp: shift_consumed_def split: prod.splits sum.splits)

text \<open>The states a decoder can get into, whatever input it is shown and however often it is stepped.\<close>

inductive reached :: "'s decoder_step \<Rightarrow> 's \<Rightarrow> 's \<Rightarrow> bool" for step :: "'s decoder_step" and start :: 's where
  initial: "reached step start start"
| stepped: "reached step start s \<Longrightarrow> step s input e = (s', Inr d) \<Longrightarrow> reached step start s'"

locale stepping_decoder =
  fixes step :: "'s decoder_step"
    and inv :: "'s \<Rightarrow> bool"
    and rank :: "'s \<Rightarrow> 'r::wellorder"
    and allowance :: "'s \<Rightarrow> nat option"
  assumes inv_step: "inv s \<Longrightarrow> step s input e = (s', Inr d) \<Longrightarrow> inv s'"
    and consumed_le: "inv s \<Longrightarrow> step s input e = (s', Inr d) \<Longrightarrow> ds_consumed d \<le> length input"
    and live: "inv s \<Longrightarrow> step s input End = (s', Inr d) \<Longrightarrow> ds_event d \<noteq> EvDone \<Longrightarrow>
          0 < ds_consumed d \<or> rank s' < rank s"
    and charge: "inv s \<Longrightarrow> step s input e = (s', Inr d) \<Longrightarrow> allowance s = Some r \<Longrightarrow>
          \<exists>r'. allowance s' = Some r' \<and>
            length (case ds_event d of EvData bs \<Rightarrow> bs | _ \<Rightarrow> []) + r' \<le> r"
begin

lemma reached_inv: "reached step start s \<Longrightarrow> inv start \<Longrightarrow> inv s"
  by (induction rule: reached.induct) (auto intro: inv_step)

lemma decode_all_returns: "inv s \<Longrightarrow> \<exists>evs r. decode_all step s input = Some (evs, r)"
proof (induction "(length input, rank s)" arbitrary: s input
    rule: wf_induct [OF wf_lex_prod [OF wf_measure [of id] wf]])
  case 1
  obtain s' out where st: "step s input End = (s', out)" by force
  show ?case
  proof (cases out)
    case (Inl err)
    with st show ?thesis by (subst decode_all.simps) simp
  next
    case (Inr d)
    note st = st [unfolded Inr]
    show ?thesis
    proof (cases "ds_event d = EvDone")
      case True
      with st show ?thesis by (subst decode_all.simps) simp
    next
      case False
      let ?rest = "drop (ds_consumed d) input"
      have "((length ?rest, rank s'), (length input, rank s)) \<in> measure id <*lex*> {(x, y). x < y}"
        using live [OF 1(2) st False] consumed_le [OF 1(2) st] by auto
      with 1 inv_step [OF 1(2) st] obtain evs r where "decode_all step s' ?rest = Some (evs, r)"
        by blast
      with st False show ?thesis by (subst decode_all.simps) simp
    qed
  qed
qed

lemma decode_all_step_induct [consumes 2, case_names err fin rec]:
  assumes ret: "decode_all step s input = Some (evs, r)" and "inv s"
    and err: "\<And>s input s' err. inv s \<Longrightarrow> step s input End = (s', Inl err) \<Longrightarrow> P s input [] (Inl err)"
    and fin: "\<And>s input s' d. inv s \<Longrightarrow> step s input End = (s', Inr d) \<Longrightarrow> ds_event d = EvDone \<Longrightarrow>
          P s input [EvDone] (Inr ())"
    and rec: "\<And>s input s' d evs r. inv s \<Longrightarrow> step s input End = (s', Inr d) \<Longrightarrow> ds_event d \<noteq> EvDone \<Longrightarrow>
          inv s' \<Longrightarrow> P s' (drop (ds_consumed d) input) evs r \<Longrightarrow> P s input (ds_event d # evs) r"
  shows "P s input evs r"
  using ret \<open>inv s\<close>
proof (induction "(length input, rank s)" arbitrary: s input evs
    rule: wf_induct [OF wf_lex_prod [OF wf_measure [of id] wf]])
  case 1
  obtain s' out where st: "step s input End = (s', out)" by force
  show ?case
  proof (cases out)
    case (Inl err)
    with st 1 err [of s input s'] show ?thesis
      by (simp add: decode_all.simps [of step s input])
  next
    case (Inr d)
    note st = st [unfolded Inr]
    show ?thesis
    proof (cases "ds_event d = EvDone")
      case True
      with st 1 fin [of s input s'] show ?thesis
        by (simp add: decode_all.simps [of step s input])
    next
      case False
      let ?rest = "drop (ds_consumed d) input"
      obtain evs' where *: "decode_all step s' ?rest = Some (evs', r)" "evs = ds_event d # evs'"
        using 1(2) st False
        by (auto simp: decode_all.simps [of step s input] bind_eq_Some_conv)
      have "((length ?rest, rank s'), (length input, rank s)) \<in> measure id <*lex*> {(x, y). x < y}"
        using live [OF 1(3) st False] consumed_le [OF 1(3) st] by auto
      with 1(1) * inv_step [OF 1(3) st] have "P s' ?rest evs' r" by blast
      then show ?thesis
        using rec [OF 1(3) st False inv_step [OF 1(3) st]] * by simp
    qed
  qed
qed

lemma decode_all_budget:
  assumes "decode_all step s input = Some (evs, r)" and "inv s"
  shows "\<forall>n. allowance s = Some n \<longrightarrow> length (payload evs) \<le> n"
  using assms
proof (induction rule: decode_all_step_induct)
  case (err s input s' err)
  then show ?case by simp
next
  case (fin s input s' d)
  then show ?case by simp
next
  case (rec s input s' d evs r)
  show ?case
  proof (intro allI impI)
    fix n assume "allowance s = Some n"
    from charge [OF rec(1,2) this] obtain n' where n': "allowance s' = Some n'"
      "length (case ds_event d of EvData bs \<Rightarrow> bs | _ \<Rightarrow> []) + n' \<le> n" by blast
    with rec(5) have "length (payload evs) \<le> n'" by blast
    with n'(2) show "length (payload (ds_event d # evs)) \<le> n" by (simp add: payload_Cons)
  qed
qed

lemma decode_all_within:
  assumes "inv s" and "allowance s = lim"
  shows "\<exists>evs r. decode_all step s input = Some (evs, r) \<and> \<not> exceeds lim (length (payload evs))"
proof -
  obtain evs r where d: "decode_all step s input = Some (evs, r)"
    using decode_all_returns [OF assms(1)] by blast
  moreover have "\<not> exceeds lim (length (payload evs))"
    using decode_all_budget [OF d assms(1)] assms(2) by (cases lim) (auto simp: not_less)
  ultimately show ?thesis by blast
qed

end

text \<open>
  Decoders that hand out windows of the caller's input: payload is a piece of the input shown to
  the step and no output buffer is used.
\<close>

locale archive_decoder = stepping_decoder +
  assumes produced_0: "inv s \<Longrightarrow> step s input e = (s', Inr d) \<Longrightarrow> ds_produced d = 0"
    and data_chunk: "inv s \<Longrightarrow> step s input e = (s', Inr d) \<Longrightarrow> ds_event d = EvData bs \<Longrightarrow>
          bs = take (ds_consumed d) input \<and> bs \<noteq> []"
begin

lemma step_validates:
  assumes "inv s" and "step s input e = (s', Inr d)"
  shows "decode_validate d (length input) cap = Inr d"
proof -
  have "semantic_progress (ds_event d)"
    using data_chunk [OF assms] by (cases "ds_event d") auto
  then show ?thesis
    using consumed_le [OF assms] produced_0 [OF assms] by (simp add: decode_validate_def)
qed

lemma decode_all_payload_subseq:
  assumes "decode_all step s input = Some (evs, r)" and "inv s"
  shows "subseq (payload evs) input"
  using assms
proof (induction rule: decode_all_step_induct)
  case (err s input s' err)
  then show ?case by simp
next
  case (fin s input s' d)
  then show ?case by simp
next
  case (rec s input s' d evs r)
  let ?bs = "case ds_event d of EvData bs \<Rightarrow> bs | _ \<Rightarrow> []"
  have "subseq ?bs (take (ds_consumed d) input)"
    using data_chunk [OF rec(1,2)] by (auto split: decode_event.splits)
  then have "subseq (?bs @ payload evs) (take (ds_consumed d) input @ drop (ds_consumed d) input)"
    using rec(5) by (rule list_emb_append_mono)
  then show ?case by (simp add: payload_Cons)
qed

lemma decode_all_safe:
  assumes "inv s" and "allowance s = lim"
  shows "\<exists>evs r. decode_all step s input = Some (evs, r) \<and> subseq (payload evs) input \<and>
    \<not> exceeds lim (length (payload evs))"
  using decode_all_within [OF assms] decode_all_payload_subseq [OF _ assms(1)] by blast

end

end
