(* ===== verification/Oxide_Ar_Decoder.thy ===== *)
theory Oxide_Ar_Decoder
  imports Oxide_Protocol
begin

text \<open>
  The decoder half of \<open>format/ar.rs\<close>: the header-field parsers, the three member-name conventions
  (SysV names, the GNU string table, BSD inline names), thin archives, and the incremental state
  machine \<open>ArDecoder::step\<close>. The theory interprets the decoder as an \<open>archive_decoder\<close>.
\<close>

section \<open>Fixed header flds\<close>

definition AR_MAGIC :: bytes where
  "AR_MAGIC = ascii ''!<arch>'' @ [10]"

definition AR_THIN_MAGIC :: bytes where
  "AR_THIN_MAGIC = ascii ''!<thin>'' @ [10]"

definition AR_HEADER :: nat where
  "AR_HEADER = 60"

definition F_NAME :: "nat \<times> nat" where "F_NAME = (0, 16)"

definition F_MTIME :: "nat \<times> nat" where "F_MTIME = (16, 28)"

definition F_UID :: "nat \<times> nat" where "F_UID = (28, 34)"

definition F_GID :: "nat \<times> nat" where "F_GID = (34, 40)"

definition F_MODE :: "nat \<times> nat" where "F_MODE = (40, 48)"

definition F_SIZE :: "nat \<times> nat" where "F_SIZE = (48, 58)"

definition F_MAGIC :: "nat \<times> nat" where "F_MAGIC = (58, 60)"

lemmas ar_layout = F_NAME_def F_MTIME_def F_UID_def F_GID_def F_MODE_def F_SIZE_def F_MAGIC_def

definition ar_field :: "bytes \<Rightarrow> nat \<times> nat \<Rightarrow> bytes" where
  "ar_field hdr r = slice hdr (fst r) (snd r)"

fun rtrim :: "bytes \<Rightarrow> byte \<Rightarrow> bytes" where
  "rtrim s b = (if s \<noteq> [] \<and> last s = b then rtrim (butlast s) b else s)"

declare rtrim.simps [simp del]

fun ar_decimal_loop :: "nat \<Rightarrow> bytes \<Rightarrow> error + nat" where
  "ar_decimal_loop val [] = Inr val"
| "ar_decimal_loop val (b # bs) =
     (if \<not> is_ascii_digit b then Inl (Malformed ''ar: invalid decimal digit'')
      else bindE (ok_or (Malformed ''ar: numeric overflow'')
                   (Option.bind (checked_mul val 10) (\<lambda>v. checked_add v (unat (b - 48)))))
             (\<lambda>v. ar_decimal_loop v bs))"

definition ar_parse_decimal :: "bytes \<Rightarrow> error + nat" where
  "ar_parse_decimal fld =
     (if fld = [] then Inl (Malformed ''ar: empty numeric field'') else ar_decimal_loop 0 fld)"

fun ar_octal_loop :: "nat \<Rightarrow> bytes \<Rightarrow> error + nat" where
  "ar_octal_loop val [] = Inr val"
| "ar_octal_loop val (b # bs) =
     (if \<not> (48 \<le> b \<and> b \<le> 55) then Inl (Malformed ''ar: invalid octal digit'')
      else bindE (ok_or (Malformed ''ar: numeric overflow'')
                   (Option.bind (checked_mul val 8) (\<lambda>v. checked_add v (unat (b - 48)))))
             (\<lambda>v. ar_octal_loop v bs))"

definition ar_parse_octal :: "bytes \<Rightarrow> error + nat" where
  "ar_parse_octal fld = ar_octal_loop 0 fld"

definition ar_usize_of :: "nat \<Rightarrow> error + nat" where
  "ar_usize_of v =
     (if v \<le> usize_max then Inr v else Inl (LimitExceeded ''ar: size exceeds usize''))"

definition gnu_table_name :: "bytes \<Rightarrow> nat \<Rightarrow> error + bytes" where
  "gnu_table_name table offset =
     bindE (ok_or (Malformed ''ar: // offset out of range'') (get_from table offset)) (\<lambda>rest.
       let end = opt_or (length rest) (position (\<lambda>c. c = 10) rest) in
       Inr (opt_or (take end rest) (strip_suffix (take end rest) [47])))"

section \<open>Decoder state\<close>

record ar_fields =
  arf_mode :: nat
  arf_uid :: nat
  arf_gid :: nat
  arf_mtime :: "timestamp option"

datatype ar_decoder_state =
    ArMagic
  | ArHeader
  | ArSpecial (ar_remaining: nat) (ar_padding: nat) (ar_is_table: bool)
  | ArBsdName nat nat nat ar_fields
  | ArData nat nat
  | ArEndEntry nat
  | ArDone

record ar_decoder =
  ar_limits :: limits
  ar_state :: ar_decoder_state
  ar_pending :: bytes
  ar_string_table :: bytes
  ar_thin :: bool
  ar_entries :: nat
  ar_total :: nat

definition ar_decoder_new :: "limits \<Rightarrow> ar_decoder" where
  "ar_decoder_new l =
     \<lparr>ar_limits = l, ar_state = ArMagic, ar_pending = [], ar_string_table = [],
      ar_thin = False, ar_entries = 0, ar_total = 0\<rparr>"

definition ar_probe :: "bytes \<Rightarrow> unit probe_result" where
  "ar_probe pre =
     (if length pre < length AR_MAGIC then ProbeNeedMore (length AR_MAGIC)
      else if starts_with pre AR_MAGIC \<or> starts_with pre AR_THIN_MAGIC then ProbeMatch ()
      else ProbeNoMatch)"

definition ar_fill :: "bytes \<Rightarrow> nat \<Rightarrow> bytes \<Rightarrow> bytes \<times> nat" where
  "ar_fill pending target input =
     (let count = min (target - length pending) (length input)
      in (pending @ take count input, count))"

abbreviation ar_err :: "error_kind \<Rightarrow> string \<Rightarrow> archive_error" where
  "ar_err \<equiv> format_error ''ar''"

definition ar_header_fields :: "bytes \<Rightarrow> archive_error + ar_fields" where
  "ar_header_fields header =
     (if ar_field header F_MAGIC \<noteq> [96, 10]
      then Inl (ar_err ErrMalformed ''bad member header terminator'')
      else bindE (map_err archive_error_from
                   (ar_parse_octal (rtrim (ar_field header F_MODE) 32))) (\<lambda>mode.
        Inr \<lparr>arf_mode = mode AND 0xfff,
             arf_uid = unwrap_or 0 (ar_parse_decimal (rtrim (ar_field header F_UID) 32)),
             arf_gid = unwrap_or 0 (ar_parse_decimal (rtrim (ar_field header F_GID) 32)),
             arf_mtime = map_option (\<lambda>s. timestamp_from_seconds (i64_saturate s))
               (result_ok (ar_parse_decimal (rtrim (ar_field header F_MTIME) 32)))\<rparr>))"

definition ar_metadata ::
    "ar_decoder \<Rightarrow> bytes \<Rightarrow> nat \<Rightarrow> ar_fields \<Rightarrow> archive_error + entry_metadata" where
  "ar_metadata s name sz flds =
     (if exceeds (path_bytes (ar_limits s)) (length name)
      then Inl (ar_err ErrLimit ''pathname exceeds configured limit'')
      else if exceeds (entry_bytes (ar_limits s)) sz
      then Inl (ar_err ErrLimit ''member exceeds configured size limit'')
      else
        let md = b_times (times_default\<lparr>modified := arf_mtime flds\<rparr>)
                  (b_owner \<lparr>own_uid = Some (arf_uid flds), own_gid = Some (arf_gid flds),
                            own_user = None, own_group = None\<rparr>
                  (b_mode (Some (arf_mode flds))
                  (b_size (Some sz)
                  (builder KindFile (path_from_bytes name))))) in
        Inr (if ar_thin s
             then b_extension (extension_new ''ar-thin'' (ascii ''external-reference'') []) md
             else md))"

definition ar_count_entry :: "ar_decoder \<Rightarrow> ar_decoder \<times> (archive_error + unit)" where
  "ar_count_entry s =
     (case checked_add (ar_entries s) 1 of
        None \<Rightarrow> (s, Inl (ar_err ErrLimit ''entry count overflow''))
      | Some n \<Rightarrow>
          let s' = s\<lparr>ar_entries := n\<rparr> in
          if exceeds (max_entries (ar_limits s)) n
          then (s', Inl (ar_err ErrLimit ''entry count exceeds configured limit''))
          else (s', Inr ()))"

definition resolve_gnu_name :: "ar_decoder \<Rightarrow> nat \<Rightarrow> archive_error + bytes" where
  "resolve_gnu_name s offset = map_err archive_error_from (gnu_table_name (ar_string_table s) offset)"

section \<open>The state machine\<close>

text \<open>The tail shared by the two ways of starting an entry: metadata, entry count, next state.\<close>

definition ar_begin_entry ::
    "ar_decoder \<Rightarrow> bytes \<Rightarrow> nat \<Rightarrow> nat \<Rightarrow> ar_fields \<Rightarrow> nat \<Rightarrow>
     ar_decoder \<times> (archive_error + decode_step)" where
  "ar_begin_entry s name body padding flds consumed =
     (case ar_metadata s name body flds of
        Inl e \<Rightarrow> (s, Inl e)
      | Inr md \<Rightarrow>
          (case ar_count_entry s of
             (s', Inl e) \<Rightarrow> (s', Inl e)
           | (s', Inr _) \<Rightarrow>
               (s'\<lparr>ar_state := (if ar_thin s' then ArEndEntry 0 else ArData body padding)\<rparr>,
                Inr (dstep consumed (EvEntry md)))))"

definition ar_step_end_entry :: "ar_decoder \<Rightarrow> nat \<Rightarrow> bytes \<Rightarrow> end_of_input \<Rightarrow>
    ar_decoder \<times> (archive_error + decode_step)" where
  "ar_step_end_entry s padding input e =
     (if length input < padding then
        (if e = End then (s, Inl (ar_err ErrMalformed ''truncated member padding''))
         else (s, Inr (dstep 0 EvNeedInput)))
      else (s\<lparr>ar_state := ArHeader\<rparr>, Inr (dstep padding EvEndEntry)))"

definition ar_step_data :: "ar_decoder \<Rightarrow> nat \<Rightarrow> nat \<Rightarrow> bytes \<Rightarrow> end_of_input \<Rightarrow>
    ar_decoder \<times> (archive_error + decode_step)" where
  "ar_step_data s remaining padding input e =
     (if remaining = 0 then
        ar_step_end_entry (s\<lparr>ar_state := ArEndEntry padding\<rparr>) padding input e
      else if input = [] then
        (if e = End then (s, Inl (ar_err ErrMalformed ''truncated member data''))
         else (s, Inr (dstep 0 EvNeedInput)))
      else
        let count = min (length input) (min remaining usize_max) in
        (case checked_add (ar_total s) count of
           None \<Rightarrow> (s, Inl (ar_err ErrLimit ''decoded byte count overflow''))
         | Some t \<Rightarrow>
             let s' = s\<lparr>ar_total := t\<rparr> in
             if exceeds (decoded_total (ar_limits s)) t
             then (s', Inl (ar_err ErrLimit ''decoded total exceeds configured limit''))
             else (s'\<lparr>ar_state := ArData (remaining - count) padding\<rparr>,
                   Inr (dstep count (EvData (take count input))))))"

definition ar_step_special :: "ar_decoder \<Rightarrow> nat \<Rightarrow> nat \<Rightarrow> bool \<Rightarrow> bytes \<Rightarrow> end_of_input \<Rightarrow>
    ar_decoder \<times> (archive_error + decode_step)" where
  "ar_step_special s remaining padding string_table input e =
     (let count = min remaining (length input);
          s1 = (if string_table
                then s\<lparr>ar_string_table := ar_string_table s @ take count input\<rparr> else s);
          left = remaining - count in
      if left \<noteq> 0 then
        (if e = End then (s1, Inl (ar_err ErrMalformed ''truncated special member''))
         else (s1\<lparr>ar_state := ArSpecial left padding string_table\<rparr>,
               Inr (dstep count EvNeedInput)))
      else if length input - count < padding then
        (let s2 = s1\<lparr>ar_state := ArSpecial 0 padding string_table\<rparr> in
         if e = End then (s2, Inl (ar_err ErrMalformed ''truncated special-member padding''))
         else (s2, Inr (dstep count EvNeedInput)))
      else (s1\<lparr>ar_state := ArHeader\<rparr>, Inr (dstep (count + padding) EvNeedInput)))"

definition ar_step_bsd_name ::
    "ar_decoder \<Rightarrow> nat \<Rightarrow> nat \<Rightarrow> nat \<Rightarrow> ar_fields \<Rightarrow> bytes \<Rightarrow> end_of_input \<Rightarrow>
     ar_decoder \<times> (archive_error + decode_step)" where
  "ar_step_bsd_name s remaining body_size padding flds input e =
     (let count = min remaining (length input);
          s1 = s\<lparr>ar_pending := ar_pending s @ take count input\<rparr>;
          left = remaining - count in
      if left \<noteq> 0 then
        (if e = End then (s1, Inl (ar_err ErrMalformed ''truncated BSD inline name''))
         else (s1\<lparr>ar_state := ArBsdName left body_size padding flds\<rparr>,
               Inr (dstep count EvNeedInput)))
      else
        ar_begin_entry (s1\<lparr>ar_state := ArDone, ar_pending := []\<rparr>)
          (ar_pending s1) body_size padding flds count)"

text \<open>One complete member header: lines 531 to 613 of the source.\<close>

definition ar_member :: "ar_decoder \<Rightarrow> bytes \<Rightarrow> nat \<Rightarrow>
    ar_decoder \<times> (archive_error + decode_step)" where
  "ar_member s header consumed =
     (case bindE (ar_header_fields header) (\<lambda>flds.
           bindE (map_err archive_error_from
                   (bindE (ar_parse_decimal (rtrim (ar_field header F_SIZE) 32)) ar_usize_of))
             (\<lambda>sz. Inr (flds, sz))) of
        Inl e \<Rightarrow> (s, Inl e)
      | Inr (flds, sz) \<Rightarrow>
          let padding = sz AND 1;
              raw_name = rtrim (ar_field header F_NAME) 32 in
          if raw_name = ascii ''//'' \<or> raw_name = ascii ''/'' \<or> raw_name = ascii ''/SYM64/'' then
            if raw_name = ascii ''//'' \<and> exceeds (metadata_bytes (ar_limits s)) sz
            then (s, Inl (ar_err ErrLimit ''GNU string table exceeds metadata budget''))
            else
              ((if raw_name = ascii ''//'' then s\<lparr>ar_string_table := []\<rparr> else s)
                 \<lparr>ar_state := ArSpecial sz padding (raw_name = ascii ''//'')\<rparr>,
               Inr (dstep consumed EvNeedInput))
          else
            (case strip_prefix raw_name (ascii ''#1/'') of
               Some len \<Rightarrow>
                 (case map_err archive_error_from (bindE (ar_parse_decimal len) ar_usize_of) of
                    Inl e \<Rightarrow> (s, Inl e)
                  | Inr name_length \<Rightarrow>
                      (case checked_sub sz name_length of
                         None \<Rightarrow> (s, Inl (ar_err ErrMalformed ''BSD name is longer than member''))
                       | Some body_size \<Rightarrow>
                           if exceeds (path_bytes (ar_limits s)) name_length
                           then (s, Inl (ar_err ErrLimit ''BSD pathname exceeds configured limit''))
                           else (s\<lparr>ar_pending := [],
                                   ar_state := ArBsdName name_length body_size padding flds\<rparr>,
                                 Inr (dstep consumed EvNeedInput))))
             | None \<Rightarrow>
                 (case (if 2 \<le> length raw_name \<and> raw_name ! 0 = 47 \<and> is_ascii_digit (raw_name ! 1)
                        then bindE (map_err archive_error_from
                                     (bindE (ar_parse_decimal (drop 1 raw_name)) ar_usize_of))
                               (resolve_gnu_name s)
                        else Inr (opt_or raw_name (strip_suffix raw_name [47]))) of
                    Inl e \<Rightarrow> (s, Inl e)
                  | Inr name \<Rightarrow> ar_begin_entry s name sz padding flds consumed)))"

definition ar_step_header :: "ar_decoder \<Rightarrow> bytes \<Rightarrow> nat \<Rightarrow> end_of_input \<Rightarrow>
    ar_decoder \<times> (archive_error + decode_step)" where
  "ar_step_header s input consumed0 e =
     (if ar_pending s = [] \<and> consumed0 = length input \<and> e = End
      then (s\<lparr>ar_state := ArDone\<rparr>, Inr (dstep consumed0 EvDone))
      else
        let (pending, n) = ar_fill (ar_pending s) AR_HEADER (drop consumed0 input);
            consumed = consumed0 + n in
        if length pending < AR_HEADER then
          (if e = End
           then (s\<lparr>ar_pending := pending\<rparr>, Inl (ar_err ErrMalformed ''truncated member header''))
           else (s\<lparr>ar_pending := pending\<rparr>, Inr (dstep consumed EvNeedInput)))
        else ar_member (s\<lparr>ar_pending := []\<rparr>) pending consumed)"

definition ar_step_magic :: "ar_decoder \<Rightarrow> bytes \<Rightarrow> end_of_input \<Rightarrow>
    ar_decoder \<times> (archive_error + decode_step)" where
  "ar_step_magic s input e =
     (let (pending, consumed) = ar_fill (ar_pending s) (length AR_MAGIC) input;
          s1 = s\<lparr>ar_pending := pending\<rparr> in
      if length pending < length AR_MAGIC then
        (if e = End then (s1, Inl (ar_err ErrMalformed ''truncated global magic''))
         else (s1, Inr (dstep consumed EvNeedInput)))
      else
        let s2 = s1\<lparr>ar_thin := (pending = AR_THIN_MAGIC)\<rparr> in
        if pending \<noteq> AR_MAGIC \<and> pending \<noteq> AR_THIN_MAGIC
        then (s2, Inl (ar_err ErrMalformed ''bad global magic''))
        else ar_step_header (s2\<lparr>ar_pending := [], ar_state := ArHeader\<rparr>) input consumed e)"

definition ar_step :: "ar_decoder decoder_step" where
  "ar_step s input e =
     (case ar_state s of
        ArDone \<Rightarrow>
          if input \<noteq> []
          then (s, Inl (ar_err ErrProtocol ''input supplied after archive completion''))
          else (s, Inr (dstep 0 EvDone))
      | ArData remaining padding \<Rightarrow> ar_step_data s remaining padding input e
      | ArEndEntry padding \<Rightarrow> ar_step_end_entry s padding input e
      | ArSpecial remaining padding table \<Rightarrow> ar_step_special s remaining padding table input e
      | ArBsdName remaining body padding flds \<Rightarrow>
          ar_step_bsd_name s remaining body padding flds input e
      | ArMagic \<Rightarrow> ar_step_magic s input e
      | ArHeader \<Rightarrow> ar_step_header s input 0 e)"

section \<open>The decoder contract\<close>

definition ar_inv :: "ar_decoder \<Rightarrow> bool" where
  "ar_inv s \<longleftrightarrow>
     (ar_state s = ArMagic \<longrightarrow> length (ar_pending s) < 8) \<and>
     (ar_state s = ArHeader \<longrightarrow> length (ar_pending s) < 60) \<and>
     (\<forall>r p t. ar_state s = ArSpecial r p t \<longrightarrow> ar_pending s = []) \<and>
     (\<forall>r p. ar_state s = ArData r p \<longrightarrow> ar_pending s = [] \<and> r \<le> u64_max) \<and>
     (\<forall>n r p f. ar_state s = ArBsdName n r p f \<longrightarrow> r \<le> u64_max) \<and>
     (\<forall>p. ar_state s = ArEndEntry p \<longrightarrow> ar_pending s = [])"

fun ar_rank :: "ar_decoder_state \<Rightarrow> nat" where
  "ar_rank ArMagic = 5"
| "ar_rank (ArSpecial _ _ _) = 4"
| "ar_rank (ArBsdName _ _ _ _) = 4"
| "ar_rank (ArData _ _) = 3"
| "ar_rank (ArEndEntry _) = 2"
| "ar_rank ArHeader = 1"
| "ar_rank ArDone = 0"

definition ar_allowance :: "ar_decoder \<Rightarrow> nat option" where
  "ar_allowance s = map_option (\<lambda>l. l - ar_total s) (decoded_total (ar_limits s))"

text \<open>
  What every successful transition guarantees, stated once and proved for each branch of the step
  function: the progress bound, the origin of payload bytes, and the frame of budget and limits.
\<close>

definition ar_ok :: "ar_decoder \<Rightarrow> bytes \<Rightarrow> ar_decoder \<Rightarrow> decode_step \<Rightarrow> bool" where
  "ar_ok s input s' d \<longleftrightarrow>
     ar_inv s' \<and> ds_consumed d \<le> length input \<and> ds_produced d = 0 \<and>
     ar_limits s' = ar_limits s \<and>
     (case ds_event d of
        EvData bs \<Rightarrow> bs = take (ds_consumed d) input \<and> bs \<noteq> [] \<and>
          ar_total s' = ar_total s + length bs \<and>
          \<not> exceeds (decoded_total (ar_limits s)) (ar_total s')
      | _ \<Rightarrow> ar_total s' = ar_total s)"

lemma magic_length [simp]: "length AR_MAGIC = 8" "length AR_THIN_MAGIC = 8"
  by (simp_all add: AR_MAGIC_def AR_THIN_MAGIC_def ascii_def)

lemma ar_count_entry_ok:
  "ar_count_entry s = (s', Inr u) \<Longrightarrow>
   s' = s\<lparr>ar_entries := Suc (ar_entries s)\<rparr> \<and> \<not> exceeds (max_entries (ar_limits s)) (ar_entries s')"
  by (auto simp: ar_count_entry_def Let_def split: option.splits if_splits)

lemma ar_begin_entry_ok:
  assumes "ar_begin_entry s name body padding flds n = (s', Inr d)"
  shows "ds_consumed d = n \<and> ds_produced d = 0 \<and> (\<exists>md. ds_event d = EvEntry md) \<and>
    ar_limits s' = ar_limits s \<and> ar_total s' = ar_total s \<and> ar_pending s' = ar_pending s \<and>
    (ar_state s' = ArEndEntry 0 \<or> ar_state s' = ArData body padding)"
  using assms
  by (auto simp: ar_begin_entry_def split: sum.splits prod.splits if_splits dest!: ar_count_entry_ok)

lemma ar_member_ok:
  assumes "ar_member s header n = (s', Inr d)" and "ar_pending s = []"
  shows "ds_consumed d = n \<and> ds_produced d = 0 \<and>
    (ds_event d = EvNeedInput \<or> (\<exists>md. ds_event d = EvEntry md)) \<and>
    ar_limits s' = ar_limits s \<and> ar_total s' = ar_total s \<and> ar_pending s' = [] \<and>
    ar_state s' \<notin> {ArMagic, ArHeader, ArDone} \<and>
    (\<forall>r p. ar_state s' = ArData r p \<longrightarrow> r \<le> u64_max) \<and>
    (\<forall>k r p f. ar_state s' = ArBsdName k r p f \<longrightarrow> r \<le> u64_max)"
  using assms
  by (auto simp: ar_member_def Let_def bindE_Inr_iff ar_usize_of_def checked_sub_def dest: ar_begin_entry_ok
      split: sum.splits prod.splits if_splits option.splits)

lemma ar_fill_count:
  "ar_fill pending target input = (p, n) \<Longrightarrow>
   n \<le> length input \<and> p = pending @ take n input \<and> n = min (target - length pending) (length input)"
  by (auto simp: ar_fill_def Let_def)

lemma ar_step_header_ok:
  assumes "ar_step_header s input c e = (s', Inr d)" and "c \<le> length input" and "ar_state s = ArHeader"
  shows "ar_ok s input s' d \<and> (\<exists>k. ds_consumed d = c + k) \<and>
    (e = End \<longrightarrow> length (ar_pending s) < 60 \<longrightarrow> ds_event d = EvDone \<or> c < ds_consumed d)"
proof -
  obtain p n where fill: "ar_fill (ar_pending s) AR_HEADER (drop c input) = (p, n)" by force
  note n = ar_fill_count [OF fill]
  consider (fin) "ar_pending s = [] \<and> c = length input \<and> e = End"
    | (short) "\<not> (ar_pending s = [] \<and> c = length input \<and> e = End)" "length p < 60"
    | (full) "\<not> (ar_pending s = [] \<and> c = length input \<and> e = End)" "60 \<le> length p"
    by force
  then show ?thesis
  proof cases
    case fin
    with assms show ?thesis by (auto simp: ar_step_header_def ar_ok_def ar_inv_def)
  next
    case short
    with assms(1) fill have "e \<noteq> End" "s' = s\<lparr>ar_pending := p\<rparr>" "d = dstep (c + n) EvNeedInput"
      by (simp_all add: ar_step_header_def AR_HEADER_def split: if_splits)
    with short n assms show ?thesis by (auto simp: ar_ok_def ar_inv_def)
  next
    case full
    with assms(1) fill have "ar_member (s\<lparr>ar_pending := []\<rparr>) p (c + n) = (s', Inr d)"
      by (simp add: ar_step_header_def AR_HEADER_def split: if_splits)
    from ar_member_ok [OF this] full n assms(2) show ?thesis
      by (auto simp: ar_ok_def ar_inv_def AR_HEADER_def)
  qed
qed

lemma ar_step_magic_ok:
  assumes "ar_step_magic s input e = (s', Inr d)" and "ar_inv s" and "ar_state s = ArMagic"
  shows "ar_ok s input s' d \<and> (e = End \<longrightarrow> ds_event d = EvDone \<or> 0 < ds_consumed d)"
proof -
  obtain p n where fill: "ar_fill (ar_pending s) 8 input = (p, n)" by force
  note n = ar_fill_count [OF fill]
  have len: "length (ar_pending s) < 8" using assms by (simp add: ar_inv_def)
  show ?thesis
  proof (cases "length p < 8")
    case True
    with assms(1) have "e \<noteq> End" "s' = s\<lparr>ar_pending := p\<rparr>" "d = dstep n EvNeedInput"
      by (simp_all add: ar_step_magic_def fill Let_def split: if_splits)
    with True n assms(3) show ?thesis by (auto simp: ar_ok_def ar_inv_def)
  next
    case False
    let ?s = "s\<lparr>ar_thin := (p = AR_THIN_MAGIC), ar_pending := [], ar_state := ArHeader\<rparr>"
    from False n len have "0 < n" by auto
    from False assms(1) have "ar_step_header ?s input n e = (s', Inr d)"
      by (auto simp: ar_step_magic_def fill Let_def split: if_splits)
    from ar_step_header_ok [OF this] n \<open>0 < n\<close> show ?thesis
      by (auto simp: ar_ok_def split: decode_event.splits)
  qed
qed

lemma ar_step_end_entry_ok:
  assumes "ar_step_end_entry s padding input e = (s', Inr d)" and "ar_inv s"
    and "ar_pending s = []" and "ar_state s = ArEndEntry padding"
  shows "ar_ok s input s' d \<and> (e = End \<longrightarrow> ar_state s' = ArHeader)"
  using assms by (auto simp: ar_step_end_entry_def ar_ok_def ar_inv_def split: if_splits)

lemma ar_step_data_ok:
  assumes "ar_step_data s remaining padding input e = (s', Inr d)" and "ar_inv s"
    and "ar_state s = ArData remaining padding"
  shows "ar_ok s input s' d \<and> (e = End \<longrightarrow> 0 < ds_consumed d \<or> ar_state s' = ArHeader)"
proof (cases "remaining = 0")
  case True
  let ?s = "s\<lparr>ar_state := ArEndEntry padding\<rparr>"
  from True assms have *: "ar_step_end_entry ?s padding input e = (s', Inr d)" "ar_inv ?s"
    "ar_pending ?s = []" "ar_state ?s = ArEndEntry padding"
    by (auto simp: ar_step_data_def ar_inv_def)
  from ar_step_end_entry_ok [OF *] show ?thesis by (auto simp: ar_ok_def split: decode_event.splits)
next
  case False
  with assms show ?thesis
    by (auto simp: ar_step_data_def ar_ok_def ar_inv_def Let_def u64_max_def
        split: if_splits option.splits)
qed

lemma ar_step_special_ok:
  assumes "ar_step_special s remaining padding table input e = (s', Inr d)" and "ar_inv s"
    and "ar_state s = ArSpecial remaining padding table"
  shows "ar_ok s input s' d \<and> (e = End \<longrightarrow> ar_state s' = ArHeader)"
  using assms
  by (auto simp: ar_step_special_def ar_ok_def ar_inv_def Let_def split: if_splits)

lemma ar_step_bsd_name_ok:
  assumes "ar_step_bsd_name s remaining body padding flds input e = (s', Inr d)" and "body \<le> u64_max"
  shows "ar_ok s input s' d \<and> (e = End \<longrightarrow> ar_rank (ar_state s') < 4)"
  using assms
  by (auto simp: ar_step_bsd_name_def ar_ok_def ar_inv_def Let_def dest!: ar_begin_entry_ok
      split: if_splits)

lemma ar_step_ok:
  assumes "ar_step s input e = (s', Inr d)" and "ar_inv s"
  shows "ar_ok s input s' d \<and>
    (e = End \<longrightarrow> ds_event d = EvDone \<or> 0 < ds_consumed d \<or> ar_rank (ar_state s') < ar_rank (ar_state s))"
proof (cases "ar_state s")
  case ArMagic
  with assms ar_step_magic_ok show ?thesis by (simp add: ar_step_def) blast
next
  case ArHeader
  with assms have "ar_step_header s input 0 e = (s', Inr d)" by (simp add: ar_step_def)
  from ar_step_header_ok [OF this _ ArHeader] ArHeader assms(2) show ?thesis
    by (auto simp: ar_inv_def)
next
  case (ArSpecial r p t)
  with assms have "ar_step_special s r p t input e = (s', Inr d)" by (simp add: ar_step_def)
  from ar_step_special_ok [OF this assms(2) ArSpecial] ArSpecial show ?thesis by auto
next
  case (ArBsdName r b p f)
  with assms have "ar_step_bsd_name s r b p f input e = (s', Inr d)" by (simp add: ar_step_def)
  from ar_step_bsd_name_ok [OF this] ArBsdName assms(2) show ?thesis by (auto simp: ar_inv_def)
next
  case (ArData r p)
  with assms have "ar_step_data s r p input e = (s', Inr d)" by (simp add: ar_step_def)
  from ar_step_data_ok [OF this assms(2) ArData] ArData show ?thesis by auto
next
  case (ArEndEntry p)
  with assms have "ar_step_end_entry s p input e = (s', Inr d)" by (simp add: ar_step_def)
  from ar_step_end_entry_ok [OF this assms(2) _ ArEndEntry] ArEndEntry assms(2) show ?thesis
    by (auto simp: ar_inv_def)
next
  case ArDone
  with assms show ?thesis by (auto simp: ar_step_def ar_ok_def ar_inv_def split: if_splits)
qed

interpretation ar_dec: archive_decoder ar_step ar_inv "\<lambda>s. ar_rank (ar_state s)" ar_allowance
proof unfold_locales
  fix s input e s' d r
  assume "ar_inv s" "ar_step s input e = (s', Inr d)" "ar_allowance s = Some r"
  then show "\<exists>r'. ar_allowance s' = Some r' \<and>
      length (case ds_event d of EvData bs \<Rightarrow> bs | _ \<Rightarrow> []) + r' \<le> r"
    using ar_step_ok [of s input e s' d]
    by (auto simp: ar_allowance_def ar_ok_def split: decode_event.splits)
qed (auto dest!: ar_step_ok simp: ar_ok_def)

lemma ar_inv_new [simp]: "ar_inv (ar_decoder_new l)"
  by (simp add: ar_inv_def ar_decoder_new_def)

end
