(* ===== verification/Oxide_Writer.thy ===== *)
theory Oxide_Writer
  imports Oxide_Protocol
begin

text \<open>
  The sequential writer of \<open>libarchive_oxide/src/stream.rs\<close> (\<open>ArchiveWriter\<close>): it validates
  metadata, drives an encoder through its commands with a bounded output buffer, and copies what the
  encoder produced to the destination. The destination (\<open>W: Write\<close> behind its outer filter) is a
  parameter: functions that append bytes and finalise it and say whether they failed.

  The locale \<open>archive_encoder\<close> is the contract between the writer and the encoders: an encoder
  behaves like an abstract transition \<open>accept\<close> that emits bytes, whatever the size of the output
  buffer. The locale proves that the writer's loops return and deliver exactly those bytes.
\<close>

section \<open>Encoders and the writer state\<close>

type_synonym 's encoder_step =
  "'s \<Rightarrow> encode_command \<Rightarrow> nat \<Rightarrow> 's \<times> (archive_error + encode_step \<times> bytes)"

text \<open>The destination behind the writer: \<open>write_all\<close> and the finalisation of the outer filter.\<close>

record 'w sink =
  snk_write :: "'w \<Rightarrow> bytes \<Rightarrow> 'w \<times> bool"
  snk_finish :: "'w \<Rightarrow> 'w \<times> bool"

datatype stream_error = StreamArchive archive_error | StreamIo

record ('s, 'w) archive_writer =
  wr_output :: 'w
  wr_encoder :: 's
  wr_buffer :: nat
  wr_failed :: bool

definition BUFFER :: nat where
  "BUFFER = 64 * 1024"

definition writer_with_encoder :: "'w \<Rightarrow> 's \<Rightarrow> ('s, 'w) archive_writer" where
  "writer_with_encoder out enc =
     \<lparr>wr_output = out, wr_encoder = enc, wr_buffer = BUFFER, wr_failed = False\<rparr>"

definition emit ::
    "'w sink \<Rightarrow> bytes \<Rightarrow> ('s, 'w) archive_writer \<Rightarrow> ('s, 'w) archive_writer \<times> (stream_error + unit)" where
  "emit sink produced w =
     (if produced = [] then (w, Inr ())
      else let (out, ok) = snk_write sink (wr_output w) produced in
        if ok then (w\<lparr>wr_output := out\<rparr>, Inr ())
        else (w\<lparr>wr_output := out, wr_failed := True\<rparr>, Inl StreamIo))"

definition ensure_live :: "('s, 'w) archive_writer \<Rightarrow> stream_error + unit" where
  "ensure_live w =
     (if wr_failed w
      then Inl (StreamArchive (plain_error ErrProtocol
             ''archive writer is poisoned by an earlier I/O error''))
      else Inr ())"

text \<open>One encoder step followed by \<open>emit\<close>, the body every writer loop shares.\<close>

definition drive ::
    "'s encoder_step \<Rightarrow> 'w sink \<Rightarrow> encode_command \<Rightarrow> ('s, 'w) archive_writer \<Rightarrow>
     ('s, 'w) archive_writer \<times> (stream_error + encode_step)" where
  "drive step sink cmd w =
     (case step (wr_encoder w) cmd (wr_buffer w) of
        (s', Inl e) \<Rightarrow> (w\<lparr>wr_encoder := s'\<rparr>, Inl (StreamArchive e))
      | (s', Inr (d, out)) \<Rightarrow>
          (case emit sink out (w\<lparr>wr_encoder := s'\<rparr>) of
             (w', Inl e) \<Rightarrow> (w', Inl e)
           | (w', Inr _) \<Rightarrow> (w', Inr d)))"

section \<open>The writer operations\<close>

type_synonym ('s, 'w) write_result =
  "(('s, 'w) archive_writer \<times> (stream_error + unit)) option"

partial_function (option) start_entry_loop ::
    "'s encoder_step \<Rightarrow> 'w sink \<Rightarrow> entry_metadata \<Rightarrow> ('s, 'w) archive_writer \<Rightarrow>
     ('s, 'w) write_result" where
  "start_entry_loop step sink md w =
     (case drive step sink (BeginEntry md) w of
        (w', Inl e) \<Rightarrow> Some (w', Inl e)
      | (w', Inr d) \<Rightarrow>
          if es_consumed d = 1 then Some (w', Inr ())
          else if es_produced d = 0 \<and> es_status d \<noteq> EncNeedOutput
          then Some (w', Inl (StreamArchive (plain_error ErrProtocol
                 ''tar encoder did not accept begin-entry'')))
          else start_entry_loop step sink md w')"

definition start_entry ::
    "'s encoder_step \<Rightarrow> 'w sink \<Rightarrow> entry_metadata \<Rightarrow> ('s, 'w) archive_writer \<Rightarrow>
     ('s, 'w) write_result" where
  "start_entry step sink md w =
     (case bindE (ensure_live w) (\<lambda>_. map_err StreamArchive (validate md)) of
        Inl e \<Rightarrow> Some (w, Inl e)
      | Inr _ \<Rightarrow> start_entry_loop step sink md w)"

partial_function (option) write_data_loop ::
    "'s encoder_step \<Rightarrow> 'w sink \<Rightarrow> bytes \<Rightarrow> ('s, 'w) archive_writer \<Rightarrow>
     ('s, 'w) write_result" where
  "write_data_loop step sink data w =
     (if data = [] then Some (w, Inr ())
      else
        (case drive step sink (EncData data) w of
           (w', Inl e) \<Rightarrow> Some (w', Inl e)
         | (w', Inr d) \<Rightarrow>
             if es_consumed d = 0 \<and> es_produced d = 0
             then Some (w', Inl (StreamArchive (plain_error ErrProtocol
                    ''tar encoder made no write progress'')))
             else write_data_loop step sink (drop (es_consumed d) data) w'))"

definition write_data ::
    "'s encoder_step \<Rightarrow> 'w sink \<Rightarrow> bytes \<Rightarrow> ('s, 'w) archive_writer \<Rightarrow>
     ('s, 'w) write_result" where
  "write_data step sink data w =
     (case ensure_live w of
        Inl e \<Rightarrow> Some (w, Inl e)
      | Inr _ \<Rightarrow> write_data_loop step sink data w)"

partial_function (option) end_entry_loop ::
    "'s encoder_step \<Rightarrow> 'w sink \<Rightarrow> ('s, 'w) archive_writer \<Rightarrow> ('s, 'w) write_result" where
  "end_entry_loop step sink w =
     (case drive step sink EncEndEntry w of
        (w', Inl e) \<Rightarrow> Some (w', Inl e)
      | (w', Inr d) \<Rightarrow>
          if es_consumed d = 1 then Some (w', Inr ())
          else if es_produced d = 0
          then Some (w', Inl (StreamArchive (plain_error ErrProtocol
                 ''tar encoder did not accept end-entry'')))
          else end_entry_loop step sink w')"

definition end_entry ::
    "'s encoder_step \<Rightarrow> 'w sink \<Rightarrow> ('s, 'w) archive_writer \<Rightarrow> ('s, 'w) write_result" where
  "end_entry step sink w =
     (case ensure_live w of
        Inl e \<Rightarrow> Some (w, Inl e)
      | Inr _ \<Rightarrow> end_entry_loop step sink w)"

partial_function (option) finish_loop ::
    "'s encoder_step \<Rightarrow> 'w sink \<Rightarrow> ('s, 'w) archive_writer \<Rightarrow> ('s, 'w) write_result" where
  "finish_loop step sink w =
     (case drive step sink EncFinish w of
        (w', Inl e) \<Rightarrow> Some (w', Inl e)
      | (w', Inr d) \<Rightarrow>
          if es_status d = EncDone
          then (case snk_finish sink (wr_output w') of (out, ok) \<Rightarrow>
                  Some (w'\<lparr>wr_output := out\<rparr>, if ok then Inr () else Inl StreamIo))
          else if es_consumed d = 0 \<and> es_produced d = 0
          then Some (w', Inl (StreamArchive (plain_error ErrProtocol
                 ''tar encoder made no finish progress'')))
          else finish_loop step sink w')"

definition finish_archive ::
    "'s encoder_step \<Rightarrow> 'w sink \<Rightarrow> ('s, 'w) archive_writer \<Rightarrow> ('s, 'w) write_result" where
  "finish_archive step sink w =
     (case ensure_live w of
        Inl e \<Rightarrow> Some (w, Inl e)
      | Inr _ \<Rightarrow> finish_loop step sink w)"

text \<open>An in-memory destination such as \<open>Vec<u8>\<close>: appending never fails.\<close>

definition vec_sink :: "bytes sink" where
  "vec_sink = \<lparr>snk_write = (\<lambda>w bs. (w @ bs, True)), snk_finish = (\<lambda>w. (w, True))\<rparr>"

lemma vec_sink_sel [simp]: "snk_write vec_sink w bs = (w @ bs, True)" "snk_finish vec_sink w = (w, True)"
  by (simp_all add: vec_sink_def)

text \<open>
  What a client does with the writer: for every entry start it, hand over its body in the given
  pieces and end it; then finish.
\<close>

definition andThen :: "('s, 'w) write_result \<Rightarrow> (('s, 'w) archive_writer \<Rightarrow> ('s, 'w) write_result) \<Rightarrow>
    ('s, 'w) write_result" where
  "andThen r k = Option.bind r (\<lambda>(w, res). case res of Inl e \<Rightarrow> Some (w, Inl e) | Inr _ \<Rightarrow> k w)"

fun write_pieces ::
    "'s encoder_step \<Rightarrow> 'w sink \<Rightarrow> bytes list \<Rightarrow> ('s, 'w) archive_writer \<Rightarrow> ('s, 'w) write_result" where
  "write_pieces step sink [] w = Some (w, Inr ())"
| "write_pieces step sink (p # ps) w = andThen (write_data step sink p w) (write_pieces step sink ps)"

fun write_entries ::
    "'s encoder_step \<Rightarrow> 'w sink \<Rightarrow> (entry_metadata \<times> bytes list) list \<Rightarrow>
     ('s, 'w) archive_writer \<Rightarrow> ('s, 'w) write_result" where
  "write_entries step sink [] w = Some (w, Inr ())"
| "write_entries step sink ((md, ps) # es) w =
     andThen (start_entry step sink md w) (\<lambda>w.
     andThen (write_pieces step sink ps w) (\<lambda>w.
     andThen (end_entry step sink w) (write_entries step sink es)))"

definition write_archive ::
    "'s encoder_step \<Rightarrow> 'w sink \<Rightarrow> (entry_metadata \<times> bytes list) list \<Rightarrow>
     ('s, 'w) archive_writer \<Rightarrow> ('s, 'w) write_result" where
  "write_archive step sink es w = andThen (write_entries step sink es w) (finish_archive step sink)"

section \<open>The contract between writer and encoder\<close>

text \<open>
  The byte stream an abstract encoder \<open>accept\<close> produces for a whole archive, with no output
  buffer in sight: the specification the writer is measured against.
\<close>

type_synonym 'c acceptor = "'c \<Rightarrow> encode_command \<Rightarrow> archive_error + 'c \<times> bytes"

fun accept_commands :: "'c acceptor \<Rightarrow> encode_command list \<Rightarrow> 'c \<Rightarrow> archive_error + 'c \<times> bytes" where
  "accept_commands accept [] c = Inr (c, [])"
| "accept_commands accept (cmd # cmds) c =
     bindE (accept c cmd) (\<lambda>(c1, bs).
     bindE (accept_commands accept cmds c1) (\<lambda>(c2, bs').
     Inr (c2, bs @ bs')))"

definition entry_commands :: "entry_metadata \<times> bytes list \<Rightarrow> encode_command list" where
  "entry_commands e = BeginEntry (fst e) # map EncData (snd e) @ [EncEndEntry]"

definition archive_commands :: "(entry_metadata \<times> bytes list) list \<Rightarrow> encode_command list" where
  "archive_commands es = concat (map entry_commands es) @ [EncFinish]"

lemma accept_commands_append:
  "accept_commands accept (xs @ ys) c =
     bindE (accept_commands accept xs c) (\<lambda>(c1, bs).
     bindE (accept_commands accept ys c1) (\<lambda>(c2, bs'). Inr (c2, bs @ bs')))"
proof (induction xs arbitrary: c)
  case Nil
  show ?case by (cases "accept_commands accept ys c") auto
next
  case (Cons x xs)
  then show ?case by (auto simp: bindE_def split: sum.splits prod.splits)
qed

text \<open>
  \<open>queue s\<close> are the bytes the encoder has staged and not yet handed out, \<open>core s\<close> the rest
  of its abstract state, and \<open>closed s\<close> says that the archive is finalised. While bytes are
  queued every command only drains them; with an empty queue a command takes the abstract transition
  \<open>accept\<close>. \<open>ending c\<close> marks the abstract states in which draining may finalise.
\<close>

text \<open>An encoder that copies its input satisfies the law for data below.\<close>

lemma copied_data:
  assumes "\<exists>s' st. step s (EncData xs) n =
      (s', Inr (estep (min n (length xs)) (min n (length xs)) st, take n xs)) \<and>
    ok s' \<and> \<not> closed s' \<and> queue s' = [] \<and> accept (core s') (EncData (drop n xs)) = Inr (c, drop n xs)"
    and "xs \<noteq> []" and "0 < n"
  shows "\<exists>s' st k p. step s (EncData xs) n = (s', Inr (estep k p st, take p xs)) \<and>
    0 < k \<and> k \<le> length xs \<and> p \<le> length xs \<and>
    ok s' \<and> \<not> closed s' \<and> queue s' = [] \<and> accept (core s') (EncData (drop k xs)) = Inr (c, drop p xs)"
proof -
  from assms(1) obtain s' st where "step s (EncData xs) n =
      (s', Inr (estep (min n (length xs)) (min n (length xs)) st, take n xs))"
    "ok s'" "\<not> closed s'" "queue s' = []" "accept (core s') (EncData (drop n xs)) = Inr (c, drop n xs)" by blast
  then show ?thesis
    using assms(2,3)
    by (intro exI [of _ s'] exI [of _ st] exI [of _ "min n (length xs)"]) (auto simp: min_def)
qed

text \<open>
  A data step may consume more of its input than it stores, because a sparse entry stores only the
  bytes of its extents: the law only asks that some input is consumed and that what is left of the
  command produces what is left of the bytes.
\<close>

locale archive_encoder =
  fixes step :: "'s encoder_step"
    and inv :: "'s \<Rightarrow> bool"
    and core :: "'s \<Rightarrow> 'c"
    and queue :: "'s \<Rightarrow> bytes"
    and closed :: "'s \<Rightarrow> bool"
    and ending :: "'c \<Rightarrow> bool"
    and accept :: "'c acceptor"
  assumes drain: "inv s \<Longrightarrow> \<not> closed s \<Longrightarrow> queue s \<noteq> [] \<Longrightarrow>
      \<exists>s' st. step s cmd n = (s', Inr (estep 0 (min n (length (queue s))) st, take n (queue s))) \<and>
        inv s' \<and> core s' = core s \<and> queue s' = drop n (queue s) \<and>
        (st = EncDone \<longleftrightarrow> closed s') \<and> (closed s' \<longrightarrow> queue s' = [] \<and> ending (core s))"
    and control: "inv s \<Longrightarrow> \<not> closed s \<Longrightarrow> queue s = [] \<Longrightarrow>
      (\<exists>m. cmd = BeginEntry m) \<or> cmd = EncEndEntry \<Longrightarrow> accept (core s) cmd = Inr (c, bs) \<Longrightarrow>
      \<exists>s' st. step s cmd n = (s', Inr (estep 1 (min n (length bs)) st, take n bs)) \<and>
        inv s' \<and> \<not> closed s' \<and> core s' = c \<and> queue s' = drop n bs"
    and data: "inv s \<Longrightarrow> \<not> closed s \<Longrightarrow> queue s = [] \<Longrightarrow> xs \<noteq> [] \<Longrightarrow> 0 < n \<Longrightarrow>
      accept (core s) (EncData xs) = Inr (c, bs) \<Longrightarrow>
      \<exists>s' st k p. step s (EncData xs) n = (s', Inr (estep k p st, take p bs)) \<and>
        0 < k \<and> k \<le> length xs \<and> p \<le> length bs \<and>
        inv s' \<and> \<not> closed s' \<and> queue s' = [] \<and>
        accept (core s') (EncData (drop k xs)) = Inr (c, drop p bs)"
    and data_Nil: "accept c (EncData []) = Inr (c', bs) \<Longrightarrow> c' = c \<and> bs = []"
    and finish: "inv s \<Longrightarrow> \<not> closed s \<Longrightarrow> queue s = [] \<Longrightarrow>
      accept (core s) EncFinish = Inr (c, bs) \<Longrightarrow>
      \<exists>s' st. step s EncFinish n = (s', Inr (estep 1 (min n (length bs)) st, take n bs)) \<and>
        inv s' \<and> core s' = c \<and> queue s' = drop n bs \<and> (st = EncDone \<longleftrightarrow> closed s') \<and>
        (closed s' \<longleftrightarrow> queue s' = [])"
    and finish_again: "accept c EncFinish = Inr (c', bs) \<Longrightarrow> accept c' EncFinish = Inr (c', [])"
    and ending_closed: "ending c \<Longrightarrow> accept c cmd = Inr (c', bs) \<Longrightarrow> cmd = EncFinish"
    and not_ending: "accept c cmd = Inr (c', bs) \<Longrightarrow> cmd \<noteq> EncFinish \<Longrightarrow> \<not> ending c'"
begin

abbreviation good :: "('s, bytes) archive_writer \<Rightarrow> bool" where
  "good w \<equiv> inv (wr_encoder w) \<and> \<not> closed (wr_encoder w) \<and> 0 < wr_buffer w \<and> \<not> wr_failed w"

abbreviation written :: "('s, bytes) archive_writer \<Rightarrow> bytes" where
  \<comment> \<open>what has reached the destination together with what is still queued\<close>
  "written w \<equiv> wr_output w @ queue (wr_encoder w)"

lemma drive_vec:
  assumes "step (wr_encoder w) cmd (wr_buffer w) = (s', Inr (d, out))"
  shows "drive step vec_sink cmd w = (w\<lparr>wr_encoder := s', wr_output := wr_output w @ out\<rparr>, Inr d)"
  using assms by (cases out) (simp_all add: drive_def emit_def)

lemma drive_drain:
  assumes "good w" and "queue (wr_encoder w) \<noteq> []" and "\<not> ending (core (wr_encoder w))"
  obtains w' d where "drive step vec_sink cmd w = (w', Inr d)" "good w'"
    "core (wr_encoder w') = core (wr_encoder w)" "written w' = written w"
    "length (queue (wr_encoder w')) < length (queue (wr_encoder w))"
    "es_consumed d = 0" "0 < es_produced d" "es_status d \<noteq> EncDone"
proof -
  let ?s = "wr_encoder w" and ?n = "wr_buffer w"
  obtain s' st where *: "step ?s cmd ?n =
      (s', Inr (estep 0 (min ?n (length (queue ?s))) st, take ?n (queue ?s)))"
    "inv s'" "core s' = core ?s" "queue s' = drop ?n (queue ?s)" "st = EncDone \<longleftrightarrow> closed s'"
    "closed s' \<longrightarrow> ending (core ?s)"
    using drain [of ?s cmd ?n] assms by blast
  show thesis
    by (rule that [OF drive_vec [OF *(1)]]) (use * assms in auto)
qed

lemma control_loop_step:
  assumes "good w" and "queue (wr_encoder w) = []"
    and "(\<exists>m. cmd = BeginEntry m) \<or> cmd = EncEndEntry"
    and "accept (core (wr_encoder w)) cmd = Inr (c, bs)"
  obtains w' d where "drive step vec_sink cmd w = (w', Inr d)" "good w'" "es_consumed d = 1"
    "core (wr_encoder w') = c" "written w' = written w @ bs"
proof -
  let ?s = "wr_encoder w" and ?n = "wr_buffer w"
  obtain s' st where *: "step ?s cmd ?n = (s', Inr (estep 1 (min ?n (length bs)) st, take ?n bs))"
    "inv s'" "\<not> closed s'" "core s' = c" "queue s' = drop ?n bs"
    using control [of ?s cmd c bs ?n] assms by blast
  show thesis
    by (rule that [OF drive_vec [OF *(1)]]) (use * assms in auto)
qed

lemma start_entry_loop_returns:
  assumes "good w" and "accept (core (wr_encoder w)) (BeginEntry m) = Inr (c, bs)"
  shows "\<exists>w'. start_entry_loop step vec_sink m w = Some (w', Inr ()) \<and> good w' \<and>
    core (wr_encoder w') = c \<and> written w' = written w @ bs"
  using assms
proof (induction "length (queue (wr_encoder w))" arbitrary: w rule: less_induct)
  case less
  show ?case
  proof (cases "queue (wr_encoder w) = []")
    case True
    obtain w' d where "drive step vec_sink (BeginEntry m) w = (w', Inr d)" "good w'"
      "es_consumed d = 1" "core (wr_encoder w') = c" "written w' = written w @ bs"
      using control_loop_step [OF less.prems(1) True _ less.prems(2)] by blast
    then show ?thesis by (subst start_entry_loop.simps) simp
  next
    case False
    have "\<not> ending (core (wr_encoder w))" using ending_closed less.prems(2) by blast
    then obtain w' d where w': "drive step vec_sink (BeginEntry m) w = (w', Inr d)" "good w'"
      "core (wr_encoder w') = core (wr_encoder w)" "written w' = written w"
      "length (queue (wr_encoder w')) < length (queue (wr_encoder w))"
      "es_consumed d = 0" "0 < es_produced d"
      using drive_drain [OF less.prems(1) False] by metis
    with less.hyps [OF w'(5) w'(2)] less.prems(2) show ?thesis
      by (subst start_entry_loop.simps) simp
  qed
qed

lemma end_entry_loop_returns:
  assumes "good w" and "accept (core (wr_encoder w)) EncEndEntry = Inr (c, bs)"
  shows "\<exists>w'. end_entry_loop step vec_sink w = Some (w', Inr ()) \<and> good w' \<and>
    core (wr_encoder w') = c \<and> written w' = written w @ bs"
  using assms
proof (induction "length (queue (wr_encoder w))" arbitrary: w rule: less_induct)
  case less
  show ?case
  proof (cases "queue (wr_encoder w) = []")
    case True
    obtain w' d where "drive step vec_sink EncEndEntry w = (w', Inr d)" "good w'"
      "es_consumed d = 1" "core (wr_encoder w') = c" "written w' = written w @ bs"
      using control_loop_step [OF less.prems(1) True _ less.prems(2)] by blast
    then show ?thesis by (subst end_entry_loop.simps) simp
  next
    case False
    have "\<not> ending (core (wr_encoder w))" using ending_closed less.prems(2) by blast
    then obtain w' d where w': "drive step vec_sink EncEndEntry w = (w', Inr d)" "good w'"
      "core (wr_encoder w') = core (wr_encoder w)" "written w' = written w"
      "length (queue (wr_encoder w')) < length (queue (wr_encoder w))"
      "es_consumed d = 0" "0 < es_produced d"
      using drive_drain [OF less.prems(1) False] by metis
    with less.hyps [OF w'(5) w'(2)] less.prems(2) show ?thesis
      by (subst end_entry_loop.simps) simp
  qed
qed

lemma write_data_loop_returns:
  assumes "good w" and "accept (core (wr_encoder w)) (EncData xs) = Inr (c, bs)"
  shows "\<exists>w'. write_data_loop step vec_sink xs w = Some (w', Inr ()) \<and> good w' \<and>
    core (wr_encoder w') = c \<and> written w' = written w @ bs"
  using assms
proof (induction "length (queue (wr_encoder w)) + length xs" arbitrary: w xs bs rule: less_induct)
  case less
  let ?s = "wr_encoder w" and ?n = "wr_buffer w"
  show ?case
  proof (cases "xs = []")
    case True
    with less.prems data_Nil show ?thesis by (subst write_data_loop.simps) auto
  next
    case xs: False
    show ?thesis
    proof (cases "queue ?s = []")
      case True
      obtain s' st k p where *: "step ?s (EncData xs) ?n = (s', Inr (estep k p st, take p bs))"
        "0 < k" "k \<le> length xs" "p \<le> length bs" "inv s'" "\<not> closed s'" "queue s' = []"
        "accept (core s') (EncData (drop k xs)) = Inr (c, drop p bs)"
        using data [OF _ _ True xs _ less.prems(2), of ?n] less.prems(1) by auto
      let ?w = "w\<lparr>wr_encoder := s', wr_output := wr_output w @ take p bs\<rparr>"
      have "length (queue (wr_encoder ?w)) + length (drop k xs) < length (queue ?s) + length xs"
        using * True by simp
      from less.hyps [OF this, of "drop p bs"] * less.prems(1) obtain w' where
        w': "write_data_loop step vec_sink (drop k xs) ?w = Some (w', Inr ())" "good w'"
          "core (wr_encoder w') = c" "written w' = written ?w @ drop p bs" by auto
      have "write_data_loop step vec_sink xs w = Some (w', Inr ())"
        using w'(1) xs *(2) by (subst write_data_loop.simps) (simp add: drive_vec [OF *(1)])
      moreover have "written w' = written w @ bs" using w'(4) *(7) True by simp
      ultimately show ?thesis using w'(2,3) by blast
    next
      case False
      have "\<not> ending (core ?s)" using ending_closed less.prems(2) by blast
      then obtain w' d where w': "drive step vec_sink (EncData xs) w = (w', Inr d)" "good w'"
        "core (wr_encoder w') = core ?s" "written w' = written w"
        "length (queue (wr_encoder w')) < length (queue ?s)"
        "es_consumed d = 0" "0 < es_produced d"
        using drive_drain [OF less.prems(1) False] by metis
      have "length (queue (wr_encoder w')) + length xs < length (queue ?s) + length xs"
        using w'(5) by simp
      from less.hyps [OF this w'(2)] w' less.prems(2) xs show ?thesis
        by (subst write_data_loop.simps) simp
    qed
  qed
qed

lemma finish_drained:
  assumes "good w" and "accept (core (wr_encoder w)) EncFinish = Inr (core (wr_encoder w), [])"
  shows "\<exists>w'. finish_loop step vec_sink w = Some (w', Inr ()) \<and> wr_output w' = written w"
  using assms
proof (induction "length (queue (wr_encoder w))" arbitrary: w rule: less_induct)
  case less
  let ?s = "wr_encoder w" and ?n = "wr_buffer w"
  show ?case
  proof (cases "queue ?s = []")
    case True
    obtain s' st where *: "step ?s EncFinish ?n = (s', Inr (estep 1 0 st, []))" "st = EncDone"
      using finish [OF _ _ True less.prems(2), of ?n] less.prems(1) by auto
    then show ?thesis
      using True by (subst finish_loop.simps) (simp add: drive_vec [OF *(1)])
  next
    case False
    obtain s' st where *: "step ?s EncFinish ?n =
        (s', Inr (estep 0 (min ?n (length (queue ?s))) st, take ?n (queue ?s)))"
      "inv s'" "core s' = core ?s" "queue s' = drop ?n (queue ?s)" "st = EncDone \<longleftrightarrow> closed s'"
      "closed s' \<longrightarrow> queue s' = []"
      using drain [OF _ _ False, of EncFinish ?n] less.prems(1) by blast
    let ?w = "w\<lparr>wr_encoder := s', wr_output := wr_output w @ take ?n (queue ?s)\<rparr>"
    have out: "wr_output ?w @ queue s' = written w" using *(4) by simp
    show ?thesis
    proof (cases "closed s'")
      case True
      with * out show ?thesis
        by (subst finish_loop.simps) (simp add: drive_vec [OF *(1)])
    next
      case open': False
      have "length (queue (wr_encoder ?w)) < length (queue ?s)"
        using * False less.prems(1) by simp
      from less.hyps [OF this] * less.prems open' obtain w' where
        "finish_loop step vec_sink ?w = Some (w', Inr ())" "wr_output w' = written ?w" by auto
      with out False open' * less.prems(1) show ?thesis
        by (subst finish_loop.simps) (simp add: drive_vec [OF *(1)])
    qed
  qed
qed

lemma finish_loop_returns:
  assumes "good w" and "accept (core (wr_encoder w)) EncFinish = Inr (c, bs)"
    and "\<not> ending (core (wr_encoder w))"
  shows "\<exists>w'. finish_loop step vec_sink w = Some (w', Inr ()) \<and> wr_output w' = written w @ bs"
  using assms
proof (induction "length (queue (wr_encoder w))" arbitrary: w rule: less_induct)
  case less
  let ?s = "wr_encoder w" and ?n = "wr_buffer w"
  show ?case
  proof (cases "queue ?s = []")
    case True
    obtain s' st where *: "step ?s EncFinish ?n =
        (s', Inr (estep 1 (min ?n (length bs)) st, take ?n bs))"
      "inv s'" "core s' = c" "queue s' = drop ?n bs" "st = EncDone \<longleftrightarrow> closed s'"
      "closed s' \<longleftrightarrow> queue s' = []"
      using finish [OF _ _ True less.prems(2), of ?n] less.prems(1) by blast
    let ?w = "w\<lparr>wr_encoder := s', wr_output := wr_output w @ take ?n bs\<rparr>"
    show ?thesis
    proof (cases "closed s'")
      case c: True
      with * True show ?thesis
        by (subst finish_loop.simps) (simp add: drive_vec [OF *(1)])
    next
      case False
      have "\<exists>w'. finish_loop step vec_sink ?w = Some (w', Inr ()) \<and> wr_output w' = written ?w"
        by (rule finish_drained) (use * False less.prems finish_again [OF less.prems(2)] in auto)
      with * False True show ?thesis
        by (subst finish_loop.simps) (simp add: drive_vec [OF *(1)])
    qed
  next
    case False
    obtain w' d where w': "drive step vec_sink EncFinish w = (w', Inr d)" "good w'"
      "core (wr_encoder w') = core ?s" "written w' = written w"
      "length (queue (wr_encoder w')) < length (queue ?s)"
      "es_consumed d = 0" "0 < es_produced d" "es_status d \<noteq> EncDone"
      using drive_drain [OF less.prems(1) False less.prems(3)] by metis
    with less.hyps [OF w'(5) w'(2)] less.prems show ?thesis
      by (subst finish_loop.simps) simp
  qed
qed

lemma write_pieces_returns:
  assumes "good w" and "accept_commands accept (map EncData ps) (core (wr_encoder w)) = Inr (c, bs)"
    and "\<not> ending (core (wr_encoder w))"
  shows "\<exists>w'. write_pieces step vec_sink ps w = Some (w', Inr ()) \<and> good w' \<and>
    core (wr_encoder w') = c \<and> written w' = written w @ bs \<and> \<not> ending c"
  using assms
proof (induction ps arbitrary: w bs)
  case Nil
  then show ?case by simp
next
  case (Cons p ps)
  from Cons.prems(2) obtain c1 b1 b2 where
    a1: "accept (core (wr_encoder w)) (EncData p) = Inr (c1, b1)" and
    a2: "accept_commands accept (map EncData ps) c1 = Inr (c, b2)" and bs: "bs = b1 @ b2"
    by (auto simp: bindE_Inr_iff)
  obtain w1 where w1: "write_data_loop step vec_sink p w = Some (w1, Inr ())" "good w1"
    "core (wr_encoder w1) = c1" "written w1 = written w @ b1"
    using write_data_loop_returns [OF Cons.prems(1) a1] by blast
  from Cons.IH [of w1 b2] w1 a2 not_ending [OF a1] obtain w2 where
    w2: "write_pieces step vec_sink ps w1 = Some (w2, Inr ())" "good w2"
      "core (wr_encoder w2) = c" "written w2 = written w1 @ b2" "\<not> ending c" by auto
  show ?case
    using w1 w2 bs Cons.prems(1)
    by (auto simp: andThen_def write_data_def ensure_live_def)
qed

lemma write_entry_returns:
  assumes "good w" and "accept_commands accept (entry_commands (m, ps)) (core (wr_encoder w)) = Inr (c, bs)"
    and "validate m = Inr ()"
  shows "\<exists>w'. write_entries step vec_sink ((m, ps) # es) w = write_entries step vec_sink es w' \<and> good w' \<and>
    core (wr_encoder w') = c \<and> written w' = written w @ bs \<and> \<not> ending c"
proof -
  from assms(2) obtain c1 b1 c2 b2 b3 where
    a1: "accept (core (wr_encoder w)) (BeginEntry m) = Inr (c1, b1)" and
    a2: "accept_commands accept (map EncData ps) c1 = Inr (c2, b2)" and
    a3: "accept c2 EncEndEntry = Inr (c, b3)" and bs: "bs = b1 @ b2 @ b3"
    by (auto simp: entry_commands_def accept_commands_append bindE_Inr_iff)
  obtain w1 where w1: "start_entry_loop step vec_sink m w = Some (w1, Inr ())" "good w1"
    "core (wr_encoder w1) = c1" "written w1 = written w @ b1"
    using start_entry_loop_returns [OF assms(1) a1] by blast
  obtain w2 where w2: "write_pieces step vec_sink ps w1 = Some (w2, Inr ())" "good w2"
    "core (wr_encoder w2) = c2" "written w2 = written w1 @ b2"
    using write_pieces_returns [of w1 ps c2 b2] w1 a2 not_ending [OF a1] by auto
  obtain w3 where w3: "end_entry_loop step vec_sink w2 = Some (w3, Inr ())" "good w3"
    "core (wr_encoder w3) = c" "written w3 = written w2 @ b3"
    using end_entry_loop_returns [of w2 c b3] w2 a3 by auto
  show ?thesis
    using w1 w2 w3 bs assms not_ending [OF a3]
    by (auto simp: andThen_def start_entry_def end_entry_def ensure_live_def)
qed

lemma write_entries_returns:
  assumes "good w" and "\<forall>(m, ps) \<in> set es. validate m = Inr ()" and "\<not> ending (core (wr_encoder w))"
    and "accept_commands accept (concat (map entry_commands es)) (core (wr_encoder w)) = Inr (c, bs)"
  shows "\<exists>w'. write_entries step vec_sink es w = Some (w', Inr ()) \<and> good w' \<and>
    core (wr_encoder w') = c \<and> written w' = written w @ bs \<and> \<not> ending c"
  using assms
proof (induction es arbitrary: w bs)
  case Nil
  then show ?case by simp
next
  case (Cons e es)
  obtain m ps where e: "e = (m, ps)" by force
  from Cons.prems(4) obtain c1 b1 b2 where
    a1: "accept_commands accept (entry_commands (m, ps)) (core (wr_encoder w)) = Inr (c1, b1)" and
    a2: "accept_commands accept (concat (map entry_commands es)) c1 = Inr (c, b2)" and
    bs: "bs = b1 @ b2"
    by (auto simp: e accept_commands_append bindE_Inr_iff)
  obtain w1 where w1: "write_entries step vec_sink (e # es) w = write_entries step vec_sink es w1"
    "good w1" "core (wr_encoder w1) = c1" "written w1 = written w @ b1" "\<not> ending c1"
    using write_entry_returns [OF Cons.prems(1) a1] Cons.prems(2) e by auto
  from Cons.IH [of w1 b2] w1 a2 Cons.prems(2) bs show ?case by auto
qed

lemma write_archive_returns:
  assumes "good w" and "\<forall>(m, ps) \<in> set es. validate m = Inr ()" and "\<not> ending (core (wr_encoder w))"
    and "accept_commands accept (archive_commands es) (core (wr_encoder w)) = Inr (c, bs)"
  shows "\<exists>w'. write_archive step vec_sink es w = Some (w', Inr ()) \<and> wr_output w' = written w @ bs"
proof -
  from assms(4) obtain c1 b1 b2 where
    a1: "accept_commands accept (concat (map entry_commands es)) (core (wr_encoder w)) = Inr (c1, b1)" and
    a2: "accept c1 EncFinish = Inr (c, b2)" and bs: "bs = b1 @ b2"
    by (auto simp: archive_commands_def accept_commands_append bindE_Inr_iff)
  obtain w1 where w1: "write_entries step vec_sink es w = Some (w1, Inr ())" "good w1"
    "core (wr_encoder w1) = c1" "written w1 = written w @ b1" "\<not> ending c1"
    using write_entries_returns [OF assms(1-3) a1] by blast
  obtain w2 where "finish_loop step vec_sink w1 = Some (w2, Inr ())" "wr_output w2 = written w1 @ b2"
    using finish_loop_returns [of w1 c b2] w1 a2 by auto
  with w1 bs show ?thesis
    by (auto simp: write_archive_def andThen_def finish_archive_def ensure_live_def)
qed

end

end
