(* ===== verification/Oxide_Ar_Encoder.thy ===== *)
theory Oxide_Ar_Encoder
  imports Oxide_Ar_Decoder Oxide_Writer
begin

text \<open>
  The encoder half of \<open>format/ar.rs\<close>: header formatting and the command-driven \<open>ArEncoder\<close>.
  The theory interprets the encoder as an \<open>archive_encoder\<close> whose abstract transition is
  \<open>ar_accept\<close>, and computes the byte image of a whole archive.
\<close>

section \<open>Header formatting\<close>

definition put_field :: "bytes \<Rightarrow> bytes \<Rightarrow> bytes" where
  "put_field fld value =
     (let n = min (length value) (length fld) in take n value @ replicate (length fld - n) 32)"

text \<open>
  The digit loop of \<open>radix_bytes\<close>, writing right to left. The source calls it with radix 8 and 10
  only; for a radix below 2 the Rust loop would not end, so the model stops there.
\<close>

function radix_loop :: "nat \<Rightarrow> nat \<Rightarrow> bytes \<Rightarrow> bytes" where
  "radix_loop v radix buf =
     (if v = 0 \<or> radix < 2 then buf
      else radix_loop (v div radix) radix ((48 + of_nat (v mod radix)) # buf))"
  by pat_completeness auto
termination
  by (relation "measure (\<lambda>(v, _, _). v)") auto

declare radix_loop.simps [simp del]

definition radix_bytes :: "nat \<Rightarrow> nat \<Rightarrow> bytes" where
  "radix_bytes val radix = (if val = 0 then [48] else radix_loop val radix [])"

definition ar_put :: "bytes \<Rightarrow> nat \<times> nat \<Rightarrow> bytes \<Rightarrow> bytes" where
  "ar_put header r value = copy_at header (fst r) (put_field (slice header (fst r) (snd r)) value)"

section \<open>Encoder state\<close>

record ar_encoder =
  aw_limits :: limits
  aw_pending :: bytes
  aw_pending_pos :: nat
  aw_started :: bool
  aw_open :: bool
  aw_remaining :: nat
  aw_padding :: nat
  aw_done :: bool
  aw_entries :: nat

definition ar_encoder_new :: "limits \<Rightarrow> ar_encoder" where
  "ar_encoder_new l =
     \<lparr>aw_limits = l, aw_pending = [], aw_pending_pos = 0, aw_started = False, aw_open = False,
      aw_remaining = 0, aw_padding = 0, aw_done = False, aw_entries = 0\<rparr>"

definition ar_drain_pending :: "ar_encoder \<Rightarrow> nat \<Rightarrow> ar_encoder \<times> bytes" where
  "ar_drain_pending s cap =
     (let count = min (length (aw_pending s) - aw_pending_pos s) cap;
          out = slice (aw_pending s) (aw_pending_pos s) (aw_pending_pos s + count);
          pos = aw_pending_pos s + count in
      if pos = length (aw_pending s)
      then (s\<lparr>aw_pending := [], aw_pending_pos := 0\<rparr>, out)
      else (s\<lparr>aw_pending_pos := pos\<rparr>, out))"

definition ar_mtime :: "entry_metadata \<Rightarrow> nat" where
  "ar_mtime md =
     (case modified (md_times md) of None \<Rightarrow> 0 | Some t \<Rightarrow> nat (max (ts_secs t) 0))"

definition ar_inline_name :: "bytes \<Rightarrow> bool" where
  "ar_inline_name name \<longleftrightarrow> 15 < length name"

definition ar_name_field :: "bytes \<Rightarrow> bytes" where
  "ar_name_field name =
     (if ar_inline_name name then ascii ''#1/'' @ radix_bytes (length name) 10 else name @ [47])"

definition ar_header :: "entry_metadata \<Rightarrow> nat \<Rightarrow> bytes" where
  "ar_header md t =
     (let h = replicate AR_HEADER 32;
          h = ar_put h F_NAME (ar_name_field (ap_raw (md_path md)));
          h = ar_put h F_MTIME (radix_bytes (ar_mtime md) 10);
          h = ar_put h F_UID (radix_bytes (opt_or 0 (own_uid (md_owner md))) 10);
          h = ar_put h F_GID (radix_bytes (opt_or 0 (own_gid (md_owner md))) 10);
          h = ar_put h F_MODE (radix_bytes
                (0x8000 OR (opt_or (default_mode (md_kind md)) (md_mode md) AND 0xfff)) 8);
          h = ar_put h F_SIZE (radix_bytes t 10) in
      copy_at h (fst F_MAGIC) [96, 10])"

definition ar_stage_entry :: "ar_encoder \<Rightarrow> entry_metadata \<Rightarrow> ar_encoder \<times> (archive_error + unit)" where
  "ar_stage_entry s md =
     (case md_size md of
        None \<Rightarrow> (s, Inl (ar_err ErrSizeRequired ''ar requires a declared entry size''))
      | Some sz \<Rightarrow>
          let s1 = (if aw_started s then s
                    else s\<lparr>aw_pending := aw_pending s @ AR_MAGIC, aw_started := True\<rparr>);
              name = ap_raw (md_path md) in
          (case checked_add sz (if ar_inline_name name then length name else 0) of
             None \<Rightarrow> (s1, Inl (ar_err ErrLimit ''member size overflow''))
           | Some t \<Rightarrow>
               (s1\<lparr>aw_pending := aw_pending s1 @ ar_header md t @
                                  (if ar_inline_name name then name else []),
                   aw_remaining := sz,
                   aw_padding := (if t AND 1 \<noteq> 0 then 1 else 0),
                   aw_open := True\<rparr>, Inr ())))"

definition ar_drained :: "ar_encoder \<Rightarrow> encode_status" where
  "ar_drained s = (if aw_pending s = [] then EncNeedCommand else EncNeedOutput)"

definition ar_enc_begin :: "ar_encoder \<Rightarrow> entry_metadata \<Rightarrow> nat \<Rightarrow>
    ar_encoder \<times> (archive_error + encode_step \<times> bytes)" where
  "ar_enc_begin s md cap =
     (if aw_open s then (s, Inl (ar_err ErrProtocol ''previous entry is still open''))
      else
        (case md_size md of
           None \<Rightarrow> (s, Inl (ar_err ErrSizeRequired ''ar requires a declared entry size''))
         | Some sz \<Rightarrow>
             if exceeds (path_bytes (aw_limits s)) (length (ap_raw (md_path md))) \<or>
                exceeds (entry_bytes (aw_limits s)) sz
             then (s, Inl (ar_err ErrLimit ''entry exceeds configured limits''))
             else
               (case checked_add (aw_entries s) 1 of
                  None \<Rightarrow> (s, Inl (ar_err ErrLimit ''entry count overflow''))
                | Some next_entries \<Rightarrow>
                    if exceeds (max_entries (aw_limits s)) next_entries
                    then (s, Inl (ar_err ErrLimit ''entry count exceeds configured limit''))
                    else
                      (case ar_stage_entry s md of
                         (s1, Inl e) \<Rightarrow> (s1, Inl e)
                       | (s1, Inr _) \<Rightarrow>
                           let (s2, out) = ar_drain_pending (s1\<lparr>aw_entries := next_entries\<rparr>) cap in
                           (s2, Inr (estep 1 (length out) (ar_drained s2), out))))))"

definition ar_enc_data :: "ar_encoder \<Rightarrow> bytes \<Rightarrow> nat \<Rightarrow>
    ar_encoder \<times> (archive_error + encode_step \<times> bytes)" where
  "ar_enc_data s input cap =
     (if \<not> aw_open s
      then (s, Inl (ar_err ErrProtocol ''entry data supplied without an open entry''))
      else if aw_remaining s < length input
      then (s, Inl (ar_err ErrProtocol ''entry data exceeds declared size''))
      else
        let count = min (length input) cap in
        (s\<lparr>aw_remaining := aw_remaining s - count\<rparr>,
         Inr (estep count count (if count = length input then EncNeedCommand else EncNeedOutput),
              take count input)))"

definition ar_enc_end :: "ar_encoder \<Rightarrow> nat \<Rightarrow>
    ar_encoder \<times> (archive_error + encode_step \<times> bytes)" where
  "ar_enc_end s cap =
     (if \<not> aw_open s \<or> aw_remaining s \<noteq> 0
      then (s, Inl (ar_err ErrProtocol ''entry ended before its declared size''))
      else
        let (s2, out) = ar_drain_pending
              (s\<lparr>aw_pending := resize (aw_pending s) (aw_padding s) 10,
                 aw_padding := 0, aw_open := False\<rparr>) cap in
        (s2, Inr (estep 1 (length out) (ar_drained s2), out)))"

definition ar_enc_finish :: "ar_encoder \<Rightarrow> nat \<Rightarrow>
    ar_encoder \<times> (archive_error + encode_step \<times> bytes)" where
  "ar_enc_finish s cap =
     (if aw_open s then (s, Inl (ar_err ErrProtocol ''cannot finish with an open entry''))
      else if \<not> aw_started s then
        let (s1, out) = ar_drain_pending
              (s\<lparr>aw_pending := aw_pending s @ AR_MAGIC, aw_started := True\<rparr>) cap;
            s2 = (if aw_pending s1 = [] then s1\<lparr>aw_done := True\<rparr> else s1) in
        (s2, Inr (estep 1 (length out) (if aw_done s2 then EncDone else EncNeedOutput), out))
      else (s\<lparr>aw_done := True\<rparr>, Inr (estep 1 0 EncDone, [])))"

definition ar_enc_step :: "ar_encoder encoder_step" where
  "ar_enc_step s cmd cap =
     (if aw_done s then
        (case cmd of
           EncFinish \<Rightarrow> (s, Inr (estep 0 0 EncDone, []))
         | _ \<Rightarrow> (s, Inl (ar_err ErrProtocol ''command supplied after finish'')))
      else if aw_pending s \<noteq> [] then
        (let (s1, out) = ar_drain_pending s cap
         in (s1, Inr (estep 0 (length out) (ar_drained s1), out)))
      else
        (case cmd of
           BeginEntry md \<Rightarrow> ar_enc_begin s md cap
         | EncData input \<Rightarrow> ar_enc_data s input cap
         | EncEndEntry \<Rightarrow> ar_enc_end s cap
         | EncFinish \<Rightarrow> ar_enc_finish s cap))"

section \<open>Abstract transition and contract\<close>

text \<open>
  The encoder without its output buffer: the staged bytes are the result, and the remaining state is
  the encoder record with an empty queue.
\<close>

definition ar_queue :: "ar_encoder \<Rightarrow> bytes" where
  "ar_queue s = drop (aw_pending_pos s) (aw_pending s)"

definition ar_core :: "ar_encoder \<Rightarrow> ar_encoder" where
  "ar_core s = s\<lparr>aw_pending := [], aw_pending_pos := 0, aw_done := False\<rparr>"

definition ar_enc_inv :: "ar_encoder \<Rightarrow> bool" where
  "ar_enc_inv s \<longleftrightarrow>
     (if aw_pending s = [] then aw_pending_pos s = 0 else aw_pending_pos s < length (aw_pending s))"

definition ar_accept :: "ar_encoder acceptor" where
  "ar_accept c cmd =
     (case cmd of
        BeginEntry md \<Rightarrow>
          if aw_open c then Inl (ar_err ErrProtocol ''previous entry is still open'')
          else (case md_size md of
             None \<Rightarrow> Inl (ar_err ErrSizeRequired ''ar requires a declared entry size'')
           | Some sz \<Rightarrow>
               if exceeds (path_bytes (aw_limits c)) (length (ap_raw (md_path md))) \<or>
                  exceeds (entry_bytes (aw_limits c)) sz
               then Inl (ar_err ErrLimit ''entry exceeds configured limits'')
               else if u64_max < aw_entries c + 1 then Inl (ar_err ErrLimit ''entry count overflow'')
               else if exceeds (max_entries (aw_limits c)) (aw_entries c + 1)
               then Inl (ar_err ErrLimit ''entry count exceeds configured limit'')
               else
                 let name = ap_raw (md_path md);
                     t = sz + (if ar_inline_name name then length name else 0) in
                 if u64_max < t then Inl (ar_err ErrLimit ''member size overflow'')
                 else Inr (c\<lparr>aw_started := True, aw_remaining := sz, aw_padding := t mod 2,
                             aw_open := True, aw_entries := aw_entries c + 1\<rparr>,
                           (if aw_started c then [] else AR_MAGIC) @ ar_header md t @
                           (if ar_inline_name name then name else [])))
      | EncData xs \<Rightarrow>
          if \<not> aw_open c then Inl (ar_err ErrProtocol ''entry data supplied without an open entry'')
          else if aw_remaining c < length xs
          then Inl (ar_err ErrProtocol ''entry data exceeds declared size'')
          else Inr (c\<lparr>aw_remaining := aw_remaining c - length xs\<rparr>, xs)
      | EncEndEntry \<Rightarrow>
          if \<not> aw_open c \<or> aw_remaining c \<noteq> 0
          then Inl (ar_err ErrProtocol ''entry ended before its declared size'')
          else Inr (c\<lparr>aw_padding := 0, aw_open := False\<rparr>, replicate (aw_padding c) 10)
      | EncFinish \<Rightarrow>
          if aw_open c then Inl (ar_err ErrProtocol ''cannot finish with an open entry'')
          else Inr (c\<lparr>aw_started := True\<rparr>, if aw_started c then [] else AR_MAGIC))"

lemma ar_drain:
  assumes "ar_enc_inv s \<or> aw_pending_pos s = 0" and "ar_drain_pending s n = (s', out)"
  shows "out = take n (ar_queue s)" "ar_queue s' = drop n (ar_queue s)" "ar_core s' = ar_core s"
    "ar_enc_inv s'" "aw_done s' = aw_done s" "aw_pending s' = [] \<longleftrightarrow> ar_queue s' = []"
    "length out = min n (length (ar_queue s))"
  using assms
  by (auto simp: ar_drain_pending_def ar_queue_def ar_core_def ar_enc_inv_def slice_def min_def
      Let_def add.commute split: if_splits)

lemma ar_idle:
  assumes "ar_enc_inv s" and "ar_queue s = []"
  shows "aw_pending s = []" "aw_pending_pos s = 0"
  using assms by (auto simp: ar_enc_inv_def ar_queue_def split: if_splits)

lemma ar_core_sel [simp]:
  "aw_limits (ar_core s) = aw_limits s" "aw_started (ar_core s) = aw_started s"
  "aw_open (ar_core s) = aw_open s" "aw_remaining (ar_core s) = aw_remaining s"
  "aw_padding (ar_core s) = aw_padding s" "aw_entries (ar_core s) = aw_entries s"
  by (simp_all add: ar_core_def)

lemma ar_step_drains:
  assumes "ar_enc_inv s" and "\<not> aw_done s" and "ar_queue s \<noteq> []"
  shows "\<exists>s' st. ar_enc_step s cmd n =
      (s', Inr (estep 0 (min n (length (ar_queue s))) st, take n (ar_queue s))) \<and>
    ar_enc_inv s' \<and> ar_core s' = ar_core s \<and> ar_queue s' = drop n (ar_queue s) \<and>
    (st = EncDone \<longleftrightarrow> aw_done s') \<and> (aw_done s' \<longrightarrow> ar_queue s' = [] \<and> False)"
proof -
  obtain s' out where d: "ar_drain_pending s n = (s', out)" by force
  note facts = ar_drain [OF disjI1 [OF assms(1)] d]
  from assms have "aw_pending s \<noteq> []" by (auto simp: ar_queue_def)
  then show ?thesis
    using assms facts by (auto simp: ar_enc_step_def d ar_drained_def)
qed

lemma ar_begin_accepted:
  assumes "ar_enc_inv s" and "\<not> aw_done s" and "ar_queue s = []"
    and acc: "ar_accept (ar_core s) (BeginEntry m) = Inr (c, bs)"
  shows "\<exists>s' st. ar_enc_step s (BeginEntry m) n =
      (s', Inr (estep 1 (min n (length bs)) st, take n bs)) \<and>
    ar_enc_inv s' \<and> \<not> aw_done s' \<and> ar_core s' = c \<and> ar_queue s' = drop n bs"
proof -
  note idle = ar_idle [OF assms(1,3)]
  from acc obtain sz where sz: "md_size m = Some sz"
    by (auto simp: ar_accept_def split: if_splits option.splits)
  let ?t = "sz + (if ar_inline_name (ap_raw (md_path m)) then length (ap_raw (md_path m)) else 0)"
  define s1 where "s1 = s\<lparr>aw_pending := bs, aw_started := True, aw_remaining := sz,
    aw_padding := ?t mod 2, aw_open := True, aw_entries := aw_entries s + 1\<rparr>"
  obtain s2 out where d: "ar_drain_pending s1 n = (s2, out)" by force
  from idle have "aw_pending_pos s1 = 0" by (simp add: s1_def)
  note facts = ar_drain [OF disjI2 [OF this] d]
  have q: "ar_queue s1 = bs" "aw_done s1 = aw_done s" using idle by (simp_all add: ar_queue_def s1_def)
  have "ar_enc_step s (BeginEntry m) n = (s2, Inr (estep 1 (length out) (ar_drained s2), out))"
    using acc sz assms(2) idle d
    by (cases s) (auto simp: ar_accept_def ar_enc_step_def ar_enc_begin_def ar_stage_entry_def s1_def Let_def
        checked_add_def and_mask_nat mod2_eq_if split: if_splits)
  moreover have "ar_core s1 = c"
    using acc sz by (auto simp: ar_accept_def s1_def ar_core_def Let_def split: if_splits)
  ultimately show ?thesis using facts q assms(2) by auto
qed

lemma ar_end_accepted:
  assumes "ar_enc_inv s" and "\<not> aw_done s" and "ar_queue s = []"
    and acc: "ar_accept (ar_core s) EncEndEntry = Inr (c, bs)"
  shows "\<exists>s' st. ar_enc_step s EncEndEntry n =
      (s', Inr (estep 1 (min n (length bs)) st, take n bs)) \<and>
    ar_enc_inv s' \<and> \<not> aw_done s' \<and> ar_core s' = c \<and> ar_queue s' = drop n bs"
proof -
  note idle = ar_idle [OF assms(1,3)]
  define s1 where "s1 = s\<lparr>aw_pending := bs, aw_padding := 0, aw_open := False\<rparr>"
  obtain s2 out where d: "ar_drain_pending s1 n = (s2, out)" by force
  from idle have "aw_pending_pos s1 = 0" by (simp add: s1_def)
  note facts = ar_drain [OF disjI2 [OF this] d]
  have q: "ar_queue s1 = bs" "aw_done s1 = aw_done s" using idle by (simp_all add: ar_queue_def s1_def)
  have "ar_enc_step s EncEndEntry n = (s2, Inr (estep 1 (length out) (ar_drained s2), out))"
    using acc assms(2) idle d
    by (auto simp: ar_accept_def ar_enc_step_def ar_enc_end_def s1_def split: if_splits)
  moreover have "ar_core s1 = c"
    using acc by (auto simp: ar_accept_def s1_def ar_core_def split: if_splits)
  ultimately show ?thesis using facts q assms(2) by auto
qed

lemma ar_finish_accepted:
  assumes "ar_enc_inv s" and "\<not> aw_done s" and "ar_queue s = []"
    and acc: "ar_accept (ar_core s) EncFinish = Inr (c, bs)"
  shows "\<exists>s' st. ar_enc_step s EncFinish n =
      (s', Inr (estep 1 (min n (length bs)) st, take n bs)) \<and>
    ar_enc_inv s' \<and> ar_core s' = c \<and> ar_queue s' = drop n bs \<and> (st = EncDone \<longleftrightarrow> aw_done s') \<and>
    (aw_done s' \<longleftrightarrow> ar_queue s' = [])"
proof (cases "aw_started s")
  case True
  with acc assms(2) ar_idle [OF assms(1,3)] show ?thesis
    by (auto simp: ar_accept_def ar_enc_step_def ar_enc_finish_def ar_core_def ar_enc_inv_def
        ar_queue_def split: if_splits)
next
  case False
  note idle = ar_idle [OF assms(1,3)]
  define s1 where "s1 = s\<lparr>aw_pending := bs, aw_started := True\<rparr>"
  obtain s2 out where d: "ar_drain_pending s1 n = (s2, out)" by force
  from idle have "aw_pending_pos s1 = 0" by (simp add: s1_def)
  note facts = ar_drain [OF disjI2 [OF this] d]
  have q: "ar_queue s1 = bs" "aw_done s1 = aw_done s" using idle by (simp_all add: ar_queue_def s1_def)
  have c: "ar_core s1 = c"
    using acc False by (auto simp: ar_accept_def s1_def ar_core_def split: if_splits)
  define s3 where "s3 = (if aw_pending s2 = [] then s2\<lparr>aw_done := True\<rparr> else s2)"
  have "ar_enc_step s EncFinish n =
      (s3, Inr (estep 1 (length out) (if aw_done s3 then EncDone else EncNeedOutput), out))"
    using acc assms(2) idle d False
    by (auto simp: ar_accept_def ar_enc_step_def ar_enc_finish_def s1_def s3_def split: if_splits)
  moreover have "ar_enc_inv s3" "ar_core s3 = c" "ar_queue s3 = ar_queue s2"
    "aw_done s3 \<longleftrightarrow> ar_queue s2 = []"
    using facts q c assms(2) by (auto simp: s3_def ar_enc_inv_def ar_core_def ar_queue_def)
  ultimately show ?thesis using facts q by auto
qed

lemma ar_data_accepted:
  assumes "ar_enc_inv s" and "\<not> aw_done s" and "ar_queue s = []"
    and acc: "ar_accept (ar_core s) (EncData xs) = Inr (c, bs)"
  shows "\<exists>s' st. ar_enc_step s (EncData xs) n =
          (s', Inr (estep (min n (length xs)) (min n (length xs)) st, take n xs)) \<and>
        ar_enc_inv s' \<and> \<not> aw_done s' \<and> ar_queue s' = [] \<and>
        ar_accept (ar_core s') (EncData (drop n xs)) = Inr (c, drop n xs)"
proof -
  note idle = ar_idle [OF assms(1,3)]
  let ?s = "s\<lparr>aw_remaining := aw_remaining s - min (length xs) n\<rparr>"
  have "ar_enc_step s (EncData xs) n = (?s, Inr (estep (min n (length xs)) (min n (length xs))
      (if min (length xs) n = length xs then EncNeedCommand else EncNeedOutput), take n xs))"
    using assms(2) acc idle
    by (auto simp: ar_accept_def ar_enc_step_def ar_enc_data_def Let_def min.commute
        split: if_splits)
  moreover have "ar_enc_inv ?s" "\<not> aw_done ?s" "ar_queue ?s = []"
    using assms by (simp_all add: ar_enc_inv_def ar_queue_def)
  moreover have "ar_accept (ar_core ?s) (EncData (drop n xs)) = Inr (c, drop n xs)"
    using acc by (auto simp: ar_accept_def ar_core_def split: if_splits)
  ultimately show ?thesis by blast
qed

lemma ar_data_out: "ar_accept c (EncData xs) = Inr (c', bs) \<Longrightarrow> bs = xs"
  by (auto simp: ar_accept_def split: if_splits)

interpretation ar_enc: archive_encoder ar_enc_step ar_enc_inv ar_core ar_queue aw_done "\<lambda>_. False" ar_accept
proof unfold_locales
  fix s xs c bs and n :: nat
  assume s: "ar_enc_inv s" "\<not> aw_done s" "ar_queue s = []" "xs \<noteq> []" "0 < n"
    and acc: "ar_accept (ar_core s) (EncData xs) = Inr (c, bs)"
  then show "\<exists>s' st k p. ar_enc_step s (EncData xs) n = (s', Inr (estep k p st, take p bs)) \<and>
        0 < k \<and> k \<le> length xs \<and> p \<le> length bs \<and>
        ar_enc_inv s' \<and> \<not> aw_done s' \<and> ar_queue s' = [] \<and>
        ar_accept (ar_core s') (EncData (drop k xs)) = Inr (c, drop p bs)"
    unfolding ar_data_out [OF acc] by (intro copied_data ar_data_accepted)
qed (use ar_step_drains ar_begin_accepted ar_end_accepted ar_finish_accepted in
    \<open>auto simp: ar_accept_def split: if_splits\<close>)

end
