(* ===== verification/Oxide_Ar_Roundtrip.thy ===== *)
theory Oxide_Ar_Roundtrip
  imports Oxide_Ar_Encoder
begin

text \<open>
  Writing an \<open>ar\<close> archive and reading it back. The theory first shows that the numeric header
  fields are parsed back to the numbers they were printed from, then the same for a whole header,
  then for one member, and finally for whole archives written through \<open>ArchiveWriter\<close> with an
  output buffer of any positive size.
\<close>

section \<open>Numeric fields\<close>

lemma radix_loop_append: "radix_loop v r (xs @ ys) = radix_loop v r xs @ ys"
proof (induction v r xs rule: radix_loop.induct)
  case (1 v r buf)
  then show ?case
    by (cases "v = 0 \<or> r < 2") (simp_all add: radix_loop.simps [of v])
qed

lemma radix_loop_snoc:
  assumes "0 < v" and "2 \<le> r"
  shows "radix_loop v r [] = radix_loop (v div r) r [] @ [48 + of_nat (v mod r)]"
  using assms radix_loop_append [of "v div r" r "[]" "[48 + of_nat (v mod r)]"]
  by (simp add: radix_loop.simps [of v])

lemma radix_loop_zero [simp]: "radix_loop 0 r buf = buf"
  by (simp add: radix_loop.simps)

lemma radix_loop_length: "v < r ^ k \<Longrightarrow> 2 \<le> r \<Longrightarrow> length (radix_loop v r []) \<le> k"
proof (induction k arbitrary: v)
  case 0
  then show ?case by simp
next
  case (Suc k)
  show ?case
  proof (cases "v = 0")
    case False
    from Suc.prems have "v div r < r ^ k" by (simp add: less_mult_imp_div_less mult.commute)
    with Suc.IH Suc.prems(2) False show ?thesis by (simp add: radix_loop_snoc)
  qed simp
qed

lemma radix_loop_Nil_iff: "2 \<le> r \<Longrightarrow> radix_loop v r [] = [] \<longleftrightarrow> v = 0"
  by (cases "v = 0") (simp_all add: radix_loop_snoc)

lemma digit_byte:
  assumes "d < 10"
  shows "is_ascii_digit (48 + of_nat d)" "unat ((48 + of_nat d :: byte) - 48) = d"
    "(48 + of_nat d :: byte) \<noteq> 32" "d < 8 \<Longrightarrow> 48 \<le> (48 + of_nat d :: byte) \<and> (48 + of_nat d :: byte) \<le> 55"
proof -
  from assms have "d = 0 \<or> d = 1 \<or> d = 2 \<or> d = 3 \<or> d = 4 \<or> d = 5 \<or> d = 6 \<or> d = 7 \<or> d = 8 \<or> d = 9"
    by presburger
  then show "is_ascii_digit (48 + of_nat d)" "unat ((48 + of_nat d :: byte) - 48) = d"
    "(48 + of_nat d :: byte) \<noteq> 32" "d < 8 \<Longrightarrow> 48 \<le> (48 + of_nat d :: byte) \<and> (48 + of_nat d :: byte) \<le> 55"
    by (elim disjE; simp add: is_ascii_digit_def)+
qed

lemma decimal_loop_append:
  "ar_decimal_loop a (xs @ ys) = bindE (ar_decimal_loop a xs) (\<lambda>v. ar_decimal_loop v ys)"
  by (induction xs arbitrary: a) (auto simp: bindE_def split: sum.splits)

lemma octal_loop_append:
  "ar_octal_loop a (xs @ ys) = bindE (ar_octal_loop a xs) (\<lambda>v. ar_octal_loop v ys)"
  by (induction xs arbitrary: a) (auto simp: bindE_def split: sum.splits)

lemma decimal_loop_radix: "v \<le> u64_max \<Longrightarrow> ar_decimal_loop 0 (radix_loop v 10 []) = Inr v"
proof (induction v rule: less_induct)
  case (less v)
  show ?case
  proof (cases "v = 0")
    case False
    have "ar_decimal_loop 0 (radix_loop (v div 10) 10 []) = Inr (v div 10)"
      using less False by simp
    moreover have "v div 10 * 10 \<le> u64_max" "v div 10 * 10 + v mod 10 = v"
      using less.prems by (simp_all add: le_trans [OF div_times_less_eq_dividend])
    ultimately show ?thesis
      using False less.prems digit_byte [of "v mod 10"]
      by (simp add: radix_loop_snoc decimal_loop_append checked_mul_def checked_add_def)
  qed simp
qed

lemma octal_loop_radix: "v \<le> u64_max \<Longrightarrow> ar_octal_loop 0 (radix_loop v 8 []) = Inr v"
proof (induction v rule: less_induct)
  case (less v)
  show ?case
  proof (cases "v = 0")
    case False
    have "ar_octal_loop 0 (radix_loop (v div 8) 8 []) = Inr (v div 8)"
      using less False by simp
    moreover have "v div 8 * 8 \<le> u64_max" "v div 8 * 8 + v mod 8 = v"
      using less.prems by (simp_all add: le_trans [OF div_times_less_eq_dividend])
    moreover have "v mod 8 < 10" "v mod 8 < 8" using mod_less_divisor [of 8 v] by linarith+
    ultimately show ?thesis
      using False less.prems digit_byte [of "v mod 8"]
      by (simp add: radix_loop_snoc octal_loop_append checked_mul_def checked_add_def)
  qed simp
qed

lemma radix_bytes_facts:
  assumes "r = 8 \<or> r = 10"
  shows "radix_bytes v r \<noteq> []" "last (radix_bytes v r) \<noteq> 32"
    "v < r ^ k \<Longrightarrow> 0 < k \<Longrightarrow> length (radix_bytes v r) \<le> k"
proof -
  have r: "2 \<le> r" and "v mod r < 10" using assms mod_less_divisor [of r v] by auto
  then have "(48 + of_nat (v mod r) :: byte) \<noteq> 32" by (simp add: digit_byte(3))
  with r show "radix_bytes v r \<noteq> []" "last (radix_bytes v r) \<noteq> 32"
    by (simp_all add: radix_bytes_def radix_loop_snoc)
  show "v < r ^ k \<Longrightarrow> 0 < k \<Longrightarrow> length (radix_bytes v r) \<le> k"
    using radix_loop_length [of v r k] r by (simp add: radix_bytes_def)
qed

lemma parse_decimal_radix: "v \<le> u64_max \<Longrightarrow> ar_parse_decimal (radix_bytes v 10) = Inr v"
  using radix_bytes_facts(1) [of 10 v] decimal_loop_radix [of v]
  by (auto simp: ar_parse_decimal_def radix_bytes_def is_ascii_digit_def checked_mul_def checked_add_def
      u64_max_def)

lemma parse_octal_radix: "v \<le> u64_max \<Longrightarrow> ar_parse_octal (radix_bytes v 8) = Inr v"
  using octal_loop_radix [of v]
  by (auto simp: ar_parse_octal_def radix_bytes_def checked_mul_def checked_add_def u64_max_def)

section \<open>Header layout\<close>

definition padded :: "nat \<Rightarrow> bytes \<Rightarrow> bytes" where
  "padded n value = put_field (replicate n 32) value"

lemma length_put_field [simp]: "length (put_field fld value) = length fld"
  by (simp add: put_field_def Let_def)

lemma length_padded [simp]: "length (padded n value) = n"
  by (simp add: padded_def)

lemma padded_fits: "length value \<le> n \<Longrightarrow> padded n value = value @ replicate (n - length value) 32"
  by (simp add: padded_def put_field_def Let_def min.absorb1)

lemma put_field_blank: "fld = replicate n 32 \<Longrightarrow> put_field fld value = padded n value"
  by (simp add: padded_def)

lemma slice_middle:
  "length xs = a \<Longrightarrow> b = a + length ys \<Longrightarrow> slice (xs @ ys @ zs) a b = ys"
  by (simp add: slice_def)

lemma ar_put_blank:
  assumes "length xs = fst r" and "snd r = fst r + n"
  shows "ar_put (xs @ replicate (n + m) 32) r value = (xs @ padded n value) @ replicate m 32"
proof -
  have "slice (xs @ replicate (n + m) 32) (fst r) (snd r) = replicate n 32"
    using assms by (simp add: slice_def)
  then show ?thesis
    using assms by (simp add: ar_put_def copy_at_def padded_def)
qed

lemma ar_header_layout:
  "ar_header md t =
     padded 16 (ar_name_field (ap_raw (md_path md))) @
     padded 12 (radix_bytes (ar_mtime md) 10) @
     padded 6 (radix_bytes (opt_or 0 (own_uid (md_owner md))) 10) @
     padded 6 (radix_bytes (opt_or 0 (own_gid (md_owner md))) 10) @
     padded 8 (radix_bytes (0x8000 OR (opt_or (default_mode (md_kind md)) (md_mode md) AND 0xfff)) 8) @
     padded 10 (radix_bytes t 10) @ [96, 10]"
proof -
  define a b c d e f where ab: "a = ar_name_field (ap_raw (md_path md))" "b = radix_bytes (ar_mtime md) 10"
    "c = radix_bytes (opt_or 0 (own_uid (md_owner md))) 10"
    "d = radix_bytes (opt_or 0 (own_gid (md_owner md))) 10"
    "e = radix_bytes (0x8000 OR (opt_or (default_mode (md_kind md)) (md_mode md) AND 0xfff)) 8"
    "f = radix_bytes t 10"
  have "ar_put (replicate 60 32) F_NAME a = padded 16 a @ replicate 44 32"
    using ar_put_blank [of "[]" F_NAME 16 44 a] by (simp add: F_NAME_def)
  moreover have "ar_put (padded 16 a @ replicate 44 32) F_MTIME b =
      padded 16 a @ padded 12 b @ replicate 32 32"
    using ar_put_blank [of "padded 16 a" F_MTIME 12 32 b] by (simp add: F_MTIME_def)
  moreover have "ar_put (padded 16 a @ padded 12 b @ replicate 32 32) F_UID c =
      padded 16 a @ padded 12 b @ padded 6 c @ replicate 26 32"
    using ar_put_blank [of "padded 16 a @ padded 12 b" F_UID 6 26 c] by (simp add: F_UID_def)
  moreover have "ar_put (padded 16 a @ padded 12 b @ padded 6 c @ replicate 26 32) F_GID d =
      padded 16 a @ padded 12 b @ padded 6 c @ padded 6 d @ replicate 20 32"
    using ar_put_blank [of "padded 16 a @ padded 12 b @ padded 6 c" F_GID 6 20 d] by (simp add: F_GID_def)
  moreover have "ar_put (padded 16 a @ padded 12 b @ padded 6 c @ padded 6 d @ replicate 20 32) F_MODE e =
      padded 16 a @ padded 12 b @ padded 6 c @ padded 6 d @ padded 8 e @ replicate 12 32"
    using ar_put_blank [of "padded 16 a @ padded 12 b @ padded 6 c @ padded 6 d" F_MODE 8 12 e]
    by (simp add: F_MODE_def)
  moreover have "ar_put (padded 16 a @ padded 12 b @ padded 6 c @ padded 6 d @ padded 8 e @ replicate 12 32) F_SIZE f =
      padded 16 a @ padded 12 b @ padded 6 c @ padded 6 d @ padded 8 e @ padded 10 f @ replicate 2 32"
    using ar_put_blank [of "padded 16 a @ padded 12 b @ padded 6 c @ padded 6 d @ padded 8 e" F_SIZE 10 2 f]
    by (simp add: F_SIZE_def)
  ultimately show ?thesis
    by (simp add: ar_header_def AR_HEADER_def Let_def copy_at_def F_MAGIC_def flip: ab)
qed

lemma length_ar_header [simp]: "length (ar_header md t) = 60"
  by (simp add: ar_header_layout)

lemma ar_header_fields_at:
  defines "h md t \<equiv> ar_header md t"
  shows "ar_field (h md t) F_NAME = padded 16 (ar_name_field (ap_raw (md_path md)))"
    "ar_field (h md t) F_MTIME = padded 12 (radix_bytes (ar_mtime md) 10)"
    "ar_field (h md t) F_UID = padded 6 (radix_bytes (opt_or 0 (own_uid (md_owner md))) 10)"
    "ar_field (h md t) F_GID = padded 6 (radix_bytes (opt_or 0 (own_gid (md_owner md))) 10)"
    "ar_field (h md t) F_MODE =
       padded 8 (radix_bytes (0x8000 OR (opt_or (default_mode (md_kind md)) (md_mode md) AND 0xfff)) 8)"
    "ar_field (h md t) F_SIZE = padded 10 (radix_bytes t 10)"
    "ar_field (h md t) F_MAGIC = [96, 10]"
  by (simp_all add: h_def ar_header_layout ar_field_def ar_layout slice_def)

lemma rtrim_snoc: "rtrim (ys @ [b]) b = rtrim ys b"
  by (subst rtrim.simps) simp

lemma rtrim_append_replicate:
  assumes "xs = [] \<or> last xs \<noteq> b"
  shows "rtrim (xs @ replicate n b) b = xs"
proof (induction n)
  case 0
  with assms show ?case by (subst rtrim.simps) auto
next
  case (Suc n)
  have "xs @ replicate (Suc n) b = (xs @ replicate n b) @ [b]" by (simp add: replicate_append_same)
  with Suc show ?case by (simp only: rtrim_snoc)
qed

lemma rtrim_padded: "length v \<le> n \<Longrightarrow> v \<noteq> [] \<Longrightarrow> last v \<noteq> 32 \<Longrightarrow> rtrim (padded n v) 32 = v"
  by (simp add: padded_fits rtrim_append_replicate)

lemma decimal_field:
  assumes "v < 10 ^ n" and "0 < n" and "v \<le> u64_max"
  shows "ar_parse_decimal (rtrim (padded n (radix_bytes v 10)) 32) = Inr v"
  using assms radix_bytes_facts(1,2) [of 10 v] radix_bytes_facts(3) [of 10 v n]
  by (simp add: rtrim_padded parse_decimal_radix)

lemma mode_bits_mod: "(0x8000 OR (m AND 0xfff)) = 0x8000 + m mod 4096" for m :: nat
proof -
  have "0x8000 AND (m AND 0xfff) = m AND (0x8000 AND 0xfff)" by (simp only: and.left_commute)
  then have "0x8000 AND (m AND 0xfff) = 0" by simp
  then have "0x8000 OR (m AND 0xfff) = 0x8000 + (m AND 0xfff)"
    by (metis disjunctive_add_eq_or)
  then show ?thesis by (simp add: and_mask_nat)
qed

lemma mode_field:
  "ar_parse_octal (rtrim (padded 8 (radix_bytes (0x8000 OR (m AND 0xfff)) 8)) 32) = Inr (0x8000 + m mod 4096)"
proof -
  have b: "0x8000 + m mod 4096 < 8 ^ 6" using mod_less_divisor [of 4096 m] by simp
  then have "length (radix_bytes (0x8000 + m mod 4096) 8) \<le> 6"
    by (intro radix_bytes_facts(3)) auto
  with b show ?thesis
    using radix_bytes_facts(1,2) [of 8 "0x8000 + m mod 4096"]
    by (simp add: mode_bits_mod rtrim_padded parse_octal_radix u64_max_def)
qed

section \<open>One member\<close>

text \<open>
  What the fixed-width fields can represent. A short name must not look like one of the reserved
  member names (\<open>/\<close>, \<open>//\<close>, \<open>/SYM64/\<close>), a GNU table reference or a BSD length.
\<close>

definition ar_plain_name :: "bytes \<Rightarrow> bool" where
  "ar_plain_name name \<longleftrightarrow>
     ar_inline_name name \<or>
     name \<notin> {[], ascii ''/'', ascii ''/SYM64''} \<and> \<not> starts_with (name @ [47]) (ascii ''#1/'') \<and>
     \<not> (2 \<le> length name \<and> name ! 0 = 47 \<and> is_ascii_digit (name ! 1))"

definition ar_member_size :: "entry_metadata \<Rightarrow> nat \<Rightarrow> nat" where
  "ar_member_size md n =
     n + (if ar_inline_name (ap_raw (md_path md)) then length (ap_raw (md_path md)) else 0)"

definition ar_fits :: "entry_metadata \<Rightarrow> nat \<Rightarrow> bool" where
  "ar_fits md n \<longleftrightarrow>
     md_size md = Some n \<and> ar_member_size md n < 10 ^ 10 \<and> ar_mtime md < 10 ^ 12 \<and>
     opt_or 0 (own_uid (md_owner md)) < 10 ^ 6 \<and> opt_or 0 (own_gid (md_owner md)) < 10 ^ 6 \<and>
     ar_plain_name (ap_raw (md_path md))"

definition ar_flds :: "entry_metadata \<Rightarrow> ar_fields" where
  "ar_flds md =
     \<lparr>arf_mode = opt_or (default_mode (md_kind md)) (md_mode md) mod 4096,
      arf_uid = opt_or 0 (own_uid (md_owner md)), arf_gid = opt_or 0 (own_gid (md_owner md)),
      arf_mtime = Some (timestamp_from_seconds (int (ar_mtime md)))\<rparr>"

text \<open>What an \<open>ar\<close> member preserves of entry metadata: a regular file with path, size, permission
  bits, numeric owner and whole-second modification time.\<close>

definition ar_decoded :: "entry_metadata \<Rightarrow> nat \<Rightarrow> entry_metadata" where
  "ar_decoded md n =
     b_times (times_default\<lparr>modified := Some (timestamp_from_seconds (int (ar_mtime md)))\<rparr>)
      (b_owner \<lparr>own_uid = Some (opt_or 0 (own_uid (md_owner md))),
                own_gid = Some (opt_or 0 (own_gid (md_owner md))), own_user = None, own_group = None\<rparr>
      (b_mode (Some (opt_or (default_mode (md_kind md)) (md_mode md) mod 4096))
      (b_size (Some n) (builder KindFile (path_from_bytes (ap_raw (md_path md)))))))"

lemma pow10_le: "(v::nat) < 10 ^ 12 \<Longrightarrow> v \<le> u64_max" "(v::nat) < 10 ^ 10 \<Longrightarrow> v \<le> u64_max"
  "(v::nat) < 10 ^ 6 \<Longrightarrow> v \<le> u64_max"
  by (simp_all add: u64_max_def)

lemma header_fields_decode:
  assumes "ar_fits md n"
  shows "ar_header_fields (ar_header md t) = Inr (ar_flds md)"
proof -
  have "i64_saturate (ar_mtime md) = int (ar_mtime md)"
    using assms by (simp add: ar_fits_def i64_saturate_def i64_max_def)
  moreover have "(0x8000 + m mod 4096) AND 0xfff = m mod 4096" for m :: nat
    using mod_mult_self1 [of "m mod 4096" 8 4096] by (simp add: and_mask_nat add.commute)
  ultimately show ?thesis
    using assms
    by (simp add: ar_header_fields_def ar_header_fields_at mode_field decimal_field pow10_le
        ar_fits_def ar_flds_def)
qed

lemma header_size_decode:
  assumes "t < 10 ^ 10"
  shows "bindE (ar_parse_decimal (rtrim (ar_field (ar_header md t) F_SIZE) 32)) ar_usize_of = Inr t"
  using assms pow10_le(2) [of t] by (simp add: ar_header_fields_at decimal_field ar_usize_of_def)

lemma short_name_field:
  assumes "\<not> ar_inline_name name"
  shows "rtrim (padded 16 (ar_name_field name)) 32 = name @ [47]"
  using assms by (subst rtrim_padded) (auto simp: ar_name_field_def ar_inline_name_def)

lemma long_name_field:
  assumes "ar_inline_name name" and "length name < 10 ^ 10"
  shows "rtrim (padded 16 (ar_name_field name)) 32 = ascii ''#1/'' @ radix_bytes (length name) 10"
proof -
  have "length (radix_bytes (length name) 10) \<le> 10"
    by (rule radix_bytes_facts(3)) (use assms in auto)
  with assms radix_bytes_facts(1,2) [of 10 "length name"] show ?thesis
    by (subst rtrim_padded) (auto simp: ar_name_field_def ascii_def)
qed

lemma ar_member_short:
  assumes "ar_fits md n" and "\<not> ar_inline_name (ap_raw (md_path md))"
  shows "ar_member s (ar_header md n) c =
    ar_begin_entry s (ap_raw (md_path md)) n (n mod 2) (ar_flds md) c"
proof -
  let ?name = "ap_raw (md_path md)"
  have n: "n < 10 ^ 10" and plain: "ar_plain_name ?name"
    using assms by (auto simp: ar_fits_def ar_member_size_def)
  have special: "?name @ [47] \<noteq> ascii ''//''" "?name @ [47] \<noteq> ascii ''/''" "?name @ [47] \<noteq> ascii ''/SYM64/''"
  proof -
    have "ascii ''//'' = ascii ''/'' @ [47]" "ascii ''/'' = [] @ [47]" "ascii ''/SYM64/'' = ascii ''/SYM64'' @ [47]"
      by (simp_all add: ascii_def)
    then show "?name @ [47] \<noteq> ascii ''//''" "?name @ [47] \<noteq> ascii ''/''" "?name @ [47] \<noteq> ascii ''/SYM64/''"
      using plain assms(2) by (auto simp: ar_plain_name_def simp del: append_Nil)
  qed
  have bsd: "strip_prefix (?name @ [47]) (ascii ''#1/'') = None"
    using plain assms(2) by (simp add: ar_plain_name_def strip_prefix_def)
  have gnu: "\<not> (2 \<le> length (?name @ [47]) \<and> (?name @ [47]) ! 0 = 47 \<and> is_ascii_digit ((?name @ [47]) ! 1))"
    using plain assms(2)
    by (cases ?name; cases "tl ?name") (auto simp: ar_plain_name_def is_ascii_digit_def ascii_def)
  show ?thesis
    using special bsd gnu
    by (auto simp: ar_member_def header_fields_decode [OF assms(1)] header_size_decode [OF n]
        ar_header_fields_at(1) short_name_field [OF assms(2)] and_mask_nat Let_def)
qed

lemma ar_member_long:
  assumes "ar_fits md n" and "ar_inline_name (ap_raw (md_path md))"
    and "\<not> exceeds (path_bytes (ar_limits s)) (length (ap_raw (md_path md)))"
  shows "ar_member s (ar_header md (ar_member_size md n)) c =
    (s\<lparr>ar_pending := [],
       ar_state := ArBsdName (length (ap_raw (md_path md))) n (ar_member_size md n mod 2) (ar_flds md)\<rparr>,
     Inr (dstep c EvNeedInput))"
proof -
  let ?name = "ap_raw (md_path md)"
  have t: "ar_member_size md n < 10 ^ 10" and l: "length ?name < 10 ^ 10"
    and e: "ar_member_size md n = n + length ?name"
    using assms by (auto simp: ar_fits_def ar_member_size_def)
  have "ar_parse_decimal (radix_bytes (length ?name) 10) = Inr (length ?name)"
    using parse_decimal_radix l pow10_le by blast
  then show ?thesis
    using assms(3) l pow10_le(2) [OF l]
    by (simp add: ar_member_def header_fields_decode [OF assms(1)] header_size_decode [OF t [unfolded e]]
        ar_header_fields_at(1) long_name_field [OF assms(2) l] and_mask_nat ascii_def
        strip_prefix_def starts_with_def ar_usize_of_def e checked_sub_def Let_def)
qed

section \<open>Reading a member back\<close>

definition ar_member_bytes :: "entry_metadata \<times> bytes list \<Rightarrow> bytes" where
  "ar_member_bytes e =
     (let md = fst e; data = concat (snd e); name = ap_raw (md_path md);
          t = ar_member_size md (length data) in
      ar_header md t @ (if ar_inline_name name then name else []) @ data @ replicate (t mod 2) 10)"

definition ar_member_events :: "entry_metadata \<times> bytes list \<Rightarrow> decode_event list" where
  "ar_member_events e =
     (let data = concat (snd e) in
      EvEntry (ar_decoded (fst e) (length data)) #
      (if data = [] then [] else [EvData data]) @ [EvEndEntry])"

lemmas ar_decode_cons = decode_all_cons [of ar_step]

text \<open>The budgets a member is charged against when it is decoded in state \<open>s\<close>.\<close>

definition ar_within :: "ar_decoder \<Rightarrow> entry_metadata \<times> bytes list \<Rightarrow> bool" where
  "ar_within s e \<longleftrightarrow>
     \<not> exceeds (path_bytes (ar_limits s)) (length (ap_raw (md_path (fst e)))) \<and>
     \<not> exceeds (entry_bytes (ar_limits s)) (length (concat (snd e))) \<and>
     \<not> exceeds (max_entries (ar_limits s)) (Suc (ar_entries s)) \<and> Suc (ar_entries s) \<le> u64_max \<and>
     \<not> exceeds (decoded_total (ar_limits s)) (ar_total s + length (concat (snd e))) \<and>
     ar_total s + length (concat (snd e)) \<le> u64_max"

definition ar_after :: "ar_decoder \<Rightarrow> entry_metadata \<times> bytes list \<Rightarrow> ar_decoder" where
  "ar_after s e = s\<lparr>ar_entries := Suc (ar_entries s), ar_total := ar_total s + length (concat (snd e))\<rparr>"

definition ar_ready :: "ar_decoder \<Rightarrow> bool" where
  "ar_ready s \<longleftrightarrow> ar_state s = ArHeader \<and> ar_pending s = [] \<and> \<not> ar_thin s"

lemma ar_data_step:
  assumes "data \<noteq> []" and "length data \<le> u64_max" and "ar_state s = ArData (length data) p"
    and "ar_total s + length data \<le> u64_max"
    and "\<not> exceeds (decoded_total (ar_limits s)) (ar_total s + length data)"
  shows "ar_step s (data @ tail) End =
    (s\<lparr>ar_total := ar_total s + length data, ar_state := ArData 0 p\<rparr>, Inr (dstep (length data) (EvData data)))"
  using assms by (simp add: ar_step_def ar_step_data_def Let_def checked_add_def)

lemma ar_end_step:
  assumes "ar_state s = ArData 0 p"
  shows "ar_step s (replicate p 10 @ tail) End = (s\<lparr>ar_state := ArHeader\<rparr>, Inr (dstep p EvEndEntry))"
  using assms by (simp add: ar_step_def ar_step_data_def ar_step_end_entry_def)

lemma ar_body_read:
  assumes "ar_within s (md, ps)" and "ar_ready s"
    and "decode_all ar_step (ar_after s (md, ps)) rest = Some (evs, r)"
  shows "decode_all ar_step
      (s\<lparr>ar_entries := Suc (ar_entries s), ar_state := ArData (length (concat ps)) p\<rparr>)
      (concat ps @ replicate p 10 @ rest) =
    Some ((if concat ps = [] then [] else [EvData (concat ps)]) @ EvEndEntry # evs, r)"
proof -
  define data where "data = concat ps"
  let ?s1 = "s\<lparr>ar_entries := Suc (ar_entries s), ar_state := ArData (length data) p\<rparr>"
  let ?s2 = "?s1\<lparr>ar_total := ar_total s + length data, ar_state := ArData 0 p\<rparr>"
  have "?s2\<lparr>ar_state := ArHeader\<rparr> = ar_after s (md, ps)"
    using assms(2) by (cases s) (simp add: ar_ready_def ar_after_def data_def)
  then have fin: "decode_all ar_step ?s2 (replicate p 10 @ rest) = Some (EvEndEntry # evs, r)"
    using ar_end_step [of ?s2 p rest] assms(3) by (intro ar_decode_cons [where c = p]) simp_all
  have "decode_all ar_step ?s1 (data @ replicate p 10 @ rest) =
    Some ((if data = [] then [] else [EvData data]) @ EvEndEntry # evs, r)"
  proof (cases "data = []")
    case True
    then have "?s1 = ?s2" by (cases s) simp
    with fin True show ?thesis by simp
  next
    case False
    have lim: "ar_total s + length data \<le> u64_max" "\<not> exceeds (decoded_total (ar_limits s)) (ar_total s + length data)"
      using assms(1) by (simp_all add: ar_within_def data_def)
    have "ar_step ?s1 (data @ replicate p 10 @ rest) End = (?s2, Inr (dstep (length data) (EvData data)))"
      using ar_data_step [of data ?s1 p] False lim by simp
    from ar_decode_cons [OF this] fin False show ?thesis by simp
  qed
  then show ?thesis by (simp add: data_def)
qed

lemma ar_begin_decoded:
  assumes "ar_within s (md, ps)" and "\<not> ar_thin s"
  shows "ar_begin_entry s (ap_raw (md_path md)) (length (concat ps)) p (ar_flds md) c =
    (s\<lparr>ar_entries := Suc (ar_entries s), ar_state := ArData (length (concat ps)) p\<rparr>,
     Inr (dstep c (EvEntry (ar_decoded md (length (concat ps))))))"
  using assms
  by (simp add: ar_begin_entry_def ar_metadata_def ar_within_def ar_count_entry_def checked_add_def
      ar_decoded_def ar_flds_def)

lemma ar_header_step:
  assumes "ar_ready s" and "length h = 60"
  shows "ar_step s (h @ rest) End = ar_member s h 60"
proof -
  have e: "s\<lparr>ar_pending := []\<rparr> = s" using assms(1) by (cases s) (simp add: ar_ready_def)
  show ?thesis
    using assms by (auto simp: ar_step_def ar_ready_def ar_step_header_def ar_fill_def AR_HEADER_def e)
qed

lemma ar_member_read:
  assumes fits: "ar_fits md (length (concat ps))" and within: "ar_within s (md, ps)" and ready: "ar_ready s"
    and rest: "decode_all ar_step (ar_after s (md, ps)) rest = Some (evs, r)"
  shows "\<exists>evs'. decode_all ar_step s (ar_member_bytes (md, ps) @ rest) = Some (evs', r) \<and>
    visible evs' = ar_member_events (md, ps) @ visible evs"
proof -
  let ?name = "ap_raw (md_path md)" and ?data = "concat ps"
  let ?t = "ar_member_size md (length ?data)"
  let ?p = "?t mod 2"
  let ?s1 = "s\<lparr>ar_entries := Suc (ar_entries s), ar_state := ArData (length ?data) ?p\<rparr>"
  note body = ar_body_read [OF within ready rest, of ?p]
  note begun = ar_begin_decoded [OF within, of ?p]
  have nt: "\<not> ar_thin s" using ready by (simp add: ar_ready_def)
  show ?thesis
  proof (cases "ar_inline_name ?name")
    case False
    then have t: "?t = length ?data" by (simp add: ar_member_size_def)
    have "ar_step s (ar_member_bytes (md, ps) @ rest) End =
        (?s1, Inr (dstep 60 (EvEntry (ar_decoded md (length ?data)))))"
      using False ar_header_step [OF ready length_ar_header] ar_member_short [OF fits False]
        begun [OF nt] t
      by (simp add: ar_member_bytes_def Let_def)
    from ar_decode_cons [OF this] body False show ?thesis
      by (simp add: ar_member_bytes_def ar_member_events_def Let_def)
  next
    case True
    let ?s0 = "s\<lparr>ar_pending := [], ar_state := ArBsdName (length ?name) (length ?data) ?p (ar_flds md)\<rparr>"
    have 1: "ar_step s (ar_member_bytes (md, ps) @ rest) End = (?s0, Inr (dstep 60 EvNeedInput))"
      using True ar_header_step [OF ready length_ar_header] ar_member_long [OF fits True] within
      by (simp add: ar_member_bytes_def Let_def ar_within_def)
    have eq: "s\<lparr>ar_state := ArDone, ar_pending := []\<rparr> = s\<lparr>ar_state := ArDone\<rparr>"
      using ready by (cases s) (simp add: ar_ready_def)
    have "ar_step ?s0 (?name @ ?data @ replicate ?p 10 @ rest) End =
        ar_begin_entry (s\<lparr>ar_state := ArDone\<rparr>) ?name (length ?data) ?p (ar_flds md) (length ?name)"
      using ready by (simp add: ar_step_def ar_step_bsd_name_def Let_def ar_ready_def eq)
    also have "\<dots> = (?s1, Inr (dstep (length ?name) (EvEntry (ar_decoded md (length ?data)))))"
      using ar_begin_decoded [of "s\<lparr>ar_state := ArDone\<rparr>" md ps ?p] within nt
      by (simp add: ar_within_def)
    finally have 2: "ar_step ?s0 (?name @ ?data @ replicate ?p 10 @ rest) End =
        (?s1, Inr (dstep (length ?name) (EvEntry (ar_decoded md (length ?data)))))" .
    have "decode_all ar_step ?s0 (?name @ ?data @ replicate ?p 10 @ rest) = Some
        (EvEntry (ar_decoded md (length ?data)) # (if ?data = [] then [] else [EvData ?data]) @ EvEndEntry # evs, r)"
      using ar_decode_cons [OF 2] body by simp
    with ar_decode_cons [OF 1] True show ?thesis
      by (simp add: ar_member_bytes_def ar_member_events_def Let_def)
  qed
qed

section \<open>Whole archives\<close>

lemma ar_begin_entry_shift:
  "ar_begin_entry s raw n p f (c + k) = shift_consumed k (ar_begin_entry s raw n p f c)"
  by (auto simp: ar_begin_entry_def shift_consumed_def Let_def split: sum.splits prod.splits)

lemma ar_member_shift: "ar_member s h (c + k) = shift_consumed k (ar_member s h c)"
  by (auto simp: ar_member_def ar_begin_entry_shift shift_consumed_def Let_def
      split: sum.splits prod.splits option.splits)

lemma ar_magic_step:
  "ar_step (ar_decoder_new l) (AR_MAGIC @ rest) End =
     shift_consumed 8 (ar_step ((ar_decoder_new l)\<lparr>ar_state := ArHeader\<rparr>) rest End)"
proof -
  have 8: "length AR_MAGIC = 8" and ne: "AR_MAGIC \<noteq> AR_THIN_MAGIC"
    by (simp_all add: AR_MAGIC_def AR_THIN_MAGIC_def ascii_def)
  show ?thesis
    by (auto simp: ar_step_def ar_step_magic_def ar_step_header_def ar_decoder_new_def ar_fill_def 8 ne
        Let_def shift_consumed_def [of _ "(_, _)"] ar_member_shift [of _ _ _ 8, symmetric] add.commute)
qed

lemma ar_decode_magic:
  "decode_all ar_step (ar_decoder_new l) (AR_MAGIC @ rest) =
     decode_all ar_step ((ar_decoder_new l)\<lparr>ar_state := ArHeader\<rparr>) rest"
proof -
  have 8: "length AR_MAGIC = 8" by (simp add: AR_MAGIC_def ascii_def)
  show ?thesis
    by (subst (1 2) decode_all.simps, subst ar_magic_step)
      (auto simp: shift_consumed_def 8 split: prod.splits sum.splits)
qed

lemma ar_entries_read:
  assumes "\<forall>(md, ps) \<in> set es. ar_fits md (length (concat ps)) \<and>
      \<not> exceeds (path_bytes (ar_limits s)) (length (ap_raw (md_path md))) \<and>
      \<not> exceeds (entry_bytes (ar_limits s)) (length (concat ps))"
    and "\<not> exceeds (max_entries (ar_limits s)) (ar_entries s + length es)"
    and "ar_entries s + length es \<le> u64_max"
    and "\<not> exceeds (decoded_total (ar_limits s)) (ar_total s + length (concat (concat (map snd es))))"
    and "ar_total s + length (concat (concat (map snd es))) \<le> u64_max"
    and "ar_ready s"
  shows "\<exists>evs. decode_all ar_step s (concat (map ar_member_bytes es)) = Some (evs, Inr ()) \<and>
    visible evs = concat (map ar_member_events es) @ [EvDone]"
  using assms
proof (induction es arbitrary: s)
  case Nil
  then show ?case
    by (subst decode_all.simps) (simp add: ar_step_def ar_step_header_def ar_ready_def)
next
  case (Cons e es)
  obtain md ps where e: "e = (md, ps)" by force
  let ?s = "ar_after s (md, ps)"
  have sel: "ar_limits ?s = ar_limits s" "ar_entries ?s = Suc (ar_entries s)"
    "ar_total ?s = ar_total s + length (concat ps)" "ar_ready ?s"
    using Cons.prems(6) by (simp_all add: ar_after_def ar_ready_def)
  obtain evs where evs: "decode_all ar_step ?s (concat (map ar_member_bytes es)) = Some (evs, Inr ())"
    "visible evs = concat (map ar_member_events es) @ [EvDone]"
    using Cons.IH [of ?s] Cons.prems sel e by (auto simp: add.assoc)
  have "ar_within s (md, ps)"
    unfolding ar_within_def fst_conv snd_conv
  proof (intro conjI)
    show "\<not> exceeds (max_entries (ar_limits s)) (Suc (ar_entries s))"
      using Cons.prems(2) exceeds_mono by fastforce
    show "\<not> exceeds (decoded_total (ar_limits s)) (ar_total s + length (concat ps))"
      using Cons.prems(4) exceeds_mono by (fastforce simp: e)
  qed (use Cons.prems e in auto)
  from ar_member_read [OF _ this Cons.prems(6) evs(1)] Cons.prems(1) evs(2) show ?case
    by (auto simp: e)
qed

text \<open>
  \<open>ar_archivable l es\<close>: every entry is valid metadata that the fixed-width header fields can
  hold, and the archive as a whole stays within the limits \<open>l\<close>.
\<close>

definition ar_archivable :: "limits \<Rightarrow> (entry_metadata \<times> bytes list) list \<Rightarrow> bool" where
  "ar_archivable l es \<longleftrightarrow>
     (\<forall>(md, ps) \<in> set es. validate md = Inr () \<and> ar_fits md (length (concat ps)) \<and>
        \<not> exceeds (path_bytes l) (length (ap_raw (md_path md))) \<and>
        \<not> exceeds (entry_bytes l) (length (concat ps))) \<and>
     \<not> exceeds (max_entries l) (length es) \<and> length es \<le> u64_max \<and>
     \<not> exceeds (decoded_total l) (length (concat (concat (map snd es)))) \<and>
     length (concat (concat (map snd es))) \<le> u64_max"

lemma ar_accept_pieces:
  assumes "aw_open c" and "aw_remaining c = length (concat ps)"
  shows "accept_commands ar_accept (map EncData ps) c = Inr (c\<lparr>aw_remaining := 0\<rparr>, concat ps)"
  using assms by (induction ps arbitrary: c) (auto simp: ar_accept_def)

lemma ar_accept_entry:
  assumes "\<not> aw_open c" and "aw_padding c = 0" and "aw_remaining c = 0"
    and "ar_fits md (length (concat ps))"
    and "\<not> exceeds (path_bytes (aw_limits c)) (length (ap_raw (md_path md)))"
    and "\<not> exceeds (entry_bytes (aw_limits c)) (length (concat ps))"
    and "\<not> exceeds (max_entries (aw_limits c)) (aw_entries c + 1)" and "aw_entries c + 1 \<le> u64_max"
  shows "accept_commands ar_accept (entry_commands (md, ps)) c =
    Inr (c\<lparr>aw_started := True, aw_entries := aw_entries c + 1\<rparr>,
         (if aw_started c then [] else AR_MAGIC) @ ar_member_bytes (md, ps))"
proof -
  have t: "ar_member_size md (length (concat ps)) \<le> u64_max" and sz: "md_size md = Some (length (concat ps))"
    using assms(4) pow10_le(2) by (auto simp: ar_fits_def)
  show ?thesis
    using assms(1-3,5-8) t sz
    by (cases c) (auto simp: entry_commands_def accept_commands_append ar_accept_pieces ar_accept_def
        ar_member_size_def ar_member_bytes_def Let_def)
qed

lemma ar_accept_archive:
  assumes "\<not> aw_open c" and "aw_padding c = 0" and "aw_remaining c = 0"
    and "\<forall>(md, ps) \<in> set es. ar_fits md (length (concat ps)) \<and>
      \<not> exceeds (path_bytes (aw_limits c)) (length (ap_raw (md_path md))) \<and>
      \<not> exceeds (entry_bytes (aw_limits c)) (length (concat ps))"
    and "\<not> exceeds (max_entries (aw_limits c)) (aw_entries c + length es)"
    and "aw_entries c + length es \<le> u64_max"
  shows "\<exists>c'. accept_commands ar_accept (archive_commands es) c =
    Inr (c', (if aw_started c then [] else AR_MAGIC) @ concat (map ar_member_bytes es))"
  using assms
proof (induction es arbitrary: c)
  case Nil
  then show ?case by (simp add: archive_commands_def ar_accept_def)
next
  case (Cons e es)
  obtain md ps where e: "e = (md, ps)" by force
  let ?c = "c\<lparr>aw_started := True, aw_entries := aw_entries c + 1\<rparr>"
  have "\<not> exceeds (max_entries (aw_limits c)) (aw_entries c + 1)"
    using Cons.prems(5) exceeds_mono by fastforce
  with Cons.prems have "accept_commands ar_accept (entry_commands (md, ps)) c =
    Inr (?c, (if aw_started c then [] else AR_MAGIC) @ ar_member_bytes (md, ps))"
    by (intro ar_accept_entry) (auto simp: e)
  moreover obtain c' where "accept_commands ar_accept (archive_commands es) ?c =
      Inr (c', concat (map ar_member_bytes es))"
    using Cons.IH [of ?c] Cons.prems by auto
  ultimately show ?case
    by (simp add: e archive_commands_def accept_commands_append)
qed

lemma ar_write_read:
  assumes "ar_archivable l es" and "0 < n"
  shows "\<exists>w evs. write_archive ar_enc_step vec_sink es
        \<lparr>wr_output = [], wr_encoder = ar_encoder_new l, wr_buffer = n, wr_failed = False\<rparr> = Some (w, Inr ()) \<and>
      decode_all ar_step (ar_decoder_new l) (wr_output w) = Some (evs, Inr ()) \<and>
      visible evs = concat (map ar_member_events es) @ [EvDone]"
proof -
  let ?w = "\<lparr>wr_output = [], wr_encoder = ar_encoder_new l, wr_buffer = n, wr_failed = False\<rparr>"
  let ?e = "ar_encoder_new l"
  have new: "ar_core ?e = ?e" "ar_queue ?e = []" "ar_enc_inv ?e" "\<not> aw_done ?e"
    by (simp_all add: ar_core_def ar_queue_def ar_enc_inv_def ar_encoder_new_def)
  obtain c where "accept_commands ar_accept (archive_commands es) ?e =
      Inr (c, AR_MAGIC @ concat (map ar_member_bytes es))"
    using ar_accept_archive [of ?e es] assms(1)
    by (auto simp: ar_archivable_def ar_encoder_new_def)
  moreover have "\<forall>(m, ps) \<in> set es. validate m = Inr ()"
    using assms(1) by (auto simp: ar_archivable_def)
  ultimately obtain w where w: "write_archive ar_enc_step vec_sink es ?w = Some (w, Inr ())"
    "wr_output w = AR_MAGIC @ concat (map ar_member_bytes es)"
    using ar_enc.write_archive_returns [of ?w es] new assms(2) by auto
  obtain evs where "decode_all ar_step ((ar_decoder_new l)\<lparr>ar_state := ArHeader\<rparr>)
      (concat (map ar_member_bytes es)) = Some (evs, Inr ())"
    "visible evs = concat (map ar_member_events es) @ [EvDone]"
    using ar_entries_read [of es "(ar_decoder_new l)\<lparr>ar_state := ArHeader\<rparr>"] assms(1)
    by (auto simp: ar_archivable_def ar_decoder_new_def ar_ready_def)
  with w show ?thesis by (simp add: ar_decode_magic)
qed

text \<open>
  Round trip of the \<open>ar\<close> writer and decoder: for every archivable list of entries, whatever
  the pieces the bodies are written in and the size of the writer's buffer, the writer returns
  without error, and decoding the bytes it wrote returns, in order, each entry's metadata (as far as
  the format keeps it), its body and its end, followed by the end of the archive.
\<close>

theorem ar_roundtrip:
  assumes "ar_archivable l es" and "0 < n"
  shows "\<exists>w evs. write_archive ar_enc_step vec_sink es
        \<lparr>wr_output = [], wr_encoder = ar_encoder_new l, wr_buffer = n, wr_failed = False\<rparr> = Some (w, Inr ()) \<and>
      decode_all ar_step (ar_decoder_new l) (wr_output w) = Some (evs, Inr ()) \<and>
      visible evs = concat (map ar_member_events es) @ [EvDone]"
  using ar_write_read [OF assms] .

definition sample_file :: "bytes \<Rightarrow> bytes list \<Rightarrow> entry_metadata \<times> bytes list" where
  "sample_file name ps =
     (b_size (Some (length (concat ps))) (builder KindFile (path_from_bytes name)), ps)"

definition sample_files :: "(entry_metadata \<times> bytes list) list" where
  "sample_files = [sample_file (ascii ''a.o'') [[1, 2], [], [3]],
     sample_file (ascii ''a_member_with_a_long_name.o'') [], sample_file (ascii ''b'') [[10, 96]]]"

lemma ar_archivable_sample: "ar_archivable limits_safe sample_files"
  by (simp add: ar_archivable_def sample_files_def sample_file_def ar_fits_def ar_member_size_def ar_mtime_def
      ar_plain_name_def ar_inline_name_def starts_with_def ascii_def validate_def builder_defs builder_def
      path_from_bytes_def times_default_def owner_default_def opt_or_def limits_safe_def FOUR_GIB_def Let_def
      option_list_def List.map_filter_def u64_max_def)

theorem ar_roundtrip_witness:
  "ar_archivable limits_safe sample_files \<and>
   (\<exists>w evs. write_archive ar_enc_step vec_sink sample_files
        \<lparr>wr_output = [], wr_encoder = ar_encoder_new limits_safe, wr_buffer = 7, wr_failed = False\<rparr> =
        Some (w, Inr ()) \<and>
      decode_all ar_step (ar_decoder_new limits_safe) (wr_output w) = Some (evs, Inr ()) \<and>
      visible evs = concat (map ar_member_events sample_files) @ [EvDone])"
  using ar_roundtrip [OF ar_archivable_sample, of 7] ar_archivable_sample by simp

end
