(* ===== verification/Oxide_Chunking.thy ===== *)
theory Oxide_Chunking
  imports Oxide_Protocol
begin

text \<open>
  How an archive may be presented to a decoder. The sans-I/O contract of \<open>protocol.rs\<close> lets the
  caller hand over any prefix of the bytes it has not yet consumed, with \<open>EndOfInput::More\<close> while
  bytes are missing and \<open>EndOfInput::End\<close> once everything is visible. The locale
  \<open>chunked_decoder\<close> states the local law under which the caller's chunking is unobservable, and
  proves that every presentation of an archive that decodes in one piece gives the same trace.
\<close>

section \<open>Traces up to chunking\<close>

fun cons_norm :: "decode_event \<Rightarrow> decode_event list \<Rightarrow> decode_event list" where
  "cons_norm EvNeedInput acc = acc"
| "cons_norm (EvData a) (EvData b # acc) = EvData (a @ b) # acc"
| "cons_norm ev acc = ev # acc"

definition norm :: "decode_event list \<Rightarrow> decode_event list" where
  \<comment> \<open>forget requests for input and merge adjacent payload chunks\<close>
  "norm evs = foldr cons_norm evs []"

lemma norm_Nil [simp]: "norm [] = []"
  by (simp add: norm_def)

lemma norm_Cons: "norm (ev # evs) = cons_norm ev (norm evs)"
  by (simp add: norm_def)

lemma norm_visible: "norm evs = norm (visible evs)"
  by (induction evs) (simp_all add: norm_Cons)

lemma cons_norm_merge: "cons_norm (EvData a) (cons_norm (EvData b) acc) = cons_norm (EvData (a @ b)) acc"
  by (cases acc rule: list.exhaust; cases "hd acc") auto

lemma cons_norm_not_data:
  "(\<forall>a. ev \<noteq> EvData a) \<Longrightarrow> ev \<noteq> EvNeedInput \<Longrightarrow> cons_norm ev acc = ev # acc"
  by (cases ev) auto

section \<open>Presentations\<close>

inductive presents ::
    "'s decoder_step \<Rightarrow> 's \<Rightarrow> bytes \<Rightarrow> decode_event list \<Rightarrow> archive_error + unit \<Rightarrow> bool"
  for step :: "'s decoder_step" where
  more: "step s xs More = (s', Inr d) \<Longrightarrow> ds_event d \<noteq> EvDone \<Longrightarrow>
    presents step s' (drop (ds_consumed d) xs @ ys) evs r \<Longrightarrow>
    presents step s (xs @ ys) (ds_event d # evs) r"
| more_done: "step s xs More = (s', Inr d) \<Longrightarrow> ds_event d = EvDone \<Longrightarrow>
    presents step s (xs @ ys) [EvDone] (Inr ())"
| more_err: "step s xs More = (s', Inl err) \<Longrightarrow> presents step s (xs @ ys) [] (Inl err)"
| last: "step s xs End = (s', Inr d) \<Longrightarrow> ds_event d \<noteq> EvDone \<Longrightarrow>
    presents step s' (drop (ds_consumed d) xs) evs r \<Longrightarrow>
    presents step s xs (ds_event d # evs) r"
| last_done: "step s xs End = (s', Inr d) \<Longrightarrow> ds_event d = EvDone \<Longrightarrow>
    presents step s xs [EvDone] (Inr ())"
| last_err: "step s xs End = (s', Inl err) \<Longrightarrow> presents step s xs [] (Inl err)"

text \<open>Two consecutive events that make up one event of the undivided presentation.\<close>

definition joins :: "decode_event \<Rightarrow> decode_event \<Rightarrow> decode_event \<Rightarrow> bool" where
  "joins ev ev' whole \<longleftrightarrow>
     ev = EvNeedInput \<and> ev' = whole \<or>
     (\<exists>a b. ev = EvData a \<and> ev' = EvData b \<and> whole = EvData (a @ b))"

lemma joins_norm: "joins ev ev' whole \<Longrightarrow> cons_norm ev (cons_norm ev' acc) = cons_norm whole acc"
  by (auto simp: joins_def cons_norm_merge)

definition continues ::
    "'s decoder_step \<Rightarrow> bytes \<Rightarrow> bytes \<Rightarrow> 's \<Rightarrow> decode_step \<Rightarrow> 's \<Rightarrow> decode_step \<Rightarrow> bool" where
  "continues step xs ys s1 d t whole \<longleftrightarrow>
     s1 = t \<and> d = whole \<or>
     (\<exists>d'. step s1 (drop (ds_consumed d) xs @ ys) End = (t, Inr d') \<and>
        ds_consumed whole = ds_consumed d + ds_consumed d' \<and>
        joins (ds_event d) (ds_event d') (ds_event whole))"

lemma continues_same [intro]: "continues step xs ys t d t d"
  by (simp add: continues_def)

lemma continues_need:
  "step s1 (drop c xs @ ys) End = (t, Inr (dstep k ev)) \<Longrightarrow>
   continues step xs ys s1 (dstep c EvNeedInput) t (dstep (c + k) ev)"
  by (auto simp: continues_def joins_def)

lemma continues_idle:
  "step s ys End = (t, Inr whole) \<Longrightarrow> continues step [] ys s (dstep 0 EvNeedInput) t whole"
  by (simp add: continues_def joins_def)

lemma continues_shift:
  assumes "continues step (drop c xs) ys s1 d t whole" and "c \<le> length xs"
    and "ds_produced d = 0" and "ds_produced whole = 0"
  shows "continues step xs ys s1 (dstep (ds_consumed d + c) (ds_event d)) t
    (dstep (ds_consumed whole + c) (ds_event whole))"
  using assms by (auto simp: continues_def add.commute add.left_commute)

locale chunked_decoder = archive_decoder +
  assumes chunk: "inv s \<Longrightarrow> step s (xs @ ys) End = (t, Inr whole) \<Longrightarrow>
    \<exists>s1 d. step s xs More = (s1, Inr d) \<and> continues step xs ys s1 d t whole"
begin

lemma decode_all_unfold:
  assumes "decode_all step s input = Some (evs, Inr ())"
  obtains (fin) s' d where "step s input End = (s', Inr d)" "ds_event d = EvDone" "evs = [EvDone]"
  | (rec) s' d evs' where "step s input End = (s', Inr d)" "ds_event d \<noteq> EvDone"
      "decode_all step s' (drop (ds_consumed d) input) = Some (evs', Inr ())" "evs = ds_event d # evs'"
  using assms
  by (auto simp: decode_all.simps [of step s input] bind_eq_Some_conv split: prod.splits sum.splits if_splits)

lemma continue_all:
  assumes "decode_all step s (xs @ ys) = Some (evs, Inr ())" and "inv s"
  shows "\<exists>s1 d. step s xs More = (s1, Inr d) \<and>
    (ds_event d = EvDone \<and> evs = [EvDone] \<or>
     ds_event d \<noteq> EvDone \<and> (\<exists>evs1. decode_all step s1 (drop (ds_consumed d) xs @ ys) = Some (evs1, Inr ()) \<and>
       norm (ds_event d # evs1) = norm evs))"
  using assms(1)
proof (cases rule: decode_all_unfold)
  case (fin t whole)
  obtain s1 d where d: "step s xs More = (s1, Inr d)" "continues step xs ys s1 d t whole"
    using chunk [OF assms(2) fin(1)] by blast
  show ?thesis
  proof (cases "s1 = t \<and> d = whole")
    case True
    with d fin show ?thesis by auto
  next
    case False
    with d fin obtain d' where "step s1 (drop (ds_consumed d) xs @ ys) End = (t, Inr d')"
      "ds_event d' = EvDone" "ds_event d = EvNeedInput"
      by (auto simp: continues_def joins_def)
    moreover from this have "decode_all step s1 (drop (ds_consumed d) xs @ ys) = Some ([EvDone], Inr ())"
      by (subst decode_all.simps) simp
    ultimately show ?thesis using d fin by (auto simp: norm_Cons)
  qed
next
  case (rec t whole evs')
  obtain s1 d where d: "step s xs More = (s1, Inr d)" "continues step xs ys s1 d t whole"
    using chunk [OF assms(2) rec(1)] by blast
  have le: "ds_consumed d \<le> length xs" using consumed_le [OF assms(2) d(1)] .
  show ?thesis
  proof (cases "s1 = t \<and> d = whole")
    case True
    with d rec le show ?thesis by (auto simp: norm_Cons)
  next
    case False
    with d obtain d' where d': "step s1 (drop (ds_consumed d) xs @ ys) End = (t, Inr d')"
      "ds_consumed whole = ds_consumed d + ds_consumed d'" "joins (ds_event d) (ds_event d') (ds_event whole)"
      by (auto simp: continues_def)
    have "drop (ds_consumed d') (drop (ds_consumed d) xs @ ys) = drop (ds_consumed whole) (xs @ ys)"
      using le d'(2) by (simp add: add.commute)
    moreover have "ds_event d' \<noteq> EvDone" "ds_event d \<noteq> EvDone"
      using d'(3) rec(2) by (auto simp: joins_def)
    ultimately have "decode_all step s1 (drop (ds_consumed d) xs @ ys) = Some (ds_event d' # evs', Inr ())"
      using d'(1) rec(3) by (subst decode_all.simps) simp
    with d \<open>ds_event d \<noteq> EvDone\<close> joins_norm [OF d'(3)] rec(4) show ?thesis
      by (auto simp: norm_Cons)
  qed
qed

lemma undivided_presents:
  assumes "decode_all step s input = Some (evs, r)" and "inv s"
  shows "presents step s input evs r"
  using assms by (induction rule: decode_all_step_induct) (auto intro: presents.intros)

lemma presentation_invisible:
  assumes "presents step s input evs' r" and "inv s" and "decode_all step s input = Some (evs, Inr ())"
  shows "r = Inr () \<and> norm evs' = norm evs"
  using assms
proof (induction arbitrary: evs)
  case (more s xs s' d ys evs' r)
  then obtain evs1 where "decode_all step s' (drop (ds_consumed d) xs @ ys) = Some (evs1, Inr ())"
    "norm (ds_event d # evs1) = norm evs"
    using continue_all [OF more.prems(2,1)] by auto
  with more.IH [OF inv_step [OF more.prems(1) more.hyps(1)]] show ?case by (simp add: norm_Cons)
next
  case (more_done s xs s' d ys)
  then show ?case using continue_all [OF more_done.prems(2,1)] by auto
next
  case (more_err s xs s' err ys)
  then show ?case using continue_all [OF more_err.prems(2,1)] by auto
next
  case (last s xs s' d evs' r)
  from last.prems(2) last.hyps(1,2) obtain evs1 where
    "decode_all step s' (drop (ds_consumed d) xs) = Some (evs1, Inr ())" "evs = ds_event d # evs1"
    by (auto simp: decode_all.simps [of step s xs] bind_eq_Some_conv)
  with last.IH [OF inv_step [OF last.prems(1) last.hyps(1)]] show ?case by (simp add: norm_Cons)
next
  case (last_done s xs s' d)
  then show ?case by (simp add: decode_all.simps [of step s xs])
next
  case (last_err s xs s' err)
  then show ?case by (simp add: decode_all.simps [of step s xs])
qed

end

end
