(* ===== verification/Oxide_Empty_Raw.thy ===== *)
theory Oxide_Empty_Raw
  imports Oxide_Protocol
begin

text \<open>
  The two signature-free decoders: \<open>format/empty.rs\<close> (the zero-byte archive) and
  \<open>format/raw.rs\<close> (the whole stream as one entry named \<open>data\<close>). Both are interpreted as
  \<open>archive_decoder\<close>s.
\<close>

section \<open>The empty archive\<close>

record empty_decoder =
  metadata_emitted :: bool

definition empty_new :: empty_decoder where
  "empty_new = \<lparr>metadata_emitted = False\<rparr>"

definition empty_step :: "empty_decoder decoder_step" where
  "empty_step s input e =
     (if input \<noteq> [] then
        (s, Inl (format_error ''empty''
               (if metadata_emitted s then ErrProtocol else ErrMalformed)
               ''empty archive contains input bytes''))
      else if \<not> metadata_emitted s then
        (if e = More then (s, Inr (dstep 0 EvNeedInput))
         else (s\<lparr>metadata_emitted := True\<rparr>,
               Inr (dstep 0 (EvArchiveMetadata archive_metadata_new))))
      else (s, Inr (dstep 0 EvDone)))"

interpretation empty_dec: archive_decoder empty_step "\<lambda>_. True"
    "\<lambda>s. if metadata_emitted s then 0 else 1 :: nat" "\<lambda>_. None"
  by unfold_locales (auto simp: empty_step_def split: if_splits)

text \<open>
  The decoder of the empty archive accepts the zero-byte input, reporting archive metadata
  and then completion, and rejects every other input as malformed before it reports anything.
\<close>

theorem empty_decoder_exact:
  "decode_all empty_step empty_new input =
     (if input = [] then Some ([EvArchiveMetadata archive_metadata_new, EvDone], Inr ())
      else Some ([], Inl (format_error ''empty'' ErrMalformed ''empty archive contains input bytes'')))"
  by (simp add: decode_all.simps [of empty_step _ input] decode_all.simps [of empty_step _ "[]"]
      empty_step_def empty_new_def)

section \<open>The raw stream\<close>

datatype raw_phase = RawArchiveMetadata | RawEntry | RawData | RawDone

record raw_decoder =
  raw_phase :: raw_phase
  raw_remaining :: "nat option"

definition raw_with_limits :: "limits \<Rightarrow> raw_decoder" where
  "raw_with_limits l = \<lparr>raw_phase = RawArchiveMetadata, raw_remaining = decoded_total l\<rparr>"

definition raw_new :: raw_decoder where
  "raw_new = raw_with_limits limits_safe"

definition raw_step :: "raw_decoder decoder_step" where
  "raw_step s input e =
     (case raw_phase s of
        RawArchiveMetadata \<Rightarrow>
          (s\<lparr>raw_phase := RawEntry\<rparr>, Inr (dstep 0 (EvArchiveMetadata archive_metadata_new)))
      | RawEntry \<Rightarrow>
          (s\<lparr>raw_phase := RawData\<rparr>,
           bindE (try_build (b_size None (builder KindFile (path_from_utf8 (ascii ''data'')))))
             (\<lambda>md. Inr (dstep 0 (EvEntry md))))
      | RawData \<Rightarrow>
          if input \<noteq> [] then
            if raw_remaining s = Some 0 then
              (s, Inl (format_error ''raw'' ErrLimit ''raw payload exceeds decoded byte limit''))
            else
              let count = (case raw_remaining s of None \<Rightarrow> length input
                           | Some r \<Rightarrow> min r (length input)) in
              (s\<lparr>raw_remaining := map_option (\<lambda>r. r - count) (raw_remaining s)\<rparr>,
               Inr (dstep count (EvData (take count input))))
          else if e = More then (s, Inr (dstep 0 EvNeedInput))
          else (s\<lparr>raw_phase := RawDone\<rparr>, Inr (dstep 0 EvEndEntry))
      | RawDone \<Rightarrow> (s, Inr (dstep 0 EvDone)))"

definition raw_entry :: entry_metadata where
  "raw_entry = b_size None (builder KindFile (path_from_utf8 (ascii ''data'')))"

lemma raw_entry_wf: "try_build raw_entry = Inr raw_entry"
  by (simp add: try_build_def validate_def raw_entry_def builder_def builder_defs
      path_from_utf8_def ascii_def times_default_def option_list_def List.map_filter_def)

fun raw_rank :: "raw_phase \<Rightarrow> nat" where
  "raw_rank RawArchiveMetadata = 3"
| "raw_rank RawEntry = 2"
| "raw_rank RawData = 1"
| "raw_rank RawDone = 0"

interpretation raw_dec: archive_decoder raw_step "\<lambda>_. True" "\<lambda>s. raw_rank (raw_phase s)" raw_remaining
  by unfold_locales
    (auto simp: raw_step_def Let_def bindE_Inr_iff split: raw_phase.splits if_splits option.splits)

lemma raw_data_all:
  assumes "raw_phase s = RawData"
  shows "decode_all raw_step s input =
    (case raw_remaining s of
       None \<Rightarrow> Some ((if input = [] then [] else [EvData input]) @ [EvEndEntry, EvDone], Inr ())
     | Some r \<Rightarrow>
         if length input \<le> r
         then Some ((if input = [] then [] else [EvData input]) @ [EvEndEntry, EvDone], Inr ())
         else Some (if r = 0 then [] else [EvData (take r input)],
                Inl (format_error ''raw'' ErrLimit ''raw payload exceeds decoded byte limit'')))"
proof -
  have fin: "decode_all raw_step (s\<lparr>raw_remaining := x\<rparr>) [] = Some ([EvEndEntry, EvDone], Inr ())" for x
    by (simp add: decode_all.simps [of raw_step _ "[]"] raw_step_def assms)
  from fin [of "raw_remaining s"] have fin': "decode_all raw_step s [] = Some ([EvEndEntry, EvDone], Inr ())"
    by simp
  have over: "xs \<noteq> [] \<Longrightarrow> decode_all raw_step (s\<lparr>raw_remaining := Some 0\<rparr>) xs =
      Some ([], Inl (format_error ''raw'' ErrLimit ''raw payload exceeds decoded byte limit''))" for xs
    by (simp add: decode_all.simps [of raw_step _ xs] raw_step_def assms)
  show ?thesis
  proof (cases "input = []")
    case True
    with fin' show ?thesis by (simp split: option.split)
  next
    case False
    show ?thesis
    proof (cases "raw_remaining s")
      case None
      then show ?thesis using False assms fin [of None]
        by (simp add: decode_all.simps [of raw_step s input] raw_step_def Let_def)
    next
      case (Some r)
      show ?thesis
      proof (cases "r = 0")
        case True
        with Some False over [OF False] assms show ?thesis
          by (simp add: decode_all.simps [of raw_step s input] raw_step_def)
      next
        case nz: False
        show ?thesis
        proof (cases "length input \<le> r")
          case True
          with nz Some False assms fin [of "Some (r - length input)"] show ?thesis
            by (simp add: decode_all.simps [of raw_step s input] raw_step_def Let_def min.absorb2)
        next
          case False
          then have "drop r input \<noteq> []" by simp
          from over [OF this] False nz Some assms \<open>input \<noteq> []\<close> show ?thesis
            by (simp add: decode_all.simps [of raw_step s input] raw_step_def Let_def min_def)
        qed
      qed
    qed
  qed
qed

text \<open>
  The raw decoder turns any byte stream within the decoded-bytes budget into exactly one
  unsized entry named \<open>data\<close> whose payload is the stream, and beyond the budget it delivers
  exactly the budgeted prefix and then fails with a limit error.
\<close>

theorem raw_decoder_exact:
  "decode_all raw_step (raw_with_limits l) input =
    (let head = [EvArchiveMetadata archive_metadata_new, EvEntry raw_entry] in
     if exceeds (decoded_total l) (length input)
     then Some (head @ (if decoded_total l = Some 0 then []
                        else [EvData (take (the (decoded_total l)) input)]),
            Inl (format_error ''raw'' ErrLimit ''raw payload exceeds decoded byte limit''))
     else Some (head @ (if input = [] then [] else [EvData input]) @ [EvEndEntry, EvDone], Inr ()))"
proof -
  let ?s1 = "\<lparr>raw_phase = RawEntry, raw_remaining = decoded_total l\<rparr>"
  let ?s2 = "\<lparr>raw_phase = RawData, raw_remaining = decoded_total l\<rparr>"
  have 1: "decode_all raw_step (raw_with_limits l) input =
      Option.bind (decode_all raw_step ?s1 input)
        (\<lambda>(evs, r). Some (EvArchiveMetadata archive_metadata_new # evs, r))"
    by (simp add: decode_all.simps [of raw_step _ input] raw_step_def raw_with_limits_def)
  have 2: "decode_all raw_step ?s1 input =
      Option.bind (decode_all raw_step ?s2 input) (\<lambda>(evs, r). Some (EvEntry raw_entry # evs, r))"
    using raw_entry_wf
    by (subst decode_all.simps) (simp add: raw_step_def raw_entry_def)
  show ?thesis
    unfolding 1 2 Let_def by (cases "decoded_total l") (auto simp: raw_data_all)
qed

end
