(* ===== verification/Oxide_Ar_Chunking.thy ===== *)
theory Oxide_Ar_Chunking
  imports Oxide_Ar_Roundtrip Oxide_Chunking Oxide_Empty_Raw
begin

text \<open>
  The \<open>ar\<close>, raw and empty decoders satisfy the law of \<open>chunked_decoder\<close>: every way of cutting an
  archive into chunks gives the same trace. Together with the round trip this covers the whole path
  from a writer with an arbitrary buffer to a reader with arbitrary chunks.
\<close>

section \<open>Raw and empty\<close>

interpretation empty_chunks: chunked_decoder empty_step "\<lambda>_. True"
    "\<lambda>s. if metadata_emitted s then 0 else 1 :: nat" "\<lambda>_. None"
proof unfold_locales
  fix s xs ys t whole
  assume "empty_step s (xs @ ys) End = (t, Inr whole)"
  then show "\<exists>s1 d. empty_step s xs More = (s1, Inr d) \<and> continues empty_step xs ys s1 d t whole"
    by (auto simp: empty_step_def continues_def joins_def split: if_splits)
qed

lemma raw_data_chunk:
  assumes "raw_phase s = RawData" and "raw_step s (xs @ ys) End = (t, Inr whole)"
  shows "\<exists>s1 d. raw_step s xs More = (s1, Inr d) \<and> continues raw_step xs ys s1 d t whole"
proof -
  consider "xs = []" | "xs \<noteq> []" "ys = [] \<or> opt_or (length (xs @ ys)) (raw_remaining s) \<le> length xs"
    | "xs \<noteq> []" "ys \<noteq> []" "length xs < opt_or (length (xs @ ys)) (raw_remaining s)"
    by force
  then show ?thesis
  proof cases
    case 1
    with assms have "raw_step s xs More = (s, Inr (dstep 0 EvNeedInput))" by (simp add: raw_step_def)
    with 1 assms(2) continues_idle [of raw_step s ys] show ?thesis by auto
  next
    case 2
    with assms have "raw_step s xs More = (t, Inr whole)"
      by (auto simp: raw_step_def Let_def split: if_splits option.splits)
    then show ?thesis by blast
  next
    case 3
    with assms show ?thesis
      by (cases "raw_remaining s")
        (auto simp: raw_step_def Let_def continues_def joins_def min_def split: if_splits)
  qed
qed

interpretation raw_chunks: chunked_decoder raw_step "\<lambda>_. True" "\<lambda>s. raw_rank (raw_phase s)" raw_remaining
proof unfold_locales
  fix s xs ys t whole
  assume *: "raw_step s (xs @ ys) End = (t, Inr whole)"
  show "\<exists>s1 d. raw_step s xs More = (s1, Inr d) \<and> continues raw_step xs ys s1 d t whole"
  proof (cases "raw_phase s = RawData")
    case True
    from raw_data_chunk [OF this *] show ?thesis .
  next
    case False
    with * have "raw_step s xs More = (t, Inr whole)" by (cases "raw_phase s") (simp_all add: raw_step_def)
    then show ?thesis by blast
  qed
qed

section \<open>The ar states\<close>

lemma ar_fill_split:
  assumes "length p + length xs < n"
  shows "ar_fill p n xs = (p @ xs, length xs)"
    "ar_fill p n (xs @ ys) = (fst (ar_fill (p @ xs) n ys), length xs + snd (ar_fill (p @ xs) n ys))"
  using assms by (auto simp: ar_fill_def min_def Let_def)

lemma ar_fill_enough:
  assumes "n \<le> length p + length xs"
  shows "ar_fill p n (xs @ ys) = ar_fill p n xs"
  using assms by (auto simp: ar_fill_def min_def Let_def)

definition ar_chunk_law :: "ar_decoder \<Rightarrow> bytes \<Rightarrow> bytes \<Rightarrow> ar_decoder \<times> (archive_error + decode_step) \<Rightarrow>
    ar_decoder \<Rightarrow> decode_step \<Rightarrow> bool" where
  "ar_chunk_law s xs ys part t whole \<longleftrightarrow>
     (\<exists>s1 d. part = (s1, Inr d) \<and> continues ar_step xs ys s1 d t whole)"

lemma ar_end_entry_chunk:
  assumes "ar_step_end_entry s p (xs @ ys) End = (t, Inr whole)" and "ar_state s = ArEndEntry p"
  shows "ar_chunk_law s xs ys (ar_step_end_entry s p xs More) t whole"
  using assms
  by (auto simp: ar_chunk_law_def ar_step_end_entry_def continues_def joins_def ar_step_def split: if_splits)

lemma ar_data_chunk:
  assumes "ar_step_data s n p (xs @ ys) End = (t, Inr whole)" and "ar_state s = ArData n p"
    and "n \<le> u64_max"
  shows "ar_chunk_law s xs ys (ar_step_data s n p xs More) t whole"
proof (cases "n = 0")
  case True
  then show ?thesis
    using assms ar_end_entry_chunk [of "s\<lparr>ar_state := ArEndEntry p\<rparr>" p xs ys t whole]
    by (simp add: ar_step_data_def ar_chunk_law_def)
next
  case False
  consider "xs = []" | "xs \<noteq> []" "ys = [] \<or> min n u64_max \<le> length xs" | "xs \<noteq> []" "ys \<noteq> []" "length xs < min n u64_max"
    by force
  then show ?thesis
  proof cases
    case 1
    with assms False show ?thesis
      by (auto simp: ar_chunk_law_def ar_step_data_def continues_def joins_def ar_step_def)
  next
    case 2
    then have "min (length (xs @ ys)) (min n u64_max) = min (length xs) (min n u64_max)" by auto
    then have "ar_step_data s n p xs More = (t, Inr whole)"
      using assms(1) False 2(1)
      by (simp add: ar_step_data_def Let_def take_append del: length_append split: if_splits option.splits)
    then show ?thesis by (auto simp: ar_chunk_law_def)
  next
    case 3
    let ?c = "min (length (xs @ ys)) (min n u64_max)"
    let ?s1 = "s\<lparr>ar_total := ar_total s + length xs, ar_state := ArData (n - length xs) p\<rparr>"
    have tot: "ar_total s + ?c \<le> u64_max" "\<not> exceeds (decoded_total (ar_limits s)) (ar_total s + ?c)"
      and t: "t = s\<lparr>ar_total := ar_total s + ?c, ar_state := ArData (n - ?c) p\<rparr>"
      and w: "whole = dstep ?c (EvData (take ?c (xs @ ys)))"
      using assms(1) False 3
      by (auto simp: ar_step_data_def Let_def checked_add_def split: if_splits)
    have le: "length xs \<le> ?c" using 3 by auto
    have "\<not> exceeds (decoded_total (ar_limits s)) (ar_total s + length xs)"
      using tot(2) le exceeds_mono [of _ "ar_total s + length xs" "ar_total s + ?c"] by auto
    then have part: "ar_step_data s n p xs More = (?s1, Inr (dstep (length xs) (EvData xs)))"
      using False 3 tot(1) le by (simp add: ar_step_data_def Let_def checked_add_def min_def)
    let ?k = "?c - length xs"
    have k: "min (length ys) (min (n - length xs) u64_max) = ?k"
      using assms(3) 3 by (auto simp: min_def)
    have "ar_step ?s1 ys End = (t, Inr (dstep ?k (EvData (take ?k ys))))"
      using 3 tot le t
      by (simp add: ar_step_def ar_step_data_def Let_def k checked_add_def del: length_append)
    moreover have "take ?c (xs @ ys) = xs @ take ?k ys" using le by simp
    ultimately show ?thesis
      unfolding part w ar_chunk_law_def continues_def joins_def using le by (auto simp del: length_append)
  qed
qed

lemma ar_special_chunk:
  assumes "ar_step_special s n p tb (xs @ ys) End = (t, Inr whole)" and "ar_state s = ArSpecial n p tb"
  shows "ar_chunk_law s xs ys (ar_step_special s n p tb xs More) t whole"
proof -
  consider "n + p \<le> length xs" | "length xs < n" | "n \<le> length xs" "length xs < n + p" by linarith
  then show ?thesis
  proof cases
    case 1
    with assms(1) have "ar_step_special s n p tb xs More = (t, Inr whole)"
      by (auto simp: ar_step_special_def Let_def split: if_splits)
    then show ?thesis by (auto simp: ar_chunk_law_def)
  next
    case 2
    let ?s1 = "(if tb then s\<lparr>ar_string_table := ar_string_table s @ xs\<rparr> else s)
      \<lparr>ar_state := ArSpecial (n - length xs) p tb\<rparr>"
    have "ar_step_special s n p tb xs More = (?s1, Inr (dstep (length xs) EvNeedInput))"
      using 2 by (simp add: ar_step_special_def Let_def min_def)
    moreover have "ar_step ?s1 ys End = (t, Inr (dstep (ds_consumed whole - length xs) EvNeedInput))"
      "ds_event whole = EvNeedInput" "length xs \<le> ds_consumed whole"
      using 2 assms by (auto simp: ar_step_def ar_step_special_def Let_def min_def split: if_splits)
    ultimately show ?thesis by (auto simp: ar_chunk_law_def continues_def joins_def)
  next
    case 3
    let ?s1 = "(if tb then s\<lparr>ar_string_table := ar_string_table s @ take n xs\<rparr> else s)
      \<lparr>ar_state := ArSpecial 0 p tb\<rparr>"
    have "ar_step_special s n p tb xs More = (?s1, Inr (dstep n EvNeedInput))"
      using 3 by (auto simp: ar_step_special_def Let_def min_def)
    moreover have "ar_step ?s1 (drop n xs @ ys) End = (t, Inr (dstep p EvNeedInput))"
      "ds_event whole = EvNeedInput" "ds_consumed whole = n + p"
      using 3 assms by (auto simp: ar_step_def ar_step_special_def Let_def min_def split: if_splits)
    ultimately show ?thesis by (auto simp: ar_chunk_law_def continues_def joins_def)
  qed
qed

lemma ar_bsd_name_chunk:
  assumes "ar_step_bsd_name s n b p f (xs @ ys) End = (t, Inr whole)" and "ar_state s = ArBsdName n b p f"
  shows "ar_chunk_law s xs ys (ar_step_bsd_name s n b p f xs More) t whole"
proof (cases "n \<le> length xs")
  case True
  with assms(1) have "ar_step_bsd_name s n b p f xs More = (t, Inr whole)"
    by (auto simp: ar_step_bsd_name_def Let_def split: if_splits)
  then show ?thesis by (auto simp: ar_chunk_law_def)
next
  case False
  let ?m = "n - length xs"
  let ?s1 = "s\<lparr>ar_pending := ar_pending s @ xs, ar_state := ArBsdName ?m b p f\<rparr>"
  let ?b = "ar_begin_entry (s\<lparr>ar_state := ArDone, ar_pending := []\<rparr>) (ar_pending s @ xs @ take ?m ys) b p f"
  have part: "ar_step_bsd_name s n b p f xs More = (?s1, Inr (dstep (length xs) EvNeedInput))"
    using False by (simp add: ar_step_bsd_name_def Let_def min_def)
  have le: "?m \<le> length ys" and w: "?b n = (t, Inr whole)"
    using False assms by (auto simp: ar_step_bsd_name_def Let_def min_def split: if_splits)
  obtain d0 where d0: "?b ?m = (t, Inr d0)" "whole = dstep (ds_consumed d0 + length xs) (ds_event d0)"
    using w ar_begin_entry_shift [of _ _ _ _ _ ?m "length xs"] False by (auto simp: shift_consumed_Inr)
  have "ar_step ?s1 ys End = (t, Inr d0)"
    using le d0(1) by (simp add: ar_step_def ar_step_bsd_name_def Let_def)
  with part d0(2) show ?thesis
    by (auto simp: ar_chunk_law_def continues_def joins_def)
qed

lemma ar_header_chunk:
  assumes "ar_step_header s (xs @ ys) 0 End = (t, Inr whole)" and "ar_state s = ArHeader"
    and "length (ar_pending s) < 60"
  shows "ar_chunk_law s xs ys (ar_step_header s xs 0 More) t whole"
proof (cases "60 \<le> length (ar_pending s) + length xs")
  case True
  then have "xs \<noteq> []" using assms(3) by auto
  then have "ar_step_header s xs 0 More = (t, Inr whole)"
    using assms(1,3) True
    by (auto simp: ar_step_header_def AR_HEADER_def ar_fill_enough ar_fill_def Let_def split: if_splits)
  then show ?thesis by (auto simp: ar_chunk_law_def)
next
  case False
  then have short: "length (ar_pending s) + length xs < AR_HEADER" by (simp add: AR_HEADER_def)
  let ?s1 = "s\<lparr>ar_pending := ar_pending s @ xs\<rparr>"
  have part: "ar_step_header s xs 0 More = (?s1, Inr (dstep (length xs) EvNeedInput))"
    using short by (simp add: ar_step_header_def ar_fill_split)
  show ?thesis
  proof (cases "ar_pending s = [] \<and> xs = []")
    case True
    then have e: "s\<lparr>ar_pending := []\<rparr> = s" by (cases s) simp
    from part True assms show ?thesis
      by (auto simp: ar_chunk_law_def ar_step_def e intro!: continues_idle)
  next
    case ne: False
    obtain p k where f: "ar_fill (ar_pending s @ xs) AR_HEADER ys = (p, k)" by force
    have len: "60 \<le> length p" and w: "ar_member (s\<lparr>ar_pending := []\<rparr>) p (length xs + k) = (t, Inr whole)"
      using assms(1) ne ar_fill_split(2) [OF short, of ys] f
      by (auto simp: ar_step_header_def AR_HEADER_def split: if_splits)
    obtain d0 where d0: "ar_member (s\<lparr>ar_pending := []\<rparr>) p k = (t, Inr d0)"
      "whole = dstep (ds_consumed d0 + length xs) (ds_event d0)"
      using w ar_member_shift [of _ _ k "length xs"] by (auto simp: shift_consumed_Inr add.commute)
    have "ar_step ?s1 ys End = (t, Inr d0)"
      using ne f len d0(1) assms(2) by (auto simp: ar_step_def ar_step_header_def AR_HEADER_def)
    with part d0(2) show ?thesis by (auto simp: ar_chunk_law_def continues_def joins_def)
  qed
qed

lemma ar_step_header_shift:
  "c \<le> length input \<Longrightarrow> ar_step_header s input c e = shift_consumed c (ar_step_header s (drop c input) 0 e)"
  by (auto simp: ar_step_header_def ar_fill_def shift_consumed_def [of _ "(_, _)"] Let_def add.commute
      ar_member_shift [of _ _ _ c, symmetric])

lemma ar_magic_chunk:
  assumes "ar_step_magic s (xs @ ys) End = (t, Inr whole)" and "ar_state s = ArMagic"
    and "length (ar_pending s) < 8"
  shows "ar_chunk_law s xs ys (ar_step_magic s xs More) t whole"
proof (cases "length (ar_pending s) + length xs < 8")
  case True
  let ?s1 = "s\<lparr>ar_pending := ar_pending s @ xs\<rparr>"
  have part: "ar_step_magic s xs More = (?s1, Inr (dstep (length xs) EvNeedInput))"
    using True by (simp add: ar_step_magic_def ar_fill_split)
  obtain p k where f: "ar_fill (ar_pending s @ xs) 8 ys = (p, k)" by force
  let ?h = "s\<lparr>ar_thin := (p = AR_THIN_MAGIC), ar_pending := [], ar_state := ArHeader\<rparr>"
  have ok: "8 \<le> length p" "p = AR_MAGIC \<or> p = AR_THIN_MAGIC"
    and w: "ar_step_header ?h (xs @ ys) (length xs + k) End = (t, Inr whole)"
    using assms(1) ar_fill_split(2) [OF True, of ys] f
    by (auto simp: ar_step_magic_def Let_def split: if_splits)
  have k: "k \<le> length ys" using ar_fill_count [OF f] by simp
  obtain d0 where d0: "ar_step_header ?h ys k End = (t, Inr d0)"
    "whole = dstep (ds_consumed d0 + length xs) (ds_event d0)"
    using w k ar_step_header_shift [of "length xs + k" "xs @ ys" ?h End] ar_step_header_shift [of k ys ?h End]
    by (auto simp: shift_consumed_Inr)
  have "ar_step ?s1 ys End = (t, Inr d0)"
    using assms(2) f ok d0(1) by (auto simp: ar_step_def ar_step_magic_def Let_def)
  with part d0(2) show ?thesis by (auto simp: ar_chunk_law_def continues_def joins_def)
next
  case False
  obtain p c where f: "ar_fill (ar_pending s) 8 xs = (p, c)" by force
  have f': "ar_fill (ar_pending s) 8 (xs @ ys) = (p, c)" using f ar_fill_enough [of 8] False by simp
  let ?h = "s\<lparr>ar_thin := (p = AR_THIN_MAGIC), ar_pending := [], ar_state := ArHeader\<rparr>"
  have c: "c \<le> length xs" and len: "8 \<le> length p" using ar_fill_count [OF f] False by auto
  have ok: "p = AR_MAGIC \<or> p = AR_THIN_MAGIC" and w: "ar_step_header ?h (xs @ ys) c End = (t, Inr whole)"
    using assms(1) f' len by (auto simp: ar_step_magic_def Let_def split: if_splits)
  then obtain w0 where w0: "ar_step_header ?h (drop c xs @ ys) 0 End = (t, Inr w0)"
    "whole = dstep (ds_consumed w0 + c) (ds_event w0)"
    using c ar_step_header_shift [of c "xs @ ys" ?h End] by (auto simp: shift_consumed_Inr)
  obtain s1 d0 where d0: "ar_step_header ?h (drop c xs) 0 More = (s1, Inr d0)"
    "continues ar_step (drop c xs) ys s1 d0 t w0"
    using ar_header_chunk [OF w0(1)] by (auto simp: ar_chunk_law_def)
  have p0: "ds_produced d0 = 0" "ds_produced w0 = 0"
    using ar_step_header_ok [OF d0(1)] ar_step_header_ok [OF w0(1)] by (simp_all add: ar_ok_def)
  have "ar_step_magic s xs More = (s1, Inr (dstep (ds_consumed d0 + c) (ds_event d0)))"
    using f len ok c d0(1) ar_step_header_shift [of c xs ?h More]
    by (auto simp: ar_step_magic_def Let_def shift_consumed_def)
  with continues_shift [OF d0(2) c p0] w0(2) show ?thesis by (auto simp: ar_chunk_law_def)
qed

interpretation ar_chunks: chunked_decoder ar_step ar_inv "\<lambda>s. ar_rank (ar_state s)" ar_allowance
proof unfold_locales
  fix s xs ys t whole
  assume inv: "ar_inv s" and w: "ar_step s (xs @ ys) End = (t, Inr whole)"
  have "ar_chunk_law s xs ys (ar_step s xs More) t whole"
  proof (cases "ar_state s")
    case ArMagic
    with inv w ar_magic_chunk [of s xs ys t whole] show ?thesis by (simp add: ar_step_def ar_inv_def)
  next
    case ArHeader
    with inv w ar_header_chunk [of s xs ys t whole] show ?thesis by (simp add: ar_step_def ar_inv_def)
  next
    case (ArSpecial n p tb)
    with w ar_special_chunk [of s n p tb xs ys t whole] show ?thesis by (simp add: ar_step_def)
  next
    case (ArBsdName n b p f)
    with w ar_bsd_name_chunk [of s n b p f xs ys t whole] show ?thesis by (simp add: ar_step_def)
  next
    case (ArData n p)
    with inv w ar_data_chunk [of s n p xs ys t whole] show ?thesis by (simp add: ar_step_def ar_inv_def)
  next
    case (ArEndEntry p)
    with w ar_end_entry_chunk [of s p xs ys t whole] show ?thesis by (simp add: ar_step_def)
  next
    case ArDone
    with w show ?thesis by (auto simp: ar_step_def ar_chunk_law_def split: if_splits)
  qed
  then show "\<exists>s1 d. ar_step s xs More = (s1, Inr d) \<and> continues ar_step xs ys s1 d t whole"
    by (simp add: ar_chunk_law_def)
qed

section \<open>Writing and reading back with arbitrary buffers and chunks\<close>

lemma norm_member_events:
  assumes "norm rest = rest" and "\<forall>a. rest = [] \<or> hd rest \<noteq> EvData a"
  shows "norm (ar_member_events e @ rest) = ar_member_events e @ rest"
  using assms by (simp add: ar_member_events_def Let_def norm_Cons)

lemma norm_archive_events:
  "norm (concat (map ar_member_events es) @ [EvDone]) = concat (map ar_member_events es) @ [EvDone]"
proof -
  have "norm (concat (map ar_member_events es) @ [EvDone]) = concat (map ar_member_events es) @ [EvDone] \<and>
      (\<forall>a. hd (concat (map ar_member_events es) @ [EvDone]) \<noteq> EvData a)"
  proof (induction es)
    case Nil
    then show ?case by (simp add: norm_Cons)
  next
    case (Cons e es)
    then show ?case
      using norm_member_events [of "concat (map ar_member_events es) @ [EvDone]" e]
      by (simp add: ar_member_events_def [of e] Let_def)
  qed
  then show ?thesis by simp
qed

text \<open>
  C11. What reaches a reader of a written \<open>ar\<close> archive does not depend on buffering: for every
  archivable list of entries, whatever pieces the bodies are written in, whatever the size of the
  writer's buffer and however the resulting bytes are cut into chunks for the decoder, the writer
  returns without error, the decoder never fails, and up to merging of adjacent payload chunks it
  reports exactly the entries, in order, and then the end of the archive.
\<close>

theorem ar_roundtrip_any_chunking:
  assumes "ar_archivable l es" and "0 < n"
  shows "\<exists>w. write_archive ar_enc_step vec_sink es
        \<lparr>wr_output = [], wr_encoder = ar_encoder_new l, wr_buffer = n, wr_failed = False\<rparr> = Some (w, Inr ()) \<and>
      (\<forall>evs r. presents ar_step (ar_decoder_new l) (wr_output w) evs r \<longrightarrow>
        r = Inr () \<and> norm evs = concat (map ar_member_events es) @ [EvDone])"
proof -
  obtain w evs where w: "write_archive ar_enc_step vec_sink es
        \<lparr>wr_output = [], wr_encoder = ar_encoder_new l, wr_buffer = n, wr_failed = False\<rparr> = Some (w, Inr ())"
    and d: "decode_all ar_step (ar_decoder_new l) (wr_output w) = Some (evs, Inr ())"
    and v: "visible evs = concat (map ar_member_events es) @ [EvDone]"
    using ar_write_read [OF assms] by blast
  have "norm evs = concat (map ar_member_events es) @ [EvDone]"
    using norm_visible [of evs] v norm_archive_events by simp
  with w ar_chunks.presentation_invisible [OF _ ar_inv_new d] show ?thesis by auto
qed

theorem ar_roundtrip_any_chunking_witness:
  "\<exists>w evs. write_archive ar_enc_step vec_sink sample_files
        \<lparr>wr_output = [], wr_encoder = ar_encoder_new limits_safe, wr_buffer = 5, wr_failed = False\<rparr> =
        Some (w, Inr ()) \<and>
      presents ar_step (ar_decoder_new limits_safe) (wr_output w) evs (Inr ()) \<and>
      norm evs = concat (map ar_member_events sample_files) @ [EvDone]"
proof -
  from ar_roundtrip_any_chunking [OF ar_archivable_sample, of 5] obtain w where
    w: "write_archive ar_enc_step vec_sink sample_files
        \<lparr>wr_output = [], wr_encoder = ar_encoder_new limits_safe, wr_buffer = 5, wr_failed = False\<rparr> =
        Some (w, Inr ())" and
    all: "presents ar_step (ar_decoder_new limits_safe) (wr_output w) evs r \<Longrightarrow>
        r = Inr () \<and> norm evs = concat (map ar_member_events sample_files) @ [EvDone]" for evs r
    by auto
  obtain evs r where "decode_all ar_step (ar_decoder_new limits_safe) (wr_output w) = Some (evs, r)"
    using ar_dec.decode_all_returns [OF ar_inv_new] by blast
  from ar_chunks.undivided_presents [OF this ar_inv_new] w all show ?thesis by blast
qed

end
