(* ===== verification/Oxide_Warc.thy ===== *)
theory Oxide_Warc
  imports Oxide_Chunking
begin

text \<open>
  The incremental WARC 1.0/1.1 reader of \<open>format/warc.rs\<close>: CRLF line splitting, named fields with
  continuation lines, the metadata, path and payload budgets, generated entry paths, and the framing
  state machine \<open>WarcDecoder::step\<close>.
\<close>

section \<open>Constants and byte classes\<close>

abbreviation CR :: byte where "CR \<equiv> 13"
abbreviation LF :: byte where "LF \<equiv> 10"

definition SIGNATURE_10 :: bytes where
  "SIGNATURE_10 = ascii ''WARC/1.0'' @ [CR, LF]"

definition SIGNATURE_11 :: bytes where
  "SIGNATURE_11 = ascii ''WARC/1.1'' @ [CR, LF]"

definition HEADER_END :: bytes where
  "HEADER_END = [CR, LF, CR, LF]"

definition RECORD_END :: bytes where
  "RECORD_END = [CR, LF, CR, LF]"

definition HEX :: bytes where
  "HEX = ascii ''0123456789ABCDEF''"

definition is_ascii_alphanumeric :: "byte \<Rightarrow> bool" where
  "is_ascii_alphanumeric b \<longleftrightarrow> is_ascii_digit b \<or> 65 \<le> b \<and> b \<le> 90 \<or> 97 \<le> b \<and> b \<le> 122"

definition to_ascii_lowercase :: "byte \<Rightarrow> byte" where
  "to_ascii_lowercase b = (if 65 \<le> b \<and> b \<le> 90 then b + 32 else b)"

definition eq_ignore_ascii_case :: "bytes \<Rightarrow> bytes \<Rightarrow> bool" where
  "eq_ignore_ascii_case a b \<longleftrightarrow> map to_ascii_lowercase a = map to_ascii_lowercase b"

definition is_path_byte :: "byte \<Rightarrow> bool" where
  "is_path_byte b \<longleftrightarrow> is_ascii_alphanumeric b \<or> b \<in> {46, 95, 45}"

definition is_ows :: "byte \<Rightarrow> bool" where
  "is_ows b \<longleftrightarrow> b = 32 \<or> b = 9"

section \<open>State\<close>

datatype warc_state = WarcHeader | WarcData nat | WarcTrailer nat | WarcDone

record named_field =
  nf_name :: bytes
  nf_value :: bytes

record warc_decoder =
  wd_limits :: limits
  wd_state :: warc_state
  wd_header :: bytes
  wd_entries :: nat
  wd_decoded :: nat

definition warc_decoder_new :: "limits \<Rightarrow> warc_decoder" where
  "warc_decoder_new l =
     \<lparr>wd_limits = l, wd_state = WarcHeader, wd_header = [], wd_entries = 0, wd_decoded = 0\<rparr>"

definition warc_probe :: "bytes \<Rightarrow> unit probe_result" where
  "warc_probe pre =
     (if length SIGNATURE_10 \<le> length pre then
        (if starts_with pre SIGNATURE_10 \<or> starts_with pre SIGNATURE_11 then ProbeMatch ()
         else ProbeNoMatch)
      else if starts_with SIGNATURE_10 pre \<or> starts_with SIGNATURE_11 pre
      then ProbeNeedMore (length SIGNATURE_10)
      else ProbeNoMatch)"

abbreviation warc_err :: "error_kind \<Rightarrow> string \<Rightarrow> archive_error" where
  "warc_err \<equiv> format_error ''warc''"

definition append_header_byte :: "warc_decoder \<Rightarrow> byte \<Rightarrow> archive_error + warc_decoder" where
  "append_header_byte s b =
     bindE (ok_or (warc_err ErrLimit ''WARC record header length overflow'')
              (checked_add (length (wd_header s)) 1)) (\<lambda>next.
     if exceeds (metadata_bytes (wd_limits s)) next
     then Inl (warc_err ErrLimit ''WARC record header exceeds the metadata budget'')
     else Inr (s\<lparr>wd_header := wd_header s @ [b]\<rparr>))"

definition warc_count_entry :: "warc_decoder \<Rightarrow> archive_error + warc_decoder" where
  "warc_count_entry s =
     bindE (ok_or (warc_err ErrLimit ''WARC record count overflow'')
              (checked_add (wd_entries s) 1)) (\<lambda>sequence.
     if exceeds (max_entries (wd_limits s)) sequence
     then Inl (warc_err ErrLimit ''WARC record count exceeds the configured limit'')
     else Inr (s\<lparr>wd_entries := sequence\<rparr>))"

section \<open>Lines and fields\<close>

text \<open>\<open>windows(2).position(|w| w == b"\r\n")\<close>.\<close>

fun crlf_position :: "bytes \<Rightarrow> nat option" where
  "crlf_position (a # b # r) =
     (if a = CR \<and> b = LF then Some 0 else map_option Suc (crlf_position (b # r)))"
| "crlf_position _ = None"

lemma crlf_position_bound: "crlf_position xs = Some i \<Longrightarrow> i + 2 \<le> length xs"
  by (induction xs arbitrary: i rule: crlf_position.induct) (auto split: if_splits)

text \<open>All items the iterator \<open>CrLfLines\<close> yields; after a framing error it is exhausted.\<close>

function crlf_lines :: "bytes \<Rightarrow> (archive_error + bytes) list" where
  "crlf_lines remaining =
     (case crlf_position remaining of
        Some index \<Rightarrow> Inr (take index remaining) # crlf_lines (drop (index + 2) remaining)
      | None \<Rightarrow>
          [if CR \<in> set remaining \<or> LF \<in> set remaining
           then Inl (warc_err ErrMalformed ''WARC header uses invalid line framing'')
           else Inr remaining])"
  by pat_completeness auto
termination
  by (relation "measure length") (auto dest!: crlf_position_bound)

declare crlf_lines.simps [simp del]

definition trim_ows :: "bytes \<Rightarrow> bytes" where
  "trim_ows v = rev (dropWhile is_ows (rev (dropWhile is_ows v)))"

definition warc_separators :: bytes where
  "warc_separators = ascii ''()<>@,;:'' @ [92, 34] @ ascii ''/[]?={}''"

definition validate_field_name :: "bytes \<Rightarrow> archive_error + unit" where
  "validate_field_name name =
     (if \<not> utf8_valid name
      then Inl (warc_err ErrMalformed ''WARC named field name is not valid UTF-8'')
      else if name = [] \<or> (\<exists>b \<in> set name. b \<le> 32 \<or> b = 127 \<or> b \<in> set warc_separators)
      then Inl (warc_err ErrMalformed ''invalid WARC named field name'')
      else Inr ())"

definition validate_field_value :: "bytes \<Rightarrow> archive_error + unit" where
  "validate_field_value value =
     (if \<exists>b \<in> set value. b < 32 \<and> b \<noteq> 9 \<or> b = 127
      then Inl (warc_err ErrMalformed ''invalid control byte in WARC named field value'')
      else Inr ())"

definition find_field :: "named_field list \<Rightarrow> bytes \<Rightarrow> named_field option" where
  "find_field flds name = find (\<lambda>f. eq_ignore_ascii_case (nf_name f) name) flds"

text \<open>\<open>size_of::<Extension>()\<close> on a 64-bit target: a \<open>String\<close> and two \<open>Vec\<close>s of three words.\<close>

definition size_of_extension :: nat where
  "size_of_extension = 72"

definition extension_cost :: "bytes \<Rightarrow> bytes \<Rightarrow> archive_error + nat" where
  "extension_cost name value =
     ok_or (warc_err ErrLimit ''WARC metadata size overflow'')
       (Option.bind (checked_add size_of_extension (length (ascii ''warc''))) (\<lambda>t.
        Option.bind (checked_add t (length name)) (\<lambda>t.
        checked_add t (length value))))"

definition account_retained_metadata :: "limits \<Rightarrow> nat \<Rightarrow> nat \<Rightarrow> archive_error + nat" where
  "account_retained_metadata l current additional =
     bindE (ok_or (warc_err ErrLimit ''WARC metadata size overflow'')
              (checked_add current additional)) (\<lambda>total.
     if exceeds (metadata_bytes l) total
     then Inl (warc_err ErrLimit ''retained WARC metadata exceeds the metadata budget'')
     else Inr total)"

definition warc_singletons :: "bytes list" where
  "warc_singletons =
     [ascii ''content-length'', ascii ''warc-record-id'', ascii ''warc-type'', ascii ''warc-date'']"

definition reject_duplicate_singletons :: "named_field list \<Rightarrow> archive_error + unit" where
  "reject_duplicate_singletons flds =
     (if \<exists>name \<in> set warc_singletons.
           2 \<le> length (filter (\<lambda>f. eq_ignore_ascii_case (nf_name f) name) flds)
      then Inl (warc_err ErrMalformed ''duplicate singleton WARC named field'')
      else Inr ())"

fun content_length_loop :: "nat \<Rightarrow> bytes \<Rightarrow> archive_error + nat" where
  "content_length_loop len [] = Inr len"
| "content_length_loop len (b # bs) =
     (if \<not> is_ascii_digit b then Inl (warc_err ErrMalformed ''invalid WARC Content-Length'')
      else bindE (ok_or (warc_err ErrMalformed ''WARC Content-Length overflow'')
                   (Option.bind (checked_mul len 10) (\<lambda>c. checked_add c (unat (b - 48)))))
             (\<lambda>v. content_length_loop v bs))"

definition parse_content_length :: "bytes \<Rightarrow> archive_error + nat" where
  "parse_content_length value =
     (if value = [] then Inl (warc_err ErrMalformed ''empty WARC Content-Length'')
      else content_length_loop 0 value)"

text \<open>The \<open>for line in lines\<close> loop of \<open>parse_header\<close>.\<close>

definition warc_continuation ::
    "limits \<Rightarrow> bytes \<Rightarrow> named_field list \<Rightarrow> nat \<Rightarrow> archive_error + named_field list \<times> nat" where
  "warc_continuation l line flds retained =
     (if flds = []
      then Inl (warc_err ErrMalformed ''WARC header continuation has no preceding field'')
      else
        let fld = last flds; continuation = trim_ows line in
        bindE (validate_field_value continuation) (\<lambda>_.
        let separator = (if nf_value fld \<noteq> [] \<and> continuation \<noteq> [] then 1 else 0) in
        bindE (bindE (ok_or (warc_err ErrLimit ''WARC metadata size overflow'')
                        (checked_add separator (length continuation)))
                 (account_retained_metadata l retained)) (\<lambda>retained'.
        Inr (butlast flds @
               [fld\<lparr>nf_value := nf_value fld @ (if separator \<noteq> 0 then [32] else []) @ continuation\<rparr>],
             retained'))))"

definition warc_named_field ::
    "limits \<Rightarrow> bytes \<Rightarrow> named_field list \<Rightarrow> nat \<Rightarrow> archive_error + named_field list \<times> nat" where
  "warc_named_field l line flds retained =
     bindE (ok_or (warc_err ErrMalformed (''WARC named field is missing '' @ [CHR 0x27, CHR 0x3A, CHR 0x27]))
              (position (\<lambda>b. b = 58) line)) (\<lambda>colon.
     let name = take colon line; value = trim_ows (drop (colon + 1) line) in
     bindE (validate_field_name name) (\<lambda>_.
     bindE (validate_field_value value) (\<lambda>_.
     bindE (bindE (extension_cost name value) (account_retained_metadata l retained)) (\<lambda>retained'.
     Inr (flds @ [\<lparr>nf_name = name, nf_value = value\<rparr>], retained')))))"

fun warc_fields ::
    "limits \<Rightarrow> (archive_error + bytes) list \<Rightarrow> named_field list \<Rightarrow> nat \<Rightarrow>
     archive_error + named_field list \<times> nat" where
  "warc_fields l [] flds retained = Inr (flds, retained)"
| "warc_fields l (Inl e # lines) flds retained = Inl e"
| "warc_fields l (Inr line # lines) flds retained =
     bindE (if line \<noteq> [] \<and> is_ows (hd line)
            then warc_continuation l line flds retained
            else warc_named_field l line flds retained)
       (\<lambda>(flds', retained'). warc_fields l lines flds' retained')"

section \<open>Generated paths\<close>

text \<open>\<open>{sequence:020}\<close>: a \<open>u64\<close> has at most twenty decimal digits, so the field is exactly filled.\<close>

definition decimal20 :: "nat \<Rightarrow> bytes" where
  "decimal20 n = map (\<lambda>i. 48 + of_nat (n div 10 ^ (19 - i) mod 10)) [0..<20]"

fun warc_encoded_len :: "nat \<Rightarrow> bytes \<Rightarrow> nat option" where
  "warc_encoded_len len [] = Some len"
| "warc_encoded_len len (b # bs) =
     Option.bind (checked_add len (if is_path_byte b then 1 else 3)) (\<lambda>n. warc_encoded_len n bs)"

definition percent_encode :: "byte \<Rightarrow> bytes" where
  "percent_encode b =
     (if is_path_byte b then [b]
      else [37, HEX ! unat (drop_bit 4 b), HEX ! unat (b AND 0x0f)])"

definition record_path :: "limits \<Rightarrow> nat \<Rightarrow> bytes option \<Rightarrow> archive_error + bytes" where
  "record_path l sequence record_id =
     (let fallback = ascii ''warc/'' @ decimal20 sequence @ ascii ''.record'' in
      if exceeds (path_bytes l) (length fallback)
      then Inl (warc_err ErrLimit ''generated WARC entry path exceeds the path budget'')
      else
        (case record_id of
           None \<Rightarrow> Inr fallback
         | Some rid \<Rightarrow>
             if rid = [] then Inr fallback
             else
               (case warc_encoded_len 0 rid of
                  None \<Rightarrow> Inr fallback
                | Some encoded_len \<Rightarrow>
                    let prefix = ascii ''warc/'' @ decimal20 sequence @ ascii ''/'' in
                    (case Option.bind (checked_add (length prefix) encoded_len)
                            (\<lambda>n. checked_add n (length (ascii ''.record''))) of
                       None \<Rightarrow> Inr fallback
                     | Some candidate_len \<Rightarrow>
                         if exceeds (path_bytes l) candidate_len then Inr fallback
                         else
                           let bs = prefix @ concat (map percent_encode rid) @ ascii ''.record'' in
                           if utf8_valid bs then Inr bs
                           else Inl (warc_err ErrProtocol ''generated WARC entry path is not UTF-8'')))))"

section \<open>Record headers\<close>

definition warc_version :: "bytes \<Rightarrow> archive_error + bytes" where
  "warc_version line =
     (if line = ascii ''WARC/1.0'' then Inr (ascii ''1.0'')
      else if line = ascii ''WARC/1.1'' then Inr (ascii ''1.1'')
      else Inl (warc_err ErrMalformed ''unsupported or malformed WARC version line''))"

definition warc_metadata :: "bytes \<Rightarrow> nat \<Rightarrow> bytes \<Rightarrow> named_field list \<Rightarrow> entry_metadata" where
  "warc_metadata path content_length version flds =
     foldl (\<lambda>b f. b_extension (extension_new ''warc'' (nf_name f) (nf_value f)) b)
       (b_extension (extension_new ''warc'' (ascii ''version'') version)
         (b_mode (Some 420) (b_size (Some content_length)
           (builder KindFile (path_from_utf8 path)))))
       flds"

definition warc_entry ::
    "limits \<Rightarrow> nat \<Rightarrow> bytes \<Rightarrow> named_field list \<Rightarrow> nat \<Rightarrow> archive_error + entry_metadata \<times> nat" where
  "warc_entry l sequence version flds retained =
     (if \<exists>f \<in> set flds. \<not> utf8_valid (nf_value f)
      then Inl (warc_err ErrMalformed ''WARC named field value is not valid UTF-8'')
      else
        bindE (reject_duplicate_singletons flds) (\<lambda>_.
        bindE (ok_or (warc_err ErrMalformed ''WARC record is missing Content-Length'')
                 (find_field flds (ascii ''content-length''))) (\<lambda>length_field.
        bindE (parse_content_length (nf_value length_field)) (\<lambda>content_length.
        if exceeds (entry_bytes l) content_length
        then Inl (warc_err ErrLimit ''WARC content block exceeds the per-entry limit'')
        else
          bindE (record_path l sequence
                   (map_option nf_value (find_field flds (ascii ''warc-record-id'')))) (\<lambda>path.
          bindE (account_retained_metadata l retained (length path)) (\<lambda>_.
          bindE (try_build (warc_metadata path content_length version flds)) (\<lambda>md.
          Inr (md, content_length))))))))"

definition warc_parse_header :: "limits \<Rightarrow> bytes \<Rightarrow> nat \<Rightarrow> archive_error + entry_metadata \<times> nat" where
  "warc_parse_header l bs sequence =
     bindE (ok_or (warc_err ErrProtocol ''WARC header parser called before terminator'')
              (strip_suffix bs HEADER_END)) (\<lambda>body.
     (case crlf_lines body of
        [] \<Rightarrow> Inl (warc_err ErrMalformed ''WARC record is missing a version line'')
      | first # lines \<Rightarrow>
          bindE first (\<lambda>line.
          bindE (warc_version line) (\<lambda>version.
          bindE (extension_cost (ascii ''version'') version) (\<lambda>retained0.
          bindE (warc_fields l lines [] retained0) (\<lambda>(flds, retained).
          warc_entry l sequence version flds retained))))))"

section \<open>The state machine\<close>

fun warc_header_loop :: "warc_decoder \<Rightarrow> bytes \<Rightarrow> nat \<Rightarrow> end_of_input \<Rightarrow>
    warc_decoder \<times> (archive_error + decode_step)" where
  "warc_header_loop s [] consumed e =
     (if e = End then (s, Inl (warc_err ErrMalformed ''truncated WARC record header''))
      else (s, Inr (dstep consumed EvNeedInput)))"
| "warc_header_loop s (b # bs) consumed e =
     (case append_header_byte s b of
        Inl err \<Rightarrow> (s, Inl err)
      | Inr s1 \<Rightarrow>
          if ends_with (wd_header s1) HEADER_END then
            (case warc_count_entry s1 of
               Inl err \<Rightarrow> (s1, Inl err)
             | Inr s2 \<Rightarrow>
                 let s3 = s2\<lparr>wd_header := []\<rparr> in
                 (case warc_parse_header (wd_limits s3) (wd_header s2) (wd_entries s2) of
                    Inl err \<Rightarrow> (s3, Inl err)
                  | Inr (md, content_length) \<Rightarrow>
                      (s3\<lparr>wd_state := WarcData content_length\<rparr>,
                       Inr (dstep (consumed + 1) (EvEntry md)))))
          else warc_header_loop s1 bs (consumed + 1) e)"

text \<open>The trailer loop: bytes matched and consumed, or \<open>None\<close> at a mismatch.\<close>

fun trailer_loop :: "nat \<Rightarrow> bytes \<Rightarrow> nat \<Rightarrow> (nat \<times> nat) option" where
  "trailer_loop matched [] consumed = Some (matched, consumed)"
| "trailer_loop matched (b # bs) consumed =
     (if length RECORD_END \<le> matched then Some (matched, consumed)
      else if b \<noteq> RECORD_END ! matched then None
      else trailer_loop (matched + 1) bs (consumed + 1))"

definition warc_step_data :: "warc_decoder \<Rightarrow> nat \<Rightarrow> bytes \<Rightarrow> end_of_input \<Rightarrow>
    warc_decoder \<times> (archive_error + decode_step)" where
  "warc_step_data s remaining input e =
     (if remaining = 0 then (s\<lparr>wd_state := WarcTrailer 0\<rparr>, Inr (dstep 0 EvEndEntry))
      else if input = [] then
        (if e = End then (s, Inl (warc_err ErrMalformed ''truncated WARC content block''))
         else (s, Inr (dstep 0 EvNeedInput)))
      else
        let count = min (length input) (min remaining usize_max) in
        (case checked_add (wd_decoded s) count of
           None \<Rightarrow> (s, Inl (warc_err ErrLimit ''WARC decoded byte count overflow''))
         | Some decoded \<Rightarrow>
             if exceeds (decoded_total (wd_limits s)) decoded
             then (s, Inl (warc_err ErrLimit ''WARC decoded total exceeds the configured limit''))
             else (s\<lparr>wd_decoded := decoded, wd_state := WarcData (remaining - count)\<rparr>,
                   Inr (dstep count (EvData (take count input))))))"

definition warc_step_trailer :: "warc_decoder \<Rightarrow> nat \<Rightarrow> bytes \<Rightarrow> end_of_input \<Rightarrow>
    warc_decoder \<times> (archive_error + decode_step)" where
  "warc_step_trailer s matched0 input e =
     (case trailer_loop matched0 input 0 of
        None \<Rightarrow> (s, Inl (warc_err ErrMalformed ''WARC record is missing its CRLF CRLF trailer''))
      | Some (matched, consumed) \<Rightarrow>
          if matched = length RECORD_END
          then (s\<lparr>wd_state := WarcHeader\<rparr>, Inr (dstep consumed EvNeedInput))
          else
            let s1 = s\<lparr>wd_state := WarcTrailer matched\<rparr> in
            if e = End then (s1, Inl (warc_err ErrMalformed ''truncated WARC record trailer''))
            else (s1, Inr (dstep consumed EvNeedInput)))"

definition warc_step_header :: "warc_decoder \<Rightarrow> bytes \<Rightarrow> end_of_input \<Rightarrow>
    warc_decoder \<times> (archive_error + decode_step)" where
  "warc_step_header s input e =
     (if input = [] then
        (if e = End then
           (if wd_header s = [] \<and> wd_entries s \<noteq> 0
            then (s\<lparr>wd_state := WarcDone\<rparr>, Inr (dstep 0 EvDone))
            else (s, Inl (warc_err ErrMalformed ''truncated or empty WARC record header'')))
         else (s, Inr (dstep 0 EvNeedInput)))
      else warc_header_loop s input 0 e)"

definition warc_step :: "warc_decoder decoder_step" where
  "warc_step s input e =
     (case wd_state s of
        WarcDone \<Rightarrow>
          if input \<noteq> []
          then (s, Inl (warc_err ErrProtocol ''input supplied after WARC completion''))
          else (s, Inr (dstep 0 EvDone))
      | WarcData remaining \<Rightarrow> warc_step_data s remaining input e
      | WarcTrailer matched \<Rightarrow> warc_step_trailer s matched input e
      | WarcHeader \<Rightarrow> warc_step_header s input e)"

section \<open>The decoder contract\<close>

text \<open>
  The header buffer never outgrows the metadata budget, a partial trailer is shorter than the
  whole, and a content length is a \<open>u64\<close>.
\<close>

definition warc_inv :: "warc_decoder \<Rightarrow> bool" where
  "warc_inv s \<longleftrightarrow>
     (\<forall>m. wd_state s = WarcTrailer m \<longrightarrow> m < 4) \<and>
     (\<forall>r. wd_state s = WarcData r \<longrightarrow> r \<le> u64_max) \<and>
     \<not> exceeds (metadata_bytes (wd_limits s)) (length (wd_header s))"

fun warc_rank :: "warc_state \<Rightarrow> nat" where
  "warc_rank (WarcData _) = 2"
| "warc_rank (WarcTrailer _) = 1"
| "warc_rank _ = 0"

definition warc_allowance :: "warc_decoder \<Rightarrow> nat option" where
  "warc_allowance s = map_option (\<lambda>l. l - wd_decoded s) (decoded_total (wd_limits s))"

lemma RECORD_END_length [simp]: "length RECORD_END = 4"
  by (simp add: RECORD_END_def)

lemma warc_inv_new [simp]: "warc_inv (warc_decoder_new l)"
  by (cases "metadata_bytes l") (simp_all add: warc_inv_def warc_decoder_new_def)

lemma append_header_byte_ok:
  assumes "append_header_byte s b = Inr s'"
  shows "s' = s\<lparr>wd_header := wd_header s @ [b]\<rparr>"
    "\<not> exceeds (metadata_bytes (wd_limits s)) (Suc (length (wd_header s)))"
  using assms by (auto simp: append_header_byte_def bindE_Inr_iff split: if_splits)

lemma content_length_bound: "content_length_loop len bs = Inr n \<Longrightarrow> len \<le> u64_max \<Longrightarrow> n \<le> u64_max"
  by (induction len bs rule: content_length_loop.induct)
    (auto simp: bindE_Inr_iff bind_eq_Some_conv split: if_splits)

lemma warc_entry_bound: "warc_entry l q v flds k = Inr (md, n) \<Longrightarrow> n \<le> u64_max"
  by (auto simp: warc_entry_def bindE_Inr_iff parse_content_length_def
      dest!: content_length_bound split: if_splits)

lemma warc_parse_header_bound:
  assumes "warc_parse_header l bs q = Inr (md, n)"
  shows "n \<le> u64_max"
proof -
  from assms obtain body where "(case crlf_lines body of
        [] \<Rightarrow> Inl (warc_err ErrMalformed ''WARC record is missing a version line'')
      | first # lines \<Rightarrow>
          bindE first (\<lambda>line.
          bindE (warc_version line) (\<lambda>version.
          bindE (extension_cost (ascii ''version'') version) (\<lambda>retained0.
          bindE (warc_fields l lines [] retained0) (\<lambda>(flds, retained).
          warc_entry l q version flds retained))))) = Inr (md, n)"
    by (auto simp: warc_parse_header_def bindE_Inr_iff)
  then show ?thesis
    by (cases "crlf_lines body") (auto simp: bindE_Inr_iff dest: warc_entry_bound)
qed

lemma warc_count_entry_ok:
  assumes "warc_count_entry s = Inr s'"
  shows "s' = s\<lparr>wd_entries := Suc (wd_entries s)\<rparr>"
  using assms by (auto simp: warc_count_entry_def bindE_Inr_iff split: if_splits)

lemma warc_header_loop_ok:
  assumes "warc_header_loop s input c e = (s', Inr d)" and "warc_inv s" and "wd_state s = WarcHeader"
  shows "warc_inv s' \<and> wd_limits s' = wd_limits s \<and> wd_decoded s' = wd_decoded s \<and> ds_produced d = 0 \<and>
    c \<le> ds_consumed d \<and> ds_consumed d \<le> c + length input \<and>
    (ds_event d = EvNeedInput \<and> ds_consumed d = c + length input \<or>
     (\<exists>md. ds_event d = EvEntry md) \<and> c < ds_consumed d)"
  using assms
proof (induction s input c e rule: warc_header_loop.induct)
  case (1 s consumed e)
  then show ?case by (auto split: if_splits)
next
  case (2 s b bs consumed e)
  from "2.prems" obtain s1 where s1: "append_header_byte s b = Inr s1" by (auto split: sum.splits)
  note ok = append_header_byte_ok [OF s1]
  have inv: "warc_inv s1" "wd_state s1 = WarcHeader" "wd_limits s1 = wd_limits s" "wd_decoded s1 = wd_decoded s"
    using ok "2.prems" by (simp_all add: warc_inv_def)
  show ?case
  proof (cases "ends_with (wd_header s1) HEADER_END")
    case False
    then show ?thesis using "2.IH" [OF s1 False] "2.prems"(1) s1 inv by auto
  next
    case True
    with "2.prems"(1) s1 obtain s2 md n where s2: "warc_count_entry s1 = Inr s2"
      and h: "warc_parse_header (wd_limits s2) (wd_header s2) (wd_entries s2) = Inr (md, n)"
      and r: "s' = s2\<lparr>wd_header := [], wd_state := WarcData n\<rparr>" "d = dstep (consumed + 1) (EvEntry md)"
      by (auto simp: Let_def split: sum.splits)
    have "\<not> exceeds x 0" for x by (cases x) auto
    with r warc_count_entry_ok [OF s2] warc_parse_header_bound [OF h] inv show ?thesis
      by (auto simp: warc_inv_def)
  qed
qed

lemma trailer_loop_ok:
  "trailer_loop m input c = Some (m', c') \<Longrightarrow> m < 4 \<Longrightarrow>
   m \<le> m' \<and> m' \<le> 4 \<and> c' = c + (m' - m) \<and> m' - m \<le> length input \<and> (m' < 4 \<longrightarrow> m' - m = length input)"
proof (induction m input c rule: trailer_loop.induct)
  case (2 matched b bs consumed)
  then show ?case
    by (cases "matched + 1 < 4"; cases bs) (auto split: if_splits)
qed simp

definition warc_ok :: "warc_decoder \<Rightarrow> bytes \<Rightarrow> warc_decoder \<Rightarrow> decode_step \<Rightarrow> bool" where
  "warc_ok s input s' d \<longleftrightarrow>
     warc_inv s' \<and> ds_consumed d \<le> length input \<and> ds_produced d = 0 \<and> wd_limits s' = wd_limits s \<and>
     (case ds_event d of
        EvData bs \<Rightarrow> bs = take (ds_consumed d) input \<and> bs \<noteq> [] \<and>
          wd_decoded s' = wd_decoded s + length bs \<and>
          \<not> exceeds (decoded_total (wd_limits s)) (wd_decoded s')
      | _ \<Rightarrow> wd_decoded s' = wd_decoded s)"

lemma warc_step_ok:
  assumes "warc_step s input e = (s', Inr d)" and "warc_inv s"
  shows "warc_ok s input s' d \<and>
    (e = End \<longrightarrow> ds_event d = EvDone \<or> 0 < ds_consumed d \<or> warc_rank (wd_state s') < warc_rank (wd_state s))"
proof (cases "wd_state s")
  case WarcHeader
  show ?thesis
  proof (cases "input = []")
    case True
    with WarcHeader assms show ?thesis
      by (auto simp: warc_step_def warc_step_header_def warc_ok_def warc_inv_def split: if_splits)
  next
    case False
    with WarcHeader assms(1) have "warc_header_loop s input 0 e = (s', Inr d)"
      by (simp add: warc_step_def warc_step_header_def)
    from warc_header_loop_ok [OF this assms(2) WarcHeader] False show ?thesis
      by (auto simp: warc_ok_def)
  qed
next
  case (WarcData r)
  with assms show ?thesis
    by (auto simp: warc_step_def warc_step_data_def warc_ok_def warc_inv_def Let_def u64_max_def
        split: if_splits option.splits)
next
  case (WarcTrailer m)
  with assms obtain m' c' where *: "trailer_loop m input 0 = Some (m', c')" "m < 4"
    by (auto simp: warc_step_def warc_step_trailer_def warc_inv_def split: option.splits)
  from trailer_loop_ok [OF *] * WarcTrailer assms show ?thesis
    by (auto simp: warc_step_def warc_step_trailer_def warc_ok_def warc_inv_def Let_def split: if_splits)
next
  case WarcDone
  with assms show ?thesis by (auto simp: warc_step_def warc_ok_def split: if_splits)
qed

interpretation warc_dec: archive_decoder warc_step warc_inv "\<lambda>s. warc_rank (wd_state s)" warc_allowance
proof unfold_locales
  fix s input e s' d r
  assume "warc_inv s" "warc_step s input e = (s', Inr d)" "warc_allowance s = Some r"
  then show "\<exists>r'. warc_allowance s' = Some r' \<and>
      length (case ds_event d of EvData bs \<Rightarrow> bs | _ \<Rightarrow> []) + r' \<le> r"
    using warc_step_ok [of s input e s' d]
    by (auto simp: warc_allowance_def warc_ok_def split: decode_event.splits)
qed (auto dest!: warc_step_ok simp: warc_ok_def)

section \<open>Chunking\<close>

lemma warc_header_loop_shift:
  "warc_header_loop s input (c + k) e = shift_consumed k (warc_header_loop s input c e)"
proof (induction s input c e rule: warc_header_loop.induct)
  case (1 s consumed e)
  then show ?case by (simp add: shift_consumed_def)
next
  case (2 s b bs consumed e)
  show ?case
  proof (cases "append_header_byte s b")
    case (Inl err)
    then show ?thesis by (simp add: shift_consumed_def)
  next
    case (Inr s1)
    show ?thesis
    proof (cases "ends_with (wd_header s1) HEADER_END")
      case True
      then show ?thesis using Inr by (auto simp: shift_consumed_def Let_def split: sum.splits)
    next
      case False
      with 2 [OF Inr False] Inr show ?thesis by simp
    qed
  qed
qed

lemma warc_header_loop_append:
  assumes "warc_header_loop s (xs @ ys) c End = (t, Inr whole)"
  shows "\<exists>s1 d. warc_header_loop s xs c More = (s1, Inr d) \<and>
    (s1 = t \<and> d = whole \<or>
     d = dstep (c + length xs) EvNeedInput \<and> wd_state s1 = wd_state s \<and>
     warc_header_loop s1 ys (c + length xs) End = (t, Inr whole))"
  using assms
proof (induction s xs c "More" rule: warc_header_loop.induct)
  case (1 s consumed)
  then show ?case by simp
next
  case (2 s b bs consumed)
  from "2.prems" obtain s1 where s1: "append_header_byte s b = Inr s1" by (auto split: sum.splits)
  note st = append_header_byte_ok(1) [OF s1]
  show ?case
  proof (cases "ends_with (wd_header s1) HEADER_END")
    case True
    with "2.prems" s1 show ?thesis by (auto simp: Let_def split: sum.splits)
  next
    case False
    with "2.hyps" [OF s1 False] "2.prems" s1 st show ?thesis by auto
  qed
qed

lemma trailer_loop_append:
  "trailer_loop m (xs @ ys) c =
     Option.bind (trailer_loop m xs c) (\<lambda>(m', c'). trailer_loop m' ys c')"
proof (induction m xs c rule: trailer_loop.induct)
  case (2 matched b bs consumed)
  then show ?case by (cases ys) auto
qed simp

lemma trailer_loop_shift:
  "trailer_loop m xs (c + k) = map_option (\<lambda>(m', c'). (m', c' + k)) (trailer_loop m xs c)"
  by (induction m xs c rule: trailer_loop.induct) auto

lemma warc_data_chunk:
  assumes "wd_state s = WarcData r" and "r \<le> u64_max" and "warc_step s (xs @ ys) End = (t, Inr whole)"
  shows "\<exists>s1 d. warc_step s xs More = (s1, Inr d) \<and> continues warc_step xs ys s1 d t whole"
proof -
  consider "r = 0" | "r \<noteq> 0" "xs = []" | "r \<noteq> 0" "xs \<noteq> []" "ys = [] \<or> r \<le> length xs"
    | "xs \<noteq> []" "ys \<noteq> []" "length xs < r"
    by force
  then show ?thesis
  proof cases
    case 1
    with assms show ?thesis by (auto simp: warc_step_def warc_step_data_def)
  next
    case 2
    with assms have "warc_step s xs More = (s, Inr (dstep 0 EvNeedInput))"
      by (simp add: warc_step_def warc_step_data_def)
    with 2 assms(3) continues_idle [of warc_step s ys] show ?thesis by auto
  next
    case 3
    with assms(2) have "min (length (xs @ ys)) (min r u64_max) = min (length xs) (min r u64_max)" by auto
    with 3 assms have "warc_step s xs More = (t, Inr whole)"
      by (simp add: warc_step_def warc_step_data_def Let_def del: length_append
          split: if_splits option.splits)
    then show ?thesis by blast
  next
    case 4
    let ?c = "min (length (xs @ ys)) r" and ?n = "wd_decoded s"
    let ?s1 = "s\<lparr>wd_decoded := ?n + length xs, wd_state := WarcData (r - length xs)\<rparr>"
    have m: "min r u64_max = r" "min (r - length xs) u64_max = r - length xs" using assms(2) by auto
    have tot: "?n + ?c \<le> u64_max" "\<not> exceeds (decoded_total (wd_limits s)) (?n + ?c)"
      and t: "t = s\<lparr>wd_decoded := ?n + ?c, wd_state := WarcData (r - ?c)\<rparr>"
      and w: "whole = dstep ?c (EvData (take ?c (xs @ ys)))"
      using assms 4
      by (auto simp: warc_step_def warc_step_data_def Let_def checked_add_def m split: if_splits)
    have le: "length xs \<le> ?c" using 4 by auto
    have "\<not> exceeds (decoded_total (wd_limits s)) (?n + length xs)"
      using tot(2) le exceeds_mono [of _ "?n + length xs" "?n + ?c"] by auto
    then have part: "warc_step s xs More = (?s1, Inr (dstep (length xs) (EvData xs)))"
      using 4 tot(1) le assms(1)
      by (simp add: warc_step_def warc_step_data_def Let_def checked_add_def m)
    let ?k = "?c - length xs"
    have k: "min (length ys) (r - length xs) = ?k" using 4 by (auto simp: min_def)
    have "warc_step ?s1 ys End = (t, Inr (dstep ?k (EvData (take ?k ys))))"
      using 4 tot le t
      by (simp add: warc_step_def warc_step_data_def Let_def k m checked_add_def del: length_append)
    moreover have "take ?c (xs @ ys) = xs @ take ?k ys" using le by simp
    ultimately show ?thesis
      unfolding part w continues_def joins_def using le by (auto simp del: length_append)
  qed
qed

lemma warc_trailer_chunk:
  assumes "wd_state s = WarcTrailer m" and "m < 4" and "warc_step s (xs @ ys) End = (t, Inr whole)"
  shows "\<exists>s1 d. warc_step s xs More = (s1, Inr d) \<and> continues warc_step xs ys s1 d t whole"
proof -
  from assms(1,3) obtain c where c: "trailer_loop m (xs @ ys) 0 = Some (4, c)"
    and t: "t = s\<lparr>wd_state := WarcHeader\<rparr>" "whole = dstep c EvNeedInput"
    by (auto simp: warc_step_def warc_step_trailer_def Let_def split: option.splits if_splits)
  then obtain m1 c1 where 1: "trailer_loop m xs 0 = Some (m1, c1)" and 2: "trailer_loop m1 ys c1 = Some (4, c)"
    by (auto simp: trailer_loop_append bind_eq_Some_conv)
  note ok = trailer_loop_ok [OF 1 assms(2)]
  show ?thesis
  proof (cases "m1 = 4")
    case True
    then have "c = c1" using 2 by (cases ys) auto
    with True 1 t assms(1) show ?thesis
      by (auto simp: warc_step_def warc_step_trailer_def)
  next
    case False
    with ok have full: "c1 = length xs" by auto
    obtain k where k: "trailer_loop m1 ys 0 = Some (4, k)" "c = k + c1"
      using 2 trailer_loop_shift [of m1 ys 0 c1] by (cases "trailer_loop m1 ys 0") auto
    let ?s1 = "s\<lparr>wd_state := WarcTrailer m1\<rparr>"
    have "warc_step s xs More = (?s1, Inr (dstep c1 EvNeedInput))"
      using False 1 assms(1) by (simp add: warc_step_def warc_step_trailer_def)
    moreover have "warc_step ?s1 ys End = (t, Inr (dstep k EvNeedInput))"
      using k t by (simp add: warc_step_def warc_step_trailer_def)
    ultimately show ?thesis using t k full by (auto simp: continues_def joins_def)
  qed
qed

lemma warc_header_chunk:
  assumes "wd_state s = WarcHeader" and "warc_step s (xs @ ys) End = (t, Inr whole)"
  shows "\<exists>s1 d. warc_step s xs More = (s1, Inr d) \<and> continues warc_step xs ys s1 d t whole"
proof (cases "xs = []")
  case True
  with assms continues_idle [of warc_step s ys t whole] show ?thesis
    by (auto simp: warc_step_def warc_step_header_def)
next
  case False
  with assms have "warc_header_loop s (xs @ ys) 0 End = (t, Inr whole)"
    by (simp add: warc_step_def warc_step_header_def)
  from warc_header_loop_append [OF this] False assms(1) obtain s1 d where
    d: "warc_step s xs More = (s1, Inr d)" and
    alt: "s1 = t \<and> d = whole \<or> d = dstep (length xs) EvNeedInput \<and> wd_state s1 = WarcHeader \<and>
       warc_header_loop s1 ys (length xs) End = (t, Inr whole)"
    by (auto simp: warc_step_def warc_step_header_def)
  from alt show ?thesis
  proof
    assume "s1 = t \<and> d = whole"
    with d show ?thesis by blast
  next
    assume *: "d = dstep (length xs) EvNeedInput \<and> wd_state s1 = WarcHeader \<and>
       warc_header_loop s1 ys (length xs) End = (t, Inr whole)"
    then have "ys \<noteq> []" by auto
    moreover obtain d0 where "warc_header_loop s1 ys 0 End = (t, Inr d0)"
      "whole = dstep (ds_consumed d0 + length xs) (ds_event d0)"
      using * warc_header_loop_shift [of s1 ys 0 "length xs" End]
        shift_consumed_Inr [of "length xs" "warc_header_loop s1 ys 0 End" t whole]
      by auto
    ultimately show ?thesis
      using d * by (auto simp: continues_def joins_def warc_step_def warc_step_header_def)
  qed
qed

interpretation warc_chunks: chunked_decoder warc_step warc_inv "\<lambda>s. warc_rank (wd_state s)" warc_allowance
proof unfold_locales
  fix s xs ys t whole
  assume inv: "warc_inv s" and w: "warc_step s (xs @ ys) End = (t, Inr whole)"
  show "\<exists>s1 d. warc_step s xs More = (s1, Inr d) \<and> continues warc_step xs ys s1 d t whole"
  proof (cases "wd_state s")
    case WarcHeader
    from warc_header_chunk [OF this w] show ?thesis .
  next
    case (WarcData r)
    with inv warc_data_chunk [OF WarcData _ w] show ?thesis by (simp add: warc_inv_def)
  next
    case (WarcTrailer m)
    with inv warc_trailer_chunk [OF WarcTrailer _ w] show ?thesis by (simp add: warc_inv_def)
  next
    case WarcDone
    with w show ?thesis by (auto simp: warc_step_def split: if_splits)
  qed
qed

end
