(* ===== verification/Oxide_Warc_Spec.thy ===== *)
theory Oxide_Warc_Spec
  imports Oxide_Warc
begin

text \<open>
  What the WARC reader promises: generated entry paths are unique per record and contain nothing
  but safe characters, and a file of well-formed records is decoded into exactly those records.
\<close>

section \<open>Generated paths\<close>

definition warc_safe_byte :: "byte \<Rightarrow> bool" where
  "warc_safe_byte b \<longleftrightarrow> is_path_byte b \<or> b = 37"

lemma utf8_ascii: "\<forall>b \<in> set bs. b \<le> 0x7f \<Longrightarrow> utf8_valid bs"
  by (induction bs) auto

lemma path_byte_ascii: "is_path_byte b \<Longrightarrow> b \<le> 0x7f"
  by (auto simp: is_path_byte_def is_ascii_alphanumeric_def is_ascii_digit_def word_le_nat_alt)

lemma HEX_path_byte:
  assumes "i < 16"
  shows "is_path_byte (HEX ! i)"
proof -
  have "length HEX = 16" by (simp add: HEX_def ascii_def)
  then have "HEX ! i \<in> set HEX" using assms nth_mem by metis
  moreover have "\<forall>b \<in> set HEX. is_path_byte b"
    by (simp add: HEX_def ascii_def is_path_byte_def is_ascii_alphanumeric_def is_ascii_digit_def)
  ultimately show ?thesis by blast
qed

lemma percent_encode_safe: "\<forall>b \<in> set (percent_encode x). warc_safe_byte b"
proof -
  have "unat x < 256" using unsigned_less [of x] by simp
  then have "unat (drop_bit 4 x) < 16" by (simp add: drop_bit_eq_div unat_div)
  moreover have "unat (x AND 0x0f) < 16" by (simp add: unsigned_and_eq and_mask_nat)
  ultimately show ?thesis by (auto simp: percent_encode_def warc_safe_byte_def HEX_path_byte)
qed

lemma decimal20_length [simp]: "length (decimal20 n) = 20"
  by (simp add: decimal20_def)

lemma decimal20_digits: "\<forall>b \<in> set (decimal20 n). is_ascii_digit b"
proof -
  have "is_ascii_digit (48 + of_nat k)" if "k < 10" for k :: nat
    using that by (auto simp: is_ascii_digit_def word_le_nat_alt unat_word_ariths unat_of_nat take_bit_nat_eq_self)
  then show ?thesis by (auto simp: decimal20_def)
qed

lemma digit_byte_inj:
  assumes "(48 + of_nat a :: byte) = 48 + of_nat b" and "a < 10" and "b < 10"
  shows "a = b"
proof -
  have "unat (of_nat a :: byte) = unat (of_nat b :: byte)" using assms(1) by simp
  then show ?thesis using assms(2,3) by (simp add: unat_of_nat)
qed

lemma digits_inj:
  fixes a b :: nat
  assumes "\<forall>i < k. a div 10 ^ i mod 10 = b div 10 ^ i mod 10" and "a < 10 ^ k" and "b < 10 ^ k"
  shows "a = b"
  using assms
proof (induction k arbitrary: a b)
  case (Suc k)
  have "\<forall>i < k. a div 10 div 10 ^ i mod 10 = b div 10 div 10 ^ i mod 10"
    using Suc.prems(1) by (auto simp flip: div_mult2_eq power_Suc)
  moreover have "a div 10 < 10 ^ k" "b div 10 < 10 ^ k"
    using Suc.prems(2,3) by (auto simp: less_mult_imp_div_less mult.commute)
  ultimately have "a div 10 = b div 10" by (rule Suc.IH)
  moreover have "a mod 10 = b mod 10" using Suc.prems(1)[rule_format, of 0] by simp
  ultimately show ?case by (metis div_mult_mod_eq)
qed simp

lemma decimal20_inj:
  assumes "decimal20 a = decimal20 b" and "a \<le> u64_max" and "b \<le> u64_max"
  shows "a = b"
proof (rule digits_inj [of 20])
  show "\<forall>i < 20. a div 10 ^ i mod 10 = b div 10 ^ i mod 10"
  proof (intro allI impI)
    fix i :: nat assume i: "i < 20"
    have "decimal20 a ! (19 - i) = decimal20 b ! (19 - i)" using assms(1) by simp
    then have "(48 + of_nat (a div 10 ^ i mod 10) :: byte) = 48 + of_nat (b div 10 ^ i mod 10)"
      using i nth_upt [of 0 "19 - i" 20] by (simp add: decimal20_def)
    then show "a div 10 ^ i mod 10 = b div 10 ^ i mod 10" by (rule digit_byte_inj) simp_all
  qed
qed (use assms in \<open>simp_all add: u64_max_def\<close>)

text \<open>The part of the path after the sequence number.\<close>

lemma record_path_shape:
  assumes "record_path l q rid = Inr p"
  shows "\<exists>name. p = ascii ''warc/'' @ decimal20 q @ name @ ascii ''.record'' \<and>
    (name = [] \<or> (\<exists>n. n \<noteq> [] \<and> name = ascii ''/'' @ n \<and> (\<forall>b \<in> set n. warc_safe_byte b)))"
proof -
  have e: "concat (map percent_encode r) \<noteq> []" if "r \<noteq> []" for r
    using that by (cases r) (auto simp: percent_encode_def)
  have s: "\<forall>b \<in> set (concat (map percent_encode r)). warc_safe_byte b" for r
    using percent_encode_safe by auto
  consider "p = ascii ''warc/'' @ decimal20 q @ ascii ''.record''"
    | r where "r \<noteq> []" "p = (ascii ''warc/'' @ decimal20 q @ ascii ''/'') @ concat (map percent_encode r) @ ascii ''.record''"
    using assms by (auto simp: record_path_def Let_def split: if_splits option.splits)
  then show ?thesis
  proof cases
    case 1
    then show ?thesis by (intro exI [of _ "[]"]) simp
  next
    case 2
    then show ?thesis using e s
      by (intro exI [of _ "ascii ''/'' @ concat (map percent_encode r)"]) auto
  qed
qed

text \<open>
  C23. Every path the WARC reader generates is \<open>warc/\<close>, twenty decimal digits, optionally
  a slash and a non-empty name made only of letters, digits, dot, dash, underscore and percent
  signs, then \<open>.record\<close>: a hostile \<open>WARC-Record-ID\<close> can add no path separator, control byte or
  parent reference. Two records with different sequence numbers never get the same path.
\<close>

theorem warc_paths_safe_and_unique:
  assumes "record_path l q rid = Inr p"
  shows "(\<exists>name. p = ascii ''warc/'' @ decimal20 q @ name @ ascii ''.record'' \<and>
      (\<forall>b \<in> set (decimal20 q). is_ascii_digit b) \<and>
      (name = [] \<or> (\<exists>n. n \<noteq> [] \<and> name = ascii ''/'' @ n \<and> (\<forall>b \<in> set n. warc_safe_byte b)))) \<and>
    (\<forall>l' q' rid'. q \<le> u64_max \<longrightarrow> q' \<le> u64_max \<longrightarrow> record_path l' q' rid' = Inr p \<longrightarrow> q' = q)"
proof (intro conjI allI impI)
  show "\<exists>name. p = ascii ''warc/'' @ decimal20 q @ name @ ascii ''.record'' \<and>
      (\<forall>b \<in> set (decimal20 q). is_ascii_digit b) \<and>
      (name = [] \<or> (\<exists>n. n \<noteq> [] \<and> name = ascii ''/'' @ n \<and> (\<forall>b \<in> set n. warc_safe_byte b)))"
    using record_path_shape [OF assms] decimal20_digits by blast
next
  fix l' q' rid'
  assume le: "q \<le> u64_max" "q' \<le> u64_max" and p': "record_path l' q' rid' = Inr p"
  have "decimal20 q' = decimal20 q"
    using record_path_shape [OF assms] record_path_shape [OF p'] by auto
  from decimal20_inj [OF this le(2,1)] show "q' = q" .
qed

lemma upt_20: "[0..<20] = [0, 1, 2, 3, 4, 5, 6, 7, 8, 9, 10, 11, 12, 13, 14, 15, 16, 17, 18, 19 :: nat]"
  by code_simp

lemma decimal20_7: "decimal20 7 = ascii ''00000000000000000007''"
  by (simp add: decimal20_def ascii_def upt_20)

lemma percent_examples:
  "percent_encode 46 = [46]" "percent_encode 47 = ascii ''%2F''" "percent_encode 97 = [97]"
  "percent_encode 58 = ascii ''%3A''" "percent_encode 98 = [98]"
  by (simp_all add: percent_encode_def is_path_byte_def is_ascii_alphanumeric_def is_ascii_digit_def
      HEX_def ascii_def)

lemma record_path_example:
  "record_path limits_safe 7 (Some (ascii ''../a:b'')) =
     Inr (ascii ''warc/00000000000000000007/..%2Fa%3Ab.record'')"
  by (simp add: record_path_def Let_def limits_safe_def decimal20_7 checked_add_def u64_max_def
      percent_examples ascii_def)

theorem warc_paths_safe_and_unique_witness:
  "record_path limits_safe 7 (Some (ascii ''../a:b'')) =
     Inr (ascii ''warc/00000000000000000007/..%2Fa%3Ab.record'') \<and>
   record_path limits_safe 8 None \<noteq> Inr (ascii ''warc/00000000000000000007/..%2Fa%3Ab.record'')"
proof -
  have "q' = 7" if "q' \<le> u64_max"
    "record_path l' q' rid' = Inr (ascii ''warc/00000000000000000007/..%2Fa%3Ab.record'')" for l' q' rid'
    using warc_paths_safe_and_unique [OF record_path_example] that by (auto simp: u64_max_def)
  from this [of 8 limits_safe None] record_path_example show ?thesis by (auto simp: u64_max_def)
qed

section \<open>Well-formed records\<close>

record warc_record =
  rec_v11 :: bool
  rec_fields :: "named_field list"
  rec_body :: bytes

definition field_line :: "named_field \<Rightarrow> bytes" where
  "field_line f = nf_name f @ ascii '': '' @ nf_value f"

definition version_line :: "bool \<Rightarrow> bytes" where
  "version_line v11 = ascii (if v11 then ''WARC/1.1'' else ''WARC/1.0'')"

definition version_value :: "bool \<Rightarrow> bytes" where
  "version_value v11 = ascii (if v11 then ''1.1'' else ''1.0'')"

definition record_lines :: "warc_record \<Rightarrow> bytes list" where
  "record_lines r = version_line (rec_v11 r) # map field_line (rec_fields r)"

definition record_header :: "warc_record \<Rightarrow> bytes" where
  "record_header r = concat (map (\<lambda>l. l @ [CR, LF]) (record_lines r)) @ [CR, LF]"

definition record_bytes :: "warc_record \<Rightarrow> bytes" where
  "record_bytes r = record_header r @ rec_body r @ RECORD_END"

definition field_ok :: "named_field \<Rightarrow> bool" where
  "field_ok f \<longleftrightarrow> validate_field_name (nf_name f) = Inr () \<and> validate_field_value (nf_value f) = Inr () \<and>
     utf8_valid (nf_value f) \<and> trim_ows (nf_value f) = nf_value f"

definition field_cost :: "named_field \<Rightarrow> nat" where
  "field_cost f = 76 + length (nf_name f) + length (nf_value f)"

definition record_cost :: "warc_record \<Rightarrow> nat" where
  "record_cost r = 86 + sum_list (map field_cost (rec_fields r))"

definition record_id :: "warc_record \<Rightarrow> bytes option" where
  "record_id r = map_option nf_value (find_field (rec_fields r) (ascii ''warc-record-id''))"

definition record_ok :: "warc_record \<Rightarrow> bool" where
  "record_ok r \<longleftrightarrow>
     (\<forall>f \<in> set (rec_fields r). field_ok f) \<and> reject_duplicate_singletons (rec_fields r) = Inr () \<and>
     (\<exists>f. find_field (rec_fields r) (ascii ''content-length'') = Some f \<and>
        parse_content_length (nf_value f) = Inr (length (rec_body r)))"

section \<open>Line splitting\<close>

definition plain_line :: "bytes \<Rightarrow> bool" where
  "plain_line l \<longleftrightarrow> l \<noteq> [] \<and> CR \<notin> set l \<and> LF \<notin> set l"

lemma crlf_position_plain:
  "CR \<notin> set l \<Longrightarrow> crlf_position (l @ CR # LF # r) = Some (length l)"
  "CR \<notin> set l \<Longrightarrow> crlf_position l = None"
proof -
  show "CR \<notin> set l \<Longrightarrow> crlf_position (l @ CR # LF # r) = Some (length l)"
  proof (induction l)
    case (Cons a l)
    then show ?case by (cases l) auto
  qed simp
  show "CR \<notin> set l \<Longrightarrow> crlf_position l = None"
    by (induction l rule: crlf_position.induct) auto
qed

lemma crlf_lines_join:
  assumes "plain_line l" and "\<forall>k \<in> set ls. plain_line k"
  shows "crlf_lines (concat (map (\<lambda>k. k @ [CR, LF]) (butlast (l # ls))) @ last (l # ls)) = map Inr (l # ls)"
  using assms
proof (induction ls arbitrary: l)
  case Nil
  then show ?case
    by (simp add: crlf_lines.simps [of l] crlf_position_plain plain_line_def)
next
  case (Cons k ls)
  from Cons.IH [of k] Cons.prems show ?case
    by (subst crlf_lines.simps) (simp add: crlf_position_plain plain_line_def)
qed

lemma record_header_strip:
  "strip_suffix (record_header r) HEADER_END =
     Some (concat (map (\<lambda>k. k @ [CR, LF]) (butlast (record_lines r))) @ last (record_lines r))"
proof -
  have "record_lines r \<noteq> []" by (simp add: record_lines_def)
  then have "record_header r =
      (concat (map (\<lambda>k. k @ [CR, LF]) (butlast (record_lines r))) @ last (record_lines r)) @ HEADER_END"
    by (cases "record_lines r" rule: rev_cases) (simp_all add: record_header_def HEADER_END_def)
  then show ?thesis by (metis strip_suffix_append)
qed

lemma field_line_plain:
  assumes "field_ok f"
  shows "plain_line (field_line f)"
proof -
  have "CR \<notin> set (nf_name f)" "LF \<notin> set (nf_name f)"
    using assms by (auto simp: field_ok_def validate_field_name_def split: if_splits)
  moreover have "CR \<notin> set (nf_value f)" "LF \<notin> set (nf_value f)"
    using assms by (auto simp: field_ok_def validate_field_value_def split: if_splits)
  ultimately show ?thesis by (simp add: plain_line_def field_line_def ascii_def)
qed

lemma record_lines_plain:
  assumes "record_ok r"
  shows "\<forall>l \<in> set (record_lines r). plain_line l"
  using assms field_line_plain
  by (auto simp: record_lines_def record_ok_def version_line_def plain_line_def ascii_def)

section \<open>Parsing a record header\<close>

lemma position_first: "x \<notin> set xs \<Longrightarrow> position (\<lambda>b. b = x) (xs @ x # ys) = Some (length xs)"
  by (induction xs) auto

lemma field_name_facts:
  assumes "validate_field_name name = Inr ()"
  shows "name \<noteq> []" "58 \<notin> set name" "\<not> is_ows (hd name)"
proof -
  show ne: "name \<noteq> []" using assms by (auto simp: validate_field_name_def split: if_splits)
  show "58 \<notin> set name"
    using assms by (auto simp: validate_field_name_def warc_separators_def ascii_def split: if_splits)
  have "\<not> hd name \<le> 32"
    using assms ne by (auto simp: validate_field_name_def split: if_splits)
  then show "\<not> is_ows (hd name)" by (auto simp: is_ows_def)
qed

lemma trim_ows_space: "trim_ows (32 # v) = trim_ows v"
  by (simp add: trim_ows_def is_ows_def)

lemma account_ok:
  "\<not> exceeds (metadata_bytes l) (k + n) \<Longrightarrow> k + n \<le> u64_max \<Longrightarrow>
   account_retained_metadata l k n = Inr (k + n)"
  by (simp add: account_retained_metadata_def checked_add_def)

lemma extension_cost_ok:
  "76 + length name + length v \<le> u64_max \<Longrightarrow> extension_cost name v = Inr (76 + length name + length v)"
  by (simp add: extension_cost_def checked_add_def size_of_extension_def ascii_def)

lemma warc_field_line:
  assumes "field_ok f" and "\<not> exceeds (metadata_bytes l) (k + field_cost f)" and "k + field_cost f \<le> u64_max"
  shows "warc_fields l (Inr (field_line f) # ls) flds k = warc_fields l ls (flds @ [f]) (k + field_cost f)"
proof -
  have name: "validate_field_name (nf_name f) = Inr ()" and v: "validate_field_value (nf_value f) = Inr ()"
    "trim_ows (nf_value f) = nf_value f"
    using assms(1) by (simp_all add: field_ok_def)
  note nf = field_name_facts [OF name]
  have line: "field_line f = nf_name f @ 58 # 32 # nf_value f" by (simp add: field_line_def ascii_def)
  have hd: "\<not> (field_line f \<noteq> [] \<and> is_ows (hd (field_line f)))" using nf(1,3) by (simp add: line)
  have named: "warc_named_field l (field_line f) flds k = Inr (flds @ [f], k + field_cost f)"
    using name v nf(2) assms(2,3)
    by (simp add: warc_named_field_def line position_first trim_ows_space extension_cost_ok account_ok
        field_cost_def Let_def)
  show ?thesis
    by (subst warc_fields.simps, subst if_not_P [OF hd]) (simp add: named)
qed

lemma warc_fields_lines:
  assumes "\<forall>f \<in> set fs. field_ok f"
    and "\<not> exceeds (metadata_bytes l) (k + sum_list (map field_cost fs))"
    and "k + sum_list (map field_cost fs) \<le> u64_max"
  shows "warc_fields l (map (Inr \<circ> field_line) fs) flds k = Inr (flds @ fs, k + sum_list (map field_cost fs))"
  using assms
proof (induction fs arbitrary: flds k)
  case (Cons f fs)
  have "\<not> exceeds (metadata_bytes l) (k + field_cost f)"
    using Cons.prems(2) exceeds_mono [of _ "k + field_cost f"] by fastforce
  then have "warc_fields l (Inr (field_line f) # map (Inr \<circ> field_line) fs) flds k =
      warc_fields l (map (Inr \<circ> field_line) fs) (flds @ [f]) (k + field_cost f)"
    using Cons.prems by (intro warc_field_line) auto
  with Cons.IH [of "k + field_cost f" "flds @ [f]"] Cons.prems show ?case
    by (simp add: add.assoc comp_def del: warc_fields.simps)
qed simp

lemma warc_metadata_keeps:
  "md_path (warc_metadata p n v flds) = path_from_utf8 p" "md_size (warc_metadata p n v flds) = Some n"
  "md_kind (warc_metadata p n v flds) = KindFile" "md_link_target (warc_metadata p n v flds) = None"
  "md_times (warc_metadata p n v flds) = times_default" "md_sparse (warc_metadata p n v flds) = []"
proof -
  let ?f = "\<lambda>b f. b_extension (extension_new ''warc'' (nf_name f) (nf_value f)) b"
  have keep: "sel (foldl ?f m flds) = sel m"
    if "\<And>m x. sel (b_extension x m) = sel m" for sel :: "entry_metadata \<Rightarrow> 'z" and m
    using that by (induction flds arbitrary: m) simp_all
  note defs = warc_metadata_def builder_defs builder_def
  show "md_path (warc_metadata p n v flds) = path_from_utf8 p"
    unfolding warc_metadata_def by (subst keep) (simp_all add: builder_defs builder_def)
  show "md_size (warc_metadata p n v flds) = Some n"
    unfolding warc_metadata_def by (subst keep) (simp_all add: builder_defs builder_def)
  show "md_kind (warc_metadata p n v flds) = KindFile"
    unfolding warc_metadata_def by (subst keep) (simp_all add: builder_defs builder_def)
  show "md_link_target (warc_metadata p n v flds) = None"
    unfolding warc_metadata_def by (subst keep) (simp_all add: builder_defs builder_def)
  show "md_times (warc_metadata p n v flds) = times_default"
    unfolding warc_metadata_def by (subst keep) (simp_all add: builder_defs builder_def)
  show "md_sparse (warc_metadata p n v flds) = []"
    unfolding warc_metadata_def by (subst keep) (simp_all add: builder_defs builder_def)
qed

lemma warc_metadata_builds:
  assumes "utf8_valid p" and "p \<noteq> []"
  shows "try_build (warc_metadata p n v flds) = Inr (warc_metadata p n v flds)"
  using assms
  by (simp add: try_build_def validate_def warc_metadata_keeps path_from_utf8_def times_default_def
      option_list_def List.map_filter_def)

lemma path_ascii:
  "\<forall>b \<in> set (ascii ''warc/'' @ decimal20 q @ ascii ''.record''). b \<le> 0x7f"
  "\<forall>b \<in> set ((ascii ''warc/'' @ decimal20 q @ ascii ''/'') @ concat (map percent_encode r) @ ascii ''.record''). b \<le> 0x7f"
proof -
  have d: "\<forall>b \<in> set (decimal20 q). b \<le> 0x7f"
    using decimal20_digits [of q] by (auto simp: is_ascii_digit_def word_le_nat_alt)
  have p: "\<forall>b \<in> set (concat (map percent_encode r)). b \<le> 0x7f"
    using percent_encode_safe path_byte_ascii by (fastforce simp: warc_safe_byte_def)
  from d show "\<forall>b \<in> set (ascii ''warc/'' @ decimal20 q @ ascii ''.record''). b \<le> 0x7f"
    by (auto simp: ascii_def)
  from d p show "\<forall>b \<in> set ((ascii ''warc/'' @ decimal20 q @ ascii ''/'') @ concat (map percent_encode r) @ ascii ''.record'').
      b \<le> 0x7f"
    by (auto simp: ascii_def)
qed

lemma record_path_returns:
  assumes "\<not> exceeds (path_bytes l) 32"
  shows "\<exists>p. record_path l q rid = Inr p \<and> utf8_valid p \<and> p \<noteq> []"
proof -
  note valid = path_ascii(1) [THEN utf8_ascii, of q] path_ascii(2) [THEN utf8_ascii, of q]
  have "length (ascii ''warc/'' @ decimal20 q @ ascii ''.record'') = 32" by (simp add: ascii_def)
  with assms valid show ?thesis
    unfolding record_path_def Let_def
    by (auto simp: ascii_def [of "''warc/''"] split: option.splits)
qed

definition record_path_of :: "limits \<Rightarrow> nat \<Rightarrow> warc_record \<Rightarrow> bytes" where
  "record_path_of l q r = unwrap_or [] (record_path l q (record_id r))"

definition record_metadata :: "limits \<Rightarrow> nat \<Rightarrow> warc_record \<Rightarrow> entry_metadata" where
  "record_metadata l q r =
     warc_metadata (record_path_of l q r) (length (rec_body r)) (version_value (rec_v11 r)) (rec_fields r)"

text \<open>The budgets a record is charged against as record number \<open>q\<close>.\<close>

definition record_within :: "limits \<Rightarrow> nat \<Rightarrow> warc_record \<Rightarrow> bool" where
  "record_within l q r \<longleftrightarrow>
     \<not> exceeds (metadata_bytes l) (length (record_header r)) \<and> length (record_header r) \<le> u64_max \<and>
     \<not> exceeds (metadata_bytes l) (record_cost r + length (record_path_of l q r)) \<and>
     record_cost r + length (record_path_of l q r) \<le> u64_max \<and>
     \<not> exceeds (path_bytes l) 32 \<and> \<not> exceeds (entry_bytes l) (length (rec_body r))"

lemma warc_header_parses:
  assumes ok: "record_ok r" and within: "record_within l q r"
  shows "warc_parse_header l (record_header r) q = Inr (record_metadata l q r, length (rec_body r))"
proof -
  obtain p where p: "record_path l q (record_id r) = Inr p" "utf8_valid p" "p \<noteq> []"
    using record_path_returns [of l q "record_id r"] within by (auto simp: record_within_def)
  then have path: "record_path_of l q r = p" by (simp add: record_path_of_def)
  obtain f where f: "find_field (rec_fields r) (ascii ''content-length'') = Some f"
    "parse_content_length (nf_value f) = Inr (length (rec_body r))"
    using ok by (auto simp: record_ok_def)
  have cost: "\<not> exceeds (metadata_bytes l) (record_cost r)" "record_cost r \<le> u64_max"
    using within exceeds_mono [of "metadata_bytes l" "record_cost r"] by (auto simp: record_within_def)
  have lines: "crlf_lines (concat (map (\<lambda>k. k @ [CR, LF]) (butlast (record_lines r))) @ last (record_lines r)) =
      Inr (version_line (rec_v11 r)) # map (Inr \<circ> field_line) (rec_fields r)"
    using crlf_lines_join [of "version_line (rec_v11 r)" "map field_line (rec_fields r)"]
      record_lines_plain [OF ok] by (simp add: record_lines_def)
  have version: "warc_version (version_line (rec_v11 r)) = Inr (version_value (rec_v11 r))"
    "extension_cost (ascii ''version'') (version_value (rec_v11 r)) = Inr 86"
    by (simp_all add: warc_version_def version_line_def version_value_def ascii_def extension_cost_def
        checked_add_def size_of_extension_def u64_max_def)
  have flds: "warc_fields l (map (Inr \<circ> field_line) (rec_fields r)) [] 86 =
      Inr (rec_fields r, record_cost r)"
    using warc_fields_lines [of "rec_fields r" l 86 "[]"] ok cost by (simp add: record_ok_def record_cost_def)
  have "warc_entry l q (version_value (rec_v11 r)) (rec_fields r) (record_cost r) =
      Inr (record_metadata l q r, length (rec_body r))"
    using ok f p within path
    by (auto simp: warc_entry_def record_ok_def field_ok_def record_id_def [symmetric] record_within_def
        account_ok record_metadata_def warc_metadata_builds)
  with lines version flds show ?thesis
    by (simp add: warc_parse_header_def record_header_strip)
qed

section \<open>Scanning for the end of the header\<close>

lemma warc_header_skip:
  assumes "\<forall>k. 0 < k \<longrightarrow> k \<le> length xs \<longrightarrow> \<not> ends_with (wd_header s @ take k xs) HEADER_END"
    and "\<not> exceeds (metadata_bytes (wd_limits s)) (length (wd_header s) + length xs)"
    and "length (wd_header s) + length xs \<le> u64_max"
  shows "warc_header_loop s (xs @ ys) c e =
    warc_header_loop (s\<lparr>wd_header := wd_header s @ xs\<rparr>) ys (c + length xs) e"
  using assms
proof (induction xs arbitrary: s c)
  case (Cons x xs)
  let ?s = "s\<lparr>wd_header := wd_header s @ [x]\<rparr>"
  have "\<not> exceeds (metadata_bytes (wd_limits s)) (Suc (length (wd_header s)))"
    using Cons.prems(2) exceeds_mono [of _ "Suc (length (wd_header s))"] by fastforce
  then have app: "append_header_byte s x = Inr ?s"
    using Cons.prems(3) by (simp add: append_header_byte_def checked_add_def)
  have "\<not> ends_with (wd_header ?s) HEADER_END" using Cons.prems(1) [rule_format, of 1] by simp
  then have "warc_header_loop s ((x # xs) @ ys) c e = warc_header_loop ?s (xs @ ys) (c + 1) e"
    using app by simp
  also have "\<dots> = warc_header_loop (?s\<lparr>wd_header := wd_header ?s @ xs\<rparr>) ys (c + 1 + length xs) e"
  proof (rule Cons.IH)
    show "\<forall>k. 0 < k \<longrightarrow> k \<le> length xs \<longrightarrow> \<not> ends_with (wd_header ?s @ take k xs) HEADER_END"
    proof (intro allI impI)
      fix k assume "0 < k" "k \<le> length xs"
      with Cons.prems(1) [rule_format, of "Suc k"]
      show "\<not> ends_with (wd_header ?s @ take k xs) HEADER_END" by simp
    qed
  qed (use Cons.prems in auto)
  finally show ?case by simp
qed simp

text \<open>A header ends exactly where the blank line ends: no proper prefix has the terminator.\<close>

lemma terminator_last:
  assumes "\<forall>l \<in> set ls. plain_line l"
    and "concat (map (\<lambda>l. l @ [CR, LF]) ls) @ [CR, LF] = ys @ HEADER_END @ zs"
  shows "zs = []"
  using assms
proof (induction ls arbitrary: ys)
  case Nil
  then have "length [CR, LF] = length (ys @ HEADER_END @ zs)" by simp
  then show ?case by (simp add: HEADER_END_def)
next
  case (Cons l ls)
  let ?rest = "concat (map (\<lambda>l. l @ [CR, LF]) ls) @ [CR, LF]"
  have l: "l \<noteq> []" "CR \<notin> set l" using Cons.prems(1) by (auto simp: plain_line_def)
  from Cons.prems(2) have eq: "l @ CR # LF # ?rest = ys @ HEADER_END @ zs" by simp
  then consider us where "l = ys @ us" "us @ CR # LF # ?rest = HEADER_END @ zs"
    | us where "ys = l @ us" "CR # LF # ?rest = us @ HEADER_END @ zs"
    by (auto simp: append_eq_append_conv2)
  then show ?case
  proof cases
    case (1 us)
    show ?thesis
    proof (cases us)
      case Nil
      with 1 have r: "?rest = CR # LF # zs" by (simp add: HEADER_END_def)
      show ?thesis
      proof (cases ls)
        case Nil
        with r show ?thesis by simp
      next
        case (Cons m ms)
        with Cons.prems(1) have "m \<noteq> []" "CR \<notin> set m" by (auto simp: plain_line_def)
        with r Cons show ?thesis by (cases m) auto
      qed
    next
      case (Cons u us')
      with 1 l show ?thesis by (auto simp: HEADER_END_def)
    qed
  next
    case (2 us)
    consider "us = []" | "us = [CR]" | us' where "us = CR # LF # us'"
      using 2(2) by (cases us; cases "tl us") auto
    then show ?thesis
    proof cases
      case 1
      with 2 have "?rest = [] @ CR # LF # zs" by (simp add: HEADER_END_def)
      show ?thesis
      proof (cases ls)
        case Nil
        with \<open>?rest = [] @ CR # LF # zs\<close> show ?thesis by simp
      next
        case (Cons m ms)
        with Cons.prems(1) have "m \<noteq> []" "CR \<notin> set m" by (auto simp: plain_line_def)
        with \<open>?rest = [] @ CR # LF # zs\<close> Cons show ?thesis by (cases m) auto
      qed
    next
      case 2
      with \<open>CR # LF # ?rest = us @ HEADER_END @ zs\<close> show ?thesis by (simp add: HEADER_END_def)
    next
      case (3 us')
      with 2 have "?rest = us' @ HEADER_END @ zs" by simp
      with Cons.IH Cons.prems(1) show ?thesis by auto
    qed
  qed
qed

lemma record_header_ends:
  "ends_with (record_header r) HEADER_END"
  using record_header_strip [of r] by (metis option.distinct(1) strip_suffix_def)

lemma record_header_scan:
  assumes ok: "record_ok r" and within: "record_within (wd_limits s) (Suc (wd_entries s)) r"
    and s: "wd_state s = WarcHeader" "wd_header s = []"
    and count: "\<not> exceeds (max_entries (wd_limits s)) (Suc (wd_entries s))" "Suc (wd_entries s) \<le> u64_max"
  shows "warc_header_loop s (record_header r @ rest) 0 e =
    (s\<lparr>wd_entries := Suc (wd_entries s), wd_state := WarcData (length (rec_body r))\<rparr>,
     Inr (dstep (length (record_header r)) (EvEntry (record_metadata (wd_limits s) (Suc (wd_entries s)) r))))"
proof -
  obtain hb where hb: "record_header r = hb @ [LF]"
    by (simp add: record_header_def)
  let ?s = "s\<lparr>wd_header := hb\<rparr>" and ?t = "s\<lparr>wd_header := record_header r\<rparr>"
  have scan: "warc_header_loop s (hb @ LF # rest) 0 e = warc_header_loop (s\<lparr>wd_header := wd_header s @ hb\<rparr>) (LF # rest) (0 + length hb) e"
  proof (rule warc_header_skip)
    show "\<forall>k. 0 < k \<longrightarrow> k \<le> length hb \<longrightarrow> \<not> ends_with (wd_header s @ take k hb) HEADER_END"
    proof (intro allI impI notI)
      fix k assume "k \<le> length hb" and "ends_with (wd_header s @ take k hb) HEADER_END"
      then obtain ys where "take k hb = ys @ HEADER_END" by (auto simp: ends_with_iff s)
      then have "record_header r = ys @ HEADER_END @ (drop k hb @ [LF])"
        unfolding hb by (metis append_assoc append_take_drop_id)
      then show False
        using terminator_last [OF record_lines_plain [OF ok], of ys "drop k hb @ [LF]"]
        unfolding record_header_def by blast
    qed
    have "length hb \<le> length (record_header r)" by (simp add: hb)
    then show "\<not> exceeds (metadata_bytes (wd_limits s)) (length (wd_header s) + length hb)"
      using within s exceeds_mono by (fastforce simp: record_within_def)
  qed (use within s hb in \<open>auto simp: record_within_def\<close>)
  have app: "append_header_byte ?s LF = Inr ?t"
    using within hb by (auto simp: append_header_byte_def checked_add_def record_within_def)
  have cnt: "warc_count_entry ?t = Inr (?t\<lparr>wd_entries := Suc (wd_entries s)\<rparr>)"
    using count by (simp add: warc_count_entry_def checked_add_def)
  have e: "s\<lparr>wd_header := []\<rparr> = s" using s(2) by (cases s) simp
  have "s\<lparr>wd_entries := Suc (wd_entries s), wd_header := [], wd_state := x\<rparr> =
      s\<lparr>wd_entries := Suc (wd_entries s), wd_state := x\<rparr>" for x
    using s(2) by (cases s) simp
  with scan app cnt warc_header_parses [OF ok within] record_header_ends [of r] s(2) show ?thesis
    by (simp add: hb [symmetric] Let_def) (simp add: hb)
qed

section \<open>Reading records\<close>

lemmas warc_decode_cons = decode_all_cons [of warc_step]

definition warc_ready :: "warc_decoder \<Rightarrow> bool" where
  "warc_ready s \<longleftrightarrow> wd_state s = WarcHeader \<and> wd_header s = []"

definition warc_after :: "warc_decoder \<Rightarrow> warc_record \<Rightarrow> warc_decoder" where
  "warc_after s r = s\<lparr>wd_entries := Suc (wd_entries s), wd_decoded := wd_decoded s + length (rec_body r)\<rparr>"

definition record_events :: "limits \<Rightarrow> nat \<Rightarrow> warc_record \<Rightarrow> decode_event list" where
  "record_events l q r = EvEntry (record_metadata l q r) #
     (if rec_body r = [] then [] else [EvData (rec_body r)]) @ [EvEndEntry]"

lemma warc_tail_read:
  assumes "wd_state s = WarcData 0"
    and "decode_all warc_step (s\<lparr>wd_state := WarcHeader\<rparr>) rest = Some (evs, r)"
  shows "decode_all warc_step s (RECORD_END @ rest) = Some (EvEndEntry # EvNeedInput # evs, r)"
proof -
  let ?t = "s\<lparr>wd_state := WarcTrailer 0\<rparr>"
  have "trailer_loop 0 (RECORD_END @ rest) 0 = Some (4, 4)"
    by (cases rest) (simp_all add: RECORD_END_def)
  then have "warc_step ?t (RECORD_END @ rest) End = (s\<lparr>wd_state := WarcHeader\<rparr>, Inr (dstep 4 EvNeedInput))"
    by (simp add: warc_step_def warc_step_trailer_def)
  then have "decode_all warc_step ?t (RECORD_END @ rest) = Some (EvNeedInput # evs, r)"
    using assms(2) by (intro warc_decode_cons [where c = 4]) simp_all
  moreover have "warc_step s (RECORD_END @ rest) End = (?t, Inr (dstep 0 EvEndEntry))"
    using assms(1) by (simp add: warc_step_def warc_step_data_def)
  note warc_decode_cons [OF this]
  ultimately show ?thesis by simp
qed

lemma warc_body_read:
  assumes "wd_state s = WarcData (length body)" and "wd_decoded s + length body \<le> u64_max"
    and "\<not> exceeds (decoded_total (wd_limits s)) (wd_decoded s + length body)"
    and "decode_all warc_step (s\<lparr>wd_decoded := wd_decoded s + length body, wd_state := WarcHeader\<rparr>) rest =
      Some (evs, r)"
  shows "decode_all warc_step s (body @ RECORD_END @ rest) =
    Some ((if body = [] then [] else [EvData body]) @ EvEndEntry # EvNeedInput # evs, r)"
proof (cases "body = []")
  case True
  moreover from True have "s\<lparr>wd_decoded := wd_decoded s + length body, wd_state := WarcHeader\<rparr> =
      s\<lparr>wd_state := WarcHeader\<rparr>" by (cases s) simp
  ultimately show ?thesis using warc_tail_read [of s rest] assms by simp
next
  case False
  let ?t = "s\<lparr>wd_decoded := wd_decoded s + length body, wd_state := WarcData 0\<rparr>"
  have "decode_all warc_step ?t (RECORD_END @ rest) = Some (EvEndEntry # EvNeedInput # evs, r)"
    using warc_tail_read [of ?t rest] assms(4) by simp
  moreover have "warc_step s (body @ RECORD_END @ rest) End = (?t, Inr (dstep (length body) (EvData body)))"
    using assms False by (simp add: warc_step_def warc_step_data_def Let_def checked_add_def)
  note warc_decode_cons [OF this]
  ultimately show ?thesis using False by simp
qed

lemma warc_record_read:
  assumes ok: "record_ok r" and within: "record_within (wd_limits s) (Suc (wd_entries s)) r"
    and ready: "warc_ready s"
    and count: "\<not> exceeds (max_entries (wd_limits s)) (Suc (wd_entries s))" "Suc (wd_entries s) \<le> u64_max"
    and total: "\<not> exceeds (decoded_total (wd_limits s)) (wd_decoded s + length (rec_body r))"
      "wd_decoded s + length (rec_body r) \<le> u64_max"
    and rest: "decode_all warc_step (warc_after s r) rest = Some (evs, res)"
  shows "\<exists>evs'. decode_all warc_step s (record_bytes r @ rest) = Some (evs', res) \<and>
    visible evs' = record_events (wd_limits s) (Suc (wd_entries s)) r @ visible evs"
proof -
  let ?t = "s\<lparr>wd_entries := Suc (wd_entries s), wd_state := WarcData (length (rec_body r))\<rparr>"
  let ?ev = "EvEntry (record_metadata (wd_limits s) (Suc (wd_entries s)) r)"
  have st: "wd_state s = WarcHeader" "wd_header s = []" using ready by (simp_all add: warc_ready_def)
  have "?t\<lparr>wd_decoded := wd_decoded ?t + length (rec_body r), wd_state := WarcHeader\<rparr> = warc_after s r"
    using st by (cases s) (simp add: warc_after_def)
  then have body: "decode_all warc_step ?t (rec_body r @ RECORD_END @ rest) =
      Some ((if rec_body r = [] then [] else [EvData (rec_body r)]) @ EvEndEntry # EvNeedInput # evs, res)"
    using warc_body_read [of ?t "rec_body r" rest evs res] total rest by simp
  have "record_header r \<noteq> []" by (simp add: record_header_def)
  then have "warc_step s (record_bytes r @ rest) End = (?t, Inr (dstep (length (record_header r)) ?ev))"
    using record_header_scan [OF ok within st count] st
    by (simp add: warc_step_def warc_step_header_def record_bytes_def)
  then have "decode_all warc_step s (record_bytes r @ rest) = Some
      (?ev # (if rec_body r = [] then [] else [EvData (rec_body r)]) @ EvEndEntry # EvNeedInput # evs, res)"
    using body by (intro warc_decode_cons [where c = "length (record_header r)"]) (simp_all add: record_bytes_def)
  then show ?thesis by (simp add: record_events_def)
qed

fun records_events :: "limits \<Rightarrow> nat \<Rightarrow> warc_record list \<Rightarrow> decode_event list" where
  "records_events l q [] = [EvDone]"
| "records_events l q (r # rs) = record_events l q r @ records_events l (Suc q) rs"

text \<open>
  \<open>warc_file_ok l rs\<close>: at least one record, every record well formed and within the budgets \<open>l\<close>
  under its sequence number, and the file within the total budgets.
\<close>

definition warc_file_ok :: "limits \<Rightarrow> warc_record list \<Rightarrow> bool" where
  "warc_file_ok l rs \<longleftrightarrow>
     rs \<noteq> [] \<and> (\<forall>i < length rs. record_ok (rs ! i) \<and> record_within l (Suc i) (rs ! i)) \<and>
     \<not> exceeds (max_entries l) (length rs) \<and> length rs \<le> u64_max \<and>
     \<not> exceeds (decoded_total l) (length (concat (map rec_body rs))) \<and>
     length (concat (map rec_body rs)) \<le> u64_max"

lemma warc_records_read:
  assumes "\<forall>i < length rs. record_ok (rs ! i) \<and> record_within (wd_limits s) (Suc (wd_entries s + i)) (rs ! i)"
    and "\<not> exceeds (max_entries (wd_limits s)) (wd_entries s + length rs)"
    and "wd_entries s + length rs \<le> u64_max"
    and "\<not> exceeds (decoded_total (wd_limits s)) (wd_decoded s + length (concat (map rec_body rs)))"
    and "wd_decoded s + length (concat (map rec_body rs)) \<le> u64_max"
    and "warc_ready s" and "wd_entries s \<noteq> 0 \<or> rs \<noteq> []"
  shows "\<exists>evs. decode_all warc_step s (concat (map record_bytes rs)) = Some (evs, Inr ()) \<and>
    visible evs = records_events (wd_limits s) (Suc (wd_entries s)) rs"
  using assms
proof (induction rs arbitrary: s)
  case Nil
  then show ?case
    by (subst decode_all.simps) (simp add: warc_step_def warc_step_header_def warc_ready_def)
next
  case (Cons r rs)
  let ?s = "warc_after s r"
  have sel: "wd_limits ?s = wd_limits s" "wd_entries ?s = Suc (wd_entries s)"
    "wd_decoded ?s = wd_decoded s + length (rec_body r)" "warc_ready ?s"
    using Cons.prems(6) by (simp_all add: warc_after_def warc_ready_def)
  have "\<forall>i < length rs. record_ok (rs ! i) \<and> record_within (wd_limits ?s) (Suc (wd_entries ?s + i)) (rs ! i)"
    using Cons.prems(1) unfolding sel by (auto dest: spec [of _ "Suc _"])
  then obtain evs where evs: "decode_all warc_step ?s (concat (map record_bytes rs)) = Some (evs, Inr ())"
    "visible evs = records_events (wd_limits s) (Suc (Suc (wd_entries s))) rs"
    using Cons.IH [of ?s] Cons.prems sel by (auto simp: add.assoc)
  have head: "record_ok r" "record_within (wd_limits s) (Suc (wd_entries s)) r"
    using Cons.prems(1) [rule_format, of 0] by simp_all
  have "\<not> exceeds (max_entries (wd_limits s)) (Suc (wd_entries s))"
    using Cons.prems(2) exceeds_mono [of _ "Suc (wd_entries s)"] by fastforce
  moreover have "\<not> exceeds (decoded_total (wd_limits s)) (wd_decoded s + length (rec_body r))"
    using Cons.prems(4) exceeds_mono [of _ "wd_decoded s + length (rec_body r)"] by fastforce
  ultimately show ?case
    using warc_record_read [OF head Cons.prems(6) _ _ _ _ evs(1)] Cons.prems(3,5) evs(2) by auto
qed

lemma warc_file_read:
  assumes "warc_file_ok l rs"
  obtains evs where "decode_all warc_step (warc_decoder_new l) (concat (map record_bytes rs)) = Some (evs, Inr ())"
    "visible evs = records_events l 1 rs"
proof -
  have "\<forall>i < length rs. record_ok (rs ! i) \<and> record_within l (Suc i) (rs ! i)"
    using assms by (simp add: warc_file_ok_def)
  then show thesis
    using warc_records_read [of rs "warc_decoder_new l"] assms that
    by (auto simp: warc_file_ok_def warc_decoder_new_def warc_ready_def)
qed

text \<open>
  C22. A file of well-formed WARC records decodes without error into exactly those records, in
  order: for each record one entry whose metadata carries the generated path, the content length,
  the version and every named field in order, then the content block, then the end of the entry;
  after the last record the end of the archive. This holds for every way of cutting the file into
  chunks.
\<close>

theorem warc_reads_records:
  assumes "warc_file_ok l rs"
  shows "(\<exists>evs. decode_all warc_step (warc_decoder_new l) (concat (map record_bytes rs)) = Some (evs, Inr ()) \<and>
      visible evs = records_events l 1 rs) \<and>
    (\<forall>evs r. presents warc_step (warc_decoder_new l) (concat (map record_bytes rs)) evs r \<longrightarrow>
      r = Inr () \<and> norm evs = norm (records_events l 1 rs))"
proof -
  obtain evs where evs: "decode_all warc_step (warc_decoder_new l) (concat (map record_bytes rs)) = Some (evs, Inr ())"
    "visible evs = records_events l 1 rs"
    using warc_file_read [OF assms] .
  have "norm evs = norm (records_events l 1 rs)" using norm_visible [of evs] evs(2) by simp
  with warc_chunks.presentation_invisible [OF _ warc_inv_new evs(1)] evs show ?thesis by auto
qed

definition sample_record :: warc_record where
  "sample_record =
     \<lparr>rec_v11 = True,
      rec_fields = [\<lparr>nf_name = ascii ''WARC-Type'', nf_value = ascii ''resource''\<rparr>,
                    \<lparr>nf_name = ascii ''Content-Length'', nf_value = ascii ''3''\<rparr>],
      rec_body = [13, 10, 1]\<rparr>"

lemma sample_record_ok: "record_ok sample_record"
  by (simp add: record_ok_def sample_record_def field_ok_def validate_field_name_def validate_field_value_def
      warc_separators_def trim_ows_def is_ows_def reject_duplicate_singletons_def warc_singletons_def
      eq_ignore_ascii_case_def to_ascii_lowercase_def find_field_def parse_content_length_def
      is_ascii_digit_def checked_mul_def checked_add_def u64_max_def ascii_def)

lemma sample_record_within: "record_within limits_safe 1 sample_record"
  by (simp add: record_within_def record_header_def record_lines_def version_line_def field_line_def
      record_cost_def field_cost_def record_path_of_def record_path_def record_id_def find_field_def
      eq_ignore_ascii_case_def to_ascii_lowercase_def sample_record_def limits_safe_def FOUR_GIB_def
      u64_max_def ascii_def Let_def)

lemma sample_warc_ok: "warc_file_ok limits_safe [sample_record]"
  using sample_record_ok sample_record_within
  by (simp add: warc_file_ok_def limits_safe_def FOUR_GIB_def u64_max_def sample_record_def)

theorem warc_reads_records_witness:
  "\<exists>evs. decode_all warc_step (warc_decoder_new limits_safe) (record_bytes sample_record) = Some (evs, Inr ()) \<and>
     visible evs = [EvEntry (record_metadata limits_safe 1 sample_record), EvData [13, 10, 1], EvEndEntry, EvDone]"
  using warc_reads_records [OF sample_warc_ok]
  by (simp add: record_events_def sample_record_def)

end
