(* ===== verification/Oxide_Cpio_Header.thy ===== *)
theory Oxide_Cpio_Header
  imports Oxide_Chunking
begin

text \<open>
  The header layer of \<open>format/cpio.rs\<close>: numeric fields of the five dialects (newc, crc, odc and
  the two binary byte orders), the mapping between file types and \<open>S_IFMT\<close> bits, and the parser of
  one complete header.
\<close>

section \<open>Constants\<close>

definition NEWC_MAGIC :: bytes where
  "NEWC_MAGIC = ascii ''070701''"

definition NEWC_CRC_MAGIC :: bytes where
  "NEWC_CRC_MAGIC = ascii ''070702''"

definition ODC_MAGIC :: bytes where
  "ODC_MAGIC = ascii ''070707''"

definition NEWC_HEADER :: nat where
  "NEWC_HEADER = 110"

definition ODC_HEADER :: nat where
  "ODC_HEADER = 76"

definition TRAILER :: bytes where
  "TRAILER = ascii ''TRAILER!!!''"

definition BIN_MAGIC_LE :: bytes where
  "BIN_MAGIC_LE = [0xc7, 0x71]"

definition BIN_MAGIC_BE :: bytes where
  "BIN_MAGIC_BE = [0x71, 0xc7]"

datatype cpio_dialect = Newc | Crc | Odc | BinaryLittleEndian | BinaryBigEndian

definition S_IFMT :: nat where "S_IFMT = 0xf000"
definition S_IFREG :: nat where "S_IFREG = 0x8000"
definition S_IFDIR :: nat where "S_IFDIR = 0x4000"
definition S_IFCHR :: nat where "S_IFCHR = 0x2000"
definition S_IFBLK :: nat where "S_IFBLK = 0x6000"
definition S_IFIFO :: nat where "S_IFIFO = 0x1000"
definition S_IFLNK :: nat where "S_IFLNK = 0xa000"
definition S_IFSOCK :: nat where "S_IFSOCK = 0xc000"

lemmas s_if_defs = S_IFMT_def S_IFREG_def S_IFDIR_def S_IFCHR_def S_IFBLK_def S_IFIFO_def S_IFLNK_def
  S_IFSOCK_def

abbreviation cpio_err :: "error_kind \<Rightarrow> string \<Rightarrow> archive_error" where
  "cpio_err \<equiv> format_error ''cpio''"

section \<open>Numeric fields\<close>

fun mode_bits :: "entry_kind \<Rightarrow> nat" where
  "mode_bits KindDir = S_IFDIR"
| "mode_bits KindSymlink = S_IFLNK"
| "mode_bits KindChar = S_IFCHR"
| "mode_bits KindBlock = S_IFBLK"
| "mode_bits KindFifo = S_IFIFO"
| "mode_bits KindSocket = S_IFSOCK"
| "mode_bits _ = S_IFREG"

definition kind_from_mode :: "nat \<Rightarrow> entry_kind" where
  "kind_from_mode mode =
     (let t = mode AND S_IFMT in
      if t = S_IFDIR then KindDir
      else if t = S_IFLNK then KindSymlink
      else if t = S_IFCHR then KindChar
      else if t = S_IFBLK then KindBlock
      else if t = S_IFIFO then KindFifo
      else if t = S_IFSOCK then KindSocket
      else KindFile)"

definition lo32 :: "nat \<Rightarrow> 32 word" where
  "lo32 v = of_nat (v AND 0xFFFFFFFF)"

definition hex_digit :: "nat \<Rightarrow> byte" where
  "hex_digit d = (if d < 10 then 48 + of_nat d else 65 + of_nat (d - 10))"

text \<open>The digit loops of \<open>put_hex8\<close> and \<open>put_octal\<close> fill \<open>n\<close> slots from the right.\<close>

fun put_hex :: "nat \<Rightarrow> nat \<Rightarrow> bytes" where
  "put_hex 0 v = []"
| "put_hex (Suc n) v = put_hex n (v div 16) @ [hex_digit (v AND 0xf)]"

definition put_hex8 :: "nat \<Rightarrow> bytes" where
  "put_hex8 v = put_hex 8 v"

fun octal_slots :: "nat \<Rightarrow> nat \<Rightarrow> bytes \<times> nat" where
  "octal_slots 0 v = ([], v)"
| "octal_slots (Suc n) v =
     (let (ds, rest) = octal_slots n (v div 8) in (ds @ [48 + of_nat (v AND 7)], rest))"

text \<open>\<open>put_octal\<close> writes the low digits of the value before it reports that the value does not fit.\<close>

definition put_octal :: "nat \<Rightarrow> nat \<Rightarrow> bytes \<times> (archive_error + unit)" where
  "put_octal width v =
     (let (ds, rest) = octal_slots width v in
      (ds, if rest \<noteq> 0 then Inl (cpio_err ErrUnsupported ''odc numeric value exceeds its field'')
           else Inr ()))"

definition cpio_u32 :: "nat \<Rightarrow> string \<Rightarrow> archive_error + nat" where
  "cpio_u32 v ctx = (if v \<le> u32_max then Inr v else Inl (cpio_err ErrUnsupported ctx))"

definition cpio_u16 :: "nat \<Rightarrow> string \<Rightarrow> archive_error + nat" where
  "cpio_u16 v ctx = (if v \<le> u16_max then Inr v else Inl (cpio_err ErrUnsupported ctx))"

definition u16_bytes :: "bool \<Rightarrow> nat \<Rightarrow> bytes" where
  "u16_bytes little v = (if little then [of_nat v, of_nat (v div 256)] else [of_nat (v div 256), of_nat v])"

definition write_binary_word :: "bytes \<Rightarrow> nat \<Rightarrow> nat \<Rightarrow> bool \<Rightarrow> bytes" where
  "write_binary_word header index v little = copy_at header (index * 2) (u16_bytes little v)"

text \<open>\<open>char::to_digit\<close> for the radices 8 and 16.\<close>

definition to_digit :: "byte \<Rightarrow> nat \<Rightarrow> nat option" where
  "to_digit b radix =
     (let d = (if 48 \<le> b \<and> b \<le> 57 then Some (unat (b - 48))
               else if 65 \<le> b \<and> b \<le> 90 then Some (unat (b - 65) + 10)
               else if 97 \<le> b \<and> b \<le> 122 then Some (unat (b - 97) + 10)
               else None) in
      case d of None \<Rightarrow> None | Some v \<Rightarrow> if v < radix then Some v else None)"

fun radix_digits :: "nat \<Rightarrow> nat \<Rightarrow> bytes \<Rightarrow> error + nat" where
  "radix_digits radix val [] = Inr val"
| "radix_digits radix val (b # bs) =
     (if b = 32 \<or> b = 0 then radix_digits radix val bs
      else
        bindE (ok_or (Malformed ''cpio: invalid digit'') (to_digit b radix)) (\<lambda>digit.
        bindE (ok_or (Malformed ''cpio: numeric overflow'')
                 (Option.bind (checked_mul val radix) (\<lambda>v. checked_add v digit))) (\<lambda>v.
        radix_digits radix v bs)))"

definition parse_radix :: "bytes \<Rightarrow> nat \<Rightarrow> error + nat" where
  "parse_radix fld radix = radix_digits radix 0 fld"

definition newc_field :: "bytes \<Rightarrow> nat \<Rightarrow> nat \<Rightarrow> archive_error + nat" where
  "newc_field data pos i =
     (let start = pos + 6 + i * 8 in
      map_err archive_error_from
        (bindE (ok_or (Malformed ''cpio: truncated newc field'') (get_range data start (start + 8)))
           (\<lambda>fld. parse_radix fld 16)))"

definition odc_field :: "bytes \<Rightarrow> nat \<Rightarrow> nat \<Rightarrow> nat \<Rightarrow> archive_error + nat" where
  "odc_field data pos off width =
     (let start = pos + off in
      map_err archive_error_from
        (bindE (ok_or (Malformed ''cpio: truncated odc field'') (get_range data start (start + width)))
           (\<lambda>fld. parse_radix fld 8)))"

definition cpio_usize_of :: "nat \<Rightarrow> archive_error + nat" where
  "cpio_usize_of v =
     (if v \<le> usize_max then Inr v
      else Inl (archive_error_from (LimitExceeded ''cpio: size exceeds usize'')))"

definition u16_from_bytes :: "bool \<Rightarrow> bytes \<Rightarrow> nat" where
  "u16_from_bytes little p =
     (if little then unat (p ! 0) + 256 * unat (p ! 1) else 256 * unat (p ! 0) + unat (p ! 1))"

definition binary_word :: "bytes \<Rightarrow> nat \<Rightarrow> bool \<Rightarrow> archive_error + nat" where
  "binary_word bs index little =
     bindE (ok_or (cpio_err ErrMalformed ''binary header offset overflow'') (checked_mul index 2)) (\<lambda>offset.
     bindE (ok_or (cpio_err ErrMalformed ''truncated binary header'') (get_range bs offset (offset + 2))) (\<lambda>p.
     Inr (u16_from_bytes little p)))"

text \<open>The wrapping byte sum of the crc dialect, folded over a chunk.\<close>

definition cpio_sum :: "32 word \<Rightarrow> bytes \<Rightarrow> 32 word" where
  "cpio_sum acc bs = foldl (\<lambda>sum b. sum + ucast b) acc bs"

lemma cpio_sum_append: "cpio_sum a (xs @ ys) = cpio_sum (cpio_sum a xs) ys"
  by (simp add: cpio_sum_def)

section \<open>Header length\<close>

definition cpio_is_binary :: "bytes \<Rightarrow> bool" where
  "cpio_is_binary h \<longleftrightarrow> starts_with h BIN_MAGIC_LE \<or> starts_with h BIN_MAGIC_BE"

definition cpio_is_newc :: "bytes \<Rightarrow> bool" where
  "cpio_is_newc h \<longleftrightarrow> starts_with h NEWC_MAGIC \<or> starts_with h NEWC_CRC_MAGIC"

text \<open>\<open>v & !(a - 1)\<close> for a power of two \<open>a\<close>.\<close>

definition align_down :: "nat \<Rightarrow> nat \<Rightarrow> nat" where
  "align_down v a = v div a * a"

definition cpio_full_target :: "limits \<Rightarrow> nat \<Rightarrow> nat \<Rightarrow> nat \<Rightarrow> archive_error + nat option" where
  "cpio_full_target l fixed namesize alignment =
     (if namesize = 0 then Inl (cpio_err ErrMalformed ''zero-length pathname'')
      else if exceeds (path_bytes l) (namesize - 1)
      then Inl (cpio_err ErrLimit ''pathname exceeds configured limit'')
      else
        bindE (ok_or (cpio_err ErrMalformed ''header size overflow'') (checked_add fixed namesize)) (\<lambda>unaligned.
        bindE (ok_or (cpio_err ErrMalformed ''header alignment overflow'')
                 (if alignment = 4 then map_option (\<lambda>v. align_down v 4) (checked_add unaligned 3)
                  else if alignment = 2 then map_option (\<lambda>v. align_down v 2) (checked_add unaligned 1)
                  else Some unaligned)) (\<lambda>target.
        if exceeds (metadata_bytes l) target
        then Inl (cpio_err ErrLimit ''header metadata exceeds configured limit'')
        else Inr (Some target))))"

definition target_from_prefix :: "limits \<Rightarrow> bytes \<Rightarrow> archive_error + nat option" where
  "target_from_prefix l h =
     (if length h < 2 then Inr None
      else if cpio_is_binary h then
        if length h < 26 then Inr (Some 26)
        else bindE (binary_word h 10 (starts_with h BIN_MAGIC_LE)) (\<lambda>namesize.
               cpio_full_target l 26 namesize 2)
      else if length h < 6 then Inr (Some 6)
      else if cpio_is_newc h then
        if length h < NEWC_HEADER then Inr (Some NEWC_HEADER)
        else bindE (bindE (newc_field h 0 11) cpio_usize_of) (\<lambda>namesize.
               cpio_full_target l NEWC_HEADER namesize 4)
      else if starts_with h ODC_MAGIC then
        if length h < ODC_HEADER then Inr (Some ODC_HEADER)
        else bindE (bindE (odc_field h 0 59 6) cpio_usize_of) (\<lambda>namesize.
               cpio_full_target l ODC_HEADER namesize 1)
      else Inl (cpio_err ErrMalformed ''unrecognized cpio magic''))"

section \<open>Header contents\<close>

record cpio_fields =
  cf_fixed :: nat
  cf_namesize :: nat
  cf_size :: nat
  cf_mode :: nat
  cf_uid :: nat
  cf_gid :: nat
  cf_mtime :: nat
  cf_inode :: nat
  cf_links :: nat
  cf_device :: device
  cf_referenced :: device
  cf_checksum :: "32 word option"
  cf_alignment :: nat

definition newc_fields :: "bytes \<Rightarrow> archive_error + cpio_fields" where
  "newc_fields h =
     bindE (bindE (newc_field h 0 11) cpio_usize_of) (\<lambda>namesize.
     bindE (newc_field h 0 6) (\<lambda>sz.
     bindE (newc_field h 0 7) (\<lambda>dmajor. bindE (newc_field h 0 8) (\<lambda>dminor.
     bindE (newc_field h 0 9) (\<lambda>rmajor. bindE (newc_field h 0 10) (\<lambda>rminor.
     bindE (newc_field h 0 1) (\<lambda>mode. bindE (newc_field h 0 2) (\<lambda>uid.
     bindE (newc_field h 0 3) (\<lambda>gid. bindE (newc_field h 0 5) (\<lambda>mtime.
     bindE (newc_field h 0 0) (\<lambda>inode. bindE (newc_field h 0 4) (\<lambda>links.
     bindE (if starts_with h NEWC_CRC_MAGIC
            then bindE (newc_field h 0 12) (\<lambda>c. Inr (Some (lo32 c))) else Inr None) (\<lambda>checksum.
     Inr \<lparr>cf_fixed = NEWC_HEADER, cf_namesize = namesize, cf_size = sz, cf_mode = mode, cf_uid = uid,
          cf_gid = gid, cf_mtime = mtime, cf_inode = inode, cf_links = links,
          cf_device = \<lparr>dev_major = dmajor, dev_minor = dminor\<rparr>,
          cf_referenced = \<lparr>dev_major = rmajor, dev_minor = rminor\<rparr>,
          cf_checksum = checksum, cf_alignment = 4\<rparr>)))))))))))))"

definition odc_fields :: "bytes \<Rightarrow> archive_error + cpio_fields" where
  "odc_fields h =
     bindE (bindE (odc_field h 0 59 6) cpio_usize_of) (\<lambda>namesize.
     bindE (odc_field h 0 65 11) (\<lambda>sz. bindE (odc_field h 0 18 6) (\<lambda>mode.
     bindE (odc_field h 0 24 6) (\<lambda>uid. bindE (odc_field h 0 30 6) (\<lambda>gid.
     bindE (odc_field h 0 48 11) (\<lambda>mtime. bindE (odc_field h 0 12 6) (\<lambda>inode.
     bindE (odc_field h 0 36 6) (\<lambda>links. bindE (odc_field h 0 6 6) (\<lambda>dminor.
     bindE (odc_field h 0 42 6) (\<lambda>rminor.
     Inr \<lparr>cf_fixed = ODC_HEADER, cf_namesize = namesize, cf_size = sz, cf_mode = mode, cf_uid = uid,
          cf_gid = gid, cf_mtime = mtime, cf_inode = inode, cf_links = links,
          cf_device = \<lparr>dev_major = 0, dev_minor = dminor\<rparr>,
          cf_referenced = \<lparr>dev_major = 0, dev_minor = rminor\<rparr>,
          cf_checksum = None, cf_alignment = 1\<rparr>))))))))))"

definition binary_fields :: "bytes \<Rightarrow> archive_error + cpio_fields" where
  "binary_fields h =
     (let word = (\<lambda>i. binary_word h i (starts_with h BIN_MAGIC_LE)) in
      bindE (word 10) (\<lambda>namesize.
      bindE (word 11) (\<lambda>size_hi. bindE (word 12) (\<lambda>size_lo.
      bindE (word 3) (\<lambda>mode. bindE (word 4) (\<lambda>uid. bindE (word 5) (\<lambda>gid.
      bindE (word 8) (\<lambda>mtime_hi. bindE (word 9) (\<lambda>mtime_lo.
      bindE (word 2) (\<lambda>inode. bindE (word 6) (\<lambda>links.
      bindE (word 1) (\<lambda>dminor. bindE (word 7) (\<lambda>rminor.
      Inr \<lparr>cf_fixed = 26, cf_namesize = namesize, cf_size = push_bit 16 size_hi OR size_lo,
           cf_mode = mode, cf_uid = uid, cf_gid = gid, cf_mtime = push_bit 16 mtime_hi OR mtime_lo,
           cf_inode = inode, cf_links = links,
           cf_device = \<lparr>dev_major = 0, dev_minor = dminor\<rparr>,
           cf_referenced = \<lparr>dev_major = 0, dev_minor = rminor\<rparr>,
           cf_checksum = None, cf_alignment = 2\<rparr>)))))))))))))"

record parsed_header =
  ph_metadata :: entry_metadata
  ph_size :: nat
  ph_padding :: nat
  ph_checksum :: "32 word option"
  ph_trailer :: bool

definition cpio_metadata :: "cpio_fields \<Rightarrow> bytes \<Rightarrow> entry_metadata" where
  "cpio_metadata f name =
     b_checksum (map_option cpio_sum32 (cf_checksum f))
     (b_devices (Some (cf_device f)) (Some (cf_referenced f))
     (b_inode_and_links (Some (cf_inode f)) (Some (cf_links f))
     (b_times (times_default\<lparr>modified := Some (timestamp_from_seconds (i64_saturate (cf_mtime f)))\<rparr>)
     (b_owner \<lparr>own_uid = Some (cf_uid f), own_gid = Some (cf_gid f), own_user = None, own_group = None\<rparr>
     (b_mode (Some (cf_mode f AND 0xfff))
     (b_size (Some (cf_size f))
     (builder (kind_from_mode (cf_mode f)) (path_from_bytes name))))))))"

definition cpio_padding :: "nat \<Rightarrow> nat \<Rightarrow> nat" where
  "cpio_padding alignment sz =
     (if alignment = 4 then (4 - (sz AND 3)) AND 3 else if alignment = 2 then sz AND 1 else 0)"

definition cpio_parse_header :: "limits \<Rightarrow> bytes \<Rightarrow> archive_error + parsed_header" where
  "cpio_parse_header l h =
     bindE (if cpio_is_newc h then newc_fields h
            else if starts_with h ODC_MAGIC then odc_fields h
            else binary_fields h) (\<lambda>f.
     if exceeds (entry_bytes l) (cf_size f)
     then Inl (cpio_err ErrLimit ''entry exceeds configured size limit'')
     else
       bindE (ok_or (cpio_err ErrMalformed ''truncated pathname'')
                (get_range h (cf_fixed f) (cf_fixed f + cf_namesize f))) (\<lambda>raw.
       bindE (ok_or (cpio_err ErrMalformed ''pathname is not NUL terminated'')
                (strip_suffix raw [0])) (\<lambda>name.
       if usize_max < cf_size f
       then Inl (cpio_err ErrLimit ''entry size exceeds address space'')
       else Inr \<lparr>ph_metadata = cpio_metadata f name, ph_size = cf_size f,
                 ph_padding = cpio_padding (cf_alignment f) (cf_size f),
                 ph_checksum = cf_checksum f, ph_trailer = (name = TRAILER)\<rparr>)))"

end
