(* ===== verification/Oxide_Cpio_Decoder.thy ===== *)
theory Oxide_Cpio_Decoder
  imports Oxide_Cpio_Header
begin

text \<open>
  \<open>CpioDecoder\<close> of \<open>format/cpio.rs\<close>: header buffering in stages, hardlink groups with deferred
  entries, payload checksums, and the recursive \<open>step\<close>. The theory proves that the recursion ends
  and that the decoder satisfies the \<open>archive_decoder\<close> contract.
\<close>

section \<open>State\<close>

datatype cpio_state =
    CpHeader
  | CpData nat nat "32 word option" "32 word" bool
  | CpEndEntry nat "32 word option" "32 word" bool
  | CpDone

datatype hardlink_key = HardlinkKey (hk_major: nat) (hk_minor: nat) (hk_inode: nat)

text \<open>The derived \<open>Ord\<close> of the key, which fixes the iteration order of the \<open>BTreeMap\<close>.\<close>

instantiation hardlink_key :: linorder
begin

definition less_eq_hardlink_key :: "hardlink_key \<Rightarrow> hardlink_key \<Rightarrow> bool" where
  "less_eq_hardlink_key a b \<longleftrightarrow>
     hk_major a < hk_major b \<or> hk_major a = hk_major b \<and>
     (hk_minor a < hk_minor b \<or> hk_minor a = hk_minor b \<and> hk_inode a \<le> hk_inode b)"

definition less_hardlink_key :: "hardlink_key \<Rightarrow> hardlink_key \<Rightarrow> bool" where
  "less_hardlink_key a b \<longleftrightarrow> a \<le> b \<and> \<not> b \<le> (a :: hardlink_key)"

instance
  by standard (auto simp: less_hardlink_key_def less_eq_hardlink_key_def intro: hardlink_key.expand)

end

record hardlink_group =
  hg_expected :: nat
  hg_seen :: nat
  hg_target :: "archive_path option"
  hg_pending :: "entry_metadata list"

datatype queued_event = QEntry entry_metadata | QEndEntry

type_synonym hardlink_map = "(hardlink_key \<times> hardlink_group) list"

text \<open>
  \<open>cd_entry_size\<close> is \<open>size_of::<EntryMetadata>()\<close>, which the compiler fixes and the source does
  not determine; it is a parameter of the decoder.
\<close>

record cpio_decoder =
  cd_limits :: limits
  cd_state :: cpio_state
  cd_header :: bytes
  cd_target :: "nat option"
  cd_entries :: nat
  cd_total :: nat
  cd_hardlinks :: hardlink_map
  cd_queued :: "queued_event list"
  cd_hardlink_metadata :: nat
  cd_entry_size :: nat

definition cpio_decoder_new :: "nat \<Rightarrow> limits \<Rightarrow> cpio_decoder" where
  "cpio_decoder_new entry_size l =
     \<lparr>cd_limits = l, cd_state = CpHeader, cd_header = [], cd_target = None, cd_entries = 0, cd_total = 0,
      cd_hardlinks = [], cd_queued = [], cd_hardlink_metadata = 0, cd_entry_size = entry_size\<rparr>"

definition cpio_probe :: "bytes \<Rightarrow> unit probe_result" where
  "cpio_probe pre =
     (if length pre < 2 then ProbeNeedMore 2
      else if starts_with pre BIN_MAGIC_LE \<or> starts_with pre BIN_MAGIC_BE then ProbeMatch ()
      else if length pre < 6 then ProbeNeedMore 6
      else if starts_with pre NEWC_MAGIC \<or> starts_with pre NEWC_CRC_MAGIC \<or> starts_with pre ODC_MAGIC
      then ProbeMatch ()
      else ProbeNoMatch)"

section \<open>Ordered map operations\<close>

fun bt_insert :: "'k::linorder \<Rightarrow> 'v \<Rightarrow> ('k \<times> 'v) list \<Rightarrow> ('k \<times> 'v) list" where
  "bt_insert k v [] = [(k, v)]"
| "bt_insert k v ((k', v') # m) =
     (if k < k' then (k, v) # (k', v') # m
      else if k = k' then (k, v) # m
      else (k', v') # bt_insert k v m)"

definition bt_remove :: "'k \<Rightarrow> ('k \<times> 'v) list \<Rightarrow> ('k \<times> 'v) list" where
  "bt_remove k m = filter (\<lambda>p. fst p \<noteq> k) m"

section \<open>Hardlink groups\<close>

definition hardlink_metadata :: "entry_metadata \<Rightarrow> archive_path \<Rightarrow> entry_metadata" where
  "hardlink_metadata md target = b_link_target (Some target) (b_size (Some 0) (b_kind KindHardlink md))"

definition queue_entry :: "entry_metadata \<Rightarrow> cpio_decoder \<Rightarrow> cpio_decoder" where
  "queue_entry md s = s\<lparr>cd_queued := cd_queued s @ [QEntry md, QEndEntry]\<rparr>"

definition charge_hardlink_metadata :: "cpio_decoder \<Rightarrow> entry_metadata \<Rightarrow> cpio_decoder \<times> (archive_error + unit)" where
  "charge_hardlink_metadata s md =
     (case Option.bind (checked_add (cd_entry_size s) (length (ap_raw (md_path md))))
             (\<lambda>charge. checked_add (cd_hardlink_metadata s) charge) of
        None \<Rightarrow> (s, Inl (cpio_err ErrLimit ''hardlink metadata accounting overflow''))
      | Some t \<Rightarrow>
          (s\<lparr>cd_hardlink_metadata := t\<rparr>,
           if exceeds (metadata_bytes (cd_limits s)) t
           then Inl (cpio_err ErrLimit ''hardlink metadata exceeds configured limit'') else Inr ()))"

definition group_key :: "entry_metadata \<Rightarrow> hardlink_key" where
  "group_key md =
     (let d = opt_or device_default (md_device md)
      in HardlinkKey (dev_major d) (dev_minor d) (opt_or 0 (md_inode md)))"

text \<open>The records of a group whose first member carries no payload: the first becomes the target.\<close>

fun release_pending :: "entry_metadata list \<Rightarrow> entry_metadata list" where
  "release_pending [] = []"
| "release_pending (m # ms) = m # map (\<lambda>k. hardlink_metadata k (md_path m)) ms"

definition join_group ::
    "cpio_decoder \<Rightarrow> hardlink_key \<Rightarrow> hardlink_group \<Rightarrow> entry_metadata \<Rightarrow> nat \<Rightarrow>
     cpio_decoder \<times> (archive_error + entry_metadata option)" where
  "join_group s key g md sz =
     (if sz \<noteq> 0 then
        if hg_target g \<noteq> None
        then (s, Inl (cpio_err ErrMalformed ''hardlink group contains multiple payload records''))
        else
          (fold (\<lambda>m s. queue_entry (hardlink_metadata m (md_path md)) s) (hg_pending g)
             (s\<lparr>cd_hardlinks := bt_insert key (g\<lparr>hg_target := Some (md_path md), hg_pending := []\<rparr>)
                                (cd_hardlinks s)\<rparr>),
           Inr (Some md))
      else
        (case hg_target g of
           Some target \<Rightarrow>
             (s\<lparr>cd_hardlinks := bt_insert key g (cd_hardlinks s)\<rparr>, Inr (Some (hardlink_metadata md target)))
         | None \<Rightarrow>
             let pending = hg_pending g @ [md] in
             if hg_seen g = hg_expected g then
               (fold queue_entry (release_pending pending)
                  (s\<lparr>cd_hardlinks := bt_insert key
                       (g\<lparr>hg_target := Some (md_path (hd pending)), hg_pending := []\<rparr>) (cd_hardlinks s)\<rparr>),
                Inr None)
             else (s\<lparr>cd_hardlinks := bt_insert key (g\<lparr>hg_pending := pending\<rparr>) (cd_hardlinks s)\<rparr>, Inr None)))"

definition classify_hardlink ::
    "cpio_decoder \<Rightarrow> entry_metadata \<Rightarrow> nat \<Rightarrow> cpio_decoder \<times> (archive_error + entry_metadata option)" where
  "classify_hardlink s md sz =
     (let links = opt_or 1 (md_links md) in
      if md_kind md \<noteq> KindFile \<or> links \<le> 1 then (s, Inr (Some md))
      else
        (case charge_hardlink_metadata s md of
           (s1, Inl e) \<Rightarrow> (s1, Inl e)
         | (s1, Inr _) \<Rightarrow>
             let key = group_key md;
                 g = opt_or \<lparr>hg_expected = links, hg_seen = 0, hg_target = None, hg_pending = []\<rparr>
                       (map_of (cd_hardlinks s1) key);
                 s2 = s1\<lparr>cd_hardlinks := bt_remove key (cd_hardlinks s1)\<rparr> in
             if hg_expected g \<noteq> links
             then (s2, Inl (cpio_err ErrMalformed ''hardlink group disagrees on link count''))
             else
               (case checked_add (hg_seen g) 1 of
                  None \<Rightarrow> (s2, Inl (cpio_err ErrLimit ''hardlink count overflow''))
                | Some seen \<Rightarrow>
                    if hg_expected g < seen
                    then (s2, Inl (cpio_err ErrMalformed ''hardlink group has more records than nlink''))
                    else join_group s2 key (g\<lparr>hg_seen := seen\<rparr>) md sz)))"

text \<open>At the trailer every group without a target releases its pending records, in key order.\<close>

definition unresolved :: "hardlink_group \<Rightarrow> bool" where
  "unresolved g \<longleftrightarrow> hg_target g = None \<and> hg_pending g \<noteq> []"

definition resolve_group :: "hardlink_group \<Rightarrow> hardlink_group" where
  "resolve_group g =
     (if unresolved g then g\<lparr>hg_target := Some (md_path (hd (hg_pending g))), hg_pending := []\<rparr> else g)"

definition resolve_incomplete_hardlinks :: "cpio_decoder \<Rightarrow> cpio_decoder" where
  "resolve_incomplete_hardlinks s =
     (let queued = concat (map (\<lambda>(k, g). if unresolved g then release_pending (hg_pending g) else [])
                     (cd_hardlinks s)) in
      fold queue_entry queued
        (s\<lparr>cd_hardlinks := map (\<lambda>(k, g). (k, resolve_group g)) (cd_hardlinks s)\<rparr>))"

fun queued_decode_event :: "queued_event \<Rightarrow> decode_event" where
  "queued_decode_event (QEntry md) = EvEntry md"
| "queued_decode_event QEndEntry = EvEndEntry"

section \<open>Buffering a header\<close>

definition default_target :: "bytes \<Rightarrow> nat" where
  "default_target h =
     (if length h < 2 then 2
      else if starts_with h BIN_MAGIC_LE \<or> starts_with h BIN_MAGIC_BE then 26
      else if length h < 6 then 6
      else if starts_with h ODC_MAGIC then ODC_HEADER
      else NEWC_HEADER)"

text \<open>
  One round of the header loop: fill up to the current target, then ask how long the header is.
  \<open>rest\<close> is the input not yet consumed. The result says whether the header is complete.
\<close>

function fill_header :: "cpio_decoder \<Rightarrow> bytes \<Rightarrow> nat \<Rightarrow> end_of_input \<Rightarrow>
    cpio_decoder \<times> (archive_error + nat \<times> bool)" where
  "fill_header s rest consumed e =
     (let target = opt_or (default_target (cd_header s)) (cd_target s);
          count = (if length (cd_header s) < target
                   then min (target - length (cd_header s)) (length rest) else 0);
          s1 = s\<lparr>cd_header := cd_header s @ take count rest\<rparr> in
      if length (cd_header s1) < target then
        (if e = End then (s1, Inl (cpio_err ErrMalformed ''truncated entry header''))
         else (s1, Inr (consumed + count, False)))
      else
        (case target_from_prefix (cd_limits s) (cd_header s1) of
           Inl err \<Rightarrow> (s1, Inl err)
         | Inr next \<Rightarrow>
             let s2 = s1\<lparr>cd_target := next\<rparr> in
             if next \<noteq> None \<and> length (cd_header s1) < the next then
               (if drop count rest = [] then (s2, Inr (consumed + count, False))
                else fill_header s2 (drop count rest) (consumed + count) e)
             else (s2, Inr (consumed + count, True))))"
  by pat_completeness auto
termination
  by (relation "measure (\<lambda>(s, rest, _, _). 2 * length rest +
        (if cd_target s \<noteq> None \<and> length (cd_header s) < the (cd_target s) then 0 else 1))")
    (auto simp: min_def split: if_splits)

declare fill_header.simps [simp del]

lemma fill_header_ok:
  assumes "fill_header s rest c e = (s', Inr (c', done))"
  shows "\<exists>k. c' = c + k \<and> k \<le> length rest \<and> cd_header s' = cd_header s @ take k rest \<and>
    s' = s\<lparr>cd_header := cd_header s', cd_target := cd_target s'\<rparr> \<and>
    (\<not> done \<longrightarrow> k = length rest) \<and>
    (done \<longrightarrow> target_from_prefix (cd_limits s) (cd_header s') = Inr (cd_target s') \<and>
       (cd_target s' = None \<or> the (cd_target s') \<le> length (cd_header s')))"
  using assms
proof (induction s rest c e arbitrary: s' c' "done" rule: fill_header.induct)
  case (1 s rest consumed e)
  define target where "target = opt_or (default_target (cd_header s)) (cd_target s)"
  define count where "count = (if length (cd_header s) < target
                   then min (target - length (cd_header s)) (length rest) else 0)"
  define s1 where "s1 = s\<lparr>cd_header := cd_header s @ take count rest\<rparr>"
  have le: "count \<le> length rest" by (simp add: count_def)
  have short: "length (cd_header s1) < target \<Longrightarrow> count = length rest"
    by (auto simp: s1_def count_def min_def split: if_splits)
  note eq = "1.prems" [unfolded fill_header.simps [of s rest] Let_def, folded target_def, folded count_def, folded s1_def]
  show ?case
  proof (cases "length (cd_header s1) < target")
    case True
    with eq short [OF True] show ?thesis
      by (cases s) (auto simp: s1_def split: if_splits)
  next
    case False
    with eq obtain nxt where nxt: "target_from_prefix (cd_limits s) (cd_header s1) = Inr nxt"
      by (auto split: sum.splits)
    show ?thesis
    proof (cases "nxt \<noteq> None \<and> length (cd_header s1) < the nxt \<and> drop count rest \<noteq> []")
      case True
      with eq False nxt have rec: "fill_header (s1\<lparr>cd_target := nxt\<rparr>) (drop count rest) (consumed + count) e =
          (s', Inr (c', done))" by simp
      have "\<exists>k. c' = consumed + count + k \<and> k \<le> length (drop count rest) \<and>
        cd_header s' = cd_header (s1\<lparr>cd_target := nxt\<rparr>) @ take k (drop count rest) \<and>
        s' = s1\<lparr>cd_target := nxt, cd_header := cd_header s', cd_target := cd_target s'\<rparr> \<and>
        (\<not> done \<longrightarrow> k = length (drop count rest)) \<and>
        (done \<longrightarrow> target_from_prefix (cd_limits (s1\<lparr>cd_target := nxt\<rparr>)) (cd_header s') = Inr (cd_target s') \<and>
           (cd_target s' = None \<or> the (cd_target s') \<le> length (cd_header s')))"
        by (rule "1.IH" [OF target_def count_def s1_def False nxt refl _ _ rec]) (use True in auto)
      then obtain k where "c' = consumed + count + k" "k \<le> length (drop count rest)"
        "cd_header s' = cd_header s1 @ take k (drop count rest)"
        "s' = s1\<lparr>cd_target := nxt, cd_header := cd_header s', cd_target := cd_target s'\<rparr>"
        "\<not> done \<longrightarrow> k = length (drop count rest)"
        "done \<longrightarrow> target_from_prefix (cd_limits s1) (cd_header s') = Inr (cd_target s') \<and>
           (cd_target s' = None \<or> the (cd_target s') \<le> length (cd_header s'))"
        by (elim exE conjE) simp
      then show ?thesis using le
        by (intro exI [of _ "count + k"]) (auto simp: s1_def take_add)
    next
      case stop: False
      then show ?thesis using eq False nxt le
        by (cases s) (auto simp: s1_def split: if_splits)
    qed
  qed
qed

section \<open>The state machine\<close>

text \<open>
  What follows a complete header: \<open>None\<close> is the trailer, \<open>Some m\<close> an entry, where \<open>m\<close> is
  \<open>None\<close> while the entry waits for the rest of its hardlink group.
\<close>

definition cpio_begin :: "cpio_decoder \<Rightarrow> cpio_decoder \<times> (archive_error + entry_metadata option option)" where
  "cpio_begin s =
     (case cpio_parse_header (cd_limits s) (cd_header s) of
        Inl e \<Rightarrow> (s, Inl e)
      | Inr p \<Rightarrow>
          let s1 = s\<lparr>cd_header := [], cd_target := None\<rparr> in
          if ph_trailer p then ((resolve_incomplete_hardlinks s1)\<lparr>cd_state := CpDone\<rparr>, Inr None)
          else
            (case checked_add (cd_entries s1) 1 of
               None \<Rightarrow> (s1, Inl (cpio_err ErrLimit ''entry count overflow''))
             | Some n \<Rightarrow>
                 let s2 = s1\<lparr>cd_entries := n\<rparr> in
                 if exceeds (max_entries (cd_limits s2)) n
                 then (s2, Inl (cpio_err ErrLimit ''entry count exceeds configured limit''))
                 else
                   (case classify_hardlink s2 (ph_metadata p) (ph_size p) of
                      (s3, Inl e) \<Rightarrow> (s3, Inl e)
                    | (s3, Inr m) \<Rightarrow>
                        (s3\<lparr>cd_state := CpData (ph_size p) (ph_padding p) (ph_checksum p) 0 (m \<noteq> None)\<rparr>,
                         Inr (Some m)))))"

definition pop_queued :: "cpio_decoder \<Rightarrow> nat \<Rightarrow> (cpio_decoder \<times> decode_step) option" where
  "pop_queued s consumed =
     (case cd_queued s of
        [] \<Rightarrow> None
      | ev # q \<Rightarrow> Some (s\<lparr>cd_queued := q\<rparr>, dstep consumed (queued_decode_event ev)))"

definition add_consumed :: "nat \<Rightarrow> 's \<times> (archive_error + decode_step) \<Rightarrow> 's \<times> (archive_error + decode_step)" where
  "add_consumed k r =
     (case r of
        (s, Inl e) \<Rightarrow> (s, Inl e)
      | (s, Inr d) \<Rightarrow>
          (s, bindE (ok_or (cpio_err ErrLimit ''decoder progress overflow'') (checked_add (ds_consumed d) k))
                (\<lambda>n. Inr (d\<lparr>ds_consumed := n\<rparr>))))"

definition cpio_step_data ::
    "cpio_decoder \<Rightarrow> nat \<Rightarrow> nat \<Rightarrow> 32 word option \<Rightarrow> 32 word \<Rightarrow> bool \<Rightarrow> bytes \<Rightarrow> end_of_input \<Rightarrow>
     cpio_decoder \<times> (archive_error + decode_step)" where
  "cpio_step_data s remaining padding expected actual emit_end input e =
     (if input = [] then
        (if e = End then (s, Inl (cpio_err ErrMalformed ''truncated entry data''))
         else (s, Inr (dstep 0 EvNeedInput)))
      else
        let count = min (length input) (min remaining usize_max); bs = take count input in
        (case checked_add (cd_total s) count of
           None \<Rightarrow> (s, Inl (cpio_err ErrLimit ''decoded byte count overflow''))
         | Some t \<Rightarrow>
             let s1 = s\<lparr>cd_total := t\<rparr> in
             if exceeds (decoded_total (cd_limits s)) t
             then (s1, Inl (cpio_err ErrLimit ''decoded total exceeds configured limit''))
             else (s1\<lparr>cd_state := CpData (remaining - count) padding expected (cpio_sum actual bs) emit_end\<rparr>,
                   Inr (dstep count (EvData bs)))))"

lemma parse_header_nonempty:
  assumes "cpio_parse_header l h = Inr p"
  shows "h \<noteq> []"
proof
  assume "h = []"
  with assms obtain a b raw name where "get_range ([] :: bytes) a b = Some raw" "strip_suffix raw [0] = Some name"
    by (auto simp: cpio_parse_header_def bindE_Inr_iff split: if_splits)
  then show False by (auto simp: get_range_def slice_def strip_suffix_def ends_with_def split: if_splits)
qed

lemma fold_queue_frame:
  "cd_header (fold (\<lambda>m. queue_entry (f m)) ms s) = cd_header s"
  "cd_limits (fold (\<lambda>m. queue_entry (f m)) ms s) = cd_limits s"
  "cd_state (fold (\<lambda>m. queue_entry (f m)) ms s) = cd_state s"
  "cd_total (fold (\<lambda>m. queue_entry (f m)) ms s) = cd_total s"
  "cd_target (fold (\<lambda>m. queue_entry (f m)) ms s) = cd_target s"
  by (induction ms arbitrary: s) (simp_all add: queue_entry_def)

lemmas fold_queue_frame' = fold_queue_frame [of "\<lambda>m. m"]

lemma classify_frame:
  assumes "classify_hardlink s md sz = (s', r)"
  shows "cd_header s' = cd_header s" "cd_limits s' = cd_limits s" "cd_state s' = cd_state s"
    "cd_total s' = cd_total s" "cd_target s' = cd_target s"
  using assms
  by (auto simp: classify_hardlink_def charge_hardlink_metadata_def join_group_def Let_def fold_queue_frame
      fold_queue_frame' split: if_splits option.splits prod.splits sum.splits)

lemma cpio_begin_frame:
  assumes "cpio_begin s = (s', Inr m)"
  shows "cd_header s \<noteq> []" "cd_header s' = []" "cd_limits s' = cd_limits s" "cd_total s' = cd_total s"
    "cd_target s' = None"
  using assms
  by (auto simp: cpio_begin_def Let_def resolve_incomplete_hardlinks_def fold_queue_frame'
      dest: parse_header_nonempty classify_frame split: sum.splits prod.splits option.splits if_splits)

fun cpio_rank :: "cpio_state \<Rightarrow> nat" where
  "cpio_rank (CpData _ _ _ _ _) = 2"
| "cpio_rank (CpEndEntry _ _ _ _) = 1"
| "cpio_rank _ = 0"

lemma header_consumes:
  assumes "fill_header s input 0 e = (s1, Inr (c, True))" and "cpio_begin s1 = (s2, Inr m)"
  shows "length (cd_header s2) + (length input - c) < length (cd_header s) + length input"
proof -
  obtain k where k: "c = k" "k \<le> length input" "cd_header s1 = cd_header s @ take k input"
    using fill_header_ok [OF assms(1)] by auto
  have "cd_header s2 = []" "cd_header s1 \<noteq> []" using cpio_begin_frame [OF assms(2)] by auto
  with k show ?thesis by (cases "cd_header s") auto
qed

lemma header_consumes_eqs:
  "(s1, Inr b) = fill_header s input 0 e \<Longrightarrow> (c, True) = b \<Longrightarrow> (s2, Inr m) = cpio_begin s1 \<Longrightarrow>
   length (cd_header s2) + (length input - c) < length (cd_header s) + length input"
  using header_consumes [of s input e s1 c s2 m] by simp

function cpio_step :: "cpio_decoder decoder_step" where
  "cpio_step s input e =
     (case (if cd_state s = CpHeader \<or> cd_state s = CpDone then pop_queued s 0 else None) of
        Some (s', d) \<Rightarrow> (s', Inr d)
      | None \<Rightarrow>
          (case cd_state s of
             CpDone \<Rightarrow>
               if input \<noteq> []
               then (s, Inl (cpio_err ErrProtocol ''input supplied after archive completion''))
               else (s, Inr (dstep 0 EvDone))
           | CpData remaining padding expected actual emit_end \<Rightarrow>
               if remaining = 0
               then cpio_step (s\<lparr>cd_state := CpEndEntry padding expected actual emit_end\<rparr>) input e
               else cpio_step_data s remaining padding expected actual emit_end input e
           | CpEndEntry padding expected actual emit_end \<Rightarrow>
               if length input < padding then
                 (if e = End then (s, Inl (cpio_err ErrMalformed ''truncated entry padding''))
                  else (s, Inr (dstep 0 EvNeedInput)))
               else if expected \<noteq> None \<and> expected \<noteq> Some actual
               then (s, Inl (cpio_err ErrIntegrity ''crc payload checksum mismatch''))
               else
                 let s1 = s\<lparr>cd_state := CpHeader\<rparr> in
                 if emit_end then (s1, Inr (dstep padding EvEndEntry))
                 else add_consumed padding (cpio_step s1 (drop padding input) e)
           | CpHeader \<Rightarrow>
               (case fill_header s input 0 e of
                  (s1, Inl err) \<Rightarrow> (s1, Inl err)
                | (s1, Inr (consumed, complete)) \<Rightarrow>
                    if \<not> complete then (s1, Inr (dstep consumed EvNeedInput))
                    else
                      (case cpio_begin s1 of
                         (s2, Inl err) \<Rightarrow> (s2, Inl err)
                       | (s2, Inr None) \<Rightarrow>
                           (case pop_queued s2 consumed of
                              Some (s3, d) \<Rightarrow> (s3, Inr d)
                            | None \<Rightarrow> (s2, Inr (dstep consumed EvDone)))
                       | (s2, Inr (Some (Some md))) \<Rightarrow> (s2, Inr (dstep consumed (EvEntry md)))
                       | (s2, Inr (Some None)) \<Rightarrow>
                           add_consumed consumed (cpio_step s2 (drop consumed input) e)))))"
  by pat_completeness auto

termination
proof (relation "measures [\<lambda>(s, input, e). length (cd_header s) + length input,
    \<lambda>(s, input, e). cpio_rank (cd_state s)]", goal_cases)
  case 1
  then show ?case by simp
next
  case (2 s input e)
  then show ?case by simp (erule (2) header_consumes_eqs)
qed (simp_all, linarith)

declare cpio_step.simps [simp del]

section \<open>The decoder contract\<close>

definition header_partial :: "cpio_decoder \<Rightarrow> bool" where
  \<comment> \<open>the buffered header is shorter than the current target\<close>
  "header_partial s \<longleftrightarrow> length (cd_header s) < opt_or 2 (cd_target s)"

definition cpio_inv :: "cpio_decoder \<Rightarrow> bool" where
  "cpio_inv s \<longleftrightarrow>
     (if cd_state s = CpHeader then header_partial s else cd_header s = [] \<and> cd_target s = None) \<and>
     (\<forall>r p x a m. cd_state s = CpData r p x a m \<longrightarrow> r \<le> u64_max)"

definition cpio_measure :: "cpio_decoder \<Rightarrow> nat" where
  "cpio_measure s = 3 * length (cd_queued s) + cpio_rank (cd_state s)"

definition cpio_allowance :: "cpio_decoder \<Rightarrow> nat option" where
  "cpio_allowance s = map_option (\<lambda>l. l - cd_total s) (decoded_total (cd_limits s))"

lemma header_partial_empty [simp]:
  "cd_header s = [] \<Longrightarrow> cd_target s = None \<Longrightarrow> header_partial s"
  by (simp add: header_partial_def)

lemma cpio_inv_new [simp]: "cpio_inv (cpio_decoder_new n l)"
  by (simp add: cpio_inv_def cpio_decoder_new_def)

lemma target_from_prefix_Some:
  assumes "target_from_prefix l h = Inr t" and "2 \<le> length h"
  shows "\<exists>n. t = Some n"
  using assms
  by (auto simp: target_from_prefix_def cpio_full_target_def bindE_Inr_iff split: if_splits)

lemma default_target_short: "length h < 2 \<Longrightarrow> default_target h = 2"
  by (simp add: default_target_def)

lemma fill_header_partial:
  assumes "fill_header s rest c e = (s', Inr (c', complete))" and "header_partial s"
  shows "(\<not> complete \<longrightarrow> header_partial s') \<and> (complete \<or> e = End \<longrightarrow> c < c')"
  using assms
proof (induction s rest c e arbitrary: s' c' complete rule: fill_header.induct)
  case (1 s rest consumed e)
  define target where "target = opt_or (default_target (cd_header s)) (cd_target s)"
  define count where "count = (if length (cd_header s) < target
                   then min (target - length (cd_header s)) (length rest) else 0)"
  define s1 where "s1 = s\<lparr>cd_header := cd_header s @ take count rest\<rparr>"
  have t: "target = opt_or 2 (cd_target s)" "length (cd_header s) < target"
    using "1.prems"(2) default_target_short by (cases "cd_target s"; simp add: target_def header_partial_def)+
  note eq = "1.prems"(1) [unfolded fill_header.simps [of s rest] Let_def, folded target_def, folded count_def, folded s1_def]
  show ?case
  proof (cases "length (cd_header s1) < target")
    case True
    with eq t show ?thesis by (auto simp: s1_def header_partial_def split: if_splits)
  next
    case False
    with eq obtain nxt where nxt: "target_from_prefix (cd_limits s) (cd_header s1) = Inr nxt"
      by (auto split: sum.splits)
    have pos: "0 < count" using False t by (auto simp: s1_def count_def)
    show ?thesis
    proof (cases "nxt \<noteq> None \<and> length (cd_header s1) < the nxt \<and> drop count rest \<noteq> []")
      case True
      with eq False nxt have rec: "fill_header (s1\<lparr>cd_target := nxt\<rparr>) (drop count rest) (consumed + count) e =
          (s', Inr (c', complete))" by simp
      have "header_partial (s1\<lparr>cd_target := nxt\<rparr>)" using True by (auto simp: header_partial_def)
      then have "(\<not> complete \<longrightarrow> header_partial s') \<and> (complete \<or> e = End \<longrightarrow> consumed + count < c')"
        by (intro "1.IH" [OF target_def count_def s1_def False nxt refl _ _ rec]) (use True in auto)
      then show ?thesis by auto
    next
      case stop: False
      then show ?thesis using eq False nxt pos
        by (auto simp: header_partial_def split: if_splits)
    qed
  qed
qed

lemma join_group_None:
  "join_group s key g md sz = (s', Inr None) \<Longrightarrow> sz = 0"
  by (auto simp: join_group_def split: if_splits)

lemma classify_None: "classify_hardlink s md sz = (s', Inr None) \<Longrightarrow> sz = 0"
  by (auto simp: classify_hardlink_def Let_def dest: join_group_None
      split: if_splits prod.splits sum.splits option.splits)

lemma parse_header_size: "cpio_parse_header l h = Inr p \<Longrightarrow> ph_size p \<le> u64_max"
  by (auto simp: cpio_parse_header_def bindE_Inr_iff split: if_splits)

lemma cpio_begin_state:
  assumes "cpio_begin s = (s', Inr m)"
  shows "cpio_inv s' \<and>
    (case m of
       None \<Rightarrow> cd_state s' = CpDone
     | Some None \<Rightarrow> \<exists>p x. cd_state s' = CpData 0 p x 0 False
     | Some (Some md) \<Rightarrow> \<exists>r p x. cd_state s' = CpData r p x 0 True)"
proof -
  have "cd_header s' = []" "cd_target s' = None" using cpio_begin_frame [OF assms] by auto
  moreover obtain p where p: "cpio_parse_header (cd_limits s) (cd_header s) = Inr p"
    using assms by (auto simp: cpio_begin_def split: sum.splits)
  ultimately show ?thesis
    using assms parse_header_size [OF p]
    by (auto simp: cpio_begin_def cpio_inv_def Let_def dest: classify_None
        split: prod.splits sum.splits option.splits if_splits)
qed

definition cpio_ok :: "cpio_decoder \<Rightarrow> bytes \<Rightarrow> cpio_decoder \<Rightarrow> decode_step \<Rightarrow> bool" where
  "cpio_ok s input s' d \<longleftrightarrow>
     cpio_inv s' \<and> ds_consumed d \<le> length input \<and> ds_produced d = 0 \<and> cd_limits s' = cd_limits s \<and>
     (case ds_event d of
        EvData bs \<Rightarrow> (\<exists>r p x a m. cd_state s = CpData r p x a m \<and> r \<noteq> 0) \<and>
          bs = take (ds_consumed d) input \<and> bs \<noteq> [] \<and>
          cd_total s' = cd_total s + length bs \<and> \<not> exceeds (decoded_total (cd_limits s)) (cd_total s')
      | _ \<Rightarrow> cd_total s' = cd_total s)"

definition cpio_live :: "cpio_decoder \<Rightarrow> cpio_decoder \<Rightarrow> decode_step \<Rightarrow> bool" where
  "cpio_live s s' d \<longleftrightarrow> ds_event d = EvDone \<or> 0 < ds_consumed d \<or> cpio_measure s' < cpio_measure s"

lemma pop_queued_ok:
  assumes "pop_queued s c = Some (s', d)" and "cpio_inv s" and "c \<le> length input"
  shows "cpio_ok s input s' d \<and> ds_consumed d = c \<and> cpio_measure s' < cpio_measure s"
proof -
  from assms(1) obtain ev q where q: "cd_queued s = ev # q" "s' = s\<lparr>cd_queued := q\<rparr>"
    "d = dstep c (queued_decode_event ev)"
    by (auto simp: pop_queued_def split: list.splits)
  with assms(2,3) show ?thesis
    by (cases ev) (auto simp: cpio_ok_def cpio_inv_def header_partial_def cpio_measure_def)
qed

lemma add_consumed_Inr:
  "add_consumed k r = (s', Inr d) \<longleftrightarrow>
   (\<exists>d0. r = (s', Inr d0) \<and> d = d0\<lparr>ds_consumed := ds_consumed d0 + k\<rparr> \<and> ds_consumed d0 + k \<le> u64_max)"
  by (auto simp: add_consumed_def bindE_Inr_iff split: prod.splits sum.splits)

lemma cpio_step_data_ok:
  assumes "cpio_step_data s r p x a m input e = (s', Inr d)" and "cpio_inv s"
    and "cd_state s = CpData r p x a m" and "r \<noteq> 0"
  shows "cpio_ok s input s' d \<and> (e = End \<longrightarrow> 0 < ds_consumed d)"
  using assms
  by (auto simp: cpio_step_data_def cpio_ok_def cpio_inv_def Let_def u64_max_def
      split: if_splits option.splits)

lemma cpio_ok_frame:
  assumes "cpio_ok s1 (drop k input) s' d" and "cpio_live s1 s' d \<or> \<not> b" and "k \<le> length input"
    and "\<forall>r p x a m. cd_state s1 = CpData r p x a m \<longrightarrow> r = 0"
    and "cd_limits s1 = cd_limits s" "cd_total s1 = cd_total s"
    and "cpio_measure s1 \<le> cpio_measure s \<or> 0 < k"
  shows "cpio_ok s input s' (d\<lparr>ds_consumed := ds_consumed d + k\<rparr>) \<and>
    (b \<longrightarrow> cpio_live s s' (d\<lparr>ds_consumed := ds_consumed d + k\<rparr>))"
proof -
  have "\<forall>bs. ds_event d \<noteq> EvData bs" using assms(1,4) by (auto simp: cpio_ok_def)
  then show ?thesis
    using assms by (auto simp: cpio_ok_def cpio_live_def split: decode_event.splits)
qed

lemma cpio_step_header_ok:
  assumes "fill_header s input 0 e = (s1, Inr (c, complete))" and "cpio_inv s" and "cd_state s = CpHeader"
  shows "c \<le> length input" "cd_limits s1 = cd_limits s" "cd_total s1 = cd_total s" "cd_state s1 = CpHeader"
    "\<not> complete \<Longrightarrow> cpio_inv s1" "complete \<or> e = End \<Longrightarrow> 0 < c"
proof -
  note ok = fill_header_ok [OF assms(1)]
  then obtain t h where s1: "s1 = s\<lparr>cd_header := h, cd_target := t\<rparr>" by blast
  from ok show "c \<le> length input" by auto
  from s1 show "cd_limits s1 = cd_limits s" "cd_total s1 = cd_total s" "cd_state s1 = CpHeader"
    using assms(3) by simp_all
  have "header_partial s" using assms(2,3) by (simp add: cpio_inv_def)
  from fill_header_partial [OF assms(1) this]
  show "\<not> complete \<Longrightarrow> cpio_inv s1" "complete \<or> e = End \<Longrightarrow> 0 < c"
    using assms(3) s1 by (auto simp: cpio_inv_def)
qed

lemma cpio_step_ok:
  assumes "cpio_step s input e = (s', Inr d)" and "cpio_inv s"
  shows "cpio_ok s input s' d \<and> (e = End \<longrightarrow> cpio_live s s' d)"
  using assms
proof (induction s input e arbitrary: s' d rule: cpio_step.induct)
  case (1 s input e)
  let ?q = "if cd_state s = CpHeader \<or> cd_state s = CpDone then pop_queued s 0 else None"
  show ?case
  proof (cases ?q)
    case (Some y)
    then obtain t dq where y: "pop_queued s 0 = Some (t, dq)" by (cases y) (auto split: if_splits)
    with Some "1.prems"(1) have "t = s'" "dq = d" by (auto simp: cpio_step.simps [of s] split: if_splits)
    with pop_queued_ok [OF y "1.prems"(2), of input] show ?thesis by (auto simp: cpio_live_def)
  next
    case None
    note step = "1.prems"(1) [unfolded cpio_step.simps [of s] None option.case]
    show ?thesis
    proof (cases "cd_state s")
      case CpDone
      with step "1.prems"(2) show ?thesis by (auto simp: cpio_ok_def cpio_live_def split: if_splits)
    next
      case st: (CpData r p x a m)
      show ?thesis
      proof (cases "r = 0")
        case False
        with step st have "cpio_step_data s r p x a m input e = (s', Inr d)" by simp
        from cpio_step_data_ok [OF this "1.prems"(2) st False] show ?thesis by (auto simp: cpio_live_def)
      next
        case True
        let ?s = "s\<lparr>cd_state := CpEndEntry p x a m\<rparr>"
        have "cpio_step ?s input e = (s', Inr d)" using step st True by simp
        moreover have "cpio_inv ?s" using "1.prems"(2) st by (simp add: cpio_inv_def)
        ultimately have "cpio_ok ?s input s' d \<and> (e = End \<longrightarrow> cpio_live ?s s' d)"
          using "1.IH"(2) [OF None st True] by blast
        with cpio_ok_frame [of ?s 0 input s' d "e = End" s] st show ?thesis by (auto simp: cpio_measure_def)
      qed
    next
      case st: (CpEndEntry p x a m)
      let ?s = "s\<lparr>cd_state := CpHeader\<rparr>"
      have inv: "cpio_inv ?s" using "1.prems"(2) st by (simp add: cpio_inv_def)
      show ?thesis
      proof (cases "length input < p \<or> m")
        case True
        with step st inv "1.prems"(2) show ?thesis
          by (auto simp: cpio_ok_def cpio_live_def cpio_measure_def split: if_splits)
      next
        case False
        with step st have ck: "\<not> (x \<noteq> None \<and> x \<noteq> Some a)"
          and "add_consumed p (cpio_step ?s (drop p input) e) = (s', Inr d)"
          by (auto simp: Let_def split: if_splits)
        then obtain d0 where d0: "cpio_step ?s (drop p input) e = (s', Inr d0)"
          "d = d0\<lparr>ds_consumed := ds_consumed d0 + p\<rparr>"
          by (auto simp: add_consumed_Inr)
        have "cpio_ok ?s (drop p input) s' d0 \<and> (e = End \<longrightarrow> cpio_live ?s s' d0)"
          using "1.IH"(3) [OF None st _ ck refl _ d0(1) inv] False by blast
        with cpio_ok_frame [of ?s p input s' d0 "e = End" s] st d0(2) False show ?thesis
          by (auto simp: cpio_measure_def)
      qed
    next
      case st: CpHeader
      with step obtain s1 c complete where f: "fill_header s input 0 e = (s1, Inr (c, complete))"
        by (auto split: prod.splits sum.splits)
      note fh = cpio_step_header_ok [OF f "1.prems"(2) st]
      show ?thesis
      proof (cases complete)
        case False
        with step st f fh show ?thesis by (auto simp: cpio_ok_def cpio_live_def)
      next
        case True
        with step st f obtain s2 m where b: "cpio_begin s1 = (s2, Inr m)"
          by (auto split: prod.splits sum.splits)
        note fr = cpio_begin_frame [OF b] and bs = cpio_begin_state [OF b]
        have pos: "0 < c" using fh True by simp
        consider (trailer) "m = None" | (entry) md where "m = Some (Some md)" | (wait) "m = Some None"
          by (cases m; cases "the m") auto
        then show ?thesis
        proof cases
          case trailer
          show ?thesis
          proof (cases "pop_queued s2 c")
            case None
            with step st f True b trailer bs fr fh show ?thesis
              by (auto simp: cpio_ok_def cpio_live_def)
          next
            case (Some y)
            with step st f True b trailer have "pop_queued s2 c = Some (s', d)" by (cases y) auto
            from pop_queued_ok [OF this _ fh(1)] bs fr fh pos trailer show ?thesis
              by (auto simp: cpio_ok_def cpio_live_def split: decode_event.splits)
          qed
        next
          case (entry md)
          with step st f True b bs fr fh pos show ?thesis by (auto simp: cpio_ok_def cpio_live_def)
        next
          case wait
          with step st f True b have "add_consumed c (cpio_step s2 (drop c input) e) = (s', Inr d)" by simp
          then obtain d0 where d0: "cpio_step s2 (drop c input) e = (s', Inr d0)"
            "d = d0\<lparr>ds_consumed := ds_consumed d0 + c\<rparr>"
            by (auto simp: add_consumed_Inr)
          have "cpio_ok s2 (drop c input) s' d0 \<and> (e = End \<longrightarrow> cpio_live s2 s' d0)"
            by (rule "1.IH"(1) [OF None st f [symmetric] refl refl _ b [symmetric] refl wait refl d0(1)])
              (use True bs wait in auto)
          with cpio_ok_frame [of s2 c input s' d0 "e = End" s] bs wait fr fh pos d0(2) show ?thesis
            by auto
        qed
      qed
    qed
  qed
qed

interpretation cpio_dec: archive_decoder cpio_step cpio_inv cpio_measure cpio_allowance
proof unfold_locales
  fix s input e s' d r
  assume "cpio_inv s" "cpio_step s input e = (s', Inr d)" "cpio_allowance s = Some r"
  then show "\<exists>r'. cpio_allowance s' = Some r' \<and>
      length (case ds_event d of EvData bs \<Rightarrow> bs | _ \<Rightarrow> []) + r' \<le> r"
    using cpio_step_ok [of s input e s' d]
    by (auto simp: cpio_allowance_def cpio_ok_def split: decode_event.splits)
qed (auto dest!: cpio_step_ok simp: cpio_ok_def cpio_live_def)

end
