(* ===== verification/Oxide_Cpio_Chunking.thy ===== *)
theory Oxide_Cpio_Chunking
  imports Oxide_Cpio_Decoder
begin

text \<open>
  The cpio decoder satisfies the law of \<open>chunked_decoder\<close>, although one call of its \<open>step\<close> may
  work through several records and recurse: cutting the archive into chunks changes neither the
  trace nor the outcome.
\<close>

section \<open>Splitting the header buffer\<close>

lemma fill_header_shift:
  "fill_header s rest (c + k) e =
     (case fill_header s rest c e of
        (t, Inl err) \<Rightarrow> (t, Inl err) | (t, Inr (n, b)) \<Rightarrow> (t, Inr (n + k, b)))"
proof (induction s rest c e rule: fill_header.induct)
  case (1 s rest consumed e)
  define target where "target = opt_or (default_target (cd_header s)) (cd_target s)"
  define count where "count = (if length (cd_header s) < target
                   then min (target - length (cd_header s)) (length rest) else 0)"
  define s1 where "s1 = s\<lparr>cd_header := cd_header s @ take count rest\<rparr>"
  note IH = "1.IH" [OF target_def count_def s1_def]
  show ?case
  proof (cases "length (cd_header s1) < target")
    case True
    then show ?thesis
      unfolding fill_header.simps [of s rest] Let_def target_def [symmetric] count_def [symmetric]
        s1_def [symmetric] by simp
  next
    case False
    show ?thesis
    proof (cases "target_from_prefix (cd_limits s) (cd_header s1)")
      case (Inl err)
      with False show ?thesis
        unfolding fill_header.simps [of s rest] Let_def target_def [symmetric] count_def [symmetric]
          s1_def [symmetric] by simp
    next
      case (Inr nxt)
      then show ?thesis
        using False IH [OF False Inr refl]
        unfolding fill_header.simps [of s rest] Let_def target_def [symmetric] count_def [symmetric]
          s1_def [symmetric] by (simp add: add.commute add.left_commute)
    qed
  qed
qed

lemma partial_target:
  assumes "header_partial s"
  shows "opt_or (default_target (cd_header s)) (cd_target s) = opt_or 2 (cd_target s)"
  using assms default_target_short by (cases "cd_target s") (simp_all add: header_partial_def)

text \<open>What happens once the current target is reached, as a function of its own.\<close>

definition after_fill ::
    "cpio_decoder \<Rightarrow> bytes \<Rightarrow> nat \<Rightarrow> end_of_input \<Rightarrow> cpio_decoder \<times> (archive_error + nat \<times> bool)" where
  "after_fill s rest c e =
     (case target_from_prefix (cd_limits s) (cd_header s) of
        Inl err \<Rightarrow> (s, Inl err)
      | Inr next \<Rightarrow>
          if next \<noteq> None \<and> length (cd_header s) < the next then
            (if rest = [] then (s\<lparr>cd_target := next\<rparr>, Inr (c, False))
             else fill_header (s\<lparr>cd_target := next\<rparr>) rest c e)
          else (s\<lparr>cd_target := next\<rparr>, Inr (c, True)))"

lemma fill_header_round:
  assumes "header_partial s"
  defines "n \<equiv> opt_or 2 (cd_target s) - length (cd_header s)"
  shows "fill_header s rest c e =
    (if length rest < n
     then (s\<lparr>cd_header := cd_header s @ rest\<rparr>,
           if e = End then Inl (cpio_err ErrMalformed ''truncated entry header'')
           else Inr (c + length rest, False))
     else after_fill (s\<lparr>cd_header := cd_header s @ take n rest\<rparr>) (drop n rest) (c + n) e)"
proof -
  let ?t = "opt_or 2 (cd_target s)"
  have lt: "length (cd_header s) < ?t" using assms(1) by (simp add: header_partial_def)
  show ?thesis
  proof (cases "length rest < n")
    case True
    then have "min (?t - length (cd_header s)) (length rest) = length rest"
      "length (cd_header s) + length rest < ?t"
      by (simp_all add: n_def)
    with True lt show ?thesis
      unfolding fill_header.simps [of s] Let_def partial_target [OF assms(1)] if_P [OF lt] by simp
  next
    case False
    then have mn: "min (?t - length (cd_header s)) (length rest) = n" and
      "\<not> length (cd_header s) + n < ?t" "n \<le> length rest"
      using lt by (simp_all add: n_def)
    with False lt show ?thesis
      unfolding fill_header.simps [of s] Let_def partial_target [OF assms(1)] if_P [OF lt] mn
      by (simp add: after_fill_def)
  qed
qed

lemma fill_header_short:
  assumes "header_partial s" and "length xs < opt_or 2 (cd_target s) - length (cd_header s)"
  shows "fill_header s xs c More = (s\<lparr>cd_header := cd_header s @ xs\<rparr>, Inr (c + length xs, False))"
    "header_partial (s\<lparr>cd_header := cd_header s @ xs\<rparr>)"
    "fill_header s (xs @ ys) c End =
       fill_header (s\<lparr>cd_header := cd_header s @ xs\<rparr>) ys (c + length xs) End"
proof -
  let ?s1 = "s\<lparr>cd_header := cd_header s @ xs\<rparr>"
  show p1: "header_partial ?s1" using assms(2) by (simp add: header_partial_def)
  show "fill_header s xs c More = (?s1, Inr (c + length xs, False))"
    using assms by (simp add: fill_header_round)
  let ?n = "opt_or 2 (cd_target s) - length (cd_header s)"
  let ?k = "?n - length xs"
  have n: "?n = length xs + ?k" using assms(2) by simp
  have "take ?n (xs @ ys) = xs @ take ?k ys" "drop ?n (xs @ ys) = drop ?k ys"
    using n by simp_all
  then show "fill_header s (xs @ ys) c End = fill_header ?s1 ys (c + length xs) End"
    using n unfolding fill_header_round [OF assms(1)] fill_header_round [OF p1]
    by (auto simp: add.assoc)
qed

lemma after_fill_split:
  assumes "after_fill s (xs @ ys) c End = (t, Inr (c', b))"
    and IH: "\<And>nxt. xs \<noteq> [] \<Longrightarrow> header_partial (s\<lparr>cd_target := nxt\<rparr>) \<Longrightarrow>
      fill_header (s\<lparr>cd_target := nxt\<rparr>) (xs @ ys) c End = (t, Inr (c', b)) \<Longrightarrow>
      \<exists>s1 c1 b1. fill_header (s\<lparr>cd_target := nxt\<rparr>) xs c More = (s1, Inr (c1, b1)) \<and>
        (s1 = t \<and> c1 = c' \<and> b1 = b \<or>
         \<not> b1 \<and> c1 = c + length xs \<and> header_partial s1 \<and> fill_header s1 ys c1 End = (t, Inr (c', b)))"
  shows "\<exists>s1 c1 b1. after_fill s xs c More = (s1, Inr (c1, b1)) \<and>
    (s1 = t \<and> c1 = c' \<and> b1 = b \<or>
     \<not> b1 \<and> c1 = c + length xs \<and> header_partial s1 \<and> fill_header s1 ys c1 End = (t, Inr (c', b)))"
proof -
  from assms(1) obtain nxt where nxt: "target_from_prefix (cd_limits s) (cd_header s) = Inr nxt"
    by (auto simp: after_fill_def split: sum.splits)
  let ?s2 = "s\<lparr>cd_target := nxt\<rparr>"
  show ?thesis
  proof (cases "nxt \<noteq> None \<and> length (cd_header s) < the nxt")
    case False
    have "after_fill s i c e = (?s2, Inr (c, True))" for i e
      unfolding after_fill_def nxt by (simp only: sum.case if_not_P [OF False])
    with assms(1) show ?thesis by auto
  next
    case more: True
    have eq: "after_fill s i c e =
        (if i = [] then (?s2, Inr (c, False)) else fill_header ?s2 i c e)" for i e
      unfolding after_fill_def nxt by (simp only: sum.case if_P [OF more])
    from more have hp: "header_partial ?s2" by (auto simp: header_partial_def)
    show ?thesis
    proof (cases "xs = []")
      case True
      with hp assms(1) show ?thesis unfolding eq by (cases "ys = []") auto
    next
      case False
      with assms(1) have "fill_header ?s2 (xs @ ys) c End = (t, Inr (c', b))" unfolding eq by simp
      from IH [OF False hp this] False show ?thesis unfolding eq by simp
    qed
  qed
qed

lemma fill_header_split:
  assumes "fill_header s (xs @ ys) c End = (t, Inr (c', b))" and "header_partial s"
  shows "\<exists>s1 c1 b1. fill_header s xs c More = (s1, Inr (c1, b1)) \<and>
    (s1 = t \<and> c1 = c' \<and> b1 = b \<or>
     \<not> b1 \<and> c1 = c + length xs \<and> header_partial s1 \<and> fill_header s1 ys c1 End = (t, Inr (c', b)))"
  using assms
proof (induction "length xs" arbitrary: s xs c rule: less_induct)
  case less
  let ?n = "opt_or 2 (cd_target s) - length (cd_header s)"
  have pos: "0 < ?n" using less.prems(2) by (simp add: header_partial_def)
  show ?case
  proof (cases "length xs < ?n")
    case True
    from fill_header_short(1,2) [OF less.prems(2) True] fill_header_short(3) [OF less.prems(2) True, of ys c]
      less.prems(1)
    show ?thesis by auto
  next
    case False
    then have n: "?n \<le> length xs" by simp
    let ?s1 = "s\<lparr>cd_header := cd_header s @ take ?n xs\<rparr>"
    have whole: "after_fill ?s1 (drop ?n xs @ ys) (c + ?n) End = (t, Inr (c', b))"
      using less.prems n unfolding fill_header_round [OF less.prems(2)] by auto
    have "\<exists>s1 c1 b1. after_fill ?s1 (drop ?n xs) (c + ?n) More = (s1, Inr (c1, b1)) \<and>
      (s1 = t \<and> c1 = c' \<and> b1 = b \<or>
       \<not> b1 \<and> c1 = c + ?n + length (drop ?n xs) \<and> header_partial s1 \<and>
       fill_header s1 ys c1 End = (t, Inr (c', b)))"
      using n pos by (intro after_fill_split [OF whole] less.hyps) auto
    moreover have "c + ?n + length (drop ?n xs) = c + length xs" using n by simp
    ultimately show ?thesis
      using n unfolding fill_header_round [OF less.prems(2)] by auto
  qed
qed

section \<open>Payload and checksum\<close>

lemma cpio_data_chunk:
  assumes st: "cd_state s = CpData r p x a m" and "r \<noteq> 0" and "r \<le> u64_max"
    and whole: "cpio_step s (xs @ ys) End = (t, Inr whole)"
  shows "\<exists>s1 d. cpio_step s xs More = (s1, Inr d) \<and> continues cpio_step xs ys s1 d t whole"
proof -
  have step: "cpio_step s i e = cpio_step_data s r p x a m i e" for i e
    using st assms(2) by (simp add: cpio_step.simps [of s])
  consider "xs = []" | "xs \<noteq> []" "ys = [] \<or> r \<le> length xs" | "xs \<noteq> []" "ys \<noteq> []" "length xs < r"
    by force
  then show ?thesis
  proof cases
    case 1
    then have "cpio_step s xs More = (s, Inr (dstep 0 EvNeedInput))" by (simp add: step cpio_step_data_def)
    with 1 whole continues_idle [of cpio_step s ys] show ?thesis by auto
  next
    case 2
    with assms(3) have "min (length (xs @ ys)) (min r u64_max) = min (length xs) (min r u64_max)" by auto
    with 2 whole have "cpio_step s xs More = (t, Inr whole)"
      by (simp add: step cpio_step_data_def Let_def del: length_append split: if_splits option.splits)
    then show ?thesis by blast
  next
    case 3
    let ?c = "min (length (xs @ ys)) r" and ?n = "cd_total s"
    let ?s1 = "s\<lparr>cd_total := ?n + length xs, cd_state := CpData (r - length xs) p x (cpio_sum a xs) m\<rparr>"
    have mn: "min r u64_max = r" "min (r - length xs) u64_max = r - length xs" using assms(3) by auto
    have tot: "?n + ?c \<le> u64_max" "\<not> exceeds (decoded_total (cd_limits s)) (?n + ?c)"
      and t: "t = s\<lparr>cd_total := ?n + ?c, cd_state := CpData (r - ?c) p x (cpio_sum a (take ?c (xs @ ys))) m\<rparr>"
      and w: "whole = dstep ?c (EvData (take ?c (xs @ ys)))"
      using whole 3
      by (auto simp: step cpio_step_data_def Let_def checked_add_def mn split: if_splits)
    have le: "length xs \<le> ?c" using 3 by auto
    have "\<not> exceeds (decoded_total (cd_limits s)) (?n + length xs)"
      using tot(2) le exceeds_mono [of _ "?n + length xs" "?n + ?c"] by auto
    then have part: "cpio_step s xs More = (?s1, Inr (dstep (length xs) (EvData xs)))"
      using 3 tot(1) le by (simp add: step cpio_step_data_def Let_def checked_add_def mn)
    let ?k = "?c - length xs"
    have k: "min (length ys) (r - length xs) = ?k" using 3 by (auto simp: min_def)
    have tk: "take ?c (xs @ ys) = xs @ take ?k ys" using le by simp
    have "cpio_step ?s1 ys End = cpio_step_data ?s1 (r - length xs) p x (cpio_sum a xs) m ys End"
      using 3 by (simp add: cpio_step.simps [of ?s1])
    also have "\<dots> = (t, Inr (dstep ?k (EvData (take ?k ys))))"
      using 3 tot le
      by (simp add: cpio_step_data_def Let_def k mn checked_add_def t tk cpio_sum_append del: length_append)
    finally show ?thesis
      unfolding part w continues_def joins_def tk using le by (auto simp del: length_append)
  qed
qed

section \<open>The whole step\<close>

definition cpio_chunk_law :: "cpio_decoder \<Rightarrow> bytes \<Rightarrow> bytes \<Rightarrow> cpio_decoder \<Rightarrow> decode_step \<Rightarrow> bool" where
  "cpio_chunk_law s xs ys t whole \<longleftrightarrow>
     (\<exists>s1 d. cpio_step s xs More = (s1, Inr d) \<and> continues cpio_step xs ys s1 d t whole)"

lemma add_consumed_dstep:
  "ds_produced d = 0 \<Longrightarrow> d\<lparr>ds_consumed := n\<rparr> = dstep n (ds_event d)"
  by (cases d) (simp add: dstep_def)

text \<open>A step that consumes \<open>k\<close> bytes and recurses satisfies the law if the recursive call does.\<close>

lemma cpio_rec_chunk:
  assumes rec: "\<And>i e. k \<le> length i \<Longrightarrow> i = xs \<and> e = More \<or> i = xs @ ys \<and> e = End \<Longrightarrow>
      cpio_step s i e = add_consumed k (cpio_step s1 (drop k i) e)"
    and whole: "cpio_step s (xs @ ys) End = (t, Inr whole)" and k: "k \<le> length xs" and inv: "cpio_inv s1"
    and IH: "\<And>whole0. cpio_step s1 (drop k xs @ ys) End = (t, Inr whole0) \<Longrightarrow>
      cpio_chunk_law s1 (drop k xs) ys t whole0"
  shows "cpio_chunk_law s xs ys t whole"
proof -
  have w: "add_consumed k (cpio_step s1 (drop k xs @ ys) End) = (t, Inr whole)"
    using rec [of "xs @ ys" End] whole k by simp
  then obtain w0 where w0: "cpio_step s1 (drop k xs @ ys) End = (t, Inr w0)"
    "whole = w0\<lparr>ds_consumed := ds_consumed w0 + k\<rparr>" "ds_consumed w0 + k \<le> u64_max"
    by (auto simp: add_consumed_Inr)
  obtain s2 d0 where d0: "cpio_step s1 (drop k xs) More = (s2, Inr d0)"
    "continues cpio_step (drop k xs) ys s2 d0 t w0"
    using IH [OF w0(1)] by (auto simp: cpio_chunk_law_def)
  have p0: "ds_produced d0 = 0" "ds_produced w0 = 0"
    using cpio_dec.produced_0 [OF inv d0(1)] cpio_dec.produced_0 [OF inv w0(1)] by simp_all
  have "ds_consumed d0 \<le> ds_consumed w0" using d0(2) by (auto simp: continues_def)
  with w0(3) have "add_consumed k (cpio_step s1 (drop k xs) More) =
      (s2, Inr (d0\<lparr>ds_consumed := ds_consumed d0 + k\<rparr>))"
    unfolding add_consumed_Inr using d0(1) by auto
  with rec [of xs More] k have "cpio_step s xs More = (s2, Inr (dstep (ds_consumed d0 + k) (ds_event d0)))"
    by (simp add: add_consumed_dstep [OF p0(1)])
  with continues_shift [OF d0(2) k p0] w0(2) add_consumed_dstep [OF p0(2)] show ?thesis
    by (auto simp: cpio_chunk_law_def)
qed

lemma cpio_header_unfold:
  assumes "cd_state s = CpHeader" and "cd_queued s = []" and "fill_header s i 0 e = (s1, Inr (c, b))"
  shows "cpio_step s i e =
    (if \<not> b then (s1, Inr (dstep c EvNeedInput))
     else
       (case cpio_begin s1 of
          (s2, Inl err) \<Rightarrow> (s2, Inl err)
        | (s2, Inr None) \<Rightarrow>
            (case pop_queued s2 c of Some (s3, d) \<Rightarrow> (s3, Inr d) | None \<Rightarrow> (s2, Inr (dstep c EvDone)))
        | (s2, Inr (Some (Some md))) \<Rightarrow> (s2, Inr (dstep c (EvEntry md)))
        | (s2, Inr (Some None)) \<Rightarrow> add_consumed c (cpio_step s2 (drop c i) e)))"
  using assms by (subst cpio_step.simps) (simp add: pop_queued_def)

lemma pop_queued_shift:
  "pop_queued s (c + k) = map_option (\<lambda>(s', d). (s', dstep (ds_consumed d + k) (ds_event d))) (pop_queued s c)"
  by (simp add: pop_queued_def split: list.split)

text \<open>A header completed only in the second chunk: the first call buffers everything.\<close>

lemma cpio_header_deferred:
  assumes st: "cd_state s = CpHeader" "cd_queued s = []"
    and part: "fill_header s xs 0 More = (s1, Inr (length xs, False))"
    and f: "fill_header s (xs @ ys) 0 End = (t1, Inr (c, b))"
    and cont: "fill_header s1 ys (length xs) End = (t1, Inr (c, b))"
    and whole: "cpio_step s (xs @ ys) End = (t, Inr whole)" and inv: "cpio_inv s"
  shows "cpio_chunk_law s xs ys t whole"
proof -
  have s1: "cd_state s1 = CpHeader" "cd_queued s1 = []"
    using fill_header_ok [OF part] st by (metis cpio_decoder.select_convs cpio_decoder.surjective
      cpio_decoder.update_convs)+
  obtain k where k: "fill_header s1 ys 0 End = (t1, Inr (k, b))" "c = k + length xs"
    using cont fill_header_shift [of s1 ys 0 "length xs" End]
    by (auto split: prod.splits sum.splits)
  have step1: "cpio_step s xs More = (s1, Inr (dstep (length xs) EvNeedInput))"
    using cpio_header_unfold [OF st part] by simp
  have drop: "drop c (xs @ ys) = drop k ys" using k(2) by simp
  note u = cpio_header_unfold [OF s1 k(1)] and v = cpio_header_unfold [OF st f]
  have "\<exists>d'. cpio_step s1 ys End = (t, Inr d') \<and> whole = dstep (ds_consumed d' + length xs) (ds_event d')"
  proof (cases "b \<and> snd (cpio_begin t1) = Inr (Some None)")
    case False
    with whole v u show ?thesis
      by (auto simp: k(2) pop_queued_shift split: prod.splits sum.splits option.splits if_splits)
  next
    case True
    then obtain s2 where b2: "cpio_begin t1 = (s2, Inr (Some None))" by (cases "cpio_begin t1") auto
    have inv2: "cpio_inv s2" using cpio_begin_state [OF b2] by simp
    from v have "cpio_step s (xs @ ys) End = add_consumed c (cpio_step s2 (drop k ys) End)"
      unfolding drop using True b2 by simp
    with whole obtain d0 where d0: "cpio_step s2 (drop k ys) End = (t, Inr d0)"
      "whole = d0\<lparr>ds_consumed := ds_consumed d0 + c\<rparr>" "ds_consumed d0 + c \<le> u64_max"
      by (auto simp: add_consumed_Inr)
    have "ds_produced d0 = 0" using cpio_dec.produced_0 [OF inv2 d0(1)] .
    moreover from d0 k(2) True b2 u have "cpio_step s1 ys End = (t, Inr (d0\<lparr>ds_consumed := ds_consumed d0 + k\<rparr>))"
      by (simp add: add_consumed_Inr)
    ultimately show ?thesis using d0(2) k(2) by (auto simp: add_consumed_dstep add.assoc)
  qed
  then obtain d' where "cpio_step s1 ys End = (t, Inr d')" "whole = dstep (ds_consumed d' + length xs) (ds_event d')"
    by blast
  with step1 show ?thesis by (auto simp: cpio_chunk_law_def continues_def joins_def)
qed

lemma cpio_chunk:
  assumes "cpio_inv s" and "cpio_step s (xs @ ys) End = (t, Inr whole)"
  shows "cpio_chunk_law s xs ys t whole"
  using assms
proof (induction s xs "More" arbitrary: whole rule: cpio_step.induct)
  case (1 s xs)
  let ?q = "if cd_state s = CpHeader \<or> cd_state s = CpDone then pop_queued s 0 else None"
  show ?case
  proof (cases ?q)
    case (Some y)
    then have "cpio_step s i e = (case y of (s', d) \<Rightarrow> (s', Inr d))" for i e
      by (subst cpio_step.simps) simp
    with "1.prems"(2) show ?thesis by (auto simp: cpio_chunk_law_def)
  next
    case None
    show ?thesis
    proof (cases "cd_state s")
      case CpDone
      have "cpio_step s xs More = (t, Inr whole)"
        using "1.prems"(2) None CpDone by (auto simp: cpio_step.simps [of s] split: if_splits)
      then show ?thesis by (auto simp: cpio_chunk_law_def)
    next
      case st: (CpData r p x a m)
      show ?thesis
      proof (cases "r = 0")
        case False
        with cpio_data_chunk [OF st False _ "1.prems"(2)] "1.prems"(1) st show ?thesis
          by (simp add: cpio_inv_def cpio_chunk_law_def)
      next
        case True
        let ?s = "s\<lparr>cd_state := CpEndEntry p x a m\<rparr>"
        have eq: "cpio_step s i e = cpio_step ?s i e" for i e
          using st True by (subst cpio_step.simps) simp
        have "cpio_inv ?s" using "1.prems"(1) st by (simp add: cpio_inv_def)
        from "1.hyps"(2) [OF None st True this] "1.prems"(2) show ?thesis
          by (simp add: eq cpio_chunk_law_def)
      qed
    next
      case st: (CpEndEntry p x a m)
      let ?s = "s\<lparr>cd_state := CpHeader\<rparr>"
      have inv: "cpio_inv ?s" using "1.prems"(1) st by (simp add: cpio_inv_def)
      consider "length xs < p" | "p \<le> length xs" "m" | "p \<le> length xs" "\<not> m" by linarith
      then show ?thesis
      proof cases
        case 1
        then have "cpio_step s xs More = (s, Inr (dstep 0 EvNeedInput))"
          using st by (subst cpio_step.simps) simp
        then show ?thesis
          using "1.prems"(2) by (auto simp: cpio_chunk_law_def continues_def joins_def)
      next
        case 2
        then have "cpio_step s xs More = (t, Inr whole)"
          using st "1.prems"(2) by (auto simp: cpio_step.simps [of s] split: if_splits)
        then show ?thesis by (auto simp: cpio_chunk_law_def)
      next
        case 3
        with "1.prems"(2) st have ck: "\<not> (x \<noteq> None \<and> x \<noteq> Some a)"
          by (auto simp: cpio_step.simps [of s] split: if_splits)
        show ?thesis
        proof (rule cpio_rec_chunk [OF _ "1.prems"(2) 3(1) inv])
          fix i :: bytes and e assume "p \<le> length i"
          with st ck 3(2) show "cpio_step s i e = add_consumed p (cpio_step ?s (drop p i) e)"
            by (subst cpio_step.simps) (auto simp: Let_def)
        next
          fix whole0 assume "cpio_step ?s (drop p xs @ ys) End = (t, Inr whole0)"
          from "1.hyps"(3) [OF None st _ ck refl _ inv this] 3 show "cpio_chunk_law ?s (drop p xs) ys t whole0"
            by simp
        qed
      qed
    next
      case st: CpHeader
      have q: "cd_queued s = []" using None st by (auto simp: pop_queued_def split: list.splits)
      have hp: "header_partial s" using "1.prems"(1) st by (simp add: cpio_inv_def)
      obtain t1 c b where f: "fill_header s (xs @ ys) 0 End = (t1, Inr (c, b))"
        using "1.prems"(2) st q
        by (auto simp: cpio_step.simps [of s] pop_queued_def split: prod.splits sum.splits)
      obtain s1 c1 b1 where part: "fill_header s xs 0 More = (s1, Inr (c1, b1))" and
        alt: "s1 = t1 \<and> c1 = c \<and> b1 = b \<or> \<not> b1 \<and> c1 = length xs \<and> fill_header s1 ys c1 End = (t1, Inr (c, b))"
        using fill_header_split [OF f hp] by auto
      show ?thesis
      proof (cases "s1 = t1 \<and> c1 = c \<and> b1 = b")
        case False
        with alt part have "fill_header s xs 0 More = (s1, Inr (length xs, False))"
          "fill_header s1 ys (length xs) End = (t1, Inr (c, b))" by auto
        from cpio_header_deferred [OF st q this(1) f this(2) "1.prems"(2,1)] show ?thesis .
      next
        case True
        then have part: "fill_header s xs 0 More = (t1, Inr (c, b))" using part by simp
        have c: "c \<le> length xs" using cpio_step_header_ok(1) [OF part "1.prems"(1) st] .
        note u = cpio_header_unfold [OF st q part] and v = cpio_header_unfold [OF st q f]
        show ?thesis
        proof (cases "b \<and> snd (cpio_begin t1) = Inr (Some None)")
          case False
          with "1.prems"(2) u v have "cpio_step s xs More = (t, Inr whole)"
            by (auto split: prod.splits sum.splits option.splits if_splits)
          then show ?thesis by (auto simp: cpio_chunk_law_def)
        next
          case wait: True
          then obtain s2 where b2: "cpio_begin t1 = (s2, Inr (Some None))" by (cases "cpio_begin t1") auto
          have inv2: "cpio_inv s2" using cpio_begin_state [OF b2] by simp
          show ?thesis
          proof (rule cpio_rec_chunk [OF _ "1.prems"(2) c inv2])
            fix i e assume "i = xs \<and> e = More \<or> i = xs @ ys \<and> e = End"
            with u v wait b2 show "cpio_step s i e = add_consumed c (cpio_step s2 (drop c i) e)" by auto
          next
            fix whole0 assume *: "cpio_step s2 (drop c xs @ ys) End = (t, Inr whole0)"
            show "cpio_chunk_law s2 (drop c xs) ys t whole0"
              by (rule "1.hyps"(1) [OF None st part [symmetric] refl refl _ b2 [symmetric] refl refl refl inv2 *])
                (use wait in simp)
          qed
        qed
      qed
    qed
  qed
qed

interpretation cpio_chunks: chunked_decoder cpio_step cpio_inv cpio_measure cpio_allowance
  using cpio_chunk by unfold_locales (auto simp: cpio_chunk_law_def)

end
