(* ===== verification/Oxide_Cpio_Encoder.thy ===== *)
theory Oxide_Cpio_Encoder
  imports Oxide_Cpio_Header Oxide_Writer
begin

text \<open>
  \<open>CpioEncoder\<close> of \<open>format/cpio.rs\<close>: header staging for the five dialects, hardlink identities,
  the payload checksum of the crc dialect, and the command-driven \<open>step\<close>. The encoder is an
  instance of \<open>archive_encoder\<close>, so the writer theorems apply to it.
\<close>

section \<open>State\<close>

record link_identity =
  li_inode :: nat
  li_links :: nat
  li_device :: device

record staged_header =
  sh_size :: nat
  sh_identity :: link_identity
  sh_alignment :: nat
  sh_checksum :: "32 word option"

record cpio_encoder =
  cw_limits :: limits
  cw_dialect :: cpio_dialect
  cw_pending :: bytes
  cw_pending_pos :: nat
  cw_inode :: "32 word"
  cw_open :: bool
  cw_entry_size :: nat
  cw_entry_alignment :: nat
  cw_remaining :: nat
  cw_expected :: "32 word option"
  cw_actual :: "32 word"
  cw_finishing :: bool
  cw_done :: bool
  cw_entries :: nat
  cw_link_targets :: "bytes \<rightharpoonup> link_identity"

definition cpio_encoder_new :: "limits \<Rightarrow> cpio_encoder" where
  "cpio_encoder_new l =
     \<lparr>cw_limits = l, cw_dialect = Newc, cw_pending = [], cw_pending_pos = 0, cw_inode = 0, cw_open = False,
      cw_entry_size = 0, cw_entry_alignment = 4, cw_remaining = 0, cw_expected = None, cw_actual = 0,
      cw_finishing = False, cw_done = False, cw_entries = 0, cw_link_targets = Map.empty\<rparr>"

definition cpio_with_dialect :: "limits \<Rightarrow> cpio_dialect \<Rightarrow> cpio_encoder" where
  "cpio_with_dialect l d = (cpio_encoder_new l)\<lparr>cw_dialect := d\<rparr>"

definition cpio_drain_pending :: "cpio_encoder \<Rightarrow> nat \<Rightarrow> cpio_encoder \<times> bytes" where
  "cpio_drain_pending s cap =
     (let count = min (length (cw_pending s) - cw_pending_pos s) cap;
          out = slice (cw_pending s) (cw_pending_pos s) (cw_pending_pos s + count);
          pos = cw_pending_pos s + count in
      if pos = length (cw_pending s)
      then (s\<lparr>cw_pending := [], cw_pending_pos := 0\<rparr>, out)
      else (s\<lparr>cw_pending_pos := pos\<rparr>, out))"

section \<open>Header staging\<close>

record cpio_values =
  cv_size :: nat
  cv_namesize :: nat
  cv_mode :: nat
  cv_uid :: nat
  cv_gid :: nat
  cv_links :: nat
  cv_mtime :: nat
  cv_device :: device
  cv_referenced :: device
  cv_inode :: nat
  cv_checksum :: "32 word option"

definition cpio_mode :: "entry_metadata \<Rightarrow> nat" where
  "cpio_mode md = mode_bits (md_kind md) OR (opt_or (default_mode (md_kind md)) (md_mode md) AND 0xfff)"

definition cpio_mtime :: "entry_metadata \<Rightarrow> nat" where
  "cpio_mtime md = (case modified (md_times md) of None \<Rightarrow> 0 | Some t \<Rightarrow> nat (max (ts_secs t) 0))"

definition staged_checksum ::
    "cpio_dialect \<Rightarrow> entry_metadata option \<Rightarrow> nat \<Rightarrow> archive_error + 32 word option" where
  "staged_checksum dialect md sz =
     (if dialect = Crc then
        (case Option.bind md md_checksum of
           Some c \<Rightarrow>
             if ck_algorithm c = CpioSum32
             then map_err (\<lambda>_. cpio_err ErrProtocol ''CRC checksum conversion failed'')
                    (bindE (ok_or () (u32_from_be_bytes (ck_value c))) (\<lambda>v. Inr (Some v)))
             else Inl (cpio_err ErrUnsupported
                    ''crc output requires a four-byte big-endian payload byte sum'')
         | None \<Rightarrow>
             if sz = 0 then Inr (Some 0)
             else Inl (cpio_err ErrUnsupported
                    ''crc output requires a four-byte big-endian payload byte sum''))
      else Inr None)"

definition cpio_values_of ::
    "cpio_dialect \<Rightarrow> 32 word \<Rightarrow> bytes \<Rightarrow> entry_metadata option \<Rightarrow> archive_error + cpio_values" where
  "cpio_values_of dialect next_inode name md =
     (let sz = opt_or 0 (Option.bind md md_size) in
      bindE (ok_or (cpio_err ErrLimit ''pathname size overflow'') (checked_add (length name) 1)) (\<lambda>namesize.
      bindE (staged_checksum dialect md sz) (\<lambda>checksum.
      Inr \<lparr>cv_size = sz, cv_namesize = namesize,
           cv_mode = (case md of None \<Rightarrow> 0 | Some m \<Rightarrow> cpio_mode m),
           cv_uid = opt_or 0 (Option.bind md (\<lambda>m. own_uid (md_owner m))),
           cv_gid = opt_or 0 (Option.bind md (\<lambda>m. own_gid (md_owner m))),
           cv_links = opt_or 1 (Option.bind md md_links),
           cv_mtime = (case md of None \<Rightarrow> 0 | Some m \<Rightarrow> cpio_mtime m),
           cv_device = opt_or device_default (Option.bind md md_device),
           cv_referenced = opt_or device_default (Option.bind md md_referenced_device),
           cv_inode = opt_or (unat next_inode) (Option.bind md md_inode),
           cv_checksum = checksum\<rparr>)))"

fun cpio_u32s :: "(nat \<times> string) list \<Rightarrow> archive_error + nat list" where
  "cpio_u32s [] = Inr []"
| "cpio_u32s ((v, ctx) # r) = bindE (cpio_u32 v ctx) (\<lambda>x. bindE (cpio_u32s r) (\<lambda>xs. Inr (x # xs)))"

definition newc_pending :: "cpio_dialect \<Rightarrow> cpio_values \<Rightarrow> archive_error + bytes" where
  "newc_pending dialect v =
     bindE (cpio_u32s
       [(cv_inode v, ''newc inode exceeds 32-bit field''),
        (cv_mode v, ''newc mode exceeds 32-bit field''),
        (cv_uid v, ''newc uid exceeds 32-bit field''),
        (cv_gid v, ''newc gid exceeds 32-bit field''),
        (cv_links v, ''newc nlink exceeds 32-bit field''),
        (cv_mtime v, ''newc mtime exceeds 32-bit field''),
        (cv_size v, ''newc entry size exceeds 32-bit field''),
        (dev_major (cv_device v), ''newc device major exceeds 32-bit field''),
        (dev_minor (cv_device v), ''newc device minor exceeds 32-bit field''),
        (dev_major (cv_referenced v), ''newc referenced device major exceeds 32-bit field''),
        (dev_minor (cv_referenced v), ''newc referenced device minor exceeds 32-bit field''),
        (cv_namesize v, ''newc pathname exceeds 32-bit field'')]) (\<lambda>fs.
     Inr ((if dialect = Crc then NEWC_CRC_MAGIC else NEWC_MAGIC) @
          concat (map put_hex8 (fs @ [unat (opt_or 0 (cv_checksum v))]))))"

text \<open>
  The octal fields in order; when one does not fit, its low digits are already in the buffer and the
  fields behind it are still filled with the digit zero.
\<close>

fun odc_put :: "(nat \<times> nat) list \<Rightarrow> bytes \<times> (archive_error + unit)" where
  "odc_put [] = ([], Inr ())"
| "odc_put ((width, v) # r) =
     (case put_octal width v of
        (ds, Inl e) \<Rightarrow> (ds @ replicate (sum_list (map fst r)) 48, Inl e)
      | (ds, Inr _) \<Rightarrow> (case odc_put r of (ds', res) \<Rightarrow> (ds @ ds', res)))"

definition odc_values :: "cpio_values \<Rightarrow> (nat \<times> nat) list" where
  "odc_values v =
     [(6, dev_minor (cv_device v)), (6, cv_inode v), (6, cv_mode v), (6, cv_uid v), (6, cv_gid v),
      (6, cv_links v), (6, dev_minor (cv_referenced v)), (11, cv_mtime v), (6, cv_namesize v),
      (11, cv_size v)]"

definition odc_pending :: "bytes \<Rightarrow> cpio_values \<Rightarrow> bytes \<times> (archive_error + unit)" where
  "odc_pending pending v =
     (if dev_major (cv_device v) \<noteq> 0 \<or> dev_major (cv_referenced v) \<noteq> 0
      then (pending, Inl (cpio_err ErrUnsupported ''odc cannot preserve split device major numbers''))
      else (case odc_put (odc_values v) of (ds, res) \<Rightarrow> (ODC_MAGIC @ ds, res)))"

fun cpio_u16s :: "(nat \<times> string) list \<Rightarrow> archive_error + nat list" where
  "cpio_u16s [] = Inr []"
| "cpio_u16s ((v, ctx) # r) = bindE (cpio_u16 v ctx) (\<lambda>x. bindE (cpio_u16s r) (\<lambda>xs. Inr (x # xs)))"

definition binary_pending :: "bool \<Rightarrow> cpio_values \<Rightarrow> archive_error + bytes" where
  "binary_pending little v =
     (if dev_major (cv_device v) \<noteq> 0 \<or> dev_major (cv_referenced v) \<noteq> 0
      then Inl (cpio_err ErrUnsupported ''binary cpio cannot preserve split device major numbers'')
      else
        bindE (cpio_u32 (cv_mtime v) ''binary cpio mtime exceeds 32 bits'') (\<lambda>mtime.
        bindE (cpio_u32 (cv_size v) ''binary cpio size exceeds 32 bits'') (\<lambda>sz.
        bindE (cpio_u16s
          [(dev_minor (cv_device v), ''binary cpio device exceeds 16 bits''),
           (cv_inode v, ''binary cpio inode exceeds 16 bits''),
           (cv_mode v, ''binary cpio mode exceeds 16 bits''),
           (cv_uid v, ''binary cpio uid exceeds 16 bits''),
           (cv_gid v, ''binary cpio gid exceeds 16 bits''),
           (cv_links v, ''binary cpio nlink exceeds 16 bits''),
           (dev_minor (cv_referenced v), ''binary cpio referenced device exceeds 16 bits'')]) (\<lambda>fs.
        bindE (cpio_u16 (cv_namesize v) ''binary cpio pathname exceeds 16 bits'') (\<lambda>namesize.
        Inr (concat (map (u16_bytes little)
          (0x71c7 # fs @ [mtime div 65536, mtime mod 65536, namesize, sz div 65536, sz mod 65536]))))))))"

definition dialect_pending ::
    "cpio_dialect \<Rightarrow> bytes \<Rightarrow> cpio_values \<Rightarrow> bytes \<times> (archive_error + nat)" where
  "dialect_pending dialect pending v =
     (case dialect of
        Newc \<Rightarrow> (case newc_pending dialect v of Inl e \<Rightarrow> (pending, Inl e) | Inr h \<Rightarrow> (h, Inr 4))
      | Crc \<Rightarrow> (case newc_pending dialect v of Inl e \<Rightarrow> (pending, Inl e) | Inr h \<Rightarrow> (h, Inr 4))
      | Odc \<Rightarrow> (case odc_pending pending v of (h, Inl e) \<Rightarrow> (h, Inl e) | (h, Inr _) \<Rightarrow> (h, Inr 1))
      | BinaryLittleEndian \<Rightarrow>
          (case binary_pending True v of Inl e \<Rightarrow> (pending, Inl e) | Inr h \<Rightarrow> (h, Inr 2))
      | BinaryBigEndian \<Rightarrow>
          (case binary_pending False v of Inl e \<Rightarrow> (pending, Inl e) | Inr h \<Rightarrow> (h, Inr 2)))"

definition stage_header ::
    "cpio_encoder \<Rightarrow> bytes \<Rightarrow> entry_metadata option \<Rightarrow> cpio_encoder \<times> (archive_error + staged_header)" where
  "stage_header s name md =
     (case cpio_values_of (cw_dialect s) (cw_inode s) name md of
        Inl e \<Rightarrow> (s, Inl e)
      | Inr v \<Rightarrow>
          (case dialect_pending (cw_dialect s) (cw_pending s) v of
             (h, Inl e) \<Rightarrow> (s\<lparr>cw_pending := h\<rparr>, Inl e)
           | (h, Inr alignment) \<Rightarrow>
               let p = h @ name @ [0] in
               (case checked_add (length p) (alignment - 1) of
                  None \<Rightarrow> (s\<lparr>cw_pending := p\<rparr>, Inl (cpio_err ErrLimit ''header size overflow''))
                | Some n \<Rightarrow>
                    (s\<lparr>cw_pending := resize p (n div alignment * alignment) 0, cw_inode := cw_inode s + 1\<rparr>,
                     Inr \<lparr>sh_size = cv_size v,
                          sh_identity = \<lparr>li_inode = cv_inode v, li_links = cv_links v, li_device = cv_device v\<rparr>,
                          sh_alignment = alignment, sh_checksum = cv_checksum v\<rparr>))))"

section \<open>Commands\<close>

definition effective_metadata :: "cpio_encoder \<Rightarrow> entry_metadata \<Rightarrow> nat \<Rightarrow> archive_error + entry_metadata" where
  "effective_metadata s md sz =
     (if md_kind md = KindHardlink then
        if sz \<noteq> 0 then Inl (cpio_err ErrProtocol ''cpio hardlink entries must have zero size'')
        else
          bindE (ok_or (cpio_err ErrProtocol ''cpio hardlink is missing its target'') (md_link_target md)) (\<lambda>target.
          bindE (ok_or (cpio_err ErrProtocol ''cpio hardlink target must precede the link entry'')
                   (cw_link_targets s (ap_raw target))) (\<lambda>identity.
          if li_links identity \<le> 1
          then Inl (cpio_err ErrProtocol ''cpio hardlink target must declare nlink greater than one'')
          else Inr (b_devices (Some (li_device identity)) (md_referenced_device md)
                 (b_inode_and_links (Some (li_inode identity)) (Some (li_links identity))
                 (b_size (Some 0) (b_kind KindFile md))))))
      else Inr md)"

text \<open>The three commands that stage bytes, up to the final \<open>drain_pending\<close>.\<close>

definition cpio_open :: "cpio_encoder \<Rightarrow> entry_metadata \<Rightarrow> cpio_encoder \<times> (archive_error + unit)" where
  "cpio_open s md =
     (if cw_open s then (s, Inl (cpio_err ErrProtocol ''previous entry is still open''))
      else
        (case md_size md of
           None \<Rightarrow> (s, Inl (cpio_err ErrSizeRequired ''cpio requires a declared entry size''))
         | Some sz \<Rightarrow>
             if exceeds (path_bytes (cw_limits s)) (length (ap_raw (md_path md))) \<or>
                exceeds (entry_bytes (cw_limits s)) sz
             then (s, Inl (cpio_err ErrLimit ''entry exceeds configured limits''))
             else
               (case checked_add (cw_entries s) 1 of
                  None \<Rightarrow> (s, Inl (cpio_err ErrLimit ''entry count overflow''))
                | Some next_entries \<Rightarrow>
                    if exceeds (max_entries (cw_limits s)) next_entries
                    then (s, Inl (cpio_err ErrLimit ''entry count exceeds configured limit''))
                    else
                      (case effective_metadata s md sz of
                         Inl e \<Rightarrow> (s, Inl e)
                       | Inr em \<Rightarrow>
                           (case stage_header s (ap_raw (md_path em)) (Some em) of
                              (s1, Inl e) \<Rightarrow> (s1, Inl e)
                            | (s1, Inr st) \<Rightarrow>
                                let s2 = (if md_kind em = KindFile \<and> 1 < li_links (sh_identity st)
                                          then s1\<lparr>cw_link_targets :=
                                                 (cw_link_targets s1)(ap_raw (md_path em) \<mapsto> sh_identity st)\<rparr>
                                          else s1) in
                                (s2\<lparr>cw_entries := next_entries, cw_entry_size := sh_size st,
                                    cw_entry_alignment := sh_alignment st, cw_remaining := sh_size st,
                                    cw_expected := sh_checksum st, cw_actual := 0, cw_open := True\<rparr>,
                                 Inr ()))))))"

definition cpio_close :: "cpio_encoder \<Rightarrow> cpio_encoder \<times> (archive_error + unit)" where
  "cpio_close s =
     (if \<not> cw_open s \<or> cw_remaining s \<noteq> 0
      then (s, Inl (cpio_err ErrProtocol ''entry ended before its declared size''))
      else if usize_max < cw_entry_size s
      then (s, Inl (cpio_err ErrLimit ''entry size exceeds address space''))
      else if cw_expected s \<noteq> None \<and> cw_expected s \<noteq> Some (cw_actual s)
      then (s, Inl (cpio_err ErrIntegrity ''written payload does not match declared crc byte sum''))
      else
        let remainder = cw_entry_size s mod cw_entry_alignment s;
            padding = (if remainder = 0 then 0 else cw_entry_alignment s - remainder) in
        (s\<lparr>cw_pending := resize (cw_pending s) padding 0, cw_open := False\<rparr>, Inr ()))"

definition cpio_trailer :: "cpio_encoder \<Rightarrow> cpio_encoder \<times> (archive_error + unit)" where
  "cpio_trailer s =
     (if cw_open s then (s, Inl (cpio_err ErrProtocol ''cannot finish with an open entry''))
      else
        (case stage_header s TRAILER None of
           (s1, Inl e) \<Rightarrow> (s1, Inl e)
         | (s1, Inr _) \<Rightarrow> (s1\<lparr>cw_finishing := True\<rparr>, Inr ())))"

definition cpio_drained :: "cpio_encoder \<Rightarrow> encode_status" where
  "cpio_drained s = (if cw_pending s = [] then EncNeedCommand else EncNeedOutput)"

definition cpio_enc_data :: "cpio_encoder \<Rightarrow> bytes \<Rightarrow> nat \<Rightarrow>
    cpio_encoder \<times> (archive_error + encode_step \<times> bytes)" where
  "cpio_enc_data s input cap =
     (if \<not> cw_open s
      then (s, Inl (cpio_err ErrProtocol ''entry data supplied without an open entry''))
      else if cw_remaining s < length input
      then (s, Inl (cpio_err ErrProtocol ''entry data exceeds declared size''))
      else
        let count = min (length input) cap in
        (s\<lparr>cw_actual := cpio_sum (cw_actual s) (take count input),
           cw_remaining := cw_remaining s - count\<rparr>,
         Inr (estep count count (if count = length input then EncNeedCommand else EncNeedOutput),
              take count input)))"

definition cpio_control :: "cpio_encoder \<times> (archive_error + unit) \<Rightarrow> nat \<Rightarrow>
    cpio_encoder \<times> (archive_error + encode_step \<times> bytes)" where
  "cpio_control r cap =
     (case r of
        (s, Inl e) \<Rightarrow> (s, Inl e)
      | (s, Inr _) \<Rightarrow>
          let (s1, out) = cpio_drain_pending s cap
          in (s1, Inr (estep 1 (length out) (cpio_drained s1), out)))"

definition cpio_enc_finish :: "cpio_encoder \<Rightarrow> nat \<Rightarrow> cpio_encoder \<times> (archive_error + encode_step \<times> bytes)" where
  "cpio_enc_finish s cap =
     (case cpio_trailer s of
        (s1, Inl e) \<Rightarrow> (s1, Inl e)
      | (s1, Inr _) \<Rightarrow>
          let (s2, out) = cpio_drain_pending s1 cap;
              s3 = (if cw_pending s2 = [] then s2\<lparr>cw_done := True\<rparr> else s2) in
          (s3, Inr (estep 1 (length out) (if cw_done s3 then EncDone else EncNeedOutput), out)))"

definition cpio_enc_step :: "cpio_encoder encoder_step" where
  "cpio_enc_step s cmd cap =
     (if cw_done s then
        (case cmd of
           EncFinish \<Rightarrow> (s, Inr (estep 0 0 EncDone, []))
         | _ \<Rightarrow> (s, Inl (cpio_err ErrProtocol ''command supplied after finish'')))
      else if cw_pending s \<noteq> [] then
        (let (s1, out) = cpio_drain_pending s cap in
         if cw_pending s1 = [] \<and> cw_finishing s1
         then (s1\<lparr>cw_done := True\<rparr>, Inr (estep 0 (length out) EncDone, out))
         else (s1, Inr (estep 0 (length out) (cpio_drained s1), out)))
      else
        (case cmd of
           BeginEntry md \<Rightarrow> cpio_control (cpio_open s md) cap
         | EncData input \<Rightarrow> cpio_enc_data s input cap
         | EncEndEntry \<Rightarrow> cpio_control (cpio_close s) cap
         | EncFinish \<Rightarrow> cpio_enc_finish s cap))"

section \<open>Abstract transition and contract\<close>

definition cpio_queue :: "cpio_encoder \<Rightarrow> bytes" where
  "cpio_queue s = drop (cw_pending_pos s) (cw_pending s)"

definition cpio_core :: "cpio_encoder \<Rightarrow> cpio_encoder" where
  "cpio_core s = s\<lparr>cw_pending := [], cw_pending_pos := 0, cw_done := False\<rparr>"

definition cpio_enc_inv :: "cpio_encoder \<Rightarrow> bool" where
  "cpio_enc_inv s \<longleftrightarrow>
     (if cw_pending s = [] then cw_pending_pos s = 0 else cw_pending_pos s < length (cw_pending s)) \<and>
     (cw_finishing s \<and> \<not> cw_done s \<longrightarrow> cw_pending s \<noteq> [])"

text \<open>The bytes a staging function leaves in the buffer are the output of the abstract transition.\<close>

definition staged :: "cpio_encoder \<times> (archive_error + unit) \<Rightarrow> archive_error + cpio_encoder \<times> bytes" where
  "staged r = (case r of (s, Inl e) \<Rightarrow> Inl e | (s, Inr _) \<Rightarrow> Inr (s\<lparr>cw_pending := []\<rparr>, cw_pending s))"

definition cpio_accept :: "cpio_encoder acceptor" where
  "cpio_accept c cmd =
     (if cw_finishing c then
        (if cmd = EncFinish then Inr (c, [])
         else Inl (cpio_err ErrProtocol ''command supplied after finish''))
      else
        (case cmd of
           BeginEntry md \<Rightarrow> staged (cpio_open c md)
         | EncEndEntry \<Rightarrow> staged (cpio_close c)
         | EncFinish \<Rightarrow> staged (cpio_trailer c)
         | EncData xs \<Rightarrow>
             if \<not> cw_open c then Inl (cpio_err ErrProtocol ''entry data supplied without an open entry'')
             else if cw_remaining c < length xs
             then Inl (cpio_err ErrProtocol ''entry data exceeds declared size'')
             else Inr (c\<lparr>cw_actual := cpio_sum (cw_actual c) xs,
                         cw_remaining := cw_remaining c - length xs\<rparr>, xs)))"

lemma stage_header_frame:
  assumes "stage_header s name md = (s', r)"
  shows "cw_pending_pos s' = cw_pending_pos s" "cw_done s' = cw_done s" "cw_finishing s' = cw_finishing s"
    "cw_limits s' = cw_limits s" "cw_dialect s' = cw_dialect s" "cw_entries s' = cw_entries s"
    "cw_link_targets s' = cw_link_targets s" "cw_open s' = cw_open s"
  using assms
  by (auto simp: stage_header_def Let_def split: sum.splits prod.splits option.splits)

lemma cpio_open_frame:
  assumes "cpio_open s md = (s', r)"
  shows "cw_pending_pos s' = cw_pending_pos s" "cw_done s' = cw_done s" "cw_finishing s' = cw_finishing s"
  using assms
  by (auto simp: cpio_open_def Let_def dest: stage_header_frame
      split: sum.splits prod.splits option.splits if_splits)

lemma cpio_close_frame:
  assumes "cpio_close s = (s', r)"
  shows "cw_pending_pos s' = cw_pending_pos s" "cw_done s' = cw_done s" "cw_finishing s' = cw_finishing s"
  using assms by (auto simp: cpio_close_def Let_def split: if_splits)

lemma cpio_closing [simp]:
  "cpio_queue (s\<lparr>cw_done := b\<rparr>) = cpio_queue s" "cpio_core (s\<lparr>cw_done := b\<rparr>) = cpio_core s"
  by (simp_all add: cpio_queue_def cpio_core_def)

lemma cpio_drain:
  assumes "cw_pending_pos s \<le> length (cw_pending s)" and "cpio_drain_pending s n = (s', out)"
  shows "out = take n (cpio_queue s)" "cpio_queue s' = drop n (cpio_queue s)" "cpio_core s' = cpio_core s"
    "cw_done s' = cw_done s" "cw_finishing s' = cw_finishing s" "cw_pending s' = [] \<longleftrightarrow> cpio_queue s' = []"
    "length out = min n (length (cpio_queue s))"
    "if cw_pending s' = [] then cw_pending_pos s' = 0 else cw_pending_pos s' < length (cw_pending s')"
  using assms
  by (auto simp: cpio_drain_pending_def cpio_queue_def cpio_core_def slice_def min_def Let_def add.commute
      split: if_splits)

lemma cpio_idle:
  assumes "cpio_enc_inv s" and "\<not> cw_done s" and "cpio_queue s = []"
  shows "cw_pending s = []" "cw_pending_pos s = 0" "\<not> cw_finishing s" "cpio_core s = s"
proof -
  show p: "cw_pending s = []" using assms by (auto simp: cpio_enc_inv_def cpio_queue_def split: if_splits)
  with assms show q: "cw_pending_pos s = 0" "\<not> cw_finishing s" by (auto simp: cpio_enc_inv_def)
  show "cpio_core s = s" using p q assms(2) by (cases s) (simp add: cpio_core_def)
qed

lemma cpio_step_drains:
  assumes "cpio_enc_inv s" and "\<not> cw_done s" and "cpio_queue s \<noteq> []"
  shows "\<exists>s' st. cpio_enc_step s cmd n =
      (s', Inr (estep 0 (min n (length (cpio_queue s))) st, take n (cpio_queue s))) \<and>
    cpio_enc_inv s' \<and> cpio_core s' = cpio_core s \<and> cpio_queue s' = drop n (cpio_queue s) \<and>
    (st = EncDone \<longleftrightarrow> cw_done s') \<and> (cw_done s' \<longrightarrow> cpio_queue s' = [] \<and> cw_finishing (cpio_core s))"
proof -
  obtain s1 out where d: "cpio_drain_pending s n = (s1, out)" by force
  have le: "cw_pending_pos s \<le> length (cw_pending s)"
    using assms(1) by (auto simp: cpio_enc_inv_def split: if_splits)
  note facts = cpio_drain [OF le d]
  have ne: "cw_pending s \<noteq> []" using assms(3) by (auto simp: cpio_queue_def)
  define s2 where "s2 = (if cw_pending s1 = [] \<and> cw_finishing s1 then s1\<lparr>cw_done := True\<rparr> else s1)"
  define st where "st = (if cw_pending s1 = [] \<and> cw_finishing s1 then EncDone else cpio_drained s1)"
  have run: "cpio_enc_step s cmd n =
      (s2, Inr (estep 0 (min n (length (cpio_queue s))) st, take n (cpio_queue s)))"
    unfolding cpio_enc_step_def s2_def st_def facts(7) [symmetric] facts(1) [symmetric]
    by (cases "cw_pending s1 = [] \<and> cw_finishing s1")
      (simp_all only: ne assms(2) d if_False if_True Let_def prod.case not_False_eq_True simp_thms)
  have q: "cpio_queue s2 = drop n (cpio_queue s)" "cpio_core s2 = cpio_core s"
    using facts(2,3) by (simp_all add: s2_def)
  have dn: "cw_done s2 \<longleftrightarrow> cw_pending s1 = [] \<and> cw_finishing s1" "st = EncDone \<longleftrightarrow> cw_done s2"
    using facts(4) assms(2) by (simp_all add: s2_def st_def cpio_drained_def)
  have inv: "cpio_enc_inv s2"
    using facts(4,5,8) assms(2) by (simp add: s2_def cpio_enc_inv_def)
  have "cw_done s2 \<longrightarrow> cpio_queue s2 = [] \<and> cw_finishing (cpio_core s)"
    using dn facts(2,5,6) q by (simp add: cpio_core_def)
  with run q dn(2) inv show ?thesis by blast
qed

lemma cpio_control_step:
  assumes "\<not> cw_done s" and "cw_pending_pos s = 0" and "\<not> cw_finishing s"
    and r: "staged r = Inr (c, bs)"
    and fr: "\<And>s'. fst r = s' \<Longrightarrow> cw_pending_pos s' = cw_pending_pos s \<and> cw_done s' = cw_done s \<and>
      cw_finishing s' = cw_finishing s"
  shows "\<exists>s' st. cpio_control r n = (s', Inr (estep 1 (min n (length bs)) st, take n bs)) \<and>
    cpio_enc_inv s' \<and> \<not> cw_done s' \<and> cpio_core s' = c \<and> cpio_queue s' = drop n bs"
proof -
  from r obtain s1 where s1: "r = (s1, Inr ())" "c = s1\<lparr>cw_pending := []\<rparr>" "bs = cw_pending s1"
    by (auto simp: staged_def split: prod.splits sum.splits)
  obtain s2 out where d: "cpio_drain_pending s1 n = (s2, out)" by force
  have z: "cw_pending_pos s1 = 0" "\<not> cw_done s1" "\<not> cw_finishing s1" using fr [of s1] s1 assms(1-3) by auto
  note facts = cpio_drain [OF _ d]
  have q: "cpio_queue s1 = bs" using z s1 by (simp add: cpio_queue_def)
  have "cpio_core s1 = c" using z s1(2) by (cases s1) (simp add: cpio_core_def)
  then have "cpio_core s2 = c" "cpio_queue s2 = drop n bs" "\<not> cw_done s2"
    using facts z q by simp_all
  moreover have "cpio_enc_inv s2" using facts(5,8) z by (simp add: cpio_enc_inv_def)
  moreover have "cpio_control r n = (s2, Inr (estep 1 (min n (length bs)) (cpio_drained s2), take n bs))"
    using facts(1,7) z q s1 d by (simp add: cpio_control_def)
  ultimately show ?thesis by blast
qed

lemma cpio_trailer_frame:
  assumes "cpio_trailer s = (s', Inr ())"
  shows "cw_pending_pos s' = cw_pending_pos s" "cw_done s' = cw_done s" "cw_finishing s'"
proof -
  obtain s1 r where st: "stage_header s TRAILER None = (s1, r)" by force
  then have "s' = s1\<lparr>cw_finishing := True\<rparr>"
    using assms by (cases r) (simp_all add: cpio_trailer_def split: if_splits)
  with stage_header_frame [OF st] show "cw_pending_pos s' = cw_pending_pos s" "cw_done s' = cw_done s"
    "cw_finishing s'" by simp_all
qed

lemma cpio_finish_accepted:
  assumes "cpio_enc_inv s" and "\<not> cw_done s" and "cpio_queue s = []"
    and acc: "cpio_accept (cpio_core s) EncFinish = Inr (c, bs)"
  shows "\<exists>s' st. cpio_enc_step s EncFinish n =
      (s', Inr (estep 1 (min n (length bs)) st, take n bs)) \<and>
    cpio_enc_inv s' \<and> cpio_core s' = c \<and> cpio_queue s' = drop n bs \<and> (st = EncDone \<longleftrightarrow> cw_done s') \<and>
    (cw_done s' \<longleftrightarrow> cpio_queue s' = [])"
proof -
  note idle = cpio_idle [OF assms(1-3)]
  from acc have "staged (cpio_trailer s) = Inr (c, bs)" using idle by (simp add: cpio_accept_def)
  then obtain s1 where s1: "cpio_trailer s = (s1, Inr ())" "c = s1\<lparr>cw_pending := []\<rparr>" "bs = cw_pending s1"
    by (auto simp: staged_def split: prod.splits sum.splits)
  note fr = cpio_trailer_frame [OF s1(1)]
  obtain s2 out where d: "cpio_drain_pending s1 n = (s2, out)" by force
  have z: "cw_pending_pos s1 = 0" "\<not> cw_done s1" using fr idle assms(2) by simp_all
  then have "cw_pending_pos s1 \<le> length (cw_pending s1)" by simp
  note facts = cpio_drain [OF this d]
  have q: "cpio_queue s1 = bs" "cpio_core s1 = c"
    using z s1 by (cases s1, simp add: cpio_queue_def cpio_core_def)+
  define s3 where "s3 = (if cw_pending s2 = [] then s2\<lparr>cw_done := True\<rparr> else s2)"
  have run: "cpio_enc_step s EncFinish n =
      (s3, Inr (estep 1 (min n (length bs)) (if cw_done s3 then EncDone else EncNeedOutput), take n bs))"
    using facts(1,7) q(1)
    by (simp add: cpio_enc_step_def cpio_enc_finish_def assms(2) idle(1) s1(1) d s3_def [symmetric]
        del: cpio_closing)
  have dn: "cw_done s3 \<longleftrightarrow> cpio_queue s2 = []" "cpio_queue s3 = cpio_queue s2" "cpio_core s3 = c"
    using facts(2,3,4,6) q z by (simp_all add: s3_def)
  have inv: "cpio_enc_inv s3" using facts(5,8) by (simp add: s3_def cpio_enc_inv_def)
  show ?thesis
    by (rule exI [of _ s3], rule exI [of _ "if cw_done s3 then EncDone else EncNeedOutput"])
      (use run dn inv facts(2) q in simp)
qed

lemma cpio_control_accepted:
  assumes "cpio_enc_inv s" and "\<not> cw_done s" and "cpio_queue s = []"
    and "(\<exists>m. cmd = BeginEntry m) \<or> cmd = EncEndEntry"
    and acc: "cpio_accept (cpio_core s) cmd = Inr (c, bs)"
  shows "\<exists>s' st. cpio_enc_step s cmd n = (s', Inr (estep 1 (min n (length bs)) st, take n bs)) \<and>
    cpio_enc_inv s' \<and> \<not> cw_done s' \<and> cpio_core s' = c \<and> cpio_queue s' = drop n bs"
proof -
  note idle = cpio_idle [OF assms(1-3)]
  show ?thesis
  proof (cases "cmd = EncEndEntry")
    case True
    have "\<And>s'. fst (cpio_close s) = s' \<Longrightarrow> cw_pending_pos s' = cw_pending_pos s \<and>
        cw_done s' = cw_done s \<and> cw_finishing s' = cw_finishing s"
      using cpio_close_frame [of s] by (metis prod.collapse)
    with acc True idle have "\<exists>s' st. cpio_control (cpio_close s) n =
        (s', Inr (estep 1 (min n (length bs)) st, take n bs)) \<and>
      cpio_enc_inv s' \<and> \<not> cw_done s' \<and> cpio_core s' = c \<and> cpio_queue s' = drop n bs"
      by (intro cpio_control_step [OF assms(2)]) (simp_all add: cpio_accept_def)
    with True idle assms(2) show ?thesis by (simp add: cpio_enc_step_def)
  next
    case False
    with assms(4) obtain md where md: "cmd = BeginEntry md" by blast
    have "\<And>s'. fst (cpio_open s md) = s' \<Longrightarrow> cw_pending_pos s' = cw_pending_pos s \<and>
        cw_done s' = cw_done s \<and> cw_finishing s' = cw_finishing s"
      using cpio_open_frame [of s md] by (metis prod.collapse)
    with acc md idle have "\<exists>s' st. cpio_control (cpio_open s md) n =
        (s', Inr (estep 1 (min n (length bs)) st, take n bs)) \<and>
      cpio_enc_inv s' \<and> \<not> cw_done s' \<and> cpio_core s' = c \<and> cpio_queue s' = drop n bs"
      by (intro cpio_control_step [OF assms(2)]) (simp_all add: cpio_accept_def)
    with md idle assms(2) show ?thesis by (simp add: cpio_enc_step_def)
  qed
qed

lemma cpio_data_accepted:
  assumes "cpio_enc_inv s" and "\<not> cw_done s" and "cpio_queue s = []"
    and acc: "cpio_accept (cpio_core s) (EncData xs) = Inr (c, bs)"
  shows "\<exists>s' st. cpio_enc_step s (EncData xs) n =
          (s', Inr (estep (min n (length xs)) (min n (length xs)) st, take n xs)) \<and>
        cpio_enc_inv s' \<and> \<not> cw_done s' \<and> cpio_queue s' = [] \<and>
        cpio_accept (cpio_core s') (EncData (drop n xs)) = Inr (c, drop n xs)"
proof -
  note idle = cpio_idle [OF assms(1-3)]
  let ?k = "min (length xs) n"
  let ?s = "s\<lparr>cw_actual := cpio_sum (cw_actual s) (take n xs), cw_remaining := cw_remaining s - ?k\<rparr>"
  have op: "cw_open s" "length xs \<le> cw_remaining s"
    and c: "c = s\<lparr>cw_actual := cpio_sum (cw_actual s) xs, cw_remaining := cw_remaining s - length xs\<rparr>"
    using acc idle by (auto simp: cpio_accept_def split: if_splits)
  have tk: "take ?k xs = take n xs" by (simp add: min_def)
  have "cpio_enc_step s (EncData xs) n = (?s, Inr (estep (min n (length xs)) (min n (length xs))
      (if ?k = length xs then EncNeedCommand else EncNeedOutput), take n xs))"
    using assms(2) idle op by (simp add: cpio_enc_step_def cpio_enc_data_def Let_def tk min.commute)
  moreover have "cpio_enc_inv ?s" "\<not> cw_done ?s" "cpio_queue ?s = []"
    using assms by (simp_all add: cpio_enc_inv_def cpio_queue_def)
  moreover have "cpio_core ?s = ?s" using idle assms(2) by (simp add: cpio_core_def)
  then have "cpio_accept (cpio_core ?s) (EncData (drop n xs)) = Inr (c, drop n xs)"
    using op idle by (auto simp: cpio_accept_def c cpio_sum_append [symmetric] min_def)
  ultimately show ?thesis by blast
qed

lemma cpio_data_out: "cpio_accept c (EncData xs) = Inr (c', bs) \<Longrightarrow> bs = xs"
  by (auto simp: cpio_accept_def split: if_splits)

interpretation cpio_enc: archive_encoder cpio_enc_step cpio_enc_inv cpio_core cpio_queue cw_done
  cw_finishing cpio_accept
proof unfold_locales
  fix s cmd n
  assume "cpio_enc_inv s" "\<not> cw_done s" "cpio_queue s \<noteq> []"
  then show "\<exists>s' st. cpio_enc_step s cmd n =
      (s', Inr (estep 0 (min n (length (cpio_queue s))) st, take n (cpio_queue s))) \<and>
    cpio_enc_inv s' \<and> cpio_core s' = cpio_core s \<and> cpio_queue s' = drop n (cpio_queue s) \<and>
    (st = EncDone \<longleftrightarrow> cw_done s') \<and> (cw_done s' \<longrightarrow> cpio_queue s' = [] \<and> cw_finishing (cpio_core s))"
    by (rule cpio_step_drains)
next
  fix s cmd c bs n
  assume "cpio_enc_inv s" "\<not> cw_done s" "cpio_queue s = []"
    "(\<exists>m. cmd = BeginEntry m) \<or> cmd = EncEndEntry" "cpio_accept (cpio_core s) cmd = Inr (c, bs)"
  then show "\<exists>s' st. cpio_enc_step s cmd n = (s', Inr (estep 1 (min n (length bs)) st, take n bs)) \<and>
      cpio_enc_inv s' \<and> \<not> cw_done s' \<and> cpio_core s' = c \<and> cpio_queue s' = drop n bs"
    by (rule cpio_control_accepted)
next
  fix s xs c bs and n :: nat
  assume s: "cpio_enc_inv s" "\<not> cw_done s" "cpio_queue s = []" "xs \<noteq> []" "0 < n"
    and acc: "cpio_accept (cpio_core s) (EncData xs) = Inr (c, bs)"
  then show "\<exists>s' st k p. cpio_enc_step s (EncData xs) n = (s', Inr (estep k p st, take p bs)) \<and>
        0 < k \<and> k \<le> length xs \<and> p \<le> length bs \<and>
        cpio_enc_inv s' \<and> \<not> cw_done s' \<and> cpio_queue s' = [] \<and>
        cpio_accept (cpio_core s') (EncData (drop k xs)) = Inr (c, drop p bs)"
    unfolding cpio_data_out [OF acc] by (intro copied_data cpio_data_accepted)
next
  fix s c bs n
  assume "cpio_enc_inv s" "\<not> cw_done s" "cpio_queue s = []" "cpio_accept (cpio_core s) EncFinish = Inr (c, bs)"
  then show "\<exists>s' st. cpio_enc_step s EncFinish n = (s', Inr (estep 1 (min n (length bs)) st, take n bs)) \<and>
      cpio_enc_inv s' \<and> cpio_core s' = c \<and> cpio_queue s' = drop n bs \<and> (st = EncDone \<longleftrightarrow> cw_done s') \<and>
      (cw_done s' \<longleftrightarrow> cpio_queue s' = [])"
    by (rule cpio_finish_accepted)
next
  fix c c' bs
  assume "cpio_accept c (EncData []) = Inr (c', bs)"
  then show "c' = c \<and> bs = []" by (cases c) (auto simp: cpio_accept_def cpio_sum_def split: if_splits)
next
  fix c c' bs
  assume a: "cpio_accept c EncFinish = Inr (c', bs)"
  show "cpio_accept c' EncFinish = Inr (c', [])"
  proof (cases "cw_finishing c")
    case False
    with a obtain s1 where "cpio_trailer c = (s1, Inr ())" "c' = s1\<lparr>cw_pending := []\<rparr>"
      by (auto simp: cpio_accept_def staged_def split: prod.splits sum.splits)
    with cpio_trailer_frame [of c s1] show ?thesis by (simp add: cpio_accept_def)
  qed (use a in \<open>simp add: cpio_accept_def\<close>)
next
  fix c cmd c' bs
  assume "cw_finishing c" "cpio_accept c cmd = Inr (c', bs)"
  then show "cmd = EncFinish" by (simp add: cpio_accept_def split: if_splits)
next
  fix c cmd c' bs
  assume "cpio_accept c cmd = Inr (c', bs)" "cmd \<noteq> EncFinish"
  then show "\<not> cw_finishing c'"
    by (cases cmd) (auto simp: cpio_accept_def staged_def dest!: cpio_open_frame cpio_close_frame
        split: if_splits prod.splits sum.splits)
qed

end
