(* ===== verification/Oxide_Sized.thy ===== *)
theory Oxide_Sized
  imports Oxide_Protocol
begin

text \<open>
  Declared sizes. Every format announces an entry with the size of its payload before the payload
  itself. The locale \<open>sized_decoder\<close> states, as laws on single steps, that a decoder keeps account of
  what it still owes of the current entry; its lemma says that in every complete trace the payload
  of each finished entry has exactly the announced length, entries never nest, payload never appears
  outside an entry and the archive never ends inside one.
\<close>

text \<open>
  What an entry stores in the archive: its declared size, except that a member of a thin \<open>ar\<close>
  archive, which the decoder marks with the \<open>ar-thin\<close> extension, stores nothing.
\<close>

definition stored_size :: "entry_metadata \<Rightarrow> int option" where
  "stored_size md =
     (if \<exists>x \<in> set (md_extensions md). ext_namespace x = ''ar-thin'' then map_option (\<lambda>_. 0) (md_size md)
      else map_option int (md_size md))"

text \<open>
  \<open>sizes_ok cur evs\<close> checks a trace, \<open>cur\<close> being what the open entry still owes. Sizes are
  integers so that an overdelivered entry is distinguishable from an exact one.
\<close>

fun sizes_ok :: "int option \<Rightarrow> decode_event list \<Rightarrow> bool" where
  "sizes_ok cur [] = True"
| "sizes_ok cur (EvEntry md # evs) =
     (cur = None \<and> stored_size md \<noteq> None \<and> sizes_ok (stored_size md) evs)"
| "sizes_ok cur (EvData bs # evs) =
     (case cur of None \<Rightarrow> False | Some n \<Rightarrow> sizes_ok (Some (n - int (length bs))) evs)"
| "sizes_ok cur (EvEndEntry # evs) = (cur = Some 0 \<and> sizes_ok None evs)"
| "sizes_ok cur (EvDone # evs) = (cur = None \<and> evs = [])"
| "sizes_ok cur (_ # evs) = sizes_ok cur evs"

text \<open>The effect of one event on the account.\<close>

definition owes_after :: "int option \<Rightarrow> decode_event \<Rightarrow> int option \<Rightarrow> bool" where
  "owes_after cur ev cur' \<longleftrightarrow>
     (case ev of
        EvEntry md \<Rightarrow> cur = None \<and> cur' \<noteq> None \<and> cur' = stored_size md
      | EvData bs \<Rightarrow> (\<exists>n. cur = Some n \<and> cur' = Some (n - int (length bs)))
      | EvEndEntry \<Rightarrow> cur = Some 0 \<and> cur' = None
      | EvDone \<Rightarrow> cur = None
      | _ \<Rightarrow> cur' = cur)"

lemma sizes_ok_Cons:
  "owes_after cur ev cur' \<Longrightarrow> ev \<noteq> EvDone \<Longrightarrow> sizes_ok cur' evs \<Longrightarrow> sizes_ok cur (ev # evs)"
  by (cases ev) (auto simp: owes_after_def)

locale sized_decoder = stepping_decoder +
  fixes sized :: "'a \<Rightarrow> bool" and owed :: "'a \<Rightarrow> int option"
  assumes sized_step: "inv s \<Longrightarrow> sized s \<Longrightarrow> step s input e = (s', Inr d) \<Longrightarrow> sized s'"
    and owed_step: "inv s \<Longrightarrow> sized s \<Longrightarrow> step s input e = (s', Inr d) \<Longrightarrow>
      owes_after (owed s) (ds_event d) (owed s')"
begin

lemma decode_all_sizes:
  assumes "decode_all step s input = Some (evs, r)" and "inv s" and "sized s"
  shows "sizes_ok (owed s) evs"
proof -
  have "sized s \<longrightarrow> sizes_ok (owed s) evs"
    using assms(1,2)
  proof (induction rule: decode_all_step_induct)
    case (err s input s' err)
    then show ?case by simp
  next
    case (fin s input s' d)
    then show ?case using owed_step [of s input End s' d] by (auto simp: owes_after_def)
  next
    case (rec s input s' d evs r)
    then show ?case using owed_step [of s input End s' d] sized_step [of s input End s' d] sizes_ok_Cons by blast
  qed
  with assms(3) show ?thesis by blast
qed

lemma decode_all_sized:
  assumes "inv s" and "sized s" and "owed s = None"
  shows "\<exists>evs r. decode_all step s input = Some (evs, r) \<and> sizes_ok None evs"
  using decode_all_returns [OF assms(1), of input] decode_all_sizes [OF _ assms(1,2)] assms(3) by metis

end

end
