(* ===== verification/Oxide_Tar_Header.thy ===== *)
theory Oxide_Tar_Header
  imports Oxide_Protocol
begin

text \<open>
  The field layer of \<open>format/tar.rs\<close>: header layout, C strings, octal and base-256 numbers, block
  rounding, header checksums and type flags. The theory proves that a number written into a field
  is read back, and that a header sealed by \<open>write_checksum\<close> verifies.
\<close>

section \<open>Layout\<close>

definition BLOCK :: nat where "BLOCK = 512"

definition F_NAME_tar :: "nat \<times> nat" where "F_NAME_tar = (0, 100)"
definition F_MODE_tar :: "nat \<times> nat" where "F_MODE_tar = (100, 108)"
definition F_UID_tar :: "nat \<times> nat" where "F_UID_tar = (108, 116)"
definition F_GID_tar :: "nat \<times> nat" where "F_GID_tar = (116, 124)"
definition F_SIZE_tar :: "nat \<times> nat" where "F_SIZE_tar = (124, 136)"
definition F_MTIME_tar :: "nat \<times> nat" where "F_MTIME_tar = (136, 148)"
definition F_CHKSUM :: "nat \<times> nat" where "F_CHKSUM = (148, 156)"
definition O_TYPEFLAG :: nat where "O_TYPEFLAG = 156"
definition F_LINKNAME :: "nat \<times> nat" where "F_LINKNAME = (157, 257)"
definition F_MAGIC_tar :: "nat \<times> nat" where "F_MAGIC_tar = (257, 263)"
definition F_UNAME :: "nat \<times> nat" where "F_UNAME = (265, 297)"
definition F_GNAME :: "nat \<times> nat" where "F_GNAME = (297, 329)"
definition F_DEVMAJOR :: "nat \<times> nat" where "F_DEVMAJOR = (329, 337)"
definition F_DEVMINOR :: "nat \<times> nat" where "F_DEVMINOR = (337, 345)"
definition F_PREFIX :: "nat \<times> nat" where "F_PREFIX = (345, 500)"
definition GNU_SPARSE_START :: nat where "GNU_SPARSE_START = 386"
definition GNU_SPARSE_COUNT :: nat where "GNU_SPARSE_COUNT = 4"
definition GNU_SPARSE_EXTENDED :: nat where "GNU_SPARSE_EXTENDED = 482"
definition GNU_SPARSE_REALSIZE :: "nat \<times> nat" where "GNU_SPARSE_REALSIZE = (483, 495)"
definition GNU_SPARSE_EXT_COUNT :: nat where "GNU_SPARSE_EXT_COUNT = 21"

lemmas tar_layout = BLOCK_def F_NAME_tar_def F_MODE_tar_def F_UID_tar_def F_GID_tar_def F_SIZE_tar_def
  F_MTIME_tar_def F_CHKSUM_def O_TYPEFLAG_def F_LINKNAME_def F_MAGIC_tar_def F_UNAME_def F_GNAME_def
  F_DEVMAJOR_def F_DEVMINOR_def F_PREFIX_def

abbreviation tar_err :: "error_kind \<Rightarrow> string \<Rightarrow> archive_error" where
  "tar_err \<equiv> format_error ''tar''"

definition field :: "bytes \<Rightarrow> nat \<times> nat \<Rightarrow> bytes" where
  "field hdr r = slice hdr (fst r) (snd r)"

definition cstr :: "bytes \<Rightarrow> bytes" where
  "cstr fld = take (opt_or (length fld) (position (\<lambda>b. b = 0) fld)) fld"

definition join_prefix_name :: "bytes \<Rightarrow> bytes \<Rightarrow> bytes" where
  "join_prefix_name pre name = pre @ [47] @ name"

definition kind_from_typeflag :: "byte \<Rightarrow> entry_kind" where
  "kind_from_typeflag tf =
     (if tf = 53 then KindDir
      else if tf = 49 then KindHardlink
      else if tf = 50 then KindSymlink
      else if tf = 51 then KindChar
      else if tf = 52 then KindBlock
      else if tf = 54 then KindFifo
      else KindFile)"

fun typeflag_for :: "entry_kind \<Rightarrow> error + byte" where
  "typeflag_for KindFile = Inr 48"
| "typeflag_for KindDir = Inr 53"
| "typeflag_for KindSymlink = Inr 50"
| "typeflag_for KindHardlink = Inr 49"
| "typeflag_for KindChar = Inr 51"
| "typeflag_for KindBlock = Inr 52"
| "typeflag_for KindFifo = Inr 54"
| "typeflag_for KindSocket = Inl (Unsupported ''tar: unsupported entry kind for write'')"

section \<open>Reading numbers\<close>

fun base256_loop :: "nat \<Rightarrow> bytes \<Rightarrow> error + nat" where
  "base256_loop val [] = Inr val"
| "base256_loop val (b # bs) =
     bindE (ok_or (Malformed ''base-256 numeric overflow'')
              (Option.bind (checked_mul val 256) (\<lambda>v. checked_add v (unat b))))
       (\<lambda>v. base256_loop v bs)"

fun octal_field_loop :: "nat \<Rightarrow> bool \<Rightarrow> bytes \<Rightarrow> error + nat" where
  "octal_field_loop val seen [] = Inr val"
| "octal_field_loop val seen (b # bs) =
     (if b = 32 \<or> b = 0 then (if seen then Inr val else octal_field_loop val seen bs)
      else if 48 \<le> b \<and> b \<le> 55 then
        bindE (ok_or (Malformed ''octal numeric overflow'')
                 (Option.bind (checked_mul val 8) (\<lambda>v. checked_add v (unat (b - 48)))))
          (\<lambda>v. octal_field_loop v True bs)
      else Inl (Malformed ''invalid octal digit''))"

definition parse_numeric :: "bytes \<Rightarrow> error + nat" where
  "parse_numeric fld =
     (case fld of
        [] \<Rightarrow> Inr 0
      | first # rest \<Rightarrow>
          if first AND 0x80 \<noteq> 0 then base256_loop (unat (first AND 0x7f)) rest
          else octal_field_loop 0 False fld)"

definition tar_usize_of :: "nat \<Rightarrow> error + nat" where
  "tar_usize_of v = (if v \<le> usize_max then Inr v else Inl (LimitExceeded ''size exceeds usize''))"

definition round_up :: "nat \<Rightarrow> error + nat" where
  "round_up sz =
     bindE (tar_usize_of sz) (\<lambda>sz.
     bindE (ok_or (Malformed ''size overflow'') (checked_add sz (BLOCK - 1))) (\<lambda>t.
     ok_or (Malformed ''size overflow'') (checked_mul (t div BLOCK) BLOCK)))"

section \<open>Checksums\<close>

text \<open>The checksum field itself counts as eight spaces.\<close>

definition chk_byte :: "nat \<times> byte \<Rightarrow> byte" where
  "chk_byte p = (if fst F_CHKSUM \<le> fst p \<and> fst p < snd F_CHKSUM then 32 else snd p)"

definition unsigned_sum :: "bytes \<Rightarrow> nat" where
  "unsigned_sum hdr = sum_list (map (unat \<circ> chk_byte) (enumerate 0 hdr))"

definition signed_sum :: "bytes \<Rightarrow> int" where
  "signed_sum hdr = sum_list (map (sint \<circ> chk_byte) (enumerate 0 hdr))"

definition verify_checksum :: "bytes \<Rightarrow> error + unit" where
  "verify_checksum hdr =
     bindE (parse_numeric (field hdr F_CHKSUM)) (\<lambda>stored.
     if stored = unsigned_sum hdr \<or> signed_sum hdr = int stored then Inr ()
     else Inl (Malformed ''header checksum mismatch''))"

section \<open>Writing numbers\<close>

definition fits_octal :: "nat \<Rightarrow> nat \<Rightarrow> bool" where
  "fits_octal val digits \<longleftrightarrow> 22 \<le> digits \<or> val < 2 ^ (3 * digits)"

text \<open>The digit loop of \<open>put_octal\<close> fills \<open>n\<close> slots from the right.\<close>

fun octal_digits :: "nat \<Rightarrow> nat \<Rightarrow> bytes" where
  "octal_digits 0 v = []"
| "octal_digits (Suc n) v = octal_digits n (v div 8) @ [48 + of_nat (v AND 7)]"

text \<open>\<open>u64::to_be_bytes\<close> is \<open>be_bytes 8\<close>.\<close>

fun be_bytes :: "nat \<Rightarrow> nat \<Rightarrow> bytes" where
  "be_bytes 0 v = []"
| "be_bytes (Suc n) v = be_bytes n (v div 256) @ [of_nat v]"

text \<open>A field of \<open>n\<close> bytes with the value in it.\<close>

definition put_base256 :: "nat \<Rightarrow> nat \<Rightarrow> error + bytes" where
  "put_base256 n val =
     (let capacity = n - 1; bs = be_bytes 8 val in
      if capacity < 8 \<and> (\<exists>b \<in> set (take (8 - capacity) bs). b \<noteq> 0)
      then Inl (Unsupported ''tar: value too large for numeric field'')
      else let taken = min capacity 8 in
        Inr (0x80 # replicate (n - 1 - taken) 0 @ drop (8 - taken) bs))"

definition tar_put_octal :: "nat \<Rightarrow> nat \<Rightarrow> error + bytes" where
  "tar_put_octal n val =
     (if fits_octal val (n - 1) then Inr (octal_digits (n - 1) val @ [0]) else put_base256 n val)"

definition write_checksum :: "bytes \<Rightarrow> error + bytes" where
  "write_checksum h =
     (let h = copy_at h (fst F_CHKSUM) (replicate 8 32);
          total = sum_list (map unat h) in
      bindE (tar_put_octal 7 total) (\<lambda>ds.
      Inr (copy_at h (fst F_CHKSUM) (ds @ [32]))))"

definition copy_field :: "nat \<Rightarrow> bytes \<Rightarrow> bytes" where
  \<comment> \<open>the contents of a field of \<open>n\<close> bytes\<close>
  "copy_field n value = (let count = min n (length value) in take count value @ replicate (n - count) 0)"

section \<open>Numbers survive a field\<close>

lemma length_octal_digits [simp]: "length (octal_digits n v) = n"
  by (induction n arbitrary: v) simp_all

lemma length_be_bytes [simp]: "length (be_bytes n v) = n"
  by (induction n arbitrary: v) simp_all

lemma octal_digit_byte:
  defines "d v \<equiv> (48 + of_nat (v AND 7) :: byte)"
  shows "d v \<noteq> 32" "d v \<noteq> 0" "48 \<le> d v" "d v \<le> 55" "unat (d v - 48) = v mod 8" "d v AND 0x80 = 0"
proof -
  have "v AND 7 = v mod 8" by (simp add: and_mask_nat)
  moreover have "v mod 8 < 8" by simp
  then have "v mod 8 \<in> {0, 1, 2, 3, 4, 5, 6, 7}" by auto
  ultimately show "d v \<noteq> 32" "d v \<noteq> 0" "48 \<le> d v" "d v \<le> 55" "unat (d v - 48) = v mod 8" "d v AND 0x80 = 0"
    unfolding d_def by auto
qed

lemma checked_digit:
  "v \<le> u64_max \<Longrightarrow> Option.bind (checked_mul (v div r) r) (\<lambda>x. checked_add x (v mod r)) = Some v"
  using div_times_less_eq_dividend [of v r] by (simp add: checked_mul_def checked_add_def del: div_times_less_eq_dividend)

lemma octal_loop_digits:
  assumes "v < 8 ^ n" and "v \<le> u64_max"
  shows "octal_field_loop 0 seen (octal_digits n v @ bs) = octal_field_loop v (seen \<or> 0 < n) bs"
  using assms
proof (induction n arbitrary: v bs)
  case 0
  then show ?case by simp
next
  case (Suc n)
  from Suc.prems have "v div 8 < 8 ^ n" by (simp add: less_mult_imp_div_less mult.commute)
  moreover have "v div 8 \<le> u64_max" using Suc.prems(2) div_le_dividend le_trans by blast
  moreover have "Option.bind (checked_mul (v div 8) 8) (\<lambda>x. checked_add x (v mod 8)) = Some v"
    using Suc.prems(2) checked_digit [of v 8] by simp
  ultimately show ?case
    using Suc.IH [of "v div 8"] Suc.prems octal_digit_byte [of v] by simp
qed

lemma base256_loop_be:
  assumes "v < 256 ^ n" and "v \<le> u64_max"
  shows "base256_loop 0 (be_bytes n v @ bs) = base256_loop v bs"
  using assms
proof (induction n arbitrary: v bs)
  case 0
  then show ?case by simp
next
  case (Suc n)
  from Suc.prems have "v div 256 < 256 ^ n" by (simp add: less_mult_imp_div_less mult.commute)
  moreover have "v div 256 \<le> u64_max" using Suc.prems(2) div_le_dividend le_trans by blast
  moreover have "Option.bind (checked_mul (v div 256) 256) (\<lambda>x. checked_add x (v mod 256)) = Some v"
    using Suc.prems(2) checked_digit [of v 256] by simp
  moreover have "unat (of_nat v :: byte) = v mod 256" by (simp add: unat_of_nat)
  ultimately show ?case
    using Suc.IH [of "v div 256"] Suc.prems by simp
qed

lemma base256_zeros [simp]: "base256_loop 0 (replicate k 0 @ bs) = base256_loop 0 bs"
  by (induction k) (simp_all add: checked_mul_def checked_add_def)

lemma be_bytes_split: "be_bytes (a + b) v = be_bytes a (v div 256 ^ b) @ be_bytes b v"
  by (induction b arbitrary: v) (simp_all add: div_mult2_eq)

lemma be_bytes_zero: "(\<forall>b \<in> set (be_bytes n v). b = 0) \<longleftrightarrow> v mod 256 ^ n = 0"
proof (induction n arbitrary: v)
  case 0
  then show ?case by simp
next
  case (Suc n)
  have "(of_nat v :: byte) = 0 \<longleftrightarrow> v mod 256 = 0"
    by (simp add: word_of_nat_eq_0_iff dvd_eq_mod_eq_0)
  moreover have "v mod (256 * 256 ^ n) = 256 * (v div 256 mod 256 ^ n) + v mod 256"
    by (simp add: mod_mult2_eq)
  ultimately show ?case using Suc by auto
qed

lemma be_bytes_small: "v < 256 ^ n \<Longrightarrow> (\<forall>b \<in> set (be_bytes n v). b = 0) \<longleftrightarrow> v = 0"
  by (simp add: be_bytes_zero)

lemma u64_less: "v \<le> u64_max \<Longrightarrow> v < 256 ^ 8" "v \<le> u64_max \<Longrightarrow> v < 8 ^ 22"
  by (simp_all add: u64_max_def)

lemma put_base256_ok:
  assumes "2 \<le> n" and "v \<le> u64_max"
  shows "put_base256 n v = (if v < 256 ^ (n - 1)
    then Inr (0x80 # replicate (n - 1 - min (n - 1) 8) 0 @ drop (8 - min (n - 1) 8) (be_bytes 8 v))
    else Inl (Unsupported ''tar: value too large for numeric field''))"
proof (cases "n - 1 < 8")
  case True
  define c where "c = n - 1"
  have c: "c < 8" "8 = (8 - c) + c" using True by (simp_all add: c_def)
  have "be_bytes 8 v = be_bytes (8 - c) (v div 256 ^ c) @ be_bytes c v"
    using be_bytes_split [of "8 - c" c v] c by simp
  then have "take (8 - c) (be_bytes 8 v) = be_bytes (8 - c) (v div 256 ^ c)" by simp
  moreover have "v div 256 ^ c < 256 ^ (8 - c)"
    using u64_less(1) [OF assms(2)] c by (simp add: less_mult_imp_div_less flip: power_add)
  then have "(\<forall>b \<in> set (be_bytes (8 - c) (v div 256 ^ c)). b = 0) \<longleftrightarrow> v < 256 ^ c"
    by (simp add: be_bytes_small div_eq_0_iff)
  ultimately show ?thesis
    using c unfolding put_base256_def Let_def c_def [symmetric] by auto
next
  case False
  then have "(256::nat) ^ 8 \<le> 256 ^ (n - 1)" by (intro power_increasing) auto
  with False u64_less(1) [OF assms(2)] show ?thesis by (simp add: put_base256_def)
qed

lemma parse_base256:
  assumes "v < 256 ^ (n - 1)" and "v \<le> u64_max" and "2 \<le> n"
  shows "parse_numeric (0x80 # replicate (n - 1 - min (n - 1) 8) 0 @ drop (8 - min (n - 1) 8) (be_bytes 8 v)) = Inr v"
proof -
  define k where "k = min (n - 1) 8"
  have "be_bytes 8 v = be_bytes (8 - k) (v div 256 ^ k) @ be_bytes k v"
    using be_bytes_split [of "8 - k" k v] by (simp add: k_def)
  then have d: "drop (8 - k) (be_bytes 8 v) = be_bytes k v" by simp
  have "v < 256 ^ k" using assms(1) u64_less(1) [OF assms(2)] by (simp add: k_def min_def)
  then show ?thesis
    using base256_loop_be [of v k "[]"] assms(2)
    unfolding k_def [symmetric] d by (simp add: parse_numeric_def)
qed

lemma octal_digits_head: "\<exists>d ds. octal_digits (Suc k) v = d # ds \<and> d AND 0x80 = 0"
proof (induction k arbitrary: v)
  case 0
  then show ?case using octal_digit_byte(6) by simp
next
  case (Suc k)
  from Suc.IH [of "v div 8"] obtain d ds where "octal_digits (Suc k) (v div 8) = d # ds" "d AND 0x80 = 0"
    by blast
  then show ?case by (simp only: octal_digits.simps(2) [of "Suc k"]) simp
qed

lemma parse_octal_field:
  assumes "v < 8 ^ (n - 1)" and "v \<le> u64_max" and "2 \<le> n"
  shows "parse_numeric (octal_digits (n - 1) v @ [0]) = Inr v"
proof -
  have "octal_field_loop 0 False (octal_digits (n - 1) v @ [0]) = Inr v"
    using octal_loop_digits [OF assms(1,2), of False "[0]"] assms(3) by simp
  moreover obtain k where k: "n - 1 = Suc k" using assms(3) by (metis One_nat_def Suc_diff_Suc Suc_le_lessD numeral_2_eq_2)
  moreover have "\<exists>d ds. octal_digits (Suc k) v = d # ds \<and> d AND 0x80 = 0"
    by (rule octal_digits_head)
  ultimately show ?thesis by (auto simp: parse_numeric_def simp del: octal_digits.simps)
qed

lemma put_octal_ok:
  assumes "2 \<le> n" and "v \<le> u64_max" and "v < 256 ^ (n - 1)"
  obtains fld where "tar_put_octal n v = Inr fld" "length fld = n" "parse_numeric fld = Inr v"
proof (cases "fits_octal v (n - 1)")
  case True
  then have "v < 8 ^ (n - 1)"
    using u64_less(2) [OF assms(2)] power_increasing [of 22 "n - 1" "8::nat"]
    by (auto simp: fits_octal_def power_mult simp del: power_increasing_iff)
  with True assms show thesis
    by (intro that [OF _ _ parse_octal_field]) (simp_all add: tar_put_octal_def)
next
  case False
  with assms show thesis
    by (intro that [OF _ _ parse_base256 [OF assms(3,2,1)]]) (simp_all add: tar_put_octal_def put_base256_ok)
qed

lemma put_octal_too_big:
  assumes "2 \<le> n" and "v \<le> u64_max" and "\<not> v < 256 ^ (n - 1)"
  shows "tar_put_octal n v = Inl (Unsupported ''tar: value too large for numeric field'')"
proof -
  have "\<not> fits_octal v (n - 1)"
  proof
    assume "fits_octal v (n - 1)"
    then have "v < 8 ^ (n - 1)"
      using u64_less(2) [OF assms(2)] power_increasing [of 22 "n - 1" "8::nat"]
      by (auto simp: fits_octal_def power_mult simp del: power_increasing_iff)
    also have "(8::nat) ^ (n - 1) \<le> 256 ^ (n - 1)" by (intro power_mono) auto
    finally show False using assms(3) by simp
  qed
  with assms show ?thesis by (simp add: tar_put_octal_def put_base256_ok)
qed

text \<open>
  C25. Numeric header fields are exact: a field of \<open>n\<close> bytes takes every value below
  \<open>256 ^ (n - 1)\<close>, in octal while it fits and in GNU base-256 otherwise, the field has exactly
  \<open>n\<close> bytes and \<open>parse_numeric\<close> reads the value back; every other value is refused, never
  truncated.
\<close>

theorem tar_numeric_roundtrip:
  assumes "2 \<le> n" and "v \<le> u64_max"
  shows "(case tar_put_octal n v of
      Inr fld \<Rightarrow> v < 256 ^ (n - 1) \<and> length fld = n \<and> parse_numeric fld = Inr v
    | Inl e \<Rightarrow> 256 ^ (n - 1) \<le> v \<and> e = Unsupported ''tar: value too large for numeric field'')"
proof (cases "v < 256 ^ (n - 1)")
  case True
  obtain fld where "tar_put_octal n v = Inr fld" "length fld = n" "parse_numeric fld = Inr v"
    using put_octal_ok [OF assms True] .
  with True show ?thesis by simp
next
  case False
  with put_octal_too_big [OF assms] show ?thesis by simp
qed

theorem tar_numeric_roundtrip_witness:
  "\<exists>fld. tar_put_octal 8 2097152 = Inr fld \<and> length fld = 8 \<and> parse_numeric fld = Inr 2097152"
  using tar_numeric_roundtrip [of 8 2097152] by (auto simp: u64_max_def split: sum.splits)

section \<open>Sealed headers verify\<close>

lemma chk_bytes:
  assumes "156 \<le> length h"
  shows "map chk_byte (enumerate 0 h) = copy_at h 148 (replicate 8 32)"
proof (rule nth_equalityI)
  show "length (map chk_byte (enumerate 0 h)) = length (copy_at h 148 (replicate 8 32))"
    using assms by (simp add: copy_at_def)
  fix i assume "i < length (map chk_byte (enumerate 0 h))"
  then have "i < length h" by simp
  with assms show "map chk_byte (enumerate 0 h) ! i = copy_at h 148 (replicate 8 32) ! i"
    by (auto simp: nth_enumerate_eq chk_byte_def F_CHKSUM_def copy_at_def nth_append nth_Cons' min_def)
qed

lemma sums_eq:
  assumes "156 \<le> length h"
  shows "unsigned_sum h = sum_list (map unat (copy_at h 148 (replicate 8 32)))"
    "signed_sum h = sum_list (map sint (copy_at h 148 (replicate 8 32)))"
  by (simp_all add: unsigned_sum_def signed_sum_def chk_bytes [OF assms] flip: map_map)

lemma copy_at_twice: "length xs = length ys \<Longrightarrow> copy_at (copy_at h a xs) a ys = copy_at h a ys"
  if "a + length xs \<le> length h"
  using that by (simp add: copy_at_def)

lemma byte_le: "unat (b :: byte) \<le> 255"
  using unsigned_less [of b, where ?'a = nat] by simp

lemma write_checksum_ok:
  assumes "length h = 512"
  obtains ds where "tar_put_octal 7 (unsigned_sum h) = Inr ds" "length ds = 7"
    "parse_numeric (ds @ [32]) = Inr (unsigned_sum h)" "write_checksum h = Inr (copy_at h 148 (ds @ [32]))"
proof -
  let ?h = "copy_at h 148 (replicate 8 32)"
  have len: "length ?h = 512" using assms by (simp add: copy_at_def)
  have "sum_list (map unat ?h) \<le> length ?h * 255"
    using sum_list_mono [of ?h unat "\<lambda>_. 255"] byte_le by (simp add: sum_list_triv)
  then have b: "unsigned_sum h < 8 ^ 6" using assms len by (simp add: sums_eq)
  let ?ds = "octal_digits 6 (unsigned_sum h) @ [0]"
  have put: "tar_put_octal 7 (unsigned_sum h) = Inr ?ds"
    using b by (simp add: tar_put_octal_def fits_octal_def)
  have u: "unsigned_sum h \<le> u64_max" using b by (simp add: u64_max_def)
  have "octal_field_loop 0 False (octal_digits 6 (unsigned_sum h) @ [0, 32]) = Inr (unsigned_sum h)"
    using octal_loop_digits [OF b u, of False "[0, 32]"] by simp
  moreover have "\<exists>d r. octal_digits 6 (unsigned_sum h) = d # r \<and> d AND 0x80 = 0"
    using octal_digits_head [of 5] by simp
  ultimately have p: "parse_numeric (?ds @ [32]) = Inr (unsigned_sum h)"
    by (auto simp: parse_numeric_def)
  have "write_checksum h = Inr (copy_at ?h 148 (?ds @ [32]))"
    using put assms by (simp add: write_checksum_def F_CHKSUM_def Let_def sums_eq)
  then have "write_checksum h = Inr (copy_at h 148 (?ds @ [32]))"
    using copy_at_twice [of 148 "replicate 8 32" h "?ds @ [32]"] assms by simp
  with put p show thesis by (intro that [of ?ds]) simp_all
qed

lemma write_checksum_seals:
  assumes "length h = 512"
  obtains ds where "length ds = 8" "write_checksum h = Inr (copy_at h 148 ds)" "verify_checksum (copy_at h 148 ds) = Inr ()"
proof -
  obtain ds where ds: "length ds = 7" "parse_numeric (ds @ [32]) = Inr (unsigned_sum h)"
    "write_checksum h = Inr (copy_at h 148 (ds @ [32]))"
    using write_checksum_ok [OF assms] by blast
  let ?h = "copy_at h 148 (ds @ [32])"
  have "field ?h F_CHKSUM = ds @ [32]"
    using assms ds(1) by (simp add: field_def F_CHKSUM_def slice_def copy_at_def)
  moreover have "length ?h = 512" using assms ds(1) by (simp add: copy_at_def)
  then have "unsigned_sum ?h = unsigned_sum h"
    using assms copy_at_twice [of 148 "ds @ [32]" h "replicate 8 32"] ds(1) by (simp add: sums_eq)
  ultimately have "verify_checksum ?h = Inr ()" using ds(2) by (simp add: verify_checksum_def)
  with ds show thesis by (intro that) simp_all
qed

lemma sint_byte: "sint (b :: byte) = (if unat b < 128 then int (unat b) else int (unat b) - 256)"
proof -
  have "sint b = (int (unat b) + 128) mod 256 - 128"
    by (simp add: sint_uint signed_take_bit_eq_take_bit_shift take_bit_eq_mod)
  moreover have "(int n + 128) mod 256 = (if n < 128 then int n + 128 else int n - 128)" if "n \<le> 255" for n
    using that mod_add_self2 [of "int n - 128" 256] by (auto simp: add.commute)
  ultimately show ?thesis using byte_le [of b] by (simp del: of_nat_unat)
qed

definition outside_chksum :: "nat \<Rightarrow> bool" where
  "outside_chksum i \<longleftrightarrow> i < fst F_CHKSUM \<or> snd F_CHKSUM \<le> i"

lemma copy_at_chksum_nth:
  assumes "i < length h" and "outside_chksum i" and "156 \<le> length h" and "length xs = 8"
  shows "copy_at h 148 xs ! i = h ! i"
  using assms by (auto simp: copy_at_def nth_append outside_chksum_def F_CHKSUM_def)

lemma copy_at_chksum_update:
  assumes "i < length h" and "outside_chksum i" and "156 \<le> length h" and "length xs = 8"
  shows "copy_at ((copy_at h 148 xs)[i := b]) 148 (replicate 8 32) = (copy_at h 148 (replicate 8 32))[i := b]"
  using assms copy_at_chksum_nth [of _ "(copy_at h 148 xs)[i := b]" "replicate 8 32"]
  by (auto simp: copy_at_def list_update_append outside_chksum_def F_CHKSUM_def drop_update_swap
      take_update_swap)

lemma sum_update:
  assumes "i < length ms"
  shows "sum_list (map f (ms[i := b])) + (f (ms ! i) :: 'a :: comm_monoid_add) = sum_list (map f ms) + f b"
proof -
  have "map f ms = map f (take i ms) @ f (ms ! i) # map f (drop (Suc i) ms)"
    using assms by (subst id_take_nth_drop [OF assms]) simp
  with assms show ?thesis by (simp add: upd_conv_take_nth_drop ac_simps)
qed

lemma plain_sums:
  assumes "length h = 512" and "\<forall>i < 512. outside_chksum i \<longrightarrow> unat (h ! i) < 128"
  shows "sum_list (map sint (copy_at h 148 (replicate 8 32))) = int (unsigned_sum h)"
proof -
  let ?m = "copy_at h 148 (replicate 8 32)"
  have "unat (?m ! j) < 128" if "j < 512" for j
  proof (cases "outside_chksum j")
    case True
    with assms that show ?thesis using copy_at_chksum_nth [of j h "replicate 8 32"] by simp
  next
    case False
    with assms(1) that show ?thesis
      by (auto simp: copy_at_def outside_chksum_def F_CHKSUM_def nth_append)
  qed
  moreover have "length ?m = 512" using assms(1) by (simp add: copy_at_def)
  ultimately have "\<forall>x \<in> set ?m. sint x = int (unat x)"
    by (metis (no_types, lifting) in_set_conv_nth sint_byte)
  moreover have "sum_list (map sint ms) = int (sum_list (map unat ms))" if "\<forall>x \<in> set ms. sint x = int (unat x)"
    for ms :: bytes using that by (induction ms) simp_all
  ultimately have "sum_list (map sint ?m) = int (sum_list (map unat ?m))" by blast
  then show ?thesis using assms(1) by (simp add: sums_eq)
qed

text \<open>
  C26. \<open>write_checksum\<close> seals a header block: it never fails, changes nothing outside the checksum
  field, and \<open>verify_checksum\<close> accepts the result. When the header is 7-bit, so that the signed and
  the unsigned sum agree, changing any single byte outside the checksum field afterwards is detected.
\<close>

theorem tar_checksum_seals:
  assumes "length h = BLOCK"
  shows "\<exists>h'. write_checksum h = Inr h' \<and> length h' = BLOCK \<and> verify_checksum h' = Inr () \<and>
    (\<forall>i < BLOCK. outside_chksum i \<longrightarrow> h' ! i = h ! i) \<and>
    ((\<forall>i < BLOCK. outside_chksum i \<longrightarrow> unat (h ! i) < 128) \<longrightarrow>
     (\<forall>i < BLOCK. \<forall>b. outside_chksum i \<and> b \<noteq> h ! i \<longrightarrow>
        verify_checksum (h'[i := b]) = Inl (Malformed ''header checksum mismatch'')))"
proof -
  from assms have len: "length h = 512" by (simp add: BLOCK_def)
  obtain ds where ds: "length ds = 7" "parse_numeric (ds @ [32]) = Inr (unsigned_sum h)"
    "write_checksum h = Inr (copy_at h 148 (ds @ [32]))"
    using write_checksum_ok [OF len] by blast
  let ?h = "copy_at h 148 (ds @ [32])" and ?m = "copy_at h 148 (replicate 8 32)"
  have len': "length ?h = 512" "length ?m = 512" using len ds(1) by (simp_all add: copy_at_def)
  have fld: "field ?h F_CHKSUM = ds @ [32]"
    using len ds(1) by (simp add: field_def F_CHKSUM_def slice_def copy_at_def)
  have us: "unsigned_sum ?h = unsigned_sum h"
    using len len' copy_at_twice [of 148 "ds @ [32]" h "replicate 8 32"] ds(1) by (simp add: sums_eq)
  have det: "verify_checksum (?h[i := b]) = Inl (Malformed ''header checksum mismatch'')"
    if i: "i < 512" "outside_chksum i" "b \<noteq> h ! i" and plain: "\<forall>i < 512. outside_chksum i \<longrightarrow> unat (h ! i) < 128" for i b
  proof -
    have mi: "?m ! i = h ! i" using copy_at_chksum_nth [of i h "replicate 8 32"] i len by simp
    have "field (?h[i := b]) F_CHKSUM = ds @ [32]"
      using i fld by (auto simp: field_def F_CHKSUM_def slice_def outside_chksum_def drop_update_swap
          drop_update_cancel take_update_cancel not_less)
    moreover have up: "copy_at (?h[i := b]) 148 (replicate 8 32) = ?m[i := b]"
      using copy_at_chksum_update [of i h "ds @ [32]"] i len ds(1) by simp
    have "unsigned_sum (?h[i := b]) + unat (h ! i) = unsigned_sum h + unat b"
      using sum_update [of i ?m unat b] i len len' mi by (simp add: sums_eq up)
    moreover have "unat (h ! i) \<noteq> unat b" using i(3) using injD [OF inj_unsigned [where 'a = nat and 'b = 8]] by auto
    moreover have "signed_sum (?h[i := b]) + sint (h ! i) = sum_list (map sint ?m) + sint b"
      using sum_update [of i ?m sint b] i len len' mi by (simp add: sums_eq up)
    moreover have "sum_list (map sint ?m) = int (unsigned_sum h)"
      using plain_sums plain len by simp
    moreover have "unat (h ! i) < 128" using plain i by blast
    ultimately show ?thesis
      using ds(2) byte_le [of b]
      by (auto simp: verify_checksum_def sint_byte simp del: of_nat_unat split: if_splits)
  qed
  show ?thesis
    using ds len len' fld us det copy_at_chksum_nth [of _ h "ds @ [32]"]
    by (auto simp: BLOCK_def verify_checksum_def)
qed

theorem tar_checksum_seals_witness:
  "\<exists>h'. write_checksum (replicate 512 0) = Inr h' \<and> verify_checksum h' = Inr () \<and>
    verify_checksum (h'[0 := 1]) = Inl (Malformed ''header checksum mismatch'')"
proof -
  have "length (replicate 512 (0 :: byte)) = BLOCK" by (simp add: BLOCK_def)
  from tar_checksum_seals [OF this] obtain h' where h': "write_checksum (replicate 512 0) = Inr h'"
    "verify_checksum h' = Inr ()"
    "(\<forall>i < BLOCK. outside_chksum i \<longrightarrow> unat (replicate 512 (0 :: byte) ! i) < 128) \<longrightarrow>
     (\<forall>i < BLOCK. \<forall>b. outside_chksum i \<and> b \<noteq> replicate 512 0 ! i \<longrightarrow>
        verify_checksum (h'[i := b]) = Inl (Malformed ''header checksum mismatch''))" by blast
  have "outside_chksum 0" "0 < BLOCK" by (simp_all add: outside_chksum_def F_CHKSUM_def BLOCK_def)
  moreover have "\<forall>i < BLOCK. outside_chksum i \<longrightarrow> unat (replicate 512 (0 :: byte) ! i) < 128"
    by (simp add: BLOCK_def)
  moreover have "(1 :: byte) \<noteq> replicate 512 0 ! 0" by simp
  ultimately have "verify_checksum (h'[0 := 1]) = Inl (Malformed ''header checksum mismatch'')"
    using h'(3) by blast
  with h' show ?thesis by blast
qed

end
