(* ===== verification/Oxide_Tar_Pax.thy ===== *)
theory Oxide_Tar_Pax
  imports Oxide_Tar_Header
begin

text \<open>
  PAX extended records and sparse maps of \<open>format/tar.rs\<close>: the record syntax
  \<open>"LEN KEY=VALUE\n"\<close> with its self-describing length, the overrides a record imposes on entries,
  timestamps, and the GNU sparse extent lists. The theory proves that what \<open>push_pax_record\<close> writes
  is what \<open>parse_pax\<close> reads, and the same for timestamps.
\<close>

section \<open>Decimal numbers\<close>

text \<open>\<open>to_string\<close> of an unsigned integer.\<close>

fun decimal :: "nat \<Rightarrow> bytes" where
  "decimal n = (if n < 10 then [48 + of_nat n] else decimal (n div 10) @ [48 + of_nat (n mod 10)])"

declare decimal.simps [simp del]

text \<open>\<open>to_string\<close> of a signed integer.\<close>

definition signed_decimal :: "int \<Rightarrow> bytes" where
  "signed_decimal i = (if i < 0 then 45 # decimal (nat (- i)) else decimal (nat i))"

fun ascii_decimal_loop :: "nat \<Rightarrow> bytes \<Rightarrow> error + nat" where
  "ascii_decimal_loop val [] = Inr val"
| "ascii_decimal_loop val (b # bs) =
     (if \<not> is_ascii_digit b then Inl (Malformed ''invalid decimal digit'')
      else
        bindE (ok_or (LimitExceeded ''decimal overflow'')
                 (Option.bind (checked_mul val 10) (\<lambda>v. checked_add v (unat (b - 48)))))
          (\<lambda>v. ascii_decimal_loop v bs))"

definition ascii_decimal :: "bytes \<Rightarrow> error + nat" where
  "ascii_decimal bs = (if bs = [] then Inl (Malformed ''empty decimal'') else ascii_decimal_loop 0 bs)"

definition ascii_decimal_u64 :: "bytes \<Rightarrow> error + nat" where
  "ascii_decimal_u64 bs = (if bs = [] then Inl (Malformed ''empty decimal'') else ascii_decimal_loop 0 bs)"

lemma decimal_nonempty [simp]: "decimal n \<noteq> []"
  by (subst decimal.simps) simp

lemma digit_cases:
  assumes "d < 10"
  shows "is_ascii_digit (48 + of_nat d)" "unat ((48 + of_nat d :: byte) - 48) = d"
proof -
  from assms have "d \<in> {0, 1, 2, 3, 4, 5, 6, 7, 8, 9}" by auto
  then show "is_ascii_digit (48 + of_nat d)" "unat ((48 + of_nat d :: byte) - 48) = d"
    by (auto simp: is_ascii_digit_def)
qed

lemma decimal_digits: "\<forall>b \<in> set (decimal n). is_ascii_digit b"
proof (induction n rule: decimal.induct)
  case (1 n)
  then show ?case
    using digit_cases(1) [of n] digit_cases(1) [of "n mod 10"] by (subst decimal.simps) auto
qed

lemma ascii_decimal_loop_decimal:
  "n \<le> u64_max \<Longrightarrow> ascii_decimal_loop 0 (decimal n @ bs) = ascii_decimal_loop n bs"
proof (induction n arbitrary: bs rule: decimal.induct)
  case (1 n)
  show ?case
  proof (cases "n < 10")
    case True
    with digit_cases [OF True] show ?thesis
      by (subst decimal.simps) (simp add: checked_mul_def checked_add_def u64_max_def)
  next
    case False
    have "n div 10 \<le> u64_max" using 1(2) div_le_dividend le_trans by blast
    with 1 False digit_cases [of "n mod 10"] checked_digit [of n 10] show ?thesis
      by (subst decimal.simps) simp
  qed
qed

lemma ascii_decimal_decimal:
  "n \<le> u64_max \<Longrightarrow> ascii_decimal (decimal n) = Inr n" "n \<le> u64_max \<Longrightarrow> ascii_decimal_u64 (decimal n) = Inr n"
  using ascii_decimal_loop_decimal [of n "[]"] by (simp_all add: ascii_decimal_def ascii_decimal_u64_def)

lemma decimal_length_mono: "m \<le> n \<Longrightarrow> length (decimal m) \<le> length (decimal n)"
proof (induction n arbitrary: m rule: decimal.induct)
  case (1 n)
  have "1 \<le> length (decimal k)" for k using decimal_nonempty [of k] by (cases "decimal k") auto
  moreover have "\<not> m < 10 \<Longrightarrow> length (decimal (m div 10)) \<le> length (decimal (n div 10))"
    using 1 by (simp add: div_le_mono)
  ultimately show ?case
    using 1(2) by (auto simp: decimal.simps [of m] decimal.simps [of n])
qed

section \<open>Record syntax\<close>

text \<open>
  The loop that finds the length of a record, which counts its own digits. The candidate moves in
  one direction until it is exact.
\<close>

function pax_length :: "nat \<Rightarrow> nat \<Rightarrow> error + nat" where
  "pax_length body len =
     (case checked_add body (length (decimal len)) of
        None \<Rightarrow> Inl (LimitExceeded ''PAX record length overflow'')
      | Some exact \<Rightarrow> if exact = len then Inr len else pax_length body exact)"
  by pat_completeness auto

termination
proof (relation "measure (\<lambda>(body, len).
    if len \<le> body + length (decimal len) then u64_max - len else u64_max + len)", goal_cases)
  case 1
  then show ?case by simp
next
  case (2 body len exact)
  then have e: "exact = body + length (decimal len)" "exact \<le> u64_max" "exact \<noteq> len"
    by (auto simp: checked_add_def split: if_splits)
  show ?case
  proof (cases "len \<le> exact")
    case True
    with e decimal_length_mono [of len exact] show ?thesis by auto
  next
    case False
    with e decimal_length_mono [of exact len] show ?thesis by auto
  qed
qed

declare pax_length.simps [simp del]

definition pax_key_ok :: "bytes \<Rightarrow> bool" where
  "pax_key_ok key \<longleftrightarrow> key \<noteq> [] \<and> (\<forall>b \<in> set key. b \<noteq> 61 \<and> b \<noteq> 10 \<and> b \<noteq> 0)"

definition push_pax_record :: "bytes \<Rightarrow> bytes \<Rightarrow> bytes \<Rightarrow> error + bytes" where
  "push_pax_record output key value =
     (if \<not> pax_key_ok key then Inl (Malformed ''invalid PAX key'')
      else
        bindE (ok_or (LimitExceeded ''PAX record length overflow'')
                 (Option.bind (checked_add 1 (length key)) (\<lambda>n.
                  Option.bind (checked_add n 1) (\<lambda>n.
                  Option.bind (checked_add n (length value)) (\<lambda>n. checked_add n 1))))) (\<lambda>body_length.
        bindE (pax_length body_length (body_length + 1)) (\<lambda>len.
        Inr (output @ decimal len @ [32] @ key @ [61] @ value @ [10]))))"

section \<open>Timestamps\<close>

definition i64_min :: int where
  "i64_min = - 9223372036854775808"

definition checked_i64 :: "int \<Rightarrow> int option" where
  "checked_i64 i = (if i64_min \<le> i \<and> i \<le> i64_max then Some i else None)"

fun pax_fraction :: "nat \<Rightarrow> bytes \<Rightarrow> nat \<Rightarrow> error + nat" where
  "pax_fraction 0 frac nanos = Inr nanos"
| "pax_fraction (Suc k) [] nanos = pax_fraction k [] (nanos * 10)"
| "pax_fraction (Suc k) (b # bs) nanos =
     (if \<not> is_ascii_digit b then Inl (Malformed ''invalid fractional second'')
      else pax_fraction k bs (nanos * 10 + unat (b - 48)))"

definition parse_pax_time :: "bytes \<Rightarrow> error + timestamp" where
  "parse_pax_time value =
     (let negative = (value \<noteq> [] \<and> hd value = 45);
          v = (if negative then drop 1 value else value);
          (secs_part, frac_part) =
            (case position (\<lambda>b. b = 46) v of Some dot \<Rightarrow> (take dot v, drop (dot + 1) v) | None \<Rightarrow> (v, [])) in
      bindE (ascii_decimal_u64 secs_part) (\<lambda>m.
      bindE (ok_or (LimitExceeded ''PAX timestamp exceeds i64'')
               (if int m \<le> i64_max then Some (int m) else None)) (\<lambda>magnitude.
      bindE (pax_fraction 9 frac_part 0) (\<lambda>nanos.
      bindE (if negative \<and> nanos \<noteq> 0 then
               bindE (ok_or (LimitExceeded ''PAX timestamp underflow'')
                        (Option.bind (checked_i64 (- magnitude)) (\<lambda>s. checked_i64 (s - 1))))
                 (\<lambda>s. Inr (s, 1000000000 - nanos))
             else if negative then
               bindE (ok_or (LimitExceeded ''PAX timestamp underflow'') (checked_i64 (- magnitude)))
                 (\<lambda>s. Inr (s, 0))
             else Inr (magnitude, nanos)) (\<lambda>(secs, nanos).
      map_err (\<lambda>_. Malformed ''invalid PAX timestamp'') (timestamp_new secs nanos))))))"

text \<open>\<open>{:09}\<close>: at least nine digits, padded with zeros.\<close>

definition decimal09 :: "nat \<Rightarrow> bytes" where
  "decimal09 n = replicate (9 - length (decimal n)) 48 @ decimal n"

definition format_pax_timestamp :: "timestamp \<Rightarrow> bytes" where
  "format_pax_timestamp t =
     (if ts_nanos t = 0 then signed_decimal (ts_secs t)
      else if ts_secs t < 0 then
        45 # signed_decimal (min i64_max (- (min i64_max (ts_secs t + 1)))) @ [46] @
          decimal09 (1000000000 - ts_nanos t)
      else signed_decimal (ts_secs t) @ [46] @ decimal09 (ts_nanos t))"

section \<open>Overrides\<close>

type_synonym raw_pax_record = "bytes \<times> bytes"

record overrides =
  ov_path :: "bytes option"
  ov_linkpath :: "bytes option"
  ov_size :: "nat option"
  ov_mtime :: "timestamp option"
  ov_atime :: "timestamp option"
  ov_ctime :: "timestamp option"
  ov_birthtime :: "timestamp option"
  ov_uid :: "nat option"
  ov_gid :: "nat option"
  ov_uname :: "bytes option"
  ov_gname :: "bytes option"
  ov_sparse_realsize :: "nat option"
  ov_pax :: "raw_pax_record list"

definition overrides_default :: overrides where
  "overrides_default =
     \<lparr>ov_path = None, ov_linkpath = None, ov_size = None, ov_mtime = None, ov_atime = None,
      ov_ctime = None, ov_birthtime = None, ov_uid = None, ov_gid = None, ov_uname = None,
      ov_gname = None, ov_sparse_realsize = None, ov_pax = []\<rparr>"

definition apply_pax :: "bytes \<Rightarrow> bytes \<Rightarrow> overrides \<Rightarrow> error + overrides" where
  "apply_pax key value ov =
     (let ov = ov\<lparr>ov_pax := ov_pax ov @ [(key, value)]\<rparr> in
      if key = ascii ''path'' then Inr (ov\<lparr>ov_path := Some value\<rparr>)
      else if key = ascii ''linkpath'' then Inr (ov\<lparr>ov_linkpath := Some value\<rparr>)
      else if key = ascii ''size'' then bindE (ascii_decimal_u64 value) (\<lambda>v. Inr (ov\<lparr>ov_size := Some v\<rparr>))
      else if key = ascii ''uid'' then bindE (ascii_decimal_u64 value) (\<lambda>v. Inr (ov\<lparr>ov_uid := Some v\<rparr>))
      else if key = ascii ''gid'' then bindE (ascii_decimal_u64 value) (\<lambda>v. Inr (ov\<lparr>ov_gid := Some v\<rparr>))
      else if key = ascii ''mtime'' then bindE (parse_pax_time value) (\<lambda>t. Inr (ov\<lparr>ov_mtime := Some t\<rparr>))
      else if key = ascii ''atime'' then bindE (parse_pax_time value) (\<lambda>t. Inr (ov\<lparr>ov_atime := Some t\<rparr>))
      else if key = ascii ''ctime'' then bindE (parse_pax_time value) (\<lambda>t. Inr (ov\<lparr>ov_ctime := Some t\<rparr>))
      else if key = ascii ''LIBARCHIVE.creationtime'' \<or> key = ascii ''SCHILY.birthtime''
      then bindE (parse_pax_time value) (\<lambda>t. Inr (ov\<lparr>ov_birthtime := Some t\<rparr>))
      else if key = ascii ''uname'' then Inr (ov\<lparr>ov_uname := Some value\<rparr>)
      else if key = ascii ''gname'' then Inr (ov\<lparr>ov_gname := Some value\<rparr>)
      else if key = ascii ''GNU.sparse.size'' \<or> key = ascii ''GNU.sparse.realsize''
      then bindE (ascii_decimal_u64 value) (\<lambda>v. Inr (ov\<lparr>ov_sparse_realsize := Some v\<rparr>))
      else Inr ov)"

function parse_pax :: "bytes \<Rightarrow> overrides \<Rightarrow> error + overrides" where
  "parse_pax records ov =
     (if records = [] then Inr ov
      else
        (case position (\<lambda>b. b = 32) records of
           None \<Rightarrow> Inl (Malformed ''pax: missing length separator'')
         | Some sp \<Rightarrow>
             (case ascii_decimal (take sp records) of
                Inl e \<Rightarrow> Inl e
              | Inr len \<Rightarrow>
                  if len < sp + 2 \<or> length records < len then Inl (Malformed ''pax: bad record length'')
                  else
                    let body = slice (take len records) (sp + 1) (len - 1) in
                    (case position (\<lambda>b. b = 61) body of
                       None \<Rightarrow> Inl (Malformed (''pax: missing '' @ [CHR 0x27, CHR ''='', CHR 0x27]))
                     | Some eq \<Rightarrow>
                         (case apply_pax (take eq body) (drop (eq + 1) body) ov of
                            Inl e \<Rightarrow> Inl e
                          | Inr ov' \<Rightarrow> parse_pax (drop len records) ov')))))"
  by pat_completeness auto
termination by (relation "measure (\<lambda>(records, _). length records)") auto

declare parse_pax.simps [simp del]

definition or_opt :: "'a option \<Rightarrow> 'a option \<Rightarrow> 'a option" where
  \<comment> \<open>\<open>a.or(b)\<close>\<close>
  "or_opt a b = (case a of None \<Rightarrow> b | Some _ \<Rightarrow> a)"

definition merge_owned :: "overrides \<Rightarrow> overrides \<Rightarrow> overrides" where
  "merge_owned dst src =
     \<lparr>ov_path = or_opt (ov_path src) (ov_path dst), ov_linkpath = or_opt (ov_linkpath src) (ov_linkpath dst),
      ov_size = or_opt (ov_size src) (ov_size dst), ov_mtime = or_opt (ov_mtime src) (ov_mtime dst),
      ov_atime = or_opt (ov_atime src) (ov_atime dst), ov_ctime = or_opt (ov_ctime src) (ov_ctime dst),
      ov_birthtime = or_opt (ov_birthtime src) (ov_birthtime dst),
      ov_uid = or_opt (ov_uid src) (ov_uid dst), ov_gid = or_opt (ov_gid src) (ov_gid dst),
      ov_uname = or_opt (ov_uname src) (ov_uname dst), ov_gname = or_opt (ov_gname src) (ov_gname dst),
      ov_sparse_realsize = or_opt (ov_sparse_realsize src) (ov_sparse_realsize dst),
      ov_pax = ov_pax dst @ ov_pax src\<rparr>"

section \<open>Sparse extents\<close>

definition is_ascii_whitespace :: "byte \<Rightarrow> bool" where
  "is_ascii_whitespace b \<longleftrightarrow> b = 32 \<or> b = 9 \<or> b = 10 \<or> b = 12 \<or> b = 13"

definition trim_ascii_space :: "bytes \<Rightarrow> bytes" where
  "trim_ascii_space v =
     rev (dropWhile is_ascii_whitespace (rev (dropWhile is_ascii_whitespace v)))"

text \<open>\<open>slice::split\<close>: the segments between separators, one more than there are separators.\<close>

fun split_on :: "byte \<Rightarrow> bytes \<Rightarrow> bytes list" where
  "split_on sep [] = [[]]"
| "split_on sep (b # bs) =
     (if b = sep then [] # split_on sep bs
      else (case split_on sep bs of seg # segs \<Rightarrow> (b # seg) # segs | [] \<Rightarrow> [[b]]))"

definition gnu_extent :: "nat \<Rightarrow> nat \<Rightarrow> error + sparse_extent" where
  "gnu_extent off len = map_err (\<lambda>_. Malformed ''invalid GNU sparse extent'') (sparse_extent_new off len)"

fun sparse_map_pairs :: "bytes list \<Rightarrow> error + sparse_extent list" where
  "sparse_map_pairs [] = Inr []"
| "sparse_map_pairs [off] = Inl (Malformed ''GNU sparse map has an odd field count'')"
| "sparse_map_pairs (off # len # segs) =
     bindE (ascii_decimal_u64 (trim_ascii_space off)) (\<lambda>a.
     bindE (ascii_decimal_u64 (trim_ascii_space len)) (\<lambda>b.
     bindE (gnu_extent a b) (\<lambda>e.
     bindE (sparse_map_pairs segs) (\<lambda>es. Inr (e # es)))))"

fun sparse_records ::
    "raw_pax_record list \<Rightarrow> bytes option \<Rightarrow> sparse_extent list \<Rightarrow> nat option \<Rightarrow>
     error + bytes option \<times> sparse_extent list \<times> nat option" where
  "sparse_records [] m pairs off = Inr (m, pairs, off)"
| "sparse_records ((key, value) # rs) m pairs off =
     (if key = ascii ''GNU.sparse.map'' then sparse_records rs (Some value) pairs off
      else if key = ascii ''GNU.sparse.offset'' then
        bindE (ascii_decimal_u64 value) (\<lambda>v. sparse_records rs m pairs (Some v))
      else if key = ascii ''GNU.sparse.numbytes'' then
        (case off of
           None \<Rightarrow> Inl (Malformed ''GNU sparse length without offset'')
         | Some o1 \<Rightarrow>
             bindE (ascii_decimal_u64 value) (\<lambda>v.
             bindE (gnu_extent o1 v) (\<lambda>e. sparse_records rs m (pairs @ [e]) None)))
      else sparse_records rs m pairs off)"

definition pax_sparse_extents :: "overrides \<Rightarrow> overrides \<Rightarrow> error + sparse_extent list" where
  "pax_sparse_extents global pending =
     bindE (sparse_records (ov_pax global @ ov_pax pending) None [] None) (\<lambda>(m, pairs, off).
     if off \<noteq> None then Inl (Malformed ''GNU sparse offset without length'')
     else (case m of None \<Rightarrow> Inr pairs | Some v \<Rightarrow> sparse_map_pairs (split_on 44 v)))"

fun gnu_descriptors :: "bytes \<Rightarrow> nat \<Rightarrow> nat list \<Rightarrow> error + sparse_extent list" where
  "gnu_descriptors block start [] = Inr []"
| "gnu_descriptors block start (index # is) =
     bindE (ok_or (Malformed ''GNU sparse descriptor offset overflow'') (checked_add start (index * 24))) (\<lambda>off.
     bindE (ok_or (Malformed ''truncated GNU sparse descriptor'') (get_range block off (off + 24))) (\<lambda>d.
     bindE (parse_numeric (take 12 d)) (\<lambda>sparse_offset.
     bindE (parse_numeric (drop 12 d)) (\<lambda>len.
     if len \<noteq> 0
     then bindE (gnu_extent sparse_offset len) (\<lambda>e.
          bindE (gnu_descriptors block start is) (\<lambda>es. Inr (e # es)))
     else gnu_descriptors block start is))))"

definition parse_gnu_sparse_descriptors :: "bytes \<Rightarrow> nat \<Rightarrow> nat \<Rightarrow> error + sparse_extent list" where
  "parse_gnu_sparse_descriptors block start count = gnu_descriptors block start [0..<count]"

fun sparse_extents_loop :: "nat \<Rightarrow> nat \<Rightarrow> nat \<Rightarrow> sparse_extent list \<Rightarrow> error + nat" where
  "sparse_extents_loop logical previous_end stored [] = Inr stored"
| "sparse_extents_loop logical previous_end stored (e # es) =
     bindE (ok_or (Malformed ''GNU sparse extent overflow'') (checked_add (se_offset e) (se_length e))) (\<lambda>end.
     if se_offset e < previous_end \<or> logical < end
     then Inl (Malformed ''GNU sparse extents overlap or exceed logical size'')
     else
       bindE (ok_or (Malformed ''GNU sparse stored size overflow'') (checked_add stored (se_length e))) (\<lambda>stored.
       sparse_extents_loop logical end stored es))"

definition validate_sparse_extents :: "sparse_extent list \<Rightarrow> nat \<Rightarrow> nat \<Rightarrow> error + unit" where
  "validate_sparse_extents extents logical_size stored_size =
     bindE (sparse_extents_loop logical_size 0 0 extents) (\<lambda>stored.
     if stored \<noteq> stored_size then Inl (Malformed ''GNU sparse extent bytes differ from stored size'')
     else Inr ())"

definition pax_is_acl :: "bytes \<Rightarrow> bool" where
  "pax_is_acl key \<longleftrightarrow> key = ascii ''SCHILY.acl.access'' \<or> key = ascii ''SCHILY.acl.default'' \<or>
     key = ascii ''LIBARCHIVE.acl.access'' \<or> key = ascii ''LIBARCHIVE.acl.default''"

fun add_pax_metadata :: "raw_pax_record list \<Rightarrow> entry_metadata \<Rightarrow> entry_metadata" where
  "add_pax_metadata [] b = b"
| "add_pax_metadata ((key, value) # rs) b =
     add_pax_metadata rs (b_extension (extension_new ''pax'' key value)
       (case strip_prefix key (ascii ''SCHILY.xattr.'') of
          Some name \<Rightarrow> b_xattr name value b
        | None \<Rightarrow> if pax_is_acl key then b_acl value b else b))"

section \<open>Records survive\<close>

lemma decimal_length: "n < 10 ^ k \<Longrightarrow> 0 < k \<Longrightarrow> length (decimal n) \<le> k"
proof (induction k arbitrary: n)
  case (Suc k)
  show ?case
  proof (cases "n < 10")
    case True
    then show ?thesis by (simp add: decimal.simps [of n])
  next
    case False
    then have "0 < k" using Suc.prems by (cases k) auto
    moreover have "n div 10 < 10 ^ k" using Suc.prems by (simp add: less_mult_imp_div_less mult.commute)
    ultimately show ?thesis using Suc.IH [of "n div 10"] False by (simp add: decimal.simps [of n])
  qed
qed simp

lemma u64_decimal_length: "n \<le> u64_max \<Longrightarrow> length (decimal n) \<le> 20"
  using decimal_length [of n 20] by (simp add: u64_max_def)

lemma pax_length_exact: "pax_length body len = Inr k \<Longrightarrow> k = body + length (decimal k) \<and> k \<le> u64_max"
proof (induction body len rule: pax_length.induct)
  case (1 body len)
  then show ?case
    by (auto simp: pax_length.simps [of body len] checked_add_def split: if_splits)
qed

lemma pax_length_total:
  "len \<le> body + 20 \<Longrightarrow> body + 20 \<le> u64_max \<Longrightarrow> \<exists>k. pax_length body len = Inr k"
proof (induction body len rule: pax_length.induct)
  case (1 body len)
  then have "length (decimal len) \<le> 20" by (intro u64_decimal_length) simp
  with 1 show ?case by (auto simp: pax_length.simps [of body len] checked_add_def)
qed

lemma push_pax_record_ok:
  assumes "push_pax_record output key value = Inr out"
  obtains len where "out = output @ decimal len @ [32] @ key @ [61] @ value @ [10]" "pax_key_ok key"
    "len = length (decimal len) + length key + length value + 3" "len \<le> u64_max"
  using assms
  by (auto simp: push_pax_record_def bindE_Inr_iff bind_eq_Some_conv checked_add_def
      dest!: pax_length_exact split: if_splits)

lemma push_pax_record_total:
  assumes "pax_key_ok key" and "length key + length value + 23 \<le> u64_max"
  obtains out where "push_pax_record output key value = Inr out"
proof -
  let ?b = "length key + length value + 3"
  obtain k where k: "pax_length ?b (?b + 1) = Inr k" using pax_length_total [of "?b + 1" ?b] assms(2) by auto
  have "Option.bind (checked_add 1 (length key)) (\<lambda>n. Option.bind (checked_add n 1) (\<lambda>n.
      Option.bind (checked_add n (length value)) (\<lambda>n. checked_add n 1))) = Some ?b"
    using assms(2) by (simp add: checked_add_def)
  then have "push_pax_record output key value =
      bindE (pax_length ?b (?b + 1)) (\<lambda>len. Inr (output @ decimal len @ [32] @ key @ [61] @ value @ [10]))"
    unfolding push_pax_record_def by (simp only: assms(1) ok_or_simps bindE_simps if_False simp_thms)
  with k show thesis by (intro that) (simp only: bindE_simps)
qed

lemma position_append:
  "\<forall>x \<in> set xs. \<not> P x \<Longrightarrow> P y \<Longrightarrow> position P (xs @ y # ys) = Some (length xs)"
  by (induction xs) auto

lemma decimal_no:
  "b \<in> set (decimal n) \<Longrightarrow> b \<noteq> 32" "b \<in> set (decimal n) \<Longrightarrow> b \<noteq> 46" "b \<in> set (decimal n) \<Longrightarrow> b \<noteq> 45"
  using decimal_digits [of n] by (auto simp: is_ascii_digit_def)

lemma slice_middle_pax: "n = length xs + length ys \<Longrightarrow> slice (xs @ ys @ zs) (length xs) n = ys"
  by (simp add: slice_def)

lemma parse_pax_record:
  assumes "pax_key_ok key" and "len = length (decimal len) + length key + length value + 3" and "len \<le> u64_max"
  shows "parse_pax (decimal len @ [32] @ key @ [61] @ value @ [10] @ rest) ov =
    bindE (apply_pax key value ov) (parse_pax rest)"
proof -
  let ?sp = "length (decimal len)"
  let ?r = "decimal len @ [32] @ key @ [61] @ value @ [10] @ rest"
  have sp: "position (\<lambda>b. b = 32) ?r = Some ?sp"
    using position_append [of "decimal len" "\<lambda>b. b = 32"] decimal_no(1) by auto
  have "take len ?r = decimal len @ [32] @ key @ [61] @ value @ [10]"
    by (subst assms(2)) (simp add: numeral_3_eq_3)
  moreover have n1: "len - 1 = length (decimal len @ [32]) + length (key @ [61] @ value)" using assms(2) by simp
  ultimately have body: "slice (take len ?r) (?sp + 1) (len - 1) = key @ [61] @ value"
    using slice_middle_pax [of "len - 1" "decimal len @ [32]" "key @ [61] @ value" "[10]"] assms(2)
    by (metis (no_types, lifting) append.assoc length_append_singleton Suc_eq_plus1 n1)
  have rest: "drop len ?r = rest" by (subst assms(2)) (simp add: numeral_3_eq_3)
  have eq: "position (\<lambda>b. b = 61) (key @ [61] @ value) = Some (length key)"
    using position_append [of key "\<lambda>b. b = 61"] assms(1) by (auto simp: pax_key_ok_def)
  have tk: "take ?sp ?r = decimal len" and ne: "?r = [] \<longleftrightarrow> False" by simp_all
  have kv: "take (length key) (key @ [61] @ value) = key" "drop (length key + 1) (key @ [61] @ value) = value"
    by simp_all
  have chk: "(len < ?sp + 2 \<or> length ?r < len) \<longleftrightarrow> False" using assms(2) by simp
  show ?thesis
    by (subst parse_pax.simps)
      (simp only: sp tk ascii_decimal_decimal(1) [OF assms(3)] chk body rest eq kv ne Let_def option.case
        sum.case if_False bindE_def)
qed

fun push_pax_records :: "raw_pax_record list \<Rightarrow> bytes \<Rightarrow> error + bytes" where
  "push_pax_records [] out = Inr out"
| "push_pax_records ((k, v) # rs) out = bindE (push_pax_record out k v) (push_pax_records rs)"

fun apply_pax_records :: "raw_pax_record list \<Rightarrow> overrides \<Rightarrow> error + overrides" where
  "apply_pax_records [] ov = Inr ov"
| "apply_pax_records ((k, v) # rs) ov = bindE (apply_pax k v ov) (apply_pax_records rs)"

lemma push_pax_records_read:
  "push_pax_records rs out = Inr bs \<Longrightarrow>
   \<exists>new. bs = out @ new \<and> (\<forall>ov. parse_pax new ov = apply_pax_records rs ov)"
proof (induction rs out rule: push_pax_records.induct)
  case (1 out)
  then show ?case by (simp add: parse_pax.simps)
next
  case (2 k v rs out)
  then obtain mid where m: "push_pax_record out k v = Inr mid" "push_pax_records rs mid = Inr bs"
    by (auto simp: bindE_Inr_iff)
  from m(1) obtain len where len: "mid = out @ decimal len @ [32] @ k @ [61] @ v @ [10]" "pax_key_ok k"
    "len = length (decimal len) + length k + length v + 3" "len \<le> u64_max" by (rule push_pax_record_ok)
  from "2.IH" [OF m(2)] obtain new where "bs = mid @ new" "\<forall>ov. parse_pax new ov = apply_pax_records rs ov"
    by blast
  with len parse_pax_record [OF len(2-4), of new] show ?case
    by (intro exI [of _ "decimal len @ [32] @ k @ [61] @ v @ [10] @ new"]) (simp add: bindE_def split: sum.splits)
qed

lemma push_pax_records_total:
  assumes "\<forall>(k, v) \<in> set rs. pax_key_ok k \<and> length k + length v + 23 \<le> u64_max"
  shows "\<exists>bs. push_pax_records rs out = Inr bs"
  using assms
proof (induction rs arbitrary: out)
  case (Cons r rs)
  obtain k v where r: "r = (k, v)" by force
  with Cons.prems obtain mid where "push_pax_record out k v = Inr mid"
    using push_pax_record_total [of k v out] by auto
  with Cons r show ?case by auto
qed simp

text \<open>
  C27. PAX records round trip: records whose keys are legal can always be written, the loop that makes
  a record count its own length digits finds the fixed point, and parsing the written bytes has
  exactly the effect of applying the records one by one, whatever bytes the values contain.
\<close>

theorem pax_records_roundtrip:
  assumes "\<forall>(k, v) \<in> set rs. pax_key_ok k \<and> length k + length v + 23 \<le> u64_max"
  shows "\<exists>bs. push_pax_records rs [] = Inr bs \<and> parse_pax bs ov = apply_pax_records rs ov"
  using push_pax_records_total [OF assms, of "[]"] push_pax_records_read [of rs "[]"] by fastforce

theorem pax_records_roundtrip_witness:
  "\<exists>bs. push_pax_records [(ascii ''path'', ascii ''a=b''), (ascii ''uid'', ascii ''7'')] [] = Inr bs \<and>
     parse_pax bs overrides_default = Inr (overrides_default\<lparr>ov_path := Some (ascii ''a=b''), ov_uid := Some 7,
       ov_pax := [(ascii ''path'', ascii ''a=b''), (ascii ''uid'', ascii ''7'')]\<rparr>)"
  using pax_records_roundtrip [of "[(ascii ''path'', ascii ''a=b''), (ascii ''uid'', ascii ''7'')]" overrides_default]
  by (simp add: ascii_def pax_key_ok_def apply_pax_def ascii_decimal_u64_def is_ascii_digit_def checked_mul_def
      checked_add_def u64_max_def overrides_default_def)

section \<open>Timestamps survive\<close>

lemma pax_fraction_digits:
  "ascii_decimal_loop v ds = Inr w \<Longrightarrow> pax_fraction (length ds) ds v = Inr w"
  by (induction ds arbitrary: v)
    (auto simp: bindE_Inr_iff bind_eq_Some_conv checked_mul_def checked_add_def split: if_splits)

lemma ascii_decimal_zeros: "ascii_decimal_loop 0 (replicate k 48 @ bs) = ascii_decimal_loop 0 bs"
  by (induction k) (simp_all add: is_ascii_digit_def checked_mul_def checked_add_def)

lemma pax_fraction_decimal09:
  assumes "n < 1000000000"
  shows "pax_fraction 9 (decimal09 n) 0 = Inr n"
proof -
  have "length (decimal n) \<le> 9" using assms decimal_length [of n 9] by simp
  then have "length (decimal09 n) = 9" by (simp add: decimal09_def)
  moreover have "ascii_decimal_loop 0 (decimal09 n) = Inr n"
    using assms ascii_decimal_loop_decimal [of n "[]"]
    by (simp add: decimal09_def ascii_decimal_zeros u64_max_def)
  ultimately show ?thesis using pax_fraction_digits [of 0 "decimal09 n" n] by simp
qed

lemma decimal_head: "hd (decimal n @ r) \<noteq> 45"
  using decimal_no(3) [of "hd (decimal n)" n] decimal_nonempty [of n] by (cases "decimal n") auto

lemma position_dot_none: "position (\<lambda>b. b = 46) (decimal n) = None"
  using decimal_no(2) by (induction "decimal n") (auto simp: position_None)

lemma position_dot: "position (\<lambda>b. b = 46) (decimal n @ 46 # r) = Some (length (decimal n))"
  using decimal_no(2) by (intro position_append) auto

lemma pax_fraction_none: "pax_fraction k [] 0 = Inr 0"
  by (induction k) simp_all

text \<open>
  C28. PAX timestamps round trip to the nanosecond, before and after the epoch: for every timestamp
  an \<open>i64\<close> of seconds can carry, parsing what \<open>format_pax_timestamp\<close> printed gives the timestamp
  back, with one exception, the whole second \<open>i64::MIN\<close>, which is printed but refused on reading.
\<close>

theorem pax_time_roundtrip:
  assumes "i64_min \<le> ts_secs t" and "ts_secs t \<le> i64_max" and "ts_nanos t < 1000000000"
  shows "parse_pax_time (format_pax_timestamp t) =
    (if ts_secs t = i64_min \<and> ts_nanos t = 0 then Inl (LimitExceeded ''PAX timestamp exceeds i64'') else Inr t)"
proof -
  obtain a n where t: "t = \<lparr>ts_secs = a, ts_nanos = n\<rparr>" by (cases t)
  with assms have a: "i64_min \<le> a" "a \<le> i64_max" and n: "n < 1000000000" by simp_all
  then have u: "nat a \<le> u64_max" "nat (- a) \<le> u64_max" "nat (- (a + 1)) \<le> u64_max"
    by (simp_all add: i64_min_def i64_max_def u64_max_def)
  note dec = ascii_decimal_decimal(2) [OF u(1)] ascii_decimal_decimal(2) [OF u(2)] ascii_decimal_decimal(2) [OF u(3)]
  note simps = parse_pax_time_def format_pax_timestamp_def signed_decimal_def Let_def decimal_head
    decimal_head [of _ "[]", simplified] position_dot position_dot_none pax_fraction_none checked_i64_def
    timestamp_new_def dec t
  consider (whole_neg) "n = 0" "a < 0" | (whole) "n = 0" "0 \<le> a" | (neg) "n \<noteq> 0" "a < 0" | (pos) "n \<noteq> 0" "0 \<le> a"
    by linarith
  then show ?thesis
  proof cases
    case neg
    with a have m: "min i64_max (- (min i64_max (a + 1))) = - (a + 1)" "\<not> - (a + 1) < 0"
      by (auto simp: i64_min_def i64_max_def)
    have "pax_fraction 9 (decimal09 (1000000000 - n)) 0 = Inr (1000000000 - n)"
      using neg by (intro pax_fraction_decimal09) auto
    moreover have "int (nat (- (a + 1))) = - (a + 1)" using neg by simp
    ultimately show ?thesis
      using neg a n dec(3) by (simp add: simps m i64_min_def i64_max_def)
  qed (use a n pax_fraction_decimal09 [OF n] in \<open>auto simp: simps i64_min_def i64_max_def\<close>)
qed

theorem pax_time_roundtrip_witness:
  "parse_pax_time (format_pax_timestamp \<lparr>ts_secs = - 1, ts_nanos = 250000000\<rparr>) =
     Inr \<lparr>ts_secs = - 1, ts_nanos = 250000000\<rparr> \<and>
   parse_pax_time (format_pax_timestamp \<lparr>ts_secs = i64_min, ts_nanos = 0\<rparr>) =
     Inl (LimitExceeded ''PAX timestamp exceeds i64'')"
  using pax_time_roundtrip [of "\<lparr>ts_secs = - 1, ts_nanos = 250000000\<rparr>"]
    pax_time_roundtrip [of "\<lparr>ts_secs = i64_min, ts_nanos = 0\<rparr>"]
  by (simp add: i64_min_def i64_max_def)

end
