(* ===== verification/Oxide_Tar_Source.thy ===== *)
theory Oxide_Tar_Source
  imports Oxide_Tar_Pax
begin

text \<open>
  \<open>TarSource\<close> of \<open>format/tar.rs\<close>: the buffered state machine that reads header blocks, extended
  records, old-GNU sparse extensions and payload windows. Each \<open>poll_*\<close> function returns the new
  state together with its result, also on error, because the Rust methods leave the state as mutated
  up to the failing line. The theory proves that the \<open>pull_v2\<close> loop ends.
\<close>

section \<open>State\<close>

datatype meta_kind = PaxNext | PaxGlobal | LongName | LongLink

datatype tar_state =
    TarHeader
  | TarPayload nat nat
  | TarMeta meta_kind nat nat
  | TarSparseExtensions nat nat
  | TarDone

datatype poll_result = PollContinue | PollNeedInput | PollDone | PollEndEntry | PollEntry | PollData

datatype tar_source_event =
    SrcNeedInput
  | SrcArchiveMetadata archive_metadata
  | SrcEntry entry_metadata "sparse_extent list" bool
  | SrcData bytes
  | SrcEndEntry
  | SrcDone

record tar_parsed_header =
  tp_kind :: entry_kind
  tp_path :: bytes
  tp_mode :: nat
  tp_uid :: nat
  tp_gid :: nat
  tp_modified :: "timestamp option"
  tp_link_target :: "bytes option"

record tar_source =
  src_buf :: bytes
  src_cursor :: nat
  src_state :: tar_state
  src_finished :: bool
  src_pending :: overrides
  src_global :: overrides
  src_record :: bytes
  stage_pending :: overrides
  stage_size :: nat
  stage_logical_size :: nat
  stage_sparse :: "sparse_extent list"
  stage_is_sparse :: bool
  stage_uname :: bytes
  stage_gname :: bytes
  stage_device :: "device option"
  stage_referenced_device :: "device option"
  payload_chunk_limit :: nat
  global_changed :: bool
  stage_len :: nat

definition tar_source_new :: tar_source where
  "tar_source_new =
     \<lparr>src_buf = [], src_cursor = 0, src_state = TarHeader, src_finished = False,
      src_pending = overrides_default, src_global = overrides_default, src_record = [],
      stage_pending = overrides_default, stage_size = 0, stage_logical_size = 0, stage_sparse = [],
      stage_is_sparse = False, stage_uname = [], stage_gname = [], stage_device = None,
      stage_referenced_device = None, payload_chunk_limit = usize_max, global_changed = False,
      stage_len = 0\<rparr>"

definition src_available :: "tar_source \<Rightarrow> nat" where
  "src_available s = length (src_buf s) - src_cursor s"

definition buffered_len :: "tar_source \<Rightarrow> nat" where
  "buffered_len s = length (src_buf s)"

definition src_feed :: "tar_source \<Rightarrow> bytes \<Rightarrow> tar_source \<times> nat" where
  "src_feed s input = (s\<lparr>src_buf := src_buf s @ input\<rparr>, length input)"

definition finish_input :: "tar_source \<Rightarrow> tar_source" where
  "finish_input s = s\<lparr>src_finished := True\<rparr>"

definition src_compact :: "tar_source \<Rightarrow> tar_source" where
  "src_compact s =
     (if 0 < src_cursor s then s\<lparr>src_buf := drop (src_cursor s) (src_buf s), src_cursor := 0\<rparr> else s)"

definition src_window :: "tar_source \<Rightarrow> bytes" where
  \<comment> \<open>\<open>&self.buf[self.cursor..self.cursor + BLOCK]\<close>\<close>
  "src_window s = slice (src_buf s) (src_cursor s) (src_cursor s + BLOCK)"

definition set_payload_chunk_limit :: "nat \<Rightarrow> tar_source \<Rightarrow> tar_source" where
  "set_payload_chunk_limit n s = s\<lparr>payload_chunk_limit := n\<rparr>"

section \<open>Polling\<close>

definition apply_record :: "tar_source \<Rightarrow> meta_kind \<Rightarrow> tar_source \<times> (error + unit)" where
  "apply_record s kind =
     (case kind of
        LongName \<Rightarrow>
          (s\<lparr>src_pending := (src_pending s)\<lparr>ov_path := Some (cstr (src_record s))\<rparr>\<rparr>, Inr ())
      | LongLink \<Rightarrow>
          (s\<lparr>src_pending := (src_pending s)\<lparr>ov_linkpath := Some (cstr (src_record s))\<rparr>\<rparr>, Inr ())
      | PaxNext \<Rightarrow>
          (case parse_pax (src_record s) overrides_default of
             Inl e \<Rightarrow> (s, Inl e)
           | Inr parsed \<Rightarrow> (s\<lparr>src_pending := merge_owned (src_pending s) parsed\<rparr>, Inr ()))
      | PaxGlobal \<Rightarrow>
          (case parse_pax (src_record s) overrides_default of
             Inl e \<Rightarrow> (s, Inl e)
           | Inr parsed \<Rightarrow>
               (s\<lparr>src_global := merge_owned (src_global s) parsed, global_changed := True\<rparr>, Inr ())))"

definition starved :: "tar_source \<Rightarrow> string \<Rightarrow> tar_source \<times> (error + poll_result)" where
  "starved s what = (s, if src_finished s then Inl (Malformed what) else Inr PollNeedInput)"

definition header_is_sparse :: "byte \<Rightarrow> overrides \<Rightarrow> overrides \<Rightarrow> bool" where
  "header_is_sparse typeflag pending global \<longleftrightarrow>
     typeflag = 83 \<or> ov_sparse_realsize pending \<noteq> None \<or> ov_sparse_realsize global \<noteq> None \<or>
     (\<exists>r \<in> set (ov_pax pending @ ov_pax global). starts_with (fst r) (ascii ''GNU.sparse.''))"

definition referenced_device_of :: "bytes \<Rightarrow> error + device option" where
  "referenced_device_of hdr =
     (if hdr ! O_TYPEFLAG = 51 \<or> hdr ! O_TYPEFLAG = 52 then
        bindE (parse_numeric (field hdr F_DEVMAJOR)) (\<lambda>major.
        bindE (parse_numeric (field hdr F_DEVMINOR)) (\<lambda>minor.
        Inr (Some \<lparr>dev_major = major, dev_minor = minor\<rparr>)))
      else Inr None)"

definition stage_gnu_sparse :: "bytes \<Rightarrow> tar_source \<Rightarrow> tar_source \<times> (error + unit)" where
  "stage_gnu_sparse hdr s =
     (if hdr ! O_TYPEFLAG = 83 then
        (case parse_gnu_sparse_descriptors hdr GNU_SPARSE_START GNU_SPARSE_COUNT of
           Inl e \<Rightarrow> (s, Inl e)
         | Inr ds \<Rightarrow>
             let s1 = s\<lparr>stage_sparse := stage_sparse s @ ds\<rparr> in
             (case parse_numeric (field hdr GNU_SPARSE_REALSIZE) of
                Inl e \<Rightarrow> (s1, Inl e)
              | Inr v \<Rightarrow> (s1\<lparr>stage_logical_size := v\<rparr>, Inr ())))
      else (s, Inr ()))"

definition stage_header_metadata ::
    "tar_source \<Rightarrow> bytes \<Rightarrow> overrides \<Rightarrow> nat \<Rightarrow> tar_source \<times> (error + unit)" where
  "stage_header_metadata s hdr pending physical_size =
     (let s1 = s\<lparr>stage_uname := opt_or (cstr (field hdr F_UNAME))
                   (or_opt (ov_uname pending) (ov_uname (src_global s))),
                 stage_gname := opt_or (cstr (field hdr F_GNAME))
                   (or_opt (ov_gname pending) (ov_gname (src_global s)))\<rparr> in
      (case referenced_device_of hdr of
         Inl e \<Rightarrow> (s1, Inl e)
       | Inr dev \<Rightarrow>
           let s2 = s1\<lparr>stage_device := None, stage_referenced_device := dev\<rparr> in
           (case pax_sparse_extents (src_global s) pending of
              Inl e \<Rightarrow> (s2, Inl e)
            | Inr ex \<Rightarrow>
                let s3 = s2\<lparr>stage_sparse := ex,
                            stage_is_sparse := header_is_sparse (hdr ! O_TYPEFLAG) pending (src_global s),
                            stage_logical_size := opt_or physical_size
                              (or_opt (ov_sparse_realsize pending) (ov_sparse_realsize (src_global s)))\<rparr> in
                (case stage_gnu_sparse hdr s3 of
                   (s4, Inl e) \<Rightarrow> (s4, Inl e)
                 | (s4, Inr _) \<Rightarrow>
                     (case (if stage_is_sparse s4
                            then validate_sparse_extents (stage_sparse s4) (stage_logical_size s4) physical_size
                            else Inr ()) of
                        Inl e \<Rightarrow> (s4, Inl e)
                      | Inr _ \<Rightarrow>
                          (s4\<lparr>stage_pending := pending, stage_size := physical_size,
                              payload_chunk_limit := usize_max\<rparr>, Inr ()))))))"

definition meta_kind_of :: "byte \<Rightarrow> meta_kind" where
  "meta_kind_of typeflag =
     (if typeflag = 103 then PaxGlobal else if typeflag = 76 then LongName
      else if typeflag = 75 then LongLink else PaxNext)"

definition poll_meta_header :: "tar_source \<Rightarrow> byte \<Rightarrow> nat \<Rightarrow> tar_source \<times> (error + poll_result)" where
  "poll_meta_header s typeflag raw_size =
     (case bindE (tar_usize_of raw_size) (\<lambda>data. bindE (round_up raw_size) (\<lambda>r. Inr (data, r - data))) of
        Inl e \<Rightarrow> (s, Inl e)
      | Inr (data, pad) \<Rightarrow>
          (s\<lparr>src_cursor := src_cursor s + BLOCK, src_record := [],
             src_state := TarMeta (meta_kind_of typeflag) data pad\<rparr>, Inr PollContinue))"

definition poll_entry_header :: "tar_source \<Rightarrow> bytes \<Rightarrow> tar_source \<times> (error + poll_result)" where
  "poll_entry_header s hdr =
     (let pending = src_pending s;
          s0 = s\<lparr>src_pending := overrides_default\<rparr> in
      (case bindE (case or_opt (ov_size pending) (ov_size (src_global s)) of
                     Some v \<Rightarrow> Inr v | None \<Rightarrow> parse_numeric (field hdr F_SIZE_tar)) (\<lambda>sz.
            bindE (round_up sz) (\<lambda>r. bindE (tar_usize_of sz) (\<lambda>u. Inr (sz, r - u)))) of
         Inl e \<Rightarrow> (s0, Inl e)
       | Inr (sz, pad) \<Rightarrow>
           (case stage_header_metadata s0 hdr pending sz of
              (s1, Inl e) \<Rightarrow> (s1, Inl e)
            | (s1, Inr _) \<Rightarrow>
                if hdr ! O_TYPEFLAG = 83 \<and> hdr ! GNU_SPARSE_EXTENDED \<noteq> 0
                then (s1\<lparr>src_cursor := src_cursor s + BLOCK, src_state := TarSparseExtensions sz pad\<rparr>,
                      Inr PollContinue)
                else (s1\<lparr>src_cursor := src_cursor s + BLOCK, src_state := TarPayload sz pad\<rparr>,
                      Inr PollEntry))))"

definition is_meta_flag :: "byte \<Rightarrow> bool" where
  "is_meta_flag tf \<longleftrightarrow> tf = 120 \<or> tf = 88 \<or> tf = 103 \<or> tf = 76 \<or> tf = 75"

definition poll_header :: "tar_source \<Rightarrow> tar_source \<times> (error + poll_result)" where
  "poll_header s =
     (if src_available s < BLOCK then
        (if src_finished s then (s\<lparr>src_state := TarDone\<rparr>, Inr PollDone) else (s, Inr PollNeedInput))
      else
        let hdr = src_window s in
        if \<forall>b \<in> set hdr. b = 0 then (s\<lparr>src_state := TarDone\<rparr>, Inr PollDone)
        else
          (case bindE (verify_checksum hdr) (\<lambda>_. parse_numeric (field hdr F_SIZE_tar)) of
             Inl e \<Rightarrow> (s, Inl e)
           | Inr raw_size \<Rightarrow>
               if is_meta_flag (hdr ! O_TYPEFLAG) then poll_meta_header s (hdr ! O_TYPEFLAG) raw_size
               else poll_entry_header s hdr))"

definition poll_sparse_extension :: "tar_source \<Rightarrow> nat \<Rightarrow> nat \<Rightarrow> tar_source \<times> (error + poll_result)" where
  "poll_sparse_extension s remaining pad =
     (if src_available s < BLOCK then starved s ''tar: truncated GNU sparse extension header''
      else
        let block = src_window s in
        (case parse_gnu_sparse_descriptors block 0 GNU_SPARSE_EXT_COUNT of
           Inl e \<Rightarrow> (s, Inl e)
         | Inr ds \<Rightarrow>
             let s1 = s\<lparr>stage_sparse := stage_sparse s @ ds, src_cursor := src_cursor s + BLOCK\<rparr> in
             if block ! 504 \<noteq> 0
             then (s1\<lparr>src_state := TarSparseExtensions remaining pad\<rparr>, Inr PollContinue)
             else
               (case validate_sparse_extents (stage_sparse s1) (stage_logical_size s1) remaining of
                  Inl e \<Rightarrow> (s1, Inl e)
                | Inr _ \<Rightarrow> (s1\<lparr>src_state := TarPayload remaining pad\<rparr>, Inr PollEntry))))"

definition poll_meta :: "tar_source \<Rightarrow> meta_kind \<Rightarrow> nat \<Rightarrow> nat \<Rightarrow> tar_source \<times> (error + poll_result)" where
  "poll_meta s kind data pad =
     (if 0 < data then
        (if src_available s = 0 then starved s ''tar: truncated extended header''
         else
           let n = min data (src_available s) in
           (s\<lparr>src_record := src_record s @ slice (src_buf s) (src_cursor s) (src_cursor s + n),
              src_cursor := src_cursor s + n, src_state := TarMeta kind (data - n) pad\<rparr>, Inr PollContinue))
      else if 0 < pad then
        (if src_available s = 0 then starved s ''tar: truncated extended header''
         else
           let n = min pad (src_available s) in
           (s\<lparr>src_cursor := src_cursor s + n, src_state := TarMeta kind data (pad - n)\<rparr>, Inr PollContinue))
      else
        (case apply_record s kind of
           (s1, Inl e) \<Rightarrow> (s1, Inl e)
         | (s1, Inr _) \<Rightarrow> (s1\<lparr>src_record := [], src_state := TarHeader\<rparr>, Inr PollContinue)))"

definition poll_payload :: "tar_source \<Rightarrow> nat \<Rightarrow> nat \<Rightarrow> tar_source \<times> (error + poll_result)" where
  "poll_payload s remaining pad =
     (if 0 < remaining then
        (if src_available s = 0 then starved s ''tar: truncated payload''
         else
           (case tar_usize_of remaining of
              Inl e \<Rightarrow> (s, Inl e)
            | Inr r \<Rightarrow>
                let want = min (min r (src_available s)) (payload_chunk_limit s) in
                if want = 0 then (s, Inr PollNeedInput)
                else (s\<lparr>src_cursor := src_cursor s + want, src_state := TarPayload (remaining - want) pad,
                        stage_len := want\<rparr>, Inr PollData)))
      else if 0 < pad then
        (if src_available s = 0 then starved s ''tar: truncated payload padding''
         else
           let n = min pad (src_available s) in
           (s\<lparr>src_cursor := src_cursor s + n, src_state := TarPayload remaining (pad - n)\<rparr>, Inr PollContinue))
      else (s\<lparr>src_state := TarHeader\<rparr>, Inr PollEndEntry))"

definition poll :: "tar_source \<Rightarrow> tar_source \<times> (error + poll_result)" where
  \<comment> \<open>the dispatch in the loop of \<open>pull_v2\<close>\<close>
  "poll s =
     (case src_state s of
        TarDone \<Rightarrow> (s, Inr PollDone)
      | TarHeader \<Rightarrow> poll_header s
      | TarMeta kind data pad \<Rightarrow> poll_meta s kind data pad
      | TarSparseExtensions remaining pad \<Rightarrow> poll_sparse_extension s remaining pad
      | TarPayload remaining pad \<Rightarrow> poll_payload s remaining pad)"

section \<open>Entry metadata\<close>

definition parse_source_header :: "bytes \<Rightarrow> overrides \<Rightarrow> overrides \<Rightarrow> error + tar_parsed_header" where
  "parse_source_header hdr pending global =
     (let kind = kind_from_typeflag (hdr ! O_TYPEFLAG);
          name = cstr (field hdr F_NAME_tar);
          pre = cstr (field hdr F_PREFIX);
          is_ustar = starts_with (field hdr F_MAGIC_tar) (ascii ''ustar'');
          path = opt_or (if is_ustar \<and> pre \<noteq> [] then join_prefix_name pre name else name)
                   (or_opt (ov_path pending) (ov_path global));
          link_target =
            (if kind = KindSymlink \<or> kind = KindHardlink
             then Some (opt_or (cstr (field hdr F_LINKNAME)) (or_opt (ov_linkpath pending) (ov_linkpath global)))
             else None);
          mtime = or_opt (or_opt (ov_mtime pending) (ov_mtime global))
                    (map_option (\<lambda>secs. timestamp_from_seconds (i64_saturate secs))
                       (result_ok (parse_numeric (field hdr F_MTIME_tar)))) in
      bindE (case or_opt (ov_uid pending) (ov_uid global) of
               Some v \<Rightarrow> Inr v | None \<Rightarrow> parse_numeric (field hdr F_UID_tar)) (\<lambda>uid.
      bindE (case or_opt (ov_gid pending) (ov_gid global) of
               Some v \<Rightarrow> Inr v | None \<Rightarrow> parse_numeric (field hdr F_GID_tar)) (\<lambda>gid.
      bindE (parse_numeric (field hdr F_MODE_tar)) (\<lambda>mode.
      Inr \<lparr>tp_kind = kind, tp_path = path, tp_mode = mode AND 0xfff, tp_uid = uid, tp_gid = gid,
           tp_modified = mtime, tp_link_target = link_target\<rparr>))))"

definition rich_metadata :: "tar_source \<Rightarrow> tar_parsed_header \<Rightarrow> entry_metadata" where
  "rich_metadata s h =
     (let pending = stage_pending s; global = src_global s in
      add_pax_metadata (ov_pax pending)
      (add_pax_metadata (ov_pax global)
      (fold b_sparse_extent (stage_sparse s)
      (b_link_target (map_option path_from_bytes (tp_link_target h))
      (b_devices (stage_device s) (stage_referenced_device s)
      (b_times \<lparr>modified = or_opt (or_opt (ov_mtime pending) (ov_mtime global)) (tp_modified h),
                accessed = or_opt (ov_atime pending) (ov_atime global),
                changed = or_opt (ov_ctime pending) (ov_ctime global),
                created = or_opt (ov_birthtime pending) (ov_birthtime global)\<rparr>
      (b_owner \<lparr>own_uid = Some (tp_uid h), own_gid = Some (tp_gid h),
                own_user = (if stage_uname s \<noteq> [] then Some (stage_uname s) else None),
                own_group = (if stage_gname s \<noteq> [] then Some (stage_gname s) else None)\<rparr>
      (b_mode (Some (tp_mode h))
      (b_size (Some (stage_logical_size s))
      (builder (tp_kind h) (path_from_bytes (tp_path h))))))))))))"

definition take_global_metadata :: "tar_source \<Rightarrow> tar_source \<times> archive_metadata option" where
  "take_global_metadata s =
     (if \<not> global_changed s then (s, None)
      else
        (s\<lparr>global_changed := False\<rparr>,
         Some (fold (\<lambda>(key, value). with_extension (extension_new ''pax'' key value))
                 (ov_pax (src_global s)) archive_metadata_new)))"

section \<open>The pull loop\<close>

definition sealed_at :: "bytes \<Rightarrow> nat \<Rightarrow> bool" where
  "sealed_at buf i \<longleftrightarrow>
     (case get_range buf i (i + BLOCK) of None \<Rightarrow> False | Some h \<Rightarrow> verify_checksum h = Inr ())"

text \<open>\<open>windows(BLOCK).rposition(..)\<close> over the consumed prefix.\<close>

definition last_sealed :: "bytes \<Rightarrow> nat \<Rightarrow> nat option" where
  "last_sealed buf cursor =
     (if length buf < cursor then None
      else (case filter (sealed_at (take cursor buf)) (rev [0..<cursor + 1 - BLOCK]) of [] \<Rightarrow> None | i # _ \<Rightarrow> Some i))"

definition header_start :: "tar_source \<Rightarrow> nat" where
  "header_start s =
     (case checked_sub (src_cursor s) BLOCK of
        Some start \<Rightarrow>
          if sealed_at (src_buf s) start then start else opt_or 0 (last_sealed (src_buf s) (src_cursor s))
      | None \<Rightarrow> opt_or 0 (last_sealed (src_buf s) (src_cursor s)))"

definition staged_entry :: "tar_source \<Rightarrow> error + tar_source_event" where
  "staged_entry s =
     (case src_state s of
        TarPayload _ _ \<Rightarrow>
          bindE (ok_or (Malformed ''staged tar header disappeared'')
                   (get_range (src_buf s) (header_start s) (header_start s + BLOCK))) (\<lambda>hdr.
          bindE (parse_source_header hdr (stage_pending s) (src_global s)) (\<lambda>h.
          Inr (SrcEntry (rich_metadata s h) (stage_sparse s) (stage_is_sparse s))))
      | _ \<Rightarrow> Inl (InvalidState ''tar entry was not staged''))"

definition staged_data :: "tar_source \<Rightarrow> tar_source_event" where
  "staged_data s = SrcData (slice (src_buf s) (src_cursor s - stage_len s) (src_cursor s))"

text \<open>What the loop still has to do: unread bytes, then the state changes that read nothing.\<close>

fun tar_state_rank :: "tar_state \<Rightarrow> nat" where
  "tar_state_rank (TarMeta _ _ _) = 2"
| "tar_state_rank (TarPayload _ _) = 1"
| "tar_state_rank _ = 0"

definition src_work :: "tar_source \<Rightarrow> nat" where
  "src_work s = 3 * src_available s + tar_state_rank (src_state s) + (if global_changed s then 1 else 0)"

lemma apply_record_frame:
  assumes "apply_record s k = (s', r)"
  shows "src_buf s' = src_buf s" "src_cursor s' = src_cursor s" "src_state s' = src_state s"
    "src_finished s' = src_finished s"
  using assms by (auto simp: apply_record_def split: meta_kind.splits sum.splits)

lemma stage_header_frame_tar:
  assumes "stage_header_metadata s hdr p sz = (s', r)"
  shows "src_buf s' = src_buf s" "src_cursor s' = src_cursor s" "src_state s' = src_state s"
    "src_finished s' = src_finished s" "global_changed s' = global_changed s"
  using assms
  by (auto simp: stage_header_metadata_def stage_gnu_sparse_def Let_def split: sum.splits prod.splits if_splits)

lemma poll_entry_header_ok:
  assumes "poll_entry_header s hdr = (s', Inr p)"
  shows "src_buf s' = src_buf s" "src_cursor s' = src_cursor s + BLOCK" "src_finished s' = src_finished s"
    "global_changed s' = global_changed s"
    "p = PollContinue \<and> (\<exists>r q. src_state s' = TarSparseExtensions r q) \<or>
     p = PollEntry \<and> (\<exists>r q. src_state s' = TarPayload r q)"
  using assms stage_header_frame_tar
  by (auto simp: poll_entry_header_def Let_def split: sum.splits prod.splits if_splits)

text \<open>What a successful poll does: the buffer stays, the cursor moves forward within it, and every
  result but a request for input reduces the remaining work.\<close>

definition poll_ok :: "tar_source \<Rightarrow> tar_source \<Rightarrow> poll_result \<Rightarrow> bool" where
  "poll_ok s s' p \<longleftrightarrow>
     src_buf s' = src_buf s \<and> src_finished s' = src_finished s \<and> src_cursor s \<le> src_cursor s' \<and>
     (src_cursor s \<le> length (src_buf s) \<longrightarrow> src_cursor s' \<le> length (src_buf s)) \<and>
     (p = PollNeedInput \<longrightarrow> s' = s) \<and>
     (p = PollDone \<longrightarrow> src_state s' = TarDone) \<and>
     (p = PollData \<longrightarrow> 0 < stage_len s' \<and> stage_len s' \<le> src_cursor s') \<and>
     (p = PollContinue \<or> p = PollEntry \<or> p = PollData \<or> p = PollEndEntry \<longrightarrow> src_work s' < src_work s)"

lemma poll_header_ok: "poll_header s = (s', Inr p) \<Longrightarrow> src_state s = TarHeader \<Longrightarrow> poll_ok s s' p"
proof -
  assume p: "poll_header s = (s', Inr p)" and st: "src_state s = TarHeader"
  show "poll_ok s s' p"
  proof (cases "src_available s < BLOCK \<or> (\<forall>b \<in> set (src_window s). b = 0)")
    case True
    with p show ?thesis by (auto simp: poll_header_def poll_ok_def Let_def split: if_splits)
  next
    case False
    then have av: "src_cursor s + 512 \<le> length (src_buf s)" by (auto simp: src_available_def BLOCK_def)
    from False p obtain raw where "(if is_meta_flag (src_window s ! O_TYPEFLAG)
        then poll_meta_header s (src_window s ! O_TYPEFLAG) raw else poll_entry_header s (src_window s)) = (s', Inr p)"
      by (simp add: poll_header_def Let_def split: sum.splits if_splits)
    then show ?thesis
      using av st poll_entry_header_ok [of s "src_window s" s' p]
      by (auto simp: poll_ok_def poll_meta_header_def src_work_def src_available_def BLOCK_def
          split: if_splits sum.splits)
  qed
qed

lemma poll_advance:
  assumes "0 < n" and "n \<le> src_available s" and "src_buf s' = src_buf s" and "src_cursor s' = src_cursor s + n"
    and "global_changed s' = global_changed s" and "tar_state_rank (src_state s') \<le> tar_state_rank (src_state s)"
  shows "src_work s' < src_work s" "src_cursor s' \<le> length (src_buf s)"
proof -
  have "src_available s' + n = src_available s" using assms by (simp add: src_available_def)
  then show "src_work s' < src_work s" using assms by (simp add: src_work_def)
  show "src_cursor s' \<le> length (src_buf s)" using assms by (simp add: src_available_def)
qed

lemma poll_meta_ok:
  assumes "poll_meta s k data pad = (s', Inr p)" and "src_state s = TarMeta k data pad" and "\<not> global_changed s"
  shows "poll_ok s s' p"
proof (cases "data = 0 \<and> pad = 0")
  case True
  obtain s1 r where s1: "apply_record s k = (s1, r)" by force
  with True assms(1) have "s' = s1\<lparr>src_record := [], src_state := TarHeader\<rparr>" "p = PollContinue"
    by (auto simp: poll_meta_def split: sum.splits)
  with apply_record_frame [OF s1] assms(2,3) show ?thesis
    by (auto simp: poll_ok_def src_work_def src_available_def)
next
  case False
  show ?thesis
  proof (cases "src_available s = 0")
    case True
    with False assms(1) have "s' = s \<and> p = PollNeedInput"
      by (auto simp: poll_meta_def starved_def split: if_splits)
    then show ?thesis by (simp add: poll_ok_def)
  next
    case av: False
    define n where "n = min (if 0 < data then data else pad) (src_available s)"
    have n: "0 < n" "n \<le> src_available s" using False av by (auto simp: n_def)
    have "src_buf s' = src_buf s \<and> src_finished s' = src_finished s \<and> src_cursor s' = src_cursor s + n \<and>
        global_changed s' = global_changed s \<and> tar_state_rank (src_state s') = 2 \<and> p = PollContinue"
      using False av assms(1) by (auto simp: poll_meta_def n_def Let_def split: if_splits)
    with n poll_advance [of n s s'] assms(2) show ?thesis by (auto simp: poll_ok_def)
  qed
qed

lemma poll_payload_ok:
  assumes "poll_payload s remaining pad = (s', Inr p)" and "src_state s = TarPayload remaining pad"
  shows "poll_ok s s' p"
proof (cases "remaining = 0 \<and> pad = 0")
  case True
  with assms have "s' = s\<lparr>src_state := TarHeader\<rparr> \<and> p = PollEndEntry" by (simp add: poll_payload_def)
  with assms(2) show ?thesis by (simp add: poll_ok_def src_work_def src_available_def)
next
  case False
  define n where "n = (if 0 < remaining then min (min remaining (src_available s)) (payload_chunk_limit s)
    else min pad (src_available s))"
  have cases: "s' = s \<and> p = PollNeedInput \<or>
      0 < n \<and> src_buf s' = src_buf s \<and> src_finished s' = src_finished s \<and> src_cursor s' = src_cursor s + n \<and>
      global_changed s' = global_changed s \<and> tar_state_rank (src_state s') = 1 \<and>
      (p = PollContinue \<or> p = PollData \<and> stage_len s' = n)"
    using False assms(1)
    by (simp add: poll_payload_def starved_def n_def Let_def tar_usize_of_def split: if_splits) auto
  have "n \<le> src_available s" by (auto simp: n_def)
  with cases poll_advance [of n s s'] assms(2) show ?thesis by (auto simp: poll_ok_def)
qed

lemma poll_sparse_ok:
  assumes "poll_sparse_extension s remaining pad = (s', Inr p)" and "src_state s = TarSparseExtensions remaining pad"
  shows "poll_ok s s' p"
  using assms
  by (auto simp: poll_sparse_extension_def poll_ok_def starved_def src_work_def src_available_def Let_def BLOCK_def
      split: if_splits sum.splits)

lemma poll_step_ok:
  assumes "poll s = (s', Inr p)" and "\<not> global_changed s"
  shows "poll_ok s s' p"
  using assms poll_header_ok poll_meta_ok poll_payload_ok poll_sparse_ok
  by (cases "src_state s") (auto simp: poll_def poll_ok_def)

function pull_loop :: "tar_source \<Rightarrow> tar_source \<times> (error + tar_source_event)" where
  "pull_loop s =
     (if global_changed s then
        (case take_global_metadata s of
           (s1, None) \<Rightarrow> (s1, Inl (InvalidState ''global PAX update disappeared''))
         | (s1, Some md) \<Rightarrow> (s1, Inr (SrcArchiveMetadata md)))
      else
        (case poll s of
           (s1, Inl e) \<Rightarrow> (s1, Inl e)
         | (s1, Inr PollContinue) \<Rightarrow> pull_loop s1
         | (s1, Inr PollNeedInput) \<Rightarrow> (s1, Inr SrcNeedInput)
         | (s1, Inr PollDone) \<Rightarrow> (s1, Inr SrcDone)
         | (s1, Inr PollEndEntry) \<Rightarrow> (s1, Inr SrcEndEntry)
         | (s1, Inr PollEntry) \<Rightarrow> (s1, staged_entry s1)
         | (s1, Inr PollData) \<Rightarrow> (s1, Inr (staged_data s1))))"
  by pat_completeness auto

termination
proof (relation "measure src_work", goal_cases)
  case 1
  then show ?case by simp
next
  case (2 s s1)
  then have "poll_ok s s1 PollContinue" by (intro poll_step_ok) simp_all
  then show ?case by (simp add: poll_ok_def)
qed

declare pull_loop.simps [simp del]

definition pull_v2 :: "tar_source \<Rightarrow> tar_source \<times> (error + tar_source_event)" where
  "pull_v2 s = pull_loop (src_compact s)"

section \<open>What a pull does\<close>

definition pull_ok :: "tar_source \<Rightarrow> tar_source \<Rightarrow> tar_source_event \<Rightarrow> bool" where
  "pull_ok s s' ev \<longleftrightarrow>
     src_buf s' = src_buf s \<and> src_finished s' = src_finished s \<and> src_cursor s \<le> src_cursor s' \<and>
     src_cursor s' \<le> length (src_buf s) \<and>
     (ev = SrcDone \<or> (if ev = SrcNeedInput then src_work s' \<le> src_work s else src_work s' < src_work s)) \<and>
     (\<forall>bs. ev = SrcData bs \<longrightarrow> bs \<noteq> [])"

lemma pull_loop_ok:
  assumes "pull_loop s = (s', Inr ev)" and "src_cursor s \<le> length (src_buf s)"
  shows "pull_ok s s' ev"
  using assms
proof (induction s arbitrary: s' ev rule: pull_loop.induct)
  case (1 s)
  show ?case
  proof (cases "global_changed s")
    case True
    with "1.prems" show ?thesis
      by (auto simp: pull_loop.simps [of s] take_global_metadata_def pull_ok_def src_work_def src_available_def)
  next
    case False
    with "1.prems"(1) obtain s1 p where p: "poll s = (s1, Inr p)"
      by (auto simp: pull_loop.simps [of s] split: prod.splits sum.splits)
    note ok = poll_step_ok [OF p False]
    show ?thesis
    proof (cases "p = PollContinue")
      case True
      with False p "1.prems" ok have "pull_ok s1 s' ev"
        by (intro "1.IH") (auto simp: pull_loop.simps [of s] poll_ok_def)
      with ok True show ?thesis by (auto simp: pull_ok_def poll_ok_def)
    next
      case go: False
      have "s' = s1" using go False p "1.prems" by (cases p) (auto simp: pull_loop.simps [of s])
      moreover have "slice (src_buf s) (src_cursor s1 - stage_len s1) (src_cursor s1) \<noteq> []" if "p = PollData"
        using that ok "1.prems"(2) by (auto simp: poll_ok_def slice_def)
      ultimately show ?thesis
        using go False p "1.prems" ok
        by (cases p) (auto simp: pull_loop.simps [of s] pull_ok_def poll_ok_def staged_data_def staged_entry_def
            bindE_Inr_iff split: tar_state.splits)
    qed
  qed
qed

lemma src_compact_sel [simp]:
  "src_cursor (src_compact s) = 0" "src_buf (src_compact s) = drop (src_cursor s) (src_buf s)"
  "src_finished (src_compact s) = src_finished s" "src_work (src_compact s) = src_work s"
  by (simp_all add: src_compact_def src_work_def src_available_def)

lemma pull_v2_ok:
  assumes "pull_v2 s = (s', Inr ev)"
  shows "pull_ok (src_compact s) s' ev"
  using assms by (auto simp: pull_v2_def intro: pull_loop_ok)

end
