(* ===== verification/Oxide_Tar_Decoder.thy ===== *)
theory Oxide_Tar_Decoder
  imports Oxide_Tar_Source "HOL-Library.Product_Lexorder"
begin

text \<open>
  \<open>TarDecoder\<close> of \<open>format/tar.rs\<close>: the incremental decoder around \<open>TarSource\<close>, which bounds the
  input it buffers, enforces the entry, path, metadata and payload budgets, and expands sparse
  holes into zeros in the caller's output buffer.
\<close>

section \<open>State\<close>

record tar_decoder =
  td_source :: tar_source
  td_limits :: limits
  td_needs_input :: bool
  td_input_finished :: bool
  td_done :: bool
  td_entries :: nat
  td_entry_bytes :: nat
  td_total_bytes :: nat
  td_metadata_bytes :: nat
  td_sparse_active :: bool
  td_sparse :: "sparse_extent list"
  td_sparse_index :: nat
  td_logical_position :: nat
  td_logical_size :: nat

definition tar_decoder_new :: "limits \<Rightarrow> tar_decoder" where
  "tar_decoder_new l =
     \<lparr>td_source = tar_source_new, td_limits = l, td_needs_input = True, td_input_finished = False,
      td_done = False, td_entries = 0, td_entry_bytes = 0, td_total_bytes = 0, td_metadata_bytes = 0,
      td_sparse_active = False, td_sparse = [], td_sparse_index = 0, td_logical_position = 0,
      td_logical_size = 0\<rparr>"

definition ISO_PROBE :: nat where "ISO_PROBE = 17 * 2048 + 6"

definition tar_probe :: "bytes \<Rightarrow> unit probe_result" where
  "tar_probe pre =
     (if length pre < BLOCK then ProbeNeedMore BLOCK
      else if \<forall>b \<in> set (take BLOCK pre). b = 0 then
        (if length pre < ISO_PROBE then ProbeNeedMore ISO_PROBE else ProbeMatch ())
      else if verify_checksum (take BLOCK pre) = Inr () then ProbeMatch ()
      else ProbeNoMatch)"

section \<open>Accounting\<close>

definition check_limit_u64 :: "nat \<Rightarrow> nat option \<Rightarrow> string \<Rightarrow> archive_error + unit" where
  "check_limit_u64 actual limit message =
     (if exceeds limit actual then Inl (tar_err ErrLimit message) else Inr ())"

definition account_data :: "tar_decoder \<Rightarrow> nat \<Rightarrow> tar_decoder \<times> (archive_error + unit)" where
  "account_data s len =
     (case checked_add (td_entry_bytes s) len of
        None \<Rightarrow> (s, Inl (tar_err ErrLimit ''entry byte count overflow''))
      | Some n \<Rightarrow>
          let s1 = s\<lparr>td_entry_bytes := n\<rparr> in
          (case checked_add (td_total_bytes s1) len of
             None \<Rightarrow> (s1, Inl (tar_err ErrLimit ''decoded byte count overflow''))
           | Some t \<Rightarrow>
               let s2 = s1\<lparr>td_total_bytes := t\<rparr> in
               (s2, bindE (check_limit_u64 n (entry_bytes (td_limits s2)) ''entry bytes exceed limit'') (\<lambda>_.
                    check_limit_u64 t (decoded_total (td_limits s2)) ''decoded bytes exceed limit''))))"

definition entry_metadata_cost :: "entry_metadata \<Rightarrow> archive_error + nat" where
  "entry_metadata_cost md =
     ok_or (tar_err ErrLimit ''metadata accounting overflow'')
       (Option.bind (checked_add (length (ap_raw (md_path md)))
          (case md_link_target md of None \<Rightarrow> 0 | Some t \<Rightarrow> length (ap_raw t))) (\<lambda>v.
        Option.bind (checked_add v
          (sum_list (map (\<lambda>x. length (ext_key x) + length (ext_value x)) (md_extensions md)))) (\<lambda>v.
        Option.bind (checked_add v
          (sum_list (map (\<lambda>(name, value). length name + length value) (md_xattrs md)))) (\<lambda>v.
        checked_add v (sum_list (map length (md_acl md)))))))"

section \<open>Sparse holes\<close>

definition extent_at :: "tar_decoder \<Rightarrow> sparse_extent option" where
  "extent_at s = (if td_sparse_index s < length (td_sparse s) then Some (td_sparse s ! td_sparse_index s) else None)"

text \<open>The loop that steps over extents that end at the current position.\<close>

fun skip_extents :: "sparse_extent list \<Rightarrow> nat \<Rightarrow> nat \<Rightarrow> nat" where
  "skip_extents [] index pos = index"
| "skip_extents (e # es) index pos =
     (if checked_add (se_offset e) (se_length e) = Some pos then skip_extents es (index + 1) pos
      else index)"

definition advance_extents :: "tar_decoder \<Rightarrow> tar_decoder" where
  "advance_extents s = s\<lparr>td_sparse_index :=
     skip_extents (drop (td_sparse_index s) (td_sparse s)) (td_sparse_index s) (td_logical_position s)\<rparr>"

definition limit_chunk :: "nat \<Rightarrow> tar_decoder \<Rightarrow> tar_decoder" where
  "limit_chunk n s = s\<lparr>td_source := set_payload_chunk_limit n (td_source s)\<rparr>"

definition sparse_hole ::
    "tar_decoder \<Rightarrow> nat \<Rightarrow> tar_decoder \<times> (archive_error + decode_step option)" where
  "sparse_hole s cap =
     (if \<not> td_sparse_active s then (limit_chunk usize_max s, Inr None)
      else
        let s1 = advance_extents s;
            next_data = (case extent_at s1 of None \<Rightarrow> td_logical_size s1 | Some e \<Rightarrow> se_offset e) in
        if td_logical_position s1 < next_data then
          (if cap = 0
           then (s1, Inr (Some \<lparr>ds_consumed = 0, ds_produced = 0, ds_event = EvNeedOutput\<rparr>))
           else
             let count = min (next_data - td_logical_position s1) cap;
                 s2 = s1\<lparr>td_logical_position := td_logical_position s1 + count\<rparr> in
             (case account_data s2 count of
                (s3, Inl e) \<Rightarrow> (s3, Inl e)
              | (s3, Inr _) \<Rightarrow>
                  (s3, Inr (Some \<lparr>ds_consumed = 0, ds_produced = count, ds_event = EvData (replicate count 0)\<rparr>))))
        else
          (case extent_at s1 of
             None \<Rightarrow> (limit_chunk usize_max s1, Inr None)
           | Some e \<Rightarrow>
               (case checked_add (se_offset e) (se_length e) of
                  None \<Rightarrow> (s1, Inl (tar_err ErrMalformed ''sparse extent overflow''))
                | Some end \<Rightarrow> (limit_chunk (min (end - td_logical_position s1) usize_max) s1, Inr None))))"

section \<open>The step function\<close>

text \<open>Feeding: how much input the in-flight budget admits.\<close>

definition tar_feed :: "tar_decoder \<Rightarrow> bytes \<Rightarrow> tar_decoder \<times> (archive_error + nat)" where
  "tar_feed s input =
     (if td_needs_input s \<and> input \<noteq> [] then
        let accepted_limit =
              (case in_flight_bytes (td_limits s) of
                 None \<Rightarrow> length input
               | Some l \<Rightarrow> min (l - buffered_len (td_source s)) (length input)) in
        if accepted_limit = 0
        then (s, Inl (tar_err ErrLimit ''in-flight buffer budget was exhausted''))
        else
          let (src, accepted) = src_feed (td_source s) (take accepted_limit input) in
          if length input < accepted
          then (s\<lparr>td_source := src\<rparr>, Inl (tar_err ErrProtocol ''tar source over-consumed input''))
          else (s\<lparr>td_source := src, td_needs_input := False\<rparr>, Inr accepted)
      else (s, Inr 0))"

definition tar_entry :: "tar_decoder \<Rightarrow> entry_metadata \<Rightarrow> sparse_extent list \<Rightarrow> bool \<Rightarrow>
    tar_decoder \<times> (archive_error + decode_event)" where
  "tar_entry s md sparse is_sparse =
     (case checked_add (td_entries s) 1 of
        None \<Rightarrow> (s, Inl (tar_err ErrLimit ''entry count overflow''))
      | Some n \<Rightarrow>
          let s1 = s\<lparr>td_entries := n\<rparr>;
              logical_size = opt_or 0 (md_size md) in
          (case bindE (check_limit_u64 n (max_entries (td_limits s1)) ''entry count exceeds limit'') (\<lambda>_.
                bindE (if exceeds (path_bytes (td_limits s1)) (length (ap_raw (md_path md)))
                       then Inl (with_context ''entry path exceeds limit''
                              (with_entry (n - 1) (ap_raw (md_path md)) (with_format ''tar'' (archive_error_new ErrLimit))))
                       else Inr ()) (\<lambda>_.
                bindE (check_limit_u64 logical_size (entry_bytes (td_limits s1)) ''entry size exceeds limit'') (\<lambda>_.
                bindE (entry_metadata_cost md) (\<lambda>cost.
                ok_or (tar_err ErrLimit ''metadata accounting overflow'') (checked_add (td_metadata_bytes s1) cost))))) of
             Inl e \<Rightarrow> (s1, Inl e)
           | Inr m \<Rightarrow>
               let s2 = s1\<lparr>td_metadata_bytes := m\<rparr> in
               if exceeds (metadata_bytes (td_limits s2)) m
               then (s2, Inl (tar_err ErrLimit ''metadata exceeds configured limit''))
               else
                 (s2\<lparr>td_entry_bytes := 0, td_sparse_active := is_sparse, td_sparse := sparse,
                     td_sparse_index := 0, td_logical_position := 0, td_logical_size := logical_size\<rparr>,
                  Inr (EvEntry md))))"

definition tar_sparse_position :: "tar_decoder \<Rightarrow> nat \<Rightarrow> archive_error + nat" where
  "tar_sparse_position s len =
     bindE (ok_or (tar_err ErrMalformed ''sparse payload exceeds declared extents'') (extent_at s)) (\<lambda>e.
     bindE (ok_or (tar_err ErrMalformed ''sparse extent overflow'') (checked_add (se_offset e) (se_length e))) (\<lambda>end.
     bindE (ok_or (tar_err ErrLimit ''sparse logical position overflow'')
              (checked_add (td_logical_position s) len)) (\<lambda>next.
     if td_logical_position s < se_offset e \<or> end < next
     then Inl (tar_err ErrMalformed ''sparse payload does not match extent map'')
     else Inr next)))"

definition tar_data :: "tar_decoder \<Rightarrow> bytes \<Rightarrow> tar_decoder \<times> (archive_error + decode_event)" where
  "tar_data s data =
     (case (if td_sparse_active s then tar_sparse_position s (length data) else Inr (td_logical_position s)) of
        Inl e \<Rightarrow> (s, Inl e)
      | Inr next \<Rightarrow>
          (case account_data (s\<lparr>td_logical_position := next\<rparr>) (length data) of
             (s1, Inl e) \<Rightarrow> (s1, Inl e)
           | (s1, Inr _) \<Rightarrow> (s1, Inr (EvData data))))"

definition tar_event :: "tar_decoder \<Rightarrow> tar_source_event \<Rightarrow> tar_decoder \<times> (archive_error + decode_event)" where
  "tar_event s ev =
     (case ev of
        SrcNeedInput \<Rightarrow>
          let s1 = s\<lparr>td_needs_input := True\<rparr> in
          if td_input_finished s1 then (s1, Inl (tar_err ErrMalformed ''unexpected end of tar input''))
          else (s1, Inr EvNeedInput)
      | SrcArchiveMetadata md \<Rightarrow> (s, Inr (EvArchiveMetadata md))
      | SrcEntry md sparse is_sparse \<Rightarrow> tar_entry s md sparse is_sparse
      | SrcData data \<Rightarrow> tar_data s data
      | SrcEndEntry \<Rightarrow>
          if td_sparse_active s \<and> td_logical_position s \<noteq> td_logical_size s
          then (s, Inl (tar_err ErrMalformed ''sparse payload ended before logical size''))
          else (s\<lparr>td_sparse_active := False\<rparr>, Inr EvEndEntry)
      | SrcDone \<Rightarrow> (s\<lparr>td_done := True\<rparr>, Inr EvDone))"

definition tar_pull :: "tar_decoder \<Rightarrow> nat \<Rightarrow> tar_decoder \<times> (archive_error + decode_step)" where
  "tar_pull s consumed =
     (case pull_v2 (td_source s) of
        (src, Inl e) \<Rightarrow> (s\<lparr>td_source := src\<rparr>, Inl (archive_error_from e))
      | (src, Inr ev) \<Rightarrow>
          (case tar_event (s\<lparr>td_source := src\<rparr>) ev of
             (s1, Inl e) \<Rightarrow> (s1, Inl e)
           | (s1, Inr event) \<Rightarrow> (s1, Inr (dstep consumed event))))"

definition tar_step :: "nat \<Rightarrow> tar_decoder decoder_step" where
  \<comment> \<open>the first argument is the length of the caller's output buffer\<close>
  "tar_step cap s input e =
     (if td_done s then
        (if input \<noteq> [] then (s, Inl (tar_err ErrProtocol ''input supplied after archive end''))
         else (s, Inr (dstep 0 EvDone)))
      else if (case in_flight_bytes (td_limits s) of None \<Rightarrow> False | Some l \<Rightarrow> l < BLOCK)
      then (s, Inl (tar_err ErrLimit ''in-flight limit is smaller than one tar block''))
      else
        (case sparse_hole s cap of
           (s1, Inl e) \<Rightarrow> (s1, Inl e)
         | (s1, Inr (Some d)) \<Rightarrow> (s1, Inr d)
         | (s1, Inr None) \<Rightarrow>
             (case tar_feed s1 input of
                (s2, Inl e) \<Rightarrow> (s2, Inl e)
              | (s2, Inr consumed) \<Rightarrow>
                  let s3 = (if e = End \<and> consumed = length input \<and> \<not> td_input_finished s2
                            then s2\<lparr>td_source := finish_input (td_source s2), td_input_finished := True\<rparr>
                            else s2) in
                  tar_pull s3 consumed)))"

section \<open>The decoder contract\<close>

text \<open>
  The cursor stays inside the buffer, the source knows about the end of input exactly when the
  decoder does, and the buffer never outgrows the in-flight budget.
\<close>

definition tar_inv :: "tar_decoder \<Rightarrow> bool" where
  "tar_inv s \<longleftrightarrow>
     src_cursor (td_source s) \<le> length (src_buf (td_source s)) \<and>
     src_finished (td_source s) = td_input_finished s \<and>
     \<not> exceeds (in_flight_bytes (td_limits s)) (buffered_len (td_source s))"

definition tar_allowance :: "tar_decoder \<Rightarrow> nat option" where
  "tar_allowance s = map_option (\<lambda>l. l - td_total_bytes s) (decoded_total (td_limits s))"

text \<open>No hole reaches beyond this position.\<close>

definition hole_bound :: "tar_decoder \<Rightarrow> nat" where
  "hole_bound s = td_logical_size s + sum_list (map se_offset (td_sparse s))"

definition tar_rank :: "tar_decoder \<Rightarrow> nat \<times> nat \<times> nat" where
  "tar_rank s = (src_work (td_source s), hole_bound s - td_logical_position s, if td_needs_input s then 0 else 1)"

lemma account_data_ok:
  assumes "account_data s n = (s', Inr u)"
  shows "s' = s\<lparr>td_entry_bytes := td_entry_bytes s + n, td_total_bytes := td_total_bytes s + n\<rparr>"
    "\<not> exceeds (decoded_total (td_limits s)) (td_total_bytes s + n)"
    "\<not> exceeds (entry_bytes (td_limits s)) (td_entry_bytes s + n)"
  using assms
  by (auto simp: account_data_def check_limit_u64_def checked_add_def Let_def bindE_Inr_iff
      split: if_splits option.splits)

lemma next_data_bound:
  "(case extent_at s of None \<Rightarrow> td_logical_size s | Some e \<Rightarrow> se_offset e) \<le> hole_bound s"
  using elem_le_sum_list [of "td_sparse_index s" "map se_offset (td_sparse s)"]
  by (auto simp: extent_at_def hole_bound_def)

text \<open>What any successful step keeps and what it charges.\<close>

definition tar_ok :: "tar_decoder \<Rightarrow> tar_decoder \<Rightarrow> decode_event \<Rightarrow> bool" where
  "tar_ok s s' ev \<longleftrightarrow>
     td_limits s' = td_limits s \<and>
     td_total_bytes s' = td_total_bytes s + length (case ev of EvData bs \<Rightarrow> bs | _ \<Rightarrow> []) \<and>
     ((\<exists>bs. ev = EvData bs) \<longrightarrow> \<not> exceeds (decoded_total (td_limits s)) (td_total_bytes s'))"

lemma advance_extents_sel [simp]:
  "td_source (advance_extents s) = td_source s" "td_limits (advance_extents s) = td_limits s"
  "td_total_bytes (advance_extents s) = td_total_bytes s" "hole_bound (advance_extents s) = hole_bound s"
  "td_logical_position (advance_extents s) = td_logical_position s"
  "td_input_finished (advance_extents s) = td_input_finished s"
  "td_needs_input (advance_extents s) = td_needs_input s" "td_logical_size (advance_extents s) = td_logical_size s"
  by (simp_all add: advance_extents_def hole_bound_def)

lemma limit_chunk_sel [simp]:
  "src_buf (td_source (limit_chunk n s)) = src_buf (td_source s)"
  "src_cursor (td_source (limit_chunk n s)) = src_cursor (td_source s)"
  "src_finished (td_source (limit_chunk n s)) = src_finished (td_source s)"
  "src_work (td_source (limit_chunk n s)) = src_work (td_source s)"
  "td_limits (limit_chunk n s) = td_limits s" "td_total_bytes (limit_chunk n s) = td_total_bytes s"
  "td_input_finished (limit_chunk n s) = td_input_finished s"
  "td_needs_input (limit_chunk n s) = td_needs_input s" "hole_bound (limit_chunk n s) = hole_bound s"
  "td_logical_position (limit_chunk n s) = td_logical_position s"
  by (simp_all add: limit_chunk_def set_payload_chunk_limit_def src_work_def src_available_def hole_bound_def)

lemma tar_inv_frame:
  assumes "tar_inv s" and "src_buf (td_source s') = src_buf (td_source s)"
    and "src_cursor (td_source s') = src_cursor (td_source s)"
    and "src_finished (td_source s') = src_finished (td_source s)"
    and "td_input_finished s' = td_input_finished s" and "td_limits s' = td_limits s"
  shows "tar_inv s'"
  using assms by (simp add: tar_inv_def buffered_len_def)

lemma sparse_hole_none:
  assumes "sparse_hole s cap = (s', Inr None)"
  shows "tar_inv s \<Longrightarrow> tar_inv s'" "tar_rank s' = tar_rank s" "td_limits s' = td_limits s"
    "td_total_bytes s' = td_total_bytes s" "td_needs_input s' = td_needs_input s"
proof -
  obtain n t where s': "s' = limit_chunk n t" "t = s \<or> t = advance_extents s"
    using assms by (auto simp: sparse_hole_def Let_def split: if_splits prod.splits sum.splits option.splits)
  then show "tar_rank s' = tar_rank s" "td_limits s' = td_limits s" "td_total_bytes s' = td_total_bytes s"
    "td_needs_input s' = td_needs_input s" by (auto simp: tar_rank_def)
  show "tar_inv s'" if "tar_inv s" using that by (rule tar_inv_frame) (use s' in auto)
qed

lemma sparse_hole_some:
  assumes "sparse_hole s (Suc n) = (s', Inr (Some d))"
  shows "tar_inv s \<Longrightarrow> tar_inv s'" "tar_rank s' < tar_rank s" "tar_ok s s' (ds_event d)" "ds_consumed d = 0"
    "\<exists>k. 0 < k \<and> k \<le> Suc n \<and> ds_produced d = k \<and> ds_event d = EvData (replicate k 0)"
proof -
  let ?t = "advance_extents s"
  let ?next = "case extent_at ?t of None \<Rightarrow> td_logical_size ?t | Some e \<Rightarrow> se_offset e"
  define k where "k = min (?next - td_logical_position s) (Suc n)"
  have lt: "td_logical_position s < ?next" and
    acc: "account_data (?t\<lparr>td_logical_position := td_logical_position s + k\<rparr>) k = (s', Inr ())" and
    d: "d = \<lparr>ds_consumed = 0, ds_produced = k, ds_event = EvData (replicate k 0)\<rparr>"
    using assms
    by (auto simp: sparse_hole_def Let_def k_def split: if_splits prod.splits sum.splits option.splits)
  from lt have k: "0 < k" "k \<le> Suc n" by (simp_all add: k_def)
  note ok = account_data_ok [OF acc]
  show "\<exists>k. 0 < k \<and> k \<le> Suc n \<and> ds_produced d = k \<and> ds_event d = EvData (replicate k 0)"
    using d k by auto
  show "ds_consumed d = 0" "tar_ok s s' (ds_event d)" using ok d by (simp_all add: tar_ok_def)
  show "tar_inv s'" if "tar_inv s" using that by (rule tar_inv_frame) (simp_all add: ok(1))
  have "td_logical_position s < hole_bound s" using lt next_data_bound [of ?t] by simp
  then show "tar_rank s' < tar_rank s"
    using k by (simp add: tar_rank_def ok(1) hole_bound_def advance_extents_def)
qed

lemma tar_feed_cases:
  assumes "tar_feed s input = (s', Inr c)"
  obtains (idle) "s' = s" "c = 0" "\<not> (td_needs_input s \<and> input \<noteq> [])"
    | (fed) "0 < c" "c \<le> length input"
      "s' = s\<lparr>td_source := (td_source s)\<lparr>src_buf := src_buf (td_source s) @ take c input\<rparr>, td_needs_input := False\<rparr>"
      "\<forall>l. in_flight_bytes (td_limits s) = Some l \<longrightarrow> c \<le> l - buffered_len (td_source s)"
proof (cases "td_needs_input s \<and> input \<noteq> []")
  case False
  with assms show thesis by (intro idle) (auto simp: tar_feed_def)
next
  case True
  define k where "k = (case in_flight_bytes (td_limits s) of None \<Rightarrow> length input
    | Some l \<Rightarrow> min (l - buffered_len (td_source s)) (length input))"
  have k: "k \<le> length input" "\<forall>l. in_flight_bytes (td_limits s) = Some l \<longrightarrow> k \<le> l - buffered_len (td_source s)"
    by (auto simp: k_def split: option.splits)
  have "0 < k \<and> c = k \<and>
      s' = s\<lparr>td_source := (td_source s)\<lparr>src_buf := src_buf (td_source s) @ take k input\<rparr>, td_needs_input := False\<rparr>"
    using assms True k(1) unfolding tar_feed_def k_def [symmetric] Let_def src_feed_def
    by (auto simp: min_absorb2 split: if_splits)
  with k show thesis by (intro fed) auto
qed

lemma tar_feed_inv:
  assumes "tar_feed s input = (s', Inr c)" and "tar_inv s"
  shows "tar_inv s'"
  using assms(1)
proof (cases rule: tar_feed_cases)
  case idle
  with assms(2) show ?thesis by simp
next
  case fed
  with assms(2) show ?thesis
    by (cases "in_flight_bytes (td_limits s)") (auto simp: tar_inv_def buffered_len_def)
qed

lemma tar_entry_ok:
  assumes "tar_entry s md sp b = (s', Inr ev)"
  shows "ev = EvEntry md" "td_limits s' = td_limits s" "td_total_bytes s' = td_total_bytes s"
    "td_source s' = td_source s" "td_input_finished s' = td_input_finished s"
  using assms
  by (auto simp: tar_entry_def Let_def split: option.splits sum.splits if_splits)

lemma tar_data_ok:
  assumes "tar_data s bs = (s', Inr ev)"
  shows "ev = EvData bs" "tar_ok s s' (EvData bs)" "td_source s' = td_source s"
    "td_input_finished s' = td_input_finished s"
proof -
  obtain p where p: "account_data (s\<lparr>td_logical_position := p\<rparr>) (length bs) = (s', Inr ())" "ev = EvData bs"
    using assms by (auto simp: tar_data_def split: sum.splits prod.splits)
  note ok = account_data_ok [OF p(1)]
  show "ev = EvData bs" by (rule p(2))
  show "tar_ok s s' (EvData bs)" "td_source s' = td_source s" "td_input_finished s' = td_input_finished s"
    using ok by (simp_all add: tar_ok_def)
qed

lemma tar_event_ok:
  assumes "tar_event s sev = (s', Inr ev)"
  shows "tar_ok s s' ev" "td_source s' = td_source s" "td_input_finished s' = td_input_finished s"
    "ev = EvDone \<longleftrightarrow> sev = SrcDone" "ev = EvNeedInput \<longleftrightarrow> sev = SrcNeedInput"
    "sev = SrcNeedInput \<Longrightarrow> s' = s\<lparr>td_needs_input := True\<rparr> \<and> \<not> td_input_finished s"
    "\<forall>bs. ev = EvData bs \<longrightarrow> sev = SrcData bs"
proof -
  have e: "tar_ok s s' ev \<and> td_source s' = td_source s \<and> td_input_finished s' = td_input_finished s \<and>
    (ev = EvDone \<longleftrightarrow> sev = SrcDone) \<and> (ev = EvNeedInput \<longleftrightarrow> sev = SrcNeedInput) \<and>
    (sev = SrcNeedInput \<longrightarrow> s' = s\<lparr>td_needs_input := True\<rparr> \<and> \<not> td_input_finished s) \<and>
    (\<forall>bs. ev = EvData bs \<longrightarrow> sev = SrcData bs)"
  proof (cases sev)
    case (SrcEntry md sp b)
    then have "tar_entry s md sp b = (s', Inr ev)" using assms by (simp add: tar_event_def)
    from tar_entry_ok [OF this] SrcEntry show ?thesis by (simp add: tar_ok_def)
  next
    case (SrcData bs)
    then have "tar_data s bs = (s', Inr ev)" using assms by (simp add: tar_event_def)
    from tar_data_ok [OF this] SrcData show ?thesis by simp
  qed (use assms in \<open>auto simp: tar_event_def tar_ok_def Let_def split: if_splits\<close>)
  then show "tar_ok s s' ev" "td_source s' = td_source s" "td_input_finished s' = td_input_finished s"
    "ev = EvDone \<longleftrightarrow> sev = SrcDone" "ev = EvNeedInput \<longleftrightarrow> sev = SrcNeedInput"
    "sev = SrcNeedInput \<Longrightarrow> s' = s\<lparr>td_needs_input := True\<rparr> \<and> \<not> td_input_finished s"
    "\<forall>bs. ev = EvData bs \<longrightarrow> sev = SrcData bs" by simp_all
qed

lemma tar_pull_ok:
  assumes "tar_pull s c = (s', Inr d)" and "tar_inv s"
  shows "tar_inv s'" "tar_ok s s' (ds_event d)" "ds_consumed d = c" "ds_produced d = 0"
    "ds_event d \<noteq> EvDone \<Longrightarrow> \<not> (td_needs_input s \<and> ds_event d = EvNeedInput) \<Longrightarrow> tar_rank s' < tar_rank s"
    "ds_event d = EvNeedInput \<Longrightarrow> \<not> td_input_finished s" "\<forall>bs. ds_event d = EvData bs \<longrightarrow> bs \<noteq> []"
proof -
  obtain src sev ev where p: "pull_v2 (td_source s) = (src, Inr sev)"
    and e: "tar_event (s\<lparr>td_source := src\<rparr>) sev = (s', Inr ev)" and d: "d = dstep c ev"
    using assms(1) by (auto simp: tar_pull_def split: prod.splits sum.splits)
  note ev = tar_event_ok [OF e]
  note po = pull_v2_ok [OF p, unfolded pull_ok_def src_compact_sel]
  show "tar_ok s s' (ds_event d)" using ev(1) d by (auto simp: tar_ok_def)
  show "ds_consumed d = c" "ds_produced d = 0" using d by simp_all
  show "ds_event d = EvNeedInput \<Longrightarrow> \<not> td_input_finished s" using ev(5,6) d by simp
  show "\<forall>bs. ds_event d = EvData bs \<longrightarrow> bs \<noteq> []" using ev(7) po d by auto
  have "buffered_len src \<le> buffered_len (td_source s)" using po by (simp add: buffered_len_def)
  then have "\<not> exceeds (in_flight_bytes (td_limits s)) (buffered_len src)"
    using assms(2) exceeds_mono by (auto simp: tar_inv_def)
  then show "tar_inv s'"
    using po ev(1,2,3) assms(2) by (simp add: tar_inv_def tar_ok_def buffered_len_def)
  assume live: "ds_event d \<noteq> EvDone" "\<not> (td_needs_input s \<and> ds_event d = EvNeedInput)"
  show "tar_rank s' < tar_rank s"
  proof (cases "sev = SrcNeedInput")
    case True
    with live d ev(5) have "\<not> td_needs_input s" by simp
    moreover from ev(6) [OF True] have "s' = s\<lparr>td_source := src, td_needs_input := True\<rparr>" by simp
    ultimately show ?thesis using po True by (auto simp: tar_rank_def hole_bound_def)
  next
    case False
    with live d ev(4) po have "src_work src < src_work (td_source s)" by auto
    then show ?thesis using ev(2) by (simp add: tar_rank_def)
  qed
qed

lemma tar_step_ok:
  assumes "tar_step (Suc n) s input e = (s', Inr d)" and "tar_inv s"
  shows "tar_inv s'" "tar_ok s s' (ds_event d)" "ds_consumed d \<le> length input" "ds_produced d \<le> Suc n"
    "e = End \<Longrightarrow> ds_event d \<noteq> EvDone \<Longrightarrow> 0 < ds_consumed d \<or> tar_rank s' < tar_rank s"
    "\<forall>bs. ds_event d = EvData bs \<longrightarrow> bs \<noteq> []"
proof -
  consider (over) "s' = s" "d = dstep 0 EvDone"
    | (hole) "sparse_hole s (Suc n) = (s', Inr (Some d))"
    | (pull) s1 s2 c where "sparse_hole s (Suc n) = (s1, Inr None)" "tar_feed s1 input = (s2, Inr c)"
      "tar_pull (if e = End \<and> c = length input \<and> \<not> td_input_finished s2
         then s2\<lparr>td_source := finish_input (td_source s2), td_input_finished := True\<rparr> else s2) c = (s', Inr d)"
    using assms(1)
    by (simp add: tar_step_def split: if_splits prod.splits sum.splits option.splits) (auto simp: Let_def)
  then have all: "tar_inv s' \<and> tar_ok s s' (ds_event d) \<and> ds_consumed d \<le> length input \<and> ds_produced d \<le> Suc n \<and>
    (e = End \<longrightarrow> ds_event d \<noteq> EvDone \<longrightarrow> 0 < ds_consumed d \<or> tar_rank s' < tar_rank s) \<and>
    (\<forall>bs. ds_event d = EvData bs \<longrightarrow> bs \<noteq> [])"
  proof cases
    case over
    with assms(2) show ?thesis by (simp add: tar_ok_def)
  next
    case hole
    from sparse_hole_some [OF this] assms(2) show ?thesis by auto
  next
    case pull
    define s3 where "s3 = (if e = End \<and> c = length input \<and> \<not> td_input_finished s2
         then s2\<lparr>td_source := finish_input (td_source s2), td_input_finished := True\<rparr> else s2)"
    note h = sparse_hole_none [OF pull(1)]
    have inv2: "tar_inv s2" using tar_feed_inv [OF pull(2)] h(1) assms(2) by simp
    then have inv3: "tar_inv s3"
      by (auto simp: s3_def tar_inv_def finish_input_def buffered_len_def)
    have same: "tar_rank s3 = tar_rank s2" "td_needs_input s3 = td_needs_input s2" "td_limits s3 = td_limits s2"
      "td_total_bytes s3 = td_total_bytes s2"
      by (simp_all add: s3_def tar_rank_def finish_input_def src_work_def src_available_def hole_bound_def)
    note p = tar_pull_ok [OF pull(3) [folded s3_def] inv3]
    have fr: "c \<le> length input" "td_limits s2 = td_limits s" "td_total_bytes s2 = td_total_bytes s"
      using pull(2) h(3,4) by (auto elim: tar_feed_cases)
    have "0 < c \<or> tar_rank s' < tar_rank s" if "e = End" "ds_event d \<noteq> EvDone"
      using pull(2)
    proof (cases rule: tar_feed_cases)
      case idle
      have "\<not> (td_needs_input s3 \<and> ds_event d = EvNeedInput)"
      proof
        assume "td_needs_input s3 \<and> ds_event d = EvNeedInput"
        moreover from this idle same(2) have "input = []" by auto
        then have "td_input_finished s3" using idle(2) that(1) by (simp add: s3_def)
        ultimately show False using p(6) by simp
      qed
      with p(5) that same idle h show ?thesis by simp
    qed simp
    then show ?thesis using p(1-4,7) fr same by (auto simp: tar_ok_def)
  qed
  then show "tar_inv s'" "tar_ok s s' (ds_event d)" "ds_consumed d \<le> length input" "ds_produced d \<le> Suc n"
    "e = End \<Longrightarrow> ds_event d \<noteq> EvDone \<Longrightarrow> 0 < ds_consumed d \<or> tar_rank s' < tar_rank s"
    "\<forall>bs. ds_event d = EvData bs \<longrightarrow> bs \<noteq> []" by blast+
qed

interpretation tar_dec: stepping_decoder "tar_step (Suc n)" tar_inv tar_rank tar_allowance for n
proof unfold_locales
  fix s input e s' d r
  assume "tar_inv s" "tar_step (Suc n) s input e = (s', Inr d)" "tar_allowance s = Some r"
  with tar_step_ok(2) [of n s input e s' d] show "\<exists>r'. tar_allowance s' = Some r' \<and>
      length (case ds_event d of EvData bs \<Rightarrow> bs | _ \<Rightarrow> []) + r' \<le> r"
    by (cases "ds_event d") (auto simp: tar_ok_def tar_allowance_def)
next
  fix s input s' d
  assume "tar_inv s" "tar_step (Suc n) s input End = (s', Inr d)" "ds_event d \<noteq> EvDone"
  then show "0 < ds_consumed d \<or> tar_rank s' < tar_rank s"
    using tar_step_ok(5) [of n s input End s' d] by simp
qed (erule (1) tar_step_ok(1) [rotated] tar_step_ok(3) [rotated])+

lemma tar_inv_new [simp]: "tar_inv (tar_decoder_new l)"
  by (cases "in_flight_bytes l") (simp_all add: tar_inv_def tar_decoder_new_def tar_source_new_def buffered_len_def)

end
