(* ===== verification/Oxide_Sized_Decoders.thy ===== *)
theory Oxide_Sized_Decoders
  imports Oxide_Sized Oxide_Ar_Decoder Oxide_Warc Oxide_Cpio_Decoder Oxide_Tar_Decoder
begin

text \<open>
  The \<open>ar\<close>, WARC, cpio and tar decoders keep the account of \<open>sized_decoder\<close>: in every trace they
  produce, each finished entry delivered exactly the number of bytes it announced.
\<close>

lemma owes_after_simps [simp]:
  "owes_after cur (EvEntry md) cur' \<longleftrightarrow> cur = None \<and> cur' \<noteq> None \<and> cur' = stored_size md"
  "owes_after cur (EvData bs) cur' \<longleftrightarrow> (\<exists>n. cur = Some n \<and> cur' = Some (n - int (length bs)))"
  "owes_after cur EvEndEntry cur' \<longleftrightarrow> cur = Some 0 \<and> cur' = None"
  "owes_after cur EvDone cur' \<longleftrightarrow> cur = None"
  "owes_after cur EvNeedInput cur' \<longleftrightarrow> cur' = cur"
  by (auto simp: owes_after_def)

section \<open>ar\<close>

fun ar_owed :: "ar_decoder_state \<Rightarrow> int option" where
  "ar_owed (ArData n _) = Some (int n)"
| "ar_owed (ArEndEntry _) = Some 0"
| "ar_owed _ = None"

lemma ar_metadata_stored:
  assumes "ar_metadata s name n f = Inr md"
  shows "stored_size md = Some (if ar_thin s then 0 else int n)"
  using assms
  by (auto simp: ar_metadata_def Let_def stored_size_def builder_defs builder_def extension_new_def split: if_splits)

lemma ar_begin_owed:
  assumes "ar_begin_entry s name n p f c = (s', Inr d)" and "ar_owed (ar_state s) = None"
  shows "owes_after None (ds_event d) (ar_owed (ar_state s'))"
  using assms ar_metadata_stored
  by (fastforce simp: ar_begin_entry_def ar_count_entry_def Let_def split: sum.splits prod.splits option.splits if_splits)

lemma ar_member_owed:
  assumes "ar_member s h c = (s', Inr d)" and "ar_owed (ar_state s) = None"
  shows "owes_after None (ds_event d) (ar_owed (ar_state s'))"
  using assms ar_begin_owed [OF _ assms(2)]
  by (simp add: ar_member_def Let_def split: sum.splits prod.splits option.splits if_splits) auto

lemma ar_header_owed:
  assumes "ar_step_header s input c e = (s', Inr d)" and "ar_owed (ar_state s) = None"
  shows "owes_after None (ds_event d) (ar_owed (ar_state s'))"
  using assms ar_member_owed [of "s\<lparr>ar_pending := []\<rparr>"]
  by (auto simp: ar_step_header_def Let_def split: prod.splits if_splits)

lemma ar_step_owed:
  assumes "ar_step s input e = (s', Inr d)"
  shows "owes_after (ar_owed (ar_state s)) (ds_event d) (ar_owed (ar_state s'))"
proof (cases "ar_state s")
  case ArMagic
  with assms ar_header_owed [of _ input _ e s' d] show ?thesis
    by (auto simp: ar_step_def ar_step_magic_def Let_def split: prod.splits if_splits)
next
  case ArHeader
  with assms ar_header_owed [of s input 0 e s' d] show ?thesis by (simp add: ar_step_def)
next
  case (ArBsdName n b p f)
  with assms ar_begin_owed [of _ _ b p f _ s' d] show ?thesis
    by (auto simp: ar_step_def ar_step_bsd_name_def Let_def split: if_splits)
next
  case (ArData n p)
  with assms show ?thesis
    by (auto simp: ar_step_def ar_step_data_def ar_step_end_entry_def Let_def min_def split: if_splits option.splits)
qed (use assms in \<open>auto simp: ar_step_def ar_step_special_def ar_step_end_entry_def Let_def split: if_splits\<close>)

interpretation ar_sized: sized_decoder ar_step ar_inv "\<lambda>s. ar_rank (ar_state s)" ar_allowance "\<lambda>_. True"
    "\<lambda>s. ar_owed (ar_state s)"
  by unfold_locales (simp_all add: ar_step_owed)

section \<open>WARC\<close>

fun warc_owed :: "warc_state \<Rightarrow> int option" where
  "warc_owed (WarcData n) = Some (int n)"
| "warc_owed _ = None"

lemma warc_fields_stored:
  "md_size (foldl (\<lambda>b f. b_extension (extension_new ''warc'' (nf_name f) (nf_value f)) b) m flds) = md_size m"
  "\<exists>x \<in> set (md_extensions (foldl (\<lambda>b f. b_extension (extension_new ''warc'' (nf_name f) (nf_value f)) b) m flds)).
     ext_namespace x = ''ar-thin'' \<Longrightarrow> \<exists>x \<in> set (md_extensions m). ext_namespace x = ''ar-thin''"
  by (induction flds arbitrary: m) (force simp: b_extension_def extension_new_def)+

lemma warc_metadata_stored: "stored_size (warc_metadata path n v flds) = Some (int n)"
proof -
  let ?m = "b_extension (extension_new ''warc'' (ascii ''version'') v)
      (b_mode (Some 420) (b_size (Some n) (builder KindFile (path_from_utf8 path))))"
  have "md_size ?m = Some n" "\<not> (\<exists>x \<in> set (md_extensions ?m). ext_namespace x = ''ar-thin'')"
    by (simp_all add: builder_defs builder_def extension_new_def)
  then show ?thesis
    using warc_fields_stored(2) [of ?m flds] warc_fields_stored(1) [of ?m flds]
    unfolding stored_size_def warc_metadata_def by auto
qed

lemma warc_parse_header_stored:
  assumes "warc_parse_header l h q = Inr (md, n)"
  shows "stored_size md = Some (int n)"
proof -
  obtain v flds k where "warc_entry l q v flds k = Inr (md, n)"
    using assms unfolding warc_parse_header_def bindE_Inr_iff
    by (elim exE conjE) (simp add: bindE_Inr_iff split: list.split_asm, auto)
  then obtain path where "md = warc_metadata path n v flds"
    by (auto simp: warc_entry_def bindE_Inr_iff try_build_def split: if_splits)
  then show ?thesis by (simp add: warc_metadata_stored)
qed

lemma warc_header_loop_owed:
  assumes "warc_header_loop s input c e = (s', Inr d)" and "wd_state s = WarcHeader"
  shows "owes_after None (ds_event d) (warc_owed (wd_state s'))"
  using assms
proof (induction s input c e rule: warc_header_loop.induct)
  case (1 s consumed e)
  then show ?case by (auto split: if_splits)
next
  case (2 s b bs consumed e)
  from "2.prems" obtain s1 where s1: "append_header_byte s b = Inr s1" by (auto split: sum.splits)
  from append_header_byte_ok [OF s1] "2.prems"(2) have st: "wd_state s1 = WarcHeader" by simp
  show ?case
  proof (cases "ends_with (wd_header s1) HEADER_END")
    case False
    with "2.IH" [OF s1 False _ st] "2.prems"(1) s1 show ?thesis by simp
  next
    case True
    with "2.prems"(1) s1 obtain s2 md n where
      "warc_parse_header (wd_limits s2) (wd_header s2) (wd_entries s2) = Inr (md, n)"
      "s' = s2\<lparr>wd_header := [], wd_state := WarcData n\<rparr>" "d = dstep (consumed + 1) (EvEntry md)"
      by (auto simp: Let_def split: sum.splits)
    with warc_parse_header_stored show ?thesis by auto
  qed
qed

lemma warc_step_owed:
  assumes "warc_step s input e = (s', Inr d)"
  shows "owes_after (warc_owed (wd_state s)) (ds_event d) (warc_owed (wd_state s'))"
proof (cases "wd_state s")
  case WarcHeader
  with assms warc_header_loop_owed [of s input 0 e s' d] show ?thesis
    by (auto simp: warc_step_def warc_step_header_def split: if_splits)
next
  case (WarcData n)
  with assms show ?thesis
    by (auto simp: warc_step_def warc_step_data_def Let_def min_def split: if_splits option.splits)
qed (use assms in \<open>auto simp: warc_step_def warc_step_trailer_def Let_def split: if_splits option.splits prod.splits\<close>)

interpretation warc_sized: sized_decoder warc_step warc_inv "\<lambda>s. warc_rank (wd_state s)" warc_allowance "\<lambda>_. True"
    "\<lambda>s. warc_owed (wd_state s)"
  by unfold_locales (simp_all add: warc_step_owed)

section \<open>tar\<close>

text \<open>The source side: what the current payload state owes, and when an entry is staged.\<close>

fun payload_owed :: "tar_state \<Rightarrow> nat option" where
  "payload_owed (TarPayload r _) = Some r"
| "payload_owed _ = None"

definition src_sized :: "tar_source \<Rightarrow> bool" where
  "src_sized s \<longleftrightarrow> (\<forall>r p. src_state s = TarSparseExtensions r p \<longrightarrow> stage_is_sparse s)"

definition poll_owed :: "tar_source \<Rightarrow> tar_source \<Rightarrow> poll_result \<Rightarrow> bool" where
  "poll_owed s s' p \<longleftrightarrow>
     src_sized s' \<and>
     (case p of
        PollContinue \<Rightarrow> payload_owed (src_state s') = payload_owed (src_state s)
      | PollNeedInput \<Rightarrow> payload_owed (src_state s') = payload_owed (src_state s)
      | PollDone \<Rightarrow> payload_owed (src_state s) = None \<and> payload_owed (src_state s') = None
      | PollEndEntry \<Rightarrow> payload_owed (src_state s) = Some 0 \<and> payload_owed (src_state s') = None
      | PollEntry \<Rightarrow> payload_owed (src_state s) = None \<and>
          (\<exists>r. payload_owed (src_state s') = Some r \<and> (\<not> stage_is_sparse s' \<longrightarrow> stage_logical_size s' = r))
      | PollData \<Rightarrow> (\<exists>r. payload_owed (src_state s) = Some r \<and> stage_len s' \<le> r \<and>
          payload_owed (src_state s') = Some (r - stage_len s')))"

lemma stage_header_sized:
  assumes "stage_header_metadata s hdr p sz = (s', Inr u)"
  shows "hdr ! O_TYPEFLAG = 83 \<longrightarrow> stage_is_sparse s'" "\<not> stage_is_sparse s' \<longrightarrow> stage_logical_size s' = sz"
  using assms
  by (auto simp: stage_header_metadata_def stage_gnu_sparse_def header_is_sparse_def Let_def or_opt_def
      split: sum.splits prod.splits if_splits option.splits)

lemma poll_header_owed:
  assumes "poll_header s = (s', Inr p)" and "src_state s = TarHeader"
  shows "poll_owed s s' p"
proof (cases "src_available s < BLOCK \<or> (\<forall>b \<in> set (src_window s). b = 0)")
  case True
  with assms show ?thesis by (auto simp: poll_header_def poll_owed_def src_sized_def Let_def split: if_splits)
next
  case False
  with assms(1) obtain raw where r: "(if is_meta_flag (src_window s ! O_TYPEFLAG)
      then poll_meta_header s (src_window s ! O_TYPEFLAG) raw else poll_entry_header s (src_window s)) = (s', Inr p)"
    by (simp add: poll_header_def Let_def split: sum.splits if_splits)
  show ?thesis
  proof (cases "is_meta_flag (src_window s ! O_TYPEFLAG)")
    case True
    with r assms(2) show ?thesis
      by (auto simp: poll_meta_header_def poll_owed_def src_sized_def split: sum.splits)
  next
    case False
    with r obtain s1 sz pad where s1: "stage_header_metadata (s\<lparr>src_pending := overrides_default\<rparr>)
          (src_window s) (src_pending s) sz = (s1, Inr ())"
      and s': "if src_window s ! O_TYPEFLAG = 83 \<and> src_window s ! GNU_SPARSE_EXTENDED \<noteq> 0
         then s' = s1\<lparr>src_cursor := src_cursor s + BLOCK, src_state := TarSparseExtensions sz pad\<rparr> \<and> p = PollContinue
         else s' = s1\<lparr>src_cursor := src_cursor s + BLOCK, src_state := TarPayload sz pad\<rparr> \<and> p = PollEntry"
      by (auto simp: poll_entry_header_def Let_def split: sum.splits prod.splits if_splits)
    from stage_header_sized [OF s1] s' assms(2) show ?thesis
      by (auto simp: poll_owed_def src_sized_def split: if_splits)
  qed
qed

lemma poll_owed_ok:
  assumes "poll s = (s', Inr p)" and "src_sized s"
  shows "poll_owed s s' p"
proof (cases "src_state s")
  case TarHeader
  with assms poll_header_owed show ?thesis by (simp add: poll_def)
next
  case (TarMeta k d q)
  with assms(1) have "src_state s' = TarHeader \<or> (\<exists>d' q'. src_state s' = TarMeta k d' q')" "p = PollContinue \<or> p = PollNeedInput"
    by (auto simp: poll_def poll_meta_def starved_def Let_def split: if_splits prod.splits sum.splits)
  with TarMeta show ?thesis by (auto simp: poll_owed_def src_sized_def)
next
  case (TarPayload r q)
  with assms(1) show ?thesis
    by (simp add: poll_def poll_payload_def starved_def Let_def tar_usize_of_def split: if_splits)
      (auto simp: poll_owed_def src_sized_def)
next
  case (TarSparseExtensions r q)
  with assms show ?thesis
    by (auto simp: poll_def poll_sparse_extension_def starved_def Let_def poll_owed_def src_sized_def
        split: if_splits sum.splits)
next
  case TarDone
  with assms show ?thesis by (auto simp: poll_def poll_owed_def)
qed

lemma add_pax_stored:
  "md_size (add_pax_metadata rs m) = md_size m"
  "(\<exists>x \<in> set (md_extensions (add_pax_metadata rs m)). ext_namespace x = ''ar-thin'') \<longleftrightarrow>
   (\<exists>x \<in> set (md_extensions m). ext_namespace x = ''ar-thin'')"
proof -
  have "md_size (add_pax_metadata rs m) = md_size m \<and>
     ((\<exists>x \<in> set (md_extensions (add_pax_metadata rs m)). ext_namespace x = ''ar-thin'') \<longleftrightarrow>
      (\<exists>x \<in> set (md_extensions m). ext_namespace x = ''ar-thin''))"
    by (induction rs m rule: add_pax_metadata.induct)
      (auto simp: builder_defs extension_new_def split: option.splits)
  then show "md_size (add_pax_metadata rs m) = md_size m"
    "(\<exists>x \<in> set (md_extensions (add_pax_metadata rs m)). ext_namespace x = ''ar-thin'') \<longleftrightarrow>
     (\<exists>x \<in> set (md_extensions m). ext_namespace x = ''ar-thin'')" by blast+
qed

lemma fold_sparse_stored:
  "md_size (fold b_sparse_extent es m) = md_size m"
  "md_extensions (fold b_sparse_extent es m) = md_extensions m"
  by (induction es arbitrary: m) (simp_all add: b_sparse_extent_def)

lemma rich_metadata_stored: "stored_size (rich_metadata s h) = Some (int (stage_logical_size s))"
  unfolding rich_metadata_def Let_def stored_size_def add_pax_stored fold_sparse_stored
  by (simp add: builder_defs builder_def)

lemma staged_entry_stored:
  assumes "staged_entry s = Inr ev"
  obtains md where "ev = SrcEntry md (stage_sparse s) (stage_is_sparse s)"
    "md_size md = Some (stage_logical_size s)" "stored_size md = Some (int (stage_logical_size s))"
proof -
  obtain h where ev: "ev = SrcEntry (rich_metadata s h) (stage_sparse s) (stage_is_sparse s)"
    using assms by (auto simp: staged_entry_def bindE_Inr_iff split: tar_state.splits)
  have "md_size (rich_metadata s h) = Some (stage_logical_size s)"
    unfolding rich_metadata_def Let_def add_pax_stored fold_sparse_stored by (simp add: builder_defs)
  with ev rich_metadata_stored show thesis by (intro that)
qed

definition pull_owed :: "tar_source \<Rightarrow> tar_source \<Rightarrow> tar_source_event \<Rightarrow> bool" where
  "pull_owed s s' ev \<longleftrightarrow>
     src_sized s' \<and>
     (case ev of
        SrcNeedInput \<Rightarrow> payload_owed (src_state s') = payload_owed (src_state s)
      | SrcArchiveMetadata _ \<Rightarrow> payload_owed (src_state s') = payload_owed (src_state s)
      | SrcDone \<Rightarrow> payload_owed (src_state s) = None \<and> payload_owed (src_state s') = None
      | SrcEndEntry \<Rightarrow> payload_owed (src_state s) = Some 0 \<and> payload_owed (src_state s') = None
      | SrcEntry md _ sparse \<Rightarrow> payload_owed (src_state s) = None \<and>
          (\<exists>r n. payload_owed (src_state s') = Some r \<and> md_size md = Some n \<and> stored_size md = Some (int n) \<and>
            (\<not> sparse \<longrightarrow> n = r))
      | SrcData bs \<Rightarrow> (\<exists>r. payload_owed (src_state s) = Some r \<and> length bs \<le> r \<and>
          payload_owed (src_state s') = Some (r - length bs)))"

lemma pull_loop_owed:
  assumes "pull_loop s = (s', Inr ev)" and "src_sized s" and "src_cursor s \<le> length (src_buf s)"
  shows "pull_owed s s' ev"
  using assms
proof (induction s arbitrary: s' ev rule: pull_loop.induct)
  case (1 s)
  show ?case
  proof (cases "global_changed s")
    case True
    with "1.prems" show ?thesis
      by (auto simp: pull_loop.simps [of s] take_global_metadata_def pull_owed_def src_sized_def)
  next
    case False
    with "1.prems"(1) obtain s1 p where p: "poll s = (s1, Inr p)"
      by (auto simp: pull_loop.simps [of s] split: prod.splits sum.splits)
    note ok = poll_step_ok [OF p False] and ow = poll_owed_ok [OF p "1.prems"(2)]
    show ?thesis
    proof (cases p)
      case PollContinue
      with False p "1.prems" ok ow have "pull_owed s1 s' ev"
        by (intro "1.IH") (auto simp: pull_loop.simps [of s] poll_ok_def poll_owed_def)
      with ow PollContinue show ?thesis by (cases ev) (auto simp: pull_owed_def poll_owed_def)
    next
      case PollEntry
      with False p "1.prems"(1) have "s' = s1" "staged_entry s1 = Inr ev"
        by (auto simp: pull_loop.simps [of s])
      with ow PollEntry show ?thesis
        by (auto elim!: staged_entry_stored simp: poll_owed_def pull_owed_def)
    next
      case PollData
      with False p "1.prems"(1) have "s' = s1" "ev = staged_data s1" by (auto simp: pull_loop.simps [of s])
      moreover have "length (slice (src_buf s1) (src_cursor s1 - stage_len s1) (src_cursor s1)) = stage_len s1"
        using ok "1.prems"(3) PollData by (auto simp: poll_ok_def)
      ultimately show ?thesis using ow PollData by (auto simp: poll_owed_def pull_owed_def staged_data_def)
    qed (use False p "1.prems"(1) ow in \<open>auto simp: pull_loop.simps [of s] poll_owed_def pull_owed_def\<close>)
  qed
qed

lemma pull_v2_owed:
  assumes "pull_v2 s = (s', Inr ev)" and "src_sized s"
  shows "pull_owed s s' ev"
proof -
  have eq: "src_state (src_compact s) = src_state s" "stage_is_sparse (src_compact s) = stage_is_sparse s"
    by (simp_all add: src_compact_def)
  then have "pull_owed (src_compact s) s' ev"
    using assms by (intro pull_loop_owed) (simp_all add: pull_v2_def src_sized_def)
  then show ?thesis unfolding pull_owed_def eq .
qed

definition owed_at :: "bool \<Rightarrow> nat \<Rightarrow> nat \<Rightarrow> nat option \<Rightarrow> int option" where
  "owed_at sparse lsize pos r = map_option (\<lambda>r. if sparse then int lsize - int pos else int r) r"

definition tar_owed :: "tar_decoder \<Rightarrow> int option" where
  "tar_owed s = owed_at (td_sparse_active s) (td_logical_size s) (td_logical_position s)
     (payload_owed (src_state (td_source s)))"

definition tar_sized :: "tar_decoder \<Rightarrow> bool" where
  "tar_sized s \<longleftrightarrow> src_sized (td_source s) \<and>
     (td_sparse_active s \<longrightarrow> payload_owed (src_state (td_source s)) \<noteq> None) \<and>
     (td_done s \<longrightarrow> payload_owed (src_state (td_source s)) = None)"

lemma tar_event_owed:
  assumes "tar_event s sev = (s', Inr ev)" and "pull_owed src (td_source s) sev"
    and "td_sparse_active s \<longrightarrow> payload_owed (src_state src) \<noteq> None" and "\<not> td_done s"
  shows "tar_sized s'"
    "owes_after (owed_at (td_sparse_active s) (td_logical_size s) (td_logical_position s) (payload_owed (src_state src))) ev (tar_owed s')"
proof -
  have "tar_sized s' \<and> owes_after (owed_at (td_sparse_active s) (td_logical_size s) (td_logical_position s)
      (payload_owed (src_state src))) ev
      (tar_owed s')"
  proof (cases sev)
    case (SrcEntry md sp b)
    then have e: "tar_entry s md sp b = (s', Inr ev)" using assms(1) by (simp add: tar_event_def)
    then have "ev = EvEntry md" "td_source s' = td_source s" "td_sparse_active s' = b" "td_logical_position s' = 0"
      "td_logical_size s' = opt_or 0 (md_size md)" "td_done s' = td_done s"
      by (auto simp: tar_entry_def Let_def split: option.splits sum.splits if_splits)
    with assms(2,3,4) SrcEntry show ?thesis
      by (auto simp: pull_owed_def tar_sized_def tar_owed_def owed_at_def)
  next
    case (SrcData bs)
    then have "tar_data s bs = (s', Inr ev)" using assms(1) by (simp add: tar_event_def)
    then obtain p where p: "account_data (s\<lparr>td_logical_position := p\<rparr>) (length bs) = (s', Inr ())" "ev = EvData bs"
      "if td_sparse_active s then p = td_logical_position s + length bs else p = td_logical_position s"
      by (auto simp: tar_data_def tar_sparse_position_def bindE_Inr_iff checked_add_def
          split: sum.splits prod.splits if_splits)
    from account_data_ok(1) [OF p(1)] p(2,3) assms(2,3,4) SrcData show ?thesis
      by (auto simp: pull_owed_def tar_sized_def tar_owed_def owed_at_def split: if_splits)
  next
    case (SrcArchiveMetadata md)
    with assms show ?thesis
      by (auto simp: tar_event_def pull_owed_def tar_sized_def tar_owed_def owed_at_def owes_after_def)
  qed (use assms in \<open>auto simp: tar_event_def pull_owed_def tar_sized_def tar_owed_def owed_at_def Let_def split: if_splits\<close>)
  then show "tar_sized s'"
    "owes_after (owed_at (td_sparse_active s) (td_logical_size s) (td_logical_position s) (payload_owed (src_state src))) ev (tar_owed s')" by blast+
qed

lemma tar_pull_owed:
  assumes "tar_pull s c = (s', Inr d)" and "tar_sized s" and "\<not> td_done s"
  shows "tar_sized s'" "owes_after (tar_owed s) (ds_event d) (tar_owed s')"
proof -
  obtain src sev ev where p: "pull_v2 (td_source s) = (src, Inr sev)"
    and e: "tar_event (s\<lparr>td_source := src\<rparr>) sev = (s', Inr ev)" and d: "d = dstep c ev"
    using assms(1) by (auto simp: tar_pull_def split: prod.splits sum.splits)
  have "pull_owed (td_source s) src sev" using pull_v2_owed [OF p] assms(2) by (simp add: tar_sized_def)
  with tar_event_owed [OF e, of "td_source s"] assms(2,3) d
  show "tar_sized s'" "owes_after (tar_owed s) (ds_event d) (tar_owed s')"
    by (simp_all add: tar_sized_def tar_owed_def)
qed

lemma tar_step_owed:
  assumes "tar_step (Suc n) s input e = (s', Inr d)" and "tar_sized s"
  shows "tar_sized s'" "owes_after (tar_owed s) (ds_event d) (tar_owed s')"
proof -
  have same: "payload_owed (src_state (td_source t')) = payload_owed (src_state (td_source t)) \<Longrightarrow>
      src_sized (td_source t') = src_sized (td_source t) \<Longrightarrow> td_sparse_active t' = td_sparse_active t \<Longrightarrow>
      td_done t' = td_done t \<Longrightarrow> tar_sized t' = tar_sized t" for t t' by (simp add: tar_sized_def)
  consider (over) "s' = s" "d = dstep 0 EvDone" "td_done s"
    | (hole) "sparse_hole s (Suc n) = (s', Inr (Some d))"
    | (pull) s1 s2 c where "sparse_hole s (Suc n) = (s1, Inr None)" "tar_feed s1 input = (s2, Inr c)" "\<not> td_done s"
      "tar_pull (if e = End \<and> c = length input \<and> \<not> td_input_finished s2
         then s2\<lparr>td_source := finish_input (td_source s2), td_input_finished := True\<rparr> else s2) c = (s', Inr d)"
    using assms(1)
    by (simp add: tar_step_def split: if_splits prod.splits sum.splits option.splits) (auto simp: Let_def)
  then have "tar_sized s' \<and> owes_after (tar_owed s) (ds_event d) (tar_owed s')"
  proof cases
    case over
    with assms(2) show ?thesis by (auto simp: tar_sized_def tar_owed_def owed_at_def owes_after_def)
  next
    case hole
    then obtain k where acc: "account_data ((advance_extents s)\<lparr>td_logical_position := td_logical_position s + k\<rparr>) k = (s', Inr ())"
      and d: "ds_event d = EvData (replicate k 0)" and act: "td_sparse_active s"
      by (auto simp: sparse_hole_def Let_def split: if_splits prod.splits sum.splits option.splits)
    have "td_sparse_active s' = td_sparse_active s" "td_done s' = td_done s" "td_source s' = td_source s"
      "td_logical_size s' = td_logical_size s" "td_logical_position s' = td_logical_position s + k"
      using account_data_ok(1) [OF acc] by (simp_all add: advance_extents_def)
    with d act assms(2) show ?thesis by (auto simp: tar_sized_def tar_owed_def owed_at_def)
  next
    case pull
    define s3 where "s3 = (if e = End \<and> c = length input \<and> \<not> td_input_finished s2
         then s2\<lparr>td_source := finish_input (td_source s2), td_input_finished := True\<rparr> else s2)"
    have s1: "td_sparse_active s1 = td_sparse_active s \<and> td_done s1 = td_done s \<and> tar_owed s1 = tar_owed s \<and>
        src_state (td_source s1) = src_state (td_source s) \<and> stage_is_sparse (td_source s1) = stage_is_sparse (td_source s)"
      using pull(1)
      by (auto simp: sparse_hole_def Let_def limit_chunk_def set_payload_chunk_limit_def advance_extents_def tar_owed_def
          split: if_splits prod.splits sum.splits option.splits)
    have s2: "td_sparse_active s2 = td_sparse_active s1 \<and> td_done s2 = td_done s1 \<and> tar_owed s2 = tar_owed s1 \<and>
        src_state (td_source s2) = src_state (td_source s1) \<and> stage_is_sparse (td_source s2) = stage_is_sparse (td_source s1)"
      using pull(2) by (elim tar_feed_cases) (simp_all add: tar_owed_def)
    have s3: "td_sparse_active s3 = td_sparse_active s2 \<and> td_done s3 = td_done s2 \<and> tar_owed s3 = tar_owed s2 \<and>
        src_state (td_source s3) = src_state (td_source s2) \<and> stage_is_sparse (td_source s3) = stage_is_sparse (td_source s2)"
      by (simp add: s3_def finish_input_def tar_owed_def)
    from s1 s2 s3 have "tar_sized s3 = tar_sized s" by (intro same) (simp_all add: src_sized_def)
    with tar_pull_owed [OF pull(4) [folded s3_def]] s1 s2 s3 assms(2) pull(3) show ?thesis by simp
  qed
  then show "tar_sized s'" "owes_after (tar_owed s) (ds_event d) (tar_owed s')" by blast+
qed

interpretation tar_sized: sized_decoder "tar_step (Suc n)" tar_inv tar_rank tar_allowance tar_sized tar_owed for n
  by unfold_locales (blast intro: tar_step_owed)+

lemma tar_sized_new [simp]: "tar_sized (tar_decoder_new l)" "tar_owed (tar_decoder_new l) = None"
  by (simp_all add: tar_sized_def tar_owed_def owed_at_def src_sized_def tar_decoder_new_def tar_source_new_def)

section \<open>cpio\<close>

text \<open>
  Deferred hardlinks are announced from a queue of complete, empty entries; the queue starts with a
  lone end-of-entry exactly when its entry has just been announced.
\<close>

fun queue_ok :: "queued_event list \<Rightarrow> bool" where
  "queue_ok [] = True"
| "queue_ok (QEntry md # QEndEntry # q) = (md_size md = Some 0 \<and> queue_ok q)"
| "queue_ok _ = False"

fun queue_open :: "queued_event list \<Rightarrow> bool" where
  "queue_open (QEndEntry # _) = True"
| "queue_open _ = False"

definition queue_sized :: "queued_event list \<Rightarrow> bool" where
  "queue_sized q \<longleftrightarrow> (if queue_open q then queue_ok (tl q) else queue_ok q)"

definition pending_ok :: "hardlink_map \<Rightarrow> bool" where
  "pending_ok m \<longleftrightarrow> (\<forall>(k, g) \<in> set m. \<forall>md \<in> set (hg_pending g). md_size md = Some 0)"

fun cpio_state_owed :: "cpio_state \<Rightarrow> queued_event list \<Rightarrow> int option" where
  "cpio_state_owed (CpData r _ _ _ announced) q = (if announced then Some (int r) else None)"
| "cpio_state_owed (CpEndEntry _ _ _ announced) q = (if announced then Some 0 else None)"
| "cpio_state_owed _ q = (if queue_open q then Some 0 else None)"

fun cpio_state_sized :: "cpio_state \<Rightarrow> queued_event list \<Rightarrow> bool" where
  "cpio_state_sized (CpData r _ _ _ announced) q = (queue_ok q \<and> (announced \<or> r = 0))"
| "cpio_state_sized (CpEndEntry _ _ _ _) q = queue_ok q"
| "cpio_state_sized _ q = queue_sized q"

definition cpio_owed :: "cpio_decoder \<Rightarrow> int option" where
  "cpio_owed s = cpio_state_owed (cd_state s) (cd_queued s)"

definition cpio_sized :: "cpio_decoder \<Rightarrow> bool" where
  "cpio_sized s \<longleftrightarrow> cpio_state_sized (cd_state s) (cd_queued s) \<and> pending_ok (cd_hardlinks s)"

lemma queue_ok_closed [simp]: "queue_ok q \<Longrightarrow> \<not> queue_open q" "queue_ok q \<Longrightarrow> queue_sized q"
  by (cases q rule: queue_ok.cases; simp add: queue_sized_def)+

lemma queue_ok_append [simp]: "queue_ok q \<Longrightarrow> queue_ok q' \<Longrightarrow> queue_ok (q @ q')"
  by (induction q rule: queue_ok.induct) auto

lemma stored_size_simps:
  "md_size md = Some 0 \<Longrightarrow> stored_size md = Some 0"
  "md_extensions md = [] \<Longrightarrow> stored_size md = map_option int (md_size md)"
  by (simp_all add: stored_size_def)

lemma hardlink_metadata_size [simp]: "md_size (hardlink_metadata md t) = Some 0"
  by (simp add: hardlink_metadata_def builder_defs)

lemma fold_queue_ok:
  assumes "\<forall>m \<in> set ms. md_size (f m) = Some 0" and "queue_ok (cd_queued s)"
  shows "queue_ok (cd_queued (fold (\<lambda>m. queue_entry (f m)) ms s)) \<and>
    cd_hardlinks (fold (\<lambda>m. queue_entry (f m)) ms s) = cd_hardlinks s"
  using assms by (induction ms arbitrary: s) (simp_all add: queue_entry_def)

lemmas fold_queue_ok' = fold_queue_ok [of _ "\<lambda>m. m"]

lemma release_pending_sized:
  "\<forall>m \<in> set ms. md_size m = Some 0 \<Longrightarrow> \<forall>m \<in> set (release_pending ms). md_size m = Some 0"
  by (cases ms) auto

lemma bt_insert_set: "set (bt_insert k v m) \<subseteq> insert (k, v) (set m)"
  by (induction k v m rule: bt_insert.induct) auto

lemma pending_ok_insert:
  "pending_ok m \<Longrightarrow> \<forall>md \<in> set (hg_pending g). md_size md = Some 0 \<Longrightarrow> pending_ok (bt_insert k g m)"
  using bt_insert_set [of k g m] unfolding pending_ok_def by blast

lemma join_group_sized:
  assumes "join_group s key g md sz = (s', Inr m)" and "pending_ok (cd_hardlinks s)" and "queue_ok (cd_queued s)"
    and "\<forall>k \<in> set (hg_pending g). md_size k = Some 0" and "md_size md = Some sz" and "md_extensions md = []"
  shows "pending_ok (cd_hardlinks s') \<and> queue_ok (cd_queued s') \<and> (\<forall>md'. m = Some md' \<longrightarrow> stored_size md' = Some (int sz))"
proof (cases "sz = 0")
  case False
  with assms(1) have eq: "s' = fold (\<lambda>m. queue_entry (hardlink_metadata m (md_path md))) (hg_pending g)
      (s\<lparr>cd_hardlinks := bt_insert key (g\<lparr>hg_target := Some (md_path md), hg_pending := []\<rparr>) (cd_hardlinks s)\<rparr>)"
    "m = Some md"
    by (auto simp: join_group_def split: if_splits)
  show ?thesis
    unfolding eq
    by (subst fold_queue_ok [THEN conjunct2], simp_all add: assms(3))
      (intro conjI fold_queue_ok [THEN conjunct1], simp_all add: assms(2,3,5,6) pending_ok_insert stored_size_simps)
next
  case True
  show ?thesis
  proof (cases "hg_target g")
    case (Some t)
    with True assms show ?thesis
      by (auto simp: join_group_def pending_ok_insert stored_size_simps)
  next
    case None
    have p: "\<forall>k \<in> set (hg_pending g @ [md]). md_size k = Some 0" using assms(4,5) True by simp
    let ?s = "s\<lparr>cd_hardlinks := bt_insert key (g\<lparr>hg_target := Some (md_path (hd (hg_pending g @ [md]))),
        hg_pending := []\<rparr>) (cd_hardlinks s)\<rparr>"
    note q = fold_queue_ok' [OF release_pending_sized [OF p], of ?s]
    have k: "pending_ok (bt_insert key (g\<lparr>hg_pending := hg_pending g @ [md]\<rparr>) (cd_hardlinks s))"
      "pending_ok (cd_hardlinks ?s)"
      using p assms(2) by (auto intro!: pending_ok_insert)
    show ?thesis
    proof (cases "hg_seen g = hg_expected g")
      case seen: True
      with assms(1) True None have "s' = fold queue_entry (release_pending (hg_pending g @ [md])) ?s" "m = None"
        by (simp_all add: join_group_def Let_def)
      with q k(2) assms(3) show ?thesis by simp
    next
      case False
      with assms(1) True None have "s' = s\<lparr>cd_hardlinks := bt_insert key (g\<lparr>hg_pending := hg_pending g @ [md]\<rparr>) (cd_hardlinks s)\<rparr>"
        "m = None" by (simp_all add: join_group_def Let_def)
      with k(1) assms(3) show ?thesis by simp
    qed
  qed
qed

lemma classify_sized:
  assumes "classify_hardlink s md sz = (s', Inr m)" and "pending_ok (cd_hardlinks s)" and "queue_ok (cd_queued s)"
    and "md_size md = Some sz" and "md_extensions md = []"
  shows "pending_ok (cd_hardlinks s') \<and> queue_ok (cd_queued s') \<and> (\<forall>md'. m = Some md' \<longrightarrow> stored_size md' = Some (int sz))"
proof (cases "md_kind md \<noteq> KindFile \<or> opt_or 1 (md_links md) \<le> 1")
  case True
  with assms show ?thesis by (auto simp: classify_hardlink_def stored_size_simps)
next
  case False
  then obtain s1 g where j: "join_group s1 (group_key md) g md sz = (s', Inr m)"
    and g: "hg_pending g = hg_pending (opt_or \<lparr>hg_expected = opt_or 1 (md_links md), hg_seen = 0, hg_target = None,
        hg_pending = []\<rparr> (map_of (cd_hardlinks s) (group_key md)))"
    and s1: "cd_hardlinks s1 = bt_remove (group_key md) (cd_hardlinks s)" "cd_queued s1 = cd_queued s"
    using assms(1)
    by (force simp: classify_hardlink_def charge_hardlink_metadata_def Let_def
        split: if_splits option.splits prod.splits sum.splits)
  have "\<forall>k \<in> set (hg_pending g). md_size k = Some 0"
    using assms(2) map_of_SomeD [of "cd_hardlinks s" "group_key md"]
    by (cases "map_of (cd_hardlinks s) (group_key md)") (fastforce simp: g pending_ok_def)+
  moreover have "pending_ok (cd_hardlinks s1)" using assms(2) by (auto simp: s1 pending_ok_def bt_remove_def)
  ultimately show ?thesis using join_group_sized [OF j] s1(2) assms(3,4,5) by simp
qed

lemma parse_header_stored:
  "cpio_parse_header l h = Inr p \<Longrightarrow>
   md_size (ph_metadata p) = Some (ph_size p) \<and> md_extensions (ph_metadata p) = []"
  by (auto simp: cpio_parse_header_def bindE_Inr_iff cpio_metadata_def builder_defs builder_def split: if_splits)

lemma resolve_sized:
  assumes "pending_ok (cd_hardlinks s)" and "queue_ok (cd_queued s)"
  shows "pending_ok (cd_hardlinks (resolve_incomplete_hardlinks s)) \<and>
    queue_ok (cd_queued (resolve_incomplete_hardlinks s))"
proof -
  have "\<forall>m \<in> set (concat (map (\<lambda>(k, g). if unresolved g then release_pending (hg_pending g) else [])
      (cd_hardlinks s))). md_size m = Some 0"
    using assms(1) release_pending_sized by (fastforce simp: pending_ok_def split: if_splits)
  note q = fold_queue_ok' [OF this]
  have "hg_pending (resolve_group g) = [] \<or> hg_pending (resolve_group g) = hg_pending g" for g
    by (simp add: resolve_group_def)
  then have "pending_ok (map (\<lambda>(k, g). (k, resolve_group g)) (cd_hardlinks s))"
    using assms(1) unfolding pending_ok_def by (auto split: prod.splits) (metis empty_iff empty_set)
  with assms(2) q show ?thesis by (simp add: resolve_incomplete_hardlinks_def)
qed

lemma cpio_begin_sized:
  assumes "cpio_begin s = (s', Inr m)" and "pending_ok (cd_hardlinks s)" and "queue_ok (cd_queued s)"
  shows "cpio_sized s' \<and> queue_ok (cd_queued s') \<and>
    (\<forall>md. m = Some (Some md) \<longrightarrow> stored_size md \<noteq> None \<and> cpio_owed s' = stored_size md) \<and>
    ((\<forall>md. m \<noteq> Some (Some md)) \<longrightarrow> cpio_owed s' = None)"
proof -
  obtain p where p: "cpio_parse_header (cd_limits s) (cd_header s) = Inr p"
    using assms(1) by (auto simp: cpio_begin_def split: sum.splits)
  show ?thesis
  proof (cases m)
    case None
    then have "s' = (resolve_incomplete_hardlinks (s\<lparr>cd_header := [], cd_target := None\<rparr>))\<lparr>cd_state := CpDone\<rparr>"
      using assms(1) p by (auto simp: cpio_begin_def Let_def split: sum.splits prod.splits option.splits if_splits)
    with None resolve_sized [of "s\<lparr>cd_header := [], cd_target := None\<rparr>"] assms(2,3) show ?thesis
      by (simp add: cpio_sized_def cpio_owed_def)
  next
    case (Some m')
    then obtain n s3 where c: "classify_hardlink (s\<lparr>cd_header := [], cd_target := None, cd_entries := n\<rparr>)
        (ph_metadata p) (ph_size p) = (s3, Inr m')"
      and s': "s' = s3\<lparr>cd_state := CpData (ph_size p) (ph_padding p) (ph_checksum p) 0 (m' \<noteq> None)\<rparr>"
      using assms(1) p by (auto simp: cpio_begin_def Let_def split: sum.splits prod.splits option.splits if_splits)
    have "pending_ok (cd_hardlinks s3) \<and> queue_ok (cd_queued s3) \<and>
        (\<forall>md'. m' = Some md' \<longrightarrow> stored_size md' = Some (int (ph_size p)))"
      using classify_sized [OF c] assms(2,3) parse_header_stored [OF p] by simp
    moreover have "m' = None \<Longrightarrow> ph_size p = 0" using classify_None c by auto
    ultimately show ?thesis using Some by (cases m') (auto simp: s' cpio_sized_def cpio_owed_def)
  qed
qed

lemma pop_queued_sized:
  assumes "pop_queued s c = Some (s', d)" and "cpio_sized s" and "cd_state s = CpHeader \<or> cd_state s = CpDone"
  shows "cpio_sized s' \<and> owes_after (cpio_owed s) (ds_event d) (cpio_owed s')"
proof -
  obtain ev q where q: "cd_queued s = ev # q" "s' = s\<lparr>cd_queued := q\<rparr>" "ds_event d = queued_decode_event ev"
    using assms(1) by (auto simp: pop_queued_def split: list.splits)
  show ?thesis
  proof (cases ev)
    case QEndEntry
    with q assms(2,3) show ?thesis by (auto simp: cpio_sized_def cpio_owed_def queue_sized_def)
  next
    case (QEntry md)
    with q assms(2,3) obtain q' where "q = QEndEntry # q'" "md_size md = Some 0" "queue_ok q'"
      by (cases "(QEntry md # q)" rule: queue_ok.cases) (auto simp: cpio_sized_def queue_sized_def)
    with q QEntry assms(2,3) show ?thesis
      by (auto simp: cpio_sized_def cpio_owed_def queue_sized_def stored_size_simps)
  qed
qed

lemma cpio_step_owed:
  assumes "cpio_step s input e = (s', Inr d)" and "cpio_sized s"
  shows "cpio_sized s' \<and> owes_after (cpio_owed s) (ds_event d) (cpio_owed s')"
  using assms
proof (induction s input e arbitrary: s' d rule: cpio_step.induct)
  case (1 s input e)
  let ?q = "if cd_state s = CpHeader \<or> cd_state s = CpDone then pop_queued s 0 else None"
  show ?case
  proof (cases ?q)
    case (Some y)
    then obtain t dq where y: "pop_queued s 0 = Some (t, dq)" by (cases y) (auto split: if_splits)
    with Some "1.prems"(1) have "t = s'" "dq = d" by (auto simp: cpio_step.simps [of s] split: if_splits)
    with pop_queued_sized [OF y "1.prems"(2)] Some show ?thesis by (auto split: if_splits)
  next
    case None
    note step = "1.prems"(1) [unfolded cpio_step.simps [of s] None option.case]
    have empty: "cd_state s = CpHeader \<or> cd_state s = CpDone \<Longrightarrow> cd_queued s = []"
      using None by (auto simp: pop_queued_def split: if_splits list.splits)
    show ?thesis
    proof (cases "cd_state s")
      case CpDone
      with step "1.prems"(2) empty show ?thesis by (auto simp: cpio_owed_def split: if_splits)
    next
      case st: (CpData r p x a m)
      show ?thesis
      proof (cases "r = 0")
        case False
        with step st have "cpio_step_data s r p x a m input e = (s', Inr d)" by simp
        with st False "1.prems"(2) show ?thesis
          by (auto simp: cpio_step_data_def cpio_sized_def cpio_owed_def Let_def split: if_splits option.splits)
      next
        case True
        let ?s = "s\<lparr>cd_state := CpEndEntry p x a m\<rparr>"
        have "cpio_step ?s input e = (s', Inr d)" using step st True by simp
        moreover have "cpio_sized ?s" "cpio_owed ?s = cpio_owed s"
          using "1.prems"(2) st True by (simp_all add: cpio_sized_def cpio_owed_def)
        ultimately show ?thesis using "1.IH"(2) [OF None st True] by metis
      qed
    next
      case st: (CpEndEntry p x a m)
      let ?s = "s\<lparr>cd_state := CpHeader\<rparr>"
      have sz: "cpio_sized ?s" "cpio_owed ?s = None"
        using "1.prems"(2) st by (simp_all add: cpio_sized_def cpio_owed_def)
      show ?thesis
      proof (cases "length input < p \<or> m")
        case True
        with step st sz "1.prems"(2) show ?thesis
          by (auto simp: cpio_owed_def split: if_splits)
      next
        case False
        with step st have ck: "\<not> (x \<noteq> None \<and> x \<noteq> Some a)"
          and "add_consumed p (cpio_step ?s (drop p input) e) = (s', Inr d)"
          by (auto simp: Let_def split: if_splits)
        then obtain d0 where d0: "cpio_step ?s (drop p input) e = (s', Inr d0)" "ds_event d = ds_event d0"
          by (auto simp: add_consumed_Inr)
        have "cpio_sized s' \<and> owes_after (cpio_owed ?s) (ds_event d0) (cpio_owed s')"
          using "1.IH"(3) [OF None st _ ck refl _ d0(1) sz(1)] False by blast
        with d0(2) sz(2) st False show ?thesis by (simp add: cpio_owed_def)
      qed
    next
      case st: CpHeader
      with step obtain s1 c complete where f: "fill_header s input 0 e = (s1, Inr (c, complete))"
        by (auto split: prod.splits sum.splits)
      obtain h t where s1: "s1 = s\<lparr>cd_header := h, cd_target := t\<rparr>" using fill_header_ok [OF f] by blast
      have none: "cpio_owed s = None" "queue_ok (cd_queued s1)" "pending_ok (cd_hardlinks s1)"
        using empty st "1.prems"(2) s1 by (simp_all add: cpio_owed_def cpio_sized_def)
      show ?thesis
      proof (cases complete)
        case False
        with step st f s1 "1.prems"(2) show ?thesis by (auto simp: cpio_owed_def cpio_sized_def)
      next
        case True
        with step st f obtain s2 m where b: "cpio_begin s1 = (s2, Inr m)"
          by (auto split: prod.splits sum.splits)
        note bs = cpio_begin_sized [OF b none(3,2)] and state = cpio_begin_state [OF b]
        consider (trailer) "m = None" | (entry) md where "m = Some (Some md)" | (wait) "m = Some None"
          by (cases m; cases "the m") auto
        then show ?thesis
        proof cases
          case trailer
          show ?thesis
          proof (cases "pop_queued s2 c")
            case None
            with step st f True b trailer bs none show ?thesis by auto
          next
            case (Some y)
            with step st f True b trailer have "pop_queued s2 c = Some (s', d)" by (cases y) auto
            from pop_queued_sized [OF this] bs state none trailer show ?thesis by auto
          qed
        next
          case (entry md)
          with step st f True b bs none show ?thesis by auto
        next
          case wait
          with step st f True b have "add_consumed c (cpio_step s2 (drop c input) e) = (s', Inr d)" by simp
          then obtain d0 where d0: "cpio_step s2 (drop c input) e = (s', Inr d0)" "ds_event d = ds_event d0"
            by (auto simp: add_consumed_Inr)
          have "cpio_sized s' \<and> owes_after (cpio_owed s2) (ds_event d0) (cpio_owed s')"
            by (rule "1.IH"(1) [OF None st f [symmetric] refl refl _ b [symmetric] refl wait refl d0(1)])
              (use True bs in auto)
          with d0(2) bs wait none show ?thesis by auto
        qed
      qed
    qed
  qed
qed

interpretation cpio_sized: sized_decoder cpio_step cpio_inv cpio_measure cpio_allowance cpio_sized cpio_owed
  by unfold_locales (auto dest: cpio_step_owed)

lemma cpio_sized_new [simp]: "cpio_sized (cpio_decoder_new n l)" "cpio_owed (cpio_decoder_new n l) = None"
  by (simp_all add: cpio_sized_def cpio_owed_def pending_ok_def cpio_decoder_new_def)

end
