(* ===== verification/Oxide_Tar_Safety.thy ===== *)
theory Oxide_Tar_Safety
  imports Oxide_Tar_Decoder
begin

text \<open>
  Properties of the tar decoder beyond the common contract: what the in-flight budget bounds and what
  it does not, exactness of the sparse map check, and two consequences of the code that its comments
  do not intend.
\<close>

section \<open>The in-flight budget\<close>


lemma pull_starved:
  assumes "src_state s = TarHeader" and "\<not> global_changed s" and "\<not> src_finished s" and "src_available s < BLOCK"
  shows "pull_loop s = (s, Inr SrcNeedInput)"
  using assms by (subst pull_loop.simps) (simp add: poll_def poll_header_def)

text \<open>A sealed PAX header block that announces \<open>n\<close> bytes.\<close>

definition pax_header :: "bytes \<Rightarrow> nat \<Rightarrow> bool" where
  "pax_header h n \<longleftrightarrow>
     length h = 512 \<and> verify_checksum h = Inr () \<and> h ! O_TYPEFLAG = 120 \<and>
     parse_numeric (field h F_SIZE_tar) = Inr n \<and> 0 < n \<and> n < 2 ^ 63"

text \<open>The source in the middle of a record: \<open>left\<close> bytes of it are missing and nothing is unread.\<close>

definition in_record :: "nat \<Rightarrow> bytes \<Rightarrow> tar_source \<Rightarrow> bool" where
  "in_record left bs s \<longleftrightarrow>
     (\<exists>kind pad. src_state s = TarMeta kind left pad) \<and> src_record s = bs \<and> \<not> global_changed s \<and> \<not> src_finished s \<and>
     src_cursor s = length (src_buf s) \<and> length (src_buf s) \<le> 512"

lemma pull_in_record:
  assumes "in_record (Suc left) bs s"
  shows "pull_loop s = (s, Inr SrcNeedInput)"
  using assms by (subst pull_loop.simps) (auto simp: in_record_def poll_def poll_meta_def src_available_def starved_def)

lemma pull_pax_header:
  assumes "pax_header h n" and "src_buf s = h" and "src_cursor s = 0" and "src_state s = TarHeader"
    and "\<not> global_changed s" and "\<not> src_finished s"
  shows "\<exists>s'. pull_loop s = (s', Inr SrcNeedInput) \<and> src_buf s' = h \<and> in_record n [] s'"
proof -
  have hdr: "length h = 512" "verify_checksum h = Inr ()" "h ! O_TYPEFLAG = 120" "parse_numeric (field h F_SIZE_tar) = Inr n"
    "0 < n" "n < 2 ^ 63"
    using assms(1) by (simp_all add: pax_header_def)
  have nz: "\<not> (\<forall>b \<in> set h. b = 0)"
    using hdr(1,3) nth_mem [of 156 h] by (force simp: O_TYPEFLAG_def)
  have win: "src_window s = h" using assms(2,3) hdr(1) by (simp add: src_window_def slice_def BLOCK_def)
  have u: "round_up n = Inr ((n + 511) div 512 * 512)" "tar_usize_of n = Inr n"
    using hdr(6) by (simp_all add: round_up_def tar_usize_of_def BLOCK_def checked_add_def checked_mul_def u64_max_def)
  obtain s1 where p: "poll s = (s1, Inr PollContinue)" "in_record n [] s1" "src_buf s1 = h"
    using assms hdr nz win u
    by (simp add: poll_def poll_header_def src_available_def BLOCK_def is_meta_flag_def poll_meta_header_def meta_kind_of_def
        in_record_def)
  moreover obtain m where "n = Suc m" using hdr(5) by (cases n) auto
  ultimately have "pull_loop s1 = (s1, Inr SrcNeedInput)" using pull_in_record by blast
  with p assms(5) show ?thesis by (subst pull_loop.simps) simp
qed

lemma pull_meta_starved:
  assumes "length h = 512" and "src_buf s = h" and "src_cursor s = 0" and "src_state s = TarHeader"
    and "\<not> global_changed s" and "\<not> src_finished s" and "verify_checksum h = Inr ()" and "h ! O_TYPEFLAG = 120"
    and "parse_numeric (field h F_SIZE_tar) = Inr n" and "0 < n" and "n < 2 ^ 63"
  shows "\<exists>s'. pull_loop s = (s', Inr SrcNeedInput) \<and> src_buf s' = h \<and> src_cursor s' = 512"
  using pull_pax_header [of h n s] assms by (auto simp: pax_header_def in_record_def)








lemma octal_loop_seen: "octal_field_loop v True (replicate n 0) = Inr v"
  by (cases n) simp_all



section \<open>Sparse maps\<close>

lemma sparse_loop_exact:
  assumes "logical \<le> u64_max" and "stored \<le> prev" and "prev \<le> logical"
  shows "sparse_extents_loop logical prev stored es = Inr n \<longleftrightarrow>
    sorted_wrt (\<lambda>a b. se_end a \<le> se_offset b) es \<and>
    (\<forall>e \<in> set es. prev \<le> se_offset e \<and> se_end e \<le> logical) \<and> n = stored + sum_list (map se_length es)"
  using assms(2,3)
proof (induction es arbitrary: prev stored)
  case Nil
  then show ?case by auto
next
  case (Cons e es)
  show ?case
  proof (cases "prev \<le> se_offset e \<and> se_end e \<le> logical")
    case False
    then show ?thesis by (auto simp: se_end_def bindE_Inr_iff checked_add_def)
  next
    case True
    then have "sparse_extents_loop logical prev stored (e # es) = Inr n \<longleftrightarrow>
        sparse_extents_loop logical (se_end e) (stored + se_length e) es = Inr n"
      using assms(1) Cons.prems by (auto simp: se_end_def checked_add_def)
    also have "\<dots> \<longleftrightarrow> sorted_wrt (\<lambda>a b. se_end a \<le> se_offset b) es \<and>
      (\<forall>e' \<in> set es. se_end e \<le> se_offset e' \<and> se_end e' \<le> logical) \<and>
      n = stored + se_length e + sum_list (map se_length es)"
      using True Cons.prems by (intro Cons.IH) (auto simp: se_end_def)
    also have "\<dots> \<longleftrightarrow> sorted_wrt (\<lambda>a b. se_end a \<le> se_offset b) (e # es) \<and>
      (\<forall>e' \<in> set (e # es). prev \<le> se_offset e' \<and> se_end e' \<le> logical) \<and>
      n = stored + sum_list (map se_length (e # es))"
      using True by (fastforce simp: se_end_def)
    finally show ?thesis .
  qed
qed

text \<open>
  C29. The sparse map check is exact: an old-GNU or PAX sparse map is accepted precisely when its
  extents are in order, do not overlap, lie inside the file and add up to the stored size, and then
  the map cannot describe more stored bytes than the file has.
\<close>

theorem sparse_map_check_exact:
  assumes "logical \<le> u64_max"
  shows "validate_sparse_extents es logical stored = Inr () \<longleftrightarrow>
    sorted_wrt (\<lambda>a b. se_end a \<le> se_offset b) es \<and> (\<forall>e \<in> set es. se_end e \<le> logical) \<and>
    sum_list (map se_length es) = stored"
proof -
  have "validate_sparse_extents es logical stored = Inr () \<longleftrightarrow> sparse_extents_loop logical 0 0 es = Inr stored"
    by (auto simp: validate_sparse_extents_def bindE_Inr_iff split: if_splits)
  with sparse_loop_exact [of logical 0 0 es stored] assms show ?thesis by auto
qed

theorem sparse_map_check_exact_witness:
  "validate_sparse_extents [\<lparr>se_offset = 4, se_length = 2\<rparr>, \<lparr>se_offset = 6, se_length = 1\<rparr>] 9 3 = Inr ()"
  by (subst sparse_map_check_exact) (simp_all add: u64_max_def se_end_def)

text \<open>
  Both the header and its extension blocks are checked against the whole stored size, so extents of
  an extension block can only be empty.
\<close>

lemma stage_header_extents:
  assumes "stage_header_metadata s hdr p sz = (s', Inr ())" and "hdr ! O_TYPEFLAG = 83"
  shows "validate_sparse_extents (stage_sparse s') (stage_logical_size s') sz = Inr ()"
  using assms
  by (auto simp: stage_header_metadata_def stage_gnu_sparse_def header_is_sparse_def Let_def
      split: sum.splits prod.splits if_splits)

lemma sparse_loop_sum:
  "sparse_extents_loop logical prev stored es = Inr n \<Longrightarrow> n = stored + sum_list (map se_length es)"
  by (induction es arbitrary: prev stored) (fastforce simp: bindE_Inr_iff checked_add_def split: if_splits)+

lemma validate_sum: "validate_sparse_extents es logical n = Inr () \<Longrightarrow> n = sum_list (map se_length es)"
  by (auto simp: validate_sparse_extents_def bindE_Inr_iff dest: sparse_loop_sum split: if_splits)

lemma gnu_descriptors_nonempty:
  "gnu_descriptors block start is = Inr es \<Longrightarrow> \<forall>e \<in> set es. se_length e \<noteq> 0"
  by (induction block start "is" arbitrary: es rule: gnu_descriptors.induct)
    (auto simp: bindE_Inr_iff gnu_extent_def sparse_extent_new_def split: if_splits option.splits)

text \<open>
  Reading extension blocks, with any buffer contents in between: \<open>extending r q s t\<close> holds when \<open>t\<close>
  is reached from \<open>s\<close> by extension blocks that each announce another one.
\<close>

inductive extending :: "nat \<Rightarrow> nat \<Rightarrow> tar_source \<Rightarrow> tar_source \<Rightarrow> bool" for r q s where
  none: "extending r q s s"
| block: "extending r q s t \<Longrightarrow>
    poll_sparse_extension (t\<lparr>src_buf := buf, src_cursor := c\<rparr>) r q = (t', Inr PollContinue) \<Longrightarrow> extending r q s t'"

lemma extension_block:
  assumes "poll_sparse_extension t r q = (t', Inr p)" and "p \<noteq> PollNeedInput"
  shows "\<exists>es. stage_sparse t' = stage_sparse t @ es \<and> (\<forall>e \<in> set es. se_length e \<noteq> 0)"
    "stage_logical_size t' = stage_logical_size t"
    "p = PollEntry \<Longrightarrow> validate_sparse_extents (stage_sparse t') (stage_logical_size t') r = Inr ()"
  using assms gnu_descriptors_nonempty
  by (auto simp: poll_sparse_extension_def starved_def parse_gnu_sparse_descriptors_def Let_def
      split: if_splits sum.splits)

lemma extending_extents:
  "extending r q s t \<Longrightarrow>
   (\<exists>es. stage_sparse t = stage_sparse s @ es \<and> (\<forall>e \<in> set es. se_length e \<noteq> 0)) \<and>
   stage_logical_size t = stage_logical_size s"
proof (induction rule: extending.induct)
  case none
  show ?case by simp
next
  case (block t buf c t')
  from extension_block [OF block.hyps(2)] block.IH show ?case by fastforce
qed

text \<open>
  C39. Old-GNU sparse files that need extension blocks are refused: the extents of the header alone
  are validated against the stored size before the extension is read, and validated again together
  with it, so an entry is only announced after its extension blocks when these contributed no extent
  at all. A file with more than four data extents, the case the extension exists for, never decodes.
\<close>

theorem gnu_sparse_extension_contributes_nothing:
  assumes "poll_entry_header s hdr = (s1, Inr PollContinue)" and "src_state s1 = TarSparseExtensions r q"
    and "extending r q s1 t"
    and "poll_sparse_extension (t\<lparr>src_buf := buf, src_cursor := c\<rparr>) r q = (t', Inr PollEntry)"
  shows "stage_sparse t' = stage_sparse s1"
proof -
  obtain s0 where s0: "stage_header_metadata (s\<lparr>src_pending := overrides_default\<rparr>) hdr (src_pending s) r = (s0, Inr ())"
    "hdr ! O_TYPEFLAG = 83" "stage_sparse s1 = stage_sparse s0" "stage_logical_size s1 = stage_logical_size s0"
    using assms(1,2) by (auto simp: poll_entry_header_def Let_def split: sum.splits prod.splits if_splits)
  have "validate_sparse_extents (stage_sparse s1) (stage_logical_size s1) r = Inr ()"
    using stage_header_extents [OF s0(1,2)] s0 by simp
  then have sum: "r = sum_list (map se_length (stage_sparse s1))" by (rule validate_sum)
  obtain es fs where es: "stage_sparse t = stage_sparse s1 @ es" "\<forall>e \<in> set es. se_length e \<noteq> 0"
    and fs: "stage_sparse t' = stage_sparse t @ fs" "\<forall>e \<in> set fs. se_length e \<noteq> 0"
    using extending_extents [OF assms(3)] extension_block(1) [OF assms(4)] by auto
  have "r = sum_list (map se_length (stage_sparse t'))"
    using extension_block(3) [OF assms(4)] by (auto intro: validate_sum)
  with sum es fs have "\<forall>e \<in> set (es @ fs). se_length e = 0" by (auto simp: sum_list_eq_0_iff)
  with es fs have "set (es @ fs) = {}" by fastforce
  with es fs show ?thesis by simp
qed

lemma slice_update_outside: "i < a \<or> b \<le> i \<Longrightarrow> slice (xs[i := v]) a b = slice xs a b"
  by (cases "i < a") (auto simp: slice_def drop_update_swap drop_update_cancel)

lemma slice_replicate: "slice (replicate n x) a b = replicate (min (b - a) (n - a)) x"
  by (simp add: slice_def)

lemma octal_loop_blank: "octal_field_loop 0 False (replicate n 0) = Inr 0"
  by (induction n) simp_all

lemma parse_numeric_blank [simp]: "parse_numeric (replicate n 0) = Inr 0"
  using octal_loop_blank [of n] by (cases n) (simp_all add: parse_numeric_def)

lemma gnu_descriptors_blank:
  assumes "\<forall>i \<in> set is. start + i * 24 + 24 \<le> length block \<and>
      slice block (start + i * 24) (start + i * 24 + 24) = replicate 24 0" and "length block \<le> 512"
  shows "gnu_descriptors block start is = Inr []"
  using assms(1)
proof (induction "is")
  case (Cons i "is")
  then have "start + i * 24 \<le> u64_max" using assms(2) by (simp add: u64_max_def)
  with Cons show ?case by (simp add: get_range_def checked_add_def)
qed simp

definition sparse_extended_header :: bytes where
  "sparse_extended_header = (replicate 512 0)[156 := 83, 482 := 1]"

theorem gnu_sparse_extension_contributes_nothing_witness:
  "\<exists>s1 t'. poll_entry_header tar_source_new sparse_extended_header = (s1, Inr PollContinue) \<and>
     src_state s1 = TarSparseExtensions 0 0 \<and>
     poll_sparse_extension (s1\<lparr>src_buf := replicate 512 0, src_cursor := 0\<rparr>) 0 0 = (t', Inr PollEntry) \<and>
     stage_sparse t' = stage_sparse s1"
proof -
  let ?h = sparse_extended_header
  have flds: "field ?h F_SIZE_tar = replicate 12 0" "field ?h GNU_SPARSE_REALSIZE = replicate 12 0"
    by (simp_all add: sparse_extended_header_def field_def F_SIZE_tar_def GNU_SPARSE_REALSIZE_def slice_update_outside slice_replicate
       )
  have at: "?h ! 156 = 83" "?h ! 482 = 1" by (simp_all add: sparse_extended_header_def nth_list_update)
  have d: "parse_gnu_sparse_descriptors ?h 386 4 = Inr []"
    unfolding parse_gnu_sparse_descriptors_def
    by (rule gnu_descriptors_blank)
      (auto simp: sparse_extended_header_def slice_update_outside slice_replicate)
  have b: "parse_gnu_sparse_descriptors (replicate 512 0) 0 21 = Inr []"
    unfolding parse_gnu_sparse_descriptors_def by (rule gnu_descriptors_blank) (auto simp: slice_replicate)
  obtain s1 where h: "poll_entry_header tar_source_new ?h = (s1, Inr PollContinue)"
    "src_state s1 = TarSparseExtensions 0 0" "stage_sparse s1 = []"
    using flds at d
    by (simp add: poll_entry_header_def tar_source_new_def overrides_default_def or_opt_def round_up_def tar_usize_of_def
        stage_header_metadata_def referenced_device_of_def pax_sparse_extents_def stage_gnu_sparse_def
        validate_sparse_extents_def header_is_sparse_def Let_def BLOCK_def O_TYPEFLAG_def GNU_SPARSE_EXTENDED_def
        GNU_SPARSE_START_def GNU_SPARSE_COUNT_def checked_add_def checked_mul_def u64_max_def
       )
  obtain t' where e: "poll_sparse_extension (s1\<lparr>src_buf := replicate 512 0, src_cursor := 0\<rparr>) 0 0 = (t', Inr PollEntry)"
    using b h(3)
    by (simp add: poll_sparse_extension_def src_available_def BLOCK_def src_window_def slice_replicate
        GNU_SPARSE_EXT_COUNT_def Let_def validate_sparse_extents_def)
  from gnu_sparse_extension_contributes_nothing [OF h(1,2) extending.none e] h(1,2) e show ?thesis by blast
qed

section \<open>The in-flight budget counts consumed bytes\<close>

text \<open>
  C40. The in-flight budget charges bytes that were already consumed: with a budget of one block, the
  smallest the decoder admits, a PAX header block leaves nothing unread, yet the next piece of input,
  however short, is refused as exceeding the budget. The buffer is only compacted by the pull that
  follows the check.
\<close>

theorem in_flight_budget_spuriously_exhausted:
  assumes "in_flight_bytes l = Some 512" and "length h = 512" and "verify_checksum h = Inr ()"
    and "h ! O_TYPEFLAG = 120" and "parse_numeric (field h F_SIZE_tar) = Inr n" and "0 < n" and "n < 2 ^ 63"
    and "input \<noteq> []"
  shows "\<exists>s. tar_step (Suc cap) (tar_decoder_new l) h More = (s, Inr (dstep 512 EvNeedInput)) \<and>
    src_available (td_source s) = 0 \<and>
    (\<exists>s'. tar_step (Suc cap) s input e = (s', Inl (tar_err ErrLimit ''in-flight buffer budget was exhausted'')))"
proof -
  have ne: "h \<noteq> []" using assms(2) by auto
  let ?src = "(set_payload_chunk_limit usize_max tar_source_new)\<lparr>src_buf := h\<rparr>"
  have "\<exists>s'. pull_loop ?src = (s', Inr SrcNeedInput) \<and> src_buf s' = h \<and> src_cursor s' = 512"
    by (rule pull_meta_starved [OF assms(2) _ _ _ _ _ assms(3-7)])
      (simp_all add: set_payload_chunk_limit_def tar_source_new_def)
  then obtain src where src: "pull_loop ?src = (src, Inr SrcNeedInput)" "src_buf src = h" "src_cursor src = 512" by blast
  have "src_compact ?src = ?src" by (simp add: src_compact_def set_payload_chunk_limit_def tar_source_new_def)
  with src(1) have pull: "pull_v2 ?src = (src, Inr SrcNeedInput)" by (simp add: pull_v2_def)
  let ?s = "(tar_decoder_new l)\<lparr>td_source := src, td_needs_input := True\<rparr>"
  have feed: "tar_feed (limit_chunk usize_max (tar_decoder_new l)) h =
      ((tar_decoder_new l)\<lparr>td_source := ?src, td_needs_input := False\<rparr>, Inr 512)"
    using assms(1,2) ne
    by (simp add: tar_feed_def limit_chunk_def tar_decoder_new_def buffered_len_def src_feed_def tar_source_new_def
        set_payload_chunk_limit_def)
  have st: "tar_step (Suc cap) (tar_decoder_new l) h More = (?s, Inr (dstep 512 EvNeedInput))"
  proof -
    have "sparse_hole (tar_decoder_new l) (Suc cap) = (limit_chunk usize_max (tar_decoder_new l), Inr None)"
      by (simp add: sparse_hole_def tar_decoder_new_def)
    with feed pull assms(1) show ?thesis
      by (simp add: tar_step_def tar_pull_def tar_event_def) (simp add: tar_decoder_new_def BLOCK_def)
  qed
  have "\<exists>s'. tar_step (Suc cap) ?s input e = (s', Inl (tar_err ErrLimit ''in-flight buffer budget was exhausted''))"
    using assms(1,2,8) src(2)
    by (simp add: tar_step_def tar_decoder_new_def sparse_hole_def limit_chunk_def set_payload_chunk_limit_def tar_feed_def
        buffered_len_def BLOCK_def)
  with st src assms(2) show ?thesis by (simp add: src_available_def)
qed

theorem in_flight_budget_spuriously_exhausted_witness:
  "\<exists>h s. length h = 512 \<and>
     tar_step 1 (tar_decoder_new (limits_safe\<lparr>in_flight_bytes := Some 512\<rparr>)) h More = (s, Inr (dstep 512 EvNeedInput)) \<and>
     (\<exists>s'. tar_step 1 s [49] More = (s', Inl (tar_err ErrLimit ''in-flight buffer budget was exhausted'')))"
proof -
  let ?b = "(replicate 512 0)[124 := 49, 156 := 120] :: bytes"
  have len: "length ?b = 512" by (simp)
  obtain ds where ds: "length ds = 8" "verify_checksum (copy_at ?b 148 ds) = Inr ()"
    using write_checksum_seals [OF len] by blast
  let ?h = "copy_at ?b 148 ds"
  have h: "length ?h = 512" using ds(1) by (simp add: copy_at_def)
  have tf: "?h ! O_TYPEFLAG = 120"
    using ds(1) by (simp add: copy_at_def nth_append O_TYPEFLAG_def nth_list_update)
  have "field ?h F_SIZE_tar = (replicate 12 0)[0 := 49]"
    using ds(1)
    by (simp add: field_def slice_def F_SIZE_tar_def copy_at_def drop_update_swap drop_update_cancel take_update_cancel
        take_update_swap list_update_beyond)
  then have "field ?h F_SIZE_tar = 49 # replicate 11 0" by (simp add: numeral_eq_Suc)
  then have sz: "parse_numeric (field ?h F_SIZE_tar) = Inr 1"
    by (simp add: parse_numeric_def checked_mul_def checked_add_def u64_max_def octal_loop_seen)
  from in_flight_budget_spuriously_exhausted [OF _ h ds(2) tf sz, of "limits_safe\<lparr>in_flight_bytes := Some 512\<rparr>" "[49]" 0 More] h
  show ?thesis by auto
qed

end
