(* ===== verification/Oxide_Tar_Encoder.thy ===== *)
theory Oxide_Tar_Encoder
  imports Oxide_Tar_Decoder Oxide_Writer
begin

text \<open>
  \<open>TarEncoder\<close> of \<open>format/tar.rs\<close>: service headers for PAX and GNU long names, the ustar header, the
  sparse data copy and the \<open>step\<close> function. Functions that append to a byte vector take and return
  that vector together with their result, because on error the Rust code leaves behind what was
  already appended. The theory proves the \<open>archive_encoder\<close> contract.
\<close>

section \<open>Header blocks\<close>

type_synonym sink_result = "bytes \<times> (error + unit)"

definition then_sink :: "sink_result \<Rightarrow> (bytes \<Rightarrow> sink_result) \<Rightarrow> sink_result" where
  "then_sink r k = (case r of (sink, Inl e) \<Rightarrow> (sink, Inl e) | (sink, Inr _) \<Rightarrow> k sink)"

definition write_zeros :: "bytes \<Rightarrow> nat \<Rightarrow> sink_result" where
  "write_zeros sink count =
     (case checked_add (length sink) count of
        None \<Rightarrow> (sink, Inl (LimitExceeded ''tar output length overflow''))
      | Some _ \<Rightarrow> (sink @ replicate count 0, Inr ()))"

definition put_number :: "nat \<times> nat \<Rightarrow> nat \<Rightarrow> bytes \<Rightarrow> error + bytes" where
  \<comment> \<open>\<open>put_octal(&mut h[F.0..F.1], val)\<close>\<close>
  "put_number f val h = bindE (tar_put_octal (snd f - fst f) val) (\<lambda>ds. Inr (copy_at h (fst f) ds))"

definition ustar_marks :: "byte \<Rightarrow> bytes \<Rightarrow> bytes" where
  "ustar_marks typeflag h =
     (copy_at (h[O_TYPEFLAG := typeflag]) (fst F_MAGIC_tar) (ascii ''ustar''))[263 := 48, 264 := 48]"

text \<open>The header block of a PAX or GNU service entry.\<close>

definition service_block :: "bytes \<Rightarrow> nat \<Rightarrow> nat \<Rightarrow> byte \<Rightarrow> error + bytes" where
  "service_block name mode sz typeflag =
     bindE (put_number F_MODE_tar mode (copy_at (replicate BLOCK 0) 0 name)) (\<lambda>h.
     bindE (put_number F_UID_tar 0 h) (\<lambda>h.
     bindE (put_number F_GID_tar 0 h) (\<lambda>h.
     bindE (put_number F_SIZE_tar sz h) (\<lambda>h.
     bindE (put_number F_MTIME_tar 0 h) (\<lambda>h.
     write_checksum (ustar_marks typeflag h))))))"

definition pad_sink :: "nat \<Rightarrow> nat \<Rightarrow> bytes \<Rightarrow> sink_result" where
  "pad_sink sz present sink =
     (case round_up sz of Inl e \<Rightarrow> (sink, Inl e) | Inr r \<Rightarrow> write_zeros sink (r - present))"

definition write_pax_header :: "bytes \<Rightarrow> bytes \<Rightarrow> byte \<Rightarrow> sink_result" where
  "write_pax_header sink records typeflag =
     (case service_block (ascii ''././@PaxHeader'') 0x1a4 (length records) typeflag of
        Inl e \<Rightarrow> (sink, Inl e)
      | Inr h \<Rightarrow> pad_sink (length records) (length records) (sink @ h @ records))"

definition write_gnu_ext :: "bytes \<Rightarrow> byte \<Rightarrow> bytes \<Rightarrow> sink_result" where
  "write_gnu_ext sink flag data =
     (case service_block (ascii ''././@LongLink'') 0 (length data + 1) flag of
        Inl e \<Rightarrow> (sink, Inl e)
      | Inr h \<Rightarrow> pad_sink (length data + 1) (length data + 1) (sink @ h @ data @ [0]))"

record header_view =
  hv_kind :: entry_kind
  hv_path :: bytes
  hv_mode :: nat
  hv_uid :: nat
  hv_gid :: nat
  hv_modified :: "timestamp option"
  hv_size :: nat
  hv_link_target :: "bytes option"

definition header_view_from :: "entry_metadata \<Rightarrow> nat \<Rightarrow> header_view" where
  "header_view_from md sz =
     \<lparr>hv_kind = md_kind md, hv_path = ap_raw (md_path md),
      hv_mode = opt_or (default_mode (md_kind md)) (md_mode md),
      hv_uid = opt_or 0 (own_uid (md_owner md)), hv_gid = opt_or 0 (own_gid (md_owner md)),
      hv_modified = modified (md_times md), hv_size = sz,
      hv_link_target = map_option ap_raw (md_link_target md)\<rparr>"

definition tar_mtime :: "header_view \<Rightarrow> nat" where
  "tar_mtime v = (case hv_modified v of None \<Rightarrow> 0 | Some t \<Rightarrow> nat (max (ts_secs t) 0))"

definition header_block :: "header_view \<Rightarrow> byte \<Rightarrow> error + bytes" where
  "header_block v typeflag =
     bindE (put_number F_MODE_tar (hv_mode v AND 0xfff) (copy_at (replicate BLOCK 0) 0 (take 100 (hv_path v)))) (\<lambda>h.
     bindE (put_number F_UID_tar (hv_uid v) h) (\<lambda>h.
     bindE (put_number F_GID_tar (hv_gid v) h) (\<lambda>h.
     bindE (put_number F_SIZE_tar (hv_size v) h) (\<lambda>h.
     bindE (put_number F_MTIME_tar (tar_mtime v) h) (\<lambda>h.
     let h = (case hv_link_target v of None \<Rightarrow> h | Some l \<Rightarrow> copy_at h (fst F_LINKNAME) (take 100 l)) in
     write_checksum (ustar_marks typeflag h))))))"

definition write_header :: "bytes \<Rightarrow> header_view \<Rightarrow> sink_result" where
  "write_header sink v =
     (case typeflag_for (hv_kind v) of
        Inl e \<Rightarrow> (sink, Inl e)
      | Inr typeflag \<Rightarrow>
          then_sink (if 100 < length (hv_path v) then write_gnu_ext sink 76 (hv_path v) else (sink, Inr ())) (\<lambda>sink.
          then_sink (case hv_link_target v of
                       Some l \<Rightarrow> if 100 < length l then write_gnu_ext sink 75 l else (sink, Inr ())
                     | None \<Rightarrow> (sink, Inr ())) (\<lambda>sink.
          (case header_block v typeflag of
             Inl e \<Rightarrow> (sink, Inl e)
           | Inr h \<Rightarrow> (sink @ h, Inr ())))))"

section \<open>PAX records of an entry\<close>

definition pax_extensions :: "extension list \<Rightarrow> raw_pax_record list" where
  "pax_extensions xs = map (\<lambda>x. (ext_key x, ext_value x)) (filter (\<lambda>x. ext_namespace x = ''pax'') xs)"

definition sparse_pax_key :: "bytes \<Rightarrow> bool" where
  "sparse_pax_key k \<longleftrightarrow> k = ascii ''GNU.sparse.map'' \<or> k = ascii ''GNU.sparse.size'' \<or> k = ascii ''GNU.sparse.realsize''"

definition time_records :: "entry_times \<Rightarrow> raw_pax_record list" where
  "time_records t =
     concat (map (\<lambda>(key, stamp). case stamp of None \<Rightarrow> [] | Some ts \<Rightarrow> [(key, format_pax_timestamp ts)])
       [(ascii ''mtime'', modified t), (ascii ''atime'', accessed t), (ascii ''ctime'', changed t),
        (ascii ''LIBARCHIVE.creationtime'', created t)])"

definition xattr_records :: "entry_metadata \<Rightarrow> raw_pax_record list" where
  "xattr_records md =
     filter (\<lambda>(key, v). key \<notin> set (map fst (pax_extensions (md_extensions md))))
       (map (\<lambda>(name, v). (ascii ''SCHILY.xattr.'' @ name, v)) (md_xattrs md))"

definition acl_records :: "entry_metadata \<Rightarrow> raw_pax_record list" where
  "acl_records md =
     (if \<exists>(k, v) \<in> set (pax_extensions (md_extensions md)).
           starts_with k (ascii ''SCHILY.acl.'') \<or> starts_with k (ascii ''LIBARCHIVE.acl.'')
      then [] else map (\<lambda>acl. (ascii ''SCHILY.acl.access'', acl)) (md_acl md))"

fun sparse_map_text :: "sparse_extent list \<Rightarrow> bytes" where
  "sparse_map_text [] = []"
| "sparse_map_text [e] = decimal (se_offset e) @ [44] @ decimal (se_length e)"
| "sparse_map_text (e # es) = decimal (se_offset e) @ [44] @ decimal (se_length e) @ [44] @ sparse_map_text es"

definition opt_record :: "bytes \<Rightarrow> bytes option \<Rightarrow> raw_pax_record list" where
  "opt_record key v = (case v of None \<Rightarrow> [] | Some b \<Rightarrow> [(key, b)])"

definition v2_pax_records :: "entry_metadata \<Rightarrow> bool \<Rightarrow> raw_pax_record list" where
  "v2_pax_records md sparse =
     filter (\<lambda>(k, v). \<not> (sparse \<and> sparse_pax_key k)) (pax_extensions (md_extensions md)) @
     opt_record (ascii ''uname'') (own_user (md_owner md)) @
     opt_record (ascii ''gname'') (own_group (md_owner md)) @
     time_records (md_times md) @
     xattr_records md @
     acl_records md @
     opt_record (ascii ''LIBARCHIVE.comment'') (md_comment md) @
     (if sparse then [(ascii ''GNU.sparse.map'', sparse_map_text (md_sparse md)),
                      (ascii ''GNU.sparse.realsize'', decimal (opt_or 0 (md_size md)))] else [])"

section \<open>The complete entry header\<close>

text \<open>
  The patch of the header block: user, group and device fields, then the checksum. The block is
  modified in place, so an error keeps the changes made before it.
\<close>

definition patch_names :: "entry_metadata \<Rightarrow> bytes \<Rightarrow> bytes" where
  "patch_names md h =
     (let h1 = (case own_user (md_owner md) of None \<Rightarrow> h
                | Some u \<Rightarrow> copy_at h (fst F_UNAME) (copy_field (snd F_UNAME - fst F_UNAME) u)) in
      case own_group (md_owner md) of None \<Rightarrow> h1
      | Some g \<Rightarrow> copy_at h1 (fst F_GNAME) (copy_field (snd F_GNAME - fst F_GNAME) g))"

definition device_of :: "entry_metadata \<Rightarrow> device option" where
  "device_of md = (if md_kind md = KindChar \<or> md_kind md = KindBlock then md_referenced_device md else None)"

definition patch_device :: "device option \<Rightarrow> bytes \<Rightarrow> sink_result" where
  "patch_device d h =
     (case d of
        None \<Rightarrow> (h, Inr ())
      | Some dev \<Rightarrow>
          (case put_number F_DEVMAJOR (dev_major dev) h of
             Inl e \<Rightarrow> (h, Inl e)
           | Inr h1 \<Rightarrow>
               (case put_number F_DEVMINOR (dev_minor dev) h1 of
                  Inl e \<Rightarrow> (h1, Inl e)
                | Inr h2 \<Rightarrow> (h2, Inr ()))))"

definition patch_header :: "entry_metadata \<Rightarrow> bytes \<Rightarrow> sink_result" where
  "patch_header md h =
     then_sink (patch_device (device_of md) (patch_names md h)) (\<lambda>h.
     (case write_checksum h of Inl e \<Rightarrow> (h, Inl e) | Inr h' \<Rightarrow> (h', Inr ())))"

definition write_v2_header :: "bytes \<Rightarrow> entry_metadata \<Rightarrow> header_view \<Rightarrow> bool \<Rightarrow> sink_result" where
  "write_v2_header sink md stored sparse =
     (case push_pax_records (v2_pax_records md sparse) [] of
        Inl e \<Rightarrow> (sink, Inl e)
      | Inr pax \<Rightarrow>
          then_sink (if pax \<noteq> [] then write_pax_header sink pax 120 else (sink, Inr ())) (\<lambda>sink.
          then_sink (write_header sink stored) (\<lambda>sink.
          if length sink < BLOCK then (sink, Inl (InvalidState ''tar header was not emitted''))
          else
            let start = length sink - BLOCK in
            (case patch_header md (drop start sink) of
               (h, r) \<Rightarrow> (take start sink @ h, r)))))"

section \<open>Encoder state\<close>

record tar_encoder =
  te_limits :: limits
  te_pending :: bytes
  te_pending_pos :: nat
  te_open :: bool
  te_entry_size :: nat
  te_remaining :: nat
  te_finishing :: bool
  te_done :: bool
  te_entries :: nat
  te_total :: nat
  te_sparse :: "sparse_extent list"
  te_sparse_index :: nat
  te_position :: nat

definition tar_encoder_new :: "limits \<Rightarrow> tar_encoder" where
  "tar_encoder_new l =
     \<lparr>te_limits = l, te_pending = [], te_pending_pos = 0, te_open = False, te_entry_size = 0, te_remaining = 0,
      te_finishing = False, te_done = False, te_entries = 0, te_total = 0, te_sparse = [], te_sparse_index = 0,
      te_position = 0\<rparr>"

definition tar_format_error :: "error \<Rightarrow> archive_error" where
  "tar_format_error e = with_format ''tar'' (archive_error_from e)"

definition archive_pax_records :: "archive_metadata \<Rightarrow> raw_pax_record list" where
  "archive_pax_records am =
     pax_extensions (am_extensions am) @
     (if ascii ''LIBARCHIVE.comment'' \<in> set (map fst (pax_extensions (am_extensions am))) then []
      else opt_record (ascii ''LIBARCHIVE.comment'') (am_comment am))"

definition tar_set_archive_metadata :: "archive_metadata \<Rightarrow> tar_encoder \<Rightarrow> tar_encoder \<times> (archive_error + unit)" where
  "tar_set_archive_metadata am s =
     (if te_open s \<or> te_entries s \<noteq> 0 \<or> te_pending s \<noteq> [] \<or> te_finishing s \<or> te_done s
      then (s, Inl (tar_err ErrProtocol ''archive metadata must be set before the first entry''))
      else
        (case push_pax_records (archive_pax_records am) [] of
           Inl e \<Rightarrow> (s, Inl (tar_format_error e))
         | Inr records \<Rightarrow>
             if records = [] then (s, Inr ())
             else
               (case write_pax_header (te_pending s) records 103 of
                  (p, Inl e) \<Rightarrow> (s\<lparr>te_pending := p\<rparr>, Inl (tar_format_error e))
                | (p, Inr _) \<Rightarrow>
                    if exceeds (metadata_bytes (te_limits s)) (length p)
                    then (s\<lparr>te_pending := []\<rparr>, Inl (tar_err ErrLimit ''global PAX metadata exceeds configured limit''))
                    else (s\<lparr>te_pending := p\<rparr>, Inr ()))))"

definition tar_drain_pending :: "tar_encoder \<Rightarrow> nat \<Rightarrow> tar_encoder \<times> bytes" where
  "tar_drain_pending s cap =
     (let n = min (length (te_pending s) - te_pending_pos s) cap;
          out = slice (te_pending s) (te_pending_pos s) (te_pending_pos s + n);
          pos = te_pending_pos s + n in
      if pos = length (te_pending s) then (s\<lparr>te_pending := [], te_pending_pos := 0\<rparr>, out)
      else (s\<lparr>te_pending_pos := pos\<rparr>, out))"

definition tar_drained :: "tar_encoder \<Rightarrow> encode_status" where
  "tar_drained s = (if te_pending s = [] then EncNeedCommand else EncNeedOutput)"

section \<open>Commands\<close>

fun sparse_total :: "nat \<Rightarrow> sparse_extent list \<Rightarrow> archive_error + nat" where
  "sparse_total acc [] = Inr acc"
| "sparse_total acc (e # es) =
     bindE (ok_or (tar_err ErrLimit ''sparse stored size overflow'') (checked_add acc (se_length e)))
       (\<lambda>t. sparse_total t es)"

definition stored_size_of :: "sparse_extent list \<Rightarrow> nat \<Rightarrow> archive_error + nat" where
  "stored_size_of sparse logical_size =
     (if sparse = [] then Inr logical_size
      else
        bindE (sparse_total 0 sparse) (\<lambda>stored.
        bindE (map_err tar_format_error (validate_sparse_extents sparse logical_size stored)) (\<lambda>_. Inr stored)))"

definition tar_open :: "tar_encoder \<Rightarrow> entry_metadata \<Rightarrow> tar_encoder \<times> (archive_error + unit)" where
  "tar_open s md =
     (if te_open s then (s, Inl (tar_err ErrProtocol ''previous entry is still open''))
      else
        (case bindE (ok_or (tar_err ErrSizeRequired ''tar requires a declared entry size'') (md_size md)) (\<lambda>logical.
              bindE (if exceeds (path_bytes (te_limits s)) (length (ap_raw (md_path md)))
                     then Inl (tar_err ErrLimit ''entry path exceeds configured limit'') else Inr ()) (\<lambda>_.
              bindE (if exceeds (entry_bytes (te_limits s)) logical
                     then Inl (tar_err ErrLimit ''entry size exceeds configured limit'') else Inr ()) (\<lambda>_.
              bindE (ok_or (tar_err ErrLimit ''entry count overflow'') (checked_add (te_entries s) 1)) (\<lambda>next.
              bindE (if exceeds (max_entries (te_limits s)) next
                     then Inl (tar_err ErrLimit ''entry count exceeds configured limit'') else Inr ()) (\<lambda>_.
              bindE (stored_size_of (md_sparse md) logical) (\<lambda>stored. Inr (logical, next, stored))))))) of
           Inl e \<Rightarrow> (s, Inl e)
         | Inr (logical, next, stored) \<Rightarrow>
             (case write_v2_header (te_pending s) md (header_view_from md stored) (md_sparse md \<noteq> []) of
                (p, Inl e) \<Rightarrow> (s\<lparr>te_pending := p\<rparr>, Inl (tar_format_error e))
              | (p, Inr _) \<Rightarrow>
                  if exceeds (metadata_bytes (te_limits s)) (length p)
                  then (s\<lparr>te_pending := p\<rparr>, Inl (tar_err ErrLimit ''tar header metadata exceeds configured limit''))
                  else
                    (s\<lparr>te_pending := p, te_entries := next, te_remaining := logical, te_entry_size := stored,
                       te_sparse := md_sparse md, te_sparse_index := 0, te_position := 0, te_open := True\<rparr>, Inr ()))))"

text \<open>
  \<open>write_sparse_data\<close>: logical bytes in, stored bytes out. \<open>rest\<close> is the unconsumed input, \<open>cap\<close>
  the room left in the output. The last guard stops where the source would not make progress, which
  needs a position beyond the current extent; \<open>sparse_copy_spec\<close> below covers every state the
  encoder reaches and shows that this does not happen there.
\<close>

function sparse_copy :: "sparse_extent list \<Rightarrow> nat \<Rightarrow> nat \<Rightarrow> bytes \<Rightarrow> nat \<Rightarrow> nat \<Rightarrow> bytes \<Rightarrow>
    (nat \<times> nat) \<times> (archive_error + nat \<times> bytes)" where
  "sparse_copy es index pos rest cap consumed out =
     (if rest = [] then ((index, pos), Inr (consumed, out))
      else
        let index = skip_extents (drop index es) index pos in
        if length es \<le> index then
          (case checked_add pos (length rest) of
             None \<Rightarrow> ((index, pos), Inl (tar_err ErrLimit ''sparse logical position overflow''))
           | Some p \<Rightarrow> ((index, p), Inr (consumed + length rest, out)))
        else
          let e = es ! index in
          if pos < se_offset e then
            let count = min (se_offset e - pos) (length rest) in
            sparse_copy es index (pos + count) (drop count rest) cap (consumed + count) out
          else if cap = 0 then ((index, pos), Inr (consumed, out))
          else
            (case checked_add (se_offset e) (se_length e) of
               None \<Rightarrow> ((index, pos), Inl (tar_err ErrMalformed ''sparse extent overflow''))
             | Some end \<Rightarrow>
                 let count = min (min (end - pos) (length rest)) cap in
                 if count = 0 then ((index, pos), Inr (consumed, out))
                 else sparse_copy es index (pos + count) (drop count rest) (cap - count) (consumed + count)
                        (out @ take count rest)))"
  by pat_completeness auto
termination
  by (relation "measure (\<lambda>(es, index, pos, rest, cap, consumed, out). length rest)")
    (auto simp flip: length_greater_0_conv)

declare sparse_copy.simps [simp del]

definition write_sparse_data :: "sparse_extent list \<Rightarrow> nat \<Rightarrow> nat \<Rightarrow> bytes \<Rightarrow> nat \<Rightarrow>
    (nat \<times> nat) \<times> (archive_error + nat \<times> bytes)" where
  "write_sparse_data es index pos input cap = sparse_copy es index pos input cap 0 []"

definition tar_enc_data :: "tar_encoder \<Rightarrow> bytes \<Rightarrow> nat \<Rightarrow> tar_encoder \<times> (archive_error + encode_step \<times> bytes)" where
  "tar_enc_data s input cap =
     (if \<not> te_open s then (s, Inl (tar_err ErrProtocol ''entry data supplied without an open entry''))
      else if te_remaining s < length input
      then (s, Inl (tar_err ErrProtocol ''entry data exceeds declared size''))
      else if input = [] then (s, Inr (estep 0 0 EncNeedCommand, []))
      else if te_sparse s = [] \<and> cap = 0 then (s, Inr (estep 0 0 EncNeedOutput, []))
      else
        (case (if te_sparse s = [] then
                 let count = min (length input) cap in
                 ((te_sparse_index s, te_position s + count), Inr (count, take count input))
               else write_sparse_data (te_sparse s) (te_sparse_index s) (te_position s) input cap) of
           ((i, p), Inl e) \<Rightarrow> (s\<lparr>te_sparse_index := i, te_position := p\<rparr>, Inl e)
         | ((i, p), Inr (consumed, out)) \<Rightarrow>
             let s1 = s\<lparr>te_sparse_index := i, te_position := p\<rparr> in
             (case checked_add (te_total s) consumed of
                None \<Rightarrow> (s1, Inl (tar_err ErrLimit ''encoded byte count overflow''))
              | Some t \<Rightarrow>
                  if exceeds (decoded_total (te_limits s)) t
                  then (s1, Inl (tar_err ErrLimit ''encoded total exceeds configured limit''))
                  else
                    (s1\<lparr>te_remaining := te_remaining s - consumed, te_total := t\<rparr>,
                     Inr (estep consumed (length out)
                            (if consumed = length input then EncNeedCommand else EncNeedOutput), out)))))"

definition tar_close :: "tar_encoder \<Rightarrow> tar_encoder \<times> (archive_error + unit)" where
  "tar_close s =
     (if \<not> te_open s then (s, Inl (tar_err ErrProtocol ''end-entry supplied without an open entry''))
      else if te_remaining s \<noteq> 0 then (s, Inl (tar_err ErrProtocol ''entry data is shorter than declared size''))
      else
        (case map_err tar_format_error
                (bindE (round_up (te_entry_size s)) (\<lambda>r. bindE (tar_usize_of (te_entry_size s)) (\<lambda>u. Inr (r - u)))) of
           Inl e \<Rightarrow> (s, Inl e)
         | Inr pad \<Rightarrow>
             (s\<lparr>te_pending := resize (te_pending s) pad 0, te_open := False, te_sparse := []\<rparr>, Inr ())))"

definition tar_trailer :: "tar_encoder \<Rightarrow> tar_encoder \<times> (archive_error + unit)" where
  "tar_trailer s =
     (if te_open s then (s, Inl (tar_err ErrProtocol ''cannot finish with an open entry''))
      else (s\<lparr>te_pending := resize (te_pending s) (2 * BLOCK) 0, te_finishing := True\<rparr>, Inr ()))"

definition tar_control :: "tar_encoder \<times> (archive_error + unit) \<Rightarrow> nat \<Rightarrow>
    tar_encoder \<times> (archive_error + encode_step \<times> bytes)" where
  "tar_control r cap =
     (case r of
        (s, Inl e) \<Rightarrow> (s, Inl e)
      | (s, Inr _) \<Rightarrow>
          let (s1, out) = tar_drain_pending s cap
          in (s1, Inr (estep 1 (length out) (tar_drained s1), out)))"

definition tar_enc_finish :: "tar_encoder \<Rightarrow> nat \<Rightarrow> tar_encoder \<times> (archive_error + encode_step \<times> bytes)" where
  "tar_enc_finish s cap =
     (case tar_trailer s of
        (s1, Inl e) \<Rightarrow> (s1, Inl e)
      | (s1, Inr _) \<Rightarrow>
          let (s2, out) = tar_drain_pending s1 cap;
              s3 = (if te_pending s2 = [] then s2\<lparr>te_done := True\<rparr> else s2) in
          (s3, Inr (estep 1 (length out) (if te_done s3 then EncDone else EncNeedOutput), out)))"

definition tar_enc_step :: "tar_encoder encoder_step" where
  "tar_enc_step s cmd cap =
     (if te_done s then
        (case cmd of
           EncFinish \<Rightarrow> (s, Inr (estep 0 0 EncDone, []))
         | _ \<Rightarrow> (s, Inl (tar_err ErrProtocol ''command supplied after finish'')))
      else if te_pending s \<noteq> [] then
        (let (s1, out) = tar_drain_pending s cap in
         if te_pending s1 = [] \<and> te_finishing s1
         then (s1\<lparr>te_done := True\<rparr>, Inr (estep 0 (length out) EncDone, out))
         else (s1, Inr (estep 0 (length out) (tar_drained s1), out)))
      else
        (case cmd of
           BeginEntry md \<Rightarrow> tar_control (tar_open s md) cap
         | EncData input \<Rightarrow> tar_enc_data s input cap
         | EncEndEntry \<Rightarrow> tar_control (tar_close s) cap
         | EncFinish \<Rightarrow> tar_enc_finish s cap))"

section \<open>What is stored of a sparse file\<close>

text \<open>The specification: the logical bytes whose position lies in an extent.\<close>

definition covered :: "sparse_extent list \<Rightarrow> nat \<Rightarrow> bool" where
  "covered es i \<longleftrightarrow> (\<exists>e \<in> set es. se_offset e \<le> i \<and> i < se_end e)"

fun stored_bytes :: "sparse_extent list \<Rightarrow> nat \<Rightarrow> bytes \<Rightarrow> bytes" where
  "stored_bytes es pos [] = []"
| "stored_bytes es pos (b # bs) = (if covered es pos then b # stored_bytes es (pos + 1) bs else stored_bytes es (pos + 1) bs)"

lemma stored_bytes_append:
  "stored_bytes es pos (xs @ ys) = stored_bytes es pos xs @ stored_bytes es (pos + length xs) ys"
  by (induction es pos xs rule: stored_bytes.induct) simp_all

lemma stored_bytes_hole: "\<forall>i < length xs. \<not> covered es (pos + i) \<Longrightarrow> stored_bytes es pos xs = []"
proof (induction es pos xs rule: stored_bytes.induct)
  case (2 es pos b bs)
  have "\<forall>i < length bs. \<not> covered es (pos + 1 + i)" using 2(3) by (metis Suc_less_eq add.assoc add.commute length_Cons plus_1_eq_Suc)
  with 2 show ?case by (metis add.right_neutral length_Cons stored_bytes.simps(2) zero_less_Suc)
qed simp

lemma stored_bytes_data: "\<forall>i < length xs. covered es (pos + i) \<Longrightarrow> stored_bytes es pos xs = xs"
proof (induction es pos xs rule: stored_bytes.induct)
  case (2 es pos b bs)
  have "\<forall>i < length bs. covered es (pos + 1 + i)" using 2(3) by (metis Suc_less_eq add.assoc add.commute length_Cons plus_1_eq_Suc)
  with 2 show ?case by (metis add.right_neutral length_Cons stored_bytes.simps(2) zero_less_Suc)
qed simp

definition extents_ok :: "sparse_extent list \<Rightarrow> nat \<Rightarrow> bool" where
  "extents_ok es logical \<longleftrightarrow> sorted_wrt (\<lambda>a b. se_end a \<le> se_offset b) es \<and> (\<forall>e \<in> set es. se_end e \<le> logical)"

definition cursor_ok :: "sparse_extent list \<Rightarrow> nat \<Rightarrow> nat \<Rightarrow> bool" where
  "cursor_ok es index pos \<longleftrightarrow> index \<le> length es \<and> (\<forall>j < index. se_end (es ! j) \<le> pos) \<and>
     (\<forall>j < length es. index \<le> j \<longrightarrow> pos \<le> se_end (es ! j))"

lemma se_offset_le_end [simp]: "se_offset e \<le> se_end e"
  by (simp add: se_end_def)

lemma skip_cursor:
  assumes "\<forall>e \<in> set es. se_end e \<le> u64_max" and "cursor_ok es index pos"
  shows "cursor_ok es (skip_extents (drop index es) index pos) pos \<and>
    (skip_extents (drop index es) index pos < length es \<longrightarrow>
       pos < se_end (es ! skip_extents (drop index es) index pos))"
  using assms(2)
proof (induction "length es - index" arbitrary: index rule: less_induct)
  case less
  show ?case
  proof (cases "index < length es")
    case False
    with less.prems show ?thesis by simp
  next
    case True
    then have d: "drop index es = es ! index # drop (Suc index) es" by (simp add: Cons_nth_drop_Suc)
    have ca: "checked_add (se_offset (es ! index)) (se_length (es ! index)) = Some pos \<longleftrightarrow> se_end (es ! index) = pos"
      using True assms(1) nth_mem [OF True] by (auto simp: checked_add_def se_end_def)
    show ?thesis
    proof (cases "se_end (es ! index) = pos")
      case eq: True
      then have "cursor_ok es (Suc index) pos" using less.prems True by (auto simp: cursor_ok_def less_Suc_eq)
      with less.hyps [of "Suc index"] True show ?thesis unfolding d skip_extents.simps ca using eq by simp
    next
      case ne: False
      have "pos \<le> se_end (es ! index)" using less.prems True by (simp add: cursor_ok_def)
      with ne less.prems show ?thesis unfolding d skip_extents.simps ca by simp
    qed
  qed
qed

lemma sorted_extents:
  assumes "extents_ok es logical" and "i < j" and "j < length es"
  shows "se_end (es ! i) \<le> se_offset (es ! j)"
  using assms by (auto simp: extents_ok_def sorted_wrt_iff_nth_less)

lemma sparse_copy_spec:
  assumes "extents_ok es logical" and "logical \<le> u64_max" and "pos + length rest \<le> u64_max" and "cursor_ok es index pos"
  shows "\<exists>index' k. sparse_copy es index pos rest cap consumed out =
      ((index', pos + k), Inr (consumed + k, out @ stored_bytes es pos (take k rest))) \<and>
    cursor_ok es index' (pos + k) \<and> k \<le> length rest \<and> length (stored_bytes es pos (take k rest)) \<le> cap \<and>
    (rest \<noteq> [] \<longrightarrow> 0 < cap \<longrightarrow> 0 < k)"
  using assms
proof (induction es index pos rest cap consumed out rule: sparse_copy.induct)
  case (1 es index pos rest cap consumed out)
  define i where "i = skip_extents (drop index es) index pos"
  note ok = "1.prems"(1) and lim = "1.prems"(2,3)
  have u: "\<forall>e \<in> set es. se_end e \<le> u64_max" using ok lim(1) by (auto simp: extents_ok_def)
  have cur: "cursor_ok es i pos" and at: "i < length es \<Longrightarrow> pos < se_end (es ! i)"
    using skip_cursor [OF u "1.prems"(4)] by (auto simp: i_def)
  have before: "j < i \<Longrightarrow> se_end (es ! j) \<le> pos" for j using cur by (simp add: cursor_ok_def)
  have less: "covered es q \<Longrightarrow> pos \<le> q \<Longrightarrow> \<exists>j < length es. i \<le> j \<and> se_offset (es ! j) \<le> q \<and> q < se_end (es ! j)" for q
    using before by (force simp: covered_def in_set_conv_nth not_less [symmetric])
  show ?case
  proof (cases "rest = []")
    case True
    with "1.prems"(4) show ?thesis by (subst sparse_copy.simps) simp
  next
    case ne: False
    note eq = sparse_copy.simps [of es index pos rest cap consumed out, folded i_def, unfolded Let_def]
    show ?thesis
    proof (cases "length es \<le> i")
      case True
      then have "stored_bytes es pos rest = []" using less by (intro stored_bytes_hole) fastforce
      moreover have "cursor_ok es i (pos + length rest)" using cur True before by (fastforce simp: cursor_ok_def)
      ultimately show ?thesis using eq ne True lim(2)
        by - (rule exI [of _ i], rule exI [of _ "length rest"], simp add: checked_add_def i_def [symmetric])
    next
      case False
      then have il: "i < length es" by simp
      show ?thesis
      proof (cases "pos < se_offset (es ! i)")
        case True
        define c where "c = min (se_offset (es ! i) - pos) (length rest)"
        have c: "0 < c" "c \<le> length rest" "pos + c \<le> se_offset (es ! i)" using True ne by (auto simp: c_def)
        have "\<not> covered es (pos + j)" if "j < c" for j
        proof
          assume "covered es (pos + j)"
          then obtain m where "m < length es" "i \<le> m" "se_offset (es ! m) \<le> pos + j" using less by fastforce
          moreover from this have "se_offset (es ! i) \<le> se_offset (es ! m)"
            using sorted_extents [OF ok, of i m] le_trans [OF se_offset_le_end] by (cases "i = m") auto
          ultimately show False using c that by simp
        qed
        then have hole: "stored_bytes es pos (take c rest) = []" using c by (intro stored_bytes_hole) simp
        have "\<forall>m < length es. i \<le> m \<longrightarrow> pos + c \<le> se_end (es ! m)"
          using sorted_extents [OF ok, of i] c se_offset_le_end
          by (metis le_trans nat_less_le order.trans)
        then have "cursor_ok es i (pos + c)" using cur before by (fastforce simp: cursor_ok_def)
        with "1.IH"(1) [OF ne i_def False refl True c_def ok lim(1)] c lim(2) obtain i' k where
          k: "sparse_copy es i (pos + c) (drop c rest) cap (consumed + c) out =
              ((i', pos + c + k), Inr (consumed + c + k, out @ stored_bytes es (pos + c) (take k (drop c rest))))"
            "cursor_ok es i' (pos + c + k)" "k \<le> length (drop c rest)"
            "length (stored_bytes es (pos + c) (take k (drop c rest))) \<le> cap" by auto
        have "stored_bytes es pos (take (c + k) rest) = stored_bytes es (pos + c) (take k (drop c rest))"
          using hole c by (simp add: take_add stored_bytes_append)
        with k c eq ne False True show ?thesis
          by - (rule exI [of _ i'], rule exI [of _ "c + k"], simp add: c_def [symmetric] add.assoc)
      next
        case data: False
        show ?thesis
        proof (cases "cap = 0")
          case True
          with eq ne False data cur show ?thesis by - (rule exI [of _ i], rule exI [of _ 0], simp)
        next
          case cap: False
          define c where "c = min (min (se_end (es ! i) - pos) (length rest)) cap"
          have c: "0 < c" "c \<le> length rest" "pos + c \<le> se_end (es ! i)" "c \<le> cap"
            using at [OF il] ne cap by (auto simp: c_def)
          have ca: "checked_add (se_offset (es ! i)) (se_length (es ! i)) = Some (se_end (es ! i))"
            using u nth_mem [OF il] by (simp add: checked_add_def se_end_def)
          have "covered es (pos + j)" if "j < c" for j
            unfolding covered_def using that c data nth_mem [OF il] by (intro bexI [of _ "es ! i"]) auto
          then have st: "stored_bytes es pos (take c rest) = take c rest" using c by (intro stored_bytes_data) simp
          have "\<forall>m < length es. i \<le> m \<longrightarrow> pos + c \<le> se_end (es ! m)"
            using sorted_extents [OF ok, of i] c se_offset_le_end
            by (metis le_trans nat_less_le order.trans)
          then have "cursor_ok es i (pos + c)" using cur before by (fastforce simp: cursor_ok_def)
          with "1.IH"(2) [OF ne i_def False refl data cap ca c_def _ ok lim(1)] c lim(2) obtain i' k where
            k: "sparse_copy es i (pos + c) (drop c rest) (cap - c) (consumed + c) (out @ take c rest) =
                ((i', pos + c + k),
                 Inr (consumed + c + k, (out @ take c rest) @ stored_bytes es (pos + c) (take k (drop c rest))))"
              "cursor_ok es i' (pos + c + k)" "k \<le> length (drop c rest)"
              "length (stored_bytes es (pos + c) (take k (drop c rest))) \<le> cap - c" by auto
          have "stored_bytes es pos (take (c + k) rest) =
              take c rest @ stored_bytes es (pos + c) (take k (drop c rest))"
            using st c by (simp add: take_add stored_bytes_append)
          with k c eq ne False data cap ca show ?thesis
            by - (rule exI [of _ i'], rule exI [of _ "c + k"], auto simp: c_def [symmetric] add.assoc)
        qed
      qed
    qed
  qed
qed

section \<open>Abstract transition and contract\<close>

definition tar_queue :: "tar_encoder \<Rightarrow> bytes" where
  "tar_queue s = drop (te_pending_pos s) (te_pending s)"

text \<open>The extent index is a cache of the position and is not part of the abstract state.\<close>

definition tar_core :: "tar_encoder \<Rightarrow> tar_encoder" where
  "tar_core s = s\<lparr>te_pending := [], te_pending_pos := 0, te_done := False, te_sparse_index := 0\<rparr>"

definition tar_enc_inv :: "tar_encoder \<Rightarrow> bool" where
  "tar_enc_inv s \<longleftrightarrow>
     (if te_pending s = [] then te_pending_pos s = 0 else te_pending_pos s < length (te_pending s)) \<and>
     (te_finishing s \<and> \<not> te_done s \<longrightarrow> te_pending s \<noteq> []) \<and>
     (te_sparse s \<noteq> [] \<longrightarrow> te_position s + te_remaining s \<le> u64_max \<and>
        extents_ok (te_sparse s) (te_position s + te_remaining s) \<and>
        cursor_ok (te_sparse s) (te_sparse_index s) (te_position s))"

definition tar_staged :: "tar_encoder \<times> (archive_error + unit) \<Rightarrow> archive_error + tar_encoder \<times> bytes" where
  "tar_staged r = (case r of (s, Inl e) \<Rightarrow> Inl e | (s, Inr _) \<Rightarrow> Inr (tar_core s, te_pending s))"

text \<open>Declared sizes are \<open>u64\<close> values; the abstract transition says so.\<close>

definition tar_accept :: "tar_encoder acceptor" where
  "tar_accept c cmd =
     (if te_finishing c then
        (if cmd = EncFinish then Inr (c, [])
         else Inl (tar_err ErrProtocol ''command supplied after finish''))
      else
        (case cmd of
           BeginEntry md \<Rightarrow>
             if u64_max < opt_or 0 (md_size md) then Inl (tar_err ErrLimit ''entry size exceeds configured limit'')
             else tar_staged (tar_open c md)
         | EncEndEntry \<Rightarrow> tar_staged (tar_close c)
         | EncFinish \<Rightarrow> tar_staged (tar_trailer c)
         | EncData xs \<Rightarrow>
             if \<not> te_open c then Inl (tar_err ErrProtocol ''entry data supplied without an open entry'')
             else if te_remaining c < length xs
             then Inl (tar_err ErrProtocol ''entry data exceeds declared size'')
             else if xs = [] then Inr (c, [])
             else if u64_max < te_total c + length xs then Inl (tar_err ErrLimit ''encoded byte count overflow'')
             else if exceeds (decoded_total (te_limits c)) (te_total c + length xs)
             then Inl (tar_err ErrLimit ''encoded total exceeds configured limit'')
             else Inr (c\<lparr>te_remaining := te_remaining c - length xs, te_total := te_total c + length xs,
                         te_position := te_position c + length xs\<rparr>,
                       if te_sparse c = [] then xs else stored_bytes (te_sparse c) (te_position c) xs)))"

lemma tar_closing [simp]:
  "tar_queue (s\<lparr>te_done := b\<rparr>) = tar_queue s" "tar_core (s\<lparr>te_done := b\<rparr>) = tar_core s"
  by (simp_all add: tar_queue_def tar_core_def)

lemma tar_drain:
  assumes "te_pending_pos s \<le> length (te_pending s)" and "tar_drain_pending s n = (s', out)"
  shows "out = take n (tar_queue s)" "tar_queue s' = drop n (tar_queue s)" "tar_core s' = tar_core s"
    "te_pending s' = [] \<longleftrightarrow> tar_queue s' = []" "length out = min n (length (tar_queue s))"
    "if te_pending s' = [] then te_pending_pos s' = 0 else te_pending_pos s' < length (te_pending s')"
    "te_done s' = te_done s" "te_sparse_index s' = te_sparse_index s"
  using assms
  by (auto simp: tar_drain_pending_def tar_queue_def tar_core_def slice_def min_def Let_def add.commute
      split: if_splits)

lemma tar_core_sel:
  assumes "tar_core s' = tar_core s"
  shows "te_finishing s' = te_finishing s" "te_sparse s' = te_sparse s" "te_position s' = te_position s"
    "te_remaining s' = te_remaining s"
  using assms by (cases s; cases s'; simp add: tar_core_def)+

lemma tar_idle:
  assumes "tar_enc_inv s" and "\<not> te_done s" and "tar_queue s = []"
  shows "te_pending s = []" "te_pending_pos s = 0" "\<not> te_finishing s" "tar_core s = s\<lparr>te_sparse_index := 0\<rparr>"
proof -
  show p: "te_pending s = []" using assms by (auto simp: tar_enc_inv_def tar_queue_def split: if_splits)
  with assms show q: "te_pending_pos s = 0" "\<not> te_finishing s" by (auto simp: tar_enc_inv_def)
  show "tar_core s = s\<lparr>te_sparse_index := 0\<rparr>" using p q assms(2) by (cases s) (simp add: tar_core_def)
qed

lemma tar_step_drains:
  assumes "tar_enc_inv s" and "\<not> te_done s" and "tar_queue s \<noteq> []"
  shows "\<exists>s' st. tar_enc_step s cmd n =
      (s', Inr (estep 0 (min n (length (tar_queue s))) st, take n (tar_queue s))) \<and>
    tar_enc_inv s' \<and> tar_core s' = tar_core s \<and> tar_queue s' = drop n (tar_queue s) \<and>
    (st = EncDone \<longleftrightarrow> te_done s') \<and> (te_done s' \<longrightarrow> tar_queue s' = [] \<and> te_finishing (tar_core s))"
proof -
  obtain s1 out where d: "tar_drain_pending s n = (s1, out)" by force
  have le: "te_pending_pos s \<le> length (te_pending s)"
    using assms(1) by (auto simp: tar_enc_inv_def split: if_splits)
  note facts = tar_drain [OF le d]
  note sel = tar_core_sel [OF facts(3)]
  have ne: "te_pending s \<noteq> []" using assms(3) by (auto simp: tar_queue_def)
  define s2 where "s2 = (if te_pending s1 = [] \<and> te_finishing s1 then s1\<lparr>te_done := True\<rparr> else s1)"
  define st where "st = (if te_pending s1 = [] \<and> te_finishing s1 then EncDone else tar_drained s1)"
  have run: "tar_enc_step s cmd n =
      (s2, Inr (estep 0 (min n (length (tar_queue s))) st, take n (tar_queue s)))"
    unfolding tar_enc_step_def s2_def st_def facts(5) [symmetric] facts(1) [symmetric]
    by (cases "te_pending s1 = [] \<and> te_finishing s1")
      (simp_all only: ne assms(2) d if_False if_True Let_def prod.case not_False_eq_True simp_thms)
  have q: "tar_queue s2 = drop n (tar_queue s)" "tar_core s2 = tar_core s"
    using facts(2,3) by (simp_all add: s2_def)
  have dn: "te_done s2 \<longleftrightarrow> te_pending s1 = [] \<and> te_finishing s1" "st = EncDone \<longleftrightarrow> te_done s2"
    using facts(7) assms(2) by (simp_all add: s2_def st_def tar_drained_def)
  have inv: "tar_enc_inv s2"
    using facts(6,7,8) assms(1,2) sel by (simp add: s2_def tar_enc_inv_def)
  have "te_done s2 \<longrightarrow> tar_queue s2 = [] \<and> te_finishing (tar_core s)"
    using dn facts(2,4) q sel by (simp add: tar_core_def)
  with run q dn(2) inv show ?thesis by blast
qed

lemma tar_open_index: "tar_staged (tar_open (s\<lparr>te_sparse_index := i\<rparr>) md) = tar_staged (tar_open s md)"
  by (auto simp: tar_open_def tar_staged_def tar_core_def split: sum.splits prod.splits)

lemma tar_close_index: "tar_staged (tar_close (s\<lparr>te_sparse_index := i\<rparr>)) = tar_staged (tar_close s)"
  by (auto simp: tar_close_def tar_staged_def tar_core_def split: sum.splits)

lemma tar_trailer_index: "tar_staged (tar_trailer (s\<lparr>te_sparse_index := i\<rparr>)) = tar_staged (tar_trailer s)"
  by (simp add: tar_trailer_def tar_staged_def tar_core_def)

text \<open>What a staged command leaves behind apart from its bytes.\<close>

definition tar_staging :: "tar_encoder \<Rightarrow> tar_encoder \<Rightarrow> bool" where
  "tar_staging s s' \<longleftrightarrow> te_pending_pos s' = te_pending_pos s \<and> te_done s' = te_done s \<and>
     (te_sparse s' \<noteq> [] \<longrightarrow> te_position s' + te_remaining s' \<le> u64_max \<and>
        extents_ok (te_sparse s') (te_position s' + te_remaining s') \<and>
        cursor_ok (te_sparse s') (te_sparse_index s') (te_position s'))"

lemma sparse_loop_ok:
  "sparse_extents_loop logical prev stored es = Inr n \<Longrightarrow>
   extents_ok es logical \<and> (\<forall>e \<in> set es. prev \<le> se_offset e)"
proof (induction es arbitrary: prev stored)
  case (Cons e es)
  then obtain st where "sparse_extents_loop logical (se_end e) st es = Inr n" "prev \<le> se_offset e" "se_end e \<le> logical"
    by (auto simp: bindE_Inr_iff checked_add_def se_end_def split: if_splits)
  with Cons.IH [of "se_end e" st] show ?case
    by (auto simp: extents_ok_def intro: le_trans [OF _ le_trans [OF se_offset_le_end]])
qed (simp add: extents_ok_def)

lemma stored_size_extents:
  "stored_size_of es logical = Inr n \<Longrightarrow> es \<noteq> [] \<Longrightarrow> extents_ok es logical"
  using sparse_loop_ok
  by (auto simp: stored_size_of_def bindE_Inr_iff validate_sparse_extents_def map_err_def split: sum.splits if_splits)

lemma tar_open_frame:
  assumes "tar_open s md = (s', Inr ())" and "opt_or 0 (md_size md) \<le> u64_max"
  shows "tar_staging s s' \<and> te_finishing s' = te_finishing s"
proof -
  obtain logical nxt stored p where o: "md_size md = Some logical" "stored_size_of (md_sparse md) logical = Inr stored"
    "s' = s\<lparr>te_pending := p, te_entries := nxt, te_remaining := logical, te_entry_size := stored,
       te_sparse := md_sparse md, te_sparse_index := 0, te_position := 0, te_open := True\<rparr>"
    using assms(1) by (auto simp: tar_open_def bindE_Inr_iff split: if_splits sum.splits prod.splits)
  show ?thesis
    using assms(2) o stored_size_extents [OF o(2)]
    by (auto simp: tar_staging_def cursor_ok_def)
qed

lemma tar_close_frame:
  "tar_close s = (s', Inr ()) \<Longrightarrow> tar_staging s s' \<and> te_finishing s' = te_finishing s"
  by (auto simp: tar_close_def tar_staging_def split: if_splits sum.splits)

lemma tar_control_step:
  assumes "\<not> te_done s" and "te_pending_pos s = 0" and "\<not> te_finishing s" and r: "tar_staged r = Inr (c, bs)"
    and fr: "\<And>s'. r = (s', Inr ()) \<Longrightarrow> tar_staging s s' \<and> te_finishing s' = te_finishing s"
  shows "\<exists>s' st. tar_control r n = (s', Inr (estep 1 (min n (length bs)) st, take n bs)) \<and>
    tar_enc_inv s' \<and> \<not> te_done s' \<and> tar_core s' = c \<and> tar_queue s' = drop n bs"
proof -
  from r obtain s1 where s1: "r = (s1, Inr ())" "c = tar_core s1" "bs = te_pending s1"
    by (auto simp: tar_staged_def split: prod.splits sum.splits)
  obtain s2 out where d: "tar_drain_pending s1 n = (s2, out)" by force
  note st = fr [OF s1(1)]
  have z: "te_pending_pos s1 = 0" "\<not> te_done s1" "\<not> te_finishing s1" using st assms(1-3) by (auto simp: tar_staging_def)
  then have "te_pending_pos s1 \<le> length (te_pending s1)" by simp
  note facts = tar_drain [OF this d] and sel = tar_core_sel [OF tar_drain(3) [OF this d]]
  have q: "tar_queue s1 = bs" using z s1 by (simp add: tar_queue_def)
  have "tar_enc_inv s2"
    using facts(6,8) z sel st by (simp add: tar_enc_inv_def tar_staging_def)
  moreover have "tar_control r n = (s2, Inr (estep 1 (min n (length bs)) (tar_drained s2), take n bs))"
    using facts(1,5) q s1 d by (simp add: tar_control_def)
  ultimately show ?thesis using facts q s1(2) z by auto
qed

lemma tar_control_accepted:
  assumes "tar_enc_inv s" and "\<not> te_done s" and "tar_queue s = []"
    and "(\<exists>m. cmd = BeginEntry m) \<or> cmd = EncEndEntry"
    and acc: "tar_accept (tar_core s) cmd = Inr (c, bs)"
  shows "\<exists>s' st. tar_enc_step s cmd n = (s', Inr (estep 1 (min n (length bs)) st, take n bs)) \<and>
    tar_enc_inv s' \<and> \<not> te_done s' \<and> tar_core s' = c \<and> tar_queue s' = drop n bs"
proof -
  note idle = tar_idle [OF assms(1-3)]
  show ?thesis
  proof (cases "cmd = EncEndEntry")
    case True
    with acc idle have "tar_staged (tar_close s) = Inr (c, bs)" by (simp add: tar_accept_def tar_close_index)
    from tar_control_step [OF assms(2) idle(2,3) this tar_close_frame] True idle(1) assms(2) show ?thesis
      by (simp add: tar_enc_step_def)
  next
    case False
    with assms(4) obtain md where md: "cmd = BeginEntry md" by blast
    with acc idle have o: "tar_staged (tar_open s md) = Inr (c, bs)" "opt_or 0 (md_size md) \<le> u64_max"
      by (auto simp: tar_accept_def tar_open_index split: if_splits)
    from tar_control_step [OF assms(2) idle(2,3) o(1) tar_open_frame [OF _ o(2)]] md idle(1) assms(2) show ?thesis
      by (simp add: tar_enc_step_def)
  qed
qed

lemma tar_finish_accepted:
  assumes "tar_enc_inv s" and "\<not> te_done s" and "tar_queue s = []"
    and acc: "tar_accept (tar_core s) EncFinish = Inr (c, bs)"
  shows "\<exists>s' st. tar_enc_step s EncFinish n = (s', Inr (estep 1 (min n (length bs)) st, take n bs)) \<and>
    tar_enc_inv s' \<and> tar_core s' = c \<and> tar_queue s' = drop n bs \<and> (st = EncDone \<longleftrightarrow> te_done s') \<and>
    (te_done s' \<longleftrightarrow> tar_queue s' = [])"
proof -
  note idle = tar_idle [OF assms(1-3)]
  define s1 where "s1 = s\<lparr>te_pending := replicate (2 * BLOCK) 0, te_finishing := True\<rparr>"
  have t: "tar_trailer s = (s1, Inr ())" "c = tar_core s1" "bs = replicate (2 * BLOCK) 0"
    using acc idle by (auto simp: tar_accept_def tar_trailer_index)
      (auto simp: tar_trailer_def tar_staged_def resize_def s1_def split: if_splits)
  obtain s2 out where d: "tar_drain_pending s1 n = (s2, out)" by force
  have z: "te_pending_pos s1 = 0" "\<not> te_done s1" "te_finishing s1" using idle assms(2) by (simp_all add: s1_def)
  then have "te_pending_pos s1 \<le> length (te_pending s1)" by simp
  note facts = tar_drain [OF this d] and sel = tar_core_sel [OF tar_drain(3) [OF this d]]
  have q: "tar_queue s1 = bs" using idle t by (simp add: tar_queue_def s1_def)
  define s3 where "s3 = (if te_pending s2 = [] then s2\<lparr>te_done := True\<rparr> else s2)"
  have run: "tar_enc_step s EncFinish n =
      (s3, Inr (estep 1 (min n (length bs)) (if te_done s3 then EncDone else EncNeedOutput), take n bs))"
    using facts(1,5) q
    by (simp add: tar_enc_step_def tar_enc_finish_def assms(2) idle(1) t(1) d s3_def [symmetric] del: tar_closing)
  have dn: "te_done s3 \<longleftrightarrow> tar_queue s2 = []" "tar_queue s3 = tar_queue s2" "tar_core s3 = c"
    using facts(2,3,4,7) q z t by (simp_all add: s3_def)
  have "tar_enc_inv s3"
    using facts(6,8) sel assms(1) by (simp add: s3_def tar_enc_inv_def) (simp add: s1_def)
  with run dn facts(2) q show ?thesis
    by - (rule exI [of _ s3], rule exI [of _ "if te_done s3 then EncDone else EncNeedOutput"], simp)
qed

lemma tar_data_accepted:
  assumes "tar_enc_inv s" and "\<not> te_done s" and "tar_queue s = []" and "xs \<noteq> []" and "0 < n"
    and acc: "tar_accept (tar_core s) (EncData xs) = Inr (c, bs)"
  shows "\<exists>s' st k p. tar_enc_step s (EncData xs) n = (s', Inr (estep k p st, take p bs)) \<and>
    0 < k \<and> k \<le> length xs \<and> p \<le> length bs \<and>
    tar_enc_inv s' \<and> \<not> te_done s' \<and> tar_queue s' = [] \<and>
    tar_accept (tar_core s') (EncData (drop k xs)) = Inr (c, drop p bs)"
proof -
  note idle = tar_idle [OF assms(1-3)]
  have op: "te_open s" "length xs \<le> te_remaining s" "te_total s + length xs \<le> u64_max"
    "\<not> exceeds (decoded_total (te_limits s)) (te_total s + length xs)"
    and c: "c = s\<lparr>te_sparse_index := 0, te_remaining := te_remaining s - length xs, te_total := te_total s + length xs,
       te_position := te_position s + length xs\<rparr>"
    and bs: "bs = (if te_sparse s = [] then xs else stored_bytes (te_sparse s) (te_position s) xs)"
    using acc idle assms(4) by (auto simp: tar_accept_def split: if_splits)
  define r where "r = (if te_sparse s = [] then
       ((te_sparse_index s, te_position s + min (length xs) n),
        Inr (min (length xs) n, take (min (length xs) n) xs) :: archive_error + nat \<times> bytes)
     else write_sparse_data (te_sparse s) (te_sparse_index s) (te_position s) xs n)"
  obtain i k where r: "r = ((i, te_position s + k), Inr (k, take (length (if te_sparse s = [] then take k xs
        else stored_bytes (te_sparse s) (te_position s) (take k xs))) bs))"
    and k: "0 < k" "k \<le> length xs" "te_sparse s \<noteq> [] \<longrightarrow> cursor_ok (te_sparse s) i (te_position s + k)"
      "te_sparse s = [] \<longrightarrow> i = te_sparse_index s"
  proof (cases "te_sparse s = []")
    case True
    then show thesis using assms(4,5) by (intro that [of "te_sparse_index s" "min (length xs) n"]) (auto simp: r_def bs)
  next
    case False
    have inv: "extents_ok (te_sparse s) (te_position s + te_remaining s)" "te_position s + te_remaining s \<le> u64_max"
      "cursor_ok (te_sparse s) (te_sparse_index s) (te_position s)" using assms(1) False by (auto simp: tar_enc_inv_def)
    obtain i k where w: "sparse_copy (te_sparse s) (te_sparse_index s) (te_position s) xs n 0 [] =
        ((i, te_position s + k), Inr (k, stored_bytes (te_sparse s) (te_position s) (take k xs)))"
      "cursor_ok (te_sparse s) i (te_position s + k)" "k \<le> length xs" "0 < k"
      using sparse_copy_spec [OF inv(1,2) _ inv(3), of xs n 0 "[]"] inv(2) op(2) assms(4,5) by auto
    have "bs = stored_bytes (te_sparse s) (te_position s) (take k xs) @
        stored_bytes (te_sparse s) (te_position s + k) (drop k xs)"
      using False w(3) stored_bytes_append [of "te_sparse s" "te_position s" "take k xs" "drop k xs"] by (simp add: bs)
    with w False show thesis by (intro that [of i k]) (auto simp: r_def write_sparse_data_def)
  qed
  let ?s = "s\<lparr>te_sparse_index := i, te_position := te_position s + k, te_remaining := te_remaining s - k,
      te_total := te_total s + k\<rparr>"
  let ?out = "if te_sparse s = [] then take k xs else stored_bytes (te_sparse s) (te_position s) (take k xs)"
  have split: "bs = ?out @ (if te_sparse s = [] then drop k xs
      else stored_bytes (te_sparse s) (te_position s + k) (drop k xs))"
    using k(2) stored_bytes_append [of "te_sparse s" "te_position s" "take k xs" "drop k xs"] by (simp add: bs)
  have lim: "te_total s + k \<le> u64_max" "\<not> exceeds (decoded_total (te_limits s)) (te_total s + k)"
    using op(3,4) k(2) exceeds_mono [of "decoded_total (te_limits s)" "te_total s + k" "te_total s + length xs"] by auto
  have "tar_enc_data s xs n = (?s, Inr (estep k (length ?out)
      (if k = length xs then EncNeedCommand else EncNeedOutput), ?out))"
    unfolding tar_enc_data_def Let_def r_def [symmetric, unfolded Let_def] r
    using op assms(4,5) lim split by (simp add: checked_add_def)
  then have "tar_enc_step s (EncData xs) n = (?s, Inr (estep k (length ?out)
      (if k = length xs then EncNeedCommand else EncNeedOutput), take (length ?out) bs))"
    using idle assms(2) split by (simp add: tar_enc_step_def)
  moreover have "tar_enc_inv ?s" "\<not> te_done ?s" "tar_queue ?s = []"
    using assms(1-3) k op(2) idle by (simp_all add: tar_enc_inv_def tar_queue_def)
  moreover have "tar_accept (tar_core ?s) (EncData (drop k xs)) = Inr (c, drop (length ?out) bs)"
  proof -
    have core: "tar_core ?s = ?s\<lparr>te_sparse_index := 0\<rparr>" using idle assms(2) by (cases s) (simp add: tar_core_def)
    have rest: "drop (length ?out) bs = (if te_sparse s = [] then drop k xs
      else stored_bytes (te_sparse s) (te_position s + k) (drop k xs))" by (subst split) simp
    show ?thesis
      unfolding core rest using op k(2) idle(3) by (cases s) (auto simp: tar_accept_def c)
  qed
  ultimately show ?thesis using k split by (intro exI conjI) (assumption | simp)+
qed

interpretation tar_enc: archive_encoder tar_enc_step tar_enc_inv tar_core tar_queue te_done te_finishing tar_accept
proof unfold_locales
  fix c c' bs
  assume a: "tar_accept c EncFinish = Inr (c', bs)"
  then show "tar_accept c' EncFinish = Inr (c', [])"
    by (auto simp: tar_accept_def tar_trailer_def tar_staged_def tar_core_def split: if_splits)
next
  fix c cmd c' bs
  assume "te_finishing c" "tar_accept c cmd = Inr (c', bs)"
  then show "cmd = EncFinish" by (simp add: tar_accept_def split: if_splits)
next
  fix c cmd c' bs
  assume "tar_accept c cmd = Inr (c', bs)" "cmd \<noteq> EncFinish"
  then show "\<not> te_finishing c'"
    by (cases cmd) (auto simp: tar_accept_def tar_staged_def tar_core_def dest!: tar_open_frame tar_close_frame
        split: if_splits prod.splits sum.splits)
next
  fix c c' bs
  assume "tar_accept c (EncData []) = Inr (c', bs)"
  then show "c' = c \<and> bs = []" by (auto simp: tar_accept_def split: if_splits)
qed (rule tar_step_drains tar_control_accepted tar_data_accepted tar_finish_accepted; assumption)+

end
