(* ===== verification/Oxide_Path.thy ===== *)
theory Oxide_Path
  imports Oxide_Metadata "HOL-Library.Sublist"
begin

text \<open>
  Host paths: \<open>libarchive_oxide/src/path.rs\<close>. A Unix \<open>PathBuf\<close> is a byte string, and
  \<open>path_components\<close> is \<open>Path::components\<close> of the standard library on it. \<open>sanitize\<close> is the
  gate every archive name passes before it becomes a destination, \<open>DestinationClaims\<close> the record
  of the destinations a planner has already given away.

  The Windows variants work on text, a list of code points. Unicode normalisation comes from a
  third-party crate and upper-casing from the Unicode tables, so both are parameters.
\<close>

section \<open>Paths of the standard library\<close>

fun split_by :: "('a \<Rightarrow> bool) \<Rightarrow> 'a list \<Rightarrow> 'a list list" where
  "split_by P [] = [[]]"
| "split_by P (b # bs) =
     (if P b then [] # split_by P bs
      else (case split_by P bs of seg # segs \<Rightarrow> (b # seg) # segs | [] \<Rightarrow> [[b]]))"

abbreviation is_slash :: "byte \<Rightarrow> bool" where
  "is_slash b \<equiv> b = 47"

datatype component = RootDir | CurDir | ParentDir | Normal bytes

fun is_Normal :: "component \<Rightarrow> bool" where
  "is_Normal (Normal c) = True"
| "is_Normal _ = False"

definition component_of :: "bytes \<Rightarrow> component option" where
  "component_of seg =
     (if seg = [] \<or> seg = ascii ''.'' then None
      else if seg = ascii ''..'' then Some ParentDir
      else Some (Normal seg))"

definition path_components :: "bytes \<Rightarrow> component list" where
  \<comment> \<open>a leading dot is reported, every later one is skipped\<close>
  "path_components p =
     (if starts_with p (ascii ''/'') then [RootDir]
      else if hd (split_by is_slash p) = ascii ''.'' then [CurDir]
      else []) @ List.map_filter component_of (split_by is_slash p)"

definition path_push :: "bytes \<Rightarrow> bytes \<Rightarrow> bytes" where
  "path_push buf p =
     (if starts_with p (ascii ''/'') then p
      else if buf = [] \<or> last buf = 47 then buf @ p
      else buf @ [47] @ p)"

section \<open>Sanitising archive names\<close>

fun sanitize_loop :: "bytes list \<Rightarrow> bytes \<Rightarrow> bool \<Rightarrow> (bytes \<times> bool) option" where
  "sanitize_loop [] out pushed = Some (out, pushed)"
| "sanitize_loop (c # cs) out pushed =
     (if c = [] \<or> c = ascii ''.'' then sanitize_loop cs out pushed
      else if c = ascii ''..'' then None
      else sanitize_loop cs (path_push out c) True)"

definition sanitize :: "bytes \<Rightarrow> bytes option" where
  "sanitize raw =
     (if starts_with raw (ascii ''/'') \<or> 0 \<in> set raw then None
      else (case sanitize_loop (split_by is_slash raw) [] False of
              None \<Rightarrow> None
            | Some (out, pushed) \<Rightarrow> if pushed then Some out else None))"

type_synonym utext = "nat list"

text \<open>\<open>String::from_utf16\<close> and \<open>str::as_bytes\<close>.\<close>

fun from_utf16 :: "nat list \<Rightarrow> utext option" where
  "from_utf16 [] = Some []"
| "from_utf16 (u # us) =
     (if u < 0xd800 \<or> 0xdfff < u then map_option ((#) u) (from_utf16 us)
      else if 0xdc00 \<le> u then None
      else (case us of
              v # vs \<Rightarrow>
                if 0xdc00 \<le> v \<and> v \<le> 0xdfff
                then map_option ((#) (0x10000 + (u - 0xd800) * 0x400 + (v - 0xdc00))) (from_utf16 vs)
                else None
            | [] \<Rightarrow> None))"

definition utf8_char :: "nat \<Rightarrow> bytes" where
  "utf8_char c =
     (if c < 0x80 then [of_nat c]
      else if c < 0x800 then [of_nat (0xc0 + c div 64), of_nat (0x80 + c mod 64)]
      else if c < 0x10000 then
        [of_nat (0xe0 + c div 4096), of_nat (0x80 + c div 64 mod 64), of_nat (0x80 + c mod 64)]
      else
        [of_nat (0xf0 + c div 262144), of_nat (0x80 + c div 4096 mod 64),
         of_nat (0x80 + c div 64 mod 64), of_nat (0x80 + c mod 64)])"

definition utf8_bytes :: "utext \<Rightarrow> bytes" where
  "utf8_bytes t = concat (map utf8_char t)"

definition sanitize_archive_path :: "archive_path \<Rightarrow> bytes option" where
  "sanitize_archive_path p =
     (case ap_encoding p of
        EncBytes \<Rightarrow> sanitize (ap_raw p)
      | EncUtf8 \<Rightarrow> sanitize (ap_raw p)
      | EncUtf16Le \<Rightarrow>
          let (units, remainder) = le_units (ap_raw p) in
          if remainder \<noteq> [] then None
          else (case from_utf16 units of None \<Rightarrow> None | Some t \<Rightarrow> sanitize (utf8_bytes t)))"

section \<open>Windows names\<close>

definition chars :: "string \<Rightarrow> utext" where
  "chars s = map of_char s"

definition ascii_upper :: "nat \<Rightarrow> nat" where
  "ascii_upper c = (if 97 \<le> c \<and> c \<le> 122 then c - 32 else c)"

definition eq_ignore_ascii_case :: "utext \<Rightarrow> utext \<Rightarrow> bool" where
  "eq_ignore_ascii_case a b \<longleftrightarrow> map ascii_upper a = map ascii_upper b"

definition RESERVED_DEVICES :: "utext list" where
  "RESERVED_DEVICES = map chars [''CON'', ''PRN'', ''AUX'', ''NUL'', ''CONIN$'', ''CONOUT$'', ''CLOCK$'']"

definition device_stem :: "utext \<Rightarrow> utext" where
  "device_stem part =
     rev (dropWhile (\<lambda>c. c = 32 \<or> c = 46) (rev (hd (split_by (\<lambda>c. c = 46) part))))"

definition is_numbered :: "utext \<Rightarrow> utext \<Rightarrow> bool" where
  "is_numbered stem pre \<longleftrightarrow>
     eq_ignore_ascii_case (take (length pre) stem) pre \<and>
     (case drop (length pre) stem of
        [c] \<Rightarrow> (49 \<le> c \<and> c \<le> 57) \<or> c = 0xb9 \<or> c = 0xb2 \<or> c = 0xb3
      | _ \<Rightarrow> False)"

definition is_reserved_device_name :: "utext \<Rightarrow> bool" where
  "is_reserved_device_name part \<longleftrightarrow>
     (\<exists>r \<in> set RESERVED_DEVICES. eq_ignore_ascii_case (device_stem part) r) \<or>
     is_numbered (device_stem part) (chars ''COM'') \<or> is_numbered (device_stem part) (chars ''LPT'')"

definition windows_component_identity :: "(utext \<Rightarrow> utext) \<Rightarrow> (nat \<Rightarrow> utext) \<Rightarrow> utext \<Rightarrow> utext option" where
  "windows_component_identity nfc to_uppercase part =
     (if part = [] \<or> last part = 46 \<or> last part = 32 \<or>
         (\<exists>c \<in> set part. c \<le> 0x1f \<or> c \<in> set (chars ''<>\":|?*'')) \<or>
         is_reserved_device_name part
      then None
      else Some (nfc (concat (map to_uppercase (nfc part)))))"

fun text_loop :: "(utext \<Rightarrow> utext option) \<Rightarrow> utext list \<Rightarrow> utext list \<Rightarrow> utext list option" where
  "text_loop identity [] out = (if out = [] then None else Some out)"
| "text_loop identity (p # ps) out =
     (if p = [] \<or> p = chars ''.'' then text_loop identity ps out
      else if p = chars ''..'' then None
      else if identity p = None then None
      else text_loop identity ps (out @ [p]))"

definition sanitize_text :: "(utext \<Rightarrow> utext option) \<Rightarrow> utext \<Rightarrow> utext list option" where
  "sanitize_text identity t =
     (if (t \<noteq> [] \<and> (hd t = 47 \<or> hd t = 92)) \<or> 0 \<in> set t then None
      else text_loop identity (split_by (\<lambda>c. c = 47 \<or> c = 92) t) [])"

section \<open>Destinations and claims\<close>

record destination_key =
  dk_path :: bytes

definition dk_identity :: "destination_key \<Rightarrow> component list" where
  \<comment> \<open>Unix paths compare by their components\<close>
  "dk_identity k = path_components (dk_path k)"

definition from_relative_path :: "bytes \<Rightarrow> destination_key option" where
  "from_relative_path p =
     (if p = [] \<or> \<not> list_all is_Normal (path_components p) then None else Some \<lparr>dk_path = p\<rparr>)"

definition from_archive_path :: "archive_path \<Rightarrow> destination_key option" where
  "from_archive_path p = Option.bind (sanitize_archive_path p) from_relative_path"

text \<open>The identities of the proper ancestors, nearest first.\<close>

definition ancestors :: "'k list \<Rightarrow> 'k list list" where
  "ancestors k = rev (map (\<lambda>n. take n k) [1..<length k])"

record 'k destination_claims =
  dc_claimed :: "'k list set"
  dc_directory_prefixes :: "'k list set"
  dc_non_directories :: "'k list set"

definition claims_default :: "'k destination_claims" where
  "claims_default = \<lparr>dc_claimed = {}, dc_directory_prefixes = {}, dc_non_directories = {}\<rparr>"

definition claim :: "'k destination_claims \<Rightarrow> 'k list \<Rightarrow> entry_kind \<Rightarrow> 'k destination_claims \<times> bool" where
  "claim c k kind =
     (if k \<in> dc_claimed c \<or> (\<exists>a \<in> set (ancestors k). a \<in> dc_non_directories c) \<or>
         (kind \<noteq> KindDir \<and> k \<in> dc_directory_prefixes c)
      then (c, False)
      else
        (c\<lparr>dc_claimed := insert k (dc_claimed c),
           dc_directory_prefixes := dc_directory_prefixes c \<union> set (ancestors k),
           dc_non_directories :=
             (if kind \<noteq> KindDir then insert k (dc_non_directories c) else dc_non_directories c)\<rparr>, True))"

section \<open>What sanitising guarantees\<close>

text \<open>Following a path from a directory, the directory written as the names from the root.\<close>

fun resolve :: "bytes list \<Rightarrow> component list \<Rightarrow> bytes list" where
  "resolve dir [] = dir"
| "resolve dir (RootDir # cs) = resolve [] cs"
| "resolve dir (CurDir # cs) = resolve dir cs"
| "resolve dir (ParentDir # cs) = resolve (butlast dir) cs"
| "resolve dir (Normal c # cs) = resolve (dir @ [c]) cs"

definition safe_name :: "bytes \<Rightarrow> bool" where
  "safe_name c \<longleftrightarrow> c \<noteq> [] \<and> c \<noteq> ascii ''.'' \<and> c \<noteq> ascii ''..'' \<and> 47 \<notin> set c \<and> 0 \<notin> set c"

definition plain_segment :: "bytes \<Rightarrow> bool" where
  "plain_segment c \<longleftrightarrow> c \<noteq> [] \<and> c \<noteq> ascii ''.'' \<and> c \<noteq> ascii ''..''"

lemma split_by_not_Nil [simp]: "split_by P xs \<noteq> []"
  by (induction xs) (auto split: list.splits)

lemma split_by_sep: "seg \<in> set (split_by P xs) \<Longrightarrow> x \<in> set seg \<Longrightarrow> \<not> P x \<and> x \<in> set xs"
proof (induction xs arbitrary: seg)
  case (Cons b bs)
  from Cons.IH [of "hd (split_by P bs)"] Cons.IH Cons.prems show ?case
    by (cases "split_by P bs") (auto split: if_splits)
qed simp

lemma split_by_solid: "\<forall>x \<in> set xs. \<not> P x \<Longrightarrow> split_by P xs = [xs]"
  by (induction xs) auto

lemma split_by_append:
  "\<forall>x \<in> set xs. \<not> P x \<Longrightarrow> P s \<Longrightarrow> split_by P (xs @ s # ys) = xs # split_by P ys"
  by (induction xs) auto

fun spell :: "bytes list \<Rightarrow> bytes" where
  "spell [] = []"
| "spell [c] = c"
| "spell (c # cs) = c @ [47] @ spell cs"

lemma spell_Cons: "spell (c # cs) = (if cs = [] then c else c @ [47] @ spell cs)"
  by (cases cs) auto

lemma split_spell:
  "cs \<noteq> [] \<Longrightarrow> \<forall>c \<in> set cs. 47 \<notin> set c \<Longrightarrow> split_by is_slash (spell cs) = cs"
proof (induction cs rule: spell.induct)
  case (2 c)
  then show ?case using split_by_solid [of c is_slash] by auto
next
  case (3 c d ds)
  then show ?case using split_by_append [of c is_slash 47 "spell (d # ds)"] by auto
qed simp

lemma spell_last: "\<forall>c \<in> set cs. c \<noteq> [] \<Longrightarrow> cs \<noteq> [] \<Longrightarrow> spell cs \<noteq> [] \<and> last (spell cs) = last (last cs)"
  by (induction cs rule: spell.induct) (auto simp: last_append)

lemma spell_snoc: "cs \<noteq> [] \<Longrightarrow> spell (cs @ [c]) = spell cs @ [47] @ c"
  by (induction cs rule: spell.induct) (auto simp: spell_Cons)

lemma push_spell:
  assumes "\<forall>x \<in> set cs. safe_name x" and "safe_name c"
  shows "path_push (spell cs) c = spell (cs @ [c])"
proof -
  have c: "\<not> starts_with c (ascii ''/'')"
    using assms(2) by (cases c) (auto simp: starts_with_def ascii_def safe_name_def)
  show ?thesis
  proof (cases "cs = []")
    case True
    with c show ?thesis by (simp add: path_push_def)
  next
    case False
    then have "last (spell cs) = last (last cs)" "spell cs \<noteq> []"
      using spell_last [of cs] assms(1) by (auto simp: safe_name_def)
    moreover have "last (last cs) \<noteq> 47"
      using False assms(1) by (metis last_in_set safe_name_def)
    ultimately show ?thesis using c False by (simp add: path_push_def spell_snoc)
  qed
qed

lemma sanitize_loop_exact:
  assumes "\<forall>c \<in> set segs. 47 \<notin> set c \<and> 0 \<notin> set c" and "\<forall>c \<in> set done. safe_name c"
  shows "sanitize_loop segs (spell done) pushed =
    (if ascii ''..'' \<in> set segs then None
     else Some (spell (done @ filter plain_segment segs), pushed \<or> filter plain_segment segs \<noteq> []))"
  using assms
proof (induction segs arbitrary: "done" pushed)
  case (Cons c segs)
  show ?case
  proof (cases "plain_segment c")
    case True
    with Cons.prems have "safe_name c" by (simp add: safe_name_def plain_segment_def)
    moreover have "c \<noteq> []" "c \<noteq> ascii ''.''" "c \<noteq> ascii ''..''" using True by (simp_all add: plain_segment_def)
    ultimately show ?thesis
      using Cons True by (auto simp: push_spell [OF Cons.prems(2)])
  next
    case False
    then consider "c = [] \<or> c = ascii ''.''" | "c = ascii ''..''" by (auto simp: plain_segment_def)
    then show ?thesis using Cons False by cases (simp_all, auto simp: ascii_def)
  qed
qed simp

lemma components_plain:
  "ascii ''..'' \<notin> set segs \<Longrightarrow> List.map_filter component_of segs = map Normal (filter plain_segment segs)"
  by (induction segs) (auto simp: List.map_filter_simps component_of_def plain_segment_def)

lemma parent_component:
  "ascii ''..'' \<in> set segs \<Longrightarrow> ParentDir \<in> set (List.map_filter component_of segs)"
proof (induction segs)
  case (Cons c segs)
  have "component_of (ascii ''..'') = Some ParentDir" by (simp add: component_of_def ascii_def)
  with Cons show ?case by (auto simp: List.map_filter_simps split: option.splits)
qed simp

lemma sanitize_eq:
  "sanitize raw =
    (if starts_with raw (ascii ''/'') \<or> 0 \<in> set raw \<or> ascii ''..'' \<in> set (split_by is_slash raw) \<or>
        filter plain_segment (split_by is_slash raw) = []
     then None else Some (spell (filter plain_segment (split_by is_slash raw))))"
proof (cases "0 \<in> set raw")
  case False
  then have "\<forall>c \<in> set (split_by is_slash raw). 47 \<notin> set c \<and> 0 \<notin> set c"
    using split_by_sep by fastforce
  from sanitize_loop_exact [OF this, of "[]" False] show ?thesis by (simp add: sanitize_def)
qed (simp add: sanitize_def)

lemma path_components_spell:
  assumes "cs \<noteq> []" and "\<forall>c \<in> set cs. safe_name c"
  shows "path_components (spell cs) = map Normal cs"
proof -
  have s: "split_by is_slash (spell cs) = cs"
    using assms by (intro split_spell) (auto simp: safe_name_def)
  have "component_of c = Some (Normal c)" if "c \<in> set cs" for c
    using assms that by (auto simp: component_of_def safe_name_def)
  then have "List.map_filter component_of cs = map Normal cs"
    by (induction cs) (auto simp: List.map_filter_simps)
  moreover have "hd cs \<noteq> ascii ''.''" using assms by (metis hd_in_set safe_name_def)
  moreover have "\<not> starts_with (spell cs) (ascii ''/'')"
  proof -
    obtain c ds where cs: "cs = c # ds" using assms(1) by (cases cs) auto
    with assms(2) obtain x xs where "c = x # xs" "x \<noteq> 47" by (cases c) (auto simp: safe_name_def)
    with cs show ?thesis by (auto simp: starts_with_def ascii_def spell_Cons)
  qed
  ultimately show ?thesis by (simp add: path_components_def s)
qed

lemma resolve_normals: "resolve dir (map Normal cs) = dir @ cs"
  by (induction cs arbitrary: dir) auto

lemma safe_segments:
  "0 \<notin> set raw \<Longrightarrow> \<forall>c \<in> set (filter plain_segment (split_by is_slash raw)). safe_name c"
  using split_by_sep by (fastforce simp: plain_segment_def safe_name_def)

lemma sanitize_Some:
  assumes "sanitize raw = Some p"
  obtains cs where "cs \<noteq> []" "list_all safe_name cs" "path_components p = map Normal cs"
    "resolve root (path_components p) = root @ cs" "resolve root (path_components raw) = root @ cs"
    "set (path_components raw) \<subseteq> insert CurDir (Normal ` set cs)" "0 \<notin> set raw"
proof -
  let ?cs = "filter plain_segment (split_by is_slash raw)"
  from assms have raw: "\<not> starts_with raw (ascii ''/'')" "0 \<notin> set raw"
    "ascii ''..'' \<notin> set (split_by is_slash raw)" "?cs \<noteq> []" and p: "p = spell ?cs"
    by (auto simp: sanitize_eq split: if_splits)
  have comps: "path_components p = map Normal ?cs"
    unfolding p by (rule path_components_spell [OF raw(4) safe_segments [OF raw(2)]])
  have "resolve root (path_components raw) = root @ ?cs"
    by (simp add: path_components_def raw(1) components_plain [OF raw(3)] resolve_normals)
  moreover have "set (path_components raw) \<subseteq> insert CurDir (Normal ` set ?cs)"
    by (auto simp: path_components_def raw(1) components_plain [OF raw(3)])
  moreover have "list_all safe_name ?cs" using safe_segments [OF raw(2)] by (simp add: list_all_iff)
  ultimately show thesis using that [OF raw(4)] comps raw(2) by (simp add: resolve_normals)
qed

text \<open>
  C17. \<open>sanitize\<close> confines every archive name it accepts and refuses no other. An accepted name
  becomes a path whose components are all ordinary names (not empty, no dots, no separator, no NUL),
  and following it from any directory leads to exactly those names below that directory; following
  the name as the archive spells it leads to the same place, so sanitising changes no meaning. A name
  is refused exactly when it is absolute, contains a NUL or a parent component, or names nothing.
\<close>

theorem sanitize_confines:
  "case sanitize raw of
     Some p \<Rightarrow> \<exists>cs. cs \<noteq> [] \<and> list_all safe_name cs \<and> path_components p = map Normal cs \<and>
       resolve root (path_components p) = root @ cs \<and> resolve root (path_components raw) = root @ cs \<and>
       set (path_components raw) \<subseteq> insert CurDir (Normal ` set cs) \<and> 0 \<notin> set raw
   | None \<Rightarrow> RootDir \<in> set (path_components raw) \<or> 0 \<in> set raw \<or> ParentDir \<in> set (path_components raw) \<or>
       (\<forall>c. Normal c \<notin> set (path_components raw))"
proof (cases "sanitize raw")
  case None
  then consider "starts_with raw (ascii ''/'')" | "0 \<in> set raw" | "ascii ''..'' \<in> set (split_by is_slash raw)" |
    "ascii ''..'' \<notin> set (split_by is_slash raw)" "filter plain_segment (split_by is_slash raw) = []"
    by (auto simp: sanitize_eq split: if_splits)
  then have "RootDir \<in> set (path_components raw) \<or> 0 \<in> set raw \<or> ParentDir \<in> set (path_components raw) \<or>
      (\<forall>c. Normal c \<notin> set (path_components raw))"
    by cases (auto simp: path_components_def parent_component components_plain)
  with None show ?thesis by simp
next
  case (Some p)
  show ?thesis
    unfolding Some option.case by (rule sanitize_Some [OF Some, of root]) blast
qed

lemma from_archive_path_safe:
  assumes "from_archive_path p = Some k"
  obtains cs where "cs \<noteq> []" "list_all safe_name cs" "dk_identity k = map Normal cs"
    "path_components (dk_path k) = map Normal cs"
proof -
  from assms obtain q where q: "sanitize_archive_path p = Some q" "dk_path k = q"
    by (auto simp: from_archive_path_def from_relative_path_def bind_eq_Some_conv split: if_splits)
  then obtain raw where "sanitize raw = Some q"
    by (auto simp: sanitize_archive_path_def split: path_encoding.splits prod.splits if_splits option.splits)
  from sanitize_Some [OF this] that q show thesis by (metis dk_identity_def)
qed

section \<open>What sanitising guarantees on Windows\<close>

text \<open>
  The names Win32 treats as devices, written out: the consoles, the printer, the auxiliary and the
  null device, the clock, and the nine serial and nine parallel ports, which the superscript digits
  one, two and three (\<open>0xb9\<close>, \<open>0xb2\<close>, \<open>0xb3\<close>) name as well.
\<close>

definition WIN32_DEVICES :: "utext list" where
  "WIN32_DEVICES =
     map chars [''CON'', ''PRN'', ''AUX'', ''NUL'', ''CONIN$'', ''CONOUT$'', ''CLOCK$'',
       ''COM1'', ''COM2'', ''COM3'', ''COM4'', ''COM5'', ''COM6'', ''COM7'', ''COM8'', ''COM9'',
       ''LPT1'', ''LPT2'', ''LPT3'', ''LPT4'', ''LPT5'', ''LPT6'', ''LPT7'', ''LPT8'', ''LPT9''] @
     [chars ''COM'' @ [0xb9], chars ''COM'' @ [0xb2], chars ''COM'' @ [0xb3],
      chars ''LPT'' @ [0xb9], chars ''LPT'' @ [0xb2], chars ''LPT'' @ [0xb3]]"

text \<open>
  The device is opened instead of a file when the name, in any case, is that of the device, followed
  by any number of spaces and then by nothing or by an extension.
\<close>

definition opens_device :: "utext \<Rightarrow> bool" where
  "opens_device name \<longleftrightarrow>
     (\<exists>d \<in> set WIN32_DEVICES. let u = map ascii_upper name; rest = dropWhile (\<lambda>c. c = 32) (drop (length d) u) in
        take (length d) u = d \<and> (rest = [] \<or> hd rest = 46))"

text \<open>A component that names the object it spells: no part of it is syntax, nothing is stripped, no device.\<close>

definition win32_literal :: "utext \<Rightarrow> bool" where
  "win32_literal p \<longleftrightarrow>
     p \<noteq> [] \<and> (\<forall>c \<in> set p. 32 \<le> c \<and> c \<notin> {47, 92, 58, 42, 63, 34, 60, 62, 124}) \<and>
     last p \<noteq> 46 \<and> last p \<noteq> 32 \<and> \<not> opens_device p"

lemma ascii_upper_special [simp]: "ascii_upper c = 46 \<longleftrightarrow> c = 46" "ascii_upper c = 32 \<longleftrightarrow> c = 32"
  by (auto simp: ascii_upper_def)

lemma hd_split_by: "hd (split_by P xs) = takeWhile (\<lambda>c. \<not> P c) xs"
proof (induction xs)
  case (Cons x xs)
  then show ?case by (cases "split_by P xs") auto
qed simp

lemma trim_eq:
  assumes "d \<noteq> []" and "\<not> P (last d)"
  shows "rev (dropWhile P (rev xs)) = d \<longleftrightarrow> (\<exists>ys. xs = d @ ys \<and> (\<forall>y \<in> set ys. P y))"
proof
  assume d: "rev (dropWhile P (rev xs)) = d"
  have "xs = rev (dropWhile P (rev xs)) @ rev (takeWhile P (rev xs))"
    by (metis rev_append rev_rev_ident takeWhile_dropWhile_id)
  with d show "\<exists>ys. xs = d @ ys \<and> (\<forall>y \<in> set ys. P y)" using set_takeWhileD by fastforce
next
  assume "\<exists>ys. xs = d @ ys \<and> (\<forall>y \<in> set ys. P y)"
  then obtain ys where ys: "xs = d @ ys" "\<forall>y \<in> set ys. P y" by blast
  have "dropWhile P (rev d) = rev d" using assms by (cases "rev d") (auto simp: last_rev hd_rev)
  then have "dropWhile P (rev ys @ rev d) = rev d" using ys(2) by (subst dropWhile_append2) auto
  then show "rev (dropWhile P (rev xs)) = d" using ys(1) by simp
qed

text \<open>The stem the code compares is the name up to its extension and without trailing spaces.\<close>

lemma upper_stem: "map ascii_upper (device_stem name) =
  rev (dropWhile (\<lambda>c. c = 32) (rev (takeWhile (\<lambda>c. c \<noteq> 46) (map ascii_upper name))))"
proof -
  let ?t = "takeWhile (\<lambda>c. c \<noteq> 46) name"
  have "dropWhile (\<lambda>c. c = 32 \<or> c = 46) (rev ?t) = dropWhile (\<lambda>c. c = 32) (rev ?t)"
    by (rule dropWhile_cong) (auto dest: set_takeWhileD)
  moreover have "takeWhile (\<lambda>c. c \<noteq> 46) (map ascii_upper name) = map ascii_upper ?t" by (simp add: takeWhile_map o_def)
  ultimately show ?thesis by (simp add: device_stem_def hd_split_by dropWhile_map o_def rev_map)
qed

lemma stem_device:
  assumes "d \<noteq> []" and "46 \<notin> set d" and "last d \<noteq> 32"
  shows "map ascii_upper (device_stem name) = d \<longleftrightarrow>
    (let u = map ascii_upper name; rest = dropWhile (\<lambda>c. c = 32) (drop (length d) u) in
       take (length d) u = d \<and> (rest = [] \<or> hd rest = 46))"
proof -
  define u where "u = map ascii_upper name"
  have "(\<exists>ys. takeWhile (\<lambda>c. c \<noteq> 46) u = d @ ys \<and> (\<forall>y \<in> set ys. y = 32)) \<longleftrightarrow>
      take (length d) u = d \<and> (dropWhile (\<lambda>c. c = 32) (drop (length d) u) = [] \<or> hd (dropWhile (\<lambda>c. c = 32) (drop (length d) u)) = 46)"
    (is "?L \<longleftrightarrow> ?R")
  proof
    assume ?L
    then obtain ys where ys: "takeWhile (\<lambda>c. c \<noteq> 46) u = d @ ys" "\<forall>y \<in> set ys. y = 32" by blast
    obtain rest where u: "u = d @ ys @ rest" and rest: "rest = [] \<or> hd rest = 46"
      using takeWhile_dropWhile_id [of "\<lambda>c. c \<noteq> 46" u] hd_dropWhile [of "\<lambda>c. c \<noteq> 46" u] ys(1) by (metis append.assoc)
    have "dropWhile (\<lambda>c. c = 32) (ys @ rest) = rest"
      using ys(2) rest by (subst dropWhile_append2) (auto simp: neq_Nil_conv, cases rest, auto)
    with rest u show ?R by simp
  next
    assume r: ?R
    let ?v = "drop (length d) u"
    have u: "u = d @ ?v" using r by (metis append_take_drop_id)
    have v: "?v = takeWhile (\<lambda>c. c = 32) ?v @ dropWhile (\<lambda>c. c = 32) ?v" by simp
    have "takeWhile (\<lambda>c. c \<noteq> 46) rest = []" if "rest = [] \<or> hd rest = 46" for rest :: utext
      using that by (cases rest) auto
    then have tw: "takeWhile (\<lambda>c. c \<noteq> 46) (dropWhile (\<lambda>c. c = 32) ?v) = []" using r by blast
    have "takeWhile (\<lambda>c. c \<noteq> 46) ?v = takeWhile (\<lambda>c. c = 32) ?v"
      using tw by (subst v, subst takeWhile_append2) (auto dest: set_takeWhileD)
    then have "takeWhile (\<lambda>c. c \<noteq> 46) u = d @ takeWhile (\<lambda>c. c = 32) ?v"
      using assms(2) by (subst u, subst takeWhile_append2) auto
    then show ?L by (auto dest: set_takeWhileD)
  qed
  with trim_eq [OF assms(1), of "\<lambda>c. c = 32" "takeWhile (\<lambda>c. c \<noteq> 46) u"] assms(3) show ?thesis
    by (simp add: upper_stem u_def Let_def)
qed

lemma devices_plain: "d \<in> set WIN32_DEVICES \<Longrightarrow> d \<noteq> [] \<and> 46 \<notin> set d \<and> last d \<noteq> 32"
  by (auto simp: WIN32_DEVICES_def chars_def)

lemma numbered_iff:
  assumes "map ascii_upper pre = pre"
  shows "is_numbered stem pre \<longleftrightarrow> map ascii_upper stem \<in> (\<lambda>c. pre @ [c]) ` ({49..57} \<union> {0xb9, 0xb2, 0xb3})"
proof -
  have up: "ascii_upper c \<in> {49..57} \<union> {0xb9, 0xb2, 0xb3} \<longleftrightarrow> c \<in> {49..57} \<union> {0xb9, 0xb2, 0xb3}"
    "c \<in> {49..57} \<union> {0xb9, 0xb2, 0xb3} \<Longrightarrow> ascii_upper c = c" for c by (auto simp: ascii_upper_def)
  show ?thesis
  proof (cases "\<exists>c. drop (length pre) stem = [c]")
    case True
    then obtain c where c: "drop (length pre) stem = [c]" by blast
    then have s: "stem = take (length pre) stem @ [c]" by (metis append_take_drop_id)
    have len: "length (take (length pre) stem) = length pre" using c by (auto simp: min_def)
    have "map ascii_upper stem = map ascii_upper (take (length pre) stem) @ [ascii_upper c]" by (subst s) simp
    then have "map ascii_upper stem \<in> (\<lambda>c. pre @ [c]) ` ({49..57} \<union> {0xb9, 0xb2, 0xb3}) \<longleftrightarrow>
        map ascii_upper (take (length pre) stem) = pre \<and> ascii_upper c \<in> {49..57} \<union> {0xb9, 0xb2, 0xb3}"
      using len by auto
    then show ?thesis using assms up(1) [of c] c by (auto simp: is_numbered_def eq_ignore_ascii_case_def)
  next
    case False
    then have "\<not> is_numbered stem pre" by (auto simp: is_numbered_def split: list.splits)
    moreover have "map ascii_upper stem \<noteq> pre @ [c]" for c
    proof
      assume "map ascii_upper stem = pre @ [c]"
      then have "length (drop (length pre) stem) = 1" by (metis length_map length_drop length_append_singleton add_diff_cancel_left' plus_1_eq_Suc add.commute)
      with False show False by (metis One_nat_def length_0_conv length_Suc_conv)
    qed
    ultimately show ?thesis by auto
  qed
qed

lemma devices_set:
  "set WIN32_DEVICES = set RESERVED_DEVICES \<union> (\<lambda>c. chars ''COM'' @ [c]) ` ({49..57} \<union> {0xb9, 0xb2, 0xb3}) \<union>
     (\<lambda>c. chars ''LPT'' @ [c]) ` ({49..57} \<union> {0xb9, 0xb2, 0xb3})"
proof -
  have "{49..57 :: nat} = {49, 50, 51, 52, 53, 54, 55, 56, 57}" by auto
  then show ?thesis unfolding WIN32_DEVICES_def RESERVED_DEVICES_def chars_def by auto
qed

lemma reserved_iff: "is_reserved_device_name part \<longleftrightarrow> opens_device part"
proof -
  have upper: "map ascii_upper (chars ''COM'') = chars ''COM''" "map ascii_upper (chars ''LPT'') = chars ''LPT''"
    "r \<in> set RESERVED_DEVICES \<Longrightarrow> map ascii_upper r = r" for r
    by (auto simp: chars_def ascii_upper_def RESERVED_DEVICES_def)
  have "opens_device part \<longleftrightarrow> map ascii_upper (device_stem part) \<in> set WIN32_DEVICES"
    using stem_device devices_plain unfolding opens_device_def by metis
  also have "\<dots> \<longleftrightarrow> is_reserved_device_name part"
    unfolding is_reserved_device_name_def numbered_iff [OF upper(1)] numbered_iff [OF upper(2)] devices_set eq_ignore_ascii_case_def
    using upper(3) by auto
  finally show ?thesis by simp
qed

lemma text_loop_exact:
  "text_loop identity ps out =
     (let cs = filter (\<lambda>p. p \<noteq> [] \<and> p \<noteq> chars ''.'') ps in
      if (\<exists>c \<in> set cs. c = chars ''..'' \<or> identity c = None) \<or> out @ cs = [] then None else Some (out @ cs))"
  by (induction ps arbitrary: out) (auto simp: Let_def)

lemma identity_literal:
  assumes "\<forall>c \<in> set p. c \<noteq> 47 \<and> c \<noteq> 92"
  shows "windows_component_identity nfc to_uppercase p \<noteq> None \<longleftrightarrow> win32_literal p"
proof -
  have le: "c \<le> 0x1f \<longleftrightarrow> \<not> 32 \<le> c" for c :: nat by arith
  have "set (chars ''<>\":|?*'') = {58, 42, 63, 34, 60, 62, 124}" by (auto simp: chars_def)
  then have "(\<exists>c \<in> set p. c \<le> 0x1f \<or> c \<in> set (chars ''<>\":|?*'')) \<longleftrightarrow>
      \<not> (\<forall>c \<in> set p. 32 \<le> c \<and> c \<notin> {47, 92, 58, 42, 63, 34, 60, 62, 124})"
    using assms le by auto
  then show ?thesis
    unfolding windows_component_identity_def win32_literal_def reserved_iff by simp
qed

text \<open>
  C19. On Windows a name is accepted exactly when every component is one the Win32 layer opens
  literally, and then its components are the non-empty ones other than the dot, in order. Refused are
  names that start with a separator, contain NUL or name nothing, and names with a component that has
  a colon, wildcard, quote, angle bracket, bar or control character, ends in a dot or a space (so also
  the parent directory) or opens a device: one of the device names written out above, in any case,
  with spaces and an extension after it or not. This holds for whatever normalisation and
  upper-casing tables are linked in.
\<close>

theorem windows_sanitize_exact:
  "sanitize_text (windows_component_identity nfc to_uppercase) t =
     (let cs = filter (\<lambda>c. c \<noteq> [] \<and> c \<noteq> chars ''.'') (split_by (\<lambda>c. c = 47 \<or> c = 92) t) in
      if t \<noteq> [] \<and> hd t \<in> {47, 92} then None
      else if 0 \<in> set t then None
      else if cs \<noteq> [] \<and> list_all win32_literal cs then Some cs
      else None)"
proof -
  let ?segs = "split_by (\<lambda>c. c = 47 \<or> c = 92) t"
  have id: "windows_component_identity nfc to_uppercase p = None \<longleftrightarrow> \<not> win32_literal p" if "p \<in> set ?segs" for p
    using identity_literal [of p nfc to_uppercase] split_by_sep [OF that] by blast
  have "\<not> win32_literal (chars ''..'')" by (simp add: win32_literal_def chars_def)
  with id show ?thesis
    by (auto simp: sanitize_text_def text_loop_exact Let_def list_all_iff)
qed

section \<open>What the claims guarantee\<close>

text \<open>
  Two requests are compatible when the directory tree can hold both: they differ, and one lies
  below the other only if the upper one is a directory.
\<close>

definition compatible :: "'k list \<times> entry_kind \<Rightarrow> 'k list \<times> entry_kind \<Rightarrow> bool" where
  "compatible r q \<longleftrightarrow> fst r \<noteq> fst q \<and>
     (strict_prefix (fst r) (fst q) \<longrightarrow> snd r = KindDir) \<and> (strict_prefix (fst q) (fst r) \<longrightarrow> snd q = KindDir)"

fun claim_all :: "'k destination_claims \<Rightarrow> ('k list \<times> entry_kind) list \<Rightarrow> bool list" where
  "claim_all c [] = []"
| "claim_all c ((k, kind) # rs) = (case claim c k kind of (c', ok) \<Rightarrow> ok # claim_all c' rs)"

text \<open>The reference: a request is granted when it is compatible with everything granted before.\<close>

fun grant_all :: "('k list \<times> entry_kind) list \<Rightarrow> ('k list \<times> entry_kind) list \<Rightarrow> bool list" where
  "grant_all granted [] = []"
| "grant_all granted (r # rs) =
     (if list_all (\<lambda>g. compatible g r) granted then True # grant_all (r # granted) rs
      else False # grant_all granted rs)"

definition claims_of :: "'k destination_claims \<Rightarrow> ('k list \<times> entry_kind) list \<Rightarrow> bool" where
  "claims_of c granted \<longleftrightarrow>
     dc_claimed c = fst ` set granted \<and>
     dc_directory_prefixes c = (\<Union>g \<in> set granted. set (ancestors (fst g))) \<and>
     dc_non_directories c = fst ` {g \<in> set granted. snd g \<noteq> KindDir} \<and>
     (\<forall>g \<in> set granted. fst g \<noteq> [])"

lemma ancestors_iff: "a \<in> set (ancestors k) \<longleftrightarrow> a \<noteq> [] \<and> strict_prefix a k"
proof
  assume "a \<in> set (ancestors k)"
  then obtain n where "a = take n k" "1 \<le> n" "n < length k" by (auto simp: ancestors_def)
  then show "a \<noteq> [] \<and> strict_prefix a k"
    by (auto simp: strict_prefix_def take_is_prefix dest: arg_cong [of _ _ length])
next
  assume a: "a \<noteq> [] \<and> strict_prefix a k"
  then obtain b where "k = a @ b" "b \<noteq> []" by (metis append_Nil2 prefixE strict_prefix_def)
  with a show "a \<in> set (ancestors k)"
    by (auto simp: ancestors_def image_iff intro!: bexI [of _ "length a"] simp: Suc_le_eq)
qed

lemma claim_exact:
  assumes "claims_of c granted" and "k \<noteq> []"
  shows "claim c k kind =
    (if list_all (\<lambda>g. compatible g (k, kind)) granted then (fst (claim c k kind), True) else (c, False))"
    and "list_all (\<lambda>g. compatible g (k, kind)) granted \<Longrightarrow> claims_of (fst (claim c k kind)) ((k, kind) # granted)"
proof -
  have refused: "(k \<in> dc_claimed c \<or> (\<exists>a \<in> set (ancestors k). a \<in> dc_non_directories c) \<or>
         (kind \<noteq> KindDir \<and> k \<in> dc_directory_prefixes c)) \<longleftrightarrow>
      \<not> list_all (\<lambda>g. compatible g (k, kind)) granted"
    using assms unfolding claims_of_def compatible_def list_all_iff
    by (fastforce simp: ancestors_iff image_iff)
  then show "claim c k kind =
    (if list_all (\<lambda>g. compatible g (k, kind)) granted then (fst (claim c k kind), True) else (c, False))"
    by (simp add: claim_def)
  assume "list_all (\<lambda>g. compatible g (k, kind)) granted"
  with refused assms show "claims_of (fst (claim c k kind)) ((k, kind) # granted)"
    by (auto simp: claim_def claims_of_def image_iff)
qed

lemma claim_all_exact:
  "claims_of c granted \<Longrightarrow> \<forall>r \<in> set rs. fst r \<noteq> [] \<Longrightarrow> claim_all c rs = grant_all granted rs"
proof (induction rs arbitrary: c granted)
  case (Cons r rs)
  obtain k kind where r: "r = (k, kind)" by (cases r)
  with Cons.prems have k: "k \<noteq> []" by simp
  show ?case
  proof (cases "list_all (\<lambda>g. compatible g (k, kind)) granted")
    case True
    with claim_exact [OF Cons.prems(1) k, of kind] Cons.IH [of "fst (claim c k kind)" "(k, kind) # granted"] Cons.prems(2) r
    show ?thesis by (auto split: prod.splits)
  next
    case False
    with claim_exact [OF Cons.prems(1) k, of kind] Cons.IH [of c granted] Cons.prems r show ?thesis by simp
  qed
qed simp

lemma claims_of_default: "claims_of claims_default []"
  by (simp add: claims_of_def claims_default_def)

text \<open>
  C18. The three sets of \<open>DestinationClaims\<close> decide exactly the tree's consistency: over any sequence
  of requests, a claim succeeds if and only if the destination is compatible with every destination
  granted before it. So two granted destinations never coincide and never pass through one another
  except through a directory, and nothing is refused without such a conflict.
\<close>

theorem claims_grant_exactly:
  assumes "\<forall>r \<in> set rs. fst r \<noteq> []"
  shows "claim_all claims_default rs = grant_all [] rs"
  by (rule claim_all_exact [OF claims_of_default assms])

theorem claims_grant_exactly_witness:
  "claim_all claims_default [([1, 2], KindFile), ([1], KindFile), ([1], KindDir), ([1, 2, 3], KindFile), ([4::nat], KindDir)] =
     [True, False, True, False, True]"
proof -
  let ?rs = "[([1, 2], KindFile), ([1], KindFile), ([1], KindDir), ([1, 2, 3], KindFile), ([4::nat], KindDir)]"
  have "grant_all [] ?rs = [True, False, True, False, True]"
    by (simp add: compatible_def strict_prefix_def)
  with claims_grant_exactly [of ?rs] show ?thesis by simp
qed

end
