(* ===== verification/Oxide_Extraction.thy ===== *)
theory Oxide_Extraction
  imports Oxide_Path
begin

text \<open>
  Planning an extraction: \<open>libarchive_oxide/src/extraction.rs\<close> (the policy and the outcomes) and
  \<open>plan_entry\<close> with \<open>ArchiveSession::plan\<close> of \<open>libarchive_oxide/src/engine.rs\<close>. The planner
  sees the metadata of every entry before any byte reaches the file system and fixes each entry's
  destination. \<open>linux\<close> stands for \<open>cfg!(any(target_os = "linux", target_os = "android"))\<close>.
\<close>

section \<open>Policy\<close>

definition OVERWRITE :: byte where "OVERWRITE = push_bit 0 1"
definition SYMLINKS :: byte where "SYMLINKS = push_bit 1 1"
definition HARDLINKS :: byte where "HARDLINKS = push_bit 2 1"
definition SPECIAL_FILES :: byte where "SPECIAL_FILES = push_bit 3 1"

definition capability_with :: "byte \<Rightarrow> byte \<Rightarrow> bool \<Rightarrow> byte" where
  "capability_with c capability enabled = (if enabled then c OR capability else c AND NOT capability)"

definition capability_contains :: "byte \<Rightarrow> byte \<Rightarrow> bool" where
  "capability_contains c capability \<longleftrightarrow> c AND capability \<noteq> 0"

record policy =
  capabilities :: byte

definition policy_safe :: policy where
  "policy_safe = \<lparr>capabilities = 0\<rparr>"

definition policy_restore :: policy where
  "policy_restore = policy_safe"

definition allow_overwrite :: "policy \<Rightarrow> bool \<Rightarrow> policy" where
  "allow_overwrite p allow = p\<lparr>capabilities := capability_with (capabilities p) OVERWRITE allow\<rparr>"

definition allow_symlinks :: "policy \<Rightarrow> bool \<Rightarrow> policy" where
  "allow_symlinks p allow = p\<lparr>capabilities := capability_with (capabilities p) SYMLINKS allow\<rparr>"

definition allow_hardlinks :: "policy \<Rightarrow> bool \<Rightarrow> policy" where
  "allow_hardlinks p allow = p\<lparr>capabilities := capability_with (capabilities p) HARDLINKS allow\<rparr>"

definition allow_special_files :: "policy \<Rightarrow> bool \<Rightarrow> policy" where
  "allow_special_files p allow = p\<lparr>capabilities := capability_with (capabilities p) SPECIAL_FILES allow\<rparr>"

definition overwrite :: "policy \<Rightarrow> bool" where
  "overwrite p = capability_contains (capabilities p) OVERWRITE"

definition symlinks :: "policy \<Rightarrow> bool" where
  "symlinks p = capability_contains (capabilities p) SYMLINKS"

definition hardlinks :: "policy \<Rightarrow> bool" where
  "hardlinks p = capability_contains (capabilities p) HARDLINKS"

definition special_files :: "policy \<Rightarrow> bool" where
  "special_files p = capability_contains (capabilities p) SPECIAL_FILES"

datatype rejection_reason =
    UnsafePath | DestinationCollision | DestinationExists | RejectedEntryKind | UnsafeLinkTarget
  | ExternalReference | UnsupportedRestore | FilesystemError

datatype entry_outcome_kind =
    OutFile | OutDirectory | OutSymlink | OutHardlink | OutSpecial
  | OutRejected rejection_reason | OutSkipped

record entry_outcome =
  eo_path :: archive_path
  eo_outcome :: entry_outcome_kind

definition has_rejections :: "entry_outcome list \<Rightarrow> bool" where
  "has_rejections os \<longleftrightarrow> (\<exists>o' \<in> set os. \<exists>r. eo_outcome o' = OutRejected r)"

section \<open>The planner\<close>

datatype plan_disposition = Materialize | Skip | Reject rejection_reason

record planned_entry =
  pe_metadata :: entry_metadata
  pe_disposition :: plan_disposition
  pe_destination :: "destination_key option"
  pe_link_target :: "destination_key option"

type_synonym claims = "component destination_claims"

text \<open>\<open>BTreeSet<DestinationKey>\<close>: keys are found by their identity and a present key is kept.\<close>

type_synonym key_set = "component list \<rightharpoonup> destination_key"

definition key_insert :: "destination_key \<Rightarrow> key_set \<Rightarrow> key_set" where
  "key_insert k m = (case m (dk_identity k) of None \<Rightarrow> m(dk_identity k \<mapsto> k) | Some _ \<Rightarrow> m)"

definition external_reference :: "entry_metadata \<Rightarrow> bool" where
  "external_reference md \<longleftrightarrow>
     (\<exists>e \<in> set (md_extensions md). ext_namespace e = ''ar-thin'' \<and> ext_key e = ascii ''external-reference'')"

definition is_structural :: "entry_metadata \<Rightarrow> bool" where
  "is_structural md \<longleftrightarrow> md_kind md = KindDir \<and>
     (ap_raw (md_path md) = ascii ''.'' \<or> ap_raw (md_path md) = ascii ''./'')"

definition plan_kind :: "bool \<Rightarrow> policy \<Rightarrow> entry_metadata \<Rightarrow> destination_key \<Rightarrow> key_set \<Rightarrow>
    key_set \<times> plan_disposition \<times> destination_key option" where
  "plan_kind linux p md dest committed =
     (let link = Option.bind (md_link_target md) from_archive_path in
      case md_kind md of
        KindFile \<Rightarrow> (key_insert dest committed, Materialize, None)
      | KindDir \<Rightarrow> (committed, Materialize, None)
      | KindSymlink \<Rightarrow>
          if symlinks p then
            (case link of
               Some target \<Rightarrow> (committed, Materialize, Some target)
             | None \<Rightarrow> (committed, Reject UnsafeLinkTarget, None))
          else (committed, Reject RejectedEntryKind, None)
      | KindHardlink \<Rightarrow>
          if hardlinks p then
            (case link of
               None \<Rightarrow> (committed, Reject UnsafeLinkTarget, None)
             | Some target \<Rightarrow>
                 (case committed (dk_identity target) of
                    Some t \<Rightarrow> (key_insert dest committed, Materialize, Some t)
                  | None \<Rightarrow> (committed, Reject UnsafeLinkTarget, None)))
          else (committed, Reject RejectedEntryKind, None)
      | _ \<Rightarrow>
          if special_files p then
            (committed, if linux then Materialize else Reject UnsupportedRestore, None)
          else (committed, Reject RejectedEntryKind, None))"

definition plan_entry :: "bool \<Rightarrow> policy \<Rightarrow> entry_metadata \<Rightarrow> claims \<times> key_set \<Rightarrow>
    (claims \<times> key_set) \<times> plan_disposition \<times> destination_key option \<times> destination_key option" where
  "plan_entry linux p md = (\<lambda>(claimed, committed).
     if external_reference md then ((claimed, committed), Reject ExternalReference, None, None)
     else if is_structural md then ((claimed, committed), Skip, None, None)
     else (case from_archive_path (md_path md) of
        None \<Rightarrow> ((claimed, committed), Reject UnsafePath, None, None)
      | Some dest \<Rightarrow>
          (case claim claimed (dk_identity dest) (md_kind md) of
             (claimed', False) \<Rightarrow> ((claimed', committed), Reject DestinationCollision, Some dest, None)
           | (claimed', True) \<Rightarrow>
               (case plan_kind linux p md dest committed of
                  (committed', disposition, link) \<Rightarrow> ((claimed', committed'), disposition, Some dest, link)))))"

fun plan_entries :: "bool \<Rightarrow> policy \<Rightarrow> claims \<times> key_set \<Rightarrow> entry_metadata list \<Rightarrow> planned_entry list" where
  "plan_entries linux p st [] = []"
| "plan_entries linux p st (md # mds) =
     (case plan_entry linux p md st of
        (st', disposition, dest, link) \<Rightarrow>
          \<lparr>pe_metadata = md, pe_disposition = disposition, pe_destination = dest, pe_link_target = link\<rparr>
          # plan_entries linux p st' mds)"

definition plan :: "bool \<Rightarrow> policy \<Rightarrow> entry_metadata list \<Rightarrow> planned_entry list" where
  "plan linux p mds = plan_entries linux p (claims_default, Map.empty) mds"

section \<open>Capability bits\<close>

lemmas capability_bits = OVERWRITE_def SYMLINKS_def HARDLINKS_def SPECIAL_FILES_def capability_with_def
  capability_contains_def

lemma and_single_bit: "(w :: byte) AND push_bit n 1 \<noteq> 0 \<longleftrightarrow> bit w n"
  by (simp add: push_bit_of_1 and_exp_eq_0_iff_not_bit)

text \<open>
  The capability bits of a policy are independent switches: every permission is off in the safe
  policy, a builder sets its own permission to the value given, and it leaves the others alone.
\<close>

theorem policy_switches:
  "\<not> overwrite policy_safe \<and> \<not> symlinks policy_safe \<and> \<not> hardlinks policy_safe \<and> \<not> special_files policy_safe \<and>
   (overwrite (allow_overwrite p b) = b \<and> symlinks (allow_overwrite p b) = symlinks p \<and>
    hardlinks (allow_overwrite p b) = hardlinks p \<and> special_files (allow_overwrite p b) = special_files p) \<and>
   (overwrite (allow_symlinks p b) = overwrite p \<and> symlinks (allow_symlinks p b) = b \<and>
    hardlinks (allow_symlinks p b) = hardlinks p \<and> special_files (allow_symlinks p b) = special_files p) \<and>
   (overwrite (allow_hardlinks p b) = overwrite p \<and> symlinks (allow_hardlinks p b) = symlinks p \<and>
    hardlinks (allow_hardlinks p b) = b \<and> special_files (allow_hardlinks p b) = special_files p) \<and>
   (overwrite (allow_special_files p b) = overwrite p \<and> symlinks (allow_special_files p b) = symlinks p \<and>
    hardlinks (allow_special_files p b) = hardlinks p \<and> special_files (allow_special_files p b) = b)"
  unfolding overwrite_def symlinks_def hardlinks_def special_files_def allow_overwrite_def allow_symlinks_def
    allow_hardlinks_def allow_special_files_def capability_bits and_single_bit policy_safe_def
  by (simp add: bit_simps)

section \<open>What a plan guarantees\<close>

definition confined :: "destination_key \<Rightarrow> bool" where
  "confined k \<longleftrightarrow> (\<exists>cs. cs \<noteq> [] \<and> list_all safe_name cs \<and> path_components (dk_path k) = map Normal cs)"

text \<open>The requests behind the entries of a plan that will reach the file system.\<close>

fun granted :: "planned_entry list \<Rightarrow> (component list \<times> entry_kind) list" where
  "granted [] = []"
| "granted (e # es) =
     (case (pe_disposition e, pe_destination e) of
        (Materialize, Some k) \<Rightarrow> [(dk_identity k, md_kind (pe_metadata e))]
      | _ \<Rightarrow> []) @ granted es"

definition link_confined :: "policy \<Rightarrow> planned_entry list \<Rightarrow> planned_entry \<Rightarrow> bool" where
  "link_confined p earlier e \<longleftrightarrow>
     (case md_kind (pe_metadata e) of
        KindFile \<Rightarrow> pe_link_target e = None
      | KindDir \<Rightarrow> pe_link_target e = None
      | KindSymlink \<Rightarrow> symlinks p \<and> (\<exists>t. pe_link_target e = Some t \<and> confined t)
      | KindHardlink \<Rightarrow> hardlinks p \<and> (\<exists>t kind. pe_link_target e = Some t \<and>
          (dk_identity t, kind) \<in> set (granted earlier) \<and> kind \<in> {KindFile, KindHardlink})
      | _ \<Rightarrow> special_files p \<and> pe_link_target e = None)"

definition entry_confined :: "policy \<Rightarrow> planned_entry list \<Rightarrow> planned_entry \<Rightarrow> bool" where
  "entry_confined p earlier e \<longleftrightarrow>
     (pe_disposition e = Materialize \<longrightarrow>
        \<not> external_reference (pe_metadata e) \<and>
        (\<exists>k. pe_destination e = Some k \<and> from_archive_path (md_path (pe_metadata e)) = Some k \<and> confined k \<and>
           list_all (\<lambda>g. compatible g (dk_identity k, md_kind (pe_metadata e))) (granted earlier)) \<and>
        link_confined p earlier e)"

fun plan_confined :: "policy \<Rightarrow> planned_entry list \<Rightarrow> planned_entry list \<Rightarrow> bool" where
  "plan_confined p earlier [] = True"
| "plan_confined p earlier (e # es) = (entry_confined p earlier e \<and> plan_confined p (earlier @ [e]) es)"

text \<open>
  The planner's state against the entries already planned. A claim may have been granted to an
  entry that was refused afterwards, so the claims cover at least the entries that are granted.
\<close>

definition plan_state :: "planned_entry list \<Rightarrow> claims \<times> key_set \<Rightarrow> bool" where
  "plan_state earlier st \<longleftrightarrow>
     (\<exists>gs. claims_of (fst st) gs \<and> set (granted earlier) \<subseteq> set gs) \<and>
     (\<forall>i k. snd st i = Some k \<longrightarrow> dk_identity k = i \<and>
        (\<exists>kind \<in> {KindFile, KindHardlink}. (i, kind) \<in> set (granted earlier)))"

lemma granted_append: "granted (es @ fs) = granted es @ granted fs"
  by (induction es) auto

lemma from_archive_path_confined: "from_archive_path p = Some k \<Longrightarrow> confined k \<and> dk_identity k \<noteq> []"
  by (rule from_archive_path_safe) (auto simp: confined_def)

lemma key_insert_Some: "key_insert k m i = Some k' \<Longrightarrow> m i = Some k' \<or> (i = dk_identity k \<and> k' = k)"
  by (auto simp: key_insert_def split: option.splits if_splits)

lemma plan_state_mono:
  assumes "plan_state earlier (claimed, committed)" and "granted earlier' = granted earlier @ new"
    and "\<exists>gs. claims_of claimed' gs \<and> set (granted earlier') \<subseteq> set gs"
    and "\<And>i k. committed' i = Some k \<Longrightarrow> committed i = Some k \<or>
      (dk_identity k = i \<and> (\<exists>kind \<in> {KindFile, KindHardlink}. (i, kind) \<in> set new))"
  shows "plan_state earlier' (claimed', committed')"
  using assms unfolding plan_state_def by (metis UnCI fst_conv set_append snd_conv)

lemma plan_kind_cases:
  assumes "plan_kind linux p md dest committed = (committed', disposition, link)"
  shows "\<And>i k. committed' i = Some k \<Longrightarrow> committed i = Some k \<or>
      (i = dk_identity dest \<and> k = dest \<and> disposition = Materialize \<and> md_kind md \<in> {KindFile, KindHardlink})"
    and "disposition = Materialize \<Longrightarrow>
      (case md_kind md of
         KindFile \<Rightarrow> link = None | KindDir \<Rightarrow> link = None
       | KindSymlink \<Rightarrow> symlinks p \<and> (\<exists>t. link = Some t \<and> confined t)
       | KindHardlink \<Rightarrow> hardlinks p \<and> (\<exists>t i. link = Some t \<and> committed i = Some t)
       | _ \<Rightarrow> special_files p \<and> link = None)"
proof -
  fix i k
  assume "committed' i = Some k"
  with assms show "committed i = Some k \<or>
      (i = dk_identity dest \<and> k = dest \<and> disposition = Materialize \<and> md_kind md \<in> {KindFile, KindHardlink})"
    by (auto simp: plan_kind_def Let_def dest: key_insert_Some split: entry_kind.splits if_splits option.splits)
next
  assume "disposition = Materialize"
  with assms show "case md_kind md of
         KindFile \<Rightarrow> link = None | KindDir \<Rightarrow> link = None
       | KindSymlink \<Rightarrow> symlinks p \<and> (\<exists>t. link = Some t \<and> confined t)
       | KindHardlink \<Rightarrow> hardlinks p \<and> (\<exists>t i. link = Some t \<and> committed i = Some t)
       | _ \<Rightarrow> special_files p \<and> link = None"
    by (auto simp: plan_kind_def Let_def bind_eq_Some_conv dest: from_archive_path_confined
        dest!: sym [of "Some _"] split: entry_kind.splits if_splits option.splits)
qed

lemma plan_entry_confined:
  assumes st: "plan_state earlier (claimed, committed)"
    and step: "plan_entry linux p md (claimed, committed) = (st', disposition, dest, link)"
    and e: "e = \<lparr>pe_metadata = md, pe_disposition = disposition, pe_destination = dest, pe_link_target = link\<rparr>"
  shows "entry_confined p earlier e \<and> plan_state (earlier @ [e]) st'"
proof -
  obtain gs where gs: "claims_of claimed gs" "set (granted earlier) \<subseteq> set gs"
    using st by (auto simp: plan_state_def)
  have "(disposition \<noteq> Materialize \<and> st' = (claimed, committed)) \<or>
    (\<exists>k claimed' committed'. \<not> external_reference md \<and> dest = Some k \<and> from_archive_path (md_path md) = Some k \<and>
      claim claimed (dk_identity k) (md_kind md) = (claimed', True) \<and> st' = (claimed', committed') \<and>
      plan_kind linux p md k committed = (committed', disposition, link))"
  proof (cases "from_archive_path (md_path md)")
    case (Some k)
    then have "dk_identity k \<noteq> []" by (simp add: from_archive_path_confined)
    from claim_exact(1) [OF gs(1) this, of "md_kind md"] step Some show ?thesis
      by (auto simp: plan_entry_def split: if_splits prod.splits bool.splits)
  qed (use step in \<open>auto simp: plan_entry_def split: if_splits\<close>)
  then show ?thesis
  proof (elim disjE exE conjE)
    assume skip: "disposition \<noteq> Materialize" "st' = (claimed, committed)"
    then have "granted (earlier @ [e]) = granted earlier" by (auto simp: granted_append e split: plan_disposition.splits)
    with st skip show ?thesis by (simp add: entry_confined_def e plan_state_def)
  next
    fix k claimed' committed'
    assume a: "\<not> external_reference md" "dest = Some k" "from_archive_path (md_path md) = Some k"
      "claim claimed (dk_identity k) (md_kind md) = (claimed', True)" "st' = (claimed', committed')"
      "plan_kind linux p md k committed = (committed', disposition, link)"
    have k: "dk_identity k \<noteq> []" "confined k" using from_archive_path_confined [OF a(3)] by simp_all
    have ok: "list_all (\<lambda>g. compatible g (dk_identity k, md_kind md)) gs"
      using claim_exact(1) [OF gs(1) k(1), of "md_kind md"] a(4) by (auto split: if_splits)
    have claims: "claims_of claimed' ((dk_identity k, md_kind md) # gs)"
      using claim_exact(2) [OF gs(1) k(1) ok] a(4) by simp
    define new where "new = (if disposition = Materialize then [(dk_identity k, md_kind md)] else [])"
    have new: "granted (earlier @ [e]) = granted earlier @ new"
      by (auto simp: granted_append e a(2) new_def split: plan_disposition.splits)
    have "plan_state (earlier @ [e]) st'"
      unfolding a(5)
    proof (rule plan_state_mono [OF st new])
      show "\<exists>gs. claims_of claimed' gs \<and> set (granted (earlier @ [e])) \<subseteq> set gs"
        using claims gs(2) by (auto simp: new new_def intro!: exI [of _ "(dk_identity k, md_kind md) # gs"])
      fix i k'
      assume "committed' i = Some k'"
      with plan_kind_cases(1) [OF a(6), of i k']
      show "committed i = Some k' \<or> (dk_identity k' = i \<and> (\<exists>kind \<in> {KindFile, KindHardlink}. (i, kind) \<in> set new))"
        by (auto simp: new_def)
    qed
    moreover have "entry_confined p earlier e"
    proof -
      have "link_confined p earlier e" if m: "disposition = Materialize"
      proof (cases "md_kind md = KindHardlink")
        case True
        with plan_kind_cases(2) [OF a(6) m] obtain t i where t: "hardlinks p" "link = Some t" "committed i = Some t"
          by auto
        with st obtain kind where "kind \<in> {KindFile, KindHardlink}" "(dk_identity t, kind) \<in> set (granted earlier)"
          by (auto simp: plan_state_def)
        with t True show ?thesis by (auto simp: link_confined_def e)
      next
        case False
        with plan_kind_cases(2) [OF a(6) m] show ?thesis
          by (cases "md_kind md") (simp_all add: link_confined_def e)
      qed
      moreover have "list_all (\<lambda>g. compatible g (dk_identity k, md_kind md)) (granted earlier)"
        using ok gs(2) by (auto simp: list_all_iff)
      ultimately show ?thesis using a(1,2,3) k(2) by (simp add: entry_confined_def e)
    qed
    ultimately show ?thesis by simp
  qed
qed

lemma plan_entries_confined:
  "plan_state earlier st \<Longrightarrow> plan_confined p earlier (plan_entries linux p st mds)"
proof (induction mds arbitrary: earlier st)
  case (Cons md mds)
  obtain claimed committed where st: "st = (claimed, committed)" by (cases st)
  obtain st' disposition dest link where step: "plan_entry linux p md st = (st', disposition, dest, link)"
    by (cases "plan_entry linux p md st") auto
  from plan_entry_confined [OF Cons.prems [unfolded st] step [unfolded st] refl] Cons.IH step show ?case by simp
qed simp

lemma plan_entries_metadata: "map pe_metadata (plan_entries linux p st mds) = mds"
  by (induction mds arbitrary: st) (auto split: prod.splits)

text \<open>
  C12. A plan is confined, whatever the archive claims about itself. It has one decision per entry, in
  archive order, and each entry it lets through has a destination below the root made of ordinary
  names, compatible with every destination let through before it; links are let through only when
  the policy allows them, a symbolic link points to a confined path, a hard link points to a file or
  hard link let through earlier in the same plan, special files need their own permission and
  references to files outside the archive never pass.
\<close>

theorem plan_is_confined:
  "map pe_metadata (plan linux p mds) = mds \<and> plan_confined p [] (plan linux p mds)"
proof
  have "plan_state [] (claims_default, Map.empty)"
    using claims_of_default by (auto simp: plan_state_def)
  then show "plan_confined p [] (plan linux p mds)"
    unfolding plan_def by (rule plan_entries_confined)
qed (simp add: plan_def plan_entries_metadata)

end
