(* ===== verification/Oxide_Filesystem.thy ===== *)
theory Oxide_Filesystem
  imports Oxide_Extraction Oxide_Writer
begin

text \<open>
  Applying a plan: \<open>libarchive_oxide/src/filesystem.rs\<close> (operations, findings, capabilities, the
  adapter contract) and \<open>libarchive_oxide/src/filesystem_driver.rs\<close> (\<open>AdapterDriver\<close> and the loop
  that feeds it the reader's events). \<open>FilesystemAdapter\<close> is a trait callers implement, so an
  adapter is a parameter: a record of functions on a state of its own. Nothing is assumed of it. The
  events of the reader are a list; a list that ends early stands for a reader not polled further.
\<close>

section \<open>Operations, findings and capabilities\<close>

datatype filesystem_operation =
    OpEntry | OpAtomicCommit | OpMode | OpOwnership | OpAccessTime | OpModificationTime | OpChangeTime
  | OpCreationTime | OpSparse | OpExtendedAttribute bytes | OpAcl nat | OpFileFlags | OpRemovePath
  | OpClearDirectory

datatype finding_kind = Applied | Unsupported | Refused | Partial | OsError

record filesystem_finding =
  ff_path :: archive_path
  ff_operation :: filesystem_operation
  ff_kind :: finding_kind
  ff_detail :: string
  ff_os_error :: "int option" \<comment> \<open>category and raw code of the operating-system error\<close>

definition finding_new :: "archive_path \<Rightarrow> filesystem_operation \<Rightarrow> finding_kind \<Rightarrow> string \<Rightarrow> filesystem_finding" where
  "finding_new p operation k detail =
     \<lparr>ff_path = p, ff_operation = operation, ff_kind = k, ff_detail = detail, ff_os_error = None\<rparr>"

definition finding_applied :: "archive_path \<Rightarrow> filesystem_operation \<Rightarrow> filesystem_finding" where
  "finding_applied p operation = finding_new p operation Applied ''filesystem operation applied''"

definition finding_unsupported :: "archive_path \<Rightarrow> filesystem_operation \<Rightarrow> string \<Rightarrow> filesystem_finding" where
  "finding_unsupported p operation detail = finding_new p operation Unsupported detail"

definition finding_refused :: "archive_path \<Rightarrow> filesystem_operation \<Rightarrow> string \<Rightarrow> filesystem_finding" where
  "finding_refused p operation detail = finding_new p operation Refused detail"

definition finding_partial :: "archive_path \<Rightarrow> filesystem_operation \<Rightarrow> string \<Rightarrow> filesystem_finding" where
  "finding_partial p operation detail = finding_new p operation Partial detail"

record filesystem_capabilities =
  fc_atomic_commit :: bool
  fc_mode :: bool
  fc_ownership :: bool
  fc_access_time :: bool
  fc_modification_time :: bool
  fc_change_time :: bool
  fc_creation_time :: bool
  fc_symlinks :: bool
  fc_hardlinks :: bool
  fc_xattrs :: bool
  fc_acls :: bool
  fc_sparse :: bool
  fc_special_files :: bool
  fc_file_flags :: bool
  fc_removals :: bool

definition capabilities_none :: filesystem_capabilities where
  "capabilities_none =
     \<lparr>fc_atomic_commit = False, fc_mode = False, fc_ownership = False, fc_access_time = False, fc_modification_time = False, fc_change_time = False, fc_creation_time = False, fc_symlinks = False, fc_hardlinks = False, fc_xattrs = False, fc_acls = False, fc_sparse = False, fc_special_files = False, fc_file_flags = False, fc_removals = False\<rparr>"

definition fc_with_atomic_commit :: "bool \<Rightarrow> filesystem_capabilities \<Rightarrow> filesystem_capabilities" where
  "fc_with_atomic_commit enabled c = c\<lparr>fc_atomic_commit := enabled\<rparr>"

definition fc_with_mode :: "bool \<Rightarrow> filesystem_capabilities \<Rightarrow> filesystem_capabilities" where
  "fc_with_mode enabled c = c\<lparr>fc_mode := enabled\<rparr>"

definition fc_with_ownership :: "bool \<Rightarrow> filesystem_capabilities \<Rightarrow> filesystem_capabilities" where
  "fc_with_ownership enabled c = c\<lparr>fc_ownership := enabled\<rparr>"

definition fc_with_access_time :: "bool \<Rightarrow> filesystem_capabilities \<Rightarrow> filesystem_capabilities" where
  "fc_with_access_time enabled c = c\<lparr>fc_access_time := enabled\<rparr>"

definition fc_with_modification_time :: "bool \<Rightarrow> filesystem_capabilities \<Rightarrow> filesystem_capabilities" where
  "fc_with_modification_time enabled c = c\<lparr>fc_modification_time := enabled\<rparr>"

definition fc_with_change_time :: "bool \<Rightarrow> filesystem_capabilities \<Rightarrow> filesystem_capabilities" where
  "fc_with_change_time enabled c = c\<lparr>fc_change_time := enabled\<rparr>"

definition fc_with_creation_time :: "bool \<Rightarrow> filesystem_capabilities \<Rightarrow> filesystem_capabilities" where
  "fc_with_creation_time enabled c = c\<lparr>fc_creation_time := enabled\<rparr>"

definition fc_with_symlinks :: "bool \<Rightarrow> filesystem_capabilities \<Rightarrow> filesystem_capabilities" where
  "fc_with_symlinks enabled c = c\<lparr>fc_symlinks := enabled\<rparr>"

definition fc_with_hardlinks :: "bool \<Rightarrow> filesystem_capabilities \<Rightarrow> filesystem_capabilities" where
  "fc_with_hardlinks enabled c = c\<lparr>fc_hardlinks := enabled\<rparr>"

definition fc_with_xattrs :: "bool \<Rightarrow> filesystem_capabilities \<Rightarrow> filesystem_capabilities" where
  "fc_with_xattrs enabled c = c\<lparr>fc_xattrs := enabled\<rparr>"

definition fc_with_acls :: "bool \<Rightarrow> filesystem_capabilities \<Rightarrow> filesystem_capabilities" where
  "fc_with_acls enabled c = c\<lparr>fc_acls := enabled\<rparr>"

definition fc_with_sparse :: "bool \<Rightarrow> filesystem_capabilities \<Rightarrow> filesystem_capabilities" where
  "fc_with_sparse enabled c = c\<lparr>fc_sparse := enabled\<rparr>"

definition fc_with_special_files :: "bool \<Rightarrow> filesystem_capabilities \<Rightarrow> filesystem_capabilities" where
  "fc_with_special_files enabled c = c\<lparr>fc_special_files := enabled\<rparr>"

definition fc_with_file_flags :: "bool \<Rightarrow> filesystem_capabilities \<Rightarrow> filesystem_capabilities" where
  "fc_with_file_flags enabled c = c\<lparr>fc_file_flags := enabled\<rparr>"

definition fc_with_removals :: "bool \<Rightarrow> filesystem_capabilities \<Rightarrow> filesystem_capabilities" where
  "fc_with_removals enabled c = c\<lparr>fc_removals := enabled\<rparr>"

definition capabilities_standard :: "bool \<Rightarrow> bool \<Rightarrow> filesystem_capabilities" where
  \<comment> \<open>\<open>unix\<close> and \<open>linux\<close> are the target configuration\<close>
  "capabilities_standard unix linux =
     fc_with_removals True (fc_with_special_files linux (fc_with_sparse unix (fc_with_acls linux
       (fc_with_xattrs linux (fc_with_hardlinks True (fc_with_symlinks True (fc_with_modification_time True
         (fc_with_access_time True (fc_with_ownership linux (fc_with_mode unix (fc_with_atomic_commit True
           capabilities_none)))))))))))"

fun supports :: "filesystem_capabilities \<Rightarrow> filesystem_operation \<Rightarrow> bool" where
  "supports c OpEntry = True"
| "supports c OpAtomicCommit = fc_atomic_commit c"
| "supports c OpMode = fc_mode c"
| "supports c OpOwnership = fc_ownership c"
| "supports c OpAccessTime = fc_access_time c"
| "supports c OpModificationTime = fc_modification_time c"
| "supports c OpChangeTime = fc_change_time c"
| "supports c OpCreationTime = fc_creation_time c"
| "supports c OpSparse = fc_sparse c"
| "supports c (OpExtendedAttribute _) = fc_xattrs c"
| "supports c (OpAcl _) = fc_acls c"
| "supports c OpFileFlags = fc_file_flags c"
| "supports c OpRemovePath = fc_removals c"
| "supports c OpClearDirectory = fc_removals c"

fun supports_entry :: "filesystem_capabilities \<Rightarrow> entry_kind \<Rightarrow> bool" where
  "supports_entry c KindFile = True"
| "supports_entry c KindDir = True"
| "supports_entry c KindSymlink = fc_symlinks c"
| "supports_entry c KindHardlink = fc_hardlinks c"
| "supports_entry c _ = fc_special_files c"

section \<open>The adapter contract\<close>

record filesystem_entry =
  fe_metadata :: entry_metadata
  fe_destination :: bytes
  fe_link_target :: "bytes option"
  fe_overwrite :: bool

record filesystem_removal =
  fr_path :: archive_path
  fr_destination :: bytes

datatype filesystem_materialization =
  MatFile | MatDirectory | MatSymlink | MatHardlink | MatSpecial | MatDestinationExists | MatFailed

record entry_report =
  er_materialization :: filesystem_materialization
  er_findings :: "filesystem_finding list"

record 'a filesystem_adapter =
  ad_capabilities :: "'a \<Rightarrow> filesystem_capabilities"
  ad_begin_session :: "'a \<Rightarrow> 'a \<times> bool"
  ad_begin_entry :: "'a \<Rightarrow> filesystem_entry \<Rightarrow> 'a \<times> bool"
  ad_write_data :: "'a \<Rightarrow> bytes \<Rightarrow> 'a \<times> bool"
  ad_finish_entry :: "'a \<Rightarrow> 'a \<times> entry_report option"
  ad_abort_entry :: "'a \<Rightarrow> 'a"
  ad_finish_session :: "'a \<Rightarrow> 'a \<times> filesystem_finding list option"
  ad_remove_path :: "'a \<Rightarrow> filesystem_removal \<Rightarrow> 'a \<times> filesystem_finding option"
  ad_clear_directory :: "'a \<Rightarrow> filesystem_removal \<Rightarrow> 'a \<times> filesystem_finding option"

text \<open>The trait's default implementations of the two removal operations.\<close>

definition default_remove_path :: "'a \<Rightarrow> filesystem_removal \<Rightarrow> 'a \<times> filesystem_finding option" where
  "default_remove_path a r = (a, Some (finding_unsupported (fr_path r) OpRemovePath
     ''filesystem adapter does not support whiteout removal''))"

definition default_clear_directory :: "'a \<Rightarrow> filesystem_removal \<Rightarrow> 'a \<times> filesystem_finding option" where
  "default_clear_directory a r = (a, Some (finding_unsupported (fr_path r) OpClearDirectory
     ''filesystem adapter does not support opaque-directory clearing''))"

section \<open>The driver\<close>

record current_entry =
  ce_path :: archive_path
  ce_kind :: entry_kind
  ce_destination :: "destination_key option"
  ce_materializing :: bool
  ce_direct_outcome :: "entry_outcome_kind option"
  ce_requests :: "filesystem_operation list"

record 'a adapter_driver =
  dr_adapter :: 'a
  dr_planned :: "planned_entry list"
  dr_policy :: policy
  dr_limits :: limits
  dr_capabilities :: filesystem_capabilities
  dr_outcomes :: "entry_outcome list"
  dr_findings :: "filesystem_finding list"
  dr_expected :: "(archive_path \<times> filesystem_operation) list"
  dr_committed :: key_set
  dr_current :: "current_entry option"
  dr_entries_seen :: nat

definition protocol_error :: "string \<Rightarrow> stream_error" where
  "protocol_error context = StreamArchive (plain_error ErrProtocol context)"

definition limit_error :: "nat \<Rightarrow> archive_path \<Rightarrow> string \<Rightarrow> stream_error" where
  "limit_error index p context =
     StreamArchive (with_context context (with_entry index (ap_raw p) (archive_error_new ErrLimit)))"

definition archive_path_nesting :: "bytes \<Rightarrow> nat" where
  "archive_path_nesting p =
     length (filter (\<lambda>c. c \<noteq> [] \<and> c \<noteq> ascii ''.'') (split_by (\<lambda>b. b = 47 \<or> b = 92) p))"

fun rejection_detail :: "rejection_reason \<Rightarrow> string" where
  "rejection_detail UnsafePath = ''archive path is unsafe or cannot be represented''"
| "rejection_detail DestinationCollision = ''another archive entry already claims this host destination''"
| "rejection_detail DestinationExists = ''destination already exists''"
| "rejection_detail RejectedEntryKind = ''entry kind is disabled by extraction policy''"
| "rejection_detail UnsafeLinkTarget = ''link target is absent, unsafe, or uncommitted''"
| "rejection_detail ExternalReference = ''external archive references are never materialized''"
| "rejection_detail UnsupportedRestore = ''requested entry restoration is unsupported on this platform''"
| "rejection_detail FilesystemError = ''filesystem adapter refused the entry''"

definition guarded :: "bool \<Rightarrow> 'b \<Rightarrow> 'b list" where
  "guarded c x = (if c then [x] else [])"

definition requested_operations :: "entry_metadata \<Rightarrow> filesystem_operation list" where
  "requested_operations md =
     (let ow = md_owner md; t = md_times md in
      [OpEntry] @ guarded (md_kind md = KindFile) OpAtomicCommit @ guarded (md_mode md \<noteq> None) OpMode @
      guarded (own_uid ow \<noteq> None \<or> own_gid ow \<noteq> None \<or> own_user ow \<noteq> None \<or> own_group ow \<noteq> None) OpOwnership @
      guarded (accessed t \<noteq> None) OpAccessTime @ guarded (modified t \<noteq> None) OpModificationTime @
      guarded (changed t \<noteq> None) OpChangeTime @ guarded (created t \<noteq> None) OpCreationTime @
      guarded (md_sparse md \<noteq> []) OpSparse @ map (\<lambda>(name, _). OpExtendedAttribute name) (md_xattrs md) @
      map OpAcl [0..<length (md_acl md)] @ guarded (md_file_flags md \<noteq> 0) OpFileFlags)"

fun fill_missing_findings :: "archive_path \<Rightarrow> filesystem_operation list \<Rightarrow> filesystem_finding list \<Rightarrow>
    finding_kind \<Rightarrow> string \<Rightarrow> filesystem_finding list" where
  "fill_missing_findings p [] fs k detail = fs"
| "fill_missing_findings p (operation # ops) fs k detail =
     fill_missing_findings p ops
       (if operation \<in> set (map ff_operation fs) then fs
        else fs @ [(case k of Refused \<Rightarrow> finding_refused p operation detail
                            | _ \<Rightarrow> finding_partial p operation detail)]) k detail"

definition driver_new :: "'a filesystem_adapter \<Rightarrow> 'a \<Rightarrow> policy \<Rightarrow> limits \<Rightarrow> planned_entry list \<Rightarrow>
    'a \<times> (stream_error + 'a adapter_driver)" where
  "driver_new ad a p l planned =
     (case ad_begin_session ad a of
        (a', False) \<Rightarrow> (a', Inl StreamIo)
      | (a', True) \<Rightarrow> (a', Inr
          \<lparr>dr_adapter = a', dr_planned = planned, dr_policy = p, dr_limits = l,
           dr_capabilities = ad_capabilities ad a, dr_outcomes = [], dr_findings = [], dr_expected = [],
           dr_committed = Map.empty, dr_current = None, dr_entries_seen = 0\<rparr>))"

definition observe_entry :: "entry_metadata \<Rightarrow> 'a adapter_driver \<Rightarrow> 'a adapter_driver \<times> (stream_error + unit)" where
  "observe_entry md d =
     (let index = dr_entries_seen d; p = md_path md; d' = d\<lparr>dr_entries_seen := index + 1\<rparr> in
      if u64_max < index + 1 then (d, Inl (limit_error index p ''filesystem driver entry count overflowed''))
      else if exceeds (max_entries (dr_limits d)) (index + 1)
      then (d', Inl (limit_error index p ''filesystem driver entry count exceeds configured limit''))
      else if exceeds (path_bytes (dr_limits d)) (length (ap_raw p))
      then (d', Inl (limit_error index p ''filesystem driver path length exceeds configured limit''))
      else if exceeds (nesting (dr_limits d)) (archive_path_nesting (ap_raw p))
      then (d', Inl (limit_error index p ''filesystem driver path nesting exceeds configured limit''))
      else (d', Inr ()))"

definition driver_reject :: "entry_metadata \<Rightarrow> filesystem_operation list \<Rightarrow> rejection_reason \<Rightarrow> string \<Rightarrow>
    'a adapter_driver \<Rightarrow> 'a adapter_driver" where
  "driver_reject md requests reason detail d =
     d\<lparr>dr_findings := dr_findings d @ map (\<lambda>operation. finding_refused (md_path md) operation detail) requests,
       dr_current := Some
         \<lparr>ce_path = md_path md, ce_kind = md_kind md, ce_destination = None, ce_materializing = False,
          ce_direct_outcome = Some (OutRejected reason), ce_requests = requests\<rparr>\<rparr>"

definition is_special :: "entry_kind \<Rightarrow> bool" where
  "is_special k \<longleftrightarrow> k \<in> {KindChar, KindBlock, KindFifo, KindSocket}"

definition entry_kind_rejection :: "filesystem_capabilities \<Rightarrow> entry_kind \<Rightarrow> (rejection_reason \<times> string) option" where
  "entry_kind_rejection c k =
     (if k = KindFile \<and> \<not> fc_atomic_commit c
      then Some (UnsupportedRestore, ''filesystem adapter cannot atomically publish regular files'')
      else if is_special k \<and> \<not> fc_special_files c
      then Some (UnsupportedRestore, ''filesystem adapter does not support special files'')
      else if \<not> supports_entry c k
      then Some (RejectedEntryKind, ''entry kind is not supported by the filesystem adapter'')
      else None)"

definition begin_materializing :: "'a filesystem_adapter \<Rightarrow> entry_metadata \<Rightarrow> destination_key \<Rightarrow>
    destination_key option \<Rightarrow> 'a adapter_driver \<Rightarrow> 'a adapter_driver \<times> (stream_error + unit)" where
  "begin_materializing ad md dest link d =
     (let requests = requested_operations md; p = md_path md;
          unsupported = filter (\<lambda>operation. \<not> supports (dr_capabilities d) operation) requests;
          d1 = d\<lparr>dr_findings := dr_findings d @ map (\<lambda>operation. finding_unsupported p operation
                 ''filesystem adapter does not advertise this metadata capability'') unsupported\<rparr> in
      case ad_begin_entry ad (dr_adapter d1)
          \<lparr>fe_metadata = md, fe_destination = dk_path dest, fe_link_target = map_option dk_path link,
           fe_overwrite = overwrite (dr_policy d)\<rparr> of
        (a', False) \<Rightarrow> (d1\<lparr>dr_adapter := a'\<rparr>, Inl StreamIo)
      | (a', True) \<Rightarrow>
          (d1\<lparr>dr_adapter := a', dr_current := Some
             \<lparr>ce_path = p, ce_kind = md_kind md, ce_destination = Some dest, ce_materializing = True,
              ce_direct_outcome = None, ce_requests = requests\<rparr>\<rparr>, Inr ()))"

definition start_planned :: "'a filesystem_adapter \<Rightarrow> entry_metadata \<Rightarrow> planned_entry \<Rightarrow>
    'a adapter_driver \<Rightarrow> 'a adapter_driver \<times> (stream_error + unit)" where
  "start_planned ad md planned d =
     (let requests = requested_operations md; p = md_path md in
      case pe_disposition planned of
        Skip \<Rightarrow>
          (d\<lparr>dr_findings := dr_findings d @ [finding_applied p OpEntry],
             dr_current := Some
               \<lparr>ce_path = p, ce_kind = md_kind md, ce_destination = None, ce_materializing = False,
                ce_direct_outcome = Some OutSkipped, ce_requests = requests\<rparr>\<rparr>, Inr ())
      | Reject reason \<Rightarrow> (driver_reject md requests reason (rejection_detail reason) d, Inr ())
      | Materialize \<Rightarrow>
          (case pe_destination planned of
             None \<Rightarrow> (d, Inl (protocol_error ''materializing plan entry has no destination''))
           | Some dest \<Rightarrow>
               let link = pe_link_target planned in
               if md_kind md = KindHardlink \<and>
                  (case link of None \<Rightarrow> True | Some t \<Rightarrow> dr_committed d (dk_identity t) = None)
               then (driver_reject md requests UnsafeLinkTarget
                       ''hard-link target was not committed earlier in this apply session'' d, Inr ())
               else (case entry_kind_rejection (dr_capabilities d) (md_kind md) of
                       Some (reason, detail) \<Rightarrow> (driver_reject md requests reason detail d, Inr ())
                     | None \<Rightarrow> begin_materializing ad md dest link d)))"

definition driver_start_entry :: "'a filesystem_adapter \<Rightarrow> entry_metadata \<Rightarrow>
    'a adapter_driver \<Rightarrow> 'a adapter_driver \<times> (stream_error + unit)" where
  "driver_start_entry ad md d =
     (if dr_current d \<noteq> None then (d, Inl (protocol_error ''entry began before the preceding entry ended''))
      else (case observe_entry md d of
        (d1, Inl e) \<Rightarrow> (d1, Inl e)
      | (d1, Inr _) \<Rightarrow>
          (if length (dr_planned d) \<le> dr_entries_seen d
           then (d1, Inl (protocol_error ''archive contains an entry absent from its plan''))
           else
             let planned = dr_planned d ! dr_entries_seen d in
             if pe_metadata planned \<noteq> md
             then (d1, Inl (protocol_error ''archive entry metadata differs from the preflighted plan''))
             else start_planned ad md planned
                    (d1\<lparr>dr_expected := dr_expected d1 @ map (Pair (md_path md)) (requested_operations md)\<rparr>))))"

definition driver_write_data :: "'a filesystem_adapter \<Rightarrow> bytes \<Rightarrow>
    'a adapter_driver \<Rightarrow> 'a adapter_driver \<times> (stream_error + unit)" where
  "driver_write_data ad data d =
     (case dr_current d of
        None \<Rightarrow> (d, Inl (protocol_error ''archive data appeared outside an entry''))
      | Some c \<Rightarrow>
          if ce_materializing c
          then (case ad_write_data ad (dr_adapter d) data of
                  (a', ok) \<Rightarrow> (d\<lparr>dr_adapter := a'\<rparr>, if ok then Inr () else Inl StreamIo))
          else (d, Inr ()))"

text \<open>
  The outcome of a finished entry, \<open>None\<close> when the adapter's answer disagrees with the entry. The
  flag says whether the destination is committed for later hard links.
\<close>

definition finished_outcome :: "current_entry \<Rightarrow> entry_report \<Rightarrow>
    (entry_outcome_kind \<times> bool \<times> filesystem_finding list) option" where
  "finished_outcome c r =
     (let fs = er_findings r in
      case er_materialization r of
        MatFile \<Rightarrow> if ce_kind c = KindFile then Some (OutFile, True, fs) else None
      | MatDirectory \<Rightarrow> if ce_kind c = KindDir then Some (OutDirectory, False, fs) else None
      | MatSymlink \<Rightarrow> if ce_kind c = KindSymlink then Some (OutSymlink, False, fs) else None
      | MatHardlink \<Rightarrow> if ce_kind c = KindHardlink then Some (OutHardlink, True, fs) else None
      | MatSpecial \<Rightarrow> if is_special (ce_kind c) then Some (OutSpecial, False, fs) else None
      | MatDestinationExists \<Rightarrow>
          Some (OutRejected DestinationExists, False,
            fill_missing_findings (ce_path c) (ce_requests c) fs Refused
              ''destination conflict prevented metadata restoration'')
      | MatFailed \<Rightarrow>
          Some (OutRejected FilesystemError, False,
            fill_missing_findings (ce_path c) (ce_requests c) fs Refused
              ''entry-level filesystem failure prevented metadata restoration''))"

definition finish_materializing :: "'a filesystem_adapter \<Rightarrow> current_entry \<Rightarrow>
    'a adapter_driver \<Rightarrow> 'a adapter_driver \<times> (stream_error + unit)" where
  "finish_materializing ad c d =
     (case ad_finish_entry ad (dr_adapter d) of
        (a', None) \<Rightarrow> (d\<lparr>dr_adapter := a'\<rparr>, Inl StreamIo)
      | (a', Some r) \<Rightarrow>
          (case finished_outcome c r of
             None \<Rightarrow>
               (d\<lparr>dr_adapter := ad_abort_entry ad a'\<rparr>, Inl (protocol_error
                  ''filesystem adapter returned a materialization kind that disagrees with the entry''))
           | Some (out, committed, fs) \<Rightarrow>
               (case (committed, ce_destination c) of
                  (True, None) \<Rightarrow>
                    (d\<lparr>dr_adapter := a'\<rparr>, Inl (protocol_error (if out = OutFile
                       then ''adapter completed a file without a validated destination''
                       else ''adapter completed a hard link without a validated destination'')))
                | (_, dest) \<Rightarrow>
                    (d\<lparr>dr_adapter := a',
                       dr_committed := (if committed then key_insert (the dest) (dr_committed d) else dr_committed d),
                       dr_findings := dr_findings d @ fs,
                       dr_outcomes := dr_outcomes d @ [\<lparr>eo_path = ce_path c, eo_outcome = out\<rparr>]\<rparr>, Inr ()))))"

definition driver_end_entry :: "'a filesystem_adapter \<Rightarrow>
    'a adapter_driver \<Rightarrow> 'a adapter_driver \<times> (stream_error + unit)" where
  "driver_end_entry ad d0 =
     (case dr_current d0 of
        None \<Rightarrow> (d0, Inl (protocol_error ''archive ended an entry that was not open''))
      | Some c \<Rightarrow>
          let d = d0\<lparr>dr_current := None\<rparr> in
          if ce_materializing c then finish_materializing ad c d
          else (case ce_direct_outcome c of
             None \<Rightarrow> (d, Inl (protocol_error ''non-materializing entry lost its outcome''))
           | Some out \<Rightarrow>
               (d\<lparr>dr_outcomes := dr_outcomes d @ [\<lparr>eo_path = ce_path c, eo_outcome = out\<rparr>]\<rparr>, Inr ())))"

fun complete_findings :: "(archive_path \<times> filesystem_operation) list \<Rightarrow> filesystem_finding list \<Rightarrow>
    filesystem_finding list" where
  "complete_findings [] fs = fs"
| "complete_findings ((p, operation) # es) fs =
     complete_findings es
       (if (p, operation) \<in> set (map (\<lambda>f. (ff_path f, ff_operation f)) fs) then fs
        else fs @ [finding_partial p operation
               ''adapter declared support but did not report the requested operation''])"

definition driver_finish :: "'a filesystem_adapter \<Rightarrow>
    'a adapter_driver \<Rightarrow> 'a adapter_driver \<times> (stream_error + unit)" where
  "driver_finish ad d =
     (if dr_current d \<noteq> None then (d\<lparr>dr_adapter := ad_abort_entry ad (dr_adapter d)\<rparr>, Inl StreamIo)
      else if ad_capabilities ad (dr_adapter d) \<noteq> dr_capabilities d
      then (d, Inl (protocol_error ''filesystem adapter capabilities changed during an apply session''))
      else if dr_entries_seen d \<noteq> length (dr_planned d)
      then (d, Inl (protocol_error ''archive ended before every preflighted plan entry was observed''))
      else (case ad_finish_session ad (dr_adapter d) of
              (a', None) \<Rightarrow> (d\<lparr>dr_adapter := a'\<rparr>, Inl StreamIo)
            | (a', Some deferred) \<Rightarrow>
                (d\<lparr>dr_adapter := a',
                   dr_findings := complete_findings (dr_expected d) (dr_findings d @ deferred)\<rparr>, Inr ())))"

definition driver_abort :: "'a filesystem_adapter \<Rightarrow> 'a adapter_driver \<Rightarrow> 'a adapter_driver" where
  "driver_abort ad d = d\<lparr>dr_adapter := ad_abort_entry ad (dr_adapter d)\<rparr>"

section \<open>Applying a plan\<close>

datatype reader_event =
  ReadArchiveMetadata archive_metadata | ReadEntry entry_metadata | ReadData bytes | ReadEndEntry | ReadDone

definition driver_event :: "'a filesystem_adapter \<Rightarrow> reader_event \<Rightarrow>
    'a adapter_driver \<Rightarrow> 'a adapter_driver \<times> (stream_error + unit)" where
  "driver_event ad ev d =
     (case ev of
        ReadArchiveMetadata _ \<Rightarrow> (d, Inr ())
      | ReadEntry md \<Rightarrow> driver_start_entry ad md d
      | ReadData data \<Rightarrow> driver_write_data ad data d
      | ReadEndEntry \<Rightarrow> driver_end_entry ad d
      | ReadDone \<Rightarrow> driver_finish ad d)"

fun apply_events :: "'a filesystem_adapter \<Rightarrow> (stream_error + reader_event) list \<Rightarrow>
    'a adapter_driver \<Rightarrow> 'a adapter_driver \<times> (stream_error + unit) option" where
  "apply_events ad [] d = (d, None)"
| "apply_events ad (Inl e # evs) d = (driver_abort ad d, Some (Inl e))"
| "apply_events ad (Inr ev # evs) d =
     (case driver_event ad ev d of
        (d', Inl e) \<Rightarrow> (d', Some (Inl e))
      | (d', Inr _) \<Rightarrow> if ev = ReadDone then (d', Some (Inr ())) else apply_events ad evs d')"

definition apply_plan :: "'a filesystem_adapter \<Rightarrow> 'a \<Rightarrow> policy \<Rightarrow> limits \<Rightarrow> planned_entry list \<Rightarrow>
    (stream_error + reader_event) list \<Rightarrow>
    'a \<times> (stream_error + entry_outcome list \<times> filesystem_finding list) option" where
  "apply_plan ad a p l planned evs =
     (case driver_new ad a p l planned of
        (a', Inl e) \<Rightarrow> (a', Some (Inl e))
      | (_, Inr d) \<Rightarrow>
          (case apply_events ad evs d of
             (d', None) \<Rightarrow> (dr_adapter d', None)
           | (d', Some (Inl e)) \<Rightarrow> (dr_adapter d', Some (Inl e))
           | (d', Some (Inr _)) \<Rightarrow> (dr_adapter d', Some (Inr (dr_outcomes d', dr_findings d')))))"

end
