(* ===== verification/Oxide_Oci.thy ===== *)
theory Oxide_Oci
  imports Oxide_Filesystem
begin

text \<open>
  OCI image layers: \<open>libarchive_oxide/src/oci/plan.rs\<close> (ownership mapping, overlay markers and the
  layer planner) and \<open>oci/apply.rs\<close> (the applier). The ownership mapper is a trait callers
  implement, so it is a function argument. The digests of a layer are computed elsewhere: the
  verification pass is an argument that answers with an error or with success.
\<close>

section \<open>Ownership\<close>

record ownership_table =
  ot_uid :: "nat \<rightharpoonup> nat"
  ot_gid :: "nat \<rightharpoonup> nat"

definition ownership_table_new :: ownership_table where
  "ownership_table_new = \<lparr>ot_uid = Map.empty, ot_gid = Map.empty\<rparr>"

definition map_uid :: "nat \<Rightarrow> nat \<Rightarrow> ownership_table \<Rightarrow> ownership_table" where
  "map_uid old new t = t\<lparr>ot_uid := (ot_uid t)(old \<mapsto> new)\<rparr>"

definition map_gid :: "nat \<Rightarrow> nat \<Rightarrow> ownership_table \<Rightarrow> ownership_table" where
  "map_gid old new t = t\<lparr>ot_gid := (ot_gid t)(old \<mapsto> new)\<rparr>"

definition table_map_owner :: "ownership_table \<Rightarrow> owner \<Rightarrow> owner" where
  "table_map_owner t w =
     w\<lparr>own_uid := map_option (\<lambda>i. opt_or i (ot_uid t i)) (own_uid w),
       own_gid := map_option (\<lambda>i. opt_or i (ot_gid t i)) (own_gid w)\<rparr>"

definition identity_map_owner :: "owner \<Rightarrow> owner" where
  "identity_map_owner w = w"

section \<open>Markers\<close>

definition WHITEOUT_PREFIX :: bytes where
  "WHITEOUT_PREFIX = ascii ''.wh.''"

definition OPAQUE_MARKER :: bytes where
  "OPAQUE_MARKER = ascii ''.wh..wh..opq''"

definition rposition :: "('a \<Rightarrow> bool) \<Rightarrow> 'a list \<Rightarrow> nat option" where
  "rposition P xs = map_option (\<lambda>i. length xs - Suc i) (position P (rev xs))"

definition split_last :: "bytes \<Rightarrow> bytes \<times> bytes" where
  "split_last p =
     (let trimmed = opt_or p (strip_suffix p (ascii ''/'')) in
      case rposition is_slash trimmed of
        Some i \<Rightarrow> (take i trimmed, drop (i + 1) trimmed)
      | None \<Rightarrow> ([], trimmed))"

definition oci_join :: "bytes \<Rightarrow> bytes \<Rightarrow> bytes" where
  "oci_join parent child = (if parent = [] then child else parent @ [47] @ child)"

datatype marker = MarkerRegular | MarkerWhiteout bytes | MarkerOpaque bytes | MarkerUnsafe

definition classify :: "bytes \<Rightarrow> marker" where
  "classify p =
     (case split_last p of (parent, name) \<Rightarrow>
        if name = OPAQUE_MARKER then MarkerOpaque parent
        else (case strip_prefix name WHITEOUT_PREFIX of
                Some target \<Rightarrow> if target = [] then MarkerUnsafe else MarkerWhiteout (oci_join parent target)
              | None \<Rightarrow> MarkerRegular))"

section \<open>The planner\<close>

datatype oci_rejection = OciUnsafePath | OciDuplicate | OciUnsafeLinkTarget | OciUnsupportedKind | OciSymlinkEscape

fun rejection_label :: "oci_rejection \<Rightarrow> string" where
  "rejection_label OciUnsafePath = ''unsafe or unrepresentable path''"
| "rejection_label OciDuplicate = ''duplicate path within the layer''"
| "rejection_label OciUnsafeLinkTarget = ''unsafe or uncommitted link target''"
| "rejection_label OciUnsupportedKind = ''entry kind disabled by policy or unsupported''"
| "rejection_label OciSymlinkEscape = ''destination escapes through a layer symlink''"

record oci_materialize =
  om_metadata :: entry_metadata
  om_destination :: bytes
  om_link_target :: "bytes option"
  om_original_owner :: "owner option"

record oci_removal =
  orm_path :: archive_path
  orm_destination :: bytes

datatype oci_plan_operation =
    OciMaterialize oci_materialize | OciMapOwnership oci_materialize
  | OciWhiteout oci_removal | OciOpaqueDir oci_removal | OciReject archive_path oci_rejection

record oci_planner =
  op_policy :: policy
  op_operations :: "oci_plan_operation list"
  op_claimed :: claims
  op_committed :: key_set
  op_symlinks :: key_set

definition oci_planner_new :: "policy \<Rightarrow> oci_planner" where
  "oci_planner_new p =
     \<lparr>op_policy = p, op_operations = [], op_claimed = claims_default, op_committed = Map.empty,
      op_symlinks = Map.empty\<rparr>"

fun component_bytes :: "component \<Rightarrow> bytes" where
  "component_bytes RootDir = ascii ''/''"
| "component_bytes CurDir = ascii ''.''"
| "component_bytes ParentDir = ascii ''..''"
| "component_bytes (Normal c) = c"

fun escapes_loop :: "key_set \<Rightarrow> bytes \<Rightarrow> bytes \<Rightarrow> component list \<Rightarrow> bool" where
  "escapes_loop links dest pre [] = False"
| "escapes_loop links dest pre (c # cs) =
     (let pre' = path_push pre (component_bytes c) in
      if path_components pre' = path_components dest then False
      else if (case from_relative_path pre' of None \<Rightarrow> False | Some k \<Rightarrow> links (dk_identity k) \<noteq> None) then True
      else escapes_loop links dest pre' cs)"

definition escapes_symlink :: "key_set \<Rightarrow> bytes \<Rightarrow> bool" where
  "escapes_symlink links dest = escapes_loop links dest [] (path_components dest)"

definition plan_removal :: "oci_planner \<Rightarrow> archive_path \<Rightarrow> bytes \<Rightarrow> bool \<Rightarrow> oci_plan_operation" where
  "plan_removal s p raw opaque =
     (case (if raw = [] then Some [] else sanitize raw) of
        None \<Rightarrow> OciReject p OciUnsafePath
      | Some dest \<Rightarrow>
          if escapes_symlink (op_symlinks s) dest then OciReject p OciSymlinkEscape
          else (if opaque then OciOpaqueDir else OciWhiteout) \<lparr>orm_path = p, orm_destination = dest\<rparr>)"

definition oci_link_target :: "oci_planner \<Rightarrow> entry_metadata \<Rightarrow> oci_rejection + bytes option" where
  "oci_link_target s md =
     (case md_kind md of
        KindSymlink \<Rightarrow>
          if \<not> symlinks (op_policy s) then Inl OciUnsupportedKind
          else (case Option.bind (md_link_target md) sanitize_archive_path of
                  None \<Rightarrow> Inl OciUnsafeLinkTarget | Some t \<Rightarrow> Inr (Some t))
      | KindHardlink \<Rightarrow>
          if \<not> hardlinks (op_policy s) then Inl OciUnsupportedKind
          else (case Option.bind (md_link_target md) from_archive_path of
                  None \<Rightarrow> Inl OciUnsafeLinkTarget
                | Some k \<Rightarrow>
                    (case op_committed s (dk_identity k) of
                       Some t \<Rightarrow> Inr (Some (dk_path t)) | None \<Rightarrow> Inl OciUnsafeLinkTarget))
      | _ \<Rightarrow> Inr None)"

definition oci_kind_allowed :: "bool \<Rightarrow> oci_planner \<Rightarrow> entry_metadata \<Rightarrow> bool" where
  "oci_kind_allowed linux s md \<longleftrightarrow> (is_special (md_kind md) \<longrightarrow> special_files (op_policy s) \<and> linux)"

definition oci_record :: "entry_metadata \<Rightarrow> destination_key \<Rightarrow> oci_planner \<Rightarrow> oci_planner" where
  "oci_record md k s =
     (case md_kind md of
        KindFile \<Rightarrow> s\<lparr>op_committed := key_insert k (op_committed s)\<rparr>
      | KindHardlink \<Rightarrow> s\<lparr>op_committed := key_insert k (op_committed s)\<rparr>
      | KindSymlink \<Rightarrow> s\<lparr>op_symlinks := key_insert k (op_symlinks s)\<rparr>
      | _ \<Rightarrow> s)"

definition oci_operation :: "(owner \<Rightarrow> owner) \<Rightarrow> entry_metadata \<Rightarrow> bytes \<Rightarrow> bytes option \<Rightarrow> oci_plan_operation" where
  "oci_operation mapper md dest link =
     (let original = md_owner md; mapped = mapper original; remapped = mapped \<noteq> original;
          mat = \<lparr>om_metadata = md\<lparr>md_owner := mapped\<rparr>, om_destination = dest, om_link_target = link,
                 om_original_owner = (if remapped then Some original else None)\<rparr> in
      if remapped then OciMapOwnership mat else OciMaterialize mat)"

definition plan_materialize :: "bool \<Rightarrow> (owner \<Rightarrow> owner) \<Rightarrow> entry_metadata \<Rightarrow> oci_planner \<Rightarrow>
    oci_planner \<times> oci_plan_operation" where
  "plan_materialize linux mapper md s =
     (let p = md_path md in
      if external_reference md then (s, OciReject p OciUnsupportedKind)
      else (case from_archive_path p of
        None \<Rightarrow> (s, OciReject p OciUnsafePath)
      | Some k \<Rightarrow>
          if escapes_symlink (op_symlinks s) (dk_path k) then (s, OciReject p OciSymlinkEscape)
          else (case claim (op_claimed s) (dk_identity k) (md_kind md) of
             (c, False) \<Rightarrow> (s\<lparr>op_claimed := c\<rparr>, OciReject p OciDuplicate)
           | (c, True) \<Rightarrow>
               let s1 = s\<lparr>op_claimed := c\<rparr> in
               (case oci_link_target s1 md of
                  Inl reason \<Rightarrow> (s1, OciReject p reason)
                | Inr link \<Rightarrow>
                    if \<not> oci_kind_allowed linux s1 md then (s1, OciReject p OciUnsupportedKind)
                    else (oci_record md k s1, oci_operation mapper md (dk_path k) link)))))"

definition oci_observe :: "bool \<Rightarrow> (owner \<Rightarrow> owner) \<Rightarrow> entry_metadata \<Rightarrow> oci_planner \<Rightarrow> oci_planner" where
  "oci_observe linux mapper md s =
     (if is_structural md then s
      else
        let p = md_path md;
            (s', operation) =
              (case classify (ap_raw p) of
                 MarkerUnsafe \<Rightarrow> (s, OciReject p OciUnsafePath)
               | MarkerWhiteout target \<Rightarrow> (s, plan_removal s p target False)
               | MarkerOpaque directory \<Rightarrow> (s, plan_removal s p directory True)
               | MarkerRegular \<Rightarrow> plan_materialize linux mapper md s)
        in s'\<lparr>op_operations := op_operations s' @ [operation]\<rparr>)"

definition oci_plan :: "bool \<Rightarrow> policy \<Rightarrow> (owner \<Rightarrow> owner) \<Rightarrow> entry_metadata list \<Rightarrow> oci_plan_operation list" where
  "oci_plan linux p mapper mds = op_operations (fold (oci_observe linux mapper) mds (oci_planner_new p))"

section \<open>What a layer plan guarantees\<close>

fun materialized :: "oci_plan_operation list \<Rightarrow> oci_materialize list" where
  "materialized [] = []"
| "materialized (OciMaterialize m # ops) = m # materialized ops"
| "materialized (OciMapOwnership m # ops) = m # materialized ops"
| "materialized (_ # ops) = materialized ops"

definition oci_granted :: "oci_plan_operation list \<Rightarrow> (component list \<times> entry_kind) list" where
  "oci_granted ops = map (\<lambda>m. (path_components (om_destination m), md_kind (om_metadata m))) (materialized ops)"

definition link_free :: "oci_plan_operation list \<Rightarrow> bytes \<Rightarrow> bool" where
  \<comment> \<open>no directory above the destination is a symbolic link planned earlier\<close>
  "link_free earlier dest \<longleftrightarrow>
     (\<forall>a \<in> set (ancestors (path_components dest)). (a, KindSymlink) \<notin> set (oci_granted earlier))"

definition below_root :: "bytes \<Rightarrow> bool" where
  "below_root dest \<longleftrightarrow> (\<exists>cs. list_all safe_name cs \<and> path_components dest = map Normal cs)"

definition materialize_confined :: "policy \<Rightarrow> oci_plan_operation list \<Rightarrow> oci_materialize \<Rightarrow> bool" where
  "materialize_confined p earlier m \<longleftrightarrow>
     below_root (om_destination m) \<and> path_components (om_destination m) \<noteq> [] \<and>
     link_free earlier (om_destination m) \<and>
     list_all (\<lambda>g. compatible g (path_components (om_destination m), md_kind (om_metadata m))) (oci_granted earlier) \<and>
     (case md_kind (om_metadata m) of
        KindSymlink \<Rightarrow> symlinks p \<and> (\<exists>t. om_link_target m = Some t \<and> below_root t)
      | KindHardlink \<Rightarrow> hardlinks p \<and> (\<exists>t kind. om_link_target m = Some t \<and>
          (path_components t, kind) \<in> set (oci_granted earlier) \<and> kind \<in> {KindFile, KindHardlink})
      | KindFile \<Rightarrow> om_link_target m = None
      | KindDir \<Rightarrow> om_link_target m = None
      | _ \<Rightarrow> special_files p \<and> om_link_target m = None)"

definition removal_confined :: "oci_plan_operation list \<Rightarrow> oci_removal \<Rightarrow> bool" where
  "removal_confined earlier r \<longleftrightarrow> below_root (orm_destination r) \<and> link_free earlier (orm_destination r)"

fun operation_confined :: "policy \<Rightarrow> oci_plan_operation list \<Rightarrow> oci_plan_operation \<Rightarrow> bool" where
  "operation_confined p earlier (OciMaterialize m) = materialize_confined p earlier m"
| "operation_confined p earlier (OciMapOwnership m) = materialize_confined p earlier m"
| "operation_confined p earlier (OciWhiteout r) =
     (removal_confined earlier r \<and> path_components (orm_destination r) \<noteq> [])"
| "operation_confined p earlier (OciOpaqueDir r) = removal_confined earlier r"
| "operation_confined p earlier (OciReject q reason) = True"

fun operations_confined :: "policy \<Rightarrow> oci_plan_operation list \<Rightarrow> oci_plan_operation list \<Rightarrow> bool" where
  "operations_confined p earlier [] = True"
| "operations_confined p earlier (x # xs) =
     (operation_confined p earlier x \<and> operations_confined p (earlier @ [x]) xs)"

lemma operations_confined_snoc:
  "operations_confined p earlier (xs @ [x]) \<longleftrightarrow>
   operations_confined p earlier xs \<and> operation_confined p (earlier @ xs) x"
  by (induction xs arbitrary: earlier) auto

lemma materialized_append [simp]: "materialized (xs @ ys) = materialized xs @ materialized ys"
  by (induction xs rule: materialized.induct) auto

lemma oci_granted_append [simp]: "oci_granted (xs @ ys) = oci_granted xs @ oci_granted ys"
  by (simp add: oci_granted_def)

lemma spell_not_Nil: "list_all safe_name cs \<Longrightarrow> cs \<noteq> [] \<Longrightarrow> spell cs \<noteq> []"
  using spell_last [of cs] by (auto simp: list_all_iff safe_name_def)

lemma escapes_loop_exact:
  assumes dest: "path_components dest = map Normal (done @ rest)" and safe: "list_all safe_name (done @ rest)"
  shows "escapes_loop links dest (spell done) (map Normal rest) \<longleftrightarrow>
    (\<exists>n. length done < n \<and> n < length (done @ rest) \<and> links (map Normal (take n (done @ rest))) \<noteq> None)"
  using assms
proof (induction rest arbitrary: "done")
  case (Cons c rest)
  have all: "list_all safe_name (done @ [c])" "done @ [c] \<noteq> []" using Cons.prems(2) by (simp_all add: list_all_iff)
  have push: "path_push (spell done) c = spell (done @ [c])"
    using Cons.prems(2) by (intro push_spell) (auto simp: list_all_iff)
  have comps: "path_components (spell (done @ [c])) = map Normal (done @ [c])"
    using all by (intro path_components_spell) (auto simp: list_all_iff)
  have key: "from_relative_path (spell (done @ [c])) = Some \<lparr>dk_path = spell (done @ [c])\<rparr>"
    using spell_not_Nil [OF all] comps by (auto simp: from_relative_path_def list_all_iff)
  show ?case
  proof (cases "rest = []")
    case True
    with push comps Cons.prems(1) show ?thesis by (auto simp: Let_def)
  next
    case False
    have "(\<exists>n. length done < n \<and> n < length (done @ c # rest) \<and> links (map Normal (take n (done @ c # rest))) \<noteq> None) \<longleftrightarrow>
      links (map Normal (done @ [c])) \<noteq> None \<or>
      (\<exists>n. length (done @ [c]) < n \<and> n < length ((done @ [c]) @ rest) \<and>
        links (map Normal (take n ((done @ [c]) @ rest))) \<noteq> None)" (is "?L \<longleftrightarrow> ?R")
    proof
      assume ?L
      then obtain n where n: "length done < n" "n < length (done @ c # rest)" "links (map Normal (take n (done @ c # rest))) \<noteq> None"
        by blast
      show ?R
      proof (cases "n = Suc (length done)")
        case True
        with n(3) show ?thesis by simp
      next
        case False
        with n show ?thesis by (intro disjI2 exI [of _ n]) simp
      qed
    next
      assume ?R
      then show ?L
      proof
        assume "links (map Normal (done @ [c])) \<noteq> None"
        with False show ?thesis by (intro exI [of _ "Suc (length done)"]) simp
      next
        assume "\<exists>n. length (done @ [c]) < n \<and> n < length ((done @ [c]) @ rest) \<and>
            links (map Normal (take n ((done @ [c]) @ rest))) \<noteq> None"
        then obtain n where "length (done @ [c]) < n" "n < length ((done @ [c]) @ rest)"
            "links (map Normal (take n ((done @ [c]) @ rest))) \<noteq> None" by blast
        then show ?thesis by (intro exI [of _ n]) simp
      qed
    qed
    moreover have "escapes_loop links dest (spell done) (map Normal (c # rest)) \<longleftrightarrow>
        links (map Normal (done @ [c])) \<noteq> None \<or> escapes_loop links dest (spell (done @ [c])) (map Normal rest)"
      using False push comps key Cons.prems(1) by (auto simp: Let_def dk_identity_def)
    ultimately show ?thesis using Cons.IH [of "done @ [c]"] Cons.prems by simp
  qed
qed simp

lemma escapes_symlink_exact:
  assumes "path_components dest = map Normal cs" and "list_all safe_name cs"
  shows "escapes_symlink links dest \<longleftrightarrow> (\<exists>a \<in> set (ancestors (map Normal cs)). links a \<noteq> None)"
proof -
  have "set (ancestors (map Normal cs)) = {map Normal (take n cs) |n. 0 < n \<and> n < length cs}"
    by (auto simp: ancestors_def take_map Suc_le_eq)
  with escapes_loop_exact [of dest "[]" cs links] assms show ?thesis
    by (auto simp: escapes_symlink_def)
qed

definition planner_ok :: "policy \<Rightarrow> oci_planner \<Rightarrow> bool" where
  "planner_ok p s \<longleftrightarrow>
     op_policy s = p \<and>
     (\<exists>gs. claims_of (op_claimed s) gs \<and> set (oci_granted (op_operations s)) \<subseteq> set gs) \<and>
     (\<forall>i. op_symlinks s i \<noteq> None \<longleftrightarrow> (i, KindSymlink) \<in> set (oci_granted (op_operations s))) \<and>
     (\<forall>i k. op_committed s i = Some k \<longrightarrow> dk_identity k = i \<and>
        (\<exists>kind \<in> {KindFile, KindHardlink}. (i, kind) \<in> set (oci_granted (op_operations s)))) \<and>
     operations_confined p [] (op_operations s)"

lemma link_free_iff:
  assumes "planner_ok p s" and "path_components dest = map Normal cs" and "list_all safe_name cs"
  shows "escapes_symlink (op_symlinks s) dest \<longleftrightarrow> \<not> link_free (op_operations s) dest"
  using assms escapes_symlink_exact [OF assms(2,3), of "op_symlinks s"]
  by (auto simp: planner_ok_def link_free_def)

lemma silent_operation:
  assumes "planner_ok p s" and "materialized [x] = []" and "operation_confined p (op_operations s) x"
  shows "planner_ok p (s\<lparr>op_operations := op_operations s @ [x]\<rparr>)"
  using assms by (simp add: planner_ok_def oci_granted_def operations_confined_snoc)

lemma split_last_slashes: "raw \<noteq> [] \<Longrightarrow> sanitize raw = Some dest \<Longrightarrow> below_root dest \<and> path_components dest \<noteq> []"
  by (rule sanitize_Some [of raw dest "[]"]) (auto simp: below_root_def)

lemma classify_whiteout: "classify q = MarkerWhiteout target \<Longrightarrow> target \<noteq> []"
  by (auto simp: classify_def oci_join_def split: prod.splits if_splits option.splits)

lemma plan_removal_confined:
  assumes "planner_ok p s" and "opaque \<or> raw \<noteq> []"
  shows "materialized [plan_removal s q raw opaque] = [] \<and>
    operation_confined p (op_operations s) (plan_removal s q raw opaque)"
proof (cases "raw = []")
  case True
  then have "path_components [] = map Normal []" by (simp add: path_components_def starts_with_def ascii_def
      List.map_filter_simps component_of_def)
  with True assms link_free_iff [OF assms(1), of "[]" "[]"] show ?thesis
    by (auto simp: plan_removal_def removal_confined_def below_root_def)
next
  case False
  show ?thesis
  proof (cases "sanitize raw")
    case None
    with False show ?thesis by (simp add: plan_removal_def)
  next
    case (Some dest)
    with split_last_slashes [OF False Some] link_free_iff [OF assms(1), of dest] False show ?thesis
      by (auto simp: plan_removal_def removal_confined_def below_root_def)
  qed
qed

lemma claimed_planner:
  assumes "planner_ok p s" and "claim (op_claimed s) (dk_identity k) kind = (c, ok)" and "dk_identity k \<noteq> []"
  shows "planner_ok p (s\<lparr>op_claimed := c\<rparr>)"
    and "ok \<Longrightarrow> list_all (\<lambda>g. compatible g (dk_identity k, kind)) (oci_granted (op_operations s))"
    and "ok \<Longrightarrow> \<exists>gs. claims_of c gs \<and> insert (dk_identity k, kind) (set (oci_granted (op_operations s))) \<subseteq> set gs"
proof -
  obtain gs where gs: "claims_of (op_claimed s) gs" "set (oci_granted (op_operations s)) \<subseteq> set gs"
    using assms(1) by (auto simp: planner_ok_def)
  note exact = claim_exact [OF gs(1) assms(3), of kind]
  have ok: "ok \<longleftrightarrow> list_all (\<lambda>g. compatible g (dk_identity k, kind)) gs" and c: "\<not> ok \<Longrightarrow> c = op_claimed s"
    using exact(1) unfolding assms(2) by (simp_all split: if_splits)
  then show "list_all (\<lambda>g. compatible g (dk_identity k, kind)) (oci_granted (op_operations s))" if ok
    using that gs(2) by (auto simp: list_all_iff)
  show claims: "\<exists>gs. claims_of c gs \<and> insert (dk_identity k, kind) (set (oci_granted (op_operations s))) \<subseteq> set gs" if ok
    using exact(2) that ok gs(2) unfolding assms(2)
    by (intro exI [of _ "(dk_identity k, kind) # gs"]) auto
  show "planner_ok p (s\<lparr>op_claimed := c\<rparr>)"
  proof (cases ok)
    case True
    with claims assms(1) show ?thesis by (auto simp: planner_ok_def)
  next
    case False
    with c assms(1) show ?thesis by (simp add: planner_ok_def)
  qed
qed

lemma oci_link_target_confined:
  assumes "planner_ok p s" and "oci_link_target s md = Inr link" and "oci_kind_allowed linux s md"
  shows "case md_kind md of
        KindSymlink \<Rightarrow> symlinks p \<and> (\<exists>t. link = Some t \<and> below_root t)
      | KindHardlink \<Rightarrow> hardlinks p \<and> (\<exists>t kind. link = Some t \<and>
          (path_components t, kind) \<in> set (oci_granted (op_operations s)) \<and> kind \<in> {KindFile, KindHardlink})
      | KindFile \<Rightarrow> link = None
      | KindDir \<Rightarrow> link = None
      | _ \<Rightarrow> special_files p \<and> link = None"
proof (cases "md_kind md")
  case KindSymlink
  then obtain q t where "symlinks p" "link = Some t" and t: "sanitize_archive_path q = Some t"
    using assms(1,2) by (auto simp: oci_link_target_def planner_ok_def bind_eq_Some_conv split: if_splits option.splits)
  moreover obtain raw where "sanitize raw = Some t"
    using t by (auto simp: sanitize_archive_path_def split: path_encoding.splits prod.splits if_splits option.splits)
  then have "below_root t" by (rule sanitize_Some [of raw t "[]"]) (auto simp: below_root_def)
  ultimately show ?thesis using KindSymlink by simp
next
  case KindHardlink
  then obtain i t where "hardlinks p" "link = Some (dk_path t)" and t: "op_committed s i = Some t"
    using assms(1,2) by (auto simp: oci_link_target_def planner_ok_def split: if_splits option.splits)
  moreover obtain kind where "kind \<in> {KindFile, KindHardlink}" "(dk_identity t, kind) \<in> set (oci_granted (op_operations s))"
    using assms(1) t unfolding planner_ok_def by blast
  ultimately show ?thesis using KindHardlink by (auto simp: dk_identity_def)
qed (use assms in \<open>auto simp: oci_link_target_def oci_kind_allowed_def is_special_def planner_ok_def\<close>)

lemma recorded_planner:
  assumes ok: "planner_ok p s" and dest: "path_components (om_destination m) = dk_identity k"
    and md: "md_kind (om_metadata m) = md_kind md"
    and claims: "\<exists>gs. claims_of (op_claimed s) gs \<and>
      insert (dk_identity k, md_kind md) (set (oci_granted (op_operations s))) \<subseteq> set gs"
    and conf: "materialize_confined p (op_operations s) m" and x: "x = OciMaterialize m \<or> x = OciMapOwnership m"
  shows "planner_ok p ((oci_record md k s)\<lparr>op_operations := op_operations s @ [x]\<rparr>)"
proof -
  have g: "oci_granted [x] = [(dk_identity k, md_kind md)]"
    using x dest md by (auto simp: oci_granted_def)
  have confined: "operations_confined p [] (op_operations s @ [x])"
    using ok conf x by (auto simp: operations_confined_snoc planner_ok_def)
  have keys: "(\<exists>y. key_insert k m' i = Some y) \<longleftrightarrow> i = dk_identity k \<or> (\<exists>y. m' i = Some y)" for m' i
    by (auto simp: key_insert_def split: option.splits)
  have committed: "dk_identity k' = i \<and> (\<exists>kind \<in> {KindFile, KindHardlink}. (i, kind) \<in> set (oci_granted (op_operations s @ [x])))"
    if "op_committed (oci_record md k s) i = Some k'" for i k'
  proof -
    from that consider "op_committed s i = Some k'" | "i = dk_identity k" "k' = k" "md_kind md \<in> {KindFile, KindHardlink}"
      by (auto simp: oci_record_def dest!: key_insert_Some split: entry_kind.splits)
    then show ?thesis using ok by cases (auto simp: g planner_ok_def)
  qed
  have links: "op_symlinks (oci_record md k s) i \<noteq> None \<longleftrightarrow> (i, KindSymlink) \<in> set (oci_granted (op_operations s @ [x]))" for i
    using ok by (auto simp: g planner_ok_def oci_record_def keys split: entry_kind.splits)
  show ?thesis
    using ok claims committed links confined
    by (auto simp: planner_ok_def g oci_record_def split: entry_kind.splits)
qed

lemma plan_materialize_confined:
  assumes ok: "planner_ok p s" and step: "plan_materialize linux mapper md s = (s', x)"
  shows "op_operations s' = op_operations s \<and> planner_ok p (s'\<lparr>op_operations := op_operations s' @ [x]\<rparr>)"
proof -
  have rejected: "planner_ok p (t\<lparr>op_operations := op_operations t @ [OciReject q reason]\<rparr>)" if "planner_ok p t" for t q reason
    using silent_operation [OF that] by simp
  consider (refused) reason where "s' = s" "x = OciReject (md_path md) reason"
    | (destination) k c claimed where "from_archive_path (md_path md) = Some k" "\<not> escapes_symlink (op_symlinks s) (dk_path k)"
      "claim (op_claimed s) (dk_identity k) (md_kind md) = (c, claimed)"
    using step by (auto simp: plan_materialize_def Let_def split: if_splits option.splits prod.splits)
  then show ?thesis
  proof cases
    case refused
    with rejected [OF ok] show ?thesis by simp
  next
    case destination
    obtain cs where cs: "cs \<noteq> []" "list_all safe_name cs" "dk_identity k = map Normal cs"
        "path_components (dk_path k) = map Normal cs"
      using from_archive_path_safe [OF destination(1)] .
    have k: "dk_identity k \<noteq> []" using cs by simp
    have free: "link_free (op_operations s) (dk_path k)"
      using link_free_iff [OF ok cs(4,2)] destination(2) by simp
    note claimed = claimed_planner [OF ok destination(3) k]
    let ?s = "s\<lparr>op_claimed := c\<rparr>"
    have eq: "(s', x) =
      (if external_reference md then (s, OciReject (md_path md) OciUnsupportedKind)
       else if \<not> claimed then (?s, OciReject (md_path md) OciDuplicate)
       else (case oci_link_target ?s md of
               Inl reason \<Rightarrow> (?s, OciReject (md_path md) reason)
             | Inr link \<Rightarrow>
                 if \<not> oci_kind_allowed linux ?s md then (?s, OciReject (md_path md) OciUnsupportedKind)
                 else (oci_record md k ?s, oci_operation mapper md (dk_path k) link)))"
      unfolding step [symmetric] plan_materialize_def Let_def destination(1) option.case
      using destination(2,3) by (simp split: bool.split)
    consider (no) reason where "s' = ?s" "x = OciReject (md_path md) reason"
      | (out) "s' = s" "x = OciReject (md_path md) OciUnsupportedKind"
      | (yes) link where "claimed" "oci_link_target ?s md = Inr link" "oci_kind_allowed linux ?s md"
        "s' = oci_record md k ?s" "x = oci_operation mapper md (dk_path k) link"
      using eq by (cases "oci_link_target ?s md") (auto split: if_splits)
    then show ?thesis
    proof cases
      case no
      with rejected [OF claimed(1)] show ?thesis by simp
    next
      case out
      with rejected [OF ok] show ?thesis by simp
    next
      case yes
      define m where "m = \<lparr>om_metadata = md\<lparr>md_owner := mapper (md_owner md)\<rparr>, om_destination = dk_path k,
        om_link_target = link, om_original_owner = (if mapper (md_owner md) \<noteq> md_owner md then Some (md_owner md) else None)\<rparr>"
      have x: "x = OciMaterialize m \<or> x = OciMapOwnership m"
        using yes(5) by (auto simp: oci_operation_def Let_def m_def)
      have "materialize_confined p (op_operations ?s) m"
        using oci_link_target_confined [OF claimed(1) yes(2,3)] claimed(2) [OF yes(1)] free cs
        by (auto simp: materialize_confined_def m_def below_root_def split: entry_kind.splits)
      with recorded_planner [OF claimed(1), of m k md x] claimed(3) [OF yes(1)] x cs yes(4) show ?thesis
        by (auto simp: m_def oci_record_def split: entry_kind.splits)
    qed
  qed
qed

lemma observe_confined:
  assumes "planner_ok p s"
  shows "planner_ok p (oci_observe linux mapper md s) \<and>
    length (op_operations (oci_observe linux mapper md s)) = length (op_operations s) + (if is_structural md then 0 else 1)"
proof (cases "is_structural md")
  case True
  with assms show ?thesis by (simp add: oci_observe_def)
next
  case False
  show ?thesis
  proof (cases "classify (ap_raw (md_path md))")
    case MarkerRegular
    obtain s' x where step: "plan_materialize linux mapper md s = (s', x)" by fastforce
    from plan_materialize_confined [OF assms step] step False MarkerRegular show ?thesis
      by (auto simp: oci_observe_def Let_def)
  next
    case (MarkerWhiteout t)
    with plan_removal_confined [OF assms, of False t "md_path md"] classify_whiteout [OF MarkerWhiteout] False
    show ?thesis by (auto simp: oci_observe_def Let_def intro!: silent_operation [OF assms])
  next
    case (MarkerOpaque t)
    with plan_removal_confined [OF assms, of True t "md_path md"] False show ?thesis
      by (auto simp: oci_observe_def Let_def intro!: silent_operation [OF assms])
  next
    case MarkerUnsafe
    with False silent_operation [OF assms, of "OciReject (md_path md) OciUnsafePath"] show ?thesis
      by (simp add: oci_observe_def Let_def)
  qed
qed

lemma fold_observe_confined:
  "planner_ok p s \<Longrightarrow> planner_ok p (fold (oci_observe linux mapper) mds s) \<and>
   length (op_operations (fold (oci_observe linux mapper) mds s)) =
     length (op_operations s) + length (filter (\<lambda>md. \<not> is_structural md) mds)"
proof (induction mds arbitrary: s)
  case (Cons md mds)
  from observe_confined [OF Cons.prems, of linux mapper md] Cons.IH [of "oci_observe linux mapper md s"] show ?case
    by auto
qed simp

lemma planner_ok_new: "planner_ok p (oci_planner_new p)"
  using claims_of_default by (auto simp: planner_ok_def oci_planner_new_def oci_granted_def)

text \<open>
  C15. A layer plan is confined, whatever the layer contains. It has one operation per entry that is
  not the archive root, and each operation that changes the file system addresses ordinary names
  below the root, never through a directory that an earlier entry of the layer planned as a symbolic
  link. Created objects are pairwise compatible, symbolic links point to confined paths, hard links to
  files created earlier in the layer, and links and special files need their permission. A whiteout
  never addresses the root itself; an opaque marker may.
\<close>

theorem oci_plan_confined:
  "length (oci_plan linux p mapper mds) = length (filter (\<lambda>md. \<not> is_structural md) mds) \<and>
   operations_confined p [] (oci_plan linux p mapper mds)"
  using fold_observe_confined [OF planner_ok_new, of p linux mapper mds]
  by (simp add: oci_plan_def planner_ok_def) (simp add: oci_planner_new_def)

section \<open>Markers and the path rules\<close>

text \<open>A name without the one trailing slash \<open>split_last\<close> ignores.\<close>

definition trim_slash :: "bytes \<Rightarrow> bytes" where
  "trim_slash p = opt_or p (strip_suffix p (ascii ''/''))"

lemma trim_slash_eq: "trim_slash p = (if p \<noteq> [] \<and> last p = 47 then butlast p else p)"
  by (cases p rule: rev_cases) (auto simp: trim_slash_def strip_suffix_def ends_with_def ascii_def opt_or_def)

lemma position_at_first: "\<forall>x \<in> set xs. \<not> P x \<Longrightarrow> P y \<Longrightarrow> position P (xs @ y # ys) = Some (length xs)"
  by (induction xs) auto

lemma position_none: "\<forall>x \<in> set xs. \<not> P x \<Longrightarrow> position P xs = None"
  by (induction xs) auto

lemma split_last_cut:
  assumes "trim_slash p = parent @ 47 # name" and "47 \<notin> set name"
  shows "split_last p = (parent, name)"
proof -
  have "position is_slash (rev (trim_slash p)) = Some (length name)"
    using position_at_first [of "rev name" is_slash 47 "rev parent"] assms by auto
  with assms show ?thesis by (simp add: split_last_def trim_slash_def [symmetric] rposition_def)
qed

lemma split_last_whole:
  assumes "47 \<notin> set (trim_slash p)"
  shows "split_last p = ([], trim_slash p)"
proof -
  have "position is_slash (rev (trim_slash p)) = None" using assms by (intro position_none) auto
  then show ?thesis by (simp add: split_last_def trim_slash_def [symmetric] rposition_def Let_def)
qed

lemma sanitize_absolute: "sanitize (47 # p) = None"
  by (simp add: sanitize_eq starts_with_def ascii_def)

lemma sanitize_name:
  assumes "47 \<notin> set n"
  shows "sanitize n = (if safe_name n then Some n else None)"
proof -
  have "split_by is_slash n = [n]" using assms by (intro split_by_solid) auto
  moreover have "\<not> starts_with n (ascii ''/'')" using assms by (cases n) (auto simp: starts_with_def ascii_def)
  ultimately show ?thesis using assms by (auto simp: sanitize_eq safe_name_def plain_segment_def)
qed

lemma escapes_short:
  assumes "safe_name n"
  shows "\<not> escapes_symlink links n" "\<not> escapes_symlink links []"
proof -
  have "path_components n = map Normal [n]" using path_components_spell [of "[n]"] assms by simp
  with escapes_symlink_exact [of n "[n]" links] assms show "\<not> escapes_symlink links n" by (simp add: ancestors_def)
  have "path_components [] = map Normal []" by (simp add: path_components_def starts_with_def ascii_def
      List.map_filter_simps component_of_def)
  with escapes_symlink_exact [of "[]" "[]" links] show "\<not> escapes_symlink links []" by (simp add: ancestors_def)
qed

text \<open>
  What the planner makes of an absolute name, the part after the first slash: a marker at the top
  level is executed at the root of the destination, every other name is refused.
\<close>

definition absolute_operation :: "archive_path \<Rightarrow> bytes \<Rightarrow> oci_plan_operation" where
  "absolute_operation p name =
     (if name = OPAQUE_MARKER then OciOpaqueDir \<lparr>orm_path = p, orm_destination = []\<rparr>
      else if take 4 name = WHITEOUT_PREFIX \<and> safe_name (drop 4 name)
      then OciWhiteout \<lparr>orm_path = p, orm_destination = drop 4 name\<rparr>
      else OciReject p OciUnsafePath)"

lemma marker_lengths: "length WHITEOUT_PREFIX = 4" "47 \<notin> set WHITEOUT_PREFIX" "47 \<notin> set OPAQUE_MARKER"
  by (simp_all add: WHITEOUT_PREFIX_def OPAQUE_MARKER_def ascii_def)

lemma observe_appends:
  assumes "\<not> is_structural md" and "classify (ap_raw (md_path md)) \<noteq> MarkerRegular"
  shows "op_operations (oci_observe linux mapper md s) = op_operations s @
    [case classify (ap_raw (md_path md)) of
       MarkerWhiteout t \<Rightarrow> plan_removal s (md_path md) t False
     | MarkerOpaque t \<Rightarrow> plan_removal s (md_path md) t True
     | _ \<Rightarrow> OciReject (md_path md) OciUnsafePath]"
  using assms by (auto simp: oci_observe_def Let_def split: marker.splits)

lemma observe_refuses:
  assumes "\<not> is_structural md" and "classify (ap_raw (md_path md)) = MarkerRegular"
    and "\<not> external_reference md" and "from_archive_path (md_path md) = None"
  shows "op_operations (oci_observe linux mapper md s) = op_operations s @ [OciReject (md_path md) OciUnsafePath]"
  using assms by (simp add: oci_observe_def plan_materialize_def)

lemma absolute_refused:
  assumes "ap_raw p = 47 # rest" and "ap_encoding p \<noteq> EncUtf16Le"
  shows "from_archive_path p = None"
  using assms sanitize_absolute [of rest] by (cases "ap_encoding p") (simp_all add: from_archive_path_def sanitize_archive_path_def)

lemma classify_name:
  assumes "split_last p = (parent, name)"
  shows "classify p =
    (if name = OPAQUE_MARKER then MarkerOpaque parent
     else if take 4 name = WHITEOUT_PREFIX
     then (if drop 4 name = [] then MarkerUnsafe else MarkerWhiteout (oci_join parent (drop 4 name)))
     else MarkerRegular)"
  using assms by (simp add: classify_def strip_prefix_def starts_with_def marker_lengths)

lemma absolute_planned:
  assumes raw: "ap_raw (md_path md) = 47 # rest" and enc: "ap_encoding (md_path md) \<noteq> EncUtf16Le"
    and ext: "\<not> external_reference md"
  shows "op_operations (oci_observe linux mapper md s) = op_operations s @ [absolute_operation (md_path md) (trim_slash rest)]"
proof -
  let ?name = "trim_slash rest"
  have st: "\<not> is_structural md" using raw by (simp add: is_structural_def ascii_def)
  note refuses = observe_refuses [OF st _ ext absolute_refused [OF raw enc]]
  show ?thesis
  proof (cases "47 \<in> set ?name")
    case True
    then obtain a b where ab: "?name = a @ 47 # b" "47 \<notin> set b" by (metis split_list_last)
    have "trim_slash (47 # rest) = (47 # a) @ 47 # b" using ab(1) by (cases "rest = []") (simp_all add: trim_slash_eq split: if_splits)
    note cl = classify_name [OF split_last_cut [OF this ab(2)]]
    have removal: "plan_removal s (md_path md) (47 # t) opaque = OciReject (md_path md) OciUnsafePath" for t opaque
      by (simp add: plan_removal_def sanitize_absolute)
    have "?name \<noteq> OPAQUE_MARKER" using True marker_lengths(3) by metis
    moreover have "47 \<in> set (drop 4 ?name)" if "take 4 ?name = WHITEOUT_PREFIX"
      using True that marker_lengths(2) by (metis Un_iff append_take_drop_id set_append)
    ultimately have "absolute_operation (md_path md) ?name = OciReject (md_path md) OciUnsafePath"
      by (auto simp: absolute_operation_def safe_name_def)
    then show ?thesis
      using refuses observe_appends [OF st] raw cl removal by (auto simp: oci_join_def split: if_splits)
  next
    case False
    have "split_last (47 # rest) = ([], ?name)"
    proof (cases "rest = []")
      case True
      then show ?thesis by (simp add: split_last_whole trim_slash_eq)
    next
      case rest: False
      then have "trim_slash (47 # rest) = [] @ 47 # ?name" by (simp add: trim_slash_eq)
      from split_last_cut [OF this False] show ?thesis .
    qed
    note cl = classify_name [OF this]
    have drop: "47 \<notin> set (drop 4 ?name)" using False set_drop_subset [of 4 ?name] by blast
    have clear: "plan_removal s (md_path md) [] True = OciOpaqueDir \<lparr>orm_path = md_path md, orm_destination = []\<rparr>"
      using escapes_short(2) [of "[1]"] by (simp add: plan_removal_def safe_name_def ascii_def)
    have remove: "plan_removal s (md_path md) (drop 4 ?name) False =
        (if safe_name (drop 4 ?name) then OciWhiteout \<lparr>orm_path = md_path md, orm_destination = drop 4 ?name\<rparr>
         else OciReject (md_path md) OciUnsafePath)" if "drop 4 ?name \<noteq> []"
      using that escapes_short(1) by (simp add: plan_removal_def sanitize_name [OF drop])
    show ?thesis
      using refuses observe_appends [OF st] raw cl clear remove
      by (auto simp: oci_join_def absolute_operation_def safe_name_def split: if_splits)
  qed
qed

lemma current_directory_planned:
  assumes cs: "cs \<noteq> []" "list_all safe_name cs" and free: "\<not> escapes_symlink (op_symlinks s) (spell cs)"
    and raw: "ap_raw (md_path md) = spell cs @ 47 # WHITEOUT_PREFIX @ ascii ''.''"
  shows "op_operations (oci_observe linux mapper md s) =
    op_operations s @ [OciWhiteout \<lparr>orm_path = md_path md, orm_destination = spell cs\<rparr>]"
proof -
  let ?p = "ap_raw (md_path md)" and ?n = "WHITEOUT_PREFIX @ ascii ''.''"
  have "trim_slash ?p = spell cs @ 47 # ?n" by (simp add: raw trim_slash_eq ascii_def)
  moreover have "47 \<notin> set ?n" by (simp add: WHITEOUT_PREFIX_def ascii_def)
  ultimately have "classify ?p = MarkerWhiteout (oci_join (spell cs) (ascii ''.''))"
    by (simp add: classify_name [OF split_last_cut] WHITEOUT_PREFIX_def OPAQUE_MARKER_def ascii_def)
  moreover have "spell cs \<noteq> []" using spell_not_Nil [OF cs(2,1)] .
  ultimately have cl: "classify ?p = MarkerWhiteout (spell cs @ 47 # ascii ''.'')" by (simp add: oci_join_def)
  have st: "\<not> is_structural md" using raw by (auto simp: is_structural_def ascii_def WHITEOUT_PREFIX_def append_eq_Cons_conv)
  have solid: "\<forall>c \<in> set cs. 47 \<notin> set c \<and> 0 \<notin> set c" using cs(2) by (auto simp: list_all_iff safe_name_def)
  have "spell cs @ 47 # ascii ''.'' = spell (cs @ [ascii ''.''])" using spell_snoc [OF cs(1)] by simp
  moreover have "split_by is_slash (spell (cs @ [ascii ''.''])) = cs @ [ascii ''.'']"
    using solid by (intro split_spell) (auto simp: ascii_def)
  moreover have "filter plain_segment (cs @ [ascii ''.'']) = cs"
    using cs(2) by (auto simp: list_all_iff plain_segment_def safe_name_def ascii_def filter_id_conv)
  moreover have "ascii ''..'' \<notin> set (cs @ [ascii ''.''])" using cs(2) by (auto simp: list_all_iff safe_name_def ascii_def)
  moreover have "\<not> starts_with (spell (cs @ [ascii ''.''])) (ascii ''/'')"
    using cs by (cases cs) (auto simp: starts_with_def ascii_def spell_Cons safe_name_def neq_Nil_conv)
  moreover have "0 \<notin> set (spell (cs @ [ascii ''.'']))" 
    using solid by (induction cs rule: spell.induct) (auto simp: ascii_def spell_Cons)
  ultimately have san: "sanitize (spell cs @ 47 # ascii ''.'') = Some (spell cs)" using cs(1) by (simp add: sanitize_eq)
  show ?thesis using observe_appends [OF st] cl san free by (simp add: plan_removal_def)
qed

definition oci_file :: "string \<Rightarrow> entry_metadata" where
  "oci_file name = builder KindFile (path_from_bytes (ascii name))"

text \<open>
  C20. Overlay markers are not held to the path rules of ordinary entries, because the planner
  sanitises what is left of a marker's name after it has cut the marker off. The theorem says exactly
  what becomes of an entry with an absolute name (in a byte or UTF-8 encoding, and not the reference
  of a thin archive), in every state of the planner: the opaque marker at the top level plans to
  empty the whole destination, the whiteout of an ordinary name at the top level plans to delete that
  name below the destination, and every other absolute name is refused as unsafe, markers in a
  subdirectory included. And the whiteout of the current directory, \<open>dir/.wh..\<close>, plans to delete
  the directory \<open>dir\<close> that contains it, unless a directory above it is a symbolic link of the layer.
\<close>

theorem oci_markers_evade_path_rules:
  assumes "ap_raw (md_path md) = 47 # rest" and "ap_encoding (md_path md) \<noteq> EncUtf16Le" and "\<not> external_reference md"
    and "list_all safe_name cs" and "cs \<noteq> []" and "\<not> escapes_symlink (op_symlinks s) (spell cs)"
    and "ap_raw (md_path md') = spell cs @ 47 # WHITEOUT_PREFIX @ ascii ''.''"
  shows "op_operations (oci_observe linux mapper md s) = op_operations s @ [absolute_operation (md_path md) (trim_slash rest)] \<and>
    op_operations (oci_observe linux mapper md' s) =
      op_operations s @ [OciWhiteout \<lparr>orm_path = md_path md', orm_destination = spell cs\<rparr>]"
  using absolute_planned [OF assms(1-3)] current_directory_planned [OF assms(5,4,6,7)] by simp

theorem oci_markers_evade_path_rules_witness:
  "let s = oci_planner_new policy_safe in
   op_operations (oci_observe True id (oci_file ''/.wh.etc'') s) =
     [OciWhiteout \<lparr>orm_path = path_from_bytes (ascii ''/.wh.etc''), orm_destination = ascii ''etc''\<rparr>] \<and>
   op_operations (oci_observe True id (oci_file ''/a/.wh.b'') s) =
     [OciReject (path_from_bytes (ascii ''/a/.wh.b'')) OciUnsafePath] \<and>
   op_operations (oci_observe True id (oci_file ''dir/.wh..'') s) =
     [OciWhiteout \<lparr>orm_path = path_from_bytes (ascii ''dir/.wh..''), orm_destination = ascii ''dir''\<rparr>]"
proof -
  let ?s = "oci_planner_new policy_safe"
  have f: "md_path (oci_file x) = path_from_bytes (ascii x)" "\<not> external_reference (oci_file x)"
    "ap_raw (path_from_bytes (ascii x)) = ascii x" "ap_encoding (path_from_bytes (ascii x)) \<noteq> EncUtf16Le" for x
    by (simp_all add: oci_file_def builder_def external_reference_def path_from_bytes_def)
  have raw: "ap_raw (md_path (oci_file ''/.wh.etc'')) = 47 # ascii ''.wh.etc''" "ap_raw (md_path (oci_file ''/a/.wh.b'')) = 47 # ascii ''a/.wh.b''"
    "ap_raw (md_path (oci_file ''dir/.wh..'')) = spell [ascii ''dir''] @ 47 # WHITEOUT_PREFIX @ ascii ''.''"
    by (simp_all only: f) (simp_all add: ascii_def WHITEOUT_PREFIX_def)
  have cs: "list_all safe_name [ascii ''dir'']" "[ascii ''dir''] \<noteq> []" "\<not> escapes_symlink (op_symlinks ?s) (spell [ascii ''dir''])"
    using escapes_short(1) [of "ascii ''dir''"] by (simp_all add: safe_name_def ascii_def)
  have op: "absolute_operation p (trim_slash (ascii ''.wh.etc'')) = OciWhiteout \<lparr>orm_path = p, orm_destination = ascii ''etc''\<rparr>"
    "absolute_operation p (trim_slash (ascii ''a/.wh.b'')) = OciReject p OciUnsafePath" for p
    by (simp_all add: absolute_operation_def trim_slash_eq OPAQUE_MARKER_def WHITEOUT_PREFIX_def safe_name_def ascii_def)
  note evade = oci_markers_evade_path_rules [where s = ?s and linux = True and mapper = id, OF _ _ _ cs raw(3)]
  show ?thesis
    using evade [OF raw(1)] evade [OF raw(2)] by (simp add: f op oci_planner_new_def)
qed

end
