(* ===== verification/Oxide_Filesystem_Safety.thy ===== *)
theory Oxide_Filesystem_Safety
  imports Oxide_Filesystem
begin

text \<open>
  What the apply driver guarantees for every adapter. \<open>logged\<close> wraps an adapter so that it answers
  as before and also records the calls it receives; \<open>session_step\<close> is the documented call protocol
  as an automaton that also tracks the files committed so far.
\<close>

section \<open>The call protocol\<close>

datatype adapter_call =
    CallBeginSession | CallBeginEntry filesystem_entry | CallWriteData bytes
  | CallFinishEntry "filesystem_materialization option" | CallAbort | CallFinishSession
  | CallRemovePath filesystem_removal | CallClearDirectory filesystem_removal

definition logged :: "'a filesystem_adapter \<Rightarrow> ('a \<times> adapter_call list) filesystem_adapter" where
  "logged ad =
     \<lparr>ad_capabilities = (\<lambda>(a, log). ad_capabilities ad a),
      ad_begin_session = (\<lambda>(a, log). map_prod (\<lambda>a'. (a', log @ [CallBeginSession])) id (ad_begin_session ad a)),
      ad_begin_entry = (\<lambda>(a, log) e. map_prod (\<lambda>a'. (a', log @ [CallBeginEntry e])) id (ad_begin_entry ad a e)),
      ad_write_data = (\<lambda>(a, log) bs. map_prod (\<lambda>a'. (a', log @ [CallWriteData bs])) id (ad_write_data ad a bs)),
      ad_finish_entry = (\<lambda>(a, log). case ad_finish_entry ad a of (a', r) \<Rightarrow>
        ((a', log @ [CallFinishEntry (map_option er_materialization r)]), r)),
      ad_abort_entry = (\<lambda>(a, log). (ad_abort_entry ad a, log @ [CallAbort])),
      ad_finish_session = (\<lambda>(a, log). map_prod (\<lambda>a'. (a', log @ [CallFinishSession])) id (ad_finish_session ad a)),
      ad_remove_path = (\<lambda>(a, log) r. map_prod (\<lambda>a'. (a', log @ [CallRemovePath r])) id (ad_remove_path ad a r)),
      ad_clear_directory = (\<lambda>(a, log) r. map_prod (\<lambda>a'. (a', log @ [CallClearDirectory r])) id (ad_clear_directory ad a r))\<rparr>"

datatype session_state =
    NotStarted | Between "component list set" | Inside "component list set" filesystem_entry | Over

definition commits :: "filesystem_entry \<Rightarrow> filesystem_materialization option \<Rightarrow> bool" where
  "commits e r \<longleftrightarrow>
     (r = Some MatFile \<and> md_kind (fe_metadata e) = KindFile) \<or>
     (r = Some MatHardlink \<and> md_kind (fe_metadata e) = KindHardlink)"

fun session_step :: "session_state \<Rightarrow> adapter_call \<Rightarrow> session_state option" where
  "session_step NotStarted CallBeginSession = Some (Between {})"
| "session_step (Between cs) (CallBeginEntry e) =
     (if md_kind (fe_metadata e) = KindHardlink \<and>
         (case fe_link_target e of None \<Rightarrow> True | Some t \<Rightarrow> path_components t \<notin> cs)
      then None else Some (Inside cs e))"
| "session_step (Between cs) CallFinishSession = Some Over"
| "session_step (Between cs) CallAbort = Some Over"
| "session_step (Inside cs e) (CallWriteData bs) = Some (Inside cs e)"
| "session_step (Inside cs e) (CallFinishEntry r) =
     Some (Between (if commits e r then insert (path_components (fe_destination e)) cs else cs))"
| "session_step (Inside cs e) CallAbort = Some Over"
| "session_step _ _ = None"

fun session_run :: "session_state \<Rightarrow> adapter_call list \<Rightarrow> session_state option" where
  "session_run s [] = Some s"
| "session_run s (c # cs) = (case session_step s c of None \<Rightarrow> None | Some s' \<Rightarrow> session_run s' cs)"

fun begun :: "adapter_call list \<Rightarrow> filesystem_entry list" where
  "begun [] = []"
| "begun (CallBeginEntry e # cs) = e # begun cs"
| "begun (_ # cs) = begun cs"

text \<open>The entries a plan allows to begin, in order.\<close>

fun allowed :: "policy \<Rightarrow> planned_entry list \<Rightarrow> filesystem_entry list" where
  "allowed p [] = []"
| "allowed p (e # es) =
     (case (pe_disposition e, pe_destination e) of
        (Materialize, Some k) \<Rightarrow>
          [\<lparr>fe_metadata = pe_metadata e, fe_destination = dk_path k,
            fe_link_target = map_option dk_path (pe_link_target e), fe_overwrite = overwrite p\<rparr>]
      | _ \<Rightarrow> []) @ allowed p es"

definition log_ok :: "policy \<Rightarrow> planned_entry list \<Rightarrow> adapter_call list \<Rightarrow> bool" where
  "log_ok p planned log \<longleftrightarrow> session_run NotStarted log \<noteq> None \<and> subseq (begun log) (allowed p planned)"

lemma session_run_append:
  "session_run s (xs @ ys) = Option.bind (session_run s xs) (\<lambda>s'. session_run s' ys)"
  by (induction xs arbitrary: s) (auto split: option.splits)

lemma begun_append [simp]: "begun (xs @ ys) = begun xs @ begun ys"
  by (induction xs rule: begun.induct) auto

lemma allowed_append: "allowed p (es @ fs) = allowed p es @ allowed p fs"
  by (induction es) auto

lemma subseq_allowed_take: "subseq xs (allowed p (take n es)) \<Longrightarrow> subseq xs (allowed p es)"
  by (metis allowed_append append_take_drop_id subseq_order.order_trans subseq_append' list_emb_append2 subseq_rev_drop_many)

section \<open>The invariant of the driver\<close>

abbreviation driver_log :: "('a \<times> adapter_call list) adapter_driver \<Rightarrow> adapter_call list" where
  "driver_log d \<equiv> snd (dr_adapter d)"

definition begun_as :: "filesystem_entry \<Rightarrow> current_entry \<Rightarrow> bool" where
  "begun_as e c \<longleftrightarrow> (\<exists>k. ce_destination c = Some k \<and> fe_destination e = dk_path k \<and> md_kind (fe_metadata e) = ce_kind c)"

definition in_session :: "('a \<times> adapter_call list) adapter_driver \<Rightarrow> bool" where
  "in_session d \<longleftrightarrow>
     (case dr_current d of
        None \<Rightarrow> session_run NotStarted (driver_log d) = Some (Between (dom (dr_committed d)))
      | Some c \<Rightarrow>
          if ce_materializing c
          then \<exists>e. session_run NotStarted (driver_log d) = Some (Inside (dom (dr_committed d)) e) \<and> begun_as e c
          else session_run NotStarted (driver_log d) = Some (Between (dom (dr_committed d)))) \<and>
     dr_entries_seen d \<le> length (dr_planned d) \<and>
     subseq (begun (driver_log d)) (allowed (dr_policy d) (take (dr_entries_seen d) (dr_planned d)))"

lemma logged_sel [simp]:
  "ad_capabilities (logged ad) s = ad_capabilities ad (fst s)"
  "ad_begin_session (logged ad) s =
     (case ad_begin_session ad (fst s) of (a', ok) \<Rightarrow> ((a', snd s @ [CallBeginSession]), ok))"
  "ad_begin_entry (logged ad) s e =
     (case ad_begin_entry ad (fst s) e of (a', ok) \<Rightarrow> ((a', snd s @ [CallBeginEntry e]), ok))"
  "ad_write_data (logged ad) s bs =
     (case ad_write_data ad (fst s) bs of (a', ok) \<Rightarrow> ((a', snd s @ [CallWriteData bs]), ok))"
  "ad_finish_entry (logged ad) s =
     (case ad_finish_entry ad (fst s) of (a', r) \<Rightarrow>
        ((a', snd s @ [CallFinishEntry (map_option er_materialization r)]), r))"
  "ad_abort_entry (logged ad) s = (ad_abort_entry ad (fst s), snd s @ [CallAbort])"
  "ad_finish_session (logged ad) s =
     (case ad_finish_session ad (fst s) of (a', r) \<Rightarrow> ((a', snd s @ [CallFinishSession]), r))"
  "ad_remove_path (logged ad) s r =
     (case ad_remove_path ad (fst s) r of (a', f) \<Rightarrow> ((a', snd s @ [CallRemovePath r]), f))"
  "ad_clear_directory (logged ad) s r =
     (case ad_clear_directory ad (fst s) r of (a', f) \<Rightarrow> ((a', snd s @ [CallClearDirectory r]), f))"
  by (cases s; simp add: logged_def map_prod_def split: prod.splits)+

lemma dom_key_insert [simp]: "dom (key_insert k m) = insert (dk_identity k) (dom m)"
  by (auto simp: key_insert_def split: option.splits)

lemma in_session_log_ok: "in_session d \<Longrightarrow> log_ok (dr_policy d) (dr_planned d) (driver_log d)"
  by (auto simp: in_session_def log_ok_def intro: subseq_allowed_take split: option.splits if_splits)

text \<open>What an event does to the driver: it stays in its session, or it stops with a log that is in order.\<close>

definition session_result :: "('a \<times> adapter_call list) adapter_driver \<Rightarrow>
    ('a \<times> adapter_call list) adapter_driver \<times> (stream_error + unit) \<Rightarrow> bool" where
  "session_result d r \<longleftrightarrow>
     dr_policy (fst r) = dr_policy d \<and> dr_planned (fst r) = dr_planned d \<and>
     log_ok (dr_policy d) (dr_planned d) (driver_log (fst r)) \<and> (snd r = Inr () \<longrightarrow> in_session (fst r))"

lemma same_session:
  "in_session d' \<Longrightarrow> dr_policy d' = dr_policy d \<Longrightarrow> dr_planned d' = dr_planned d \<Longrightarrow> session_result d (d', r)"
  using in_session_log_ok [of d'] by (simp add: session_result_def)

lemma stopped_session:
  "log_ok (dr_policy d) (dr_planned d) (driver_log d') \<Longrightarrow> dr_policy d' = dr_policy d \<Longrightarrow>
   dr_planned d' = dr_planned d \<Longrightarrow> session_result d (d', Inl e)"
  by (simp add: session_result_def)

lemma write_data_session:
  assumes "in_session d"
  shows "session_result d (driver_write_data (logged ad) data d)"
proof (cases "dr_current d")
  case None
  with assms show ?thesis by (simp add: driver_write_data_def same_session)
next
  case (Some c)
  show ?thesis
  proof (cases "ce_materializing c")
    case True
    obtain a' ok where w: "ad_write_data ad (fst (dr_adapter d)) data = (a', ok)" by fastforce
    have "in_session (d\<lparr>dr_adapter := (a', driver_log d @ [CallWriteData data])\<rparr>)"
      using assms Some True by (auto simp: in_session_def session_run_append)
    with Some True w show ?thesis by (auto simp: driver_write_data_def intro!: same_session)
  next
    case False
    with Some assms show ?thesis by (simp add: driver_write_data_def same_session)
  qed
qed

lemma finished_commits:
  assumes "finished_outcome c r = Some (out, committed, fs)" and "begun_as e c"
  shows "committed = commits e (Some (er_materialization r))"
  using assms by (auto simp: finished_outcome_def commits_def begun_as_def Let_def is_special_def
      split: filesystem_materialization.splits if_splits)

lemma finish_materializing_session:
  assumes inv: "in_session d0" and cur: "dr_current d0 = Some c" "ce_materializing c"
  shows "session_result d0 (finish_materializing (logged ad) c (d0\<lparr>dr_current := None\<rparr>))"
proof -
  obtain e where e: "session_run NotStarted (driver_log d0) = Some (Inside (dom (dr_committed d0)) e)" "begun_as e c"
    using inv cur by (auto simp: in_session_def)
  obtain k where k: "ce_destination c = Some k" "fe_destination e = dk_path k" using e(2) by (auto simp: begun_as_def)
  have sub: "subseq (begun (driver_log d0)) (allowed (dr_policy d0) (take (dr_entries_seen d0) (dr_planned d0)))"
    and seen: "dr_entries_seen d0 \<le> length (dr_planned d0)" using inv by (simp_all add: in_session_def)
  obtain a' r where f: "ad_finish_entry ad (fst (dr_adapter d0)) = (a', r)" by fastforce
  show ?thesis
  proof (cases r)
    case None
    with f e sub show ?thesis
      by (auto simp: finish_materializing_def log_ok_def session_run_append intro!: stopped_session
          intro: subseq_allowed_take)
  next
    case (Some rep)
    show ?thesis
    proof (cases "finished_outcome c rep")
      case None
      with f Some e sub show ?thesis
        by (auto simp: finish_materializing_def log_ok_def session_run_append intro!: stopped_session
            intro: subseq_allowed_take)
    next
      case fin: (Some o')
      obtain out committed fs where o': "o' = (out, committed, fs)" by (cases o')
      have "committed = commits e (Some (er_materialization rep))"
        using finished_commits fin o' e(2) by metis
      with f Some fin o' e k sub seen show ?thesis
        by (auto simp: finish_materializing_def in_session_def session_run_append dk_identity_def
            intro!: same_session split: bool.splits)
    qed
  qed
qed

lemma end_entry_session:
  assumes "in_session d"
  shows "session_result d (driver_end_entry (logged ad) d)"
proof (cases "dr_current d")
  case None
  with assms show ?thesis by (simp add: driver_end_entry_def same_session)
next
  case (Some c)
  show ?thesis
  proof (cases "ce_materializing c")
    case True
    with finish_materializing_session [OF assms Some] Some show ?thesis by (simp add: driver_end_entry_def Let_def)
  next
    case False
    with Some assms show ?thesis
      by (auto simp: driver_end_entry_def Let_def in_session_def intro!: same_session split: option.splits)
  qed
qed

lemma finish_session:
  assumes "in_session d"
  shows "log_ok (dr_policy d) (dr_planned d) (driver_log (fst (driver_finish (logged ad) d)))"
proof (cases "dr_current d")
  case None
  with in_session_log_ok [OF assms] assms show ?thesis
    by (auto simp: driver_finish_def log_ok_def in_session_def session_run_append split: option.splits prod.splits)
next
  case (Some c)
  then obtain s where "session_run NotStarted (driver_log d) = Some s" "\<exists>cs e. s = Between cs \<or> s = Inside cs e"
    using assms by (auto simp: in_session_def split: if_splits)
  with in_session_log_ok [OF assms] Some show ?thesis
    by (auto simp: driver_finish_def log_ok_def session_run_append)
qed

lemma begin_materializing_session:
  assumes run: "session_run NotStarted (driver_log d) = Some (Between (dom (dr_committed d)))"
    and seen: "dr_entries_seen d = Suc n" "n < length (dr_planned d)" and cur: "dr_current d = None"
    and sub: "subseq (begun (driver_log d)) (allowed (dr_policy d) (take n (dr_planned d)))"
    and pl: "pe_disposition (dr_planned d ! n) = Materialize" "pe_destination (dr_planned d ! n) = Some dest"
      "pe_metadata (dr_planned d ! n) = md" "pe_link_target (dr_planned d ! n) = link"
    and hard: "md_kind md = KindHardlink \<Longrightarrow> \<exists>t. link = Some t \<and> dk_identity t \<in> dom (dr_committed d)"
  shows "session_result d (begin_materializing (logged ad) md dest link d)"
proof -
  let ?e = "\<lparr>fe_metadata = md, fe_destination = dk_path dest, fe_link_target = map_option dk_path link,
    fe_overwrite = overwrite (dr_policy d)\<rparr>"
  have step: "session_step (Between (dom (dr_committed d))) (CallBeginEntry ?e) =
      Some (Inside (dom (dr_committed d)) ?e)"
    using hard by (auto simp: dk_identity_def)
  have "take (Suc n) (dr_planned d) = take n (dr_planned d) @ [dr_planned d ! n]"
    using seen(2) by (simp add: take_Suc_conv_app_nth)
  then have "allowed (dr_policy d) (take (Suc n) (dr_planned d)) =
      allowed (dr_policy d) (take n (dr_planned d)) @ [?e]"
    using pl by (simp add: allowed_append)
  then have sub': "subseq (begun (driver_log d @ [CallBeginEntry ?e]))
      (allowed (dr_policy d) (take (Suc n) (dr_planned d)))"
    using sub by simp
  have run': "session_run NotStarted (driver_log d @ [CallBeginEntry ?e]) = Some (Inside (dom (dr_committed d)) ?e)"
    using run step by (simp add: session_run_append)
  obtain a' ok where b: "ad_begin_entry ad (fst (dr_adapter d)) ?e = (a', ok)" by fastforce
  show ?thesis
  proof (cases ok)
    case True
    with b run' sub' seen show ?thesis
      by (auto simp: begin_materializing_def Let_def in_session_def begun_as_def intro!: same_session)
  next
    case False
    with b run' subseq_allowed_take [OF sub'] show ?thesis
      by (auto simp: begin_materializing_def Let_def log_ok_def intro!: stopped_session)
  qed
qed

lemma subseq_allowed_Suc: "subseq xs (allowed p (take n es)) \<Longrightarrow> subseq xs (allowed p (take (Suc n) es))"
  by (metis min.absorb1 le_SucI order_refl subseq_allowed_take take_take)

lemma start_planned_session:
  assumes run: "session_run NotStarted (driver_log d) = Some (Between (dom (dr_committed d)))"
    and seen: "dr_entries_seen d = Suc n" "n < length (dr_planned d)" and cur: "dr_current d = None"
    and sub: "subseq (begun (driver_log d)) (allowed (dr_policy d) (take n (dr_planned d)))"
    and md: "pe_metadata (dr_planned d ! n) = md"
  shows "session_result d (start_planned (logged ad) md (dr_planned d ! n) d)"
proof -
  have quiet: "in_session d'" if "dr_adapter d' = dr_adapter d" "dr_committed d' = dr_committed d"
    "dr_current d' = Some c" "\<not> ce_materializing c" "dr_entries_seen d' = dr_entries_seen d"
    "dr_policy d' = dr_policy d" "dr_planned d' = dr_planned d" for d' c
    using that run seen subseq_allowed_Suc [OF sub] by (simp add: in_session_def)
  have base: "log_ok (dr_policy d) (dr_planned d) (driver_log d)"
    using run subseq_allowed_take [OF sub] by (simp add: log_ok_def)
  show ?thesis
  proof (cases "pe_disposition (dr_planned d ! n)")
    case Materialize
    show ?thesis
    proof (cases "pe_destination (dr_planned d ! n)")
      case None
      with Materialize base show ?thesis by (simp add: start_planned_def Let_def stopped_session)
    next
      case (Some dest)
      note started = begin_materializing_session [OF run seen cur sub Materialize Some md refl]
      show ?thesis
        using Materialize Some started
        by (auto simp: start_planned_def Let_def driver_reject_def domIff intro!: same_session quiet
            split: option.splits)
    qed
  qed (auto simp: start_planned_def Let_def driver_reject_def intro!: same_session quiet)
qed

lemma start_entry_session:
  assumes "in_session d"
  shows "session_result d (driver_start_entry (logged ad) md d)"
proof (cases "dr_current d")
  case (Some c)
  with assms show ?thesis by (simp add: driver_start_entry_def same_session)
next
  case None
  obtain d1 r where ob: "observe_entry md d = (d1, r)" by fastforce
  have d1: "dr_adapter d1 = dr_adapter d" "dr_committed d1 = dr_committed d" "dr_current d1 = None"
    "dr_policy d1 = dr_policy d" "dr_planned d1 = dr_planned d" and r: "r = Inr () \<Longrightarrow> dr_entries_seen d1 = Suc (dr_entries_seen d)"
    using ob None by (auto simp: observe_entry_def Let_def split: if_splits)
  have base: "log_ok (dr_policy d) (dr_planned d) (driver_log d1)" using in_session_log_ok [OF assms] d1 by simp
  let ?d = "d1\<lparr>dr_expected := dr_expected d1 @ map (Pair (md_path md)) (requested_operations md)\<rparr>"
  show ?thesis
  proof (cases "r = Inr () \<and> dr_entries_seen d < length (dr_planned d) \<and> pe_metadata (dr_planned d ! dr_entries_seen d) = md")
    case True
    have "session_result ?d (start_planned (logged ad) md (dr_planned ?d ! dr_entries_seen d) ?d)"
      using True assms None d1 r by (intro start_planned_session) (auto simp: in_session_def)
    then have "session_result d (start_planned (logged ad) md (dr_planned d ! dr_entries_seen d) ?d)"
      by (simp add: session_result_def d1)
    with True ob None show ?thesis by (simp add: driver_start_entry_def Let_def)
  next
    case False
    then have "\<exists>e. driver_start_entry (logged ad) md d = (d1, Inl e)"
      using ob None by (cases r) (auto simp: driver_start_entry_def Let_def)
    then obtain e where "driver_start_entry (logged ad) md d = (d1, Inl e)" ..
    with base d1 show ?thesis by (simp add: stopped_session)
  qed
qed

lemma apply_events_session:
  "in_session d \<Longrightarrow> log_ok (dr_policy d) (dr_planned d) (driver_log (fst (apply_events (logged ad) evs d)))"
proof (induction evs arbitrary: d)
  case Nil
  then show ?case by (simp add: in_session_log_ok)
next
  case (Cons ev evs)
  show ?case
  proof (cases ev)
    case (Inl e)
    from Cons.prems obtain s where "session_run NotStarted (driver_log d) = Some s" "\<exists>cs e. s = Between cs \<or> s = Inside cs e"
      by (auto simp: in_session_def split: if_splits option.splits)
    with in_session_log_ok [OF Cons.prems] Inl show ?thesis
      by (auto simp: driver_abort_def log_ok_def session_run_append)
  next
    case (Inr rev)
    show ?thesis
    proof (cases "rev = ReadDone")
      case True
      with Inr finish_session [OF Cons.prems, of ad] show ?thesis
        by (auto simp: driver_event_def split: prod.splits sum.splits)
    next
      case False
      then have "session_result d (driver_event (logged ad) rev d)"
        using Cons.prems start_entry_session write_data_session end_entry_session same_session [OF Cons.prems refl refl]
        by (cases rev) (simp_all add: driver_event_def)
      with False Inr Cons.IH show ?thesis
        by (force simp: session_result_def split: prod.splits sum.splits)
    qed
  qed
qed

lemma in_session_new:
  assumes "driver_new (logged ad) (a, []) p l planned = (s, Inr d)"
  shows "in_session d \<and> dr_policy d = p \<and> dr_planned d = planned"
  using assms by (auto simp: driver_new_def in_session_def split: prod.splits bool.splits)

section \<open>Safety of an apply session\<close>

text \<open>
  C13. Whatever an adapter answers and whatever events the reader delivers, an apply session of a plan
  calls the adapter in the documented order: one session, entries that do not overlap, data only
  inside an entry, a hard link only to a destination whose file the adapter has reported as
  committed earlier in the session, and nothing after the session is finished or aborted. The entries
  begun are among those the plan lets through, in plan order and each at most once, with the
  destination and link target the plan fixed.
\<close>

theorem apply_session_in_order:
  "log_ok p planned (snd (fst (apply_plan (logged ad) (a, []) p l planned evs)))"
proof -
  obtain s r where new: "driver_new (logged ad) (a, []) p l planned = (s, r)" by fastforce
  show ?thesis
  proof (cases r)
    case (Inl e)
    with new have "snd s = [CallBeginSession]" by (auto simp: driver_new_def split: prod.splits bool.splits)
    with Inl new show ?thesis by (simp add: apply_plan_def log_ok_def)
  next
    case (Inr d)
    with in_session_new [of ad a p l planned s d] new apply_events_session [of d ad evs] show ?thesis
      by (auto simp: apply_plan_def split: prod.splits option.splits sum.splits)
  qed
qed

section \<open>Completeness of the report\<close>

fun kind_outcome :: "entry_kind \<Rightarrow> entry_outcome_kind" where
  "kind_outcome KindFile = OutFile"
| "kind_outcome KindDir = OutDirectory"
| "kind_outcome KindSymlink = OutSymlink"
| "kind_outcome KindHardlink = OutHardlink"
| "kind_outcome _ = OutSpecial"

definition fits :: "planned_entry \<Rightarrow> entry_outcome_kind \<Rightarrow> bool" where
  "fits e out \<longleftrightarrow>
     (case pe_disposition e of
        Skip \<Rightarrow> out = OutSkipped
      | Reject reason \<Rightarrow> out = OutRejected reason
      | Materialize \<Rightarrow> out = kind_outcome (md_kind (pe_metadata e)) \<or> (\<exists>r. out = OutRejected r))"

definition accounts :: "planned_entry \<Rightarrow> entry_outcome \<Rightarrow> bool" where
  "accounts e o' \<longleftrightarrow> eo_path o' = md_path (pe_metadata e) \<and> fits e (eo_outcome o')"

definition current_of :: "planned_entry \<Rightarrow> current_entry \<Rightarrow> bool" where
  "current_of e c \<longleftrightarrow> ce_path c = md_path (pe_metadata e) \<and> ce_kind c = md_kind (pe_metadata e) \<and>
     (if ce_materializing c then pe_disposition e = Materialize
      else \<exists>out. ce_direct_outcome c = Some out \<and> fits e out)"

definition requests_of :: "planned_entry \<Rightarrow> (archive_path \<times> filesystem_operation) list" where
  "requests_of e = map (Pair (md_path (pe_metadata e))) (requested_operations (pe_metadata e))"

definition accounted :: "'a adapter_driver \<Rightarrow> bool" where
  "accounted d \<longleftrightarrow>
     dr_entries_seen d \<le> length (dr_planned d) \<and>
     dr_expected d = concat (map requests_of (take (dr_entries_seen d) (dr_planned d))) \<and>
     list_all2 accounts (take (length (dr_outcomes d)) (dr_planned d)) (dr_outcomes d) \<and>
     (case dr_current d of
        None \<Rightarrow> dr_entries_seen d = length (dr_outcomes d)
      | Some c \<Rightarrow> dr_entries_seen d = Suc (length (dr_outcomes d)) \<and>
          current_of (dr_planned d ! length (dr_outcomes d)) c)"

definition keeps_account :: "'a adapter_driver \<Rightarrow> 'a adapter_driver \<times> (stream_error + unit) \<Rightarrow> bool" where
  "keeps_account d r \<longleftrightarrow> snd r = Inr () \<longrightarrow> dr_planned (fst r) = dr_planned d \<and> accounted (fst r)"

lemma keeps_account_Inl [simp]: "keeps_account d (d', Inl e)"
  by (simp add: keeps_account_def)

lemma start_planned_accounts:
  assumes seen: "dr_entries_seen d = Suc (length (dr_outcomes d))" "length (dr_outcomes d) < length (dr_planned d)"
    and exp: "dr_expected d = concat (map requests_of (take (Suc (length (dr_outcomes d))) (dr_planned d)))"
    and out: "list_all2 accounts (take (length (dr_outcomes d)) (dr_planned d)) (dr_outcomes d)"
    and md: "pe_metadata (dr_planned d ! length (dr_outcomes d)) = md"
  shows "keeps_account d (start_planned ad md (dr_planned d ! length (dr_outcomes d)) d)"
proof -
  let ?e = "dr_planned d ! length (dr_outcomes d)"
  have opened: "accounted d'" if "dr_current d' = Some c" "current_of ?e c" "dr_outcomes d' = dr_outcomes d"
    "dr_planned d' = dr_planned d" "dr_expected d' = dr_expected d" "dr_entries_seen d' = dr_entries_seen d" for d' c
    using that assms by (simp add: accounted_def)
  show ?thesis
    using md
    by (auto simp: start_planned_def begin_materializing_def driver_reject_def keeps_account_def Let_def
        current_of_def fits_def intro!: opened
        split: plan_disposition.splits option.splits if_splits prod.splits bool.splits)
qed

lemma start_entry_accounts:
  assumes "accounted d"
  shows "keeps_account d (driver_start_entry ad md d)"
proof (cases "dr_current d = None \<and> snd (observe_entry md d) = Inr () \<and>
    dr_entries_seen d < length (dr_planned d) \<and> pe_metadata (dr_planned d ! dr_entries_seen d) = md")
  case True
  let ?d1 = "d\<lparr>dr_entries_seen := dr_entries_seen d + 1\<rparr>"
  let ?d = "?d1\<lparr>dr_expected := dr_expected ?d1 @ map (Pair (md_path md)) (requested_operations md)\<rparr>"
  have ob: "observe_entry md d = (?d1, Inr ())"
    using True by (auto simp: observe_entry_def Let_def split: if_splits)
  have "dr_entries_seen d = length (dr_outcomes d)" using assms True by (simp add: accounted_def)
  moreover have "keeps_account ?d (start_planned ad md (dr_planned ?d ! length (dr_outcomes ?d)) ?d)"
    using assms True by (intro start_planned_accounts) (auto simp: accounted_def take_Suc_conv_app_nth requests_of_def)
  ultimately show ?thesis
    using True ob by (simp add: driver_start_entry_def Let_def keeps_account_def)
next
  case False
  then show ?thesis
    using assms by (auto simp: driver_start_entry_def keeps_account_def Let_def split: prod.splits sum.splits)
qed

lemma write_data_accounts: "accounted d \<Longrightarrow> keeps_account d (driver_write_data ad data d)"
  by (auto simp: driver_write_data_def keeps_account_def accounted_def split: option.splits prod.splits)

lemma finished_fits:
  "finished_outcome c r = Some (out, committed, fs) \<Longrightarrow> current_of e c \<Longrightarrow> ce_materializing c \<Longrightarrow> fits e out"
  by (cases "ce_kind c")
    (auto simp: finished_outcome_def current_of_def fits_def Let_def is_special_def
      split: filesystem_materialization.splits if_splits)

lemma end_entry_accounts:
  assumes "accounted d"
  shows "keeps_account d (driver_end_entry ad d)"
proof (cases "dr_current d")
  case (Some c)
  let ?n = "length (dr_outcomes d)"
  have seen: "dr_entries_seen d = Suc ?n" "?n < length (dr_planned d)" and cur: "current_of (dr_planned d ! ?n) c"
    and out: "list_all2 accounts (take ?n (dr_planned d)) (dr_outcomes d)"
    using assms Some by (auto simp: accounted_def)
  have closed: "accounted d'" if "dr_current d' = None" "dr_outcomes d' = dr_outcomes d @ [\<lparr>eo_path = ce_path c, eo_outcome = out'\<rparr>]"
    "fits (dr_planned d ! ?n) out'" "dr_planned d' = dr_planned d" "dr_expected d' = dr_expected d"
    "dr_entries_seen d' = dr_entries_seen d" for d' out'
    using that assms Some seen cur out
    by (simp add: accounted_def take_Suc_conv_app_nth accounts_def current_of_def list_all2_appendI)
  show ?thesis
    using Some cur
    by (auto simp: driver_end_entry_def finish_materializing_def keeps_account_def Let_def current_of_def
        intro!: closed intro: finished_fits [OF _ cur] split: if_splits prod.splits option.splits bool.splits)
qed (simp add: driver_end_entry_def)

lemma complete_findings_covers:
  "set es \<union> set (map (\<lambda>f. (ff_path f, ff_operation f)) fs) \<subseteq>
   set (map (\<lambda>f. (ff_path f, ff_operation f)) (complete_findings es fs))"
proof (induction es fs rule: complete_findings.induct)
  case (2 p operation es fs)
  then show ?case by (auto simp: finding_partial_def finding_new_def split: if_splits)
qed simp

definition report_complete :: "planned_entry list \<Rightarrow> entry_outcome list \<times> filesystem_finding list \<Rightarrow> bool" where
  "report_complete planned r \<longleftrightarrow>
     list_all2 accounts planned (fst r) \<and>
     set (concat (map requests_of planned)) \<subseteq> set (map (\<lambda>f. (ff_path f, ff_operation f)) (snd r))"

lemma finish_accounts:
  assumes "accounted d" and "driver_finish ad d = (d', Inr ())"
  shows "report_complete (dr_planned d) (dr_outcomes d', dr_findings d')"
proof -
  obtain a' deferred where d': "d' = d\<lparr>dr_adapter := a',
      dr_findings := complete_findings (dr_expected d) (dr_findings d @ deferred)\<rparr>"
    and cur: "dr_current d = None" "dr_entries_seen d = length (dr_planned d)"
    using assms(2) by (auto simp: driver_finish_def split: if_splits prod.splits option.splits)
  with assms(1) complete_findings_covers [of "dr_expected d" "dr_findings d @ deferred"] show ?thesis
    by (auto simp: accounted_def report_complete_def)
qed

lemma apply_events_accounts:
  "accounted d \<Longrightarrow> apply_events ad evs d = (d', Some (Inr ())) \<Longrightarrow>
   report_complete (dr_planned d) (dr_outcomes d', dr_findings d')"
proof (induction evs arbitrary: d)
  case (Cons ev evs)
  then obtain rev where ev: "ev = Inr rev" by (cases ev) auto
  obtain d1 where d1: "driver_event ad rev d = (d1, Inr ())"
    using Cons.prems(2) ev by (auto split: prod.splits sum.splits)
  show ?case
  proof (cases "rev = ReadDone")
    case True
    with d1 ev Cons.prems finish_accounts [OF Cons.prems(1), of ad d1] show ?thesis by (simp add: driver_event_def)
  next
    case False
    have "keeps_account d (driver_event ad rev d)"
      using start_entry_accounts [OF Cons.prems(1)] write_data_accounts [OF Cons.prems(1)]
        end_entry_accounts [OF Cons.prems(1)] Cons.prems(1) False
      by (cases rev) (simp_all add: driver_event_def, simp add: keeps_account_def)
    then have "accounted d1" "dr_planned d1 = dr_planned d" using d1 by (simp_all add: keeps_account_def)
    with Cons.IH [of d1] Cons.prems(2) d1 ev False show ?thesis by simp
  qed
qed simp

text \<open>
  C14. A successful apply session reports everything. It gives exactly one outcome per planned entry,
  in plan order and under the entry's path; an entry the plan skipped or refused has that outcome, an
  entry the plan let through is reported as the object its kind names or as rejected, never as
  something else; and every operation an entry requested (the object itself, its mode, ownership,
  times, each extended attribute and access-control record) appears in the findings, even when the
  adapter never mentioned it.
\<close>

theorem apply_report_complete:
  assumes "apply_plan ad a p l planned evs = (a', Some (Inr report))"
  shows "report_complete planned report"
proof -
  obtain s d where new: "driver_new ad a p l planned = (s, Inr d)"
    using assms by (cases "driver_new ad a p l planned"; cases "snd (driver_new ad a p l planned)")
      (auto simp: apply_plan_def)
  then have planned: "dr_planned d = planned" and acc: "accounted d"
    by (auto simp: driver_new_def accounted_def split: prod.splits bool.splits)
  obtain d' where d': "apply_events ad evs d = (d', Some (Inr ()))" "report = (dr_outcomes d', dr_findings d')"
    using assms new by (auto simp: apply_plan_def split: prod.splits option.splits sum.splits)
  from apply_events_accounts [OF acc d'(1)] d'(2) planned show ?thesis by simp
qed

definition sample_adapter :: "unit filesystem_adapter" where
  "sample_adapter =
     \<lparr>ad_capabilities = (\<lambda>_. capabilities_standard True True), ad_begin_session = (\<lambda>a. (a, True)),
      ad_begin_entry = (\<lambda>a _. (a, True)), ad_write_data = (\<lambda>a _. (a, True)),
      ad_finish_entry = (\<lambda>a. (a, Some \<lparr>er_materialization = MatFile, er_findings = []\<rparr>)),
      ad_abort_entry = id, ad_finish_session = (\<lambda>a. (a, Some [])),
      ad_remove_path = default_remove_path, ad_clear_directory = default_clear_directory\<rparr>"

definition sample_entry :: entry_metadata where
  "sample_entry = b_mode (Some 420) (builder KindFile (path_from_bytes (ascii ''dir/a'')))"

theorem apply_report_complete_witness:
  "\<exists>report. apply_plan sample_adapter () policy_safe limits_unlimited (plan True policy_safe [sample_entry, sample_entry])
      [Inr (ReadEntry sample_entry), Inr (ReadData [1, 2]), Inr ReadEndEntry,
       Inr (ReadEntry sample_entry), Inr ReadEndEntry, Inr ReadDone] = ((), Some (Inr report)) \<and>
    map eo_outcome (fst report) = [OutFile, OutRejected DestinationCollision] \<and>
    report_complete (plan True policy_safe [sample_entry, sample_entry]) report"
proof -
  let ?planned = "plan True policy_safe [sample_entry, sample_entry]"
  let ?evs = "[Inr (ReadEntry sample_entry), Inr (ReadData [1, 2]), Inr ReadEndEntry,
       Inr (ReadEntry sample_entry), Inr ReadEndEntry, Inr ReadDone]"
  let ?run = "apply_plan sample_adapter () policy_safe limits_unlimited ?planned ?evs"
  let ?k = "\<lparr>dk_path = ascii ''dir/a''\<rparr>"
  have planned: "?planned =
      [\<lparr>pe_metadata = sample_entry, pe_disposition = Materialize, pe_destination = Some ?k, pe_link_target = None\<rparr>,
       \<lparr>pe_metadata = sample_entry, pe_disposition = Reject DestinationCollision, pe_destination = Some ?k,
        pe_link_target = None\<rparr>]"
    by code_simp
  have kind: "md_kind sample_entry = KindFile" by (simp add: sample_entry_def builder_defs builder_def)
  have eval: "(case ?run of (_, Some (Inr (os, _))) \<Rightarrow> map eo_outcome os = [OutFile, OutRejected DestinationCollision] | _ \<Rightarrow> False)"
    unfolding planned
    by (simp add: apply_plan_def driver_new_def sample_adapter_def driver_event_def driver_start_entry_def
        observe_entry_def limits_unlimited_def u64_max_def start_planned_def begin_materializing_def
        entry_kind_rejection_def kind is_special_def capabilities_standard_def fc_with_atomic_commit_def
        fc_with_mode_def fc_with_ownership_def fc_with_access_time_def fc_with_modification_time_def
        fc_with_symlinks_def fc_with_hardlinks_def fc_with_xattrs_def fc_with_acls_def fc_with_sparse_def
        fc_with_special_files_def fc_with_removals_def driver_write_data_def driver_end_entry_def
        finish_materializing_def finished_outcome_def driver_reject_def driver_finish_def Let_def)
  have "\<exists>report. r = ((), Some (Inr report)) \<and> map eo_outcome (fst report) = out"
    if "case r of (_, Some (Inr (os, _))) \<Rightarrow> map eo_outcome os = out | _ \<Rightarrow> False"
    for r :: "unit \<times> (stream_error + entry_outcome list \<times> filesystem_finding list) option" and out
    using that by (auto split: prod.splits option.splits sum.splits)
  from this [OF eval] obtain report where run: "?run = ((), Some (Inr report))"
      "map eo_outcome (fst report) = [OutFile, OutRejected DestinationCollision]" by (elim exE conjE)
  show ?thesis by (rule exI [of _ report], intro conjI run apply_report_complete [OF run(1)])
qed

end
