(* ===== verification/Oxide_Oci_Apply.thy ===== *)
theory Oxide_Oci_Apply
  imports Oxide_Oci Oxide_Filesystem_Safety
begin

text \<open>
  Applying a layer plan: \<open>libarchive_oxide/src/oci/apply.rs\<close>. The byte source of the layer is the
  record \<open>layer_source\<close>: whether each of the two seeks to its start succeeds, what the first pass
  answers, which computes both digests and compares them with the expected pair, and for the second
  pass the list of the tar reader's results, or none if the filter reader cannot be opened. (The
  source also collects the destinations of committed files in a local set that it never reads.)
\<close>

section \<open>The applier\<close>

datatype oci_layer_error =
  OciStream stream_error | OciLayerIo | OciDigestMismatch | OciAdapter | OciSession string

record 'd oci_layer_plan =
  olp_session_id :: nat
  olp_expected :: 'd
  olp_policy :: policy
  olp_operations :: "oci_plan_operation list"


record oci_counts =
  oc_materialized :: nat
  oc_removed :: nat
  oc_cleared :: nat
  oc_rejected :: nat

definition saturating_succ :: "nat \<Rightarrow> nat" where
  "saturating_succ n = min usize_max (n + 1)"

datatype oci_active =
    ActiveMaterialize oci_materialize | ActiveWhiteout oci_removal | ActiveOpaque oci_removal
  | ActiveReject archive_path oci_rejection | ActiveSkip

record 'a oci_drive =
  od_adapter :: 'a
  od_findings :: "filesystem_finding list"
  od_counts :: oci_counts
  od_operations :: "oci_plan_operation list"
  od_active :: "oci_active option"

definition oci_entry :: "bool \<Rightarrow> oci_materialize \<Rightarrow> filesystem_entry" where
  "oci_entry ovr m =
     \<lparr>fe_metadata = om_metadata m, fe_destination = om_destination m, fe_link_target = om_link_target m,
      fe_overwrite = ovr\<rparr>"

definition oci_removal_request :: "oci_removal \<Rightarrow> filesystem_removal" where
  "oci_removal_request r = \<lparr>fr_path = orm_path r, fr_destination = orm_destination r\<rparr>"

definition begin_create :: "'a filesystem_adapter \<Rightarrow> bool \<Rightarrow> oci_materialize \<Rightarrow> 'a \<Rightarrow>
    'a \<times> (oci_layer_error + oci_active)" where
  "begin_create ad ovr m a =
     (case ad_begin_entry ad a (oci_entry ovr m) of
        (a', ok) \<Rightarrow> (a', if ok then Inr (ActiveMaterialize m) else Inl OciAdapter))"

fun begin_operation :: "'a filesystem_adapter \<Rightarrow> bool \<Rightarrow> oci_plan_operation \<Rightarrow> 'a \<Rightarrow>
    'a \<times> (oci_layer_error + oci_active)" where
  "begin_operation ad ovr (OciMaterialize m) a = begin_create ad ovr m a"
| "begin_operation ad ovr (OciMapOwnership m) a = begin_create ad ovr m a"
| "begin_operation ad ovr (OciWhiteout r) a = (a, Inr (ActiveWhiteout r))"
| "begin_operation ad ovr (OciOpaqueDir r) a = (a, Inr (ActiveOpaque r))"
| "begin_operation ad ovr (OciReject p reason) a = (a, Inr (ActiveReject p reason))"

fun count_materialization :: "filesystem_materialization \<Rightarrow> oci_counts \<Rightarrow> oci_counts" where
  "count_materialization MatDestinationExists c = c\<lparr>oc_rejected := saturating_succ (oc_rejected c)\<rparr>"
| "count_materialization MatFailed c = c\<lparr>oc_rejected := saturating_succ (oc_rejected c)\<rparr>"
| "count_materialization _ c = c\<lparr>oc_materialized := saturating_succ (oc_materialized c)\<rparr>"

fun finish_operation :: "'a filesystem_adapter \<Rightarrow> oci_active \<Rightarrow> 'a oci_drive \<Rightarrow>
    'a oci_drive \<times> (oci_layer_error + unit)" where
  "finish_operation ad ActiveSkip d = (d, Inr ())"
| "finish_operation ad (ActiveMaterialize m) d =
     (case ad_finish_entry ad (od_adapter d) of
        (a', None) \<Rightarrow> (d\<lparr>od_adapter := a'\<rparr>, Inl OciAdapter)
      | (a', Some r) \<Rightarrow>
          (d\<lparr>od_adapter := a', od_findings := od_findings d @ er_findings r,
             od_counts := count_materialization (er_materialization r) (od_counts d)\<rparr>, Inr ()))"
| "finish_operation ad (ActiveWhiteout r) d =
     (case ad_remove_path ad (od_adapter d) (oci_removal_request r) of
        (a', None) \<Rightarrow> (d\<lparr>od_adapter := a'\<rparr>, Inl OciAdapter)
      | (a', Some f) \<Rightarrow>
          (d\<lparr>od_adapter := a', od_findings := od_findings d @ [f],
             od_counts := (od_counts d)\<lparr>oc_removed := saturating_succ (oc_removed (od_counts d))\<rparr>\<rparr>, Inr ()))"
| "finish_operation ad (ActiveOpaque r) d =
     (case ad_clear_directory ad (od_adapter d) (oci_removal_request r) of
        (a', None) \<Rightarrow> (d\<lparr>od_adapter := a'\<rparr>, Inl OciAdapter)
      | (a', Some f) \<Rightarrow>
          (d\<lparr>od_adapter := a', od_findings := od_findings d @ [f],
             od_counts := (od_counts d)\<lparr>oc_cleared := saturating_succ (oc_cleared (od_counts d))\<rparr>\<rparr>, Inr ()))"
| "finish_operation ad (ActiveReject p reason) d =
     (d\<lparr>od_findings := od_findings d @ [finding_refused p OpEntry (rejection_label reason)],
        od_counts := (od_counts d)\<lparr>oc_rejected := saturating_succ (oc_rejected (od_counts d))\<rparr>\<rparr>, Inr ())"

definition oci_start_entry :: "'a filesystem_adapter \<Rightarrow> bool \<Rightarrow> entry_metadata \<Rightarrow> 'a oci_drive \<Rightarrow>
    'a oci_drive \<times> (oci_layer_error + unit)" where
  "oci_start_entry ad ovr md d =
     (if od_active d \<noteq> None
      then (d\<lparr>od_adapter := ad_abort_entry ad (od_adapter d)\<rparr>,
            Inl (OciSession ''layer entry began before the previous entry ended''))
      else if is_structural md then (d\<lparr>od_active := Some ActiveSkip\<rparr>, Inr ())
      else (case od_operations d of
              [] \<Rightarrow> (d, Inl (OciSession ''layer stream produced more entries than the plan''))
            | operation # ops \<Rightarrow>
                (case begin_operation ad ovr operation (od_adapter d) of
                   (a', Inl e) \<Rightarrow> (d\<lparr>od_adapter := a', od_operations := ops\<rparr>, Inl e)
                 | (a', Inr active) \<Rightarrow>
                     (d\<lparr>od_adapter := a', od_operations := ops, od_active := Some active\<rparr>, Inr ()))))"

definition oci_data :: "'a filesystem_adapter \<Rightarrow> bytes \<Rightarrow> 'a oci_drive \<Rightarrow> 'a oci_drive \<times> (oci_layer_error + unit)" where
  "oci_data ad data d =
     (case od_active d of
        Some (ActiveMaterialize _) \<Rightarrow>
          (case ad_write_data ad (od_adapter d) data of
             (a', ok) \<Rightarrow> (d\<lparr>od_adapter := a'\<rparr>, if ok then Inr () else Inl OciAdapter))
      | _ \<Rightarrow> (d, Inr ()))"

definition oci_end_entry :: "'a filesystem_adapter \<Rightarrow> 'a oci_drive \<Rightarrow> 'a oci_drive \<times> (oci_layer_error + unit)" where
  "oci_end_entry ad d =
     (case od_active d of
        None \<Rightarrow> (d, Inl (OciSession ''layer ended an entry that was not open''))
      | Some active \<Rightarrow> finish_operation ad active (d\<lparr>od_active := None\<rparr>))"

definition oci_done :: "'a filesystem_adapter \<Rightarrow> 'a oci_drive \<Rightarrow> 'a oci_drive \<times> (oci_layer_error + unit)" where
  "oci_done ad d =
     (if od_operations d \<noteq> [] then (d, Inl (OciSession ''plan has more operations than the layer stream''))
      else (case ad_finish_session ad (od_adapter d) of
              (a', None) \<Rightarrow> (d\<lparr>od_adapter := a'\<rparr>, Inl OciAdapter)
            | (a', Some deferred) \<Rightarrow>
                (d\<lparr>od_adapter := a', od_findings := od_findings d @ deferred\<rparr>, Inr ())))"

definition oci_event :: "'a filesystem_adapter \<Rightarrow> bool \<Rightarrow> reader_event \<Rightarrow> 'a oci_drive \<Rightarrow>
    'a oci_drive \<times> (oci_layer_error + unit)" where
  "oci_event ad ovr ev d =
     (case ev of
        ReadArchiveMetadata _ \<Rightarrow> (d, Inr ())
      | ReadEntry md \<Rightarrow> oci_start_entry ad ovr md d
      | ReadData data \<Rightarrow> oci_data ad data d
      | ReadEndEntry \<Rightarrow> oci_end_entry ad d
      | ReadDone \<Rightarrow> oci_done ad d)"

fun oci_drive_loop :: "'a filesystem_adapter \<Rightarrow> bool \<Rightarrow> (stream_error + reader_event) list \<Rightarrow> 'a oci_drive \<Rightarrow>
    'a oci_drive \<times> (oci_layer_error + unit) option" where
  "oci_drive_loop ad ovr [] d = (d, None)"
| "oci_drive_loop ad ovr (Inl e # evs) d = (d, Some (Inl (OciStream e)))"
| "oci_drive_loop ad ovr (Inr ev # evs) d =
     (case oci_event ad ovr ev d of
        (d', Inl e) \<Rightarrow> (d', Some (Inl e))
      | (d', Inr _) \<Rightarrow> if ev = ReadDone then (d', Some (Inr ())) else oci_drive_loop ad ovr evs d')"



definition open_tar :: "(stream_error + reader_event) list option \<Rightarrow> oci_layer_error + (stream_error + reader_event) list" where
  "open_tar tar = (case tar of None \<Rightarrow> Inl OciLayerIo | Some evs \<Rightarrow> Inr evs)"

definition drive_apply :: "'a filesystem_adapter \<Rightarrow> 'a \<Rightarrow> (stream_error + reader_event) list option \<Rightarrow> 'd oci_layer_plan \<Rightarrow>
    'a \<times> (oci_layer_error + filesystem_finding list \<times> oci_counts) option" where
  "drive_apply ad a tar lp =
     (case open_tar tar of
        Inl e \<Rightarrow> (a, Some (Inl e))
      | Inr evs \<Rightarrow>
          (case ad_begin_session ad a of
             (a', False) \<Rightarrow> (a', Some (Inl OciAdapter))
           | (a', True) \<Rightarrow>
               (case oci_drive_loop ad (overwrite (olp_policy lp)) evs
                   \<lparr>od_adapter = a', od_findings = [],
                    od_counts = \<lparr>oc_materialized = 0, oc_removed = 0, oc_cleared = 0, oc_rejected = 0\<rparr>,
                    od_operations = olp_operations lp, od_active = None\<rparr> of
                  (d, None) \<Rightarrow> (od_adapter d, None)
                | (d, Some (Inl e)) \<Rightarrow> (od_adapter d, Some (Inl e))
                | (d, Some (Inr _)) \<Rightarrow> (od_adapter d, Some (Inr (od_findings d, od_counts d))))))"


section \<open>The applier executes its plan and nothing else\<close>

datatype effect = Create filesystem_entry | Remove filesystem_removal | Clear filesystem_removal

fun effects :: "adapter_call list \<Rightarrow> effect list" where
  "effects [] = []"
| "effects (CallBeginEntry e # cs) = Create e # effects cs"
| "effects (CallRemovePath r # cs) = Remove r # effects cs"
| "effects (CallClearDirectory r # cs) = Clear r # effects cs"
| "effects (_ # cs) = effects cs"

fun planned_effect :: "bool \<Rightarrow> oci_plan_operation \<Rightarrow> effect list" where
  "planned_effect ovr (OciMaterialize m) = [Create (oci_entry ovr m)]"
| "planned_effect ovr (OciMapOwnership m) = [Create (oci_entry ovr m)]"
| "planned_effect ovr (OciWhiteout r) = [Remove (oci_removal_request r)]"
| "planned_effect ovr (OciOpaqueDir r) = [Clear (oci_removal_request r)]"
| "planned_effect ovr (OciReject p reason) = []"

definition planned_effects :: "bool \<Rightarrow> oci_plan_operation list \<Rightarrow> effect list" where
  "planned_effects ovr ops = concat (map (planned_effect ovr) ops)"



lemma effects_append [simp]: "effects (xs @ ys) = effects xs @ effects ys"
  by (induction xs rule: effects.induct) auto

lemma planned_effects_Cons [simp]: "planned_effects ovr (x # xs) = planned_effect ovr x @ planned_effects ovr xs"
  by (simp add: planned_effects_def)














section \<open>A decoding failure inside an entry\<close>

lemma loop_continues:
  "oci_drive_loop ad ovr evs d = (d', None) \<Longrightarrow> oci_drive_loop ad ovr (evs @ later) d = oci_drive_loop ad ovr later d'"
  by (induction ad ovr evs d rule: oci_drive_loop.induct) (auto split: prod.splits sum.splits if_splits)

lemma events_continue:
  "apply_events ad evs d = (d', None) \<Longrightarrow> apply_events ad (evs @ later) d = apply_events ad later d'"
  by (induction ad evs d rule: apply_events.induct) (auto split: prod.splits sum.splits if_splits)

lemma begin_no_abort:
  "begin_operation (logged ad) ovr x a = (a', r) \<Longrightarrow> CallAbort \<notin> set (snd a) \<Longrightarrow> CallAbort \<notin> set (snd a')"
  by (cases x) (auto simp: begin_create_def split: prod.splits)

lemma finish_no_abort:
  "finish_operation (logged ad) x d = (d', r) \<Longrightarrow> CallAbort \<notin> set (snd (od_adapter d)) \<Longrightarrow> CallAbort \<notin> set (snd (od_adapter d'))"
  by (cases x) (auto split: prod.splits option.splits)

text \<open>The applier calls \<open>abort_entry\<close> only when it refuses an entry that begins too early.\<close>

lemma event_no_abort:
  assumes "oci_event (logged ad) ovr ev d = (d', Inr u)" and "CallAbort \<notin> set (snd (od_adapter d))"
  shows "CallAbort \<notin> set (snd (od_adapter d'))"
proof (cases ev)
  case (ReadEntry md)
  with assms show ?thesis
    by (auto simp: oci_event_def oci_start_entry_def dest: begin_no_abort split: if_splits list.splits prod.splits sum.splits)
next
  case (ReadData data)
  with assms show ?thesis
    by (auto simp: oci_event_def oci_data_def split: option.splits oci_active.splits prod.splits if_splits)
next
  case ReadEndEntry
  with assms show ?thesis by (auto simp: oci_event_def oci_end_entry_def dest: finish_no_abort split: option.splits)
next
  case ReadDone
  with assms show ?thesis by (auto simp: oci_event_def oci_done_def split: if_splits prod.splits option.splits)
qed (use assms in \<open>simp add: oci_event_def\<close>)

lemma loop_no_abort:
  "oci_drive_loop (logged ad) ovr evs d = (d', None) \<Longrightarrow> CallAbort \<notin> set (snd (od_adapter d)) \<Longrightarrow>
   CallAbort \<notin> set (snd (od_adapter d'))"
proof (induction evs arbitrary: d)
  case (Cons ev evs)
  show ?case
  proof (cases ev)
    case (Inr re)
    with Cons.prems obtain d1 u where "oci_event (logged ad) ovr re d = (d1, Inr u)" "oci_drive_loop (logged ad) ovr evs d1 = (d', None)"
      by (auto split: prod.splits sum.splits if_splits)
    with Cons.IH event_no_abort Cons.prems(2) show ?thesis by blast
  qed (use Cons.prems in simp)
qed simp

text \<open>
  C21. A decoding failure in the middle of a layer leaves the adapter as it is. Whatever the adapter,
  the plan and the events before the failure, as long as these did not end the run, the layer applier
  returns the error without any further call, and no call it has made is \<open>abort_entry\<close>: an entry that
  was begun stays in flight. The contract of \<open>FilesystemAdapter\<close> says that \<open>abort_entry\<close> is called
  then, and the driver of extraction plans, on the same adapter, does so after every decoding
  failure.
\<close>

theorem oci_decode_error_skips_abort:
  assumes "drive_apply (logged ad) (a, []) (Some evs) lp = ((a', log), None)"
    and "apply_plan (logged ad) (a, []) p l planned evs' = ((b', log'), None)"
  shows "drive_apply (logged ad) (a, []) (Some (evs @ Inl e # rest)) lp = ((a', log), Some (Inl (OciStream e))) \<and>
    CallAbort \<notin> set log \<and>
    apply_plan (logged ad) (a, []) p l planned (evs' @ Inl e # rest) =
      ((ad_abort_entry ad b', log' @ [CallAbort]), Some (Inl e))"
proof (intro conjI)
  obtain a1 d' where b: "ad_begin_session ad a = (a1, True)"
    and l: "oci_drive_loop (logged ad) (overwrite (olp_policy lp)) evs
        \<lparr>od_adapter = (a1, [CallBeginSession]), od_findings = [],
         od_counts = \<lparr>oc_materialized = 0, oc_removed = 0, oc_cleared = 0, oc_rejected = 0\<rparr>,
         od_operations = olp_operations lp, od_active = None\<rparr> = (d', None)" "od_adapter d' = (a', log)"
    using assms(1) by (auto simp: drive_apply_def open_tar_def split: prod.splits bool.splits option.splits sum.splits)
  show "drive_apply (logged ad) (a, []) (Some (evs @ Inl e # rest)) lp = ((a', log), Some (Inl (OciStream e)))"
    using b l(2) loop_continues [OF l(1), of "Inl e # rest"] by (simp add: drive_apply_def open_tar_def)
  show "CallAbort \<notin> set log" using loop_no_abort [OF l(1)] l(2) by simp
  obtain s d d2 where d: "driver_new (logged ad) (a, []) p l planned = (s, Inr d)"
    and ev: "apply_events (logged ad) evs' d = (d2, None)" "dr_adapter d2 = (b', log')"
    using assms(2) by (auto simp: apply_plan_def split: prod.splits option.splits sum.splits)
  show "apply_plan (logged ad) (a, []) p l planned (evs' @ Inl e # rest) =
      ((ad_abort_entry ad b', log' @ [CallAbort]), Some (Inl e))"
    using d ev(2) events_continue [OF ev(1), of "Inl e # rest"] by (simp add: apply_plan_def driver_abort_def)
qed

definition failing_entry :: entry_metadata where
  "failing_entry = builder KindFile (path_from_bytes (ascii ''f''))"

definition failing_materialize :: oci_materialize where
  "failing_materialize =
     \<lparr>om_metadata = failing_entry, om_destination = ascii ''f'', om_link_target = None, om_original_owner = None\<rparr>"

theorem oci_decode_error_skips_abort_witness:
  "let lp = \<lparr>olp_session_id = 0, olp_expected = (), olp_policy = policy_safe, olp_operations = [OciMaterialize failing_materialize]\<rparr>;
       pe = \<lparr>pe_metadata = failing_entry, pe_disposition = Materialize, pe_destination = Some \<lparr>dk_path = ascii ''f''\<rparr>,
             pe_link_target = None\<rparr>;
       begun = [CallBeginSession, CallBeginEntry (oci_entry (overwrite policy_safe) failing_materialize)];
       evs = [Inr (ReadEntry failing_entry), Inl StreamIo] in
   drive_apply (logged sample_adapter) ((), []) (Some evs) lp = (((), begun), Some (Inl (OciStream StreamIo))) \<and>
   apply_plan (logged sample_adapter) ((), []) policy_safe limits_unlimited [pe] evs = (((), begun @ [CallAbort]), Some (Inl StreamIo))"
proof -
  let ?lp = "\<lparr>olp_session_id = 0, olp_expected = (), olp_policy = policy_safe, olp_operations = [OciMaterialize failing_materialize]\<rparr>"
  let ?pe = "\<lparr>pe_metadata = failing_entry, pe_disposition = Materialize, pe_destination = Some \<lparr>dk_path = ascii ''f''\<rparr>,
             pe_link_target = None\<rparr>"
  let ?begun = "[CallBeginSession, CallBeginEntry (oci_entry (overwrite policy_safe) failing_materialize)]"
  have e: "\<not> is_structural failing_entry" "md_kind failing_entry = KindFile"
    by (simp_all add: failing_entry_def is_structural_def builder_def)
  have caps: "fc_atomic_commit (capabilities_standard True True)"
    by (simp add: capabilities_standard_def fc_with_atomic_commit_def fc_with_mode_def fc_with_ownership_def
        fc_with_access_time_def fc_with_modification_time_def fc_with_symlinks_def fc_with_hardlinks_def
        fc_with_xattrs_def fc_with_acls_def fc_with_sparse_def fc_with_special_files_def fc_with_removals_def)
  have "drive_apply (logged sample_adapter) ((), []) (Some [Inr (ReadEntry failing_entry)]) ?lp = (((), ?begun), None)"
    by (simp add: drive_apply_def open_tar_def sample_adapter_def oci_event_def oci_start_entry_def e begin_create_def)
  moreover have "apply_plan (logged sample_adapter) ((), []) policy_safe limits_unlimited [?pe] [Inr (ReadEntry failing_entry)] =
      (((), ?begun), None)"
    by (simp add: apply_plan_def driver_new_def driver_event_def driver_start_entry_def observe_entry_def u64_max_def
        limits_unlimited_def start_planned_def entry_kind_rejection_def is_special_def begin_materializing_def
        sample_adapter_def oci_entry_def failing_materialize_def e caps Let_def)
  ultimately show ?thesis
    using oci_decode_error_skips_abort [of sample_adapter "()" "[Inr (ReadEntry failing_entry)]" ?lp "()" ?begun policy_safe
        limits_unlimited "[?pe]" "[Inr (ReadEntry failing_entry)]" "()" ?begun StreamIo "[]"]
    by (simp add: Let_def)
qed

end
