(* ===== verification/Oxide_Codec.thy ===== *)
theory Oxide_Codec
  imports Oxide_Protocol
begin

text \<open>
  Byte-to-byte codecs (\<open>Codec\<close> of \<open>libarchive_oxide-core/src/protocol.rs\<close>): the driver
  \<open>try_drive_codec\<close> of \<open>libarchive_oxide-codecs/src/lib.rs\<close>, and the contract of a codec whose
  output is a function of its input stream. A call is shown a piece of the input and the size of
  the output buffer and answers with its report and the bytes it wrote.
\<close>

type_synonym 's codec_process =
  "'s \<Rightarrow> bytes \<Rightarrow> nat \<Rightarrow> end_of_input \<Rightarrow> 's \<times> (archive_error + codec_step \<times> bytes)"

abbreviation codec_report :: "nat \<Rightarrow> nat \<Rightarrow> codec_status \<Rightarrow> codec_step" where
  "codec_report k p st \<equiv> \<lparr>cs_consumed = k, cs_produced = p, cs_status = st\<rparr>"

definition piece_end :: "bytes \<Rightarrow> nat \<Rightarrow> end_of_input" where
  "piece_end left chunk = (if length left \<le> chunk then End else More)"

partial_function (option) drive_codec_loop ::
    "'s codec_process \<Rightarrow> nat \<Rightarrow> nat \<Rightarrow> 's \<Rightarrow> bytes \<Rightarrow> bytes \<Rightarrow> (archive_error + bytes) option" where
  "drive_codec_loop process chunk cap s left decoded =
     (case process s (take chunk left) cap (piece_end left chunk) of
        (s', Inl e) \<Rightarrow> Some (Inl e)
      | (s', Inr (d, out)) \<Rightarrow>
          (case codec_validate d (length (take chunk left)) cap of
             Inl e \<Rightarrow> Some (Inl e)
           | Inr d \<Rightarrow>
               let left' = drop (cs_consumed d) left; decoded' = decoded @ out in
               if cs_status d = CodecDone then
                 (if left' \<noteq> [] then Some (Inl (plain_error ErrProtocol ''codec left input unconsumed''))
                  else Some (Inr decoded'))
               else if cs_consumed d = 0 \<and> cs_produced d = 0
               then Some (Inl (plain_error ErrProtocol ''codec stalled before completion''))
               else drive_codec_loop process chunk cap s' left' decoded'))"

definition try_drive_codec :: "'s codec_process \<Rightarrow> 's \<Rightarrow> bytes \<Rightarrow> nat \<Rightarrow> nat \<Rightarrow> (archive_error + bytes) option" where
  "try_drive_codec process s input chunk cap = drive_codec_loop process chunk cap s input []"

section \<open>The contract of a stream codec\<close>

text \<open>
  \<open>rest s xs\<close> is everything the codec will still produce when \<open>xs\<close> is all that is left of the
  input. A call takes some of the piece it was shown and produces a prefix of \<open>rest\<close>; the end of
  the input is announced only with the last piece. \<open>backlog\<close> bounds the calls that consume nothing,
  and \<open>over\<close> marks the states in which the end of the input has been taken in.
\<close>

locale stream_codec =
  fixes process :: "'s codec_process"
    and inv :: "'s \<Rightarrow> bool"
    and rest :: "'s \<Rightarrow> bytes \<Rightarrow> bytes"
    and backlog :: "'s \<Rightarrow> nat"
    and over :: "'s \<Rightarrow> bool"
  assumes call: "inv s \<Longrightarrow> 0 < n \<Longrightarrow> (over s \<Longrightarrow> xs = [] \<and> e = End) \<Longrightarrow>
      \<exists>s' k out st. process s xs n e = (s', Inr (codec_report k (length out) st, out)) \<and>
        inv s' \<and> k \<le> length xs \<and> length out \<le> n \<and> (over s' \<longrightarrow> drop k xs = [] \<and> e = End) \<and>
        (k = 0 \<and> out = [] \<and> st \<noteq> CodecDone \<longrightarrow> st = CodecNeedInput \<and> xs = [] \<and> e = More) \<and>
        (k = 0 \<and> st \<noteq> CodecDone \<and> out \<noteq> [] \<longrightarrow> backlog s' < backlog s) \<and>
        (st = CodecDone \<longrightarrow> xs = [] \<and> e = End) \<and>
        (\<forall>ys. e = More \<or> ys = [] \<longrightarrow>
          rest s (xs @ ys) = out @ (if st = CodecDone then [] else rest s' (drop k xs @ ys)))"
begin

lemma drive_codec_loop_returns:
  assumes "inv s" and "over s \<Longrightarrow> left = []" and "0 < chunk" and "0 < cap"
  shows "drive_codec_loop process chunk cap s left decoded = Some (Inr (decoded @ rest s left))"
  using assms(1,2)
proof (induction "(length left, backlog s)" arbitrary: s left decoded rule: wf_induct_rule [OF wf_lex_prod [OF wf_less_than wf_less_than]])
  case 1
  let ?xs = "take chunk left" and ?ys = "drop chunk left" and ?e = "piece_end left chunk"
  have e: "?e = More \<or> ?ys = []" and left: "?xs @ ?ys = left" by (auto simp: piece_end_def)
  obtain s' k out st where p: "process s ?xs cap ?e = (s', Inr (codec_report k (length out) st, out))"
    and inv: "inv s'" and k: "k \<le> length ?xs" and out: "length out \<le> cap"
    and over: "over s' \<longrightarrow> drop k ?xs = [] \<and> ?e = End"
    and still: "k = 0 \<and> out = [] \<and> st \<noteq> CodecDone \<longrightarrow> st = CodecNeedInput \<and> ?xs = [] \<and> ?e = More"
    and less: "k = 0 \<and> st \<noteq> CodecDone \<and> out \<noteq> [] \<longrightarrow> backlog s' < backlog s"
    and fin: "st = CodecDone \<longrightarrow> ?xs = [] \<and> ?e = End"
    and all: "\<forall>ys. ?e = More \<or> ys = [] \<longrightarrow>
      rest s (?xs @ ys) = out @ (if st = CodecDone then [] else rest s' (drop k ?xs @ ys))"
    using call [OF 1(2) assms(4), of ?xs ?e] 1(3) by (force simp: piece_end_def)
  have "drop k left = drop k ?xs @ ?ys" using k drop_append [of k ?xs ?ys] unfolding left by simp
  then have rest: "rest s left = out @ (if st = CodecDone then [] else rest s' (drop k left))"
    using all [rule_format, OF e] unfolding left by simp
  have moving: "st \<noteq> CodecDone \<Longrightarrow> \<not> (k = 0 \<and> out = [])"
    using still assms(3) by (auto simp: piece_end_def)
  then have valid: "codec_validate (codec_report k (length out) st) (length ?xs) cap = Inr (codec_report k (length out) st)"
    using k out by (auto simp: codec_validate_def)
  show ?case
  proof (cases "st = CodecDone")
    case True
    then have "left = []" using fin assms(3) by auto
    with True p valid rest show ?thesis by (subst drive_codec_loop.simps) (simp add: Let_def)
  next
    case False
    have "((length (drop k left), backlog s'), (length left, backlog s)) \<in> less_than <*lex*> less_than"
      using k less moving [OF False] False by (cases "k = 0") auto
    moreover have "drop k left = []" if "over s'"
      using that over k by (auto simp: piece_end_def split: if_splits)
    ultimately show ?thesis
      using 1(1) [of "drop k left" s' "decoded @ out"] inv False p valid rest moving [OF False]
      by (subst drive_codec_loop.simps) (auto simp: Let_def)
  qed
qed

lemma codec_delivers:
  "inv s \<Longrightarrow> \<not> over s \<Longrightarrow> 0 < chunk \<Longrightarrow> 0 < cap \<Longrightarrow> try_drive_codec process s input chunk cap = Some (Inr (rest s input))"
  using drive_codec_loop_returns [of s input chunk cap "[]"] by (simp add: try_drive_codec_def)

end

end
