(* ===== verification/Oxide_Delta.thy ===== *)
theory Oxide_Delta
  imports Oxide_Codec
begin

text \<open>
  The delta filter: \<open>libarchive_oxide-codecs/src/delta.rs\<close>. The history is a ring of 256 bytes
  with a position that runs backwards and wraps as a \<open>u8\<close>.
\<close>

definition MAX_DISTANCE :: nat where
  "MAX_DISTANCE = 256"

definition DIS_MASK :: nat where
  "DIS_MASK = MAX_DISTANCE - 1"

record delta_decoder =
  dd_distance :: nat
  dd_history :: bytes
  dd_pos :: byte

definition delta_new :: "nat \<Rightarrow> delta_decoder" where
  "delta_new distance =
     \<lparr>dd_distance = max 1 (min distance MAX_DISTANCE), dd_history = replicate MAX_DISTANCE 0, dd_pos = 0\<rparr>"

definition delta_byte :: "delta_decoder \<Rightarrow> byte \<Rightarrow> delta_decoder \<times> byte" where
  "delta_byte s coded =
     (let pos = unat (dd_pos s);
          history = dd_history s ! ((dd_distance s + pos) AND DIS_MASK);
          v = coded + history
      in (s\<lparr>dd_history := (dd_history s)[pos AND DIS_MASK := v], dd_pos := dd_pos s - 1\<rparr>, v))"

fun delta_loop :: "delta_decoder \<Rightarrow> bytes \<Rightarrow> delta_decoder \<times> bytes" where
  "delta_loop s [] = (s, [])"
| "delta_loop s (b # bs) = (let (s1, v) = delta_byte s b; (s2, vs) = delta_loop s1 bs in (s2, v # vs))"

definition delta_process :: "delta_decoder codec_process" where
  "delta_process s input cap e =
     (let count = min (length input) cap; (s', out) = delta_loop s (take count input) in
      if 0 < count then (s', Inr (codec_report count count CodecNeedInput, out))
      else (s', Inr (codec_report 0 0 (case e of End \<Rightarrow> CodecDone | More \<Rightarrow> CodecNeedInput), [])))"

section \<open>The ring holds the latest outputs\<close>

definition recent :: "delta_decoder \<Rightarrow> bytes" where
  \<comment> \<open>the last 256 outputs, newest first\<close>
  "recent s = map (\<lambda>j. dd_history s ! ((unat (dd_pos s) + Suc j) mod 256)) [0..<256]"

definition delta_inv :: "delta_decoder \<Rightarrow> bool" where
  "delta_inv s \<longleftrightarrow> 1 \<le> dd_distance s \<and> dd_distance s \<le> 256 \<and> length (dd_history s) = 256"

lemma and_dis_mask: "n AND DIS_MASK = n mod 256"
proof -
  have "n AND mask k = n mod 2 ^ k" for k
    by (simp flip: take_bit_eq_mask take_bit_eq_mod)
  from this [of 8] show ?thesis by (simp add: DIS_MASK_def MAX_DISTANCE_def mask_eq_exp_minus_1)
qed

lemma delta_byte_recent:
  assumes "delta_inv s" and "delta_byte s b = (s', v)"
  shows "v = b + recent s ! (dd_distance s - 1)" and "recent s' = v # butlast (recent s)"
    and "delta_inv s'" and "dd_distance s' = dd_distance s"
proof -
  let ?p = "unat (dd_pos s)"
  have p: "?p < 256" using unsigned_less [of "dd_pos s"] by simp
  have v: "v = b + dd_history s ! ((dd_distance s + ?p) mod 256)"
    and s': "s' = s\<lparr>dd_history := (dd_history s)[?p := v], dd_pos := dd_pos s - 1\<rparr>"
    using assms(2) p by (auto simp: delta_byte_def Let_def and_dis_mask)
  obtain d where "dd_distance s = Suc d" "d < 256"
    using assms(1) by (cases "dd_distance s") (auto simp: delta_inv_def)
  then show "v = b + recent s ! (dd_distance s - 1)"
    unfolding v by (simp add: recent_def add.commute)
  show "delta_inv s'" "dd_distance s' = dd_distance s" using assms(1) by (simp_all add: s' delta_inv_def)
  have pos: "(unat (dd_pos s - 1) + Suc j) mod 256 = (?p + j) mod 256" for j
  proof -
    have "unat (dd_pos s - 1) = (if dd_pos s = 0 then 255 else ?p - 1)"
      by (auto simp: unat_minus_one unsigned_minus_1_eq_mask mask_eq_exp_minus_1)
    moreover have "dd_pos s \<noteq> 0 \<Longrightarrow> 0 < ?p" by (simp add: unat_gt_0)
    moreover have "(255 + Suc j) mod 256 = j mod 256" by simp
    ultimately show ?thesis by (cases "dd_pos s = 0") auto
  qed
  have len: "length (dd_history s) = 256" using assms(1) by (simp add: delta_inv_def)
  show "recent s' = v # butlast (recent s)"
  proof (rule nth_equalityI)
    show "length (recent s') = length (v # butlast (recent s))" by (simp add: recent_def)
    fix j
    assume "j < length (recent s')"
    then have j: "j < 256" by (simp add: recent_def)
    have r: "recent s' ! j = (dd_history s)[?p := v] ! ((?p + j) mod 256)"
      using j pos by (simp add: recent_def s')
    show "recent s' ! j = (v # butlast (recent s)) ! j"
    proof (cases j)
      case 0
      with r p len show ?thesis by simp
    next
      case (Suc i)
      then have "(?p + j) mod 256 \<noteq> ?p" using p j by (auto simp: mod_if)
      then have "recent s' ! j = dd_history s ! ((?p + j) mod 256)" using r by simp
      moreover have "butlast (recent s) ! i = dd_history s ! ((?p + Suc i) mod 256)"
        using j Suc by (simp add: nth_butlast recent_def)
      ultimately show ?thesis using Suc by simp
    qed
  qed
qed

lemma delta_loop_length: "length (snd (delta_loop s xs)) = length xs"
  by (induction xs arbitrary: s) (simp_all add: Let_def split_beta)

lemma delta_loop_append:
  "delta_loop s (xs @ ys) =
     (let (s1, us) = delta_loop s xs; (s2, vs) = delta_loop s1 ys in (s2, us @ vs))"
  by (induction xs arbitrary: s) (auto simp: Let_def split: prod.splits)

lemma delta_loop_inv: "delta_inv s \<Longrightarrow> delta_inv (fst (delta_loop s xs))"
proof (induction xs arbitrary: s)
  case (Cons x xs)
  obtain s1 v where "delta_byte s x = (s1, v)" by fastforce
  with delta_byte_recent(3) [OF Cons.prems this] Cons.IH [of s1] show ?case by (auto simp: Let_def split: prod.splits)
qed simp

interpretation delta: stream_codec delta_process delta_inv "\<lambda>s xs. snd (delta_loop s xs)" "\<lambda>_. 0" "\<lambda>_. False"
proof (unfold_locales, goal_cases)
  case (1 s n xs e)
  obtain s' out where l: "delta_loop s (take n xs) = (s', out)" by fastforce
  have "delta_loop s (take (min (length xs) n) xs) = (s', out)" using l by simp
  then have p: "delta_process s xs n e =
      (s', Inr (if 0 < min (length xs) n then (codec_report (min (length xs) n) (min (length xs) n) CodecNeedInput, out)
        else (codec_report 0 0 (case e of End \<Rightarrow> CodecDone | More \<Rightarrow> CodecNeedInput), [])))"
    unfolding delta_process_def Let_def by simp
  have out: "length out = min (length xs) n" using delta_loop_length [of s "take n xs"] l by simp
  have inv: "delta_inv s'" using delta_loop_inv [OF 1(1), of "take n xs"] l by simp
  have rest: "snd (delta_loop s (xs @ ys)) = out @ snd (delta_loop s' (drop n xs @ ys))" for ys
  proof -
    have eq: "take n xs @ drop n xs @ ys = xs @ ys" by (simp flip: append_assoc)
    show ?thesis using delta_loop_append [of s "take n xs" "drop n xs @ ys"] l unfolding eq
      by (simp add: Let_def split_beta)
  qed
  show ?case
  proof (cases "xs = []")
    case True
    with p inv l show ?thesis by (cases e) auto
  next
    case False
    have "snd (delta_loop s (xs @ ys)) = out @ snd (delta_loop s' (drop (min (length xs) n) xs @ ys))" for ys
      using rest by simp
    with p inv out False 1(2) show ?thesis by force
  qed
qed

section \<open>Decoding inverts delta coding\<close>

definition delta_encode :: "nat \<Rightarrow> bytes \<Rightarrow> bytes" where
  \<comment> \<open>every byte minus the one \<open>distance\<close> places before it, zero before the start\<close>
  "delta_encode distance xs = map2 (-) xs (replicate distance 0 @ xs)"

lemma delta_loop_decodes:
  assumes "delta_inv s" and "recent s = take 256 (rev done @ replicate 256 0)" and "dd_distance s = d"
  shows "snd (delta_loop s (map2 (-) xs (drop (length done) (replicate d 0 @ done @ xs)))) = xs"
  using assms
proof (induction xs arbitrary: s "done")
  case (Cons x xs)
  let ?h = "replicate d 0 @ done @ x # xs"
  have d: "1 \<le> d" "d \<le> 256" using Cons.prems by (auto simp: delta_inv_def)
  have split: "drop (length done) ?h = ?h ! length done # drop (length (done @ [x])) ?h"
    using d Cons_nth_drop_Suc [of "length done" ?h] by (simp del: drop_append)
  have h: "?h ! length done = recent s ! (d - 1)"
  proof (cases "length done < d")
    case True
    then have "\<not> d - 1 < length done" by simp
    with True show ?thesis using d unfolding Cons.prems(2) by (simp add: nth_append)
  next
    case False
    then have "d - 1 < length done" "d - 1 < 256" "length done - d < length done" using d by simp_all
    with False show ?thesis using d unfolding Cons.prems(2) by (simp add: nth_append rev_nth)
  qed
  obtain s1 v where b: "delta_byte s (x - ?h ! length done) = (s1, v)" by fastforce
  note step = delta_byte_recent [OF Cons.prems(1) b]
  have v: "v = x" using step(1) Cons.prems(3) h by simp
  have "recent s1 = take 256 (rev (done @ [x]) @ replicate 256 0)"
    using step(2) v unfolding Cons.prems(2)
    by (simp add: butlast_take butlast_conv_take take_Cons' del: take_append)
  from Cons.IH [OF step(3) this] step(4) Cons.prems(3) b v show ?case
    unfolding split by (simp add: Let_def split_beta)
qed simp

text \<open>
  C34. The delta decoder inverts delta coding for every distance the format allows and under every
  chunking: driving it over the coded bytes with input pieces and output buffers of any positive
  sizes ends, reports no error and yields the original bytes.
\<close>

theorem delta_roundtrip:
  assumes "1 \<le> d" and "d \<le> 256" and "0 < chunk" and "0 < cap"
  shows "try_drive_codec delta_process (delta_new d) (delta_encode d xs) chunk cap = Some (Inr xs)"
proof -
  have inv: "delta_inv (delta_new d)" and dist: "dd_distance (delta_new d) = d"
    using assms by (simp_all add: delta_inv_def delta_new_def MAX_DISTANCE_def)
  have "recent (delta_new d) = replicate 256 0"
    unfolding recent_def delta_new_def MAX_DISTANCE_def by (rule nth_equalityI) simp_all
  then have "snd (delta_loop (delta_new d) (delta_encode d xs)) = xs"
    using delta_loop_decodes [OF inv, of "[]" d xs] dist by (simp add: delta_encode_def)
  with delta.codec_delivers [OF inv _ assms(3,4)] show ?thesis by simp
qed

theorem delta_roundtrip_witness:
  "try_drive_codec delta_process (delta_new 2) (delta_encode 2 [1, 2, 5, 1]) 3 1 = Some (Inr [1, 2, 5, 1]) \<and>
   delta_encode 2 [1, 2, 5, 1] = [1, 2, 4, - 1]"
proof
  show "try_drive_codec delta_process (delta_new 2) (delta_encode 2 [1, 2, 5, 1]) 3 1 = Some (Inr [1, 2, 5, 1])"
    by (rule delta_roundtrip) simp_all
qed (simp add: delta_encode_def numeral_2_eq_2)

end
