(* ===== verification/Oxide_Bcj.thy ===== *)
theory Oxide_Bcj
  imports Oxide_Codec
begin

text \<open>
  The branch filters: \<open>libarchive_oxide-codecs/src/bcj.rs\<close>. \<open>i32\<close> and \<open>u32\<close> values are
  32-bit words (\<open>sar\<close> is the arithmetic shift of \<open>i32\<close>), the running position is a 64-bit word and
  wraps. The source wraps it explicitly, except in the RISC-V filter, whose \<open>self.pos + i\<close> wraps in a
  release build and panics near the largest \<open>usize\<close> in a build with overflow checks.

  The source scans a buffer in place with an index; here a step looks at the unprocessed rest of
  the buffer, commits the bytes the index moves over and the scan continues behind them. Every
  family writes only bytes it commits, and reads at most its window. The state of the x86 filter
  is the mask and the distance from the last branch opcode (\<open>i - prev_pos\<close>).
\<close>

section \<open>Words\<close>

type_synonym i32 = "32 word"

definition i32 :: "byte \<Rightarrow> i32" where
  "i32 b = ucast b"

definition u8 :: "i32 \<Rightarrow> byte" where
  "u8 x = ucast x"

definition shl :: "i32 \<Rightarrow> nat \<Rightarrow> i32" where
  "shl x n = push_bit n x"

definition shr :: "i32 \<Rightarrow> nat \<Rightarrow> i32" where
  "shr x n = drop_bit n x"

definition sar :: "i32 \<Rightarrow> nat \<Rightarrow> i32" where
  "sar x n = signed_drop_bit n x"

datatype branch_kind = X86 | Arm | ArmThumb | Arm64 | Ppc | Sparc | Ia64 | RiscV

definition MASK_TO_ALLOWED_STATUS :: "bool list" where
  "MASK_TO_ALLOWED_STATUS = [True, True, True, False, True, False, False, False]"

definition MASK_TO_BIT_NUMBER :: "nat list" where
  "MASK_TO_BIT_NUMBER = [0, 1, 2, 2, 3, 3, 3, 3]"

definition test_86_ms_byte :: "byte \<Rightarrow> bool" where
  "test_86_ms_byte b \<longleftrightarrow> b = 0x00 \<or> b = 0xff"

section \<open>The instruction families\<close>

type_synonym scan_state = "i32 \<times> nat"

text \<open>
  The inner loop of the x86 filter, with the number of rounds bounded: two are always enough (shown
  below), so the branch for exhausted rounds is never taken.
\<close>

fun x86_loop :: "nat \<Rightarrow> i32 \<Rightarrow> i32 \<Rightarrow> i32 \<Rightarrow> i32 option" where
  "x86_loop 0 msk src p = None"
| "x86_loop (Suc rounds) msk src p =
     (let dest = src - p in
      if msk = 0 then Some dest
      else
        let index = MASK_TO_BIT_NUMBER ! unat msk * 8 in
        if \<not> test_86_ms_byte (u8 (sar dest (24 - index) AND 0xff)) then Some dest
        else x86_loop rounds msk (dest XOR (shl 1 (32 - index) - 1)) p)"

definition x86_src :: "bytes \<Rightarrow> i32" where
  "x86_src buf = i32 (buf ! 1) OR shl (i32 (buf ! 2)) 8 OR shl (i32 (buf ! 3)) 16 OR shl (i32 (buf ! 4)) 24"

definition x86_step :: "scan_state \<Rightarrow> 64 word \<Rightarrow> bytes \<Rightarrow> scan_state \<times> bytes" where
  "x86_step st pos buf =
     (let (msk, gap) = st; b = buf ! 0 in
      if b \<noteq> 0xe9 \<and> b \<noteq> 0xe8 then ((msk, gap + 1), [b])
      else
        let far = 3 < gap; m = (if far then 0 else shl msk (gap - 1) AND 7) in
        if \<not> far \<and> m \<noteq> 0 \<and> (\<not> MASK_TO_ALLOWED_STATUS ! unat m \<or>
             test_86_ms_byte (buf ! (4 - MASK_TO_BIT_NUMBER ! unat m)))
        then ((shl m 1 OR 1, 1), [b])
        else if test_86_ms_byte (buf ! 4) then
          (case x86_loop 2 m (x86_src buf) (ucast pos) of
             Some dest \<Rightarrow>
               ((m, 5), [b, u8 dest, u8 (sar dest 8), u8 (sar dest 16), u8 (NOT ((sar dest 24 AND 1) - 1))])
           | None \<Rightarrow> ((m, 1), [b]))
        else ((shl m 1 OR 1, 1), [b]))"

definition arm_step :: "64 word \<Rightarrow> bytes \<Rightarrow> bytes" where
  "arm_step pos buf =
     (if buf ! 3 = 0xeb then
        let src = shl (shl (i32 (buf ! 2)) 16 OR shl (i32 (buf ! 1)) 8 OR i32 (buf ! 0)) 2;
            dest = sar (src - ucast pos) 2
        in [u8 (dest AND 0xff), u8 (sar dest 8 AND 0xff), u8 (sar dest 16 AND 0xff), buf ! 3]
      else take 4 buf)"

definition arm_thumb_step :: "64 word \<Rightarrow> bytes \<Rightarrow> bytes" where
  "arm_thumb_step pos buf =
     (let b0 = i32 (buf ! 0); b1 = i32 (buf ! 1); b2 = i32 (buf ! 2); b3 = i32 (buf ! 3) in
      if b3 AND 0xf8 = 0xf8 \<and> b1 AND 0xf8 = 0xf0 then
        let src = shl (shl (b1 AND 0x07) 19 OR shl (b0 AND 0xff) 11 OR shl (b3 AND 0x07) 8 OR (b2 AND 0xff)) 1;
            dest = sar (src - ucast pos) 1
        in [u8 (sar dest 11), u8 (0xf0 OR (sar dest 19 AND 0x07)), u8 (dest AND 0xff),
            u8 (0xf8 OR (sar dest 8 AND 0x07))]
      else take 2 buf)"

definition le32 :: "i32 \<Rightarrow> bytes" where
  "le32 d = [u8 (d AND 0xff), u8 (sar d 8 AND 0xff), u8 (sar d 16 AND 0xff), u8 (sar d 24 AND 0xff)]"

definition arm64_step :: "64 word \<Rightarrow> bytes \<Rightarrow> bytes" where
  "arm64_step pos buf =
     (let src = shl (i32 (buf ! 3)) 24 + shl (i32 (buf ! 2)) 16 + shl (i32 (buf ! 1)) 8 + i32 (buf ! 0);
          p = ucast pos;
          bl = (if sar src 26 AND 0x3f = 0x25
                then le32 (((src - sar p 2) AND 0x03ffffff) OR shl 0x94 24)
                else take 4 buf)
      in if sar src 24 AND 0x9f = 0x90 then
           let addr = (sar src 29 AND 3) OR (sar src 3 AND 0x001ffffc) in
           if (addr + 0x00020000) AND 0x001c0000 = 0 then
             let addr' = addr - sar p 12 in
             le32 (shl 0x90 24 OR (src AND 0x1f) OR shl (addr' AND 3) 29 OR shl (addr' AND 0x0003fffc) 3 OR
               ((0 - (addr' AND 0x00020000)) AND 0x00e00000))
           else bl
         else bl)"

definition ppc_step :: "64 word \<Rightarrow> bytes \<Rightarrow> bytes" where
  "ppc_step pos buf =
     (let b0 = i32 (buf ! 0); b1 = i32 (buf ! 1); b2 = i32 (buf ! 2); b3 = i32 (buf ! 3) in
      if b0 AND 0xfc = 0x48 \<and> b3 AND 0x03 = 0x01 then
        let src = shl (b0 AND 0x03) 24 OR shl (b1 AND 0xff) 16 OR shl (b2 AND 0xff) 8 OR (b3 AND 0xfc);
            dest = src - ucast pos
        in [u8 (0x48 OR (sar dest 24 AND 0x03)), u8 (sar dest 16), u8 (sar dest 8), u8 ((b3 AND 0x03) OR dest)]
      else take 4 buf)"

definition sparc_step :: "64 word \<Rightarrow> bytes \<Rightarrow> bytes" where
  "sparc_step pos buf =
     (let b0 = i32 (buf ! 0); b1 = i32 (buf ! 1); b2 = i32 (buf ! 2); b3 = i32 (buf ! 3) in
      if (b0 = 0x40 \<and> b1 AND 0xc0 = 0x00) \<or> (b0 = 0x7f \<and> b1 AND 0xc0 = 0xc0) then
        let src = shl (shl (b0 AND 0xff) 24 OR shl (b1 AND 0xff) 16 OR shl (b2 AND 0xff) 8 OR (b3 AND 0xff)) 2;
            d = sar (src - ucast pos) 2;
            dest = (shl (0 - (sar d 22 AND 1)) 22 AND 0x3fffffff) OR (d AND 0x3fffff) OR 0x40000000
        in [u8 (sar dest 24), u8 (sar dest 16), u8 (sar dest 8), u8 dest]
      else take 4 buf)"

definition BRANCH_TABLE :: "nat list" where
  "BRANCH_TABLE = [0, 0, 0, 0, 0, 0, 0, 0, 0, 0, 0, 0, 0, 0, 0, 0, 4, 4, 6, 6, 0, 0, 7, 7, 4, 4, 0, 0, 4, 4, 0, 0]"

text \<open>The 48 bits of a slot, little-endian. A slot always lies inside its 16-byte bundle.\<close>

definition slot_instr :: "nat \<Rightarrow> bytes \<Rightarrow> 64 word" where
  "slot_instr byte_pos bundle = fold (\<lambda>j acc. acc OR push_bit (8 * j) (ucast (bundle ! (byte_pos + j)))) [0..<6] 0"

definition slot_store :: "nat \<Rightarrow> 64 word \<Rightarrow> bytes \<Rightarrow> bytes" where
  "slot_store byte_pos instr bundle =
     fold (\<lambda>j b. b[byte_pos + j := ucast (drop_bit (8 * j) instr)]) [0..<6] bundle"

definition ia64_slot :: "64 word \<Rightarrow> nat \<Rightarrow> nat \<Rightarrow> bytes \<Rightarrow> bytes" where
  "ia64_slot pos msk slot bundle =
     (let bit_pos = 5 + slot * 41; byte_pos = bit_pos div 8; bit_res = bit_pos mod 8;
          instr = slot_instr byte_pos bundle; norm = drop_bit bit_res instr in
      if msk div 2 ^ slot mod 2 = 0 then bundle
      else if drop_bit 37 norm AND 0x0f \<noteq> 0x05 \<or> drop_bit 9 norm AND 0x07 \<noteq> 0x00 then bundle
      else
        let src = shl (ucast (drop_bit 13 norm AND 0x0fffff) OR shl (ucast (drop_bit 36 norm AND 1)) 20) 4;
            dest = shr (src - ucast pos) 4;
            norm1 = norm AND NOT (push_bit 13 0x8fffff);
            norm2 = norm1 OR push_bit 13 (ucast (dest AND 0x0fffff));
            norm3 = norm2 OR push_bit (36 - 20) (ucast (dest AND 0x100000))
        in slot_store byte_pos ((instr AND (push_bit bit_res 1 - 1)) OR push_bit bit_res norm3) bundle)"

definition ia64_step :: "64 word \<Rightarrow> bytes \<Rightarrow> bytes" where
  "ia64_step pos buf =
     (let bundle = take 16 buf; msk = BRANCH_TABLE ! unat (buf ! 0 AND 0x1f)
      in fold (ia64_slot pos msk) [0..<3] bundle)"

definition le_word :: "bytes \<Rightarrow> i32" where
  "le_word b = i32 (b ! 0) OR shl (i32 (b ! 1)) 8 OR shl (i32 (b ! 2)) 16 OR shl (i32 (b ! 3)) 24"

definition be_word :: "bytes \<Rightarrow> i32" where
  "be_word b = le_word [b ! 3, b ! 2, b ! 1, b ! 0]"

definition word_le :: "i32 \<Rightarrow> bytes" where
  \<comment> \<open>the low byte of a shifted word is the same for \<open>i32\<close> and \<open>u32\<close>\<close>
  "word_le x = [u8 x, u8 (shr x 8), u8 (shr x 16), u8 (shr x 24)]"

definition riscv_jal :: "64 word \<Rightarrow> bytes \<Rightarrow> bytes" where
  "riscv_jal pos buf =
     (let b1 = i32 (buf ! 1); b2 = i32 (buf ! 2); b3 = i32 (buf ! 3) in
      if b1 AND 0x0d \<noteq> 0 then take 2 buf
      else
        let addr = (shl (b1 AND 0xf0) 13 OR shl b2 9 OR shl b3 1) - ucast pos
        in [buf ! 0, u8 ((b1 AND 0x0f) OR (shr addr 8 AND 0xf0)),
            u8 ((sar addr 16 AND 0x0f) OR (sar addr 7 AND 0x10) OR (shl addr 4 AND 0xe0)),
            u8 ((sar addr 4 AND 0x7f) OR (sar addr 13 AND 0x80))])"

definition riscv_auipc :: "64 word \<Rightarrow> bytes \<Rightarrow> bytes" where
  "riscv_auipc pos buf =
     (let inst = le_word buf in
      if inst AND 0xe80 \<noteq> 0 then
        let inst2 = le_word (drop 4 buf) in
        if (shl inst 8 XOR inst2) AND 0xf8003 \<noteq> 3 then take 6 buf
        else word_le (0x17 OR shl 2 7 OR shl inst2 12) @ word_le ((inst AND 0xfffff000) + shr inst2 20)
      else
        let rs1 = shr inst 27 in
        if rs1 AND 0x1d \<le> (inst - 0x3100) AND 0x3f80 then take 4 buf
        else
          let addr = be_word (drop 4 buf) - ucast pos
          in word_le (0x17 OR shl rs1 7 OR ((addr + 0x800) AND 0xfffff000)) @ word_le (shr inst 12 OR shl addr 20))"

definition riscv_step :: "64 word \<Rightarrow> bytes \<Rightarrow> bytes" where
  "riscv_step pos buf =
     (if buf ! 0 = 0xef then riscv_jal pos buf
      else if i32 (buf ! 0) AND 0x7f = 0x17 then riscv_auipc pos buf
      else take 2 buf)"

fun window :: "branch_kind \<Rightarrow> nat" where
  "window X86 = 5"
| "window Ia64 = 16"
| "window RiscV = 8"
| "window _ = 4"

fun bcj_step :: "branch_kind \<Rightarrow> scan_state \<Rightarrow> 64 word \<Rightarrow> bytes \<Rightarrow> scan_state \<times> bytes" where
  "bcj_step X86 st pos buf = x86_step st pos buf"
| "bcj_step Arm st pos buf = (st, arm_step pos buf)"
| "bcj_step ArmThumb st pos buf = (st, arm_thumb_step pos buf)"
| "bcj_step Arm64 st pos buf = (st, arm64_step pos buf)"
| "bcj_step Ppc st pos buf = (st, ppc_step pos buf)"
| "bcj_step Sparc st pos buf = (st, sparc_step pos buf)"
| "bcj_step Ia64 st pos buf = (st, ia64_step pos buf)"
| "bcj_step RiscV st pos buf = (st, riscv_step pos buf)"

section \<open>Lengths and locality of the steps\<close>

lemma length_slot_store [simp]: "length (slot_store p i b) = length b"
proof -
  have "length (fold (\<lambda>j b. b[p + j := ucast (drop_bit (8 * j) i)]) js b) = length b" for js
    by (induction js arbitrary: b) auto
  then show ?thesis by (simp add: slot_store_def)
qed

lemma length_ia64_slot [simp]: "length (ia64_slot pos msk slot b) = length b"
  by (simp add: ia64_slot_def Let_def)

lemma length_ia64_step: "length (ia64_step pos buf) = min 16 (length buf)"
  by (simp add: ia64_step_def Let_def eval_nat_numeral)

lemma length_words [simp]: "length (le32 d) = 4" "length (word_le x) = 4"
  by (simp_all add: le32_def word_le_def)

lemma step_lengths:
  "4 \<le> length buf \<Longrightarrow> length (arm_step pos buf) = 4"
  "4 \<le> length buf \<Longrightarrow> length (arm_thumb_step pos buf) \<in> {2, 4}"
  "4 \<le> length buf \<Longrightarrow> length (arm64_step pos buf) = 4"
  "4 \<le> length buf \<Longrightarrow> length (ppc_step pos buf) = 4"
  "4 \<le> length buf \<Longrightarrow> length (sparc_step pos buf) = 4"
  "8 \<le> length buf \<Longrightarrow> length (riscv_jal pos buf) \<in> {2, 4}"
  "8 \<le> length buf \<Longrightarrow> length (riscv_auipc pos buf) \<in> {4, 6, 8}"
  unfolding arm_step_def arm_thumb_step_def arm64_step_def ppc_step_def sparc_step_def riscv_jal_def
    riscv_auipc_def Let_def
  by simp_all

lemma x86_step_length: "length (snd (x86_step st pos buf)) \<in> {1, 5}"
  unfolding x86_step_def Let_def by (simp split: option.split prod.split)

lemma bcj_step_length:
  assumes "window kind \<le> length buf"
  shows "1 \<le> length (snd (bcj_step kind st pos buf)) \<and> length (snd (bcj_step kind st pos buf)) \<le> window kind"
  using assms step_lengths [of buf pos] x86_step_length [of st pos buf] length_ia64_step [of pos buf]
  by (cases kind) (auto simp: riscv_step_def)

lemma le_word_take: "n \<ge> 4 \<Longrightarrow> le_word (take n b) = le_word b" "n \<ge> 4 \<Longrightarrow> be_word (take n b) = be_word b"
  by (simp_all add: le_word_def be_word_def)

lemma bcj_step_take: "bcj_step kind st pos (take (window kind) buf) = bcj_step kind st pos buf"
proof (cases kind)
  case X86
  have n: "take 5 buf ! 0 = buf ! 0" "take 5 buf ! 1 = buf ! 1" "take 5 buf ! 2 = buf ! 2" "take 5 buf ! 3 = buf ! 3"
    "take 5 buf ! 4 = buf ! 4" "take 5 buf ! (4 - k) = buf ! (4 - k)" for k
    by simp_all
  show ?thesis
    unfolding X86 bcj_step.simps window.simps x86_step_def x86_src_def Let_def n ..
next
  case RiscV
  have "drop 4 (take 8 buf) = take 4 (drop 4 buf)" by (simp add: drop_take)
  then show ?thesis
    unfolding RiscV by (simp add: riscv_step_def riscv_jal_def riscv_auipc_def le_word_take Let_def)
qed (simp_all add: arm_step_def arm_thumb_step_def arm64_step_def ppc_step_def sparc_step_def ia64_step_def Let_def)

section \<open>Scanning\<close>

function bcj_scan :: "branch_kind \<Rightarrow> scan_state \<Rightarrow> 64 word \<Rightarrow> bytes \<Rightarrow> scan_state \<times> 64 word \<times> bytes \<times> bytes" where
  "bcj_scan kind st pos buf =
     (if length buf < window kind then (st, pos, [], buf)
      else
        let (st1, out) = bcj_step kind st pos buf;
            (st2, pos2, outs, left) = bcj_scan kind st1 (pos + of_nat (length out)) (drop (length out) buf)
        in (st2, pos2, out @ outs, left))"
  by pat_completeness auto
termination
proof (relation "measure (\<lambda>(kind, st, pos, buf). length buf)", goal_cases)
  case (2 kind st pos buf x st1 out)
  then have "1 \<le> length out" using bcj_step_length [of kind buf st pos] by (metis leI snd_conv)
  moreover have "0 < window kind" by (cases kind) simp_all
  ultimately show ?case using 2 by (auto simp: not_less)
qed simp

declare bcj_scan.simps [simp del]

record bcj_filter =
  bf_kind :: branch_kind
  bf_pos :: "64 word"
  bf_prev_mask :: i32

definition bcj_filter_new :: "branch_kind \<Rightarrow> 64 word \<Rightarrow> bcj_filter" where
  "bcj_filter_new kind start =
     \<lparr>bf_kind = kind,
      bf_pos = (case kind of X86 \<Rightarrow> start + 5 | Arm \<Rightarrow> start + 8 | ArmThumb \<Rightarrow> start + 4 | _ \<Rightarrow> start),
      bf_prev_mask = 0\<rparr>"

definition carried_mask :: "scan_state \<Rightarrow> i32" where
  "carried_mask st = (let (msk, gap) = st in if 3 < gap then 0 else shl msk (gap - 1))"

text \<open>The committed bytes, and the bytes left untouched for the next call.\<close>

definition bcj_decode :: "bcj_filter \<Rightarrow> bytes \<Rightarrow> bcj_filter \<times> bytes \<times> bytes" where
  "bcj_decode f buf =
     (if length buf < window (bf_kind f) then (f, [], buf)
      else (case bcj_scan (bf_kind f) (bf_prev_mask f, 1) (bf_pos f) buf of
              (st, pos, out, left) \<Rightarrow>
                (f\<lparr>bf_pos := pos, bf_prev_mask := (if bf_kind f = X86 then carried_mask st else bf_prev_mask f)\<rparr>,
                 out, left)))"

record bcj_decoder =
  bd_filter :: bcj_filter
  bd_buf :: bytes
  bd_out :: bytes
  bd_out_pos :: nat
  bd_finished :: bool

definition bcj_new :: "branch_kind \<Rightarrow> 64 word \<Rightarrow> bcj_decoder" where
  "bcj_new kind start =
     \<lparr>bd_filter = bcj_filter_new kind start, bd_buf = [], bd_out = [], bd_out_pos = 0, bd_finished = False\<rparr>"

definition emitted :: "bcj_decoder \<Rightarrow> nat \<Rightarrow> bcj_decoder" where
  \<comment> \<open>the emit cursor moves, and a drained buffer is cleared\<close>
  "emitted s p =
     (if p = length (bd_out s) then s\<lparr>bd_out := [], bd_out_pos := 0\<rparr> else s\<lparr>bd_out_pos := p\<rparr>)"

definition bcj_ingest :: "bcj_decoder \<Rightarrow> bytes \<Rightarrow> end_of_input \<Rightarrow> bcj_decoder" where
  "bcj_ingest s input e =
     (let buf = bd_buf s @ input in
      if e = End \<and> input = [] then s\<lparr>bd_out := buf, bd_buf := [], bd_finished := True\<rparr>
      else (case bcj_decode (bd_filter s) buf of
              (f', out, left) \<Rightarrow> s\<lparr>bd_filter := f', bd_buf := left, bd_out := bd_out s @ out\<rparr>))"

definition bcj_process :: "bcj_decoder codec_process" where
  "bcj_process s input cap e =
     (if bd_out_pos s < length (bd_out s) then
        let count = min (length (bd_out s) - bd_out_pos s) cap in
        (emitted s (bd_out_pos s + count),
         Inr (codec_report 0 count CodecNeedOutput, take count (drop (bd_out_pos s) (bd_out s))))
      else if bd_finished s then (s, Inr (codec_report 0 0 CodecDone, []))
      else
        let s1 = bcj_ingest s input e in
        if bd_out s1 = [] then
          (s1, Inr (codec_report (length input) 0 (if bd_finished s1 then CodecDone else CodecNeedInput), []))
        else
          let count = min (length (bd_out s1)) cap in
          (emitted s1 count, Inr (codec_report (length input) count CodecNeedInput, take count (bd_out s1))))"

section \<open>Cutting the input\<close>

text \<open>The mask an x86 branch opcode meets \<open>j\<close> bytes further on.\<close>

fun mask_at :: "nat \<Rightarrow> scan_state \<Rightarrow> i32" where
  "mask_at j (m, g) = (if 3 < g + j then 0 else shl m (g + j - 1) AND 7)"

definition same_future :: "branch_kind \<Rightarrow> scan_state \<Rightarrow> scan_state \<Rightarrow> bool" where
  "same_future kind st st' \<longleftrightarrow>
     (kind = X86 \<longrightarrow> 1 \<le> snd st \<and> 1 \<le> snd st' \<and> (\<forall>j. mask_at j st = mask_at j st'))"

definition x86_branch :: "i32 \<Rightarrow> 64 word \<Rightarrow> bytes \<Rightarrow> scan_state \<times> bytes" where
  "x86_branch m pos buf =
     (if m \<noteq> 0 \<and> (\<not> MASK_TO_ALLOWED_STATUS ! unat m \<or> test_86_ms_byte (buf ! (4 - MASK_TO_BIT_NUMBER ! unat m)))
      then ((shl m 1 OR 1, 1), [buf ! 0])
      else if test_86_ms_byte (buf ! 4) then
        (case x86_loop 2 m (x86_src buf) (ucast pos) of
           Some dest \<Rightarrow>
             ((m, 5), [buf ! 0, u8 dest, u8 (sar dest 8), u8 (sar dest 16), u8 (NOT ((sar dest 24 AND 1) - 1))])
         | None \<Rightarrow> ((m, 1), [buf ! 0]))
      else ((shl m 1 OR 1, 1), [buf ! 0]))"

lemma x86_step_eq:
  "x86_step st pos buf =
     (if buf ! 0 \<noteq> 0xe9 \<and> buf ! 0 \<noteq> 0xe8 then ((fst st, snd st + 1), [buf ! 0])
      else x86_branch (mask_at 0 st) pos buf)"
proof -
  obtain a g where st: "st = (a, g)" by fastforce
  define m where "m = (if 3 < g then 0 else shl a (g - 1) AND 7)"
  have m: "mask_at 0 (a, g) = m" and far: "m \<noteq> 0 \<Longrightarrow> \<not> 3 < g" by (auto simp: m_def)
  show ?thesis
    unfolding st x86_step_def x86_branch_def Let_def m prod.case m_def [symmetric] fst_conv snd_conv using far by auto
qed

lemma x86_branch_gap: "1 \<le> snd (fst (x86_branch m pos buf))"
  by (simp add: x86_branch_def split: option.split)

lemma same_future_step:
  assumes "same_future kind st st'" and "bcj_step kind st pos buf = (s1, out)" and "bcj_step kind st' pos buf = (s1', out')"
  shows "out' = out \<and> same_future kind s1 s1'"
proof (cases "kind = X86")
  case True
  have sf: "1 \<le> snd st" "1 \<le> snd st'" "\<And>j. mask_at j st = mask_at j st'" using assms(1) True by (auto simp: same_future_def)
  show ?thesis
  proof (cases "buf ! 0 \<noteq> 0xe9 \<and> buf ! 0 \<noteq> 0xe8")
    case nb: True
    have "mask_at j (fst st, snd st + 1) = mask_at (Suc j) st" "mask_at j (fst st', snd st' + 1) = mask_at (Suc j) st'" for j
      by (cases st; cases st'; simp)+
    with assms True nb sf show ?thesis by (auto simp: x86_step_eq same_future_def)
  next
    case False
    with assms True sf x86_branch_gap [of "mask_at 0 st" pos buf] show ?thesis
      by (auto simp: x86_step_eq same_future_def)
  qed
next
  case False
  with assms show ?thesis by (cases kind) (auto simp: same_future_def)
qed

lemma same_future_scan:
  assumes "same_future kind st st'" and "bcj_scan kind st pos buf = (s1, pos1, out, left)"
  shows "\<exists>s1'. bcj_scan kind st' pos buf = (s1', pos1, out, left)"
  using assms
proof (induction kind st pos buf arbitrary: st' s1 pos1 out left rule: bcj_scan.induct)
  case (1 kind st pos buf)
  show ?case
  proof (cases "length buf < window kind")
    case True
    with 1(3) show ?thesis by (auto simp: bcj_scan.simps)
  next
    case False
    obtain t o1 t' o1' where s: "bcj_step kind st pos buf = (t, o1)" "bcj_step kind st' pos buf = (t', o1')" by fastforce
    have eq: "o1' = o1" "same_future kind t t'" using same_future_step [OF 1(2) s] by simp_all
    obtain u pos2 o2 l2 where r: "bcj_scan kind t (pos + of_nat (length o1)) (drop (length o1) buf) = (u, pos2, o2, l2)"
      by (metis prod.exhaust)
    from 1(1) [OF False s(1) [symmetric] refl eq(2) r] s eq r 1(3) False show ?thesis
      by (subst (asm) (2) bcj_scan.simps, subst bcj_scan.simps) auto
  qed
qed

lemma bcj_scan_gap:
  "1 \<le> snd st \<Longrightarrow> kind = X86 \<Longrightarrow> 1 \<le> snd (fst (bcj_scan kind st pos buf))"
proof (induction kind st pos buf rule: bcj_scan.induct)
  case (1 kind st pos buf)
  show ?case
  proof (cases "length buf < window kind")
    case True
    with 1(2) show ?thesis by (simp add: bcj_scan.simps)
  next
    case False
    obtain t o1 where s: "bcj_step kind st pos buf = (t, o1)" by fastforce
    then have "1 \<le> snd t" using 1(2,3) x86_branch_gap [of "mask_at 0 st" pos buf] by (auto simp: x86_step_eq split: if_splits)
    from 1(1) [OF False s [symmetric] refl this 1(3)] s False show ?thesis
      by (subst bcj_scan.simps) (auto split: prod.splits)
  qed
qed

lemma bcj_scan_append:
  "bcj_scan kind st pos (xs @ ys) =
     (case bcj_scan kind st pos xs of (st1, pos1, o1, l1) \<Rightarrow>
      case bcj_scan kind st1 pos1 (l1 @ ys) of (st2, pos2, o2, l2) \<Rightarrow> (st2, pos2, o1 @ o2, l2))"
proof (induction kind st pos xs rule: bcj_scan.induct)
  case (1 kind st pos xs)
  show ?case
  proof (cases "length xs < window kind")
    case True
    then show ?thesis by (simp add: bcj_scan.simps [of kind st pos xs] split: prod.splits)
  next
    case False
    obtain t out where s: "bcj_step kind st pos xs = (t, out)" by fastforce
    have "bcj_step kind st pos (xs @ ys) = (t, out)"
      using bcj_step_take [of kind st pos "xs @ ys"] bcj_step_take [of kind st pos xs] False s by simp
    moreover have "length out \<le> length xs" using bcj_step_length [of kind xs st pos] False s by simp
    ultimately show ?thesis
      using 1 [OF False s [symmetric] refl] False s
      by (subst bcj_scan.simps, subst (2) bcj_scan.simps) (simp split: prod.splits)
  qed
qed

lemma bcj_scan_left: "bcj_scan kind st pos buf = (st', pos', out, left) \<Longrightarrow> length left < window kind"
proof (induction kind st pos buf arbitrary: st' pos' out left rule: bcj_scan.induct)
  case (1 kind st pos buf)
  show ?case
  proof (cases "length buf < window kind")
    case True
    with 1(2) show ?thesis by (simp add: bcj_scan.simps)
  next
    case False
    obtain t o1 where s: "bcj_step kind st pos buf = (t, o1)" by fastforce
    from 1(1) [OF False s [symmetric] refl] 1(2) False s show ?thesis
      by (subst (asm) (2) bcj_scan.simps) (auto split: prod.splits)
  qed
qed

definition bcj_all :: "bcj_filter \<Rightarrow> bytes \<Rightarrow> bytes" where
  \<comment> \<open>the transform of a whole stream: scanned once, the tail as stored\<close>
  "bcj_all f xs = (case bcj_scan (bf_kind f) (bf_prev_mask f, 1) (bf_pos f) xs of (_, _, out, left) \<Rightarrow> out @ left)"

lemma bcj_scan_length: "bcj_scan kind st pos buf = (st', pos', out, left) \<Longrightarrow> length buf = length out + length left"
proof (induction kind st pos buf arbitrary: st' pos' out left rule: bcj_scan.induct)
  case (1 kind st pos buf)
  show ?case
  proof (cases "length buf < window kind")
    case True
    with 1(2) show ?thesis by (simp add: bcj_scan.simps)
  next
    case False
    obtain t o1 where s: "bcj_step kind st pos buf = (t, o1)" by fastforce
    have "length o1 \<le> length buf" using bcj_step_length [of kind buf st pos] s False by simp
    with 1(1) [OF False s [symmetric] refl] 1(2) False s show ?thesis
      by (subst (asm) (2) bcj_scan.simps) (auto split: prod.splits)
  qed
qed

lemma shl_mask_zero: "3 \<le> n \<Longrightarrow> shl m n AND 7 = 0"
proof -
  assume n: "3 \<le> n"
  have "shl m n AND 7 = take_bit 3 (push_bit n m)"
    by (simp add: shl_def take_bit_eq_mask mask_eq_exp_minus_1)
  also have "\<dots> = 0" using n by (simp add: take_bit_push_bit)
  finally show ?thesis .
qed

lemma carried_same_future: "1 \<le> snd st \<Longrightarrow> same_future X86 st (carried_mask st, 1)"
proof -
  assume "1 \<le> snd st"
  then obtain m g where st: "st = (m, Suc g)" by (cases st; cases "snd st") auto
  have "mask_at j (m, Suc g) = mask_at j (carried_mask (m, Suc g), 1)" for j
  proof (cases "3 < Suc g")
    case True
    then show ?thesis by (simp add: carried_mask_def shl_def)
  next
    case False
    then have "shl (shl m g) j = shl m (g + j)" by (simp add: shl_def add.commute)
    with False shl_mask_zero [of "g + j" m] show ?thesis by (auto simp: carried_mask_def)
  qed
  with st show ?thesis by (simp add: same_future_def)
qed

lemma bcj_decode_all:
  assumes "bcj_decode f buf = (f', out, left)"
  shows "bcj_all f (buf @ ys) = out @ bcj_all f' (left @ ys)" and "length left < window (bf_kind f')"
    and "bf_kind f' = bf_kind f" and "length buf = length out + length left"
proof -
  obtain st pos out1 left1 where scan: "bcj_scan (bf_kind f) (bf_prev_mask f, 1) (bf_pos f) buf = (st, pos, out1, left1)"
    by (metis prod.exhaust)
  have len: "length buf = length out1 + length left1" using bcj_scan_length [OF scan] .
  show "bcj_all f (buf @ ys) = out @ bcj_all f' (left @ ys)"
  proof (cases "length buf < window (bf_kind f)")
    case True
    with assms show ?thesis by (simp add: bcj_decode_def)
  next
    case False
    define g where "g = f\<lparr>bf_pos := pos, bf_prev_mask := (if bf_kind f = X86 then carried_mask st else bf_prev_mask f)\<rparr>"
    have f': "f' = g" "out = out1" "left = left1" using assms scan False by (auto simp: bcj_decode_def g_def)
    have "1 \<le> snd st" if "bf_kind f = X86"
      using bcj_scan_gap [of "(bf_prev_mask f, 1)" "bf_kind f" "bf_pos f" buf] that scan by simp
    then have sf: "same_future (bf_kind f) st (bf_prev_mask g, 1)"
      using carried_same_future by (cases "bf_kind f = X86") (auto simp: g_def same_future_def)
    obtain st2 pos2 o2 l2 where more: "bcj_scan (bf_kind f) st pos (left1 @ ys) = (st2, pos2, o2, l2)" by (metis prod.exhaust)
    have g: "bf_kind g = bf_kind f" "bf_pos g = pos" by (simp_all add: g_def)
    obtain st2' where "bcj_scan (bf_kind g) (bf_prev_mask g, 1) (bf_pos g) (left1 @ ys) = (st2', pos2, o2, l2)"
      using same_future_scan [OF sf more] unfolding g by blast
    with more scan bcj_scan_append [of "bf_kind f" "(bf_prev_mask f, 1)" "bf_pos f" buf ys] f' show ?thesis
      by (simp add: bcj_all_def)
  qed
  show "length left < window (bf_kind f')" "bf_kind f' = bf_kind f" "length buf = length out + length left"
    using assms scan bcj_scan_left [OF scan] len by (auto simp: bcj_decode_def split: if_splits)
qed

lemma bcj_all_short: "length xs < window (bf_kind f) \<Longrightarrow> bcj_all f xs = xs"
  by (simp add: bcj_all_def bcj_scan.simps)

section \<open>The decoder\<close>

definition bcj_inv :: "bcj_decoder \<Rightarrow> bool" where
  "bcj_inv s \<longleftrightarrow>
     (if bd_out s = [] then bd_out_pos s = 0 else bd_out_pos s < length (bd_out s)) \<and>
     (bd_finished s \<longrightarrow> bd_buf s = []) \<and> length (bd_buf s) < window (bf_kind (bd_filter s))"

definition bcj_rest :: "bcj_decoder \<Rightarrow> bytes \<Rightarrow> bytes" where
  "bcj_rest s xs =
     drop (bd_out_pos s) (bd_out s) @ (if bd_finished s then [] else bcj_all (bd_filter s) (bd_buf s @ xs))"

definition bcj_backlog :: "bcj_decoder \<Rightarrow> nat" where
  "bcj_backlog s = (length (bd_out s) - bd_out_pos s) + length (bd_buf s) + (if bd_finished s then 0 else 1)"

lemma window_pos [simp]: "0 < window kind"
  by (cases kind) simp_all

lemma emitted_sel [simp]:
  "bd_buf (emitted s p) = bd_buf s" "bd_filter (emitted s p) = bd_filter s" "bd_finished (emitted s p) = bd_finished s"
  by (simp_all add: emitted_def)

lemma emitted_out: "p \<le> length (bd_out s) \<Longrightarrow> drop (bd_out_pos (emitted s p)) (bd_out (emitted s p)) = drop p (bd_out s)"
  by (simp add: emitted_def)

lemma emitted_cursor:
  "p \<le> length (bd_out s) \<Longrightarrow>
   (if bd_out (emitted s p) = [] then bd_out_pos (emitted s p) = 0 else bd_out_pos (emitted s p) < length (bd_out (emitted s p)))"
  by (auto simp: emitted_def)

lemma emitted_backlog:
  "p \<le> length (bd_out s) \<Longrightarrow> bcj_backlog (emitted s p) = (length (bd_out s) - p) + length (bd_buf s) + (if bd_finished s then 0 else 1)"
  by (simp add: bcj_backlog_def emitted_def)

lemma bcj_ingest_props:
  assumes "bcj_inv s" and "bd_out s = []" and "\<not> bd_finished s" and "bcj_ingest s xs e = s1"
  shows "bd_out_pos s1 = 0" and "bd_finished s1 \<longleftrightarrow> e = End \<and> xs = []"
    and "bd_finished s1 \<Longrightarrow> bd_buf s1 = []" and "length (bd_buf s1) < window (bf_kind (bd_filter s1))"
    and "e = More \<or> ys = [] \<Longrightarrow> bcj_rest s (xs @ ys) = bd_out s1 @ (if bd_finished s1 then [] else bcj_all (bd_filter s1) (bd_buf s1 @ ys))"
    and "xs = [] \<Longrightarrow> length (bd_out s1) + length (bd_buf s1) = length (bd_buf s)"
    and "xs = [] \<Longrightarrow> e = More \<Longrightarrow> bd_out s1 = []"
proof -
  have inv: "bd_out_pos s = 0" "length (bd_buf s) < window (bf_kind (bd_filter s))" using assms(1,2) by (auto simp: bcj_inv_def)
  obtain f' out left where d: "bcj_decode (bd_filter s) (bd_buf s @ xs) = (f', out, left)" by (metis prod.exhaust)
  note props = bcj_decode_all [OF d]
  have final: "s1 = s\<lparr>bd_out := bd_buf s, bd_buf := [], bd_finished := True\<rparr>" if "e = End \<and> xs = []"
    using assms(4) that by (simp add: bcj_ingest_def)
  have more: "s1 = s\<lparr>bd_filter := f', bd_buf := left, bd_out := out\<rparr>" if "\<not> (e = End \<and> xs = [])"
    using assms(2,4) that d by (auto simp: bcj_ingest_def Let_def)
  show "bd_out_pos s1 = 0" "bd_finished s1 \<longleftrightarrow> e = End \<and> xs = []" "bd_finished s1 \<Longrightarrow> bd_buf s1 = []"
    "length (bd_buf s1) < window (bf_kind (bd_filter s1))"
    using final more inv props(2,3) assms(3) by (cases "e = End \<and> xs = []"; auto)+
  show "bcj_rest s (xs @ ys) = bd_out s1 @ (if bd_finished s1 then [] else bcj_all (bd_filter s1) (bd_buf s1 @ ys))"
    if "e = More \<or> ys = []"
  proof (cases "e = End \<and> xs = []")
    case True
    with that final bcj_all_short [OF inv(2)] assms(2,3) inv show ?thesis by (simp add: bcj_rest_def)
  next
    case False
    with more props(1) [of ys] assms(2,3) inv show ?thesis by (simp add: bcj_rest_def)
  qed
  show "length (bd_out s1) + length (bd_buf s1) = length (bd_buf s)" if "xs = []"
    using final more props(4) that by (cases "e = End") auto
  show "bd_out s1 = []" if "xs = []" "e = More"
    using more that d inv by (auto simp: bcj_decode_def)
qed

interpretation bcj: stream_codec bcj_process bcj_inv bcj_rest bcj_backlog bd_finished
proof (unfold_locales, goal_cases)
  case (1 s n xs e)
  show ?case
  proof (cases "bd_out_pos s < length (bd_out s)")
    case True
    let ?c = "min (length (bd_out s) - bd_out_pos s) n"
    let ?out = "take ?c (drop (bd_out_pos s) (bd_out s))" and ?s = "emitted s (bd_out_pos s + ?c)"
    have c: "bd_out_pos s + ?c \<le> length (bd_out s)" "0 < ?c" using True 1(2) by auto
    have "bcj_process s xs n e = (?s, Inr (codec_report 0 (length ?out) CodecNeedOutput, ?out))"
      using True by (simp add: bcj_process_def Let_def min.commute)
    moreover have "bcj_inv ?s" using 1(1) emitted_cursor [OF c(1)] by (simp add: bcj_inv_def)
    moreover have "bcj_rest s (xs @ ys) = ?out @ bcj_rest ?s (xs @ ys)" for ys
    proof -
      have "drop (bd_out_pos s) (bd_out s) = ?out @ drop (bd_out_pos s + ?c) (bd_out s)"
        by (metis append_take_drop_id drop_drop add.commute)
      then show ?thesis unfolding bcj_rest_def emitted_sel emitted_out [OF c(1)] by simp
    qed
    moreover have "bcj_backlog ?s < bcj_backlog s"
      unfolding emitted_backlog [OF c(1)] using c True by (simp add: bcj_backlog_def)
    ultimately show ?thesis using 1 c by (intro exI [of _ ?s] exI [of _ ?out]) auto
  next
    case False
    then have out: "bd_out s = []" using 1(1) by (auto simp: bcj_inv_def split: if_splits)
    show ?thesis
    proof (cases "bd_finished s")
      case True
      with 1 out False have "bcj_process s xs n e = (s, Inr (codec_report 0 0 CodecDone, []))" "xs = []" "e = End"
        by (simp_all add: bcj_process_def)
      with 1 True out show ?thesis by (auto simp: bcj_rest_def)
    next
      case unf: False
      define s1 where "s1 = bcj_ingest s xs e"
      note props = bcj_ingest_props [OF 1(1) out unf s1_def [symmetric]]
      show ?thesis
      proof (cases "bd_out s1 = []")
        case True
        have p: "bcj_process s xs n e =
            (s1, Inr (codec_report (length xs) (length []) (if bd_finished s1 then CodecDone else CodecNeedInput), []))"
          using False unf True by (simp add: bcj_process_def s1_def [symmetric] Let_def)
        have inv: "bcj_inv s1" using True props(1,3,4) by (simp add: bcj_inv_def)
        have rest: "bcj_rest s (xs @ ys) = (if bd_finished s1 then [] else bcj_rest s1 ys)" if "e = More \<or> ys = []" for ys
          using props(5) [OF that] True props(1) by (simp add: bcj_rest_def)
        show ?thesis
          by (rule exI [of _ s1], rule exI [of _ "length xs"], rule exI [of _ "[]"],
              rule exI [of _ "if bd_finished s1 then CodecDone else CodecNeedInput"])
            (use p inv rest props(2) in \<open>auto split: if_splits intro: end_of_input.exhaust\<close>)
      next
        case some: False
        let ?c = "min (length (bd_out s1)) n"
        let ?out = "take ?c (bd_out s1)" and ?s = "emitted s1 ?c"
        have c: "?c \<le> length (bd_out s1)" "0 < ?c" using some 1(2) by auto
        have p: "bcj_process s xs n e = (?s, Inr (codec_report (length xs) (length ?out) CodecNeedInput, ?out))"
          using False unf some by (simp add: bcj_process_def s1_def [symmetric] Let_def min.commute)
        have inv: "bcj_inv ?s" using props(3,4) emitted_cursor [OF c(1)] by (simp add: bcj_inv_def)
        have rest: "bcj_rest s (xs @ ys) = ?out @ bcj_rest ?s ys" if "e = More \<or> ys = []" for ys
          using props(5) [OF that] unfolding bcj_rest_def emitted_sel emitted_out [OF c(1)]
          by (metis append_assoc append_take_drop_id)
        have less: "bcj_backlog ?s < bcj_backlog s" if "xs = []"
          unfolding emitted_backlog [OF c(1)] using c props(6) [OF that] unf out
          by (simp add: bcj_backlog_def) (metis diff_le_self less_Suc_eq_le less_imp_le)
        show ?thesis
          by (rule exI [of _ ?s], rule exI [of _ "length xs"], rule exI [of _ ?out], rule exI [of _ CodecNeedInput])
            (use p inv rest less c props(2) in auto)
      qed
    qed
  qed
qed

text \<open>
  C35. How a stream is cut is invisible in its branch filter, for all eight instruction families: a
  decoder driven over the input in pieces of any positive size, into output buffers of any positive
  size, ends without error and yields exactly what one scan over the whole stream yields, and as many
  bytes as it read. Instructions that straddle two pieces, and the mask the x86 family carries from
  one call to the next, are covered.
\<close>

theorem bcj_chunking_unobservable:
  assumes "0 < chunk" and "0 < cap"
  shows "try_drive_codec bcj_process (bcj_new kind start) input chunk cap =
      Some (Inr (bcj_all (bcj_filter_new kind start) input)) \<and>
    length (bcj_all (bcj_filter_new kind start) input) = length input"
proof
  have "bcj_inv (bcj_new kind start)" "\<not> bd_finished (bcj_new kind start)" by (simp_all add: bcj_inv_def bcj_new_def)
  from bcj.codec_delivers [OF this assms, of input]
  show "try_drive_codec bcj_process (bcj_new kind start) input chunk cap =
      Some (Inr (bcj_all (bcj_filter_new kind start) input))" by (simp add: bcj_rest_def bcj_new_def)
  show "length (bcj_all (bcj_filter_new kind start) input) = length input"
    using bcj_scan_length by (auto simp: bcj_all_def split: prod.splits)
qed

theorem bcj_chunking_unobservable_witness:
  "try_drive_codec bcj_process (bcj_new Arm 0) [8, 0, 0, 0xeb, 7] 3 2 = Some (Inr [6, 0, 0, 0xeb, 7])"
proof -
  have "bcj_all (bcj_filter_new Arm 0) [8, 0, 0, 0xeb, 7] = [6, 0, 0, 0xeb, 7]" by code_simp
  with bcj_chunking_unobservable [of 3 2 Arm 0 "[8, 0, 0, 0xeb, 7]"] show ?thesis by simp
qed

section \<open>The inner loop of the x86 family\<close>

lemma bit_src_byte:
  assumes "k \<in> {1, 2, 3}" and "i < 8"
  shows "bit (x86_src buf) (24 - 8 * k + i) = bit (buf ! (4 - k)) i"
  using assms by (auto simp: x86_src_def shl_def i32_def bit_simps dest: bit_imp_le_length)

lemma tested_byte:
  assumes "n \<le> 24"
  shows "u8 (sar x n AND 0xff) = ucast (drop_bit n x)"
proof -
  have "(0xff :: i32) = mask 8" by (simp add: mask_eq_exp_minus_1)
  then show ?thesis
    unfolding u8_def sar_def \<open>0xff = mask 8\<close>
    by (intro bit_word_eqI) (use assms in \<open>auto simp: bit_simps not_le\<close>)
qed

lemma low_bits_minus:
  fixes x y p :: i32
  shows "take_bit n x = take_bit n y \<Longrightarrow> take_bit n (x - p) = take_bit n (y - p)"
proof transfer
  fix n :: nat and x y p :: int
  assume "take_bit LENGTH(32) (take_bit n x) = take_bit LENGTH(32) (take_bit n y)"
  then show "take_bit LENGTH(32) (take_bit n (x - p)) = take_bit LENGTH(32) (take_bit n (y - p))"
    unfolding take_bit_take_bit by (metis take_bit_diff)
qed

lemma second_round_complements:
  fixes src p :: i32
  shows "take_bit n (((src - p) XOR (push_bit n 1 - 1)) - p) = take_bit n (NOT src)"
proof -
  have "take_bit n ((src - p) XOR (push_bit n 1 - 1)) = take_bit n (NOT (src - p))"
    by (rule bit_word_eqI) (auto simp: bit_simps mask_eq_exp_minus_1 [symmetric] push_bit_eq_mult)
  then have "take_bit n (((src - p) XOR (push_bit n 1 - 1)) - p) = take_bit n (NOT (src - p) - p)"
    by (rule low_bits_minus)
  then show ?thesis by (simp add: not_eq_complement)
qed

lemma mask_byte: "(0xff :: byte) = - 1"
  by simp

lemma ms_byte_not: "test_86_ms_byte (NOT b) \<longleftrightarrow> test_86_ms_byte b"
proof -
  have "NOT b = 0 \<longleftrightarrow> b = 0xff" "NOT b = 0xff \<longleftrightarrow> b = 0"
    by (metis bit.double_compl bit.compl_one bit.compl_zero mask_byte)+
  then show ?thesis by (auto simp: test_86_ms_byte_def)
qed

lemma second_round_stops:
  assumes k: "k \<in> {1, 2, 3}" and ms: "\<not> test_86_ms_byte (buf ! (4 - k))"
  shows "\<not> test_86_ms_byte (u8 (sar (((x86_src buf - p) XOR (shl 1 (32 - k * 8) - 1)) - p) (24 - k * 8) AND 0xff))"
    (is "\<not> test_86_ms_byte (u8 (sar ?dest _ AND _))")
proof -
  have "bit ?dest (24 - k * 8 + i) = bit (NOT (x86_src buf)) (24 - k * 8 + i)" if "i < 8" for i
    using arg_cong [OF second_round_complements [of "32 - k * 8" "x86_src buf" p], of "\<lambda>w. bit w (24 - k * 8 + i)"] k that
    unfolding shl_def by (auto simp: bit_take_bit_iff)
  then have "ucast (drop_bit (24 - k * 8) ?dest) = NOT (buf ! (4 - k))"
    using bit_src_byte [OF k] k by (intro bit_word_eqI) (auto simp: bit_simps mult.commute)
  then show ?thesis using ms by (simp add: tested_byte ms_byte_not)
qed

text \<open>
  The inner loop of the x86 family ends in at most two rounds: in every state in which the scan
  enters it (no mask, or an admissible mask whose marked byte is neither \<open>00\<close> nor \<open>ff\<close>) the second
  round cannot ask for a third, whatever the position. So a hostile program image cannot make the
  decoder spin, and a larger number of rounds would give the same destination.
\<close>

theorem x86_loop_two_rounds:
  assumes "unat m < 8" and "MASK_TO_ALLOWED_STATUS ! unat m"
    and "m \<noteq> 0 \<Longrightarrow> \<not> test_86_ms_byte (buf ! (4 - MASK_TO_BIT_NUMBER ! unat m))"
  shows "\<exists>dest. \<forall>more. x86_loop (2 + more) m (x86_src buf) p = Some dest"
proof -
  have "unat m = 0 \<or> unat m \<in> {1, 2, 4}"
    using assms(1,2) by (auto simp: MASK_TO_ALLOWED_STATUS_def less_Suc_eq eval_nat_numeral)
  then show ?thesis
  proof
    assume "unat m = 0"
    then show ?thesis by (simp add: unat_eq_0)
  next
    assume m: "unat m \<in> {1, 2, 4}"
    then have "MASK_TO_BIT_NUMBER ! unat m \<in> {1, 2, 3}" and "m \<noteq> 0" by (auto simp: MASK_TO_BIT_NUMBER_def)
    with second_round_stops [OF this(1) assms(3) [OF this(2)], of p] show ?thesis
      by (auto simp: Let_def eval_nat_numeral)
  qed
qed

theorem x86_loop_two_rounds_witness:
  "\<exists>dest. \<forall>more. x86_loop (2 + more) 1 (x86_src [0xe8, 1, 2, 3, 0]) 7 = Some dest"
  by (rule x86_loop_two_rounds) (simp_all add: MASK_TO_ALLOWED_STATUS_def MASK_TO_BIT_NUMBER_def test_86_ms_byte_def)

end
