(* ===== verification/Oxide_Probe.thy ===== *)
theory Oxide_Probe
  imports Oxide_Ar_Decoder Oxide_Cpio_Decoder Oxide_Tar_Decoder
begin

text \<open>
  Identifiers and incremental probes of filters and formats:
  \<open>libarchive_oxide-core/src/filter.rs\<close> and \<open>libarchive_oxide-core/src/format.rs\<close>. An identifier
  is a 32-bit word; values with the top bit are left to downstream providers.
\<close>

section \<open>Identifiers\<close>

type_synonym filter_id = "32 word"
type_synonym format_id = "32 word"

definition CUSTOM_BIT :: "32 word" where
  "CUSTOM_BIT = push_bit 31 1"

definition custom :: "32 word \<Rightarrow> 32 word option" where
  "custom v = (if v AND CUSTOM_BIT = CUSTOM_BIT then Some v else None)"

definition is_custom :: "32 word \<Rightarrow> bool" where
  "is_custom v \<longleftrightarrow> v AND CUSTOM_BIT = CUSTOM_BIT"

definition Gzip :: filter_id where "Gzip = 1"
definition Zstd :: filter_id where "Zstd = 2"
definition Xz :: filter_id where "Xz = 3"
definition Lz4 :: filter_id where "Lz4 = 4"
definition Bzip2 :: filter_id where "Bzip2 = 5"
definition Deflate :: filter_id where "Deflate = 6"
definition Compress :: filter_id where "Compress = 7"
definition Lzip :: filter_id where "Lzip = 8"

definition Tar :: format_id where "Tar = 1"
definition Cpio :: format_id where "Cpio = 2"
definition Ar :: format_id where "Ar = 3"
definition Zip :: format_id where "Zip = 4"
definition SevenZip :: format_id where "SevenZip = 5"
definition Iso9660 :: format_id where "Iso9660 = 6"
definition Udf :: format_id where "Udf = 7"
definition Cab :: format_id where "Cab = 8"
definition Xar :: format_id where "Xar = 9"
definition Empty :: format_id where "Empty = 10"
definition Raw :: format_id where "Raw = 11"
definition Warc :: format_id where "Warc = 12"

lemmas format_id_defs = Tar_def Cpio_def Ar_def Zip_def SevenZip_def Iso9660_def Udf_def Cab_def Xar_def Empty_def
  Raw_def Warc_def

section \<open>Filters\<close>

definition BZIP2_PREFIX :: bytes where
  "BZIP2_PREFIX = ascii ''BZh''"

definition SIGNATURES :: "(filter_id \<times> bytes) list" where
  "SIGNATURES =
     [(Gzip, [0x1f, 0x8b]), (Compress, [0x1f, 0x9d]), (Zstd, [0x28, 0xb5, 0x2f, 0xfd]),
      (Xz, [0xfd, 0x37, 0x7a, 0x58, 0x5a, 0x00]), (Lz4, [0x04, 0x22, 0x4d, 0x18]), (Lzip, ascii ''LZIP'')]"

text \<open>The loop over the signatures, with the smallest length that could still decide.\<close>

fun probe_loop :: "('i \<times> bytes) list \<Rightarrow> bytes \<Rightarrow> nat \<Rightarrow> 'i probe_result" where
  "probe_loop [] pre least = (if least = usize_max then ProbeNoMatch else ProbeNeedMore least)"
| "probe_loop ((i, sig) # sigs) pre least =
     (if length sig \<le> length pre \<and> starts_with pre sig then ProbeMatch i
      else probe_loop sigs pre
        (if length pre < length sig \<and> starts_with sig pre then min least (length sig) else least))"

definition filter_probe :: "bytes \<Rightarrow> filter_id probe_result" where
  "filter_probe pre =
     (if length pre < length BZIP2_PREFIX \<and> starts_with BZIP2_PREFIX pre then probe_loop SIGNATURES pre 4
      else if starts_with pre BZIP2_PREFIX then
        (if length pre < 4 then ProbeNeedMore 4
         else if 49 \<le> pre ! 3 \<and> pre ! 3 \<le> 57 then ProbeMatch Bzip2
         else probe_loop SIGNATURES pre usize_max)
      else probe_loop SIGNATURES pre usize_max)"

section \<open>Formats\<close>

definition ISO_SIGNATURE_END :: nat where "ISO_SIGNATURE_END = 16 * 2048 + 6"
definition UDF_SIGNATURE_END :: nat where "UDF_SIGNATURE_END = 17 * 2048 + 6"

definition FORMAT_SIGNATURES :: "(format_id \<times> bytes) list" where
  "FORMAT_SIGNATURES =
     [(Warc, ascii ''WARC/1.0'' @ [13, 10]), (Warc, ascii ''WARC/1.1'' @ [13, 10]),
      (Zip, ascii ''PK'' @ [3, 4]), (Zip, ascii ''PK'' @ [5, 6]),
      (SevenZip, [0x37, 0x7a, 0xbc, 0xaf, 0x27, 0x1c]), (Cab, ascii ''MSCF''), (Xar, ascii ''xar!'')]"

fun match_loop :: "(format_id \<times> bytes) list \<Rightarrow> bytes \<Rightarrow> format_id option" where
  "match_loop [] pre = None"
| "match_loop ((i, sig) # sigs) pre =
     (if length sig \<le> length pre \<and> starts_with pre sig then Some i else match_loop sigs pre)"

fun least_loop :: "bytes list \<Rightarrow> bytes \<Rightarrow> nat \<Rightarrow> nat" where
  "least_loop [] pre least = least"
| "least_loop (sig # sigs) pre least =
     least_loop sigs pre
       (if length pre < length sig \<and> starts_with sig pre then min least (length sig) else least)"

fun candidate_loop :: "unit probe_result list \<Rightarrow> nat \<Rightarrow> nat" where
  "candidate_loop [] least = least"
| "candidate_loop (r # rs) least =
     candidate_loop rs (case r of ProbeNeedMore candidate \<Rightarrow> min least candidate | _ \<Rightarrow> least)"

definition udf_signature :: "bytes \<Rightarrow> bool" where
  "udf_signature pre \<longleftrightarrow> UDF_SIGNATURE_END \<le> length pre \<and>
     slice pre (16 * 2048 + 1) (16 * 2048 + 6) = ascii ''BEA01'' \<and>
     (slice pre (17 * 2048 + 1) UDF_SIGNATURE_END = ascii ''NSR02'' \<or>
      slice pre (17 * 2048 + 1) UDF_SIGNATURE_END = ascii ''NSR03'')"

definition iso_signature :: "bytes \<Rightarrow> bool" where
  "iso_signature pre \<longleftrightarrow> UDF_SIGNATURE_END \<le> length pre \<and> ISO_SIGNATURE_END \<le> length pre \<and>
     slice pre (16 * 2048 + 1) ISO_SIGNATURE_END = ascii ''CD001''"

definition format_probe :: "bytes \<Rightarrow> format_id probe_result" where
  "format_probe pre =
     (case match_loop FORMAT_SIGNATURES pre of
        Some i \<Rightarrow> ProbeMatch i
      | None \<Rightarrow>
          if cpio_probe pre = ProbeMatch () then ProbeMatch Cpio
          else if ar_probe pre = ProbeMatch () then ProbeMatch Ar
          else if udf_signature pre then ProbeMatch Udf
          else if iso_signature pre then ProbeMatch Iso9660
          else if tar_probe pre = ProbeMatch () then ProbeMatch Tar
          else
            let least0 = least_loop (map snd FORMAT_SIGNATURES) pre usize_max;
                least1 = candidate_loop [cpio_probe pre, ar_probe pre, tar_probe pre] least0;
                least = (if length pre < UDF_SIGNATURE_END then min least1 UDF_SIGNATURE_END else least1)
            in if least = usize_max then ProbeNoMatch else ProbeNeedMore least)"

section \<open>The filter probe against its specification\<close>

text \<open>
  A signature decides as soon as it is complete. The reference reading of a prefix-free table: a
  signature that is a prefix of the bytes matches; otherwise the shortest signature that continues
  the bytes says how much is needed; otherwise nothing can match any more.
\<close>

definition filter_table :: "(filter_id \<times> bytes) list" where
  "filter_table = map (\<lambda>c. (Bzip2, ascii ''BZh'' @ [c])) [49, 50, 51, 52, 53, 54, 55, 56, 57] @ SIGNATURES"

definition continuations :: "('i \<times> bytes) list \<Rightarrow> bytes \<Rightarrow> bytes list" where
  "continuations table pre = filter (\<lambda>sig. length pre < length sig \<and> starts_with sig pre) (map snd table)"

definition table_probe :: "('i \<times> bytes) list \<Rightarrow> bytes \<Rightarrow> 'i probe_result" where
  "table_probe table pre =
     (case find (\<lambda>(i, sig). starts_with pre sig) table of
        Some (i, sig) \<Rightarrow> ProbeMatch i
      | None \<Rightarrow> (case continuations table pre of
                   [] \<Rightarrow> ProbeNoMatch
                 | sigs \<Rightarrow> ProbeNeedMore (Min (length ` set sigs))))"

lemma starts_with_extend: "starts_with pre sig \<Longrightarrow> starts_with (pre @ ext) sig"
  by (auto simp: starts_with_iff)

lemma starts_with_comparable:
  assumes "starts_with xs a" and "starts_with xs b"
  shows "starts_with a b \<or> starts_with b a"
  using assms by (auto simp: starts_with_iff append_eq_append_conv2)

definition prefix_free :: "bytes list \<Rightarrow> bool" where
  "prefix_free sigs \<longleftrightarrow> sorted_wrt (\<lambda>a b. \<not> starts_with a b \<and> \<not> starts_with b a) sigs"

lemma find_extend:
  assumes "prefix_free (map snd table)" and "find (\<lambda>(i, sig). starts_with pre sig) table = Some (i, sig)"
  shows "find (\<lambda>(i, sig). starts_with (pre @ ext) sig) table = Some (i, sig)"
  using assms
proof (induction table)
  case (Cons a table)
  obtain j sg where a: "a = (j, sg)" by fastforce
  show ?case
  proof (cases "starts_with pre sg")
    case True
    with Cons.prems a show ?thesis by (auto intro: starts_with_extend)
  next
    case False
    with Cons.prems a have found: "find (\<lambda>(i, sig). starts_with pre sig) table = Some (i, sig)" by simp
    then have sig: "starts_with pre sig" "(i, sig) \<in> set table"
      by (auto simp: find_Some_iff) (metis nth_mem)
    then have "\<not> starts_with sg sig \<and> \<not> starts_with sig sg"
      using Cons.prems(1) a by (force simp: prefix_free_def)
    then have "\<not> starts_with (pre @ ext) sg"
      using starts_with_comparable starts_with_extend [OF sig(1)] by blast
    with Cons.IH [OF _ found] Cons.prems(1) a show ?thesis by (simp add: prefix_free_def)
  qed
qed simp

lemma continuations_iff:
  "sig \<in> set (continuations table pre) \<longleftrightarrow> sig \<in> snd ` set table \<and> length pre < length sig \<and> starts_with sig pre"
  by (auto simp: continuations_def)

lemma table_probe_match:
  assumes "prefix_free (map snd table)" and "table_probe table pre = ProbeMatch i"
  shows "table_probe table (pre @ ext) = ProbeMatch i"
proof -
  from assms(2) obtain sig where "find (\<lambda>(i, sig). starts_with pre sig) table = Some (i, sig)"
    by (auto simp: table_probe_def split: option.splits list.splits)
  from find_extend [OF assms(1) this] show ?thesis by (simp add: table_probe_def)
qed

lemma table_probe_no_match:
  assumes "table_probe table pre = ProbeNoMatch"
  shows "table_probe table (pre @ ext) = ProbeNoMatch"
proof -
  from assms have "find (\<lambda>(i, sig). starts_with pre sig) table = None" "continuations table pre = []"
    by (auto simp: table_probe_def split: option.splits list.splits)
  then have none: "\<not> starts_with pre sig" "\<not> (length pre < length sig \<and> starts_with sig pre)"
    if "(i, sig) \<in> set table" for i sig
    using that by (auto simp: find_None_iff continuations_def filter_empty_conv)
  have "\<not> starts_with (pre @ ext) sig \<and> \<not> starts_with sig (pre @ ext)" if "(i, sig) \<in> set table" for i sig
  proof -
    have "\<not> starts_with sig pre"
    proof
      assume "starts_with sig pre"
      with none [OF that] have "sig = pre" by (auto simp: starts_with_iff)
      with none(1) [OF that] show False by (simp add: starts_with_def)
    qed
    then show ?thesis
      using none(1) [OF that] starts_with_comparable [of "pre @ ext" sig pre] starts_with_append [of pre ext]
      by (metis append.assoc starts_with_iff)
  qed
  then have "find (\<lambda>(i, sig). starts_with (pre @ ext) sig) table = None"
    and "continuations table (pre @ ext) = []"
    by (auto simp: find_None_iff continuations_def filter_empty_conv)
  then show ?thesis by (simp add: table_probe_def)
qed

lemma table_probe_need_more:
  assumes "table_probe table pre = ProbeNeedMore n"
  obtains ext i where "length pre < n" "length (pre @ ext) = n" "table_probe table (pre @ ext) = ProbeMatch i"
    "n \<in> length ` snd ` set table"
proof -
  let ?sigs = "continuations table pre"
  from assms have sigs: "?sigs \<noteq> []" "n = Min (length ` set ?sigs)"
    by (auto simp: table_probe_def split: option.splits list.splits)
  then have "n \<in> length ` set ?sigs" by (metis Min_in finite_imageI finite_set image_is_empty set_empty)
  then obtain sig where sig: "sig \<in> set ?sigs" "n = length sig" by blast
  then obtain i ext where "(i, sig) \<in> set table" "sig = pre @ ext" "length pre < n"
    by (auto simp: continuations_iff starts_with_iff)
  moreover have "find (\<lambda>(i, s). starts_with sig s) table \<noteq> None"
    using calculation(1) unfolding find_None_iff starts_with_def by fastforce
  then obtain j s where "find (\<lambda>(i, s). starts_with sig s) table = Some (j, s)" by auto
  moreover have "n \<in> length ` snd ` set table" using calculation(1) sig(2) by force
  ultimately show thesis using sig(2) by (intro that [of ext j]) (simp_all add: table_probe_def)
qed

lemma continuations_Cons:
  "continuations ((i, sig) # table) pre =
     (if length pre < length sig \<and> starts_with sig pre then [sig] else []) @ continuations table pre"
  by (simp add: continuations_def)

lemma probe_loop_eq:
  "probe_loop table pre least =
     (case find (\<lambda>(i, sig). starts_with pre sig) table of
        Some (i, sig) \<Rightarrow> ProbeMatch i
      | None \<Rightarrow>
          let n = foldl min least (map length (continuations table pre))
          in if n = usize_max then ProbeNoMatch else ProbeNeedMore n)"
proof (induction table arbitrary: least)
  case Nil
  show ?case by (simp add: continuations_def)
next
  case (Cons a table)
  obtain i sig where a: "a = (i, sig)" by fastforce
  show ?case
    unfolding a probe_loop.simps Cons.IH continuations_Cons
    by (auto simp: starts_with_length split: option.split)
qed

lemma foldl_min: "foldl min a ns = Min (insert a (set ns))" for a :: nat
proof (induction ns arbitrary: a)
  case (Cons n ns)
  have "Min (insert a (insert n (set ns))) = Min (insert (min a n) (set ns))"
    by (cases "ns = []") (simp_all add: min.assoc)
  with Cons show ?case by simp
qed simp

lemma probe_loop_Min:
  assumes "find (\<lambda>(i, sig). starts_with pre sig) table = None" and "continuations table pre \<noteq> []"
    and "Min (length ` set (continuations table pre)) < usize_max"
  shows "probe_loop table pre usize_max = ProbeNeedMore (Min (length ` set (continuations table pre)))"
proof -
  let ?ns = "map length (continuations table pre)"
  have "foldl min usize_max ?ns = Min (insert usize_max (set ?ns))"
    by (rule foldl_min)
  also have "\<dots> = min usize_max (Min (set ?ns))" using assms(2) by (intro Min_insert) simp_all
  finally show ?thesis using assms by (simp add: probe_loop_eq Let_def)
qed

lemma signatures_short: "(i, sig) \<in> set filter_table \<Longrightarrow> 2 \<le> length sig \<and> length sig \<le> 6"
  by (auto simp: filter_table_def SIGNATURES_def ascii_def)

lemma filter_table_prefix_free: "prefix_free (map snd filter_table)"
  by code_simp

lemma filter_probe_loop: "filter_probe pre = probe_loop filter_table pre usize_max"
proof -
  have B: "BZIP2_PREFIX = [66, 90, 104]" "ascii ''BZh'' = [66, 90, 104]" by (simp_all add: BZIP2_PREFIX_def ascii_def)
  note unfolded = filter_probe_def filter_table_def B starts_with_def u64_max_def
  consider (none) "pre = []" | (one) a where "pre = [a]" | (two) a b where "pre = [a, b]"
    | (three) a b c where "pre = [a, b, c]" | (four) a b c d r where "pre = a # b # c # d # r"
    by (metis list.exhaust)
  then show ?thesis
  proof cases
    case none
    then show ?thesis by (simp add: unfolded SIGNATURES_def ascii_def)
  next
    case (one a)
    then show ?thesis by (cases "a = 66") (simp_all add: unfolded SIGNATURES_def ascii_def)
  next
    case (two a b)
    then show ?thesis by (cases "a = 66"; cases "b = 90") (simp_all add: unfolded SIGNATURES_def ascii_def)
  next
    case (three a b c)
    then show ?thesis
      by (cases "a = 66"; cases "b = 90"; cases "c = 104") (simp_all add: unfolded SIGNATURES_def ascii_def)
  next
    case (four a b c d r)
    have "(49 \<le> d \<and> d \<le> 57) \<longleftrightarrow> d \<in> {49, 50, 51, 52, 53, 54, 55, 56, 57}"
      by (auto simp: word_le_nat_alt word_unat_eq_iff)
    with four show ?thesis
      by (cases "a = 66 \<and> b = 90 \<and> c = 104") (auto simp: unfolded)
  qed
qed

lemma filter_probe_table: "filter_probe pre = table_probe filter_table pre"
proof (cases "find (\<lambda>(i, sig). starts_with pre sig) filter_table")
  case None
  show ?thesis
  proof (cases "continuations filter_table pre")
    case Nil
    with None show ?thesis by (simp add: filter_probe_loop probe_loop_eq table_probe_def)
  next
    case (Cons a list)
    then have "Min (length ` set (continuations filter_table pre)) \<le> length a" by (intro Min_le) simp_all
    also have "length a \<le> 6" using Cons continuations_iff [of a filter_table pre] signatures_short by fastforce
    finally have "Min (length ` set (continuations filter_table pre)) < usize_max" by (simp add: u64_max_def)
    with None Cons show ?thesis using probe_loop_Min [OF None] by (simp add: filter_probe_loop table_probe_def)
  qed
qed (auto simp: filter_probe_loop probe_loop_eq table_probe_def)

section \<open>The format probe\<close>

text \<open>Everything that is decided by the first bytes, as one table.\<close>

definition magic_table :: "(format_id \<times> bytes) list" where
  "magic_table = FORMAT_SIGNATURES @
     map (Pair Cpio) [BIN_MAGIC_LE, BIN_MAGIC_BE, NEWC_MAGIC, NEWC_CRC_MAGIC, ODC_MAGIC] @
     map (Pair Ar) [AR_MAGIC, AR_THIN_MAGIC]"

definition magic :: "bytes \<Rightarrow> format_id option" where
  "magic pre = map_option fst (find (\<lambda>(i, sig). starts_with pre sig) magic_table)"

lemmas magic_defs = BIN_MAGIC_LE_def BIN_MAGIC_BE_def NEWC_MAGIC_def NEWC_CRC_MAGIC_def ODC_MAGIC_def AR_MAGIC_def
  AR_THIN_MAGIC_def

lemma magic_table_prefix_free: "prefix_free (map snd magic_table)"
  by code_simp

lemma magic_table_short: "(i, sig) \<in> set magic_table \<Longrightarrow> 0 < length sig \<and> length sig \<le> 10"
  by (auto simp: magic_table_def FORMAT_SIGNATURES_def magic_defs ascii_def)

lemma magic_extend: "magic pre = Some i \<Longrightarrow> magic (pre @ ext) = Some i"
  using find_extend [OF magic_table_prefix_free, of pre] by (auto simp: magic_def)

lemma starts_with_long: "length sig \<le> length pre \<Longrightarrow> starts_with (pre @ ext) sig = starts_with pre sig"
  by (simp add: starts_with_def)

lemma magic_long:
  assumes "10 \<le> length pre"
  shows "magic (pre @ ext) = magic pre"
proof -
  have "find (\<lambda>(i, sig). starts_with (pre @ ext) sig) magic_table = find (\<lambda>(i, sig). starts_with pre sig) magic_table"
    using starts_with_long [OF order_trans [OF conjunct2 [OF magic_table_short] assms]]
    by (intro find_cong) auto
  then show ?thesis by (simp add: magic_def)
qed

lemma match_loop_find:
  "match_loop table pre = map_option fst (find (\<lambda>(i, sig). starts_with pre sig) table)"
  by (induction table pre rule: match_loop.induct) (auto simp: starts_with_length)

lemma find_append: "find P (xs @ ys) = (case find P xs of None \<Rightarrow> find P ys | Some x \<Rightarrow> Some x)"
  by (induction xs) auto

lemma cpio_probe_match: "cpio_probe pre = ProbeMatch () \<longleftrightarrow>
    (\<exists>sig \<in> {BIN_MAGIC_LE, BIN_MAGIC_BE, NEWC_MAGIC, NEWC_CRC_MAGIC, ODC_MAGIC}. starts_with pre sig)"
  by (auto simp: cpio_probe_def magic_defs ascii_def dest!: starts_with_length)

lemma ar_probe_match: "ar_probe pre = ProbeMatch () \<longleftrightarrow> starts_with pre AR_MAGIC \<or> starts_with pre AR_THIN_MAGIC"
  by (auto simp: ar_probe_def magic_defs ascii_def dest!: starts_with_length)

lemma magic_cases:
  "magic pre =
     (case match_loop FORMAT_SIGNATURES pre of
        Some i \<Rightarrow> Some i
      | None \<Rightarrow> if cpio_probe pre = ProbeMatch () then Some Cpio
               else if ar_probe pre = ProbeMatch () then Some Ar else None)"
  unfolding magic_def magic_table_def match_loop_find find_append cpio_probe_match ar_probe_match
  by (auto split: option.split)

lemma format_probe_magic:
  "format_probe pre =
     (case magic pre of
        Some i \<Rightarrow> ProbeMatch i
      | None \<Rightarrow>
          if udf_signature pre then ProbeMatch Udf
          else if iso_signature pre then ProbeMatch Iso9660
          else if tar_probe pre = ProbeMatch () then ProbeMatch Tar
          else
            let least1 = candidate_loop [cpio_probe pre, ar_probe pre, tar_probe pre]
                  (least_loop (map snd FORMAT_SIGNATURES) pre usize_max);
                least = (if length pre < UDF_SIGNATURE_END then min least1 UDF_SIGNATURE_END else least1)
            in if least = usize_max then ProbeNoMatch else ProbeNeedMore least)"
  by (simp add: format_probe_def magic_cases Let_def split: option.split)

lemma signature_bounds: "ISO_SIGNATURE_END = 32774" "UDF_SIGNATURE_END = 34822" "ISO_PROBE = 34822" "BLOCK = 512"
  by (simp_all add: ISO_SIGNATURE_END_def UDF_SIGNATURE_END_def ISO_PROBE_def BLOCK_def)

lemma least_loop_gt: "length pre < least \<Longrightarrow> length pre < least_loop sigs pre least"
  by (induction sigs pre least rule: least_loop.induct) simp_all

lemma least_loop_long: "\<forall>sig \<in> set sigs. length sig \<le> length pre \<Longrightarrow> least_loop sigs pre least = least"
  by (induction sigs pre least rule: least_loop.induct) auto

lemma probes_need_more:
  "cpio_probe pre = ProbeNeedMore n \<Longrightarrow> length pre < n \<and> n \<le> 6"
  "ar_probe pre = ProbeNeedMore n \<Longrightarrow> length pre < n \<and> n \<le> 8"
  "tar_probe pre = ProbeNeedMore n \<Longrightarrow> length pre < n \<and> n \<le> UDF_SIGNATURE_END"
  by (auto simp: cpio_probe_def ar_probe_def tar_probe_def AR_MAGIC_def ascii_def signature_bounds split: if_splits)

lemma candidates_gt:
  assumes "length pre < least"
  shows "length pre < candidate_loop [cpio_probe pre, ar_probe pre, tar_probe pre] least"
  using assms by (auto split: probe_result.splits dest!: probes_need_more)

lemma candidates_long:
  assumes "UDF_SIGNATURE_END \<le> length pre"
  shows "candidate_loop [cpio_probe pre, ar_probe pre, tar_probe pre] least = least"
  using assms by (auto simp: signature_bounds split: probe_result.splits dest!: probes_need_more)

lemma format_probe_undecided:
  assumes "magic pre = None" "\<not> udf_signature pre" "\<not> iso_signature pre" "tar_probe pre \<noteq> ProbeMatch ()"
  shows "if length pre < UDF_SIGNATURE_END then \<exists>n. format_probe pre = ProbeNeedMore n \<and> length pre < n \<and> n \<le> UDF_SIGNATURE_END
    else format_probe pre = ProbeNoMatch"
proof (cases "length pre < UDF_SIGNATURE_END")
  case True
  let ?n = "candidate_loop [cpio_probe pre, ar_probe pre, tar_probe pre] (least_loop (map snd FORMAT_SIGNATURES) pre usize_max)"
  have "length pre < usize_max" using True by (simp add: signature_bounds u64_max_def)
  then have "length pre < ?n" by (intro candidates_gt least_loop_gt)
  moreover have "min ?n UDF_SIGNATURE_END \<noteq> usize_max" by (simp add: signature_bounds u64_max_def min_def)
  ultimately show ?thesis using True assms by (simp add: format_probe_magic Let_def)
next
  case False
  have "\<forall>sig \<in> set (map snd FORMAT_SIGNATURES). length sig \<le> 10" by code_simp
  then have "least_loop (map snd FORMAT_SIGNATURES) pre usize_max = usize_max"
    using False by (intro least_loop_long) (force simp: signature_bounds)
  with False candidates_long [of pre usize_max] assms show ?thesis by (simp add: format_probe_magic Let_def)
qed

lemma signatures_long:
  assumes "UDF_SIGNATURE_END \<le> length pre"
  shows "udf_signature (pre @ ext) = udf_signature pre" "iso_signature (pre @ ext) = iso_signature pre"
  using assms by (simp_all add: udf_signature_def iso_signature_def signature_bounds slice_def)

lemma tar_probe_long:
  assumes "512 \<le> length pre" and "tar_probe pre = ProbeMatch () \<or> UDF_SIGNATURE_END \<le> length pre"
  shows "tar_probe (pre @ ext) = tar_probe pre"
  using assms by (auto simp: tar_probe_def signature_bounds split: if_splits)

lemma format_probe_long:
  assumes "UDF_SIGNATURE_END \<le> length pre"
  shows "format_probe (pre @ ext) = format_probe pre"
proof -
  have magic: "magic (pre @ ext) = magic pre" using assms by (intro magic_long) (simp add: signature_bounds)
  have tar: "tar_probe (pre @ ext) = tar_probe pre" using assms by (intro tar_probe_long) (simp_all add: signature_bounds)
  note same = magic tar signatures_long [OF assms, of ext]
  show ?thesis
  proof (cases "magic pre = None \<and> \<not> udf_signature pre \<and> \<not> iso_signature pre \<and> tar_probe pre \<noteq> ProbeMatch ()")
    case True
    with format_probe_undecided [of pre] format_probe_undecided [of "pre @ ext"] assms same show ?thesis by simp
  next
    case False
    then show ?thesis unfolding format_probe_magic same by (auto split: option.split)
  qed
qed

lemma format_probe_match:
  assumes "format_probe pre = ProbeMatch i"
  shows "format_probe (pre @ ext) = ProbeMatch i \<or>
    i = Tar \<and> length pre < UDF_SIGNATURE_END \<and> format_probe (pre @ ext) \<in> {ProbeMatch Udf, ProbeMatch Iso9660}"
proof (cases "length pre < UDF_SIGNATURE_END")
  case True
  show ?thesis
  proof (cases "magic pre")
    case (Some j)
    with assms magic_extend [OF Some, of ext] show ?thesis by (simp add: format_probe_magic)
  next
    case None
    have "\<not> udf_signature pre" "\<not> iso_signature pre" using True by (simp_all add: udf_signature_def iso_signature_def)
    with None True assms format_probe_undecided [of pre] have tar: "tar_probe pre = ProbeMatch ()" by auto
    then have "512 \<le> length pre" by (auto simp: tar_probe_def signature_bounds split: if_splits)
    then have "magic (pre @ ext) = None" "tar_probe (pre @ ext) = ProbeMatch ()"
      using None tar magic_long [of pre ext] tar_probe_long [of pre ext] by simp_all
    with None True tar \<open>\<not> udf_signature pre\<close> \<open>\<not> iso_signature pre\<close> assms show ?thesis
      by (auto simp: format_probe_magic)
  qed
next
  case False
  with assms format_probe_long [of pre ext] show ?thesis by simp
qed

text \<open>
  C10. Both probes are incremental. The filter probe is the reading of a prefix-free signature table:
  a match and a rejection are final however the stream continues, and a request for more bytes names
  a length beyond what was shown at which the stream could indeed match. The format probe rejects
  only once the last signature it knows has been seen and never asks for more than that; its matches
  are final as well, with the one exception that a match as tar before that point may turn into
  UDF or ISO 9660.
\<close>

theorem probes_incremental:
  "filter_probe pre = table_probe filter_table pre \<and>
   (case filter_probe pre of
      ProbeMatch i \<Rightarrow> filter_probe (pre @ ext) = ProbeMatch i
    | ProbeNoMatch \<Rightarrow> filter_probe (pre @ ext) = ProbeNoMatch
    | ProbeNeedMore n \<Rightarrow> length pre < n \<and> n \<le> 6 \<and>
        (\<exists>more i. length (pre @ more) = n \<and> filter_probe (pre @ more) = ProbeMatch i)) \<and>
   (case format_probe pre of
      ProbeMatch i \<Rightarrow> format_probe (pre @ ext) = ProbeMatch i \<or>
        i = Tar \<and> length pre < UDF_SIGNATURE_END \<and> format_probe (pre @ ext) \<in> {ProbeMatch Udf, ProbeMatch Iso9660}
    | ProbeNoMatch \<Rightarrow> UDF_SIGNATURE_END \<le> length pre \<and> format_probe (pre @ ext) = ProbeNoMatch
    | ProbeNeedMore n \<Rightarrow> length pre < n \<and> n \<le> UDF_SIGNATURE_END)"
proof (intro conjI)
  show "filter_probe pre = table_probe filter_table pre" by (rule filter_probe_table)
  show "case filter_probe pre of
      ProbeMatch i \<Rightarrow> filter_probe (pre @ ext) = ProbeMatch i
    | ProbeNoMatch \<Rightarrow> filter_probe (pre @ ext) = ProbeNoMatch
    | ProbeNeedMore n \<Rightarrow> length pre < n \<and> n \<le> 6 \<and>
        (\<exists>more i. length (pre @ more) = n \<and> filter_probe (pre @ more) = ProbeMatch i)"
  proof (cases "filter_probe pre")
    case (ProbeMatch i)
    then show ?thesis using table_probe_match [OF filter_table_prefix_free] by (simp add: filter_probe_table)
  next
    case (ProbeNeedMore n)
    from table_probe_need_more [OF ProbeNeedMore [unfolded filter_probe_table]] obtain more i where
      "length pre < n" "length (pre @ more) = n" "table_probe filter_table (pre @ more) = ProbeMatch i"
      "n \<in> length ` snd ` set filter_table" by metis
    moreover from this(4) have "n \<le> 6" using signatures_short by fastforce
    ultimately show ?thesis using ProbeNeedMore by (auto simp: filter_probe_table)
  next
    case ProbeNoMatch
    then show ?thesis using table_probe_no_match by (simp add: filter_probe_table)
  qed
  show "case format_probe pre of
      ProbeMatch i \<Rightarrow> format_probe (pre @ ext) = ProbeMatch i \<or>
        i = Tar \<and> length pre < UDF_SIGNATURE_END \<and> format_probe (pre @ ext) \<in> {ProbeMatch Udf, ProbeMatch Iso9660}
    | ProbeNoMatch \<Rightarrow> UDF_SIGNATURE_END \<le> length pre \<and> format_probe (pre @ ext) = ProbeNoMatch
    | ProbeNeedMore n \<Rightarrow> length pre < n \<and> n \<le> UDF_SIGNATURE_END"
  proof (cases "magic pre = None \<and> \<not> udf_signature pre \<and> \<not> iso_signature pre \<and> tar_probe pre \<noteq> ProbeMatch ()")
    case True
    then show ?thesis
      using format_probe_undecided [of pre] format_probe_long [of pre ext]
      by (cases "length pre < UDF_SIGNATURE_END") auto
  next
    case False
    then have "\<exists>i. format_probe pre = ProbeMatch i"
      unfolding format_probe_magic by (cases "magic pre") auto
    then obtain i where "format_probe pre = ProbeMatch i" ..
    with format_probe_match [OF this, of ext] show ?thesis by simp
  qed
qed

text \<open>
  C38. Detection depends on how much of the stream is visible: there is a stream whose first block is
  recognised as tar, while the same stream shown up to the last signature is recognised as ISO 9660.
  So what a reader that probes after every read detects depends on the sizes of its reads.
\<close>

theorem format_probe_depends_on_reads:
  "\<exists>pre ext. format_probe pre = ProbeMatch Tar \<and> format_probe (pre @ ext) = ProbeMatch Iso9660"
proof -
  let ?h = "97 # replicate 511 (0 :: byte)"
  obtain ds where ds: "length ds = 8" "verify_checksum (copy_at ?h 148 ds) = Inr ()"
    by (rule write_checksum_seals [of ?h]) simp_all
  define pre where "pre = copy_at ?h 148 ds"
  define ext where "ext = replicate (32769 - 512) 0 @ ascii ''CD001'' @ replicate 2048 0"
  have len: "length pre = 512" using ds(1) by (simp add: pre_def copy_at_def)
  obtain rest where hd: "pre = 97 # rest" using ds(1) by (simp add: pre_def copy_at_def)
  have none: "magic (97 # xs) = None" for xs
    by (simp add: magic_def magic_table_def FORMAT_SIGNATURES_def magic_defs ascii_def starts_with_def)
  have tar: "tar_probe pre = ProbeMatch ()"
    using len ds(2) hd by (simp add: tar_probe_def signature_bounds pre_def [symmetric])
  then have "format_probe pre = ProbeMatch Tar"
    using none [of rest] len hd by (simp add: format_probe_magic udf_signature_def iso_signature_def signature_bounds)
  moreover have "slice (pre @ ext) 32769 32774 = ascii ''CD001''" "length (pre @ ext) = 34822"
    using len by (simp_all add: ext_def slice_def ascii_def)
  then have "iso_signature (pre @ ext)" "\<not> udf_signature (pre @ ext)"
    by (simp_all add: iso_signature_def udf_signature_def signature_bounds ascii_def)
  then have "format_probe (pre @ ext) = ProbeMatch Iso9660"
    using none [of "rest @ ext"] hd by (simp add: format_probe_magic)
  ultimately show ?thesis by blast
qed

end
