(* ===== verification/Oxide_Pipeline.thy ===== *)
theory Oxide_Pipeline
  imports Oxide_Probe Oxide_Codec Oxide_Writer
begin

text \<open>
  The caller-driven pipeline from filters to a format decoder: \<open>Pipeline\<close> of
  \<open>libarchive_oxide/src/stream.rs\<close>. The provider set \<open>F, C\<close> the code is generic in is the
  record \<open>providers\<close>, an argument of every operation.

  A buffer \<open>v[start..end]\<close> is its visible bytes together with \<open>start\<close>, so that the free space
  behind it, \<open>v.len() - end\<close>, is known. The operations of a layer may call those of the layer
  below; the recursion is on the layer number, and the loops of one layer take the operation that
  fills their source as an argument. Loops that need not end are partial functions: \<open>None\<close> means
  that the call does not return.
\<close>

section \<open>Providers\<close>

record format_capabilities =
  fc_can_decode :: bool
  fc_requires_seek_read :: bool

datatype 'a provider_capability = CapAvailable 'a | CapDisabled | CapUnknown

record ('sel, 'c, 'fsel, 'd) providers =
  probe_codec :: "bytes \<Rightarrow> archive_error + (filter_id \<times> 'sel) probe_result"
  codec_decoder :: "'sel \<Rightarrow> limits \<Rightarrow> archive_error + 'c"
  codec_process :: "'c codec_process"
  probe_format :: "bytes \<Rightarrow> archive_error + (format_id \<times> 'fsel) probe_result"
  format_capability :: "format_id \<Rightarrow> format_capabilities provider_capability"
  select_format :: "format_id \<Rightarrow> archive_error + 'fsel"
  format_decoder :: "'fsel \<Rightarrow> limits \<Rightarrow> archive_error + 'd"
  decoder_step :: "nat \<Rightarrow> 'd decoder_step"

definition filter_name :: "filter_id \<Rightarrow> string" where
  "filter_name f =
     (if f = Gzip then ''gzip'' else if f = Compress then ''compress'' else if f = Lzip then ''lzip''
      else if f = Bzip2 then ''bzip2'' else if f = Zstd then ''zstd'' else if f = Xz then ''xz''
      else if f = Lz4 then ''lz4'' else if f = Deflate then ''deflate'' else ''unknown'')"

section \<open>State\<close>

definition BUFFER :: nat where "BUFFER = 64 * 1024"
definition DETECTION_MINIMUM :: nat where "DETECTION_MINIMUM = 17 * 2048 + 6"

datatype layer_state = LayerRunning | LayerBetween nat | LayerDone

record ('sel, 'c) codec_layer =
  cl_filter :: filter_id
  cl_selection :: 'sel
  cl_codec :: 'c
  cl_state :: layer_state
  cl_capacity :: nat
  cl_start :: nat
  cl_available :: bytes

datatype drive = DriveReady | DriveNeedInput

datatype filter_input_mode = Detect | Predecoded

datatype pipeline_phase = PhaseReading | PhaseArchiveDone | PhaseDone

datatype pipeline_event =
    PipeNeedInput
  | PipeArchiveMetadata archive_metadata
  | PipeEntry entry_metadata
  | PipeData bytes
  | PipeEndEntry
  | PipeDone

record ('sel, 'c, 'd) pipeline =
  pl_limits :: limits
  pl_initial_error :: "archive_error option"
  pl_input_capacity :: nat
  pl_input_start :: nat
  pl_input :: bytes
  pl_input_finished :: bool
  pl_layers :: "('sel, 'c) codec_layer list"
  pl_layer_capacity :: nat
  pl_filter_depth :: nat
  pl_decoder :: "'d option"
  pl_format :: "format_id option"
  pl_forced_format :: "format_id option"
  pl_event_data :: bytes
  pl_scratch :: nat
  pl_decoder_stalled :: bool
  pl_phase :: pipeline_phase
  pl_filter_input :: filter_input_mode

type_synonym ('sel, 'c, 'd) drive_result =
  "(('sel, 'c, 'd) pipeline \<times> (archive_error + drive)) option"

definition layer_new :: "filter_id \<Rightarrow> 'sel \<Rightarrow> 'c \<Rightarrow> nat \<Rightarrow> ('sel, 'c) codec_layer" where
  "layer_new flt selection codec capacity =
     \<lparr>cl_filter = flt, cl_selection = selection, cl_codec = codec, cl_state = LayerRunning,
      cl_capacity = capacity, cl_start = 0, cl_available = []\<rparr>"

definition layer_compact :: "('sel, 'c) codec_layer \<Rightarrow> ('sel, 'c) codec_layer" where
  "layer_compact l = l\<lparr>cl_start := 0\<rparr>"

definition pipeline_capacity :: "limits \<Rightarrow> filter_input_mode \<Rightarrow> nat" where
  "pipeline_capacity l mode =
     (let depth = (if mode = Detect then opt_or 64 (filter_depth l) else 0);
          buffers = min (depth + 3) usize_max;
          configured = opt_or usize_max (in_flight_bytes l)
      in if configured = usize_max then BUFFER else min (configured div max buffers 1) BUFFER)"

definition with_filter_mode :: "limits \<Rightarrow> filter_input_mode \<Rightarrow> ('sel, 'c, 'd) pipeline" where
  "with_filter_mode l mode =
     (let capacity0 = pipeline_capacity l mode; capacity = max capacity0 1 in
      \<lparr>pl_limits = l,
       pl_initial_error =
         (if capacity0 < DETECTION_MINIMUM
          then Some (plain_error ErrLimit ''in-flight limit is too small for detection and configured filter depth'')
          else None),
       pl_input_capacity = capacity, pl_input_start = 0, pl_input = [], pl_input_finished = False,
       pl_layers = [], pl_layer_capacity = capacity,
       pl_filter_depth = (if mode = Detect then opt_or 64 (filter_depth l) else 0),
       pl_decoder = None, pl_format = None, pl_forced_format = None, pl_event_data = [],
       pl_scratch = capacity, pl_decoder_stalled = False, pl_phase = PhaseReading,
       pl_filter_input = mode\<rparr>)"

definition force_format :: "('sel, 'c, 'fsel, 'd) providers \<Rightarrow> format_id \<Rightarrow> ('sel, 'c, 'd) pipeline \<Rightarrow>
    archive_error + ('sel, 'c, 'd) pipeline" where
  "force_format P fmt p =
     (case format_capability P fmt of
        CapAvailable c \<Rightarrow>
          if fc_can_decode c \<and> \<not> fc_requires_seek_read c then Inr (p\<lparr>pl_forced_format := Some fmt\<rparr>)
          else if fc_requires_seek_read c
          then Inl (plain_error ErrCapability ''explicit streaming format requires a seekable reader'')
          else Inl (plain_error ErrUnsupported ''explicit streaming format is not readable'')
      | CapDisabled \<Rightarrow> Inl (plain_error ErrCapability ''explicit streaming format is disabled in this build'')
      | CapUnknown \<Rightarrow> Inl (plain_error ErrUnsupported ''explicit streaming format is not registered''))"

definition with_providers :: "limits \<Rightarrow> ('sel, 'c, 'd) pipeline" where
  "with_providers l = with_filter_mode l Detect"

definition with_providers_and_format :: "('sel, 'c, 'fsel, 'd) providers \<Rightarrow> limits \<Rightarrow> format_id \<Rightarrow>
    archive_error + ('sel, 'c, 'd) pipeline" where
  "with_providers_and_format P l fmt = force_format P fmt (with_filter_mode l Detect)"

section \<open>Feeding\<close>

definition feed_capacity :: "('sel, 'c, 'd) pipeline \<Rightarrow> nat" where
  "feed_capacity p = pl_input_capacity p - length (pl_input p)"

definition feed :: "bytes \<Rightarrow> ('sel, 'c, 'd) pipeline \<Rightarrow> ('sel, 'c, 'd) pipeline \<times> (archive_error + nat)" where
  "feed bs p =
     (if pl_input_finished p then (p, Inl (plain_error ErrProtocol ''input supplied after finish_input''))
      else if pl_phase p = PhaseDone
      then (p, Inl (plain_error ErrProtocol ''input supplied after pipeline completion''))
      else
        let p1 = p\<lparr>pl_input_start := 0\<rparr>;
            count = min (length bs) (pl_input_capacity p1 - length (pl_input p1))
        in (p1\<lparr>pl_input := pl_input p1 @ take count bs\<rparr>, Inr count))"

definition finish_input :: "('sel, 'c, 'd) pipeline \<Rightarrow> ('sel, 'c, 'd) pipeline \<times> (archive_error + unit)" where
  "finish_input p =
     (if pl_input_finished p then (p, Inl (plain_error ErrProtocol ''finish_input called more than once''))
      else if pl_phase p = PhaseDone
      then (p, Inl (plain_error ErrProtocol ''finish_input called after pipeline completion''))
      else (p\<lparr>pl_input_finished := True\<rparr>, Inr ()))"

section \<open>Layers\<close>

definition layer_at :: "('sel, 'c, 'd) pipeline \<Rightarrow> nat \<Rightarrow> ('sel, 'c) codec_layer" where
  "layer_at p n = pl_layers p ! n"

definition set_layer :: "nat \<Rightarrow> ('sel, 'c) codec_layer \<Rightarrow> ('sel, 'c, 'd) pipeline \<Rightarrow> ('sel, 'c, 'd) pipeline" where
  "set_layer n l p = p\<lparr>pl_layers := (pl_layers p)[n := l]\<rparr>"

fun source :: "('sel, 'c, 'd) pipeline \<Rightarrow> nat \<Rightarrow> bytes" where
  "source p 0 = pl_input p"
| "source p (Suc n) = cl_available (layer_at p n)"

fun source_finished :: "('sel, 'c, 'd) pipeline \<Rightarrow> nat \<Rightarrow> bool" where
  "source_finished p 0 \<longleftrightarrow> pl_input_finished p \<and> pl_input p = []"
| "source_finished p (Suc n) \<longleftrightarrow> cl_state (layer_at p n) = LayerDone \<and> cl_available (layer_at p n) = []"

definition consume_input :: "nat \<Rightarrow> ('sel, 'c, 'd) pipeline \<Rightarrow> ('sel, 'c, 'd) pipeline" where
  "consume_input count p = p\<lparr>pl_input_start := pl_input_start p + count, pl_input := drop count (pl_input p)\<rparr>"

definition consume_layer :: "nat \<Rightarrow> nat \<Rightarrow> ('sel, 'c, 'd) pipeline \<Rightarrow> ('sel, 'c, 'd) pipeline" where
  "consume_layer n count p =
     (let l = layer_at p n
      in set_layer n (l\<lparr>cl_start := cl_start l + count, cl_available := drop count (cl_available l)\<rparr>) p)"

fun consume_source :: "nat \<Rightarrow> nat \<Rightarrow> ('sel, 'c, 'd) pipeline \<Rightarrow> ('sel, 'c, 'd) pipeline" where
  "consume_source 0 count p = consume_input count p"
| "consume_source (Suc n) count p = consume_layer n count p"

definition set_layer_state :: "nat \<Rightarrow> layer_state \<Rightarrow> ('sel, 'c, 'd) pipeline \<Rightarrow> ('sel, 'c, 'd) pipeline" where
  "set_layer_state n st p = set_layer n ((layer_at p n)\<lparr>cl_state := st\<rparr>) p"

text \<open>The XZ padding between members: zero bytes are consumed one by one and counted.\<close>

fun skip_padding :: "nat \<Rightarrow> bytes \<Rightarrow> nat \<Rightarrow> ('sel, 'c, 'd) pipeline \<Rightarrow> ('sel, 'c, 'd) pipeline \<times> (archive_error + nat)" where
  "skip_padding n [] padding p = (p, Inr padding)"
| "skip_padding n (b # bs) padding p =
     (if b \<noteq> 0 then (p, Inr padding)
      else
        let p1 = consume_source n 1 p in
        case checked_add padding 1 of
          None \<Rightarrow> (p1, Inl (format_error ''xz'' ErrLimit ''XZ padding count overflow''))
        | Some padding1 \<Rightarrow> skip_padding n bs padding1 (set_layer_state n (LayerBetween padding1) p1))"

definition padding_error :: archive_error where
  "padding_error = format_error ''xz'' ErrMalformed ''XZ stream padding is not a multiple of four''"

definition restart_layer :: "('sel, 'c, 'fsel, 'd) providers \<Rightarrow> nat \<Rightarrow> 'sel \<Rightarrow> ('sel, 'c, 'd) pipeline \<Rightarrow>
    ('sel, 'c, 'd) pipeline \<times> (archive_error + drive)" where
  "restart_layer P n selection p =
     (case codec_decoder P selection (pl_limits p) of
        Inl e \<Rightarrow> (p, Inl e)
      | Inr codec \<Rightarrow>
          (set_layer n ((layer_at p n)\<lparr>cl_selection := selection, cl_codec := codec, cl_state := LayerRunning\<rparr>) p,
           Inr DriveReady))"

definition then_ready :: "('sel, 'c, 'd) drive_result \<Rightarrow> (('sel, 'c, 'd) pipeline \<Rightarrow> ('sel, 'c, 'd) drive_result) \<Rightarrow>
    ('sel, 'c, 'd) drive_result" where
  \<comment> \<open>\<open>if matches!(r?, Drive::NeedInput) { return Ok(NeedInput) }\<close>, then go on\<close>
  "then_ready r k =
     Option.bind r (\<lambda>(p, x). case x of Inr DriveReady \<Rightarrow> k p | _ \<Rightarrow> Some (p, x))"

lemma then_ready_mono [partial_function_mono]:
  assumes "mono_option B" and "\<And>y. mono_option (\<lambda>f. C y f)"
  shows "mono_option (\<lambda>f. then_ready (B f) (\<lambda>y. C y f))"
proof -
  have "mono_option (\<lambda>f. case z of (p, x) \<Rightarrow> case x of Inr DriveReady \<Rightarrow> C p f | _ \<Rightarrow> Some (p, x))" for z
  proof (cases "snd z")
    case (Inl e)
    then show ?thesis by (cases z) (auto intro: partial_function_mono)
  next
    case (Inr d)
    then show ?thesis using assms(2) by (cases z; cases d) (auto intro: partial_function_mono)
  qed
  then show ?thesis unfolding then_ready_def using assms(1) by (intro bind_mono)
qed

text \<open>One round of the loop between two members: return, or fill the source and look again.\<close>

datatype ('sel, 'c, 'd) between_action =
    BetweenReturn "('sel, 'c, 'd) pipeline \<times> (archive_error + drive)"
  | BetweenFill nat "('sel, 'c, 'd) pipeline"

definition next_member :: "('sel, 'c, 'fsel, 'd) providers \<Rightarrow> nat \<Rightarrow> filter_id \<Rightarrow> ('sel, 'c, 'd) pipeline \<Rightarrow>
    ('sel, 'c, 'd) between_action" where
  "next_member P n flt p =
     (let trailing = Inl (format_error (filter_name flt) ErrMalformed ''non-member trailing data'') in
      case probe_codec P (source p n) of
        Inl e \<Rightarrow> BetweenReturn (p, Inl e)
      | Inr (ProbeMatch (following, selection)) \<Rightarrow>
          BetweenReturn (if following = flt then restart_layer P n selection p else (p, trailing))
      | Inr (ProbeNeedMore least) \<Rightarrow>
          if \<not> source_finished p n then BetweenFill least p else BetweenReturn (p, trailing)
      | Inr ProbeNoMatch \<Rightarrow> BetweenReturn (p, trailing))"

definition between_round :: "('sel, 'c, 'fsel, 'd) providers \<Rightarrow> nat \<Rightarrow> ('sel, 'c, 'd) pipeline \<Rightarrow>
    ('sel, 'c, 'd) between_action" where
  "between_round P n p =
     (let flt = cl_filter (layer_at p n) in
      case cl_state (layer_at p n) of
        LayerBetween padding0 \<Rightarrow>
          (case (if flt = Xz then skip_padding n (source p n) padding0 p else (p, Inr padding0)) of
             (p1, Inl e) \<Rightarrow> BetweenReturn (p1, Inl e)
           | (p1, Inr padding) \<Rightarrow>
               if source p1 n = [] then
                 (if source_finished p1 n then
                    (if flt = Xz \<and> padding mod 4 \<noteq> 0 then BetweenReturn (p1, Inl padding_error)
                     else BetweenReturn (set_layer_state n LayerDone p1, Inr DriveReady))
                  else BetweenFill 1 p1)
               else if flt = Xz \<and> padding mod 4 \<noteq> 0 then BetweenReturn (p1, Inl padding_error)
               else next_member P n flt p1)
      | _ \<Rightarrow> BetweenReturn (p, Inr DriveReady))"

partial_function (option) drive_between_loop :: "('sel, 'c, 'fsel, 'd) providers \<Rightarrow>
    (nat \<Rightarrow> ('sel, 'c, 'd) pipeline \<Rightarrow> ('sel, 'c, 'd) drive_result) \<Rightarrow> nat \<Rightarrow> ('sel, 'c, 'd) pipeline \<Rightarrow>
    ('sel, 'c, 'd) drive_result" where
  "drive_between_loop P fill n p =
     (case between_round P n p of
        BetweenReturn r \<Rightarrow> Some r
      | BetweenFill least p1 \<Rightarrow> then_ready (fill least p1) (drive_between_loop P fill n))"

definition codec_call :: "('sel, 'c, 'fsel, 'd) providers \<Rightarrow> nat \<Rightarrow> ('sel, 'c, 'd) pipeline \<Rightarrow>
    ('sel, 'c, 'd) pipeline \<times> (archive_error + drive)" where
  "codec_call P n p =
     (let e = (if source_finished p n then End else More); src = source p n; l = layer_at p n;
          free = cl_capacity l - (cl_start l + length (cl_available l))
      in if free = 0
         then (p, Inl (plain_error ErrProtocol ''filter layer exhausted its bounded output buffer''))
         else
           (case codec_process P (cl_codec l) src free e of
              (c, Inl err) \<Rightarrow> (set_layer n (l\<lparr>cl_codec := c\<rparr>) p, Inl err)
            | (c, Inr (stp, out)) \<Rightarrow>
                (case codec_validate stp (length src) free of
                   Inl err \<Rightarrow> (set_layer n (l\<lparr>cl_codec := c\<rparr>) p, Inl err)
                 | Inr stp \<Rightarrow>
                     (consume_source n (cs_consumed stp)
                        (set_layer n
                          (l\<lparr>cl_codec := c, cl_available := cl_available l @ take (cs_produced stp) out,
                             cl_state := (if cs_status stp = CodecDone then LayerBetween 0 else cl_state l)\<rparr>) p),
                      Inr DriveReady))))"

partial_function (option) drive_layer_loop :: "('sel, 'c, 'fsel, 'd) providers \<Rightarrow>
    (nat \<Rightarrow> ('sel, 'c, 'd) pipeline \<Rightarrow> ('sel, 'c, 'd) drive_result) \<Rightarrow> nat \<Rightarrow> nat \<Rightarrow> ('sel, 'c, 'd) pipeline \<Rightarrow>
    ('sel, 'c, 'd) drive_result" where
  "drive_layer_loop P fill n least p =
     (if least \<le> length (cl_available (layer_at p n)) then Some (p, Inr DriveReady)
      else
        let p1 = set_layer n (layer_compact (layer_at p n)) p in
        case cl_state (layer_at p1 n) of
          LayerDone \<Rightarrow> Some (p1, Inr DriveReady)
        | LayerBetween padding \<Rightarrow> then_ready (drive_between_loop P fill n p1) (drive_layer_loop P fill n least)
        | LayerRunning \<Rightarrow>
            then_ready
              (then_ready (if source p1 n = [] \<and> \<not> source_finished p1 n then fill 1 p1 else Some (p1, Inr DriveReady))
                (\<lambda>p2. Some (codec_call P n p2)))
              (drive_layer_loop P fill n least))"

fun fill_source :: "('sel, 'c, 'fsel, 'd) providers \<Rightarrow> nat \<Rightarrow> nat \<Rightarrow> ('sel, 'c, 'd) pipeline \<Rightarrow>
    ('sel, 'c, 'd) drive_result" where
  "fill_source P 0 least p =
     (if least \<le> length (source p 0) \<or> source_finished p 0 then Some (p, Inr DriveReady)
      else Some (p, Inr DriveNeedInput))"
| "fill_source P (Suc n) least p =
     (if least \<le> length (source p (Suc n)) \<or> source_finished p (Suc n) then Some (p, Inr DriveReady)
      else drive_layer_loop P (fill_source P n) n least p)"

definition drive_between_members :: "('sel, 'c, 'fsel, 'd) providers \<Rightarrow> nat \<Rightarrow> ('sel, 'c, 'd) pipeline \<Rightarrow>
    ('sel, 'c, 'd) drive_result" where
  "drive_between_members P n p = drive_between_loop P (fill_source P n) n p"

definition drive_layer :: "('sel, 'c, 'fsel, 'd) providers \<Rightarrow> nat \<Rightarrow> nat \<Rightarrow> ('sel, 'c, 'd) pipeline \<Rightarrow>
    ('sel, 'c, 'd) drive_result" where
  "drive_layer P n least p = drive_layer_loop P (fill_source P n) n least p"

section \<open>The plaintext\<close>

definition plain :: "('sel, 'c, 'd) pipeline \<Rightarrow> bytes" where
  "plain p = source p (length (pl_layers p))"

definition plain_finished :: "('sel, 'c, 'd) pipeline \<Rightarrow> bool" where
  "plain_finished p \<longleftrightarrow> source_finished p (length (pl_layers p))"

definition plain_exhausted :: "('sel, 'c, 'd) pipeline \<Rightarrow> bool" where
  "plain_exhausted p \<longleftrightarrow>
     (if pl_layers p = [] then pl_input_finished p else cl_state (last (pl_layers p)) = LayerDone)"

definition consume_plain :: "nat \<Rightarrow> ('sel, 'c, 'd) pipeline \<Rightarrow> ('sel, 'c, 'd) pipeline" where
  "consume_plain count p = consume_source (length (pl_layers p)) count p"

definition fill_plain :: "('sel, 'c, 'fsel, 'd) providers \<Rightarrow> nat \<Rightarrow> ('sel, 'c, 'd) pipeline \<Rightarrow>
    ('sel, 'c, 'd) drive_result" where
  "fill_plain P least p =
     (if least \<le> length (plain p) \<or> plain_finished p then Some (p, Inr DriveReady)
      else case length (pl_layers p) of
             0 \<Rightarrow> Some (p, Inr DriveNeedInput)
           | Suc n \<Rightarrow> drive_layer P n least p)"

section \<open>Detection\<close>

definition install_decoder :: "('sel, 'c, 'fsel, 'd) providers \<Rightarrow> format_id \<Rightarrow> 'fsel \<Rightarrow> ('sel, 'c, 'd) pipeline \<Rightarrow>
    ('sel, 'c, 'd) pipeline \<times> (archive_error + unit)" where
  "install_decoder P fmt selection p =
     (case format_decoder P selection (pl_limits p) of
        Inl e \<Rightarrow> (p, Inl e)
      | Inr d \<Rightarrow> (p\<lparr>pl_decoder := Some d, pl_format := Some fmt\<rparr>, Inr ()))"

definition install_ready :: "('sel, 'c, 'd) pipeline \<times> (archive_error + unit) \<Rightarrow>
    ('sel, 'c, 'd) pipeline \<times> (archive_error + drive)" where
  "install_ready r = (case r of (p, Inl e) \<Rightarrow> (p, Inl e) | (p, Inr _) \<Rightarrow> (p, Inr DriveReady))"

definition select_and_install :: "('sel, 'c, 'fsel, 'd) providers \<Rightarrow> format_id \<Rightarrow> ('sel, 'c, 'd) pipeline \<Rightarrow>
    ('sel, 'c, 'd) pipeline \<times> (archive_error + drive)" where
  "select_and_install P fmt p =
     (case select_format P fmt of
        Inl e \<Rightarrow> (p, Inl e)
      | Inr selection \<Rightarrow> install_ready (install_decoder P fmt selection p))"

definition install_forced :: "('sel, 'c, 'fsel, 'd) providers \<Rightarrow> format_id \<Rightarrow> ('sel, 'c, 'd) pipeline \<Rightarrow>
    ('sel, 'c, 'd) pipeline \<times> (archive_error + drive)" where
  "install_forced P fmt p =
     (case select_and_install P fmt p of
        (p1, Inl e) \<Rightarrow> (p1, Inl e)
      | (p1, Inr d) \<Rightarrow> (p1\<lparr>pl_forced_format := None\<rparr>, Inr d))"

definition no_format_matched :: "('sel, 'c, 'fsel, 'd) providers \<Rightarrow> ('sel, 'c, 'd) pipeline \<Rightarrow>
    ('sel, 'c, 'd) pipeline \<times> (archive_error + drive)" where
  "no_format_matched P p =
     (if plain_exhausted p \<and> plain p = [] \<and>
         (case format_capability P Empty of CapAvailable _ \<Rightarrow> True | _ \<Rightarrow> False)
      then select_and_install P Empty p
      else if plain_exhausted p \<and> 2 * 512 \<le> length (plain p) \<and> list_all (\<lambda>b. b = 0) (take (2 * 512) (plain p))
      then select_and_install P Tar p
      else (p, Inl (plain_error ErrUnsupported ''no registered sequential archive format matched'')))"

definition depth_error :: archive_error where
  "depth_error = plain_error ErrLimit ''outer filter nesting exceeds configured depth''"

definition push_layer :: "('sel, 'c, 'fsel, 'd) providers \<Rightarrow> filter_id \<Rightarrow> 'sel \<Rightarrow> ('sel, 'c, 'd) pipeline \<Rightarrow>
    ('sel, 'c, 'd) pipeline \<times> (archive_error + drive)" where
  "push_layer P flt selection p =
     (if pl_filter_input p = Predecoded then (p, Inl depth_error)
      else if pl_filter_depth p \<le> length (pl_layers p) then (p, Inl depth_error)
      else (case codec_decoder P selection (pl_limits p) of
              Inl e \<Rightarrow> (p, Inl e)
            | Inr codec \<Rightarrow>
                (p\<lparr>pl_layers := pl_layers p @ [layer_new flt selection codec (pl_layer_capacity p)]\<rparr>,
                 Inr DriveReady)))"

text \<open>One round of the detection loop: return, wait for plaintext, or put a filter layer on top.\<close>

datatype ('sel, 'c, 'd) detect_action =
    DetectReturn "('sel, 'c, 'd) pipeline \<times> (archive_error + drive)"
  | DetectFill nat
  | DetectPush filter_id 'sel

definition detect_format :: "('sel, 'c, 'fsel, 'd) providers \<Rightarrow> ('sel, 'c, 'd) pipeline \<Rightarrow>
    ('sel, 'c, 'd) detect_action" where
  "detect_format P p =
     (case pl_forced_format p of
        Some fmt \<Rightarrow> DetectReturn (install_forced P fmt p)
      | None \<Rightarrow>
          (case probe_format P (plain p) of
             Inl e \<Rightarrow> DetectReturn (p, Inl e)
           | Inr (ProbeMatch (fmt, selection)) \<Rightarrow>
               DetectReturn (install_ready (install_decoder P fmt selection p))
           | Inr (ProbeNeedMore least) \<Rightarrow>
               if \<not> plain_exhausted p then DetectFill least else DetectReturn (no_format_matched P p)
           | Inr ProbeNoMatch \<Rightarrow> DetectReturn (no_format_matched P p)))"

definition detect_round :: "('sel, 'c, 'fsel, 'd) providers \<Rightarrow> ('sel, 'c, 'd) pipeline \<Rightarrow>
    ('sel, 'c, 'd) detect_action" where
  "detect_round P p =
     (if plain p = [] \<and> \<not> plain_finished p then DetectFill 1
      else
        (case probe_codec P (plain p) of
           Inl e \<Rightarrow> DetectReturn (p, Inl e)
         | Inr (ProbeMatch (flt, selection)) \<Rightarrow> DetectPush flt selection
         | Inr (ProbeNeedMore least) \<Rightarrow> if \<not> plain_exhausted p then DetectFill least else detect_format P p
         | Inr ProbeNoMatch \<Rightarrow> detect_format P p))"

partial_function (option) detect_decoder :: "('sel, 'c, 'fsel, 'd) providers \<Rightarrow> ('sel, 'c, 'd) pipeline \<Rightarrow>
    ('sel, 'c, 'd) drive_result" where
  "detect_decoder P p =
     (case detect_round P p of
        DetectReturn r \<Rightarrow> Some r
      | DetectFill least \<Rightarrow> then_ready (fill_plain P least p) (detect_decoder P)
      | DetectPush flt selection \<Rightarrow> then_ready (Some (push_layer P flt selection p)) (detect_decoder P))"

section \<open>Polling\<close>

type_synonym ('sel, 'c, 'd) poll_result =
  "(('sel, 'c, 'd) pipeline \<times> (archive_error + pipeline_event)) option"

definition then_poll :: "('sel, 'c, 'd) drive_result \<Rightarrow> (('sel, 'c, 'd) pipeline \<Rightarrow> ('sel, 'c, 'd) poll_result) \<Rightarrow>
    ('sel, 'c, 'd) poll_result" where
  \<comment> \<open>\<open>if matches!(r?, Drive::NeedInput) { return Ok(PipelineEvent::NeedInput) }\<close>, then go on\<close>
  "then_poll r k =
     Option.bind r (\<lambda>(p, x). case x of
        Inl e \<Rightarrow> Some (p, Inl e)
      | Inr DriveNeedInput \<Rightarrow> Some (p, Inr PipeNeedInput)
      | Inr DriveReady \<Rightarrow> k p)"

lemma then_poll_mono [partial_function_mono]:
  assumes "mono_option B" and "\<And>y. mono_option (\<lambda>f. C y f)"
  shows "mono_option (\<lambda>f. then_poll (B f) (\<lambda>y. C y f))"
proof -
  have "mono_option (\<lambda>f. case z of (p, x) \<Rightarrow> case x of
      Inl e \<Rightarrow> Some (p, Inl e) | Inr DriveNeedInput \<Rightarrow> Some (p, Inr PipeNeedInput) | Inr DriveReady \<Rightarrow> C p f)" for z
  proof (cases "snd z")
    case (Inl e)
    then show ?thesis by (cases z) (auto intro: partial_function_mono)
  next
    case (Inr d)
    then show ?thesis using assms(2) by (cases z; cases d) (auto intro: partial_function_mono)
  qed
  then show ?thesis unfolding then_poll_def using assms(1) by (intro bind_mono)
qed

definition trailing_invalid :: "('sel, 'c, 'd) pipeline \<Rightarrow> bool" where
  "trailing_invalid p \<longleftrightarrow> plain p \<noteq> [] \<and>
     (if pl_format p = Some Tar then list_ex (\<lambda>b. b \<noteq> 0) (plain p) else True)"

partial_function (option) poll_after_archive :: "('sel, 'c, 'fsel, 'd) providers \<Rightarrow> ('sel, 'c, 'd) pipeline \<Rightarrow>
    ('sel, 'c, 'd) poll_result" where
  "poll_after_archive P p =
     (if trailing_invalid p then Some (p, Inl (plain_error ErrMalformed ''invalid trailing archive data''))
      else
        let p1 = (if plain p = [] then p else consume_plain (length (plain p)) p) in
        if plain_finished p1 then Some (p1\<lparr>pl_phase := PhaseDone\<rparr>, Inr PipeDone)
        else then_poll (fill_plain P 1 p1) (poll_after_archive P))"

definition decoder_call :: "('sel, 'c, 'fsel, 'd) providers \<Rightarrow> ('sel, 'c, 'd) pipeline \<Rightarrow>
    ('sel, 'c, 'd) pipeline \<times> (archive_error + decode_step)" where
  "decoder_call P p =
     (case pl_decoder p of
        None \<Rightarrow> (p, Inl (plain_error ErrProtocol ''archive detection completed without a decoder''))
      | Some d \<Rightarrow>
          (case decoder_step P (pl_scratch p) d (plain p) (if plain_finished p then End else More) of
             (d', Inl e) \<Rightarrow> (p\<lparr>pl_decoder := Some d'\<rparr>, Inl e)
           | (d', Inr stp) \<Rightarrow> (p\<lparr>pl_decoder := Some d'\<rparr>, decode_validate stp (length (plain p)) (pl_scratch p))))"

definition settle :: "decode_step \<Rightarrow> ('sel, 'c, 'd) pipeline \<Rightarrow> ('sel, 'c, 'd) pipeline" where
  \<comment> \<open>\<open>consume_plain\<close> and the reset of \<open>decoder_stalled\<close>, with the payload copied out before\<close>
  "settle stp p =
     (let p1 = (case ds_event stp of EvData chunk \<Rightarrow> p\<lparr>pl_event_data := pl_event_data p @ chunk\<rparr> | _ \<Rightarrow> p);
          p2 = consume_plain (ds_consumed stp) p1
      in if ds_consumed stp \<noteq> 0 \<or> ds_event stp \<noteq> EvNeedInput then p2\<lparr>pl_decoder_stalled := False\<rparr> else p2)"

text \<open>
  One decoder call and what follows from it: an event or an error, the end of the archive, another
  round, or a wait for more plaintext than the decoder was shown.
\<close>

datatype ('sel, 'c, 'd) poll_action =
    PollReturn "('sel, 'c, 'd) pipeline \<times> (archive_error + pipeline_event)"
  | PollAfter "('sel, 'c, 'd) pipeline"
  | PollAgain "('sel, 'c, 'd) pipeline"
  | PollLookahead nat "('sel, 'c, 'd) pipeline"

definition decoder_needs_input :: "decode_step \<Rightarrow> nat \<Rightarrow> ('sel, 'c, 'd) pipeline \<Rightarrow> ('sel, 'c, 'd) poll_action" where
  "decoder_needs_input stp seen p =
     (if plain_finished p
      then PollReturn (p, Inl (plain_error ErrMalformed ''archive ended before the decoder reached Done''))
      else if ds_consumed stp = 0 \<and> seen \<noteq> 0 \<and> \<not> pl_decoder_stalled p
      then PollAgain (p\<lparr>pl_decoder_stalled := True\<rparr>)
      else if ds_consumed stp = 0 then
        (case checked_add seen 1 of
           None \<Rightarrow> PollReturn (p, Inl (plain_error ErrLimit ''archive input lookahead overflow''))
         | Some least \<Rightarrow> PollLookahead least p)
      else PollAgain p)"

definition poll_round :: "('sel, 'c, 'fsel, 'd) providers \<Rightarrow> ('sel, 'c, 'd) pipeline \<Rightarrow> ('sel, 'c, 'd) poll_action" where
  "poll_round P p =
     (case decoder_call P p of
        (p1, Inl e) \<Rightarrow> PollReturn (p1, Inl e)
      | (p1, Inr stp) \<Rightarrow>
          (let p2 = settle stp p1 in
           case ds_event stp of
             EvNeedOutput \<Rightarrow>
               PollReturn (p1, Inl (plain_error ErrProtocol ''decoder requested more than the configured output buffer''))
           | EvArchiveMetadata md \<Rightarrow> PollReturn (p2, Inr (PipeArchiveMetadata md))
           | EvEntry md \<Rightarrow> PollReturn (p2, Inr (PipeEntry md))
           | EvData chunk \<Rightarrow> PollReturn (p2, Inr (PipeData (pl_event_data p2)))
           | EvEndEntry \<Rightarrow> PollReturn (p2, Inr PipeEndEntry)
           | EvDone \<Rightarrow> PollAfter (p2\<lparr>pl_phase := PhaseArchiveDone\<rparr>)
           | EvNeedInput \<Rightarrow> decoder_needs_input stp (length (plain p)) p2))"

definition lookahead_capacity :: "('sel, 'c, 'd) drive_result \<Rightarrow> ('sel, 'c, 'd) drive_result" where
  "lookahead_capacity r =
     Option.bind r (\<lambda>(p, x).
       if x = Inr DriveNeedInput \<and> feed_capacity p = 0
       then Some (p, Inl (plain_error ErrProtocol ''archive decoder made a no-progress loop''))
       else Some (p, x))"

partial_function (option) poll_loop :: "('sel, 'c, 'fsel, 'd) providers \<Rightarrow> ('sel, 'c, 'd) pipeline \<Rightarrow>
    ('sel, 'c, 'd) poll_result" where
  "poll_loop P p =
     then_poll
       (then_ready (if pl_decoder p = None then detect_decoder P p else Some (p, Inr DriveReady))
          (\<lambda>p1. if plain p1 = [] \<and> \<not> plain_finished p1 then fill_plain P 1 p1 else Some (p1, Inr DriveReady)))
       (\<lambda>p2. case poll_round P p2 of
          PollReturn r \<Rightarrow> Some r
        | PollAfter p3 \<Rightarrow> poll_after_archive P p3
        | PollAgain p3 \<Rightarrow> poll_loop P p3
        | PollLookahead least p3 \<Rightarrow> then_poll (lookahead_capacity (fill_plain P least p3)) (poll_loop P))"

definition poll_event :: "('sel, 'c, 'fsel, 'd) providers \<Rightarrow> ('sel, 'c, 'd) pipeline \<Rightarrow> ('sel, 'c, 'd) poll_result" where
  "poll_event P p =
     (case pl_initial_error p of
        Some e \<Rightarrow> Some (p\<lparr>pl_initial_error := None\<rparr>, Inl e)
      | None \<Rightarrow>
          if pl_phase p = PhaseDone then Some (p, Inr PipeDone)
          else
            let p1 = p\<lparr>pl_event_data := []\<rparr> in
            if pl_phase p1 = PhaseArchiveDone then poll_after_archive P p1 else poll_loop P p1)"

end
