(* ===== verification/Oxide_Providers.thy ===== *)
theory Oxide_Providers
  imports Oxide_Pipeline Oxide_Empty_Raw Oxide_Warc
begin

text \<open>
  Provider chains: \<open>libarchive_oxide/src/provider.rs\<close> with the rows of
  \<open>libarchive_oxide-core/src/capability.rs\<close> it looks up. A chain of formats and a chain of codecs
  together are the \<open>providers\<close> of the pipeline. The empty chains, a node in front of a chain and
  the built-in formats are modelled; the built-in codecs wrap compression backends and stay a
  parameter. Which Cargo features are compiled in is the argument \<open>enabled\<close>.
\<close>

record ('fsel, 'd) format_chain =
  fch_probe :: "bytes \<Rightarrow> archive_error + (format_id \<times> 'fsel) probe_result"
  fch_capability :: "format_id \<Rightarrow> format_capabilities provider_capability"
  fch_select :: "format_id \<Rightarrow> archive_error + 'fsel"
  fch_decoder :: "'fsel \<Rightarrow> limits \<Rightarrow> archive_error + 'd"
  fch_step :: "nat \<Rightarrow> 'd decoder_step"

record ('sel, 'c) codec_chain =
  cch_probe :: "bytes \<Rightarrow> archive_error + (filter_id \<times> 'sel) probe_result"
  cch_decoder :: "'sel \<Rightarrow> limits \<Rightarrow> archive_error + 'c"
  cch_process :: "'c codec_process"

definition provider_set :: "('fsel, 'd) format_chain \<Rightarrow> ('sel, 'c) codec_chain \<Rightarrow> ('sel, 'c, 'fsel, 'd) providers" where
  "provider_set F C =
     \<lparr>probe_codec = cch_probe C, codec_decoder = cch_decoder C, codec_process = cch_process C,
      probe_format = fch_probe F, format_capability = fch_capability F, select_format = fch_select F,
      format_decoder = fch_decoder F, decoder_step = fch_step F\<rparr>"

section \<open>The ledger\<close>

record ledger_row =
  lr_format :: format_id
  lr_name :: string
  lr_seek_read :: bool
  lr_requirements :: "string list"

abbreviation ledger_entry :: "format_id \<Rightarrow> string \<Rightarrow> bool \<Rightarrow> string list \<Rightarrow> ledger_row" where
  "ledger_entry f name seek reqs \<equiv> \<lparr>lr_format = f, lr_name = name, lr_seek_read = seek, lr_requirements = reqs\<rparr>"

text \<open>The whole-format rows; every one of them can be read.\<close>

definition FORMAT_LEDGER :: "ledger_row list" where
  "FORMAT_LEDGER =
     [ledger_entry Tar ''tar'' False [], ledger_entry Cpio ''cpio'' False [], ledger_entry Ar ''ar'' False [],
      ledger_entry Zip ''zip'' True [], ledger_entry SevenZip ''7z'' True [''sevenz''],
      ledger_entry Iso9660 ''iso9660'' True [], ledger_entry Udf ''udf'' True [], ledger_entry Cab ''cab'' True [],
      ledger_entry Xar ''xar'' True [], ledger_entry Empty ''empty'' False [], ledger_entry Raw ''raw'' False [],
      ledger_entry Warc ''warc'' False []]"

definition ledger_format :: "format_id \<Rightarrow> ledger_row option" where
  "ledger_format fmt = find (\<lambda>r. lr_format r = fmt) FORMAT_LEDGER"

definition format_name :: "format_id \<Rightarrow> string" where
  "format_name fmt = (case ledger_format fmt of None \<Rightarrow> ''unknown'' | Some r \<Rightarrow> lr_name r)"

definition unknown_format :: "format_id \<Rightarrow> archive_error" where
  "unknown_format fmt =
     format_error (format_name fmt) ErrUnsupported ''no registered format provider recognizes the identifier''"

definition disabled_format :: "format_id \<Rightarrow> string \<Rightarrow> string \<Rightarrow> archive_error" where
  "disabled_format fmt provider operation =
     format_error provider ErrCapability
       (''registered provider for '' @ format_name fmt @ '' is compiled without '' @ operation @ '' capability'')"

definition disabled_codec :: "filter_id \<Rightarrow> string \<Rightarrow> string \<Rightarrow> archive_error" where
  "disabled_codec flt provider operation =
     format_error provider ErrCapability
       (''registered provider for '' @ filter_name flt @ '' is compiled without '' @ operation @ '' capability'')"

section \<open>Chains\<close>

datatype 'a provider_selection = SelHead | SelTail 'a

record 'd format_provider =
  fp_format :: format_id
  fp_name :: string
  fp_probe :: "bytes \<Rightarrow> unit probe_result"
  fp_capabilities :: format_capabilities
  fp_available :: bool
  fp_decoder :: "limits \<Rightarrow> archive_error + 'd"
  fp_step :: "nat \<Rightarrow> 'd decoder_step"

record 'c codec_provider =
  cp_filter :: filter_id
  cp_name :: string
  cp_probe :: "bytes \<Rightarrow> unit probe_result"
  cp_can_decode :: bool
  cp_decoder :: "limits \<Rightarrow> archive_error + 'c"
  cp_process :: "'c codec_process"

definition validate_probe :: "'a probe_result \<Rightarrow> nat \<Rightarrow> string \<Rightarrow> archive_error + 'a probe_result" where
  "validate_probe r prefix_len provider =
     (case r of
        ProbeNeedMore least \<Rightarrow>
          if least \<le> prefix_len
          then Inl (format_error provider ErrProtocol ''provider probe requested no additional input'')
          else Inr (ProbeNeedMore least)
      | _ \<Rightarrow> Inr r)"

fun map_tail :: "(32 word \<times> 'a) probe_result \<Rightarrow> (32 word \<times> 'a provider_selection) probe_result" where
  "map_tail (ProbeMatch (i, sel)) = ProbeMatch (i, SelTail sel)"
| "map_tail (ProbeNeedMore least) = ProbeNeedMore least"
| "map_tail ProbeNoMatch = ProbeNoMatch"

fun combine_probes :: "string \<Rightarrow> (32 word \<times> 's) probe_result \<Rightarrow> (32 word \<times> 's) probe_result \<Rightarrow>
    archive_error + (32 word \<times> 's) probe_result" where
  "combine_probes message (ProbeMatch (i, sel)) (ProbeMatch (j, sel')) =
     (if i = j then Inr (ProbeMatch (i, sel)) else Inl (plain_error ErrProtocol message))"
| "combine_probes message (ProbeMatch v) _ = Inr (ProbeMatch v)"
| "combine_probes message ProbeNoMatch (ProbeMatch v) = Inr (ProbeMatch v)"
| "combine_probes message (ProbeNeedMore a) (ProbeNeedMore b) = Inr (ProbeNeedMore (max a b))"
| "combine_probes message (ProbeNeedMore a) _ = Inr (ProbeNeedMore a)"
| "combine_probes message ProbeNoMatch (ProbeNeedMore b) = Inr (ProbeNeedMore b)"
| "combine_probes message ProbeNoMatch ProbeNoMatch = Inr ProbeNoMatch"

fun head_probe :: "32 word \<Rightarrow> unit probe_result \<Rightarrow> (32 word \<times> 'a provider_selection) probe_result" where
  "head_probe i (ProbeMatch _) = ProbeMatch (i, SelHead)"
| "head_probe i (ProbeNeedMore least) = ProbeNeedMore least"
| "head_probe i ProbeNoMatch = ProbeNoMatch"

definition node_probe :: "string \<Rightarrow> 32 word \<Rightarrow> string \<Rightarrow> (bytes \<Rightarrow> unit probe_result) \<Rightarrow>
    (bytes \<Rightarrow> archive_error + (32 word \<times> 'a) probe_result) \<Rightarrow> bytes \<Rightarrow>
    archive_error + (32 word \<times> 'a provider_selection) probe_result" where
  "node_probe message i name probe tail pre =
     bindE (validate_probe (probe pre) (length pre) name) (\<lambda>h.
     bindE (tail pre) (\<lambda>t. combine_probes message (head_probe i h) (map_tail t)))"

fun chained_step :: "('h decoder_step) \<Rightarrow> ('t decoder_step) \<Rightarrow> ('h + 't) decoder_step" where
  "chained_step h t (Inl d) xs e = (case h d xs e of (d', r) \<Rightarrow> (Inl d', r))"
| "chained_step h t (Inr d) xs e = (case t d xs e of (d', r) \<Rightarrow> (Inr d', r))"

fun chained_process :: "'h codec_process \<Rightarrow> 't codec_process \<Rightarrow> ('h + 't) codec_process" where
  "chained_process h t (Inl c) xs n e = (case h c xs n e of (c', r) \<Rightarrow> (Inl c', r))"
| "chained_process h t (Inr c) xs n e = (case t c xs n e of (c', r) \<Rightarrow> (Inr c', r))"

definition format_node :: "'h format_provider \<Rightarrow> ('fsel, 'd) format_chain \<Rightarrow>
    ('fsel provider_selection, 'h + 'd) format_chain" where
  "format_node h t =
     \<lparr>fch_probe = node_probe ''multiple format providers matched the same prefix'' (fp_format h) (fp_name h) (fp_probe h)
        (fch_probe t),
      fch_capability = (\<lambda>fmt. if fp_format h = fmt
        then (if fp_available h then CapAvailable (fp_capabilities h) else CapDisabled) else fch_capability t fmt),
      fch_select = (\<lambda>fmt. if fp_format h = fmt then Inr SelHead else map_sum id SelTail (fch_select t fmt)),
      fch_decoder = (\<lambda>sel l. case sel of
          SelHead \<Rightarrow> if \<not> fc_can_decode (fp_capabilities h)
            then Inl (disabled_format (fp_format h) (fp_name h) ''decode'') else map_sum id Inl (fp_decoder h l)
        | SelTail s \<Rightarrow> map_sum id Inr (fch_decoder t s l)),
      fch_step = (\<lambda>cap. chained_step (fp_step h cap) (fch_step t cap))\<rparr>"

definition codec_node :: "'h codec_provider \<Rightarrow> ('sel, 'c) codec_chain \<Rightarrow>
    ('sel provider_selection, 'h + 'c) codec_chain" where
  "codec_node h t =
     \<lparr>cch_probe = node_probe ''multiple codec providers matched the same prefix'' (cp_filter h) (cp_name h) (cp_probe h)
        (cch_probe t),
      cch_decoder = (\<lambda>sel l. case sel of
          SelHead \<Rightarrow> if \<not> cp_can_decode h
            then Inl (disabled_codec (cp_filter h) (cp_name h) ''decode'') else map_sum id Inl (cp_decoder h l)
        | SelTail s \<Rightarrow> map_sum id Inr (cch_decoder t s l)),
      cch_process = chained_process (cp_process h) (cch_process t)\<rparr>"

text \<open>
  The empty chains. Their selection type has no value in the source, so the decoders below are
  never asked for; \<open>unit\<close> stands for it.
\<close>

definition no_formats :: "(unit, unit) format_chain" where
  "no_formats =
     \<lparr>fch_probe = (\<lambda>_. Inr ProbeNoMatch), fch_capability = (\<lambda>_. CapUnknown),
      fch_select = (\<lambda>fmt. Inl (unknown_format fmt)), fch_decoder = (\<lambda>_ _. Inr ()),
      fch_step = (\<lambda>_ d _ _. (d, Inl (plain_error ErrProtocol ''empty format provider chain created a decoder'')))\<rparr>"

definition no_codecs :: "(unit, unit) codec_chain" where
  "no_codecs =
     \<lparr>cch_probe = (\<lambda>_. Inr ProbeNoMatch), cch_decoder = (\<lambda>_ _. Inr ()),
      cch_process = (\<lambda>c _ _ _. (c, Inl (plain_error ErrProtocol ''empty codec provider chain created a decoder'')))\<rparr>"

section \<open>Built-in formats\<close>

datatype builtin_decoder =
    BuiltinTar tar_decoder
  | BuiltinCpio cpio_decoder
  | BuiltinAr ar_decoder
  | BuiltinEmpty empty_decoder
  | BuiltinRaw raw_decoder
  | BuiltinWarc warc_decoder

text \<open>\<open>z\<close> is the size of an entry record, which the cpio decoder charges for queued entries.\<close>

definition sequential :: "nat \<Rightarrow> format_id \<Rightarrow> limits \<Rightarrow> archive_error + builtin_decoder" where
  "sequential z fmt l =
     (if fmt = Tar then Inr (BuiltinTar (tar_decoder_new l))
      else if fmt = Cpio then Inr (BuiltinCpio (cpio_decoder_new z l))
      else if fmt = Ar then Inr (BuiltinAr (ar_decoder_new l))
      else if fmt = Empty then Inr (BuiltinEmpty empty_new)
      else if fmt = Raw then Inr (BuiltinRaw (raw_with_limits l))
      else if fmt = Warc then Inr (BuiltinWarc (warc_decoder_new l))
      else if fmt = Zip \<or> fmt = SevenZip \<or> fmt = Iso9660 \<or> fmt = Udf
      then Inl (format_error (format_name fmt) ErrCapability ''archive format requires Read + Seek'')
      else Inl (unknown_format fmt))"

fun builtin_step :: "nat \<Rightarrow> builtin_decoder decoder_step" where
  "builtin_step cap (BuiltinTar d) xs e = (case tar_step cap d xs e of (d', r) \<Rightarrow> (BuiltinTar d', r))"
| "builtin_step cap (BuiltinCpio d) xs e = (case cpio_step d xs e of (d', r) \<Rightarrow> (BuiltinCpio d', r))"
| "builtin_step cap (BuiltinAr d) xs e = (case ar_step d xs e of (d', r) \<Rightarrow> (BuiltinAr d', r))"
| "builtin_step cap (BuiltinEmpty d) xs e = (case empty_step d xs e of (d', r) \<Rightarrow> (BuiltinEmpty d', r))"
| "builtin_step cap (BuiltinRaw d) xs e = (case raw_step d xs e of (d', r) \<Rightarrow> (BuiltinRaw d', r))"
| "builtin_step cap (BuiltinWarc d) xs e = (case warc_step d xs e of (d', r) \<Rightarrow> (BuiltinWarc d', r))"

definition builtin_capability :: "(string \<Rightarrow> bool) \<Rightarrow> format_id \<Rightarrow> format_capabilities provider_capability" where
  "builtin_capability enabled fmt =
     (case ledger_format fmt of
        None \<Rightarrow> CapUnknown
      | Some r \<Rightarrow>
          if list_all enabled (lr_requirements r)
          then CapAvailable \<lparr>fc_can_decode = True, fc_requires_seek_read = lr_seek_read r\<rparr> else CapDisabled)"

definition builtin_formats :: "(string \<Rightarrow> bool) \<Rightarrow> nat \<Rightarrow> (format_id, builtin_decoder) format_chain" where
  "builtin_formats enabled z =
     \<lparr>fch_probe = (\<lambda>pre. Inr (case format_probe pre of
          ProbeMatch fmt \<Rightarrow> ProbeMatch (fmt, fmt) | ProbeNeedMore least \<Rightarrow> ProbeNeedMore least | ProbeNoMatch \<Rightarrow> ProbeNoMatch)),
      fch_capability = builtin_capability enabled,
      fch_select = (\<lambda>fmt. if builtin_capability enabled fmt = CapUnknown then Inl (unknown_format fmt) else Inr fmt),
      fch_decoder = (\<lambda>fmt l. if builtin_capability enabled fmt = CapDisabled
        then Inl (disabled_format fmt (format_name fmt) ''decode'') else sequential z fmt l),
      fch_step = builtin_step\<rparr>"

text \<open>The built-in codecs: the probe is the filter probe, the decoders are the parameter.\<close>

definition builtin_codecs :: "(filter_id \<Rightarrow> limits \<Rightarrow> archive_error + 'c) \<Rightarrow> 'c codec_process \<Rightarrow> (filter_id, 'c) codec_chain" where
  "builtin_codecs decoder process =
     \<lparr>cch_probe = (\<lambda>pre. Inr (case filter_probe pre of
          ProbeMatch flt \<Rightarrow> ProbeMatch (flt, flt) | ProbeNeedMore least \<Rightarrow> ProbeNeedMore least | ProbeNoMatch \<Rightarrow> ProbeNoMatch)),
      cch_decoder = decoder, cch_process = process\<rparr>"

section \<open>Probing a chain makes progress\<close>

definition honest :: "(bytes \<Rightarrow> archive_error + 'a probe_result) \<Rightarrow> bool" where
  "honest probe \<longleftrightarrow> (\<forall>pre least. probe pre = Inr (ProbeNeedMore least) \<longrightarrow> length pre < least)"

lemma combine_need_more:
  "combine_probes m h t = Inr (ProbeNeedMore least) \<Longrightarrow> h = ProbeNeedMore least \<or> t = ProbeNeedMore least \<or>
     (\<exists>a b. h = ProbeNeedMore a \<and> t = ProbeNeedMore b \<and> least = max a b)"
  by (cases "(m, h, t)" rule: combine_probes.cases) (auto split: if_splits)

lemma head_tail_need_more:
  "head_probe i h = ProbeNeedMore least \<longleftrightarrow> h = ProbeNeedMore least"
  "map_tail t = ProbeNeedMore least \<longleftrightarrow> t = ProbeNeedMore least"
  by (cases h; simp) (cases t rule: map_tail.cases; simp)

lemma node_probe_honest:
  assumes "honest tail"
  shows "honest (node_probe m i name probe tail)"
  unfolding honest_def
proof (intro allI impI)
  fix pre least
  assume "node_probe m i name probe tail pre = Inr (ProbeNeedMore least)"
  then obtain h t where h: "validate_probe (probe pre) (length pre) name = Inr h" and t: "tail pre = Inr t"
    and c: "combine_probes m (head_probe i h) (map_tail t) = Inr (ProbeNeedMore least)"
    by (auto simp: node_probe_def bindE_Inr_iff)
  have "length pre < a" if "h = ProbeNeedMore a" for a
    using h that by (auto simp: validate_probe_def split: probe_result.splits if_splits)
  moreover have "length pre < b" if "t = ProbeNeedMore b" for b
    using assms t that by (auto simp: honest_def)
  ultimately show "length pre < least"
    using combine_need_more [OF c] by (auto simp: head_tail_need_more)
qed

lemma builtin_honest: "honest (fch_probe (builtin_formats enabled z))" "honest (cch_probe (builtin_codecs dec pr))"
proof -
  have "length pre < least" if "format_probe pre = ProbeNeedMore least" for pre least
    using that format_probe_undecided [of pre]
    by (auto simp: format_probe_magic split: option.splits if_splits)
  then show "honest (fch_probe (builtin_formats enabled z))"
    by (auto simp: honest_def builtin_formats_def split: probe_result.splits)
  have "length pre < least" if "filter_probe pre = ProbeNeedMore least" for pre least
    using table_probe_need_more [OF that [unfolded filter_probe_table]] by metis
  then show "honest (cch_probe (builtin_codecs dec pr))"
    by (auto simp: honest_def builtin_codecs_def split: probe_result.splits)
qed

end
