(* ===== verification/Oxide_Chunk_Sizes.thy ===== *)
theory Oxide_Chunk_Sizes
  imports Oxide_Providers
begin

text \<open>
  How large one chunk of payload can be. The cpio, ar, WARC and raw decoders hand out a part of the
  input they are shown; the tar decoder buffers, but never hands out more than the input it was last
  fed or the output buffer it was given. So no decoder of the built-in formats reports a \<open>Data\<close>
  event longer than the larger of the two, in any state and after any error.
\<close>

section \<open>Decoders that slice their input\<close>

definition slices :: "'d decoder_step \<Rightarrow> bool" where
  "slices step \<longleftrightarrow> (\<forall>d xs e d' stp bs. step d xs e = (d', Inr stp) \<longrightarrow> ds_event stp = EvData bs \<longrightarrow> length bs \<le> length xs)"

lemma empty_slices: "slices empty_step"
  by (auto simp: slices_def empty_step_def split: if_splits)

lemma raw_slices: "slices raw_step"
  by (auto simp: slices_def raw_step_def Let_def bindE_Inr_iff split: raw_phase.splits if_splits)

lemma warc_header_no_data: "warc_header_loop s xs c e = (s', Inr stp) \<Longrightarrow> ds_event stp \<noteq> EvData bs"
  by (induction s xs c e rule: warc_header_loop.induct)
    (auto simp: Let_def split: if_splits sum.splits prod.splits option.splits)

lemma warc_slices: "slices warc_step"
  unfolding slices_def
proof (intro allI impI)
  fix s xs e s' stp bs
  assume "warc_step s xs e = (s', Inr stp)" and "ds_event stp = EvData bs"
  then show "length bs \<le> length xs"
    using warc_header_no_data [of s xs 0 e s' stp bs]
    by (auto simp: warc_step_def warc_step_data_def warc_step_trailer_def warc_step_header_def Let_def
        split: warc_state.splits if_splits option.splits prod.splits)
qed

lemma ar_begin_no_data: "ar_begin_entry s name body padding flds c = (s', Inr stp) \<Longrightarrow> ds_event stp \<noteq> EvData bs"
  by (auto simp: ar_begin_entry_def Let_def split: if_splits sum.splits prod.splits option.splits)

lemma ar_member_no_data: "ar_member s h c = (s', Inr stp) \<Longrightarrow> ds_event stp \<noteq> EvData bs"
  using ar_begin_no_data [of _ _ _ _ _ c s' stp bs]
  by (auto simp: ar_member_def Let_def split: if_splits sum.splits prod.splits option.splits)

lemma ar_header_no_data: "ar_step_header s xs c e = (s', Inr stp) \<Longrightarrow> ds_event stp \<noteq> EvData bs"
  using ar_member_no_data [of _ _ _ s' stp bs]
  by (auto simp: ar_step_header_def Let_def split: if_splits prod.splits)

lemma ar_slices: "slices ar_step"
  unfolding slices_def
proof (intro allI impI)
  fix s xs e s' stp bs
  assume "ar_step s xs e = (s', Inr stp)" and "ds_event stp = EvData bs"
  then show "length bs \<le> length xs"
    by (auto dest: ar_header_no_data ar_begin_no_data simp: ar_step_def ar_step_data_def ar_step_end_entry_def ar_step_special_def ar_step_bsd_name_def
        ar_step_magic_def Let_def split: ar_decoder_state.splits if_splits option.splits prod.splits)
qed

lemma pop_queued_no_data: "pop_queued s c = Some (s', stp) \<Longrightarrow> ds_event stp \<noteq> EvData bs"
proof -
  assume "pop_queued s c = Some (s', stp)"
  then obtain ev where "ds_event stp = queued_decode_event ev" by (auto simp: pop_queued_def split: list.splits)
  then show ?thesis by (cases ev) simp_all
qed

lemma add_consumed_event: "add_consumed k r = (s', Inr stp) \<Longrightarrow> \<exists>d. r = (s', Inr d) \<and> ds_event d = ds_event stp"
  by (auto simp: add_consumed_def bindE_Inr_iff split: prod.splits sum.splits)

lemma cpio_step_slice: "cpio_step s xs e = (s', Inr stp) \<Longrightarrow> ds_event stp = EvData bs \<Longrightarrow> length bs \<le> length xs"
proof (induction s xs e arbitrary: s' stp rule: cpio_step.induct)
  case (1 s xs e)
  note res = "1.prems"(1) [unfolded cpio_step.simps [of s]]
  show ?case
  proof (cases "if cd_state s = CpHeader \<or> cd_state s = CpDone then pop_queued s 0 else None")
    case (Some q)
    with res "1.prems"(2) pop_queued_no_data [of s 0 s' stp bs] show ?thesis by (cases q) (auto split: if_splits)
  next
    case None
    show ?thesis
    proof (cases "cd_state s")
      case (CpData remaining padding expected actual emit_end)
      then show ?thesis
        using res "1.prems"(2) "1.IH"(2) [OF None CpData]
        by (auto simp: cpio_step_data_def Let_def split: if_splits option.splits)
    next
      case (CpEndEntry padding expected actual emit_end)
      then show ?thesis
        using res "1.prems"(2) "1.IH"(3) [OF None CpEndEntry]
        by (fastforce simp: Let_def dest!: add_consumed_event split: if_splits)
    next
      case CpHeader
      have again: "length bs \<le> length xs"
        if f: "fill_header s xs 0 e = (s1, Inr (c, True))" and b: "cpio_begin s1 = (s2, Inr (Some None))"
          and r: "add_consumed c (cpio_step s2 (drop c xs) e) = (s', Inr stp)" for s1 c s2
      proof -
        obtain d where "cpio_step s2 (drop c xs) e = (s', Inr d)" "ds_event d = EvData bs"
          using add_consumed_event [OF r] "1.prems"(2) by auto
        from "1.IH"(1) [OF None CpHeader f [symmetric] refl refl _ b [symmetric] refl refl refl this] show ?thesis by simp
      qed
      from res CpHeader None "1.prems"(2) pop_queued_no_data show ?thesis
        by (auto intro: again split: if_splits prod.splits sum.splits option.splits)
    next
      case CpDone
      with res None "1.prems"(2) show ?thesis by (auto split: if_splits)
    qed
  qed
qed

lemma cpio_slices: "slices cpio_step"
  using cpio_step_slice by (auto simp: slices_def)

section \<open>The tar decoder\<close>

text \<open>
  What a tar state holds back at most before it can go on: headers and sparse extension blocks are
  read whole, records and payload byte by byte. A source fits \<open>k\<close> when no more than \<open>k\<close> bytes can
  reach a payload without being fed first.
\<close>

fun withheld :: "tar_state \<Rightarrow> nat" where
  "withheld TarHeader = 511"
| "withheld (TarSparseExtensions _ _) = 511"
| "withheld _ = 0"

definition source_fits :: "nat \<Rightarrow> tar_source \<Rightarrow> bool" where
  "source_fits k s \<longleftrightarrow> src_state s = TarDone \<or> src_available s \<le> k + withheld (src_state s)"

text \<open>A payload that may not be read although there is some.\<close>

definition blocked :: "tar_source \<Rightarrow> bool" where
  "blocked s \<longleftrightarrow> (\<exists>r pad. src_state s = TarPayload r pad \<and> 0 < r) \<and> 0 < src_available s"

lemma available_cong: "src_buf s' = src_buf s \<Longrightarrow> src_cursor s' = src_cursor s + n \<Longrightarrow> src_available s' = src_available s - n"
  by (simp add: src_available_def)

lemma entry_header_fits:
  assumes "poll_entry_header s hdr = (s', r)" and "src_state s = TarHeader" and "source_fits k s"
  shows "source_fits k s'" "payload_chunk_limit s' = 0 \<Longrightarrow> payload_chunk_limit s = 0" "r \<noteq> Inr PollNeedInput" "r \<noteq> Inr PollData"
  using assms
  by (auto simp: poll_entry_header_def stage_header_metadata_def stage_gnu_sparse_def Let_def source_fits_def src_available_def
      u64_max_def BLOCK_def split: sum.splits prod.splits if_splits)

lemma poll_fits:
  assumes "poll s = (s', r)" and "source_fits k s"
  shows "source_fits k s'" "payload_chunk_limit s' = 0 \<Longrightarrow> payload_chunk_limit s = 0"
    "r = Inr PollNeedInput \<Longrightarrow> source_fits 0 s' \<or> payload_chunk_limit s' = 0 \<and> blocked s'"
    "r = Inr PollData \<Longrightarrow> stage_len s' \<le> k"
proof -
  have "source_fits k s' \<and> (payload_chunk_limit s' = 0 \<longrightarrow> payload_chunk_limit s = 0) \<and>
    (r = Inr PollNeedInput \<longrightarrow> source_fits 0 s' \<or> payload_chunk_limit s' = 0 \<and> blocked s') \<and>
    (r = Inr PollData \<longrightarrow> stage_len s' \<le> k)"
  proof (cases "src_state s")
    case TarHeader
    then show ?thesis
      using assms entry_header_fits [of s "src_window s" s' r k]
      by (auto simp: poll_def poll_header_def poll_meta_header_def Let_def source_fits_def src_available_def BLOCK_def
          split: if_splits sum.splits)
  next
    case (TarPayload rem pad)
    then show ?thesis
      using assms
      by (auto simp: poll_def poll_payload_def starved_def Let_def source_fits_def src_available_def blocked_def
          tar_usize_of_def split: if_splits sum.splits)
  next
    case (TarMeta kind data pad)
    then show ?thesis
      using assms
      by (auto simp: poll_def poll_meta_def starved_def Let_def source_fits_def src_available_def apply_record_def
          split: if_splits sum.splits meta_kind.splits)
  next
    case (TarSparseExtensions rem pad)
    then show ?thesis
      using assms
      by (auto simp: poll_def poll_sparse_extension_def starved_def Let_def source_fits_def src_available_def BLOCK_def
          split: if_splits sum.splits)
  next
    case TarDone
    then show ?thesis using assms by (auto simp: poll_def source_fits_def)
  qed
  then show "source_fits k s'" "payload_chunk_limit s' = 0 \<Longrightarrow> payload_chunk_limit s = 0"
    "r = Inr PollNeedInput \<Longrightarrow> source_fits 0 s' \<or> payload_chunk_limit s' = 0 \<and> blocked s'"
    "r = Inr PollData \<Longrightarrow> stage_len s' \<le> k" by blast+
qed

lemma pull_loop_fits:
  assumes "pull_loop s = (s', r)" and "source_fits k s"
  shows "source_fits k s' \<and>
    (r = Inr SrcNeedInput \<longrightarrow> source_fits 0 s' \<or> payload_chunk_limit s = 0 \<and> blocked s') \<and>
    (\<forall>bs. r = Inr (SrcData bs) \<longrightarrow> length bs \<le> k)"
  using assms
proof (induction s arbitrary: s' r rule: pull_loop.induct)
  case (1 s)
  show ?case
  proof (cases "global_changed s")
    case True
    with "1.prems" show ?thesis
      by (auto simp: pull_loop.simps [of s] take_global_metadata_def source_fits_def src_available_def)
  next
    case False
    obtain s1 q where q: "poll s = (s1, q)" by fastforce
    note fits = poll_fits [OF q "1.prems"(2)]
    show ?thesis
    proof (cases "q = Inr PollContinue")
      case True
      with False q "1.prems"(1) have "pull_loop s1 = (s', r)" by (simp add: pull_loop.simps [of s])
      from "1.IH" [OF False q [unfolded True, symmetric] refl refl this fits(1)] fits(2) show ?thesis by blast
    next
      case go: False
      have "(case q of Inl e \<Rightarrow> (s1, Inl e) | Inr PollContinue \<Rightarrow> pull_loop s1 | Inr PollNeedInput \<Rightarrow> (s1, Inr SrcNeedInput)
          | Inr PollDone \<Rightarrow> (s1, Inr SrcDone) | Inr PollEndEntry \<Rightarrow> (s1, Inr SrcEndEntry)
          | Inr PollEntry \<Rightarrow> (s1, staged_entry s1) | Inr PollData \<Rightarrow> (s1, Inr (staged_data s1))) = (s', r)"
        using False q "1.prems"(1) by (simp add: pull_loop.simps [of s])
      with go fits show ?thesis
        by (auto simp: staged_data_def slice_def staged_entry_def bindE_Inr_iff
            split: sum.splits poll_result.splits tar_state.splits)
    qed
  qed
qed

lemma pull_fits:
  assumes "pull_v2 s = (s', r)" and "source_fits k s"
  shows "source_fits k s'" "r = Inr SrcNeedInput \<Longrightarrow> source_fits 0 s' \<or> payload_chunk_limit s = 0 \<and> blocked s'"
    "r = Inr (SrcData bs) \<Longrightarrow> length bs \<le> k"
proof -
  have "source_fits k (src_compact s)" "payload_chunk_limit (src_compact s) = payload_chunk_limit s"
    using assms(2) by (auto simp: src_compact_def source_fits_def src_available_def)
  with pull_loop_fits [OF assms(1) [unfolded pull_v2_def]]
  show "source_fits k s'" "r = Inr SrcNeedInput \<Longrightarrow> source_fits 0 s' \<or> payload_chunk_limit s = 0 \<and> blocked s'"
    "r = Inr (SrcData bs) \<Longrightarrow> length bs \<le> k" by auto
qed

text \<open>
  The chunk limit is 0 only when the extent at hand ends before the current position. Then it stays
  0: the decoder asks for input for ever and hands out nothing.
\<close>

definition pinned :: "tar_decoder \<Rightarrow> bool" where
  "pinned s \<longleftrightarrow> td_sparse_active s \<and>
     (\<exists>e end. extent_at (advance_extents s) = Some e \<and> checked_add (se_offset e) (se_length e) = Some end \<and>
        end \<le> td_logical_position s \<and> se_offset e \<le> td_logical_position s)"

definition stuck :: "tar_decoder \<Rightarrow> bool" where
  "stuck s \<longleftrightarrow> pinned s \<and> blocked (td_source s)"

lemma skip_extents_again:
  "i \<le> skip_extents es i pos" "skip_extents (drop (skip_extents es i pos - i) es) (skip_extents es i pos) pos = skip_extents es i pos"
proof (induction es arbitrary: i)
  case (Cons e es)
  { case 1 show ?case using Cons.IH(1) [of "i + 1"] by auto }
  { case 2 show ?case
      using Cons.IH [of "i + 1"] by (auto simp: Suc_diff_le drop_Cons' split: if_splits) }
qed simp_all

lemma advance_twice: "advance_extents (advance_extents s) = advance_extents s"
  using skip_extents_again [where es = "drop (td_sparse_index s) (td_sparse s)" and i = "td_sparse_index s" and pos = "td_logical_position s"]
  by (simp add: advance_extents_def)

lemma pinned_cong:
  "td_sparse_active s' = td_sparse_active s \<Longrightarrow> td_sparse s' = td_sparse s \<Longrightarrow> td_sparse_index s' = td_sparse_index s \<Longrightarrow>
   td_logical_position s' = td_logical_position s \<Longrightarrow> pinned s' = pinned s"
  by (simp add: pinned_def extent_at_def advance_extents_def)

lemma pinned_frame [simp]:
  "pinned (s\<lparr>td_source := src\<rparr>) = pinned s" "pinned (s\<lparr>td_needs_input := b\<rparr>) = pinned s"
  "pinned (s\<lparr>td_input_finished := b\<rparr>) = pinned s" "pinned (limit_chunk n s) = pinned s"
  by (rule pinned_cong; simp add: limit_chunk_def)+

lemma pinned_advance [simp]: "pinned (advance_extents s) = pinned s"
proof -
  have "td_sparse_active (advance_extents s) = td_sparse_active s" by (simp add: advance_extents_def)
  then show ?thesis by (simp add: pinned_def advance_twice)
qed

lemma blocked_frame [simp]: "blocked (td_source (limit_chunk n s)) = blocked (td_source s)"
  by (simp add: limit_chunk_def set_payload_chunk_limit_def blocked_def src_available_def)

lemma source_fits_frame [simp]: "source_fits k (td_source (limit_chunk n s)) = source_fits k (td_source s)"
  by (simp add: limit_chunk_def set_payload_chunk_limit_def source_fits_def src_available_def)

lemma pinned_hole: "pinned s \<Longrightarrow> sparse_hole s cap = (limit_chunk 0 (advance_extents s), Inr None)"
  by (auto simp: pinned_def sparse_hole_def Let_def split: option.split)

lemma hole_none:
  assumes "sparse_hole s cap = (s', Inr None)"
  obtains n t where "s' = limit_chunk n t" "t = s \<or> t = advance_extents s" "n = 0 \<Longrightarrow> pinned s"
proof (cases "td_sparse_active s")
  case False
  with assms show thesis by (intro that [of usize_max s]) (auto simp: sparse_hole_def u64_max_def)
next
  case True
  let ?t = "advance_extents s"
  show thesis
  proof (cases "extent_at ?t")
    case None
    with True assms show thesis
      by (intro that [of usize_max ?t]) (auto simp: sparse_hole_def Let_def u64_max_def split: if_splits prod.splits sum.splits)
  next
    case (Some e)
    with True assms obtain f where f: "checked_add (se_offset e) (se_length e) = Some f" "\<not> td_logical_position s < se_offset e"
      "s' = limit_chunk (min (f - td_logical_position s) usize_max) ?t"
      by (auto simp: sparse_hole_def Let_def split: if_splits prod.splits sum.splits option.splits)
    show thesis
      by (rule that [OF f(3)]) (use True Some f(1,2) in \<open>auto simp: pinned_def u64_max_def min_def split: if_splits\<close>)
  qed
qed

lemma hole_other:
  assumes "sparse_hole s cap = (s', r)" and "r \<noteq> Inr None"
  shows "td_source s' = td_source s" "td_needs_input s' = td_needs_input s"
    "r = Inr (Some d) \<Longrightarrow> ds_event d = EvData bs \<Longrightarrow> length bs \<le> cap"
  using assms
  by (auto simp: sparse_hole_def Let_def account_data_def split: if_splits prod.splits sum.splits option.splits)

lemma pull_blocked:
  assumes "pull_v2 s = (s', r)" and "blocked s" and "payload_chunk_limit s = 0"
  shows "blocked s'" "(\<exists>e. r = Inl e) \<or> r = Inr SrcNeedInput \<or> (\<exists>md. r = Inr (SrcArchiveMetadata md))"
proof -
  let ?c = "src_compact s"
  have c: "blocked ?c" "payload_chunk_limit ?c = 0"
    using assms(2,3) by (auto simp: src_compact_def blocked_def src_available_def)
  then have "fst (poll ?c) = ?c \<and> ((\<exists>e. snd (poll ?c) = Inl e) \<or> snd (poll ?c) = Inr PollNeedInput)"
    by (auto simp: poll_def poll_payload_def blocked_def Let_def split: sum.split)
  then obtain q where q: "poll ?c = (?c, q)" "(\<exists>e. q = Inl e) \<or> q = Inr PollNeedInput"
    by (metis prod.collapse)
  have "blocked s' \<and> ((\<exists>e. r = Inl e) \<or> r = Inr SrcNeedInput \<or> (\<exists>md. r = Inr (SrcArchiveMetadata md)))"
    using assms(1) [unfolded pull_v2_def, unfolded pull_loop.simps [of ?c]] c(1) q
    by (cases "global_changed ?c") (auto simp: take_global_metadata_def blocked_def src_available_def)
  then show "blocked s'" "(\<exists>e. r = Inl e) \<or> r = Inr SrcNeedInput \<or> (\<exists>md. r = Inr (SrcArchiveMetadata md))" by blast+
qed

lemma event_frame:
  assumes "tar_event s ev = (s', r)"
  shows "td_source s' = td_source s" "ev \<noteq> SrcNeedInput \<Longrightarrow> td_needs_input s' = td_needs_input s"
    "ev = SrcArchiveMetadata md \<Longrightarrow> s' = s"
    "ev = SrcNeedInput \<Longrightarrow> s' = s\<lparr>td_needs_input := True\<rparr>"
    "r = Inr (EvData bs) \<Longrightarrow> ev = SrcData bs"
  using assms
  by (auto simp: tar_event_def tar_entry_def tar_data_def account_data_def Let_def
      split: tar_source_event.splits if_splits sum.splits prod.splits option.splits)

definition tar_small :: "nat \<Rightarrow> tar_decoder \<Rightarrow> bool" where
  "tar_small cap s \<longleftrightarrow> stuck s \<or> source_fits (if td_needs_input s then 0 else cap) (td_source s)"

lemma tar_new_small: "tar_small cap (tar_decoder_new l)"
  by (simp add: tar_small_def tar_decoder_new_def tar_source_new_def source_fits_def src_available_def)

text \<open>Feeding a decoder that asked for input.\<close>

lemma feed_small:
  assumes "tar_feed s xs = (s', r)" and "tar_small cap s" and "length xs \<le> cap"
  shows "tar_small cap s'" "pinned s' = pinned s" "payload_chunk_limit (td_source s') = payload_chunk_limit (td_source s)"
    "stuck s \<Longrightarrow> stuck s'"
proof -
  obtain c where c: "c \<le> length xs" "s' = s \<or> td_needs_input s \<and> s' = s\<lparr>td_source := (td_source s)\<lparr>src_buf := src_buf (td_source s) @ take c xs\<rparr>, td_needs_input := False\<rparr>"
  proof -
    define k where "k = (case in_flight_bytes (td_limits s) of None \<Rightarrow> length xs
      | Some l \<Rightarrow> min (l - buffered_len (td_source s)) (length xs))"
    have "k \<le> length xs" by (auto simp: k_def split: option.splits)
    with assms(1) show thesis
      unfolding tar_feed_def k_def [symmetric] Let_def src_feed_def
      by (intro that [of k]) (auto split: if_splits)
  qed
  show "pinned s' = pinned s" "payload_chunk_limit (td_source s') = payload_chunk_limit (td_source s)" using c(2) by auto
  show stuck: "stuck s'" if "stuck s"
    using that c(2) by (auto simp: stuck_def blocked_def src_available_def)
  show "tar_small cap s'"
    using c assms(2,3) stuck by (auto simp: tar_small_def source_fits_def src_available_def)
qed

definition small_result :: "nat \<Rightarrow> tar_decoder \<times> (archive_error + decode_step) \<Rightarrow> bool" where
  "small_result cap q \<longleftrightarrow> tar_small cap (fst q) \<and>
     (\<forall>stp bs. snd q = Inr stp \<longrightarrow> ds_event stp = EvData bs \<longrightarrow> length bs \<le> cap)"

lemma pull_small:
  assumes "tar_small cap s" and limit: "payload_chunk_limit (td_source s) = 0 \<longleftrightarrow> pinned s"
  shows "small_result cap (tar_pull s c)"
proof -
  obtain src x where p: "pull_v2 (td_source s) = (src, x)" by fastforce
  let ?s = "s\<lparr>td_source := src\<rparr>"
  have calm: "tar_small cap ?s \<and> (x = Inr SrcNeedInput \<longrightarrow> tar_small cap (?s\<lparr>td_needs_input := True\<rparr>)) \<and>
      (\<forall>bs. x = Inr (SrcData bs) \<longrightarrow> length bs \<le> cap) \<and>
      (source_fits (if td_needs_input s then 0 else cap) src \<or>
        (\<exists>e. x = Inl e) \<or> x = Inr SrcNeedInput \<or> (\<exists>md. x = Inr (SrcArchiveMetadata md)))"
  proof (cases "stuck s")
    case True
    then have "blocked (td_source s)" "payload_chunk_limit (td_source s) = 0" using limit by (simp_all add: stuck_def)
    note b = pull_blocked [OF p this]
    from b(1) True have "stuck ?s" "stuck (?s\<lparr>td_needs_input := True\<rparr>)" by (simp_all add: stuck_def)
    with b(2) show ?thesis by (auto simp: tar_small_def)
  next
    case False
    then have "source_fits (if td_needs_input s then 0 else cap) (td_source s)" using assms(1) by (simp add: tar_small_def)
    note f = pull_fits [OF p this]
    have "tar_small cap (?s\<lparr>td_needs_input := True\<rparr>)" if "x = Inr SrcNeedInput"
      using f(2) [OF that] limit by (auto simp: tar_small_def stuck_def)
    moreover have "length bs \<le> cap" if "x = Inr (SrcData bs)" for bs using f(3) [OF that] by (auto split: if_splits)
    ultimately show ?thesis using f(1) False by (auto simp: tar_small_def)
  qed
  show ?thesis
  proof (cases x)
    case (Inl e)
    with calm p show ?thesis by (simp add: small_result_def tar_pull_def)
  next
    case (Inr ev)
    obtain s' y where e: "tar_event ?s ev = (s', y)" by fastforce
    note fr = event_frame [OF e]
    have "tar_small cap s'"
    proof (cases "ev = SrcNeedInput")
      case True
      with fr(4) calm Inr show ?thesis by simp
    next
      case False
      then show ?thesis using fr(1-3) calm Inr by (auto simp: tar_small_def)
    qed
    moreover have "length bs \<le> cap" if "y = Inr (EvData bs)" for bs using fr(5) [OF that] calm Inr by simp
    ultimately show ?thesis using p Inr e by (auto simp: small_result_def tar_pull_def split: sum.splits)
  qed
qed

theorem tar_step_small:
  assumes "tar_small cap s" and "length xs \<le> cap"
  shows "small_result cap (tar_step cap s xs e)"
proof -
  obtain s1 x where h: "sparse_hole s cap = (s1, x)" by fastforce
  have rest: "small_result cap (case sparse_hole s cap of
           (s1, Inl e) \<Rightarrow> (s1, Inl e)
         | (s1, Inr (Some d)) \<Rightarrow> (s1, Inr d)
         | (s1, Inr None) \<Rightarrow>
             (case tar_feed s1 xs of
                (s2, Inl e) \<Rightarrow> (s2, Inl e)
              | (s2, Inr consumed) \<Rightarrow>
                  let s3 = (if e = End \<and> consumed = length xs \<and> \<not> td_input_finished s2
                            then s2\<lparr>td_source := Oxide_Tar_Source.finish_input (td_source s2), td_input_finished := True\<rparr>
                            else s2) in
                  tar_pull s3 consumed))"
  proof (cases "x = Inr None")
    case False
    then have "\<not> stuck s" using h pinned_hole [of s cap] by (auto simp: stuck_def)
    then have "tar_small cap s1" using hole_other(1,2) [OF h False] assms(1) by (simp add: tar_small_def)
    then show ?thesis
      using False hole_other(3) [OF h False] by (auto simp: h small_result_def split: sum.splits option.splits)
  next
    case True
    with h obtain n t where t: "s1 = limit_chunk n t" "t = s \<or> t = advance_extents s" "n = 0 \<Longrightarrow> pinned s"
      by (metis hole_none)
    have n: "n = 0" if "pinned s"
      using pinned_hole [OF that, of cap] h t(1) by (auto simp: limit_chunk_def set_payload_chunk_limit_def advance_extents_def dest!: arg_cong [where f = "\<lambda>d. payload_chunk_limit (td_source d)"])
    have s1: "tar_small cap s1" using assms(1) t(1,2) by (auto simp: tar_small_def stuck_def)
    have lim: "payload_chunk_limit (td_source s1) = 0 \<longleftrightarrow> pinned s1"
      using t n by (auto simp: limit_chunk_def set_payload_chunk_limit_def)
    obtain s2 y where f: "tar_feed s1 xs = (s2, y)" by fastforce
    note fed = feed_small [OF f s1 assms(2)]
    have "small_result cap (tar_pull s3 c)"
      if "s3 = s2 \<or> s3 = s2\<lparr>td_source := Oxide_Tar_Source.finish_input (td_source s2), td_input_finished := True\<rparr>" for s3 c
    proof (rule pull_small)
      show "tar_small cap s3"
        using that fed(1) by (auto simp: tar_small_def stuck_def blocked_def source_fits_def src_available_def Oxide_Tar_Source.finish_input_def)
      show "payload_chunk_limit (td_source s3) = 0 \<longleftrightarrow> pinned s3"
        using that fed(2,3) lim by (auto simp: Oxide_Tar_Source.finish_input_def)
    qed
    then show ?thesis
      using True fed(1) by (auto simp: h f Let_def small_result_def split: sum.splits)
  qed
  show ?thesis
    unfolding tar_step_def using rest assms(1) by (auto simp: small_result_def)
qed

section \<open>The built-in formats\<close>

fun builtin_small :: "nat \<Rightarrow> builtin_decoder \<Rightarrow> bool" where
  "builtin_small cap (BuiltinTar d) = tar_small cap d"
| "builtin_small cap _ = True"

lemma sequential_small: "sequential z fmt l = Inr d \<Longrightarrow> builtin_small cap d"
  by (auto simp: sequential_def tar_new_small split: if_splits)

lemma slices_at: "slices step \<Longrightarrow> step d xs e = (d', Inr stp) \<Longrightarrow> ds_event stp = EvData bs \<Longrightarrow> length xs \<le> cap \<Longrightarrow> length bs \<le> cap"
  by (fastforce simp: slices_def)

lemma builtin_step_small:
  assumes "builtin_step cap d xs e = (d', r)" and "builtin_small cap d" and "length xs \<le> cap"
  shows "builtin_small cap d'" "r = Inr stp \<Longrightarrow> ds_event stp = EvData bs \<Longrightarrow> length bs \<le> cap"
proof -
  have "builtin_small cap d' \<and> (\<forall>stp bs. r = Inr stp \<longrightarrow> ds_event stp = EvData bs \<longrightarrow> length bs \<le> cap)"
  proof (cases d)
    case (BuiltinTar t)
    with assms tar_step_small [of cap t xs e] show ?thesis by (auto simp: small_result_def split: prod.splits)
  next
    case (BuiltinCpio t)
    with assms slices_at [OF cpio_slices, of t xs e] show ?thesis by (auto split: prod.splits)
  next
    case (BuiltinAr t)
    with assms slices_at [OF ar_slices, of t xs e] show ?thesis by (auto split: prod.splits)
  next
    case (BuiltinEmpty t)
    with assms slices_at [OF empty_slices, of t xs e] show ?thesis by (auto split: prod.splits)
  next
    case (BuiltinRaw t)
    with assms slices_at [OF raw_slices, of t xs e] show ?thesis by (auto split: prod.splits)
  next
    case (BuiltinWarc t)
    with assms slices_at [OF warc_slices, of t xs e] show ?thesis by (auto split: prod.splits)
  qed
  then show "builtin_small cap d'" "r = Inr stp \<Longrightarrow> ds_event stp = EvData bs \<Longrightarrow> length bs \<le> cap" by blast+
qed

end
