(* ===== verification/Oxide_Pipeline_Safety.thy ===== *)
theory Oxide_Pipeline_Safety
  imports Oxide_Chunk_Sizes
begin

text \<open>
  What the pipeline promises for every provider set: the memory it holds stays within the
  in-flight budget, whatever codecs and decoders do and in whatever order the caller feeds and
  polls. The payload copied out for the caller is bounded too, as long as the decoders keep to the
  chunk sizes of \<open>Oxide_Chunk_Sizes\<close>. And a state in which it does not do what it should: a filter member followed by the
  beginning of another one inside an outer filter makes it spin.
\<close>

section \<open>Buffers stay inside their capacity\<close>

text \<open>
  \<open>Q\<close> is what is known of the payload copied out for the caller and of the decoder, which the filter
  layers do not touch.
\<close>

definition within :: "(bytes \<Rightarrow> 'd option \<Rightarrow> bool) \<Rightarrow> nat \<Rightarrow> nat \<Rightarrow> nat \<Rightarrow> ('sel, 'c, 'd) pipeline \<Rightarrow> bool" where
  "within Q cap depth k p \<longleftrightarrow>
     pl_input_capacity p = cap \<and> pl_layer_capacity p = cap \<and> pl_scratch p = cap \<and> pl_filter_depth p = depth \<and>
     pl_input_start p + length (pl_input p) \<le> cap \<and> length (pl_layers p) = k \<and> k \<le> depth \<and>
     Q (pl_event_data p) (pl_decoder p) \<and> list_all (\<lambda>l. cl_capacity l = cap \<and> cl_start l + length (cl_available l) \<le> cap) (pl_layers p)"

definition layer_fits :: "nat \<Rightarrow> ('sel, 'c) codec_layer \<Rightarrow> bool" where
  "layer_fits cap l \<longleftrightarrow> cl_capacity l = cap \<and> cl_start l + length (cl_available l) \<le> cap"

lemma within_alt:
  "within Q cap depth k p \<longleftrightarrow>
     pl_input_capacity p = cap \<and> pl_layer_capacity p = cap \<and> pl_scratch p = cap \<and> pl_filter_depth p = depth \<and>
     pl_input_start p + length (pl_input p) \<le> cap \<and> length (pl_layers p) = k \<and> k \<le> depth \<and>
     Q (pl_event_data p) (pl_decoder p) \<and> list_all (layer_fits cap) (pl_layers p)"
  by (simp add: within_def layer_fits_def [abs_def])

lemma within_layer: "within Q cap depth k p \<Longrightarrow> n < k \<Longrightarrow> layer_fits cap (layer_at p n)"
  by (auto simp: within_alt layer_at_def list_all_length)

lemma within_layers: "within Q cap depth k p \<Longrightarrow> length (pl_layers p) = k"
  by (simp add: within_alt)

lemma set_layer_within: "within Q cap depth k p \<Longrightarrow> layer_fits cap l \<Longrightarrow> within Q cap depth k (set_layer n l p)"
  by (auto simp: within_alt set_layer_def list_all_iff dest!: set_update_subset_insert [THEN subsetD])

lemma consume_within:
  assumes "within Q cap depth k p" and "count \<le> length (source p n)" and "n \<le> k"
  shows "within Q cap depth k (consume_source n count p)"
proof (cases n)
  case 0
  with assms show ?thesis by (auto simp: within_alt consume_input_def)
next
  case (Suc m)
  with assms within_layer [OF assms(1), of m] show ?thesis
    by (auto simp: consume_layer_def Let_def layer_fits_def intro!: set_layer_within)
qed

lemma set_layer_state_within:
  "within Q cap depth k p \<Longrightarrow> n < k \<Longrightarrow> within Q cap depth k (set_layer_state n st p)"
  using within_layer [of Q cap depth k p n]
  by (auto simp: set_layer_state_def layer_fits_def intro!: set_layer_within)

lemma layer_at_set_layer:
  "m < length (pl_layers p) \<Longrightarrow> layer_at (set_layer m l p) m = l"
  "m \<noteq> n \<Longrightarrow> layer_at (set_layer m l p) n = layer_at p n"
  by (simp_all add: layer_at_def set_layer_def)

lemma source_after:
  "n \<le> length (pl_layers p) \<Longrightarrow> source (consume_source n count p) n = drop count (source p n)"
  "source (set_layer_state n st p) n = source p n"
  by (cases n; simp add: consume_input_def consume_layer_def Let_def layer_at_set_layer set_layer_state_def set_layer_def layer_at_def)+

lemma skip_padding_within:
  assumes "skip_padding n bs padding p = (p', r)" and "within Q cap depth k p" and "n < k" and "source p n = bs"
  shows "within Q cap depth k p'"
  using assms
proof (induction n bs padding p arbitrary: p' rule: skip_padding.induct)
  case (2 n b bs padding p)
  let ?p1 = "consume_source n 1 p"
  have w: "within Q cap depth k ?p1" using 2(3-5) by (intro consume_within) simp_all
  moreover have "source ?p1 n = bs"
    using 2(4,5) within_layers [OF 2(3)] source_after(1) [of n p 1] by simp
  ultimately show ?case
    using 2(1) [OF _ refl] 2(2,3,4) set_layer_state_within [OF w 2(4)] source_after(2) [of n _ ?p1]
    by (auto simp: Let_def split: if_splits option.splits)
qed simp

lemma restart_layer_within:
  assumes "restart_layer P n selection p = (p', r)" and "within Q cap depth k p" and "n < k"
  shows "within Q cap depth k p'"
  using assms within_layer [OF assms(2,3)]
  by (auto simp: restart_layer_def layer_fits_def split: sum.splits intro!: set_layer_within)

definition keeps :: "(bytes \<Rightarrow> 'd option \<Rightarrow> bool) \<Rightarrow> nat \<Rightarrow> nat \<Rightarrow> nat \<Rightarrow> (('sel, 'c, 'd) pipeline \<Rightarrow> (('sel, 'c, 'd) pipeline \<times> 'r) option) \<Rightarrow> bool" where
  "keeps Q cap depth k f \<longleftrightarrow> (\<forall>p p' r. f p = Some (p', r) \<longrightarrow> within Q cap depth k p \<longrightarrow> within Q cap depth k p')"

lemma keepsD: "keeps Q cap depth k f \<Longrightarrow> f p = Some (p', r) \<Longrightarrow> within Q cap depth k p \<Longrightarrow> within Q cap depth k p'"
  by (auto simp: keeps_def)

lemma then_ready_Some:
  "then_ready r k = Some (p', x) \<longleftrightarrow>
     (\<exists>p d. r = Some (p, d) \<and> (if d = Inr DriveReady then k p = Some (p', x) else p' = p \<and> x = d))"
proof (cases r)
  case (Some q)
  obtain p d where q: "q = (p, d)" by fastforce
  then show ?thesis
    unfolding Some then_ready_def by (cases d rule: sum.exhaust; cases "projr d") auto
qed (simp add: then_ready_def)

fun between_ok :: "(bytes \<Rightarrow> 'd option \<Rightarrow> bool) \<Rightarrow> nat \<Rightarrow> nat \<Rightarrow> nat \<Rightarrow> ('sel, 'c, 'd) between_action \<Rightarrow> bool" where
  "between_ok Q cap depth k (BetweenReturn r) \<longleftrightarrow> within Q cap depth k (fst r)"
| "between_ok Q cap depth k (BetweenFill least p) \<longleftrightarrow> within Q cap depth k p"

lemma next_member_within:
  assumes "within Q cap depth k p" and "n < k"
  shows "between_ok Q cap depth k (next_member P n flt p)"
  using assms restart_layer_within [OF prod.collapse [symmetric] assms, where P = P]
  by (simp add: next_member_def Let_def split: sum.split probe_result.split prod.split)

lemma between_round_within:
  assumes "within Q cap depth k p" and "n < k"
  shows "between_ok Q cap depth k (between_round P n p)"
proof (cases "cl_state (layer_at p n)")
  case (LayerBetween padding0)
  obtain p1 r where sp: "(if cl_filter (layer_at p n) = Xz then skip_padding n (source p n) padding0 p else (p, Inr padding0)) = (p1, r)"
    by fastforce
  then have "within Q cap depth k p1"
    using skip_padding_within [OF _ assms refl] assms(1) by (auto split: if_splits)
  then show ?thesis
    unfolding between_round_def Let_def LayerBetween layer_state.case sp
    using next_member_within [OF _ assms(2), where P = P] set_layer_state_within [of Q cap depth k p1 n] assms(2) by (auto split: sum.split)
qed (use assms in \<open>simp_all add: between_round_def\<close>)

lemma then_ready_within:
  assumes "then_ready r f = Some (p', x)" and "\<And>p d. r = Some (p, d) \<Longrightarrow> within Q cap depth k p"
    and "\<And>p y. f p = Some y \<Longrightarrow> within Q cap depth k p \<Longrightarrow> within Q cap depth k (fst y)"
  shows "within Q cap depth k p'"
  using assms by (fastforce simp: then_ready_Some split: if_splits)

lemma drive_between_within:
  assumes fill: "\<And>least. keeps Q cap depth k (fill least)" and n: "n < k"
  shows "keeps Q cap depth k (drive_between_loop P fill n)"
proof -
  let ?Q = "\<lambda>(((P', fill'), n'), p) y. fill' = fill \<and> n' = n \<and> within Q cap depth k p \<longrightarrow> within Q cap depth k (fst y)"
  have "?Q (((P, fill), n), p) y" if "drive_between_loop P fill n p = Some y" for p y
  proof (rule drive_between_loop.raw_induct [of ?Q, OF _ that], goal_cases)
    case (1 loop P' fill' n' p y)
    show ?case
    proof (clarsimp, cases "between_round P' n p")
      assume w: "within Q cap depth k p" and eq: "fill' = fill" "n' = n"
      note ok = between_round_within [OF w n, of P']
      {
        case (BetweenReturn r)
        with 1(2) ok eq show "within Q cap depth k (fst y)" by simp
      next
        case (BetweenFill least p1)
        with 1(2) ok eq have "then_ready (fill least p1) (loop P' fill n) = Some (fst y, snd y)" "within Q cap depth k p1" by simp_all
        then show "within Q cap depth k (fst y)"
          using 1(1) keepsD [OF fill] by (elim then_ready_within) force+
      }
    qed
  qed
  then show ?thesis by (force simp: keeps_def)
qed

lemma compact_within:
  assumes "within Q cap depth k p" and "n < k"
  shows "within Q cap depth k (set_layer n (layer_compact (layer_at p n)) p)"
  using assms within_layer [OF assms]
  by (auto simp: layer_compact_def layer_fits_def intro!: set_layer_within)

lemma source_set_layer: "source (set_layer n l p) n = source p n"
  by (cases n) (simp_all add: set_layer_def layer_at_def)

lemma codec_call_within:
  assumes "codec_call P n p = (p', r)" and "within Q cap depth k p" and "n < k"
  shows "within Q cap depth k p'"
proof -
  let ?l = "layer_at p n"
  let ?free = "cl_capacity ?l - (cl_start ?l + length (cl_available ?l))"
  have fits: "layer_fits cap ?l" using within_layer [OF assms(2,3)] .
  show ?thesis
  proof (cases "?free = 0")
    case True
    with assms show ?thesis by (simp add: codec_call_def Let_def)
  next
    case False
    obtain c out where proc: "codec_process P (cl_codec ?l) (source p n) ?free (if source_finished p n then End else More) = (c, out)"
      by fastforce
    have same: "within Q cap depth k (set_layer n (?l\<lparr>cl_codec := c\<rparr>) p)"
      using fits assms(2) by (auto simp: layer_fits_def intro!: set_layer_within)
    have more: "within Q cap depth k (consume_source n (cs_consumed stp) (set_layer n
        (?l\<lparr>cl_codec := c, cl_available := cl_available ?l @ take (cs_produced stp) bs, cl_state := st\<rparr>) p))"
      if "codec_validate stp0 (length (source p n)) ?free = Inr stp" for stp0 stp bs st
      using that fits assms(2,3)
      by (intro consume_within set_layer_within)
        (auto simp: source_set_layer codec_validate_def layer_fits_def split: if_splits)
    show ?thesis
      using assms(1) False proc same more
      unfolding codec_call_def Let_def by (auto split: sum.splits prod.splits)
  qed
qed

lemma drive_layer_within:
  assumes fill: "\<And>least. keeps Q cap depth k (fill least)" and n: "n < k"
  shows "keeps Q cap depth k (drive_layer_loop P fill n least)"
proof -
  let ?Q = "\<lambda>((((P', fill'), n'), l'), p) y. fill' = fill \<and> n' = n \<and> within Q cap depth k p \<longrightarrow> within Q cap depth k (fst y)"
  have "?Q ((((P, fill), n), least), p) y" if "drive_layer_loop P fill n least p = Some y" for p y
  proof (rule drive_layer_loop.raw_induct [of ?Q, OF _ that], goal_cases)
    case (1 loop P' fill' n' l' p y)
    have "within Q cap depth k (fst y)" if w: "within Q cap depth k p" and eq: "fill' = fill" "n' = n"
    proof -
      let ?p1 = "set_layer n (layer_compact (layer_at p n)) p"
      have w1: "within Q cap depth k ?p1" using compact_within [OF w n] .
      note again = 1(1) [of P' fill n l', simplified, rule_format]
      show ?thesis
      proof (cases "l' \<le> length (cl_available (layer_at p n))")
        case True
        with 1(2) w eq show ?thesis by auto
      next
        case False
        note body = 1(2) [unfolded eq if_not_P [OF False] Let_def]
        show ?thesis
        proof (cases "cl_state (layer_at ?p1 n)")
          case LayerRunning
          let ?r = "if source ?p1 n = [] \<and> \<not> source_finished ?p1 n then fill 1 ?p1 else Some (?p1, Inr DriveReady)"
          have r: "within Q cap depth k p2" if "?r = Some (p2, d)" for p2 d
            using that w1 keepsD [OF fill] by (auto split: if_splits)
          have inner: "within Q cap depth k p3" if "then_ready ?r (\<lambda>p2. Some (codec_call P' n p2)) = Some (p3, d)" for p3 d
            by (rule then_ready_within [OF that r]) (use codec_call_within [OF prod.collapse [symmetric] _ n] in auto)
          have "then_ready (then_ready ?r (\<lambda>p2. Some (codec_call P' n p2))) (loop P' fill n l') = Some (fst y, snd y)"
            using body LayerRunning by simp
          from then_ready_within [OF this inner again] show ?thesis .
        next
          case (LayerBetween padding)
          with body have "then_ready (drive_between_loop P' fill n ?p1) (loop P' fill n l') = Some (fst y, snd y)"
            by simp
          from then_ready_within [OF this keepsD [OF drive_between_within [OF fill n] _ w1] again] show ?thesis .
        next
          case LayerDone
          with body w1 show ?thesis by auto
        qed
      qed
    qed
    then show ?case by simp
  qed
  then show ?thesis by (force simp: keeps_def)
qed

lemma fill_source_within: "n \<le> k \<Longrightarrow> keeps Q cap depth k (fill_source P n least)"
proof (induction n arbitrary: least)
  case 0
  show ?case by (auto simp: keeps_def)
next
  case (Suc n)
  then have "keeps Q cap depth k (drive_layer_loop P (fill_source P n) n least)" by (intro drive_layer_within) simp_all
  then show ?case by (auto simp: keeps_def)
qed

lemma fill_plain_within:
  assumes "fill_plain P least p = Some (p', r)" and "within Q cap depth k p"
  shows "within Q cap depth k p'"
proof (cases k)
  case 0
  with assms show ?thesis by (auto simp: fill_plain_def within_layers [OF assms(2)] split: if_splits)
next
  case (Suc n)
  then have "keeps Q cap depth k (drive_layer_loop P (fill_source P n) n least)"
    by (intro drive_layer_within fill_source_within) simp_all
  with assms Suc show ?thesis
    by (auto simp: fill_plain_def drive_layer_def within_layers [OF assms(2)] split: if_splits dest: keepsD)
qed

lemma within_update [simp]:
  "within Q cap depth k (p\<lparr>pl_format := f\<rparr>) = within Q cap depth k p"
  "within Q cap depth k (p\<lparr>pl_forced_format := f\<rparr>) = within Q cap depth k p"
  "within Q cap depth k (p\<lparr>pl_decoder_stalled := b\<rparr>) = within Q cap depth k p"
  "within Q cap depth k (p\<lparr>pl_phase := ph\<rparr>) = within Q cap depth k p"
  "within Q cap depth k (p\<lparr>pl_input_finished := b\<rparr>) = within Q cap depth k p"
  "within Q cap depth k (p\<lparr>pl_initial_error := e\<rparr>) = within Q cap depth k p"
  by (simp_all add: within_def)

section \<open>What the pipeline expects of decoders\<close>

text \<open>
  The contract of a provider set for chunks of payload: from a new decoder on, and also after an
  error, every \<open>Data\<close> event carries bytes that satisfy \<open>F\<close>, when the decoder is shown at most \<open>cap\<close>
  bytes of input and given an output buffer of \<open>cap\<close> bytes. \<open>I\<close> is an invariant of the decoders.
  The decoders fit \<open>cap\<close> when no chunk is longer than that.
\<close>

definition chunks_keep :: "(bytes \<Rightarrow> bool) \<Rightarrow> ('sel, 'c, 'fsel, 'd) providers \<Rightarrow> nat \<Rightarrow> ('d \<Rightarrow> bool) \<Rightarrow> bool" where
  "chunks_keep F P cap I \<longleftrightarrow>
     (\<forall>sel l d. format_decoder P sel l = Inr d \<longrightarrow> I d) \<and>
     (\<forall>d xs e d' r. I d \<longrightarrow> length xs \<le> cap \<longrightarrow> decoder_step P cap d xs e = (d', r) \<longrightarrow>
        I d' \<and> (\<forall>stp bs. r = Inr stp \<longrightarrow> ds_event stp = EvData bs \<longrightarrow> F bs))"

definition chunks_fit :: "('sel, 'c, 'fsel, 'd) providers \<Rightarrow> nat \<Rightarrow> bool" where
  "chunks_fit P cap \<longleftrightarrow> (\<exists>I. chunks_keep (\<lambda>bs. length bs \<le> cap) P cap I)"

lemma chunks_keep_any: "chunks_keep (\<lambda>_. True) P cap (\<lambda>_. True)"
  by (simp add: chunks_keep_def)

text \<open>The built-in formats keep the contract, whatever the codecs.\<close>

lemma builtin_chunks_fit: "chunks_fit (provider_set (builtin_formats enabled z) C) cap"
proof -
  have "chunks_keep (\<lambda>bs. length bs \<le> cap) (provider_set (builtin_formats enabled z) C) cap (builtin_small cap)"
    by (auto simp: chunks_keep_def provider_set_def builtin_formats_def split: if_splits
        dest: sequential_small builtin_step_small)
  then show ?thesis by (auto simp: chunks_fit_def)
qed

text \<open>Between two polls at most one chunk is held; inside a poll, before the event, none.\<close>

definition holding :: "(bytes \<Rightarrow> bool) \<Rightarrow> ('d \<Rightarrow> bool) \<Rightarrow> bytes \<Rightarrow> 'd option \<Rightarrow> bool" where
  "holding F I ev d \<longleftrightarrow> (ev = [] \<or> F ev) \<and> (case d of None \<Rightarrow> True | Some d \<Rightarrow> I d)"

definition cleared :: "('d \<Rightarrow> bool) \<Rightarrow> bytes \<Rightarrow> 'd option \<Rightarrow> bool" where
  "cleared I ev d \<longleftrightarrow> ev = [] \<and> (case d of None \<Rightarrow> True | Some d \<Rightarrow> I d)"

lemma cleared_holding: "within (cleared I) cap depth k p \<Longrightarrow> within (holding F I) cap depth k p"
  by (auto simp: within_def cleared_def holding_def)

lemma install_ready_fst [simp]: "fst (install_ready r) = fst r"
  by (cases r; cases "snd r") (auto simp: install_ready_def)

lemma install_within:
  assumes "chunks_keep F P cap I" and "within (cleared I) cap depth k p"
  shows "within (cleared I) cap depth k (fst (install_decoder P fmt sel p))"
    and "within (cleared I) cap depth k (fst (select_and_install P fmt p))"
    and "within (cleared I) cap depth k (fst (install_forced P fmt p))"
    and "within (cleared I) cap depth k (fst (no_format_matched P p))"
proof -
  show *: "within (cleared I) cap depth k (fst (install_decoder P fmt sel p))" for fmt sel
    using assms by (auto simp: install_decoder_def within_def cleared_def chunks_keep_def split: sum.split)
  show **: "within (cleared I) cap depth k (fst (select_and_install P fmt p))" for fmt
    using assms * by (simp add: select_and_install_def split: sum.split)
  show "within (cleared I) cap depth k (fst (install_forced P fmt p))"
    using ** [of fmt] by (auto simp: install_forced_def split: prod.split sum.split)
  show "within (cleared I) cap depth k (fst (no_format_matched P p))"
    using ** assms by (simp add: no_format_matched_def)
qed

fun detect_ok :: "(bytes \<Rightarrow> 'd option \<Rightarrow> bool) \<Rightarrow> nat \<Rightarrow> nat \<Rightarrow> nat \<Rightarrow> ('sel, 'c, 'd) detect_action \<Rightarrow> bool" where
  "detect_ok Q cap depth k (DetectReturn r) \<longleftrightarrow> within Q cap depth k (fst r)"
| "detect_ok Q cap depth k _ \<longleftrightarrow> True"

lemma detect_round_within:
  assumes "chunks_keep F P cap I" and "within (cleared I) cap depth k p"
  shows "detect_ok (cleared I) cap depth k (detect_round P p)"
proof -
  note installed = install_within [OF assms]
  have "detect_ok (cleared I) cap depth k (detect_format P p)"
    using installed assms(2)
    by (simp add: detect_format_def split: option.split sum.split probe_result.split prod.split)
  then show ?thesis using assms(2) by (simp add: detect_round_def split: sum.split probe_result.split prod.split)
qed

definition bounded :: "(bytes \<Rightarrow> 'd option \<Rightarrow> bool) \<Rightarrow> nat \<Rightarrow> nat \<Rightarrow> ('sel, 'c, 'd) pipeline \<Rightarrow> bool" where
  "bounded Q cap depth p \<longleftrightarrow> (\<exists>k. within Q cap depth k p)"

lemma bounded_update [simp]:
  "bounded Q cap depth (p\<lparr>pl_phase := ph\<rparr>) = bounded Q cap depth p"
  "bounded Q cap depth (p\<lparr>pl_decoder_stalled := b\<rparr>) = bounded Q cap depth p"
  "bounded Q cap depth (p\<lparr>pl_input_finished := b\<rparr>) = bounded Q cap depth p"
  "bounded Q cap depth (p\<lparr>pl_initial_error := e\<rparr>) = bounded Q cap depth p"
  by (simp_all add: bounded_def)

lemma cleared_bounded: "bounded (cleared I) cap depth p \<Longrightarrow> bounded (holding F I) cap depth p"
  unfolding bounded_def by (elim exE) (rule exI, erule cleared_holding)

lemma push_layer_bounded:
  assumes "bounded Q cap depth p"
  shows "bounded Q cap depth (fst (push_layer P flt sel p))"
proof -
  obtain k where w: "within Q cap depth k p" using assms by (auto simp: bounded_def)
  then have "within Q cap depth (Suc k) (p\<lparr>pl_layers := pl_layers p @ [layer_new flt sel c (pl_layer_capacity p)]\<rparr>)"
    if "\<not> pl_filter_depth p \<le> length (pl_layers p)" for c
    using that by (auto simp: within_alt layer_new_def layer_fits_def)
  with w show ?thesis by (auto simp: push_layer_def bounded_def split: sum.split)
qed

lemma fill_plain_bounded: "fill_plain P least p = Some (p', r) \<Longrightarrow> bounded Q cap depth p \<Longrightarrow> bounded Q cap depth p'"
  using fill_plain_within by (force simp: bounded_def)

lemma then_ready_bounded:
  assumes "then_ready r f = Some (p', x)" and "\<And>p d. r = Some (p, d) \<Longrightarrow> bounded Q cap depth p"
    and "\<And>p y. f p = Some y \<Longrightarrow> bounded Q cap depth p \<Longrightarrow> bounded Q cap depth (fst y)"
  shows "bounded Q cap depth p'"
  using assms by (fastforce simp: then_ready_Some split: if_splits)

lemma detect_decoder_bounded:
  assumes "detect_decoder P p = Some (p', r)" and "chunks_keep F P cap I" and "bounded (cleared I) cap depth p"
  shows "bounded (cleared I) cap depth p'"
proof -
  let ?B = "bounded (cleared I) cap depth"
  let ?Q = "\<lambda>(P', p) y. P' = P \<and> ?B p \<longrightarrow> ?B (fst y)"
  have "?Q (P, p) (p', r)"
  proof (rule detect_decoder.raw_induct [of ?Q, OF _ assms(1)], goal_cases)
    case (1 loop P' p y)
    have "?B (fst y)" if P: "P' = P" and b: "?B p"
    proof (cases "detect_round P p")
      case (DetectReturn q)
      then show ?thesis
        using 1(2) b P detect_round_within [OF assms(2), of depth _ p] by (fastforce simp: bounded_def)
    next
      case (DetectFill least)
      then have "then_ready (fill_plain P least p) (loop P) = Some (fst y, snd y)" using 1(2) P by simp
      from then_ready_bounded [OF this fill_plain_bounded [OF _ b]] 1(1) P show ?thesis by auto
    next
      case (DetectPush flt sel)
      then have "then_ready (Some (push_layer P flt sel p)) (loop P) = Some (fst y, snd y)" using 1(2) P by simp
      then show ?thesis
        by (rule then_ready_bounded) (use push_layer_bounded [OF b, of P flt sel] 1(1) P in auto)
    qed
    then show ?case by simp
  qed
  with assms(3) show ?thesis by simp
qed

lemma consume_plain_bounded:
  assumes "bounded Q cap depth p" and "count \<le> length (plain p)"
  shows "bounded Q cap depth (consume_plain count p)"
  using assms consume_within by (fastforce simp: bounded_def consume_plain_def plain_def dest: within_layers)

lemma then_poll_cases:
  assumes "then_poll r f = Some (p', x)"
  obtains (stop) d where "r = Some (p', d)" "d \<noteq> Inr DriveReady" | (go) p where "r = Some (p, Inr DriveReady)" "f p = Some (p', x)"
proof (cases r)
  case (Some q)
  obtain p d where q: "q = (p, d)" by fastforce
  then show thesis
    using assms that unfolding Some then_poll_def by (cases d rule: sum.exhaust; cases "projr d") auto
qed (use assms in \<open>simp add: then_poll_def\<close>)

lemma then_poll_bounded:
  assumes "then_poll r f = Some (p', x)" and "\<And>p d. r = Some (p, d) \<Longrightarrow> bounded (cleared I) cap depth p"
    and "\<And>p y. f p = Some y \<Longrightarrow> bounded (cleared I) cap depth p \<Longrightarrow> bounded (holding F I) cap depth (fst y)"
  shows "bounded (holding F I) cap depth p'"
  using assms(1)
proof (cases rule: then_poll_cases)
  case (stop d)
  then show ?thesis using assms(2) cleared_bounded by blast
next
  case (go p)
  then show ?thesis using assms(2) [OF go(1)] assms(3) [OF go(2)] by simp
qed

lemma poll_after_archive_bounded:
  assumes "poll_after_archive P p = Some (p', r)" and "bounded (cleared I) cap depth p"
  shows "bounded (holding F I) cap depth p'"
proof -
  let ?B = "bounded (cleared I) cap depth" and ?H = "bounded (holding F I) cap depth"
  let ?Q = "\<lambda>(P', p) y. ?B p \<longrightarrow> ?H (fst y)"
  have "?Q (P, p) (p', r)"
  proof (rule poll_after_archive.raw_induct [of ?Q, OF _ assms(1)], goal_cases)
    case (1 loop P' p y)
    have "?H (fst y)" if b: "?B p"
    proof (cases "trailing_invalid p")
      case True
      with 1(2) cleared_bounded [OF b] show ?thesis by auto
    next
      case False
      let ?p1 = "if plain p = [] then p else consume_plain (length (plain p)) p"
      have b1: "?B ?p1" using b consume_plain_bounded [OF b, of "length (plain p)"] by simp
      note body = 1(2) [unfolded if_not_P [OF False] Let_def]
      show ?thesis
      proof (cases "plain_finished ?p1")
        case True
        then have "y = (?p1\<lparr>pl_phase := PhaseDone\<rparr>, Inr PipeDone)" using body by (simp only: if_True) simp
        with cleared_bounded [OF b1] show ?thesis by simp
      next
        case False
        then have "then_poll (fill_plain P' 1 ?p1) (loop P') = Some (fst y, snd y)" using body by (simp only: if_False) simp
        then show ?thesis
          by (rule then_poll_bounded) (use fill_plain_bounded [OF _ b1] 1(1) in \<open>auto 4 4\<close>)
      qed
    qed
    then show ?case by simp
  qed
  with assms(2) show ?thesis by simp
qed

lemma plain_update [simp]:
  "plain (p\<lparr>pl_decoder := d\<rparr>) = plain p" "plain (p\<lparr>pl_event_data := bs\<rparr>) = plain p"
  "plain (p\<lparr>pl_decoder_stalled := b\<rparr>) = plain p" "plain (p\<lparr>pl_phase := ph\<rparr>) = plain p"
  by (simp_all add: plain_def) (cases "length (pl_layers p)"; simp add: layer_at_def)+

lemma plain_within:
  assumes "within Q cap depth k p"
  shows "length (plain p) \<le> cap"
proof (cases k)
  case 0
  with assms show ?thesis by (simp add: plain_def within_def)
next
  case (Suc n)
  with within_layer [OF assms, of n] within_layers [OF assms] show ?thesis by (simp add: plain_def layer_fits_def)
qed

lemma decoder_call_bounded:
  assumes "decoder_call P p = (p', r)" and "chunks_keep F P cap I" and "bounded (cleared I) cap depth p"
  shows "bounded (cleared I) cap depth p' \<and> plain p' = plain p \<and>
    (case r of
       Inl e \<Rightarrow> True
     | Inr stp \<Rightarrow> ds_consumed stp \<le> length (plain p) \<and> (\<forall>bs. ds_event stp = EvData bs \<longrightarrow> F bs))"
proof (cases "pl_decoder p")
  case None
  with assms show ?thesis by (auto simp: decoder_call_def)
next
  case (Some d)
  obtain d' x where st: "decoder_step P (pl_scratch p) d (plain p) (if plain_finished p then End else More) = (d', x)"
    by fastforce
  obtain k where w: "within (cleared I) cap depth k p" using assms(3) by (auto simp: bounded_def)
  then have "pl_scratch p = cap" "I d" using Some by (simp_all add: within_def cleared_def)
  then have fit: "I d'" "\<And>stp bs. x = Inr stp \<Longrightarrow> ds_event stp = EvData bs \<Longrightarrow> F bs"
    using assms(2) plain_within [OF w] st unfolding chunks_keep_def by blast+
  have "within (cleared I) cap depth k (p\<lparr>pl_decoder := Some d'\<rparr>)" using w fit(1) by (simp add: within_def cleared_def)
  with Some st fit(2) assms(1) show ?thesis
    by (cases x) (auto simp: decoder_call_def decode_validate_def bounded_def split: sum.splits if_splits)
qed

lemma settle_bounded:
  assumes "bounded (cleared I) cap depth p" and "ds_consumed stp \<le> length (plain p)"
    and "\<And>bs. ds_event stp = EvData bs \<Longrightarrow> F bs"
  shows "bounded (holding F I) cap depth (settle stp p)"
    and "(\<And>bs. ds_event stp \<noteq> EvData bs) \<Longrightarrow> bounded (cleared I) cap depth (settle stp p)"
proof -
  have quiet: "bounded (cleared I) cap depth (consume_plain (ds_consumed stp) p)"
    using assms by (intro consume_plain_bounded)
  then show "bounded (cleared I) cap depth (settle stp p)" if "\<And>bs. ds_event stp \<noteq> EvData bs"
    using that unfolding settle_def Let_def by (cases "ds_event stp") auto
  have "bounded (holding F I) cap depth (consume_plain (ds_consumed stp) (p\<lparr>pl_event_data := pl_event_data p @ bs\<rparr>))"
    if "F bs" for bs
    using assms(1,2) that by (intro consume_plain_bounded) (auto simp: bounded_def within_def cleared_def holding_def)
  with quiet assms(3) show "bounded (holding F I) cap depth (settle stp p)"
    unfolding settle_def Let_def by (cases "ds_event stp") (auto intro: cleared_bounded)
qed

fun poll_ok :: "(bytes \<Rightarrow> bool) \<Rightarrow> nat \<Rightarrow> nat \<Rightarrow> ('d \<Rightarrow> bool) \<Rightarrow> ('sel, 'c, 'd) poll_action \<Rightarrow> bool" where
  "poll_ok F cap depth I (PollReturn r) \<longleftrightarrow> bounded (holding F I) cap depth (fst r)"
| "poll_ok F cap depth I (PollAfter p) \<longleftrightarrow> bounded (cleared I) cap depth p"
| "poll_ok F cap depth I (PollAgain p) \<longleftrightarrow> bounded (cleared I) cap depth p"
| "poll_ok F cap depth I (PollLookahead least p) \<longleftrightarrow> bounded (cleared I) cap depth p"

lemma poll_round_bounded:
  assumes "chunks_keep F P cap I" and "bounded (cleared I) cap depth p"
  shows "poll_ok F cap depth I (poll_round P p)"
proof -
  obtain p1 r where d: "decoder_call P p = (p1, r)" by fastforce
  note b = decoder_call_bounded [OF d assms]
  show ?thesis
  proof (cases r)
    case (Inl e)
    with b d show ?thesis by (simp add: poll_round_def cleared_bounded)
  next
    case (Inr stp)
    then have s: "bounded (holding F I) cap depth (settle stp p1)"
      "(\<And>bs. ds_event stp \<noteq> EvData bs) \<Longrightarrow> bounded (cleared I) cap depth (settle stp p1)"
      using b by (auto intro!: settle_bounded)
    then have "poll_ok F cap depth I (decoder_needs_input stp seen (settle stp p1))" if "ds_event stp = EvNeedInput" for seen
      using that by (simp add: decoder_needs_input_def split: option.split)
    with b s Inr show ?thesis
      by (cases "ds_event stp") (simp_all add: poll_round_def d Let_def cleared_bounded)
  qed
qed

lemma lookahead_bounded:
  "lookahead_capacity r = Some (p, x) \<Longrightarrow> (\<And>q d. r = Some (q, d) \<Longrightarrow> bounded Q cap depth q) \<Longrightarrow> bounded Q cap depth p"
  by (auto simp: lookahead_capacity_def bind_eq_Some_conv split: if_splits)

lemma poll_loop_bounded:
  assumes "poll_loop P p = Some (p', r)" and "chunks_keep F P cap I" and "bounded (cleared I) cap depth p"
  shows "bounded (holding F I) cap depth p'"
proof -
  let ?B = "bounded (cleared I) cap depth" and ?H = "bounded (holding F I) cap depth"
  let ?Q = "\<lambda>(P', p) y. P' = P \<and> ?B p \<longrightarrow> ?H (fst y)"
  have "?Q (P, p) (p', r)"
  proof (rule poll_loop.raw_induct [of ?Q, OF _ assms(1)], goal_cases)
    case (1 loop P' p y)
    let ?d = "if pl_decoder p = None then detect_decoder P p else Some (p, Inr DriveReady)"
    let ?f = "\<lambda>p1. if plain p1 = [] \<and> \<not> plain_finished p1 then fill_plain P 1 p1 else Some (p1, Inr DriveReady)"
    let ?g = "\<lambda>p2. case poll_round P p2 of
          PollReturn r \<Rightarrow> Some r
        | PollAfter p3 \<Rightarrow> poll_after_archive P p3
        | PollAgain p3 \<Rightarrow> loop P p3
        | PollLookahead least p3 \<Rightarrow> then_poll (lookahead_capacity (fill_plain P least p3)) (loop P)"
    have again: "?H (fst y)" if "loop P p = Some y" "?B p" for p y
      using 1(1) [OF that(1)] that(2) by simp
    have "?H (fst y)" if P: "P' = P" and b: "?B p"
    proof -
      have front: "?B q" if "then_ready ?d ?f = Some (q, x)" for q x
      proof (rule then_ready_bounded [OF that])
        show "?d = Some (q, d) \<Longrightarrow> ?B q" for q d
          using b detect_decoder_bounded [OF _ assms(2)] by (fastforce split: if_splits)
        show "?f q = Some z \<Longrightarrow> ?B q \<Longrightarrow> ?B (fst z)" for q z
          using fill_plain_bounded [of P 1 q "fst z" "snd z"] by (auto split: if_splits)
      qed
      have rear: "?H (fst z)" if g: "?g q = Some z" and q: "?B q" for q z
      proof (cases "poll_round P q")
        case (PollReturn r)
        with g poll_round_bounded [OF assms(2) q] show ?thesis by simp
      next
        case (PollAfter p3)
        with g poll_round_bounded [OF assms(2) q] poll_after_archive_bounded [of P p3 "fst z" "snd z"] show ?thesis by simp
      next
        case (PollAgain p3)
        with g poll_round_bounded [OF assms(2) q] again show ?thesis by simp
      next
        case (PollLookahead least p3)
        with g poll_round_bounded [OF assms(2) q] have "?B p3"
          "then_poll (lookahead_capacity (fill_plain P least p3)) (loop P) = Some (fst z, snd z)" by simp_all
        then show ?thesis
          by (elim then_poll_bounded) (auto elim!: lookahead_bounded intro: fill_plain_bounded again)
      qed
      from 1(2) P show ?thesis by (cases y) (use then_poll_bounded [OF _ front rear] in auto)
    qed
    then show ?case by simp
  qed
  with assms(3) show ?thesis by simp
qed

text \<open>A poll forgets the chunk of the one before.\<close>

lemma poll_event_bounded:
  assumes "poll_event P p = Some (p', r)" and "chunks_keep F P cap I" and "bounded (holding F I) cap depth p"
  shows "bounded (holding F I) cap depth p'"
proof -
  have "bounded (cleared I) cap depth (p\<lparr>pl_event_data := []\<rparr>)"
    using assms(3) by (auto simp: bounded_def within_def holding_def cleared_def)
  with assms poll_after_archive_bounded [of P "p\<lparr>pl_event_data := []\<rparr>" p' r I cap depth F]
    poll_loop_bounded [of P "p\<lparr>pl_event_data := []\<rparr>" p' r F cap I depth]
  show ?thesis by (auto simp: poll_event_def Let_def split: option.splits if_splits)
qed

lemma feed_bounded: "feed bs p = (p', r) \<Longrightarrow> bounded Q cap depth p \<Longrightarrow> bounded Q cap depth p'"
  by (auto simp: feed_def bounded_def within_def Let_def split: if_splits)

lemma finish_input_bounded: "finish_input p = (p', r) \<Longrightarrow> bounded Q cap depth p \<Longrightarrow> bounded Q cap depth p'"
  by (auto simp: finish_input_def split: if_splits)

text \<open>The states a pipeline can get into, in whatever order its caller feeds and polls it.\<close>

inductive pipe_reached :: "('sel, 'c, 'fsel, 'd) providers \<Rightarrow> ('sel, 'c, 'd) pipeline \<Rightarrow> ('sel, 'c, 'd) pipeline \<Rightarrow> bool"
  for P :: "('sel, 'c, 'fsel, 'd) providers" and start :: "('sel, 'c, 'd) pipeline" where
  initial: "pipe_reached P start start"
| fed: "pipe_reached P start p \<Longrightarrow> feed bs p = (p', r) \<Longrightarrow> pipe_reached P start p'"
| finished: "pipe_reached P start p \<Longrightarrow> finish_input p = (p', r) \<Longrightarrow> pipe_reached P start p'"
| polled: "pipe_reached P start p \<Longrightarrow> poll_event P p = Some (p', r) \<Longrightarrow> pipe_reached P start p'"

lemma pipe_reached_bounded:
  assumes "pipe_reached P start p" and "chunks_keep F P cap I" and "bounded (holding F I) cap depth start"
  shows "bounded (holding F I) cap depth p"
  using assms(1,3)
  by (induction rule: pipe_reached.induct) (auto intro: feed_bounded finish_input_bounded poll_event_bounded [OF _ assms(2)])

lemma with_providers_bounded:
  "bounded (holding F I) (max (pipeline_capacity l Detect) 1) (opt_or 64 (filter_depth l)) (with_providers l)"
  by (auto simp: bounded_def within_def holding_def with_providers_def with_filter_mode_def Let_def)

lemma capacity_budget:
  assumes "in_flight_bytes l = Some n" and "n < usize_max" and "DETECTION_MINIMUM \<le> pipeline_capacity l Detect"
    and "k \<le> opt_or 64 (filter_depth l)"
  shows "(k + 3) * pipeline_capacity l Detect \<le> n"
proof -
  let ?b = "opt_or 64 (filter_depth l) + 3" and ?c = "pipeline_capacity l Detect"
  have c: "?c \<le> n div max (min ?b usize_max) 1" "0 < ?c"
    using assms(1-3) by (simp_all add: pipeline_capacity_def Let_def DETECTION_MINIMUM_def)
  have "?b \<le> usize_max"
  proof (rule ccontr)
    assume "\<not> ?b \<le> usize_max"
    then have "n div max (min ?b usize_max) 1 = 0" using assms(2) by (simp add: u64_max_def)
    with c show False by simp
  qed
  then have "?c \<le> n div ?b" using c(1) by (simp add: max_def)
  then have "?c * ?b \<le> n" by (metis le_trans mult_le_mono1 div_times_less_eq_dividend)
  moreover have "(k + 3) * ?c \<le> ?c * ?b" using assms(4) by (simp add: mult.commute)
  ultimately show ?thesis by linarith
qed

text \<open>
  C9. The pipeline's memory is bounded for every provider set: in every state it can get into, the
  unread input and the output of every filter layer fit their buffers and there are at most as many
  layers as the filter depth allows, whatever codecs and decoders report and in whatever order the
  caller feeds, finishes and polls. When an in-flight budget is set that is large enough for
  detection, these buffers and the decoder's output buffer leave room for one more buffer within it.
  The payload copied out for the caller needs no more than that one: a poll forgets the chunk of the
  poll before, so the copy is a single chunk, no longer than a buffer as long as the decoders report
  no longer one, and all of it together stays within the budget. The decoders of the built-in formats
  report no chunk longer than a buffer; one supplied by the caller has to keep that contract.
\<close>

theorem pipeline_memory_bounded:
  assumes "pipe_reached P (with_providers l) p"
  shows "length (pl_input p) \<le> pl_input_capacity p \<and>
    list_all (\<lambda>y. length (cl_available y) \<le> cl_capacity y) (pl_layers p) \<and>
    length (pl_layers p) \<le> opt_or 64 (filter_depth l) \<and>
    (chunks_fit P (max (pipeline_capacity l Detect) 1) \<longrightarrow>
       length (pl_event_data p) \<le> max (pipeline_capacity l Detect) 1) \<and>
    (case in_flight_bytes l of
       None \<Rightarrow> True
     | Some n \<Rightarrow> usize_max \<le> n \<or> pipeline_capacity l Detect < DETECTION_MINIMUM \<or>
         pl_input_capacity p + sum_list (map cl_capacity (pl_layers p)) + pl_scratch p + pipeline_capacity l Detect \<le> n \<and>
         (chunks_fit P (max (pipeline_capacity l Detect) 1) \<longrightarrow>
            pl_input_capacity p + sum_list (map cl_capacity (pl_layers p)) + pl_scratch p + length (pl_event_data p) \<le> n)) \<and>
    chunks_fit (provider_set (builtin_formats enabled z) C) (max (pipeline_capacity l Detect) 1)"
proof -
  let ?c = "pipeline_capacity l Detect"
  let ?m = "max ?c 1" and ?depth = "opt_or 64 (filter_depth l)"
  let ?held = "pl_input_capacity p + sum_list (map cl_capacity (pl_layers p)) + pl_scratch p"
  have within: "\<exists>k. within (holding F I) ?m ?depth k p" if "chunks_keep F P ?m I" for F I
    using pipe_reached_bounded [OF assms that with_providers_bounded] by (simp add: bounded_def)
  obtain k where w: "within (holding (\<lambda>_. True) (\<lambda>_. True)) ?m ?depth k p" using within [OF chunks_keep_any] by blast
  have chunk: "length (pl_event_data p) \<le> ?m" if "chunks_fit P ?m"
    using that within by (fastforce simp: chunks_fit_def within_def holding_def)
  have "map cl_capacity (pl_layers p) = replicate k ?m"
    using w by (intro replicate_eqI) (auto simp: within_def list_all_iff)
  then have held: "?held = (k + 2) * ?m" using w by (simp add: sum_list_replicate within_def)
  have "?held + ?c \<le> n \<and> (chunks_fit P ?m \<longrightarrow> ?held + length (pl_event_data p) \<le> n)"
    if "in_flight_bytes l = Some n" "\<not> usize_max \<le> n" "\<not> ?c < DETECTION_MINIMUM" for n
  proof -
    have "(k + 3) * ?c \<le> n" using that w by (intro capacity_budget) (auto simp: within_def)
    moreover have "?m = ?c" using that(3) by (simp add: DETECTION_MINIMUM_def)
    ultimately show ?thesis using held chunk by (auto simp: algebra_simps)
  qed
  then have budget: "case in_flight_bytes l of None \<Rightarrow> True | Some n \<Rightarrow> usize_max \<le> n \<or> ?c < DETECTION_MINIMUM \<or>
      ?held + ?c \<le> n \<and> (chunks_fit P ?m \<longrightarrow> ?held + length (pl_event_data p) \<le> n)" by (simp split: option.split) blast
  have "length (pl_input p) \<le> pl_input_capacity p" "list_all (\<lambda>y. length (cl_available y) \<le> cl_capacity y) (pl_layers p)"
    "length (pl_layers p) \<le> ?depth"
    using w by (auto simp: within_def list_all_iff)
  with chunk budget builtin_chunks_fit show ?thesis by (intro conjI impI) assumption+
qed

text \<open>A provider that takes any input as a raw stream, in front of the empty chain.\<close>

definition raw_provider :: "raw_decoder format_provider" where
  "raw_provider =
     \<lparr>fp_format = Raw, fp_name = ''raw'', fp_probe = (\<lambda>_. ProbeMatch ()),
      fp_capabilities = \<lparr>fc_can_decode = True, fc_requires_seek_read = False\<rparr>, fp_available = True,
      fp_decoder = (\<lambda>l. Inr (raw_with_limits l)), fp_step = (\<lambda>_. raw_step)\<rparr>"

abbreviation raw_set :: "(unit, unit, unit provider_selection, raw_decoder + unit) providers" where
  "raw_set \<equiv> provider_set (format_node raw_provider no_formats) no_codecs"

lemma raw_set_fits: "chunks_fit raw_set cap"
proof -
  have "length bs \<le> cap"
    if "length xs \<le> cap" "chained_step raw_step (fch_step no_formats cap) d xs e = (d', Inr stp)" "ds_event stp = EvData bs" for d xs e d' stp bs
    using that slices_at [OF raw_slices] by (cases d) (auto simp: no_formats_def split: prod.splits)
  then have "chunks_keep (\<lambda>bs. length bs \<le> cap) raw_set cap (\<lambda>_. True)"
    by (auto simp: chunks_keep_def provider_set_def format_node_def raw_provider_def)
  then show ?thesis by (auto simp: chunks_fit_def)
qed

lemma raw_set_sel:
  "probe_codec raw_set pre = Inr ProbeNoMatch" "probe_format raw_set pre = Inr (ProbeMatch (Raw, SelHead))"
  "format_decoder raw_set SelHead l = Inr (Inl (raw_with_limits l))"
  "decoder_step raw_set cap (Inl d) xs e = (case raw_step d xs e of (d', r) \<Rightarrow> (Inl d', r))"
  by (simp_all add: provider_set_def no_codecs_def no_formats_def format_node_def raw_provider_def node_probe_def validate_probe_def)

theorem pipeline_memory_bounded_witness:
  "\<exists>p1 p2 p3 p4 md.
     feed [1, 2, 3] (with_providers limits_safe) = (p1, Inr 3) \<and>
     poll_event raw_set p1 = Some (p2, Inr (PipeArchiveMetadata archive_metadata_new)) \<and>
     poll_event raw_set p2 = Some (p3, Inr (PipeEntry md)) \<and>
     poll_event raw_set p3 = Some (p4, Inr (PipeData [1, 2, 3])) \<and> pl_event_data p4 = [1, 2, 3] \<and>
     pl_input_capacity p4 + sum_list (map cl_capacity (pl_layers p4)) + pl_scratch p4 + length (pl_event_data p4) \<le> 8 * 1024 * 1024"
proof -
  let ?s = "with_providers limits_safe :: (unit, unit, raw_decoder + unit) pipeline"
  let ?run = "\<lambda>ph n. Some (Inl \<lparr>raw_phase = ph, raw_remaining = Some n\<rparr> :: raw_decoder + unit)"
  define p1 where "p1 = ?s\<lparr>pl_input := [1, 2, 3]\<rparr>"
  define p2 where "p2 = p1\<lparr>pl_decoder := ?run RawEntry FOUR_GIB, pl_format := Some Raw\<rparr>"
  define p3 where "p3 = p2\<lparr>pl_decoder := ?run RawData FOUR_GIB\<rparr>"
  define p4 where "p4 = p3\<lparr>pl_decoder := ?run RawData (FOUR_GIB - 3), pl_input := [], pl_input_start := 3, pl_event_data := [1, 2, 3]\<rparr>"
  have cap: "pipeline_capacity limits_safe Detect = BUFFER" "\<not> BUFFER < DETECTION_MINIMUM" "3 < BUFFER" "3 < FOUR_GIB"
    "in_flight_bytes limits_safe = Some (8 * 1024 * 1024)" "decoded_total limits_safe = Some FOUR_GIB"
    by (simp_all add: limits_safe_def u64_max_def pipeline_capacity_def DETECTION_MINIMUM_def BUFFER_def FOUR_GIB_def)
  note start = p1_def with_providers_def with_filter_mode_def Let_def cap
  have f: "feed [1, 2, 3] ?s = (p1, Inr 3)" by (simp add: feed_def start BUFFER_def)
  note poll = poll_event_def poll_loop.simps then_poll_def then_ready_def poll_round_def decoder_call_def settle_def plain_def
    plain_finished_def consume_plain_def consume_input_def decode_validate_def raw_set_sel raw_step_def raw_entry_wf [unfolded raw_entry_def]
  have e1: "poll_event raw_set p1 = Some (p2, Inr (PipeArchiveMetadata archive_metadata_new))"
    using cap by (simp add: poll p2_def start detect_decoder.simps detect_round_def detect_format_def install_decoder_def install_ready_def
        raw_with_limits_def)
  have e2: "poll_event raw_set p2 = Some (p3, Inr (PipeEntry raw_entry))"
    using cap by (simp add: poll p3_def p2_def start raw_entry_def)
  have e3: "poll_event raw_set p3 = Some (p4, Inr (PipeData [1, 2, 3]))"
    using cap by (simp add: poll p4_def p3_def p2_def start FOUR_GIB_def)
  have "pipe_reached raw_set ?s p4"
    using pipe_reached.fed [OF pipe_reached.initial f] e1 e2 e3 by (blast intro: pipe_reached.polled)
  from pipeline_memory_bounded [OF this, of "\<lambda>_. True" 0 no_codecs] raw_set_fits cap
  have "pl_input_capacity p4 + sum_list (map cl_capacity (pl_layers p4)) + pl_scratch p4 + length (pl_event_data p4) \<le> 8 * 1024 * 1024"
    by (simp add: u64_max_def)
  moreover have "pl_event_data p4 = [1, 2, 3]" by (simp add: p4_def)
  ultimately show ?thesis using f e1 e2 e3 by metis
qed

section \<open>A member that breaks off inside an outer filter\<close>

lemma between_loop_stuck:
  assumes "between_round P n p = BetweenFill least p" and "fill least p = Some (p, Inr DriveReady)"
  shows "drive_between_loop P fill n p = None"
proof (rule ccontr)
  assume "drive_between_loop P fill n p \<noteq> None"
  then obtain y where y: "drive_between_loop P fill n p = Some y" by blast
  let ?Q = "\<lambda>x y. x \<noteq> (((P, fill), n), p)"
  have "?Q (((P, fill), n), p) y"
  proof (rule drive_between_loop.raw_induct [of ?Q, OF _ y], goal_cases)
    case (1 loop P' fill' n' p' y)
    then show ?case using assms 1(1) [of P fill n p y] by (auto simp: then_ready_def)
  qed
  then show False by simp
qed

text \<open>
  C36. A nested filter whose data breaks off hangs the pipeline: when an inner filter has finished a
  member and the outer filter has ended, leaving a few bytes that could begin another member (one
  byte \<open>1f\<close> after a gzip member is enough), polling does not return. The loop between members asks
  for bytes that will never come, because it takes only an empty rest for the end of its source.
\<close>

theorem nested_tail_hangs:
  assumes "pl_initial_error p = None" and "pl_phase p = PhaseReading" and "pl_decoder p = Some d"
    and "pl_layers p = [outer, inner]"
    and "cl_state outer = LayerDone" and "cl_available outer = tail" and "tail \<noteq> []"
    and "cl_state inner = LayerBetween 0" and "cl_filter inner \<noteq> Xz" and "cl_start inner = 0" and "cl_available inner = []"
    and "probe_codec P tail = Inr (ProbeNeedMore least)" and "length tail < least" and "cl_start outer = 0"
  shows "poll_event P p = None"
proof -
  let ?p = "p\<lparr>pl_event_data := []\<rparr>"
  have l: "layer_at ?p 0 = outer" "layer_at ?p (Suc 0) = inner" "length (pl_layers ?p) = Suc (Suc 0)" "pl_layers ?p = [outer, inner]"
    using assms(4) by (simp_all add: layer_at_def)
  have src: "source ?p (Suc 0) = tail" "\<not> source_finished ?p (Suc 0)" using l assms(6,7) by simp_all
  have round: "between_round P (Suc 0) ?p = BetweenFill least ?p"
    using l src assms(7-9,12) by (simp add: between_round_def next_member_def)
  have same: "set_layer 0 (layer_compact outer) ?p = ?p" "set_layer (Suc 0) (layer_compact inner) ?p = ?p"
    using l assms(4,10,14) by (simp_all add: set_layer_def layer_compact_def)
  have "drive_layer_loop P fill 0 least ?p = Some (?p, Inr DriveReady)" for fill
    using l same assms(5,6,13) by (subst drive_layer_loop.simps) (simp add: Let_def)
  then have "fill_source P (Suc 0) least ?p = Some (?p, Inr DriveReady)" by simp
  from between_loop_stuck [where fill = "fill_source P (Suc 0)", OF round this]
  have "drive_layer_loop P (fill_source P (Suc 0)) (Suc 0) 1 ?p = None"
    using l same assms(8,11) by (subst drive_layer_loop.simps) (simp add: Let_def then_ready_def)
  then have "fill_plain P 1 ?p = None" "plain ?p = []" "\<not> plain_finished ?p"
    using l assms(8,11) by (simp_all add: fill_plain_def drive_layer_def plain_def plain_finished_def)
  then have "poll_loop P ?p = None"
    using assms(3) by (subst poll_loop.simps) (simp add: then_ready_def then_poll_def)
  with assms(1,2) show ?thesis by (simp add: poll_event_def Let_def)
qed

theorem nested_tail_hangs_witness:
  "let P = provider_set no_formats (builtin_codecs (\<lambda>_ _. Inr ()) (\<lambda>c xs n e. (c, Inr (codec_report 0 0 CodecDone, []))));
       outer = \<lparr>cl_filter = Gzip, cl_selection = Gzip, cl_codec = (), cl_state = LayerDone, cl_capacity = 9, cl_start = 0, cl_available = [0x1f]\<rparr>;
       inner = \<lparr>cl_filter = Gzip, cl_selection = Gzip, cl_codec = (), cl_state = LayerBetween 0, cl_capacity = 9, cl_start = 0, cl_available = []\<rparr>;
       p = (with_providers limits_unlimited)\<lparr>pl_decoder := Some (), pl_layers := [outer, inner], pl_input_finished := True\<rparr>
   in poll_event P p = None"
  unfolding Let_def
proof (rule nested_tail_hangs [where tail = "[0x1f]" and least = 2 and d = "()"
      and outer = "\<lparr>cl_filter = Gzip, cl_selection = Gzip, cl_codec = (), cl_state = LayerDone, cl_capacity = 9, cl_start = 0, cl_available = [0x1f]\<rparr>"
      and inner = "\<lparr>cl_filter = Gzip, cl_selection = Gzip, cl_codec = (), cl_state = LayerBetween 0, cl_capacity = 9, cl_start = 0, cl_available = []\<rparr>"])
  have "filter_probe [0x1f] = ProbeNeedMore 2"
    by (simp add: filter_probe_def BZIP2_PREFIX_def SIGNATURES_def starts_with_def ascii_def u64_max_def)
  then show "probe_codec (provider_set no_formats (builtin_codecs (\<lambda>_ _. Inr ()) (\<lambda>c xs n e. (c, Inr (codec_report 0 0 CodecDone, [])))))
      [0x1f] = Inr (ProbeNeedMore 2)" by (simp add: provider_set_def builtin_codecs_def)
qed (simp_all add: with_providers_def with_filter_mode_def Let_def limits_unlimited_def pipeline_capacity_def BUFFER_def
    DETECTION_MINIMUM_def Gzip_def Xz_def)

end
