(* ===== verification/Oxide_Reader.thy ===== *)
theory Oxide_Reader
  imports Oxide_Pipeline_Safety Oxide_Chunking Oxide_Filesystem
begin

text \<open>
  The synchronous reader: \<open>ArchiveReader\<close> and \<open>Entry\<close> of \<open>libarchive_oxide/src/stream.rs\<close>, over
  a pipeline and a byte source. The byte source is an argument: a function that, given its state
  and the room in the buffer, returns the next state and the bytes read, \<open>Inl ()\<close> for an I/O error
  and no bytes for the end. The locale \<open>pipelined_decoder\<close> states what a decoder needs so that
  reading an archive through the pipeline is decoding it.
\<close>

section \<open>Operations\<close>

type_synonym 'r read_fn = "'r \<Rightarrow> nat \<Rightarrow> 'r \<times> (unit + bytes)"

record ('r, 'sel, 'c, 'd) archive_reader =
  rd_input :: 'r
  rd_pipeline :: "('sel, 'c, 'd) pipeline"
  rd_buffer :: nat
  rd_event_data :: bytes

definition reader_with_providers :: "'r \<Rightarrow> limits \<Rightarrow> ('r, 'sel, 'c, 'd) archive_reader" where
  "reader_with_providers input l =
     \<lparr>rd_input = input, rd_pipeline = with_providers l, rd_buffer = BUFFER, rd_event_data = []\<rparr>"

definition reader_with_providers_and_format :: "('sel, 'c, 'fsel, 'd) providers \<Rightarrow> 'r \<Rightarrow> format_id \<Rightarrow> limits \<Rightarrow>
    archive_error + ('r, 'sel, 'c, 'd) archive_reader" where
  "reader_with_providers_and_format P input fmt l =
     bindE (with_providers_and_format P l fmt) (\<lambda>p.
     Inr \<lparr>rd_input = input, rd_pipeline = p, rd_buffer = BUFFER, rd_event_data = []\<rparr>)"

definition supply_input :: "'r read_fn \<Rightarrow> ('r, 'sel, 'c, 'd) archive_reader \<Rightarrow>
    ('r, 'sel, 'c, 'd) archive_reader \<times> (stream_error + unit)" where
  "supply_input rd r =
     (let capacity = min (feed_capacity (rd_pipeline r)) (rd_buffer r) in
      if capacity = 0
      then (r, Inl (StreamArchive (plain_error ErrProtocol ''pipeline requested input without capacity'')))
      else
        (case rd (rd_input r) capacity of
           (i, Inl _) \<Rightarrow> (r\<lparr>rd_input := i\<rparr>, Inl StreamIo)
         | (i, Inr bs) \<Rightarrow>
             (let r1 = r\<lparr>rd_input := i\<rparr> in
              if bs = [] then
                (case finish_input (rd_pipeline r1) of
                   (p, Inl e) \<Rightarrow> (r1\<lparr>rd_pipeline := p\<rparr>, Inl (StreamArchive e))
                 | (p, Inr _) \<Rightarrow> (r1\<lparr>rd_pipeline := p\<rparr>, Inr ()))
              else
                (case feed bs (rd_pipeline r1) of
                   (p, Inl e) \<Rightarrow> (r1\<lparr>rd_pipeline := p\<rparr>, Inl (StreamArchive e))
                 | (p, Inr accepted) \<Rightarrow>
                     (r1\<lparr>rd_pipeline := p\<rparr>,
                      if accepted \<noteq> length bs
                      then Inl (StreamArchive (plain_error ErrProtocol ''pipeline accepted a partial adapter read''))
                      else Inr ())))))"

fun reader_event_of :: "pipeline_event \<Rightarrow> reader_event option" where
  "reader_event_of PipeNeedInput = None"
| "reader_event_of (PipeArchiveMetadata md) = Some (ReadArchiveMetadata md)"
| "reader_event_of (PipeEntry md) = Some (ReadEntry md)"
| "reader_event_of (PipeData bs) = Some (ReadData bs)"
| "reader_event_of PipeEndEntry = Some ReadEndEntry"
| "reader_event_of PipeDone = Some ReadDone"

definition note_event :: "pipeline_event \<Rightarrow> ('r, 'sel, 'c, 'd) archive_reader \<Rightarrow> ('r, 'sel, 'c, 'd) archive_reader" where
  "note_event ev r = (case ev of PipeData bs \<Rightarrow> r\<lparr>rd_event_data := bs\<rparr> | _ \<Rightarrow> r)"

partial_function (option) next_event :: "'r read_fn \<Rightarrow> ('sel, 'c, 'fsel, 'd) providers \<Rightarrow>
    ('r, 'sel, 'c, 'd) archive_reader \<Rightarrow> (('r, 'sel, 'c, 'd) archive_reader \<times> (stream_error + reader_event)) option" where
  "next_event rd P r =
     Option.bind (poll_event P (rd_pipeline r)) (\<lambda>(p, x).
       let r1 = r\<lparr>rd_pipeline := p\<rparr> in
       case x of
         Inl e \<Rightarrow> Some (r1, Inl (StreamArchive e))
       | Inr ev \<Rightarrow>
           (case reader_event_of ev of
              Some event \<Rightarrow> Some (note_event ev r1, Inr event)
            | None \<Rightarrow>
                (case supply_input rd r1 of
                   (r2, Inl e) \<Rightarrow> Some (r2, Inl e)
                 | (r2, Inr _) \<Rightarrow> next_event rd P r2)))"

text \<open>An entry borrows the reader; both are passed along.\<close>

record open_entry =
  en_metadata :: entry_metadata
  en_pending :: bytes
  en_pending_position :: nat
  en_ended :: bool

datatype io_failure = IoOther stream_error | IoInvalidData string | IoUnexpectedEof string

partial_function (option) next_entry :: "'r read_fn \<Rightarrow> ('sel, 'c, 'fsel, 'd) providers \<Rightarrow>
    ('r, 'sel, 'c, 'd) archive_reader \<Rightarrow> (('r, 'sel, 'c, 'd) archive_reader \<times> (stream_error + open_entry option)) option" where
  "next_entry rd P r =
     Option.bind (next_event rd P r) (\<lambda>(r1, x).
       case x of
         Inl e \<Rightarrow> Some (r1, Inl e)
       | Inr ev \<Rightarrow>
           (case ev of
              ReadArchiveMetadata md \<Rightarrow> next_entry rd P r1
            | ReadEntry md \<Rightarrow>
                Some (r1, Inr (Some \<lparr>en_metadata = md, en_pending = [], en_pending_position = 0, en_ended = False\<rparr>))
            | ReadDone \<Rightarrow> Some (r1, Inr None)
            | _ \<Rightarrow> Some (r1, Inl (StreamArchive
                     (plain_error ErrProtocol ''previous entry was not read to its end marker'')))))"

partial_function (option) entry_events :: "'r read_fn \<Rightarrow> ('sel, 'c, 'fsel, 'd) providers \<Rightarrow> nat \<Rightarrow>
    ('r, 'sel, 'c, 'd) archive_reader \<Rightarrow> open_entry \<Rightarrow>
    (('r, 'sel, 'c, 'd) archive_reader \<times> open_entry \<times> (io_failure + bytes)) option" where
  "entry_events rd P room r en =
     Option.bind (next_event rd P r) (\<lambda>(r1, x).
       case x of
         Inl e \<Rightarrow> Some (r1, en, Inl (IoOther e))
       | Inr ev \<Rightarrow>
           (case ev of
              ReadData bs \<Rightarrow>
                Some (r1, en\<lparr>en_pending := en_pending en @ drop room bs\<rparr>, Inr (take room bs))
            | ReadEndEntry \<Rightarrow> Some (r1, en\<lparr>en_ended := True\<rparr>, Inr [])
            | ReadArchiveMetadata md \<Rightarrow> entry_events rd P room r1 en
            | ReadEntry md \<Rightarrow>
                Some (r1, en, Inl (IoInvalidData ''archive began another entry before ending the current entry''))
            | ReadDone \<Rightarrow>
                Some (r1, en, Inl (IoUnexpectedEof ''archive ended before the current entry end marker''))))"

definition entry_read :: "'r read_fn \<Rightarrow> ('sel, 'c, 'fsel, 'd) providers \<Rightarrow> nat \<Rightarrow>
    ('r, 'sel, 'c, 'd) archive_reader \<Rightarrow> open_entry \<Rightarrow>
    (('r, 'sel, 'c, 'd) archive_reader \<times> open_entry \<times> (io_failure + bytes)) option" where
  "entry_read rd P room r en =
     (if room = 0 \<or> en_ended en then Some (r, en, Inr [])
      else if en_pending_position en \<noteq> length (en_pending en) then
        (let out = take room (drop (en_pending_position en) (en_pending en));
             position = en_pending_position en + length out
         in Some (r,
              if position = length (en_pending en) then en\<lparr>en_pending := [], en_pending_position := 0\<rparr>
              else en\<lparr>en_pending_position := position\<rparr>,
              Inr out))
      else entry_events rd P room r en)"

text \<open>\<open>Entry::finish\<close>: read into a buffer of the standard size until nothing comes.\<close>

partial_function (option) entry_finish :: "'r read_fn \<Rightarrow> ('sel, 'c, 'fsel, 'd) providers \<Rightarrow>
    ('r, 'sel, 'c, 'd) archive_reader \<Rightarrow> open_entry \<Rightarrow> (('r, 'sel, 'c, 'd) archive_reader \<times> (io_failure + unit)) option" where
  "entry_finish rd P r en =
     Option.bind (entry_read rd P BUFFER r en) (\<lambda>(r1, en1, x).
       case x of
         Inl e \<Rightarrow> Some (r1, Inl e)
       | Inr bs \<Rightarrow> if bs = [] then Some (r1, Inr ()) else entry_finish rd P r1 en1)"

section \<open>Reading everything\<close>

partial_function (option) read_all :: "'r read_fn \<Rightarrow> ('sel, 'c, 'fsel, 'd) providers \<Rightarrow>
    ('r, 'sel, 'c, 'd) archive_reader \<Rightarrow> (reader_event list \<times> (stream_error + unit)) option" where
  "read_all rd P r =
     Option.bind (next_event rd P r) (\<lambda>(r1, x).
       case x of
         Inl e \<Rightarrow> Some ([], Inl e)
       | Inr ev \<Rightarrow>
           if ev = ReadDone then Some ([ReadDone], Inr ())
           else Option.bind (read_all rd P r1) (\<lambda>(evs, res). Some (ev # evs, res)))"

text \<open>A byte source that hands out a byte string in pieces of the given sizes, at least one byte a time.\<close>

fun piece_read :: "(bytes \<times> nat list) read_fn" where
  "piece_read (left, sizes) room =
     (let n = min room (max 1 (case sizes of [] \<Rightarrow> room | k # _ \<Rightarrow> k))
      in ((drop n left, tl sizes), Inr (take n left)))"

fun event_of :: "decode_event \<Rightarrow> reader_event" where
  "event_of (EvArchiveMetadata md) = ReadArchiveMetadata md"
| "event_of (EvEntry md) = ReadEntry md"
| "event_of (EvData bs) = ReadData bs"
| "event_of EvEndEntry = ReadEndEntry"
| "event_of _ = ReadDone"

section \<open>A pipeline without filter layers\<close>

lemma then_simps [simp]:
  "then_ready (Some (p, Inr DriveReady)) k = k p"
  "then_ready (Some (p, Inr DriveNeedInput)) k = Some (p, Inr DriveNeedInput)"
  "then_ready (Some (p, Inl e)) k = Some (p, Inl e)"
  "then_poll (Some (p, Inr DriveReady)) f = f p"
  "then_poll (Some (p, Inr DriveNeedInput)) f = Some (p, Inr PipeNeedInput)"
  "then_poll (Some (p, Inl e)) f = Some (p, Inl e)"
  by (simp_all add: then_ready_def then_poll_def)

lemma layerless:
  assumes "pl_layers p = []"
  shows "plain p = pl_input p" "plain_finished p \<longleftrightarrow> pl_input_finished p \<and> pl_input p = []"
    "consume_plain n p = consume_input n p"
    "plain_exhausted p \<longleftrightarrow> pl_input_finished p"
    "fill_plain P least p = (if least \<le> length (pl_input p) \<or> pl_input_finished p \<and> pl_input p = []
       then Some (p, Inr DriveReady) else Some (p, Inr DriveNeedInput))"
  using assms by (simp_all add: plain_def plain_finished_def consume_plain_def plain_exhausted_def fill_plain_def)

definition reading :: "('sel, 'c, 'd) pipeline \<Rightarrow> 'd \<Rightarrow> bytes \<Rightarrow> bool" where
  "reading p d left \<longleftrightarrow>
     pl_layers p = [] \<and> pl_initial_error p = None \<and> pl_phase p = PhaseReading \<and> pl_decoder p = Some d \<and>
     \<not> pl_decoder_stalled p \<and> 0 < pl_input_capacity p \<and> length (pl_input p) \<le> pl_input_capacity p \<and>
     (pl_input_finished p \<longrightarrow> pl_input p = [] \<and> left = [])"

lemma readingD:
  assumes "reading p d left"
  shows "pl_layers p = []" "pl_initial_error p = None" "pl_phase p = PhaseReading" "pl_decoder p = Some d"
    "\<not> pl_decoder_stalled p" "pl_input_finished p \<Longrightarrow> pl_input p = []" "pl_input_finished p \<Longrightarrow> left = []"
    "0 < pl_input_capacity p" "length (pl_input p) \<le> pl_input_capacity p"
  using assms by (simp_all add: reading_def)

lemma reading_clear [simp]: "reading (p\<lparr>pl_event_data := bs\<rparr>) d left = reading p d left"
  by (simp add: reading_def)

lemma settle_reading:
  assumes "reading p d left" and "ds_consumed stp \<le> length (pl_input p)"
  shows "reading (settle stp (p\<lparr>pl_decoder := Some d'\<rparr>)) d' left"
    "pl_input (settle stp (p\<lparr>pl_decoder := Some d'\<rparr>)) = drop (ds_consumed stp) (pl_input p)"
    "pl_input_finished (settle stp (p\<lparr>pl_decoder := Some d'\<rparr>)) = pl_input_finished p"
    "pl_event_data (settle stp (p\<lparr>pl_decoder := Some d'\<rparr>)) =
       pl_event_data p @ (case ds_event stp of EvData bs \<Rightarrow> bs | _ \<Rightarrow> [])"
  using assms by (auto simp: reading_def settle_def Let_def layerless consume_input_def split: decode_event.split)

lemma poll_loop_waits:
  assumes "reading p d left" and "pl_input p = []" and "\<not> pl_input_finished p"
  shows "poll_loop P p = Some (p, Inr PipeNeedInput)"
  using assms(2,3) readingD(4) [OF assms(1)] layerless(1,2) [OF readingD(1) [OF assms(1)]]
    layerless(5) [OF readingD(1) [OF assms(1)], where P = P]
  by (subst poll_loop.simps) simp

lemma poll_loop_calls:
  assumes "reading p d left" and "pl_input p \<noteq> [] \<or> pl_input_finished p"
  shows "poll_loop P p = (case poll_round P p of
          PollReturn r \<Rightarrow> Some r
        | PollAfter p3 \<Rightarrow> poll_after_archive P p3
        | PollAgain p3 \<Rightarrow> poll_loop P p3
        | PollLookahead least p3 \<Rightarrow> then_poll (lookahead_capacity (fill_plain P least p3)) (poll_loop P))"
proof -
  have "(if plain p = [] \<and> \<not> plain_finished p then fill_plain P 1 p else Some (p, Inr DriveReady)) = Some (p, Inr DriveReady)"
    using assms(2) layerless [OF readingD(1) [OF assms(1)]] by auto
  with readingD(4) [OF assms(1)] show ?thesis by (subst poll_loop.simps) simp
qed

lemma poll_event_reading:
  "reading p d left \<Longrightarrow> poll_event P p = poll_loop P (p\<lparr>pl_event_data := []\<rparr>)"
  by (simp add: reading_def poll_event_def Let_def)

text \<open>The same without a decoder: what holds before detection as well.\<close>

definition idle :: "('sel, 'c, 'd) pipeline \<Rightarrow> bytes \<Rightarrow> bool" where
  "idle p left \<longleftrightarrow> reading (p\<lparr>pl_decoder := Some undefined\<rparr>) undefined left"

lemma idle_alt: "reading p d left \<longleftrightarrow> idle p left \<and> pl_decoder p = Some d"
  by (auto simp: idle_def reading_def)

lemma piece_read_progress:
  assumes "0 < room"
  shows "\<exists>n. piece_read (left, sizes) room = ((drop n left, tl sizes), Inr (take n left)) \<and> 0 < n \<and> n \<le> room"
  using assms by (intro exI [of _ "min room (max 1 (case sizes of [] \<Rightarrow> room | k # _ \<Rightarrow> k))"]) (simp add: Let_def)

lemma supply_input_pieces:
  assumes "idle (rd_pipeline r) left" and "pl_input (rd_pipeline r) = []" and "\<not> pl_input_finished (rd_pipeline r)"
    and "rd_input r = (left, sizes)" and "0 < rd_buffer r"
  obtains r' left' where "supply_input piece_read r = (r', Inr ())" "rd_input r' = (left', tl sizes)"
    "rd_buffer r' = rd_buffer r" "idle (rd_pipeline r') left'" "pl_decoder (rd_pipeline r') = pl_decoder (rd_pipeline r)"
    "pl_forced_format (rd_pipeline r') = pl_forced_format (rd_pipeline r)" "pl_limits (rd_pipeline r') = pl_limits (rd_pipeline r)"
    "pl_input (rd_pipeline r') @ left' = left" "pl_input (rd_pipeline r') \<noteq> [] \<or> pl_input_finished (rd_pipeline r')"
    "length left' < length left \<or> left' = [] \<and> pl_input_finished (rd_pipeline r')"
proof -
  let ?p = "rd_pipeline r"
  let ?c = "min (feed_capacity ?p) (rd_buffer r)"
  have cap: "0 < pl_input_capacity ?p" "pl_phase ?p = PhaseReading" using assms(1) by (simp_all add: idle_def reading_def)
  then have c: "0 < ?c" "feed_capacity ?p = pl_input_capacity ?p" using assms(2,5) by (simp_all add: feed_capacity_def)
  obtain n where rd: "piece_read (left, sizes) ?c = ((drop n left, tl sizes), Inr (take n left))" and n: "0 < n" "n \<le> ?c"
    using piece_read_progress [OF c(1), of left sizes] by blast
  show thesis
  proof (cases "left = []")
    case True
    have "supply_input piece_read r = (r\<lparr>rd_input := ([], tl sizes), rd_pipeline := ?p\<lparr>pl_input_finished := True\<rparr>\<rparr>, Inr ())"
      using c(1) cap(2) assms(3,4) True by (simp add: supply_input_def Let_def finish_input_def)
    then show thesis
      by (rule that) (use assms(1,2) True in \<open>auto simp: idle_def reading_def\<close>)
  next
    case False
    let ?q = "?p\<lparr>pl_input_start := 0, pl_input := take n left\<rparr>"
    have ne: "take n left \<noteq> []" using False n(1) by simp
    have le: "length (take n left) \<le> pl_input_capacity ?p" using n(2) c(2) by auto
    have f: "feed (take n left) ?p = (?q, Inr (length (take n left)))"
      using le cap(2) assms(2,3) by (simp add: feed_def Let_def)
    have "supply_input piece_read r = (r\<lparr>rd_input := (drop n left, tl sizes), rd_pipeline := ?q\<rparr>, Inr ())"
      unfolding supply_input_def Let_def assms(4) rd using c(1) ne f by simp
    then show thesis
      by (rule that) (use assms(1,3) False n le ne in \<open>auto simp: idle_def reading_def\<close>)
  qed
qed

section \<open>Decoders behind the pipeline\<close>

definition eof :: "('sel, 'c, 'd) pipeline \<Rightarrow> end_of_input" where
  "eof p = (if pl_input_finished p then End else More)"

lemma eof_iff: "eof p = End \<longleftrightarrow> pl_input_finished p" "eof p = More \<longleftrightarrow> \<not> pl_input_finished p"
  by (simp_all add: eof_def)

lemma eof_clear [simp]: "eof (p\<lparr>pl_event_data := bs\<rparr>) = eof p"
  by (simp add: eof_def)

text \<open>
  What a decoder owes the pipeline beyond \<open>chunked_decoder\<close>, when the end of the input is only
  announced once nothing is left of it: it asks for input only after taking some or when it was shown
  none and more may come, every other event takes input or lowers the rank, and it is done only once
  the end was announced. \<open>ready s e\<close> says that the state \<open>s\<close> belongs to a run that has been told \<open>e\<close>.
\<close>

locale pipelined_decoder = chunked_decoder +
  fixes ready :: "'a \<Rightarrow> end_of_input \<Rightarrow> bool"
  assumes ready_inv: "ready s e \<Longrightarrow> inv s"
    and ready_end: "ready s More \<Longrightarrow> ready s End"
    and ready_step: "ready s e \<Longrightarrow> (e = End \<Longrightarrow> xs = []) \<Longrightarrow> step s xs e = (s', Inr d) \<Longrightarrow> ds_event d \<noteq> EvDone \<Longrightarrow> ready s' e"
    and need: "ready s e \<Longrightarrow> (e = End \<Longrightarrow> xs = []) \<Longrightarrow> step s xs e = (s', Inr d) \<Longrightarrow> ds_event d = EvNeedInput \<Longrightarrow>
      0 < ds_consumed d \<or> xs = [] \<and> e = More"
    and move: "ready s e \<Longrightarrow> (e = End \<Longrightarrow> xs = []) \<Longrightarrow> step s xs e = (s', Inr d) \<Longrightarrow> ds_event d \<noteq> EvNeedInput \<Longrightarrow> ds_event d \<noteq> EvDone \<Longrightarrow>
      0 < ds_consumed d \<or> rank s' < rank s"
    and ends: "ready s e \<Longrightarrow> (e = End \<Longrightarrow> xs = []) \<Longrightarrow> step s xs e = (s', Inr d) \<Longrightarrow> ds_event d = EvDone \<Longrightarrow> e = End"
    and no_output: "ready s e \<Longrightarrow> (e = End \<Longrightarrow> xs = []) \<Longrightarrow> step s xs e = (s', Inr d) \<Longrightarrow> ds_event d \<noteq> EvNeedOutput"
begin

definition runs :: "'a \<Rightarrow> bytes \<Rightarrow> decode_event list \<Rightarrow> archive_error + unit \<Rightarrow> bool" where
  "runs s rem evs r \<longleftrightarrow> (\<exists>evs'. presents step s rem evs' r \<and> visible evs' = evs)"

lemma runs_step:
  assumes "step s xs e = (s', Inr d)" and "ds_event d \<noteq> EvDone" and "ds_consumed d \<le> length xs"
    and "e = More \<or> e = End \<and> ys = []" and "runs s' (drop (ds_consumed d) xs @ ys) evs r"
  shows "runs s (xs @ ys) (visible [ds_event d] @ evs) r"
proof -
  from assms(5) obtain evs' where p: "presents step s' (drop (ds_consumed d) xs @ ys) evs' r" "visible evs' = evs"
    by (auto simp: runs_def)
  have "presents step s (xs @ ys) (ds_event d # evs') r"
  proof (cases e)
    case More
    with assms(1,2) p(1) show ?thesis by (blast intro: presents.more)
  next
    case End
    with assms(1,2,4) p(1) show ?thesis using presents.last [of step s xs s' d evs' r] by simp
  qed
  with p(2) show ?thesis by (auto simp: runs_def)
qed

lemma runs_err:
  assumes "step s xs e = (s', Inl err)" and "e = More \<or> e = End \<and> ys = []"
  shows "runs s (xs @ ys) [] (Inl err)"
  using assms presents.more_err [of step s xs s' err ys] presents.last_err [of step s xs s' err]
  by (cases e) (force simp: runs_def)+

lemma runs_done:
  assumes "step s [] End = (s', Inr d)" and "ds_event d = EvDone"
  shows "runs s [] [EvDone] (Inr ())"
  using presents.last_done [where step = step, OF assms] by (force simp: runs_def)

lemma runs_decode_all:
  assumes "runs s input evs r" and "inv s" and "decode_all step s input = Some (whole, Inr ())"
  shows "r = Inr () \<and> norm evs = norm whole"
proof -
  from assms(1) obtain evs' where p: "presents step s input evs' r" "visible evs' = evs" by (auto simp: runs_def)
  show ?thesis using presentation_invisible [OF p(1) assms(2,3)] p(2) norm_visible [of evs'] by simp
qed

definition follows :: "'a \<Rightarrow> bytes \<Rightarrow> decode_event list \<Rightarrow> 'a \<Rightarrow> bytes \<Rightarrow> bool" where
  "follows s rem evs s' rem' \<longleftrightarrow> (\<forall>evs' r. runs s' rem' evs' r \<longrightarrow> runs s rem (evs @ evs') r)"

definition polled :: "('a \<Rightarrow> 'w) \<Rightarrow> ('sel, 'c, 'w) pipeline \<Rightarrow> 'a \<Rightarrow> bytes \<Rightarrow> ('sel, 'c, 'w) pipeline \<Rightarrow>
    archive_error + pipeline_event \<Rightarrow> bool" where
  "polled wrap p s left p' x \<longleftrightarrow>
     (case x of
        Inl e \<Rightarrow> runs s (pl_input p @ left) [] (Inl e)
      | Inr PipeDone \<Rightarrow> runs s (pl_input p @ left) [EvDone] (Inr ())
      | Inr PipeNeedInput \<Rightarrow>
          \<exists>s'. reading p' (wrap s') left \<and> ready s' (eof p') \<and> pl_input p' = [] \<and> \<not> pl_input_finished p' \<and>
            \<not> pl_input_finished p \<and> follows s (pl_input p @ left) [] s' left \<and> (s' = s \<or> pl_input p \<noteq> [])
      | Inr ev \<Rightarrow>
          \<exists>s' v. reading p' (wrap s') left \<and> ready s' (eof p') \<and> reader_event_of ev = Some (event_of v) \<and>
            v \<notin> {EvNeedInput, EvNeedOutput, EvDone} \<and> follows s (pl_input p @ left) [v] s' (pl_input p' @ left) \<and>
            (length (pl_input p') < length (pl_input p) \<or> pl_input p' = pl_input p \<and> rank s' < rank s))"

lemma follows_refl: "follows s rem [] s rem"
  by (simp add: follows_def)

lemma follows_trans: "follows s rem a t rem' \<Longrightarrow> follows t rem' b u rem'' \<Longrightarrow> follows s rem (a @ b) u rem''"
  by (simp add: follows_def)

lemma polled_shift:
  assumes "polled wrap q t left p' x" and "follows s (pl_input p @ left) [] t (pl_input q @ left)"
    and "length (pl_input q) < length (pl_input p)" and "pl_input_finished q = pl_input_finished p"
  shows "polled wrap p s left p' x"
proof (cases x)
  case (Inl e)
  with assms show ?thesis by (auto simp: polled_def follows_def)
next
  case (Inr ev)
  show ?thesis
  proof (cases ev)
    case PipeNeedInput
    from assms(1) obtain s' where "reading p' (wrap s') left" "ready s' (eof p')" "pl_input p' = []" "\<not> pl_input_finished p'"
      "follows t (pl_input q @ left) [] s' left" "\<not> pl_input_finished q"
      by (auto simp: polled_def Inr PipeNeedInput)
    with follows_trans [OF assms(2) this(5)] assms(3,4) show ?thesis by (auto simp: polled_def Inr PipeNeedInput)
  next
    case PipeDone
    with assms show ?thesis by (auto simp: polled_def Inr follows_def)
  qed (use assms(1,3) follows_trans [OF assms(2)] in \<open>force simp: polled_def Inr\<close>)+
qed

lemma poll_loop_outcome:
  fixes P :: "('sel, 'c, 'fsel, 'w) providers"
  assumes P: "\<And>cap s xs e. inv s \<Longrightarrow> decoder_step P cap (wrap s) xs e = (case step s xs e of (s', r) \<Rightarrow> (wrap s', r))"
    and "reading p (wrap s) left" and "ready s (eof p)" and "pl_event_data p = []"
  shows "\<exists>p' x. poll_loop P p = Some (p', x) \<and> polled wrap p s left p' x"
  using assms(2-)
proof (induction "length (pl_input p)" arbitrary: p s rule: less_induct)
  case less
  note rd = readingD [OF less.prems(1)] and plain = layerless [OF readingD(1) [OF less.prems(1)]]
  show ?case
  proof (cases "pl_input p = [] \<and> \<not> pl_input_finished p")
    case True
    then have "poll_loop P p = Some (p, Inr PipeNeedInput)" using poll_loop_waits [OF less.prems(1)] by simp
    moreover have "polled wrap p s left p (Inr PipeNeedInput)"
      using True less.prems follows_refl by (auto simp: polled_def)
    ultimately show ?thesis by blast
  next
    case False
    let ?xs = "pl_input p" and ?e = "eof p"
    have e: "?e = More \<or> ?e = End \<and> left = []" using rd(7) by (auto simp: eof_iff)
    have fin: "plain_finished p \<longleftrightarrow> pl_input_finished p" using plain(2) rd(6) by blast
    note loop = poll_loop_calls [OF less.prems(1), where P = P]
    obtain s' out where st: "step s ?xs ?e = (s', out)" by fastforce
    let ?p1 = "p\<lparr>pl_decoder := Some (wrap s')\<rparr>"
    show ?thesis
    proof (cases out)
      case (Inl err)
      then have "poll_round P p = PollReturn (?p1, Inl err)"
        using st rd(4) P [OF ready_inv [OF less.prems(2)]] fin plain(1) by (simp add: poll_round_def decoder_call_def eof_def)
      with loop False have "poll_loop P p = Some (?p1, Inl err)" by auto
      moreover have "polled wrap p s left ?p1 (Inl err)" using runs_err [OF _ e] st Inl by (simp add: polled_def)
      ultimately show ?thesis by blast
    next
      case (Inr d)
      note st = st [unfolded Inr]
      have le: "ds_consumed d \<le> length ?xs" using consumed_le [OF ready_inv [OF less.prems(2)] st] .
      have call: "decoder_call P p = (?p1, Inr d)"
        using st rd(4) P [OF ready_inv [OF less.prems(2)]] fin plain(1) step_validates [OF ready_inv [OF less.prems(2)] st] by (simp add: decoder_call_def eof_def)
      let ?q = "settle d ?p1"
      note q = settle_reading [OF less.prems(1) le, of "wrap s'"]
      have end_xs: "?e = End \<Longrightarrow> ?xs = []" using rd(6) by (simp add: eof_iff)
      have inv': "ready s' (eof ?q)" if "ds_event d \<noteq> EvDone"
        using ready_step [OF less.prems(2) end_xs st that] q(3) by (simp add: eof_def)
      have fol: "follows s (?xs @ left) (visible [ds_event d]) s' (pl_input ?q @ left)" if "ds_event d \<noteq> EvDone"
        using runs_step [OF st that le e] q(2) by (simp add: follows_def)
      have moved: "length (pl_input ?q) < length ?xs \<or> pl_input ?q = ?xs \<and> rank s' < rank s"
        if "ds_event d \<notin> {EvNeedInput, EvDone}"
        using move [OF less.prems(2) end_xs st] that le q(2) by (cases "ds_consumed d") auto
      have go: "?xs \<noteq> [] \<or> pl_input_finished p" using False by blast
      show ?thesis
      proof (cases "ds_event d")
        case EvNeedInput
        have c: "0 < ds_consumed d" using need [OF less.prems(2) end_xs st EvNeedInput] False by (auto simp: eof_iff)
        then have xs: "?xs \<noteq> []" "\<not> pl_input_finished p" using le rd(6) by auto
        then have "\<not> plain_finished ?q" using q(3) layerless(2) [OF readingD(1) [OF q(1)]] by simp
        then have "poll_round P p = PollAgain ?q"
          using call EvNeedInput c by (simp add: poll_round_def decoder_needs_input_def Let_def)
        with loop [OF go] have eq: "poll_loop P p = poll_loop P ?q" by simp
        have lt: "length (pl_input ?q) < length ?xs" using q(2) c le by simp
        have "pl_event_data ?q = []" using q(4) less.prems(3) EvNeedInput by simp
        from less.hyps [OF lt q(1) inv' this] EvNeedInput obtain p' x where "poll_loop P ?q = Some (p', x)" "polled wrap ?q s' left p' x"
          by auto
        with polled_shift [OF this(2) _ lt q(3)] fol EvNeedInput eq show ?thesis by auto
      next
        case EvNeedOutput
        with no_output [OF less.prems(2) end_xs st] show ?thesis by simp
      next
        case (EvArchiveMetadata md)
        then have "poll_loop P p = Some (?q, Inr (PipeArchiveMetadata md))"
          using loop [OF go] call by (simp add: poll_round_def Let_def)
        moreover have "polled wrap p s left ?q (Inr (PipeArchiveMetadata md))"
          using q(1) inv' fol moved EvArchiveMetadata by (force simp: polled_def)
        ultimately show ?thesis by blast
      next
        case (EvEntry md)
        then have "poll_loop P p = Some (?q, Inr (PipeEntry md))"
          using loop [OF go] call by (simp add: poll_round_def Let_def)
        moreover have "polled wrap p s left ?q (Inr (PipeEntry md))"
          using q(1) inv' fol moved EvEntry by (force simp: polled_def)
        ultimately show ?thesis by blast
      next
        case (EvData bs)
        then have "poll_loop P p = Some (?q, Inr (PipeData bs))"
          using loop [OF go] call q(4) less.prems(3) by (simp add: poll_round_def Let_def)
        moreover have "polled wrap p s left ?q (Inr (PipeData bs))"
          using q(1) inv' fol moved EvData by (force simp: polled_def)
        ultimately show ?thesis by blast
      next
        case EvEndEntry
        then have "poll_loop P p = Some (?q, Inr PipeEndEntry)"
          using loop [OF go] call by (simp add: poll_round_def Let_def)
        moreover have "polled wrap p s left ?q (Inr PipeEndEntry)"
          using q(1) inv' fol moved EvEndEntry by (force simp: polled_def)
        ultimately show ?thesis by blast
      next
        case EvDone
        have xs: "?xs = []" "pl_input_finished p" using ends [OF less.prems(2) end_xs st EvDone] end_xs by (simp_all add: eof_iff)
        let ?d = "?q\<lparr>pl_phase := PhaseArchiveDone\<rparr>"
        have "pl_layers ?d = []" "pl_input ?d = []" "pl_input_finished ?d" using readingD(1) [OF q(1)] q(2,3) xs by simp_all
        then have "poll_after_archive P ?d = Some (?d\<lparr>pl_phase := PhaseDone\<rparr>, Inr PipeDone)"
          using layerless(1,2) [of ?d] by (subst poll_after_archive.simps) (simp add: trailing_invalid_def)
        then have "\<exists>p'. poll_loop P p = Some (p', Inr PipeDone)"
          using loop [OF go] call EvDone by (simp add: poll_round_def Let_def)
        moreover have "polled wrap p s left p' (Inr PipeDone)" for p'
          using runs_done st EvDone xs rd(7) by (simp add: polled_def eof_def)
        ultimately show ?thesis by blast
      qed
    qed
  qed
qed

definition stepped_to :: "('a \<Rightarrow> 'w) \<Rightarrow> nat \<Rightarrow> 'a \<Rightarrow> bytes \<Rightarrow> (bytes \<times> nat list, 'sel, 'c, 'w) archive_reader \<Rightarrow>
    stream_error + reader_event \<Rightarrow> bool" where
  "stepped_to wrap room s rem r' x \<longleftrightarrow>
     (case x of
        Inl e \<Rightarrow> \<exists>err. e = StreamArchive err \<and> runs s rem [] (Inl err)
      | Inr ReadDone \<Rightarrow> runs s rem [EvDone] (Inr ())
      | Inr ev \<Rightarrow>
          \<exists>s' v left' sizes'. rd_input r' = (left', sizes') \<and> rd_buffer r' = room \<and> reading (rd_pipeline r') (wrap s') left' \<and>
            ready s' (eof (rd_pipeline r')) \<and> ev = event_of v \<and> v \<notin> {EvNeedInput, EvNeedOutput, EvDone} \<and>
            follows s rem [v] s' (pl_input (rd_pipeline r') @ left') \<and>
            (length (pl_input (rd_pipeline r') @ left') < length rem \<or>
             length (pl_input (rd_pipeline r') @ left') = length rem \<and> rank s' < rank s))"

lemma stepped_toI:
  assumes "rd_input r' = (left', sizes')" "rd_buffer r' = room" "reading (rd_pipeline r') (wrap s') left'" "ready s' (eof (rd_pipeline r'))"
    and v: "v \<notin> {EvNeedInput, EvNeedOutput, EvDone}"
    and "follows s rem [v] s' (pl_input (rd_pipeline r') @ left')"
    and "length (pl_input (rd_pipeline r') @ left') < length rem \<or>
      length (pl_input (rd_pipeline r') @ left') = length rem \<and> rank s' < rank s"
  shows "stepped_to wrap room s rem r' (Inr (event_of v))"
  using assms unfolding stepped_to_def by (cases v; simp; intro exI conjI; simp)

lemma stepped_to_shift:
  assumes "stepped_to wrap room t rem' r' x" and "follows s rem [] t rem'"
    and "t = s \<and> rem' = rem \<or> length rem' < length rem"
  shows "stepped_to wrap room s rem r' x"
proof (cases x)
  case (Inl e)
  with assms show ?thesis by (auto simp: stepped_to_def follows_def)
next
  case (Inr ev)
  show ?thesis
  proof (cases ev)
    case ReadDone
    with assms show ?thesis by (auto simp: stepped_to_def Inr follows_def)
  qed (use assms(1,3) follows_trans [OF assms(2)] in \<open>auto simp: stepped_to_def Inr; force\<close>)+
qed

lemma next_event_outcome:
  fixes P :: "('sel, 'c, 'fsel, 'w) providers"
  assumes P: "\<And>cap s xs e. inv s \<Longrightarrow> decoder_step P cap (wrap s) xs e = (case step s xs e of (s', r) \<Rightarrow> (wrap s', r))"
    and "reading (rd_pipeline r) (wrap s) left" and "ready s (eof (rd_pipeline r))" and "rd_input r = (left, sizes)" and "0 < rd_buffer r"
  shows "\<exists>r' x. next_event piece_read P r = Some (r', x) \<and>
    stepped_to wrap (rd_buffer r) s (pl_input (rd_pipeline r) @ left) r' x"
  using assms(2-)
proof (induction "length left + (if pl_input_finished (rd_pipeline r) then 0 else 1)" arbitrary: r s left sizes rule: less_induct)
  case less
  let ?p = "(rd_pipeline r)\<lparr>pl_event_data := []\<rparr>" and ?rem = "pl_input (rd_pipeline r) @ left"
  have "reading ?p (wrap s) left" "ready s (eof ?p)" "pl_event_data ?p = []" using less.prems(1,2) by simp_all
  from poll_loop_outcome [OF P this] obtain p' x where
    poll: "poll_event P (rd_pipeline r) = Some (p', x)" and pd: "polled wrap ?p s left p' x"
    using poll_event_reading [OF less.prems(1), of P] by auto
  let ?r = "r\<lparr>rd_pipeline := p'\<rparr>"
  show ?case
  proof (cases x)
    case (Inl e)
    with poll pd show ?thesis
      by (subst next_event.simps) (auto simp: Let_def polled_def stepped_to_def)
  next
    case (Inr ev)
    show ?thesis
    proof (cases "ev = PipeNeedInput")
      case True
      then obtain s' where s': "reading p' (wrap s') left" "ready s' (eof p')" "pl_input p' = []" "\<not> pl_input_finished p'"
        "follows s ?rem [] s' left" "s' = s \<or> pl_input (rd_pipeline r) \<noteq> []"
        "\<not> pl_input_finished (rd_pipeline r)"
        using pd by (auto simp: polled_def Inr)
      have "idle (rd_pipeline ?r) left" "pl_input (rd_pipeline ?r) = []" "\<not> pl_input_finished (rd_pipeline ?r)"
        "rd_input ?r = (left, sizes)" "0 < rd_buffer ?r"
        using s'(1,3,4) less.prems(3,4) by (simp_all add: idle_alt)
      then obtain r2 left2 where sup: "supply_input piece_read ?r = (r2, Inr ())" "rd_input r2 = (left2, tl sizes)"
        "rd_buffer r2 = rd_buffer ?r" "idle (rd_pipeline r2) left2" "pl_decoder (rd_pipeline r2) = pl_decoder (rd_pipeline ?r)"
        "pl_input (rd_pipeline r2) @ left2 = left" "length left2 < length left \<or> left2 = [] \<and> pl_input_finished (rd_pipeline r2)"
        by (rule supply_input_pieces)
      have next_r: "next_event piece_read P r = next_event piece_read P r2"
        using poll sup(1) by (subst next_event.simps) (simp add: Let_def Inr True)
      have rd2: "reading (rd_pipeline r2) (wrap s') left2" using sup(4,5) s'(1) by (simp add: idle_alt)
      have ready2: "ready s' (eof (rd_pipeline r2))" using s'(2,4) ready_end by (auto simp: eof_def)
      have "length left2 + (if pl_input_finished (rd_pipeline r2) then 0 else 1) <
          length left + (if pl_input_finished (rd_pipeline r) then 0 else (1 :: nat))"
        using sup(7) s'(7) by auto
      from less.hyps [OF this rd2 ready2 sup(2)] sup(3) less.prems(4) obtain r' x where
        "next_event piece_read P r2 = Some (r', x)" "stepped_to wrap (rd_buffer r) s' left r' x"
        using sup(6) by auto
      moreover have "stepped_to wrap (rd_buffer r) s ?rem r' x"
        by (rule stepped_to_shift [OF calculation(2) s'(5)]) (use s'(6) in auto)
      ultimately show ?thesis using next_r by auto
    next
      case False
      show ?thesis
      proof (cases "ev = PipeDone")
        case True
        with poll pd show ?thesis
          by (subst next_event.simps) (auto simp: Let_def Inr polled_def stepped_to_def)
      next
        case more: False
        obtain s' v where v: "reading p' (wrap s') left" "ready s' (eof p')" "reader_event_of ev = Some (event_of v)"
          "v \<notin> {EvNeedInput, EvNeedOutput, EvDone}" "follows s ?rem [v] s' (pl_input p' @ left)"
          "length (pl_input p') < length (pl_input (rd_pipeline r)) \<or> pl_input p' = pl_input (rd_pipeline r) \<and> rank s' < rank s"
          using pd False more unfolding Inr by (cases ev) (auto simp: polled_def)
        let ?r' = "note_event ev ?r"
        have r': "rd_input ?r' = rd_input r" "rd_buffer ?r' = rd_buffer r" "rd_pipeline ?r' = p'"
          by (simp_all add: note_event_def split: pipeline_event.split)
        have "stepped_to wrap (rd_buffer r) s ?rem ?r' (Inr (event_of v))"
          by (rule stepped_toI [where left' = left and sizes' = sizes and s' = s']) (use v less.prems(3) r' in auto)
        with poll v(3) show ?thesis by (subst next_event.simps) (simp add: Let_def Inr)
      qed
    qed
  qed
qed

lemma read_all_outcome:
  fixes P :: "('sel, 'c, 'fsel, 'w) providers"
  assumes P: "\<And>cap s xs e. inv s \<Longrightarrow> decoder_step P cap (wrap s) xs e = (case step s xs e of (s', r) \<Rightarrow> (wrap s', r))"
    and "reading (rd_pipeline r) (wrap s) left" and "ready s (eof (rd_pipeline r))" and "rd_input r = (left, sizes)" and "0 < rd_buffer r"
  shows "\<exists>evs res. read_all piece_read P r = Some (map event_of evs, map_sum StreamArchive id res) \<and>
    runs s (pl_input (rd_pipeline r) @ left) evs res"
  using assms(2-)
proof (induction "(length (pl_input (rd_pipeline r) @ left), rank s)" arbitrary: r s left sizes
    rule: wf_induct_rule [OF wf_lex_prod [OF wf_measure [of id] wf]])
  case 1
  let ?rem = "pl_input (rd_pipeline r) @ left"
  from next_event_outcome [OF P 1(2-)] obtain r' x where
    n: "next_event piece_read P r = Some (r', x)" and st: "stepped_to wrap (rd_buffer r) s ?rem r' x" by blast
  show ?case
  proof (cases x)
    case (Inl e)
    with st obtain err where "e = StreamArchive err" "runs s ?rem [] (Inl err)" by (auto simp: stepped_to_def)
    with n Inl show ?thesis
      by (intro exI [of _ "[]"] exI [of _ "Inl err"]) (simp add: read_all.simps [of _ _ r])
  next
    case (Inr ev)
    show ?thesis
    proof (cases "ev = ReadDone")
      case True
      with st have "runs s ?rem [EvDone] (Inr ())" by (simp add: stepped_to_def Inr)
      with n Inr True show ?thesis
        by (intro exI [of _ "[EvDone]"] exI [of _ "Inr ()"]) (simp add: read_all.simps [of _ _ r])
    next
      case False
      then obtain s' v left' sizes' where v: "rd_input r' = (left', sizes')" "rd_buffer r' = rd_buffer r"
        "reading (rd_pipeline r') (wrap s') left'" "ready s' (eof (rd_pipeline r'))" "ev = event_of v"
        "follows s ?rem [v] s' (pl_input (rd_pipeline r') @ left')"
        "length (pl_input (rd_pipeline r') @ left') < length ?rem \<or>
         length (pl_input (rd_pipeline r') @ left') = length ?rem \<and> rank s' < rank s"
        using st unfolding stepped_to_def Inr by (cases ev) auto
      have "((length (pl_input (rd_pipeline r') @ left'), rank s'), (length ?rem, rank s)) \<in> measure id <*lex*> {(x, y). x < y}"
        using v(7) by auto
      from 1(1) [OF this v(3,4,1)] v(2) 1(5) obtain evs res where
        "read_all piece_read P r' = Some (map event_of evs, map_sum StreamArchive id res)"
        "runs s' (pl_input (rd_pipeline r') @ left') evs res" by auto
      moreover from this(2) v(6) have "runs s ?rem (v # evs) res" by (auto simp: follows_def)
      ultimately show ?thesis
        using n False v(5)
        by (intro exI [of _ "v # evs"] exI [of _ res]) (simp add: read_all.simps [of _ _ r] Inr)
    qed
  qed
qed

end

section \<open>Detection with a given format\<close>

definition starting :: "('sel, 'c, 'd) pipeline \<Rightarrow> format_id \<Rightarrow> bytes \<Rightarrow> bool" where
  "starting p fmt left \<longleftrightarrow> idle p left \<and> pl_decoder p = None \<and> pl_forced_format p = Some fmt"

definition no_filter :: "('sel, 'c, 'fsel, 'd) providers \<Rightarrow> bytes \<Rightarrow> bool" where
  \<comment> \<open>the first bytes of the input settle that no filter applies\<close>
  "no_filter P input \<longleftrightarrow>
     (\<forall>xs ys. input = xs @ ys \<longrightarrow> xs \<noteq> [] \<longrightarrow> probe_codec P xs = Inr ProbeNoMatch) \<and>
     (input = [] \<longrightarrow> (\<exists>q. probe_codec P [] = Inr q \<and> (\<forall>m. q \<noteq> ProbeMatch m)))"

lemma starting_waits:
  assumes "starting p fmt left" and "pl_input p = []" and "\<not> pl_input_finished p"
  shows "poll_event P p = Some (p\<lparr>pl_event_data := []\<rparr>, Inr PipeNeedInput)"
proof -
  let ?p = "p\<lparr>pl_event_data := []\<rparr>"
  have p: "pl_layers ?p = []" "pl_decoder ?p = None" "pl_initial_error p = None" "pl_phase p = PhaseReading"
    using assms(1) by (simp_all add: starting_def idle_def reading_def)
  have "detect_round P ?p = DetectFill 1" "fill_plain P 1 ?p = Some (?p, Inr DriveNeedInput)"
    using layerless(1,2) [OF p(1)] layerless(5) [OF p(1), where P = P] assms(2,3) by (simp_all add: detect_round_def)
  then have "detect_decoder P ?p = Some (?p, Inr DriveNeedInput)" by (subst detect_decoder.simps) simp
  with p show ?thesis by (simp add: poll_event_def Let_def poll_loop.simps [of P ?p])
qed

lemma starting_detects:
  assumes "starting p fmt left" and "pl_input p \<noteq> [] \<or> pl_input_finished p" and "no_filter P (pl_input p @ left)"
    and "select_format P fmt = Inr sel" and "format_decoder P sel (pl_limits p) = Inr d"
  shows "poll_event P p = poll_event P (p\<lparr>pl_decoder := Some d, pl_format := Some fmt, pl_forced_format := None\<rparr>)"
proof -
  let ?p = "p\<lparr>pl_event_data := []\<rparr>"
  let ?q = "?p\<lparr>pl_decoder := Some d, pl_format := Some fmt, pl_forced_format := None\<rparr>"
  have p: "pl_layers ?p = []" "pl_decoder ?p = None" "pl_initial_error p = None" "pl_phase p = PhaseReading"
    "pl_forced_format ?p = Some fmt" "pl_input_finished p \<Longrightarrow> pl_input p = [] \<and> left = []"
    using assms(1) by (simp_all add: starting_def idle_def reading_def)
  have "detect_round P ?p = detect_format P ?p"
  proof (cases "pl_input p = []")
    case True
    with assms(2) p(6) have "pl_input_finished p" "left = []" by auto
    with True assms(3) layerless [OF p(1)] show ?thesis
      by (auto simp: detect_round_def no_filter_def split: probe_result.split)
  next
    case False
    with assms(3) have "probe_codec P (pl_input p) = Inr ProbeNoMatch" by (auto simp: no_filter_def)
    with False layerless [OF p(1)] show ?thesis by (simp add: detect_round_def)
  qed
  moreover have "detect_format P ?p = DetectReturn (?q, Inr DriveReady)"
    using assms(4,5) p(5)
    by (simp add: detect_format_def install_forced_def select_and_install_def install_decoder_def install_ready_def)
  ultimately have "detect_decoder P ?p = Some (?q, Inr DriveReady)" by (subst detect_decoder.simps) simp
  then have "poll_loop P ?p = poll_loop P ?q"
    using p(2) by (simp add: poll_loop.simps [of P ?p] poll_loop.simps [of P ?q])
  moreover have "?q = p\<lparr>pl_decoder := Some d, pl_format := Some fmt, pl_forced_format := None, pl_event_data := []\<rparr>"
    by (cases p) simp
  ultimately show ?thesis using p(3,4) by (simp add: poll_event_def Let_def)
qed

lemma next_event_cong:
  "poll_event P (rd_pipeline r) = poll_event P q \<Longrightarrow> next_event rd P r = next_event rd P (r\<lparr>rd_pipeline := q\<rparr>)"
  by (subst (1 2) next_event.simps) simp

lemma next_event_starts:
  assumes "starting (rd_pipeline r) fmt left" and "rd_input r = (left, sizes)" and "0 < rd_buffer r"
    and "no_filter P (pl_input (rd_pipeline r) @ left)"
    and "select_format P fmt = Inr sel" and "format_decoder P sel (pl_limits (rd_pipeline r)) = Inr d"
  obtains r' left' sizes' where "next_event piece_read P r = next_event piece_read P r'" "reading (rd_pipeline r') d left'"
    "rd_input r' = (left', sizes')" "rd_buffer r' = rd_buffer r"
    "pl_input (rd_pipeline r') @ left' = pl_input (rd_pipeline r) @ left"
proof -
  note result = that
  let ?go = "\<lambda>p. p\<lparr>pl_decoder := Some d, pl_format := Some fmt, pl_forced_format := None\<rparr>"
  have direct: thesis if "next_event piece_read P r = next_event piece_read P q" "starting (rd_pipeline q) fmt left'" "rd_input q = (left', sizes')"
    "rd_buffer q = rd_buffer r" "pl_input (rd_pipeline q) @ left' = pl_input (rd_pipeline r) @ left"
    "pl_input (rd_pipeline q) \<noteq> [] \<or> pl_input_finished (rd_pipeline q)" "pl_limits (rd_pipeline q) = pl_limits (rd_pipeline r)"
    for q left' sizes'
  proof (rule result [of "q\<lparr>rd_pipeline := ?go (rd_pipeline q)\<rparr>" left' sizes'])
    have "poll_event P (rd_pipeline q) = poll_event P (?go (rd_pipeline q))"
      by (rule starting_detects [OF that(2,6) _ assms(5)]) (use assms(4,6) in \<open>simp_all only: that(5,7)\<close>)
    from next_event_cong [OF this] that(1)
    show "next_event piece_read P r = next_event piece_read P (q\<lparr>rd_pipeline := ?go (rd_pipeline q)\<rparr>)" by simp
    show "reading (rd_pipeline (q\<lparr>rd_pipeline := ?go (rd_pipeline q)\<rparr>)) d left'"
      using that(2) by (simp add: starting_def idle_def reading_def)
  qed (use that in simp_all)
  show thesis
  proof (cases "pl_input (rd_pipeline r) = [] \<and> \<not> pl_input_finished (rd_pipeline r)")
    case False
    with assms(1-3) show thesis by (intro direct [of r left sizes]) auto
  next
    case True
    let ?r = "r\<lparr>rd_pipeline := (rd_pipeline r)\<lparr>pl_event_data := []\<rparr>\<rparr>"
    have "idle (rd_pipeline ?r) left" "pl_input (rd_pipeline ?r) = []" "\<not> pl_input_finished (rd_pipeline ?r)"
      "rd_input ?r = (left, sizes)" "0 < rd_buffer ?r"
      using assms(1-3) True by (simp_all add: starting_def idle_def reading_def)
    then obtain q left' where q: "supply_input piece_read ?r = (q, Inr ())" "rd_input q = (left', tl sizes)"
      "rd_buffer q = rd_buffer ?r" "idle (rd_pipeline q) left'" "pl_decoder (rd_pipeline q) = pl_decoder (rd_pipeline ?r)"
      "pl_forced_format (rd_pipeline q) = pl_forced_format (rd_pipeline ?r)" "pl_limits (rd_pipeline q) = pl_limits (rd_pipeline ?r)"
      "pl_input (rd_pipeline q) @ left' = left" "pl_input (rd_pipeline q) \<noteq> [] \<or> pl_input_finished (rd_pipeline q)"
      by (rule supply_input_pieces)
    have "next_event piece_read P r = next_event piece_read P q"
      using starting_waits [OF assms(1), of P] True q(1) by (subst next_event.simps) (simp add: Let_def)
    then show thesis
      by (rule direct) (use q assms(1) True in \<open>auto simp: starting_def\<close>)
  qed
qed

context pipelined_decoder
begin

text \<open>Reading through the pipeline is decoding, whatever the sizes of the reads.\<close>

lemma reader_decodes:
  fixes P :: "('sel, 'c, 'fsel, 'w) providers"
  assumes P: "\<And>cap s xs e. inv s \<Longrightarrow> decoder_step P cap (wrap s) xs e = (case step s xs e of (s', r) \<Rightarrow> (wrap s', r))"
    and "select_format P fmt = Inr sel" and "format_decoder P sel l = Inr (wrap s)" and "ready s More"
    and r: "reader_with_providers_and_format P (input, sizes) fmt l = Inr r"
    and "no_filter P input" and "DETECTION_MINIMUM \<le> pipeline_capacity l Detect"
  shows "\<exists>evs res. read_all piece_read P r = Some (map event_of evs, map_sum StreamArchive id res) \<and> runs s input evs res"
proof -
  have p: "rd_pipeline r = (with_filter_mode l Detect)\<lparr>pl_forced_format := Some fmt\<rparr>" "rd_input r = (input, sizes)" "rd_buffer r = BUFFER"
    using r by (auto simp: reader_with_providers_and_format_def with_providers_and_format_def force_format_def bindE_Inr_iff
        split: provider_capability.splits if_splits)
  have st: "starting (rd_pipeline r) fmt input" "pl_input (rd_pipeline r) = []" "pl_limits (rd_pipeline r) = l"
    using assms(7) unfolding p(1) by (auto simp: starting_def idle_def reading_def with_filter_mode_def Let_def)
  have "no_filter P (pl_input (rd_pipeline r) @ input)" "format_decoder P sel (pl_limits (rd_pipeline r)) = Inr (wrap s)" "0 < rd_buffer r"
    using st assms(3,6) p(3) by (simp_all add: BUFFER_def)
  from next_event_starts [OF st(1) p(2) this(3,1) assms(2) this(2)] obtain r' left' sizes' where
    n: "next_event piece_read P r = next_event piece_read P r'" and r': "reading (rd_pipeline r') (wrap s) left'"
    "rd_input r' = (left', sizes')" "rd_buffer r' = rd_buffer r" "pl_input (rd_pipeline r') @ left' = input"
    using st(2) by (metis append_Nil)
  have "read_all piece_read P r = read_all piece_read P r'" by (subst (1 2) read_all.simps) (simp add: n)
  moreover have "0 < rd_buffer r'" using r'(3) p(3) by (simp add: BUFFER_def)
  ultimately show ?thesis using read_all_outcome [OF P r'(1) _ r'(2)] r'(4) assms(4) ready_end by (auto simp: eof_def)
qed

end

end
