(* ===== verification/Oxide_Reader_Formats.thy ===== *)
theory Oxide_Reader_Formats
  imports Oxide_Reader Oxide_Ar_Chunking Oxide_Warc_Spec
begin

text \<open>
  The formats whose end is the end of the input, behind the reader: the decoders of empty archives,
  raw streams and WARC files, as the built-in provider creates them, satisfy the laws of
  \<open>pipelined_decoder\<close>. Reading such an archive with \<open>ArchiveReader\<close> is decoding it, whatever the
  sizes of the reads.
\<close>

section \<open>The laws for the built-in decoders\<close>

fun end_marked_inv :: "builtin_decoder \<Rightarrow> bool" where
  "end_marked_inv (BuiltinEmpty _) = True"
| "end_marked_inv (BuiltinRaw _) = True"
| "end_marked_inv (BuiltinWarc d) = warc_inv d"
| "end_marked_inv _ = False"

fun end_marked_rank :: "builtin_decoder \<Rightarrow> nat" where
  "end_marked_rank (BuiltinEmpty d) = (if metadata_emitted d then 0 else 1)"
| "end_marked_rank (BuiltinRaw d) = raw_rank (raw_phase d)"
| "end_marked_rank (BuiltinWarc d) = warc_rank (wd_state d)"
| "end_marked_rank _ = 0"

fun end_marked_allowance :: "builtin_decoder \<Rightarrow> nat option" where
  "end_marked_allowance (BuiltinRaw d) = raw_remaining d"
| "end_marked_allowance (BuiltinWarc d) = warc_allowance d"
| "end_marked_allowance _ = None"

fun end_marked_ready :: "builtin_decoder \<Rightarrow> end_of_input \<Rightarrow> bool" where
  "end_marked_ready (BuiltinEmpty d) e = (metadata_emitted d \<longrightarrow> e = End)"
| "end_marked_ready (BuiltinRaw d) e = (raw_phase d = RawDone \<longrightarrow> e = End)"
| "end_marked_ready (BuiltinWarc d) e = (warc_inv d \<and> wd_state d \<noteq> WarcDone)"
| "end_marked_ready _ e = False"

lemma end_marked_step_cases:
  assumes "builtin_step cap s xs e = (s', Inr d)" and "end_marked_inv s"
  obtains (Empty) a b where "s = BuiltinEmpty a" "s' = BuiltinEmpty b" "empty_step a xs e = (b, Inr d)"
  | (Raw) a b where "s = BuiltinRaw a" "s' = BuiltinRaw b" "raw_step a xs e = (b, Inr d)"
  | (Warc) a b where "s = BuiltinWarc a" "s' = BuiltinWarc b" "warc_step a xs e = (b, Inr d)" "warc_inv a"
  using assms by (cases s) (auto split: prod.splits)

lemma continues_wrap:
  assumes "continues step xs ys s1 d t whole" and "\<And>s xs e. step' (f s) xs e = (case step s xs e of (s', r) \<Rightarrow> (f s', r))"
  shows "continues step' xs ys (f s1) d (f t) whole"
  using assms by (fastforce simp: continues_def)

interpretation end_marked_chunks: chunked_decoder "builtin_step cap" end_marked_inv end_marked_rank end_marked_allowance for cap
proof unfold_locales
  fix s xs ys t whole
  assume "end_marked_inv s" and w: "builtin_step cap s (xs @ ys) End = (t, Inr whole)"
  from w this(1) show "\<exists>s1 d. builtin_step cap s xs More = (s1, Inr d) \<and> continues (builtin_step cap) xs ys s1 d t whole"
  proof (cases rule: end_marked_step_cases)
    case (Empty a b)
    with empty_chunks.chunk [OF _ Empty(3)] continues_wrap [of empty_step _ _ _ _ _ _ "builtin_step cap" BuiltinEmpty]
    show ?thesis by fastforce
  next
    case (Raw a b)
    with raw_chunks.chunk [OF _ Raw(3)] continues_wrap [of raw_step _ _ _ _ _ _ "builtin_step cap" BuiltinRaw]
    show ?thesis by fastforce
  next
    case (Warc a b)
    with warc_chunks.chunk [OF Warc(4,3)] continues_wrap [of warc_step _ _ _ _ _ _ "builtin_step cap" BuiltinWarc]
    show ?thesis by fastforce
  qed
next
  fix s xs e s' d
  assume i: "end_marked_inv s" and st: "builtin_step cap s xs e = (s', Inr d)"
  from st i show "end_marked_inv s'"
    by (cases rule: end_marked_step_cases) (auto dest: warc_dec.inv_step)
  from st i show "ds_consumed d \<le> length xs"
    by (cases rule: end_marked_step_cases) (auto dest: empty_dec.consumed_le [OF TrueI] raw_dec.consumed_le [OF TrueI] warc_dec.consumed_le)
  from st i show "ds_produced d = 0"
    by (cases rule: end_marked_step_cases) (auto dest: empty_dec.produced_0 [OF TrueI] raw_dec.produced_0 [OF TrueI] warc_dec.produced_0)
  fix r
  assume "end_marked_allowance s = Some r"
  with st i show "\<exists>r'. end_marked_allowance s' = Some r' \<and>
      length (case ds_event d of EvData bs \<Rightarrow> bs | _ \<Rightarrow> []) + r' \<le> r"
    by (cases rule: end_marked_step_cases) (auto dest: raw_dec.charge [OF TrueI] warc_dec.charge)
next
  fix s xs e s' d bs
  assume i: "end_marked_inv s" and st: "builtin_step cap s xs e = (s', Inr d)" and "ds_event d = EvData bs"
  with st i show "bs = take (ds_consumed d) xs \<and> bs \<noteq> []"
    by (cases rule: end_marked_step_cases) (auto dest: empty_dec.data_chunk [OF TrueI] raw_dec.data_chunk [OF TrueI] warc_dec.data_chunk)
next
  fix s xs s' d
  assume i: "end_marked_inv s" and st: "builtin_step cap s xs End = (s', Inr d)" and "ds_event d \<noteq> EvDone"
  with st i show "0 < ds_consumed d \<or> end_marked_rank s' < end_marked_rank s"
    by (cases rule: end_marked_step_cases) (auto simp: empty_step_def split: if_splits dest: raw_dec.live [OF TrueI] warc_dec.live)
qed

definition good_step :: "end_of_input \<Rightarrow> bytes \<Rightarrow> nat \<Rightarrow> nat \<Rightarrow> decode_step \<Rightarrow> bool" where
  "good_step e xs before after d \<longleftrightarrow>
     (case ds_event d of
        EvNeedInput \<Rightarrow> 0 < ds_consumed d \<or> xs = [] \<and> e = More
      | EvNeedOutput \<Rightarrow> False
      | EvDone \<Rightarrow> e = End
      | _ \<Rightarrow> 0 < ds_consumed d \<or> after < before)"

lemma warc_header_progress:
  assumes "warc_header_loop s xs c e = (s', Inr d)" and "wd_state s = WarcHeader" and "xs \<noteq> []"
  shows "c < ds_consumed d \<and> wd_state s' \<noteq> WarcDone \<and> (ds_event d = EvNeedInput \<or> (\<exists>md. ds_event d = EvEntry md))"
  using assms
proof (induction s xs c e rule: warc_header_loop.induct)
  case (2 s b bs c e)
  from 2(2) obtain s1 where s1: "append_header_byte s b = Inr s1" by (auto split: sum.splits)
  with 2(3) have w: "wd_state s1 = WarcHeader" using append_header_byte_ok(1) [OF s1] by simp
  show ?case
  proof (cases "ends_with (wd_header s1) HEADER_END \<or> bs = []")
    case True
    with 2(2) s1 w show ?thesis
      by (auto simp: Let_def dest!: warc_count_entry_ok split: sum.splits if_splits prod.splits)
  next
    case False
    with 2(1) [OF s1 _ _ w] 2(2) s1 show ?thesis by auto
  qed
qed simp

lemma trailer_loop_progress: "trailer_loop m xs c = Some (m', c') \<Longrightarrow> m < 4 \<Longrightarrow> xs \<noteq> [] \<Longrightarrow> c < c'"
  using trailer_loop_ok [of m xs c m' c'] by (cases xs) auto

lemma warc_step_progress:
  assumes "warc_step s xs e = (s', Inr d)" and "warc_inv s" and "wd_state s \<noteq> WarcDone" and "e = End \<Longrightarrow> xs = []"
  shows "good_step e xs (warc_rank (wd_state s)) (warc_rank (wd_state s')) d \<and> (ds_event d \<noteq> EvDone \<longrightarrow> wd_state s' \<noteq> WarcDone)"
proof (cases "wd_state s")
  case WarcHeader
  show ?thesis
  proof (cases "xs = []")
    case True
    with WarcHeader assms(1) show ?thesis
      by (cases e) (auto simp: warc_step_def warc_step_header_def good_step_def split: if_splits)
  next
    case False
    with WarcHeader assms(1) have "warc_header_loop s xs 0 e = (s', Inr d)" by (simp add: warc_step_def warc_step_header_def)
    from warc_header_progress [OF this WarcHeader False] show ?thesis by (auto simp: good_step_def)
  qed
next
  case (WarcData r)
  with assms(1) show ?thesis
    by (cases e) (auto simp: warc_step_def warc_step_data_def good_step_def Let_def u64_max_def split: if_splits option.splits)
next
  case (WarcTrailer m)
  with assms(1,2) obtain m' c' where t: "trailer_loop m xs 0 = Some (m', c')" "m < 4"
    by (auto simp: warc_step_def warc_step_trailer_def warc_inv_def split: option.splits)
  have "xs \<noteq> [] \<Longrightarrow> 0 < c'" "xs = [] \<Longrightarrow> m' = m" using trailer_loop_progress [OF t] t(1) by auto
  with t WarcTrailer assms(1,4) show ?thesis
    by (cases e) (auto simp: warc_step_def warc_step_trailer_def good_step_def Let_def split: if_splits)
qed (use assms(3) in simp)

lemma end_marked_progress:
  assumes "builtin_step cap s xs e = (s', Inr d)" and "end_marked_ready s e" and "e = End \<Longrightarrow> xs = []"
  shows "good_step e xs (end_marked_rank s) (end_marked_rank s') d \<and> (ds_event d \<noteq> EvDone \<longrightarrow> end_marked_ready s' e)"
proof -
  have i: "end_marked_inv s" using assms(2) by (cases s) auto
  from assms(1) i show ?thesis
  proof (cases rule: end_marked_step_cases)
    case (Empty a b)
    with assms(2,3) show ?thesis by (cases e) (auto simp: empty_step_def good_step_def split: if_splits)
  next
    case (Raw a b)
    with assms(2,3) show ?thesis
      by (cases e) (auto simp: raw_step_def good_step_def Let_def bindE_Inr_iff split: if_splits raw_phase.splits option.splits)
  next
    case (Warc a b)
    with warc_step_progress [OF Warc(3,4)] warc_dec.inv_step [OF Warc(4,3)] assms(2,3) show ?thesis by auto
  qed
qed

interpretation end_marked: pipelined_decoder "builtin_step cap" end_marked_inv end_marked_rank end_marked_allowance
    end_marked_ready for cap
proof unfold_locales
  fix s e
  show "end_marked_ready s e \<Longrightarrow> end_marked_inv s" by (cases s) auto
next
  fix s
  show "end_marked_ready s More \<Longrightarrow> end_marked_ready s End" by (cases s) auto
qed (auto simp: good_step_def dest!: end_marked_progress split: decode_event.splits)

section \<open>Reading is decoding\<close>

lemma end_marked_reader:
  assumes P_def: "P = provider_set (builtin_formats enabled z) C" and "fmt \<in> {Empty, Raw, Warc}" and "sequential z fmt l = Inr d" and "no_filter P input"
    and "DETECTION_MINIMUM \<le> pipeline_capacity l Detect"
  obtains r evs res where "reader_with_providers_and_format P (input, sizes) fmt l = Inr r"
    "read_all piece_read P r = Some (map event_of evs, map_sum StreamArchive id res)"
    "end_marked.runs cap d input evs res" "end_marked_inv d"
proof -
  have cap: "builtin_capability enabled fmt = CapAvailable \<lparr>fc_can_decode = True, fc_requires_seek_read = False\<rparr>"
    using assms(2) by (auto simp: builtin_capability_def ledger_format_def FORMAT_LEDGER_def format_id_defs)
  then have sel: "select_format P fmt = Inr fmt" "format_decoder P fmt l = Inr d" "format_capability P fmt =
      CapAvailable \<lparr>fc_can_decode = True, fc_requires_seek_read = False\<rparr>"
    using assms(3) by (simp_all add: P_def provider_set_def builtin_formats_def)
  then obtain r where r: "reader_with_providers_and_format P (input, sizes) fmt l = Inr r"
    by (simp add: reader_with_providers_and_format_def with_providers_and_format_def force_format_def)
  have "wd_state (warc_decoder_new l) = WarcHeader" by (simp add: warc_decoder_new_def)
  with assms(2,3) have ready: "end_marked_ready d More"
    by (auto simp: sequential_def empty_new_def raw_with_limits_def format_id_defs split: if_splits)
  have step: "decoder_step P c s xs e = (case builtin_step cap s xs e of (s', r) \<Rightarrow> (s', r))" if "end_marked_inv s" for c s xs e
    using that by (cases s) (simp_all add: P_def provider_set_def builtin_formats_def)
  from end_marked.reader_decodes [where wrap = "\<lambda>s. s", OF step sel(1,2) ready r assms(4,5)] that [OF r]
    end_marked.ready_inv [OF ready]
  show thesis by blast
qed

lemma builtin_codecs_no_filter:
  assumes "P = provider_set F (builtin_codecs decoder process)" and "filter_probe [x] = ProbeNoMatch"
  shows "no_filter P (x # input)"
proof -
  have "filter_probe (x # ys) = ProbeNoMatch" for ys
    using table_probe_no_match [of filter_table "[x]" ys] assms(2) by (simp add: filter_probe_table)
  then show ?thesis
    by (auto simp: no_filter_def assms(1) provider_set_def builtin_codecs_def Cons_eq_append_conv)
qed

text \<open>
  C7. Reading is decoding. Consider an \<open>ArchiveReader\<close> opened with the built-in formats, any codecs and
  an explicitly chosen format, which is the empty archive, the raw stream or WARC. Suppose the limits
  leave the pipeline at least the buffer size that detection needs, and the codecs say of every
  non-empty beginning of the input that it is no filter (neither one, nor perhaps the start of one; of
  an empty input only that it is not one). Then reading comes to an end, whatever the sizes of the reads
  from its byte source: what it reports is what the
  decoder reports for some division of the input into chunks, requests for input left out, and when
  the decoder accepts the input as a whole the reader reports the same events up to merging of
  adjacent payload chunks and ends without error.
\<close>

theorem reader_refines_decoder:
  assumes "P = provider_set (builtin_formats enabled z) C" and "fmt \<in> {Empty, Raw, Warc}"
    and "sequential z fmt l = Inr d" and "no_filter P input" and "DETECTION_MINIMUM \<le> pipeline_capacity l Detect"
  shows "\<exists>r evs evs' res. reader_with_providers_and_format P (input, sizes) fmt l = Inr r \<and>
    read_all piece_read P r = Some (map event_of evs, map_sum StreamArchive id res) \<and>
    presents (builtin_step cap) d input evs' res \<and> visible evs' = evs \<and>
    (\<forall>whole. decode_all (builtin_step cap) d input = Some (whole, Inr ()) \<longrightarrow> res = Inr () \<and> norm evs = norm whole)"
proof -
  obtain r evs res where r: "reader_with_providers_and_format P (input, sizes) fmt l = Inr r"
    "read_all piece_read P r = Some (map event_of evs, map_sum StreamArchive id res)"
    and run: "end_marked.runs cap d input evs res" "end_marked_inv d"
    using end_marked_reader [OF assms] by blast
  from run(1) obtain evs' where "presents (builtin_step cap) d input evs' res" "visible evs' = evs"
    by (auto simp: end_marked.runs_def)
  with r end_marked.runs_decode_all [OF run] show ?thesis by blast
qed

theorem reader_refines_decoder_witness:
  "\<exists>P r evs. P = provider_set (builtin_formats (\<lambda>_. True) 0) (builtin_codecs (\<lambda>_ _. Inr ()) (\<lambda>c xs n e. (c, Inr (codec_report 0 0 CodecDone, [])))) \<and>
     reader_with_providers_and_format P ([104, 105], [1, 1]) Raw limits_safe = Inr r \<and>
     read_all piece_read P r = Some (map event_of evs, Inr ()) \<and>
     norm evs = [EvArchiveMetadata archive_metadata_new, EvEntry raw_entry, EvData [104, 105], EvEndEntry, EvDone]"
proof -
  let ?P = "provider_set (builtin_formats (\<lambda>_. True) 0) (builtin_codecs (\<lambda>_ _. Inr ()) (\<lambda>c xs n e. (c, Inr (codec_report 0 0 CodecDone, []))))"
  have "filter_probe [104] = ProbeNoMatch"
    by (simp add: filter_probe_def BZIP2_PREFIX_def SIGNATURES_def starts_with_def ascii_def u64_max_def)
  then have nf: "no_filter ?P [104, 105]" by (rule builtin_codecs_no_filter [OF refl])
  have d: "sequential 0 Raw limits_safe = Inr (BuiltinRaw (raw_with_limits limits_safe))"
    by (simp add: sequential_def format_id_defs)
  have whole: "decode_all (builtin_step 0) (BuiltinRaw (raw_with_limits limits_safe)) [104, 105] =
      Some ([EvArchiveMetadata archive_metadata_new, EvEntry raw_entry, EvData [104, 105], EvEndEntry, EvDone], Inr ())"
    using raw_entry_wf
    by (simp add: decode_all.simps [of "builtin_step 0" _ "[104, 105]"] decode_all.simps [of "builtin_step 0" _ "[]"]
        raw_step_def raw_with_limits_def Let_def limits_safe_def FOUR_GIB_def raw_entry_def [symmetric])
  from reader_refines_decoder [OF refl _ d nf, of "[1, 1]" 0] whole show ?thesis
    by (fastforce simp: pipeline_capacity_def limits_safe_def BUFFER_def DETECTION_MINIMUM_def u64_max_def norm_Cons)
qed

section \<open>From WARC records to reader events\<close>





section \<open>Where the pipeline is stricter than a decoder\<close>

definition empty_table_archive :: bytes where
  "empty_table_archive = AR_MAGIC @ ascii ''/               0           0     0     0       0         '' @ [96, 10]"

lemma magics_differ: "AR_MAGIC \<noteq> AR_THIN_MAGIC"
  by (simp add: AR_MAGIC_def AR_THIN_MAGIC_def ascii_def)

lemma empty_table_steps:
  fixes l :: limits
  defines "s \<equiv> (ar_decoder_new l)\<lparr>ar_state := ArSpecial 0 0 False\<rparr>"
  shows "length empty_table_archive = 68"
    "ar_step (ar_decoder_new l) empty_table_archive e = (s, Inr (dstep 68 EvNeedInput))"
    "ar_step s [] End = ((ar_decoder_new l)\<lparr>ar_state := ArHeader\<rparr>, Inr (dstep 0 EvNeedInput))"
    "ar_step ((ar_decoder_new l)\<lparr>ar_state := ArHeader\<rparr>) [] End = ((ar_decoder_new l)\<lparr>ar_state := ArDone\<rparr>, Inr (dstep 0 EvDone))"
proof -
  show len: "length empty_table_archive = 68" by (simp add: empty_table_archive_def ascii_def)
  have "ar_member (ar_decoder_new l\<lparr>ar_state := ArHeader\<rparr>) (drop 8 empty_table_archive) 68 = (s, Inr (dstep 68 EvNeedInput))"
    by (simp add: ar_member_def ar_header_fields_def ar_layout ar_field_def slice_def rtrim.simps empty_table_archive_def ascii_def
        ar_parse_octal_def ar_parse_decimal_def ar_usize_of_def is_ascii_digit_def checked_mul_def checked_add_def u64_max_def
        s_def ar_decoder_new_def Let_def)
  then show "ar_step (ar_decoder_new l) empty_table_archive e = (s, Inr (dstep 68 EvNeedInput))"
    using len
    by (simp add: ar_step_def magics_differ ar_step_magic_def ar_step_header_def ar_fill_def ar_decoder_new_def AR_HEADER_def Let_def
        empty_table_archive_def)
qed (simp_all add: s_def ar_step_def ar_step_special_def ar_step_header_def ar_decoder_new_def)

lemma ar_table_ends:
  assumes "\<And>cap d xs e. decoder_step P cap (BuiltinAr d) xs e = (case ar_step d xs e of (d', r) \<Rightarrow> (BuiltinAr d', r))"
    and "reading p (BuiltinAr ((ar_decoder_new l)\<lparr>ar_state := ArSpecial 0 0 False\<rparr>)) []" and "pl_input_finished p"
  shows "\<exists>p'. poll_event P p = Some (p', Inl (plain_error ErrMalformed ''archive ended before the decoder reached Done''))"
proof -
  let ?p = "p\<lparr>pl_event_data := []\<rparr>"
  have rd: "reading ?p (BuiltinAr ((ar_decoder_new l)\<lparr>ar_state := ArSpecial 0 0 False\<rparr>)) []" using assms(2) by simp
  have fin: "plain ?p = []" "plain_finished ?p" using layerless(1,2) [OF readingD(1) [OF rd]] readingD(6) [OF rd] assms(3) by simp_all
  let ?q = "settle (dstep 0 EvNeedInput) (?p\<lparr>pl_decoder := Some (BuiltinAr ((ar_decoder_new l)\<lparr>ar_state := ArHeader\<rparr>))\<rparr>)"
  have q: "plain_finished ?q"
    using settle_reading [OF rd, of "dstep 0 EvNeedInput"] layerless(2) [OF readingD(1)] assms(3) readingD(6) [OF rd] by fastforce
  have "decoder_call P ?p = (?p\<lparr>pl_decoder := Some (BuiltinAr ((ar_decoder_new l)\<lparr>ar_state := ArHeader\<rparr>))\<rparr>, Inr (dstep 0 EvNeedInput))"
    using fin readingD(4) [OF rd] empty_table_steps(3) [of l] assms(1)
    by (simp add: decoder_call_def decode_validate_def)
  then have "poll_round P ?p = PollReturn (?q, Inl (plain_error ErrMalformed ''archive ended before the decoder reached Done''))"
    using q by (simp add: poll_round_def decoder_needs_input_def Let_def)
  with poll_loop_calls [OF rd, of P] assms(3) poll_event_reading [OF assms(2), of P] show ?thesis by simp
qed

lemma ar_table_read:
  assumes "\<And>cap d xs e. decoder_step P cap (BuiltinAr d) xs e = (case ar_step d xs e of (d', r) \<Rightarrow> (BuiltinAr d', r))"
    and "reading p (BuiltinAr (ar_decoder_new l)) []" and "pl_input p = empty_table_archive"
  shows "\<exists>p'. poll_event P p = Some (p', Inr PipeNeedInput) \<and> \<not> pl_input_finished p' \<and> pl_input p' = [] \<and>
    reading p' (BuiltinAr ((ar_decoder_new l)\<lparr>ar_state := ArSpecial 0 0 False\<rparr>)) []"
proof -
  let ?p = "p\<lparr>pl_event_data := []\<rparr>" and ?d = "BuiltinAr ((ar_decoder_new l)\<lparr>ar_state := ArSpecial 0 0 False\<rparr>)"
  have rd: "reading ?p (BuiltinAr (ar_decoder_new l)) []" using assms(2) by simp
  have in_p: "pl_input ?p \<noteq> []" "\<not> pl_input_finished ?p" using assms(3) empty_table_steps(1) readingD(6) [OF rd] by auto
  let ?q = "settle (dstep 68 EvNeedInput) (?p\<lparr>pl_decoder := Some ?d\<rparr>)"
  have q: "reading ?q ?d []" "pl_input ?q = []" "\<not> pl_input_finished ?q"
    using settle_reading [OF rd, of "dstep 68 EvNeedInput" ?d] assms(3) empty_table_steps(1) in_p(2) by simp_all
  have "decoder_call P ?p = (?p\<lparr>pl_decoder := Some ?d\<rparr>, Inr (dstep 68 EvNeedInput))"
    using layerless(1) [OF readingD(1) [OF rd]] readingD(4) [OF rd] empty_table_steps(1) empty_table_steps(2) [of l] assms(1,3)
    by (simp add: decoder_call_def decode_validate_def)
  moreover have "\<not> plain_finished ?q" using q layerless(2) [OF readingD(1) [OF q(1)]] by simp
  ultimately have "poll_round P ?p = PollAgain ?q" by (simp add: poll_round_def decoder_needs_input_def Let_def)
  then have "poll_event P p = poll_loop P ?q"
    using poll_loop_calls [OF rd, of P] in_p(1) poll_event_reading [OF assms(2), of P] by simp
  with q poll_loop_waits [OF q] show ?thesis by auto
qed

text \<open>
  C37. The \<open>ar\<close> decoder answers a special member without content by asking for input, at the end of the
  input as well, and is done in the step after that. The pipeline takes the request at the end for a
  truncated archive: an archive whose last member is an empty symbol table decodes, but cannot be
  read through the pipeline.
\<close>

theorem ar_empty_special_member_refused:
  assumes "P = provider_set (builtin_formats enabled z) (builtin_codecs decoder process)"
    and "with_providers_and_format P l Ar = Inr p0" and "DETECTION_MINIMUM \<le> pipeline_capacity l Detect"
  shows "decode_all ar_step (ar_decoder_new l) empty_table_archive = Some ([EvNeedInput, EvNeedInput, EvDone], Inr ()) \<and>
    (\<exists>p1 p2 p3 p4. feed empty_table_archive p0 = (p1, Inr 68) \<and> poll_event P p1 = Some (p2, Inr PipeNeedInput) \<and>
       finish_input p2 = (p3, Inr ()) \<and>
       poll_event P p3 = Some (p4, Inl (plain_error ErrMalformed ''archive ended before the decoder reached Done'')))"
proof
  show "decode_all ar_step (ar_decoder_new l) empty_table_archive = Some ([EvNeedInput, EvNeedInput, EvDone], Inr ())"
    by (simp add: decode_all.simps [of ar_step _ empty_table_archive] decode_all.simps [of ar_step _ "[]"] empty_table_steps)
  let ?s = "(ar_decoder_new l)\<lparr>ar_state := ArSpecial 0 0 False\<rparr>"
  let ?go = "\<lambda>p. p\<lparr>pl_decoder := Some (BuiltinAr (ar_decoder_new l)), pl_format := Some Ar, pl_forced_format := None\<rparr>"
  have p0: "p0 = (with_filter_mode l Detect)\<lparr>pl_forced_format := Some Ar\<rparr>"
    using assms(2) by (auto simp: with_providers_and_format_def force_format_def split: provider_capability.splits if_splits)
  define p1 where "p1 = p0\<lparr>pl_input := empty_table_archive, pl_input_start := 0\<rparr>"
  have feed: "feed empty_table_archive p0 = (p1, Inr 68)"
    using assms(3) empty_table_steps(1)
    by (simp add: feed_def p0 p1_def with_filter_mode_def Let_def DETECTION_MINIMUM_def)
  have "filter_probe [33] = ProbeNoMatch"
    by (simp add: filter_probe_def BZIP2_PREFIX_def SIGNATURES_def starts_with_def ascii_def u64_max_def)
  moreover obtain rest where "empty_table_archive = 33 # rest"
    by (simp add: empty_table_archive_def AR_MAGIC_def ascii_def)
  ultimately have nf: "no_filter P empty_table_archive" using builtin_codecs_no_filter [OF assms(1)] by metis
  have st: "starting p1 Ar []" "pl_input p1 = empty_table_archive" "pl_limits p1 = l"
    using assms(3) empty_table_steps(1)
    by (simp_all add: starting_def idle_def reading_def p1_def p0 with_filter_mode_def Let_def DETECTION_MINIMUM_def)
  have sel: "select_format P Ar = Inr Ar" "format_decoder P Ar l = Inr (BuiltinAr (ar_decoder_new l))"
    by (simp_all add: assms(1) provider_set_def builtin_formats_def builtin_capability_def ledger_format_def FORMAT_LEDGER_def
        sequential_def format_id_defs)
  have poll: "poll_event P p1 = poll_event P (?go p1)"
    by (rule starting_detects [OF st(1)]) (use st sel nf empty_table_steps(1) in auto)
  have rd: "reading (?go p1) (BuiltinAr (ar_decoder_new l)) []" using st(1) by (simp add: starting_def idle_def reading_def)
  have step: "decoder_step P cap (BuiltinAr d) xs e = (case ar_step d xs e of (d', r) \<Rightarrow> (BuiltinAr d', r))" for cap d xs e
    by (simp add: assms(1) provider_set_def builtin_formats_def)
  obtain p2 where p2: "poll_event P (?go p1) = Some (p2, Inr PipeNeedInput)" "\<not> pl_input_finished p2" "pl_input p2 = []"
    "reading p2 (BuiltinAr ?s) []" using ar_table_read [OF step rd] st(2) by auto
  let ?p3 = "p2\<lparr>pl_input_finished := True\<rparr>"
  have p3: "finish_input p2 = (?p3, Inr ())" "reading ?p3 (BuiltinAr ?s) []"
    using p2(2-4) by (simp_all add: finish_input_def reading_def)
  from ar_table_ends [OF step p3(2)] feed poll p2(1) p3(1)
  show "\<exists>p1 p2 p3 p4. feed empty_table_archive p0 = (p1, Inr 68) \<and> poll_event P p1 = Some (p2, Inr PipeNeedInput) \<and>
       finish_input p2 = (p3, Inr ()) \<and>
       poll_event P p3 = Some (p4, Inl (plain_error ErrMalformed ''archive ended before the decoder reached Done''))"
    by auto
qed

theorem ar_empty_special_member_refused_witness:
  "\<exists>P p0 p1 p2 p3 p4. P = provider_set (builtin_formats (\<lambda>_. True) 0) (builtin_codecs (\<lambda>_ _. Inr ()) (\<lambda>c xs n e. (c, Inr (codec_report 0 0 CodecDone, [])))) \<and>
     with_providers_and_format P limits_safe Ar = Inr p0 \<and> feed empty_table_archive p0 = (p1, Inr 68) \<and>
     poll_event P p1 = Some (p2, Inr PipeNeedInput) \<and> finish_input p2 = (p3, Inr ()) \<and>
     poll_event P p3 = Some (p4, Inl (plain_error ErrMalformed ''archive ended before the decoder reached Done''))"
proof -
  let ?P = "provider_set (builtin_formats (\<lambda>_. True) 0) (builtin_codecs (\<lambda>_ _. Inr ()) (\<lambda>c xs n e. (c, Inr (codec_report 0 0 CodecDone, []))))"
  obtain p0 where p0: "with_providers_and_format ?P limits_safe Ar = Inr p0"
    by (simp add: with_providers_and_format_def force_format_def provider_set_def builtin_formats_def builtin_capability_def
        ledger_format_def FORMAT_LEDGER_def format_id_defs)
  have "DETECTION_MINIMUM \<le> pipeline_capacity limits_safe Detect"
    by (simp add: pipeline_capacity_def limits_safe_def BUFFER_def DETECTION_MINIMUM_def u64_max_def)
  from ar_empty_special_member_refused [OF refl p0 this] p0 show ?thesis by blast
qed

end
