(* ===== verification/Oxide_Lzx_Bits.thy ===== *)
theory Oxide_Lzx_Bits
  imports Oxide_Prelude
begin

text \<open>
  The bit reader of the LZX decoder: \<open>libarchive_oxide-codecs/src/lzx/bitstream.rs\<close>, with the error
  type of \<open>lzx/mod.rs\<close>. The source keeps the unread bits of the current 16-bit word at the top of a
  rotated register; the theory proves that every operation is the obvious one on the list of unread
  bits.

  A bitstream lives only inside one call of \<open>decompress_next\<close>, and every error ends that call. So the
  operations return a new bitstream only together with a result.
\<close>

section \<open>Errors\<close>

datatype decode_failed =
    OverreadBlock
  | OverreadChunk
  | ZeroProgress
  | UnexpectedEof
  | InvalidBlock nat
  | InvalidBlockSize nat
  | InvalidPretreeElement nat
  | InvalidPretreeRle
  | InvalidPathLengths
  | EmptyTree
  | InvalidBitCount nat
  | InvalidMatchOffset nat
  | InvalidPositionSlot nat
  | WindowTooSmall
  | ChunkTooLong
  | AllocationFailed
  | ArithmeticOverflow

section \<open>The reader\<close>

type_synonym u16 = "16 word"
type_synonym u32 = "32 word"

record bitstream =
  bs_buffer :: bytes
  bs_n :: u16
  bs_remaining :: nat

definition bitstream_new :: "bytes \<Rightarrow> bitstream" where
  "bitstream_new buffer = \<lparr>bs_buffer = buffer, bs_n = 0, bs_remaining = 0\<rparr>"

definition u16_from_le_bytes :: "byte \<Rightarrow> byte \<Rightarrow> u16" where
  "u16_from_le_bytes a b = ucast a OR push_bit 8 (ucast b)"

definition advance_buffer :: "bitstream \<Rightarrow> decode_failed + bitstream" where
  "advance_buffer s =
     (if length (bs_buffer s) < 2 then Inl UnexpectedEof
      else Inr \<lparr>bs_buffer = drop 2 (bs_buffer s), bs_n = u16_from_le_bytes (bs_buffer s ! 0) (bs_buffer s ! 1),
                bs_remaining = 16\<rparr>)"

definition low_mask :: "nat \<Rightarrow> decode_failed + u16" where
  "low_mask bits =
     (if bits = 0 then Inr 0
      else if bits \<le> 15 then Inr (push_bit bits 1 - 1)
      else if bits = 16 then Inr (- 1)
      else Inl (InvalidBitCount bits))"

definition read_bit :: "bitstream \<Rightarrow> decode_failed + (u16 \<times> bitstream)" where
  "read_bit s =
     bindE (if bs_remaining s = 0 then advance_buffer s else Inr s) (\<lambda>s.
       let n = word_rotl 1 (bs_n s) in Inr (n AND 1, s\<lparr>bs_remaining := bs_remaining s - 1, bs_n := n\<rparr>))"

definition read_byte :: "bitstream \<Rightarrow> (byte \<times> bitstream) option" where
  "read_byte s =
     (case bs_buffer s of [] \<Rightarrow> None | b # bs \<Rightarrow> Some (b, s\<lparr>bs_buffer := bs\<rparr>))"

text \<open>The two halves of a value that crosses a word boundary.\<close>

definition combine_words :: "u16 \<Rightarrow> u16 \<Rightarrow> nat \<Rightarrow> decode_failed + u16" where
  "combine_words hi lo bits =
     (let combined = push_bit bits (ucast hi :: u32) OR ucast lo
      in if combined < 0x10000 then Inr (ucast combined) else Inl ArithmeticOverflow)"

definition read_bits_oneword :: "nat \<Rightarrow> bitstream \<Rightarrow> decode_failed + (u16 \<times> bitstream)" where
  "read_bits_oneword bits s =
     (if 16 < bits \<or> 16 < bs_remaining s then Inl (InvalidBitCount bits)
      else if bits \<le> bs_remaining s then
        (let n = word_rotl bits (bs_n s) in
         bindE (low_mask bits) (\<lambda>msk. Inr (n AND msk, s\<lparr>bs_remaining := bs_remaining s - bits, bs_n := n\<rparr>)))
      else
        bindE (low_mask (bs_remaining s)) (\<lambda>msk.
        let hi = word_rotl (bs_remaining s) (bs_n s) AND msk; rest = bits - bs_remaining s in
        bindE (advance_buffer s) (\<lambda>s1.
        let n = word_rotl rest (bs_n s1) in
        bindE (low_mask rest) (\<lambda>msk1.
        bindE (combine_words hi (n AND msk1) rest) (\<lambda>v.
        Inr (v, s1\<lparr>bs_remaining := bs_remaining s1 - rest, bs_n := n\<rparr>))))))"

definition read_bits :: "nat \<Rightarrow> bitstream \<Rightarrow> decode_failed + (u32 \<times> bitstream)" where
  "read_bits bits s =
     (if bits \<le> 16 then bindE (read_bits_oneword bits s) (\<lambda>(v, s1). Inr (ucast v, s1))
      else if 32 < bits then Inl (InvalidBitCount bits)
      else
        bindE (read_bits_oneword 16 s) (\<lambda>(w0, s1).
        bindE (read_bits_oneword (bits - 16) s1) (\<lambda>(w1, s2).
        Inr (push_bit (bits - 16) (ucast w0) OR ucast w1, s2))))"

definition peek_bits_oneword :: "nat \<Rightarrow> bitstream \<Rightarrow> decode_failed + u16" where
  "peek_bits_oneword bits s =
     (if 16 < bits \<or> 16 < bs_remaining s then Inl (InvalidBitCount bits)
      else if bits \<le> bs_remaining s then
        bindE (low_mask bits) (\<lambda>msk. Inr (word_rotl bits (bs_n s) AND msk))
      else
        bindE (low_mask (bs_remaining s)) (\<lambda>msk.
        let hi = word_rotl (bs_remaining s) (bs_n s) AND msk; rest = bits - bs_remaining s;
            n = (if length (bs_buffer s) < 2 then 0 else u16_from_le_bytes (bs_buffer s ! 0) (bs_buffer s ! 1)) in
        bindE (low_mask rest) (\<lambda>msk1. combine_words hi (word_rotl rest n AND msk1) rest)))"

definition peek_bits :: "nat \<Rightarrow> bitstream \<Rightarrow> decode_failed + u32" where
  "peek_bits bits s =
     (if bits \<le> 16 then bindE (peek_bits_oneword bits s) (\<lambda>v. Inr (ucast v))
      else if 32 < bits then Inl (InvalidBitCount bits)
      else
        bindE (read_bits_oneword 16 s) (\<lambda>(w0, s1).
        bindE (peek_bits_oneword (bits - 16) s1) (\<lambda>w1.
        Inr (push_bit (bits - 16) (ucast w0) OR ucast w1))))"

definition read_u32_le :: "bitstream \<Rightarrow> decode_failed + (u32 \<times> bitstream)" where
  "read_u32_le s =
     bindE (read_bits_oneword 16 s) (\<lambda>(lo, s1).
     bindE (read_bits_oneword 16 s1) (\<lambda>(hi, s2).
     Inr (ucast lo OR push_bit 16 (ucast hi), s2)))"

definition read_u24_be :: "bitstream \<Rightarrow> decode_failed + (u32 \<times> bitstream)" where
  "read_u24_be s =
     bindE (read_bits 16 s) (\<lambda>(hi, s1).
     bindE (read_bits 8 s1) (\<lambda>(lo, s2).
     Inr (push_bit 8 hi OR lo, s2)))"

definition align :: "bitstream \<Rightarrow> decode_failed + bitstream" where
  "align s =
     (if bs_remaining s = 0 then bindE (read_bits 16 s) (\<lambda>(_, s1). Inr s1)
      else Inr (s\<lparr>bs_remaining := 0\<rparr>))"

definition read_raw :: "nat \<Rightarrow> bitstream \<Rightarrow> decode_failed + (bytes \<times> bitstream)" where
  "read_raw len s =
     (if length (bs_buffer s) < len then Inl UnexpectedEof
      else Inr (take len (bs_buffer s), s\<lparr>bs_buffer := drop len (bs_buffer s)\<rparr>))"

section \<open>The unread bits\<close>

definition word_bits :: "u16 \<Rightarrow> bool list" where
  "word_bits w = map (\<lambda>i. bit w (15 - i)) [0..<16]"

fun buffer_bits :: "bytes \<Rightarrow> bool list" where
  "buffer_bits (a # b # bs) = word_bits (u16_from_le_bytes a b) @ buffer_bits bs"
| "buffer_bits _ = []"

definition unread :: "bitstream \<Rightarrow> bool list" where
  "unread s = take (bs_remaining s) (word_bits (bs_n s)) @ buffer_bits (bs_buffer s)"

definition bits_value :: "bool list \<Rightarrow> 'a::len word" where
  "bits_value bs = horner_sum of_bool 2 (rev bs)"

definition stream_ok :: "bitstream \<Rightarrow> bool" where
  "stream_ok s \<longleftrightarrow> bs_remaining s \<le> 16"

lemma word_bits_nth [simp]: "i < 16 \<Longrightarrow> word_bits w ! i = bit w (15 - i)" "length (word_bits w) = 16"
  by (simp_all add: word_bits_def)

lemma bit_bits_value:
  "bit (bits_value bs :: 'a::len word) i \<longleftrightarrow> i < LENGTH('a) \<and> i < length bs \<and> bs ! (length bs - Suc i)"
  by (auto simp: bits_value_def bit_horner_sum_bit_word_iff rev_nth)

lemma low_mask_ok: "bits \<le> 16 \<Longrightarrow> low_mask bits = Inr (mask bits)"
proof -
  assume *: "bits \<le> 16"
  have "(- 1 :: u16) = mask 16" by (simp add: mask_eq_exp_minus_1)
  with * show ?thesis by (auto simp: low_mask_def mask_eq_exp_minus_1 push_bit_eq_mult)
qed

lemma rotl_bit:
  fixes n :: u16
  assumes "k \<le> 16" and "i < 16"
  shows "bit (word_rotl k n) i = bit n (if k \<le> i then i - k else 16 + i - k)"
proof (cases "k = 16")
  case True
  with assms show ?thesis by (simp add: bit_word_rotl_iff)
next
  case False
  with assms have "(i + (16 - k mod 16)) mod 16 = (if k \<le> i then i - k else 16 + i - k)"
    by (auto simp: mod_if)
  with assms show ?thesis by (simp add: bit_word_rotl_iff)
qed

lemma top_bits:
  fixes n :: u16
  assumes "k \<le> 16"
  shows "word_rotl k n AND mask k = bits_value (take k (word_bits n))"
proof (rule bit_word_eqI)
  fix i
  assume i: "i < LENGTH(16)"
  show "bit (word_rotl k n AND mask k) i = bit (bits_value (take k (word_bits n)) :: u16) i"
  proof (cases "i < k")
    case True
    then have "15 - (k - Suc i) = 16 + i - k" using assms i by auto
    with True assms i show ?thesis by (simp add: bit_bits_value bit_and_iff bit_mask_iff rotl_bit)
  qed (use assms i in \<open>simp add: bit_bits_value bit_and_iff bit_mask_iff\<close>)
qed

lemma rotated_bits:
  fixes n :: u16
  assumes "k \<le> r" and "r \<le> 16"
  shows "take (r - k) (word_bits (word_rotl k n)) = drop k (take r (word_bits n))"
proof (rule nth_equalityI)
  fix i
  assume "i < length (take (r - k) (word_bits (word_rotl k n)))"
  then have "i < r - k" "k \<le> 15 - i" "15 - i - k = 15 - (k + i)" using assms by auto
  with assms show "take (r - k) (word_bits (word_rotl k n)) ! i = drop k (take r (word_bits n)) ! i"
    by (simp add: rotl_bit)
qed (use assms in simp)

lemma append_value:
  assumes "length xs + length ys \<le> LENGTH('a)"
  shows "push_bit (length ys) (bits_value xs) OR bits_value ys = (bits_value (xs @ ys) :: 'a::len word)"
proof (rule bit_word_eqI)
  fix n
  assume n: "n < LENGTH('a)"
  show "bit (push_bit (length ys) (bits_value xs) OR bits_value ys :: 'a word) n = bit (bits_value (xs @ ys) :: 'a word) n"
  proof (cases "n < length ys")
    case True
    then have "\<not> length xs + length ys - Suc n < length xs" "length xs + length ys - Suc n - length xs = length ys - Suc n" by auto
    with True n show ?thesis by (simp add: bit_bits_value bit_or_iff bit_push_bit_iff nth_append)
  next
    case False
    then have "length ys \<le> n" "length xs + length ys - Suc n = length xs - Suc (n - length ys)" by auto
    with False n show ?thesis
      by (auto simp: bit_bits_value bit_or_iff bit_push_bit_iff nth_append less_diff_conv2)
  qed
qed

lemma ucast_value:
  assumes "length bs \<le> LENGTH('a)"
  shows "(ucast (bits_value bs :: 'a::len word) :: 'b::len word) = bits_value bs"
  using assms by (auto intro!: bit_word_eqI simp: bit_bits_value bit_ucast_iff)

lemma combine_words_ok:
  assumes "length xs + length ys \<le> 16"
  shows "combine_words (bits_value xs) (bits_value ys) (length ys) = Inr (bits_value (xs @ ys))"
proof -
  have c: "push_bit (length ys) (ucast (bits_value xs :: u16)) OR ucast (bits_value ys :: u16) = (bits_value (xs @ ys) :: u32)"
    using assms append_value [of xs ys, where 'a = 32] by (simp add: ucast_value)
  have "(bits_value (xs @ ys) :: u32) = ucast (bits_value (xs @ ys) :: u16)" using assms by (simp add: ucast_value)
  moreover have "ucast w < (0x10000 :: u32)" for w :: u16
  proof -
    have "unat w < 0x10000" using unsigned_less [of w] by simp
    then show ?thesis by (simp add: word_less_nat_alt unsigned_ucast_eq take_bit_nat_eq_self)
  qed
  ultimately have "(bits_value (xs @ ys) :: u32) < 0x10000" by simp
  moreover have "ucast (bits_value (xs @ ys) :: u32) = (bits_value (xs @ ys) :: u16)" using assms by (intro ucast_value) simp
  ultimately show ?thesis unfolding combine_words_def c Let_def by simp
qed

lemma unread_advance:
  "advance_buffer s = (if length (bs_buffer s) < 2 then Inl UnexpectedEof
     else Inr \<lparr>bs_buffer = drop 2 (bs_buffer s), bs_n = u16_from_le_bytes (bs_buffer s ! 0) (bs_buffer s ! 1), bs_remaining = 16\<rparr>)"
  "\<not> length bs < 2 \<Longrightarrow> buffer_bits bs = word_bits (u16_from_le_bytes (bs ! 0) (bs ! 1)) @ buffer_bits (drop 2 bs)"
  "length bs < 2 \<Longrightarrow> buffer_bits bs = []"
  by (simp add: advance_buffer_def) (cases bs rule: buffer_bits.cases; simp)+

text \<open>The step every reading operation rests on.\<close>

lemma read_oneword:
  assumes "stream_ok s" and "k \<le> 16"
  shows "if k \<le> length (unread s)
    then \<exists>s'. read_bits_oneword k s = Inr (bits_value (take k (unread s)), s') \<and> stream_ok s' \<and> unread s' = drop k (unread s)
    else read_bits_oneword k s = Inl UnexpectedEof"
proof (cases "k \<le> bs_remaining s")
  case True
  let ?r = "bs_remaining s"
  have r: "?r \<le> 16" using assms(1) by (simp add: stream_ok_def)
  with True have "k \<le> length (unread s)" by (simp add: unread_def)
  moreover have "take k (unread s) = take k (word_bits (bs_n s))" using True r by (simp add: unread_def min_def)
  moreover have "read_bits_oneword k s = Inr (bits_value (take k (word_bits (bs_n s))),
      s\<lparr>bs_remaining := ?r - k, bs_n := word_rotl k (bs_n s)\<rparr>)"
    using True r assms(2) by (simp add: read_bits_oneword_def Let_def low_mask_ok top_bits)
  moreover have "take (?r - k) (word_bits (word_rotl k (bs_n s))) @ buffer_bits (bs_buffer s) = drop k (unread s)"
    using True r by (simp add: unread_def rotated_bits)
  ultimately show ?thesis using r by (auto simp: stream_ok_def unread_def)
next
  case False
  let ?r = "bs_remaining s" and ?b = "bs_buffer s"
  have r: "?r \<le> 16" "\<not> 16 < ?r" using assms(1) by (simp_all add: stream_ok_def)
  have hi: "word_rotl ?r (bs_n s) AND mask ?r = bits_value (take ?r (word_bits (bs_n s)))" using r by (rule_tac top_bits)
  show ?thesis
  proof (cases "length ?b < 2")
    case True
    with False r have "\<not> k \<le> length (unread s)" by (simp add: unread_def unread_advance(3))
    with True False assms(2) r show ?thesis by (simp add: read_bits_oneword_def Let_def low_mask_ok advance_buffer_def)
  next
    case more: False
    let ?w = "u16_from_le_bytes (?b ! 0) (?b ! 1)" and ?k = "k - ?r"
    have k: "?k \<le> 16" "length (take ?r (word_bits (bs_n s))) + length (take ?k (word_bits ?w)) \<le> 16" "length (take ?k (word_bits ?w)) = ?k"
      using assms(2) r False by auto
    have comb: "combine_words (bits_value (take ?r (word_bits (bs_n s)))) (bits_value (take ?k (word_bits ?w))) ?k =
        Inr (bits_value (take ?r (word_bits (bs_n s)) @ take ?k (word_bits ?w)))"
      using combine_words_ok [OF k(2)] k(3) by simp
    have u: "unread s = take ?r (word_bits (bs_n s)) @ word_bits ?w @ buffer_bits (drop 2 ?b)"
      using unread_advance(2) [OF more] by (simp add: unread_def)
    have "read_bits_oneword k s = Inr (bits_value (take ?r (word_bits (bs_n s)) @ take ?k (word_bits ?w)),
        \<lparr>bs_buffer = drop 2 ?b, bs_n = word_rotl ?k ?w, bs_remaining = 16 - ?k\<rparr>)"
      using False assms(2) r k(1) more comb
      by (simp add: read_bits_oneword_def Let_def low_mask_ok advance_buffer_def hi top_bits)
    moreover have "k \<le> length (unread s)" "take k (unread s) = take ?r (word_bits (bs_n s)) @ take ?k (word_bits ?w)"
      using u False assms(2) r by auto
    moreover have "take (16 - ?k) (word_bits (word_rotl ?k ?w)) @ buffer_bits (drop 2 ?b) = drop k (unread s)"
      using u False r rotated_bits [of ?k 16 ?w] k(1) by (simp add: drop_append)
    ultimately show ?thesis by (auto simp: stream_ok_def unread_def)
  qed
qed

lemma read_bits_unread:
  assumes "stream_ok s" and "k \<le> 32"
  shows "if k \<le> length (unread s)
    then \<exists>s'. read_bits k s = Inr (bits_value (take k (unread s)), s') \<and> stream_ok s' \<and> unread s' = drop k (unread s)
    else read_bits k s = Inl UnexpectedEof"
proof (cases "k \<le> 16")
  case True
  with read_oneword [OF assms(1) True] show ?thesis
    by (auto simp: read_bits_def ucast_value split: if_splits)
next
  case False
  note w0 = read_oneword [OF assms(1), of 16]
  show ?thesis
  proof (cases "16 \<le> length (unread s)")
    case True
    with w0 obtain s1 where s1: "read_bits_oneword 16 s = Inr (bits_value (take 16 (unread s)), s1)" "stream_ok s1"
      "unread s1 = drop 16 (unread s)" by auto
    have k: "k - 16 \<le> 16" using assms(2) by simp
    note w1 = read_oneword [OF s1(2) k]
    have "take k (unread s) = take 16 (unread s) @ take (k - 16) (drop 16 (unread s))"
      using False by (simp flip: take_add)
    moreover have "push_bit (k - 16) (ucast (bits_value (take 16 (unread s)) :: u16)) OR
        ucast (bits_value (take (k - 16) (unread s1)) :: u16) = (bits_value (take 16 (unread s) @ take (k - 16) (unread s1)) :: u32)"
      if "k - 16 \<le> length (unread s1)"
      using append_value [of "take 16 (unread s)" "take (k - 16) (unread s1)", where 'a = 32] that assms(2) True
      by (simp add: ucast_value)
    ultimately show ?thesis
      using w1 s1 False assms(2) True
      by (auto simp: read_bits_def split: if_splits)
  next
    case less: False
    with w0 False assms(2) show ?thesis by (auto simp: read_bits_def)
  qed
qed

lemma peek_oneword:
  assumes "stream_ok s" and "k \<le> 16"
  shows "peek_bits_oneword k s = Inr (bits_value (take k (unread s @ replicate 16 False)))"
proof (cases "k \<le> bs_remaining s")
  case True
  have "bs_remaining s \<le> 16" using assms(1) by (simp add: stream_ok_def)
  with True assms(2) show ?thesis
    by (simp add: peek_bits_oneword_def low_mask_ok top_bits unread_def min_def)
next
  case False
  let ?r = "bs_remaining s" and ?b = "bs_buffer s" and ?k = "k - bs_remaining s"
  let ?w = "if length ?b < 2 then 0 else u16_from_le_bytes (?b ! 0) (?b ! 1)"
  have r: "?r \<le> 16" using assms(1) by (simp add: stream_ok_def)
  have zero: "word_bits 0 = replicate 16 False" by (auto intro!: nth_equalityI)
  have k: "?k \<le> 16" "length (take ?r (word_bits (bs_n s))) + length (take ?k (word_bits ?w)) \<le> 16" "length (take ?k (word_bits ?w)) = ?k"
    using assms(2) r False by auto
  have comb: "combine_words (bits_value (take ?r (word_bits (bs_n s)))) (bits_value (take ?k (word_bits ?w))) ?k =
      Inr (bits_value (take ?r (word_bits (bs_n s)) @ take ?k (word_bits ?w)))"
    using combine_words_ok [OF k(2)] k(3) by simp
  have "take ?k (word_bits ?w) = take ?k (buffer_bits ?b @ replicate 16 False)"
    using unread_advance(2,3) [of ?b] k(1) by (simp add: zero)
  then have "take k (unread s @ replicate 16 False) = take ?r (word_bits (bs_n s)) @ take ?k (word_bits ?w)"
    using False r by (simp add: unread_def min_def)
  moreover have "peek_bits_oneword k s = combine_words (bits_value (take ?r (word_bits (bs_n s)))) (bits_value (take ?k (word_bits ?w))) ?k"
    using False assms(2) r k(1) by (simp add: peek_bits_oneword_def Let_def low_mask_ok top_bits)
  ultimately show ?thesis using comb by simp
qed

lemma peek_bits_unread:
  assumes "stream_ok s" and "k \<le> 16"
  shows "peek_bits k s = Inr (bits_value (take k (unread s @ replicate 16 False)))"
  using assms by (simp add: peek_bits_def peek_oneword ucast_value)

end
