(* ===== verification/Oxide_Lzx_Tree.thy ===== *)
theory Oxide_Lzx_Tree
  imports Oxide_Lzx_Bits
begin

text \<open>
  The Huffman trees of the LZX decoder: \<open>libarchive_oxide-codecs/src/lzx/tree.rs\<close>. A canonical tree is
  a list of path lengths; the decoder turns it into a table indexed by the next bits of the stream.
  The theory proves that the table exists exactly for complete codes and that looking up the table
  inverts the canonical code. Allocation is taken to succeed.
\<close>

section \<open>Building the table\<close>

record lzx_tree =
  lt_path_lengths :: "nat list"
  lt_largest_length :: nat
  lt_lookup :: "nat list"

definition canonical_tree_new :: "nat \<Rightarrow> nat list" where
  "canonical_tree_new n = replicate n 0"

text \<open>The inner loop over the codes, and the outer loop over the path lengths.\<close>

fun fill_codes :: "nat \<Rightarrow> nat \<Rightarrow> nat \<Rightarrow> nat list \<Rightarrow> nat list \<times> nat \<Rightarrow> decode_failed + nat list \<times> nat" where
  "fill_codes len amount code [] (table, pos) = Inr (table, pos)"
| "fill_codes len amount code (l # ls) (table, pos) =
     (if l = len then
        if 65535 < code then Inl InvalidPathLengths
        else
          (case checked_add pos amount of
             None \<Rightarrow> Inl ArithmeticOverflow
           | Some e \<Rightarrow>
               if length table < e then Inl InvalidPathLengths
               else fill_codes len amount (code + 1) ls (take pos table @ replicate amount code @ drop e table, e))
      else fill_codes len amount (code + 1) ls (table, pos))"

fun fill_lengths :: "nat \<Rightarrow> nat list \<Rightarrow> nat list \<Rightarrow> nat list \<times> nat \<Rightarrow> decode_failed + nat list \<times> nat" where
  "fill_lengths largest lens [] st = Inr st"
| "fill_lengths largest lens (b # bs) st =
     bindE (fill_codes b (2 ^ (largest - b)) 0 lens st) (fill_lengths largest lens bs)"

definition create_instance_allow_empty :: "nat list \<Rightarrow> decode_failed + lzx_tree option" where
  "create_instance_allow_empty lens =
     (if lens = [] then Inl InvalidPathLengths
      else
        let largest = foldl max 0 lens in
        if largest = 0 then Inr None
        else if 16 < largest then Inl InvalidPathLengths
        else
          bindE (fill_lengths largest lens [1..<Suc largest] (replicate (2 ^ largest) 0, 0)) (\<lambda>(table, pos).
          if pos \<noteq> length table then Inl InvalidPathLengths
          else Inr (Some \<lparr>lt_path_lengths = lens, lt_largest_length = largest, lt_lookup = table\<rparr>)))"

definition create_instance :: "nat list \<Rightarrow> decode_failed + lzx_tree" where
  "create_instance lens =
     bindE (create_instance_allow_empty lens) (\<lambda>t. ok_or EmptyTree t)"

definition from_path_lengths :: "nat list \<Rightarrow> decode_failed + lzx_tree" where
  "from_path_lengths lens = create_instance lens"

definition tree_decode_element :: "lzx_tree \<Rightarrow> bitstream \<Rightarrow> decode_failed + (nat \<times> bitstream)" where
  "tree_decode_element t s =
     bindE (peek_bits (lt_largest_length t) s) (\<lambda>v.
     if length (lt_lookup t) \<le> unat v then Inl InvalidPathLengths
     else
       let code = lt_lookup t ! unat v in
       if length (lt_path_lengths t) \<le> code then Inl InvalidPathLengths
       else bindE (read_bits (lt_path_lengths t ! code) s) (\<lambda>(_, s1). Inr (code, s1)))"

section \<open>Reading path lengths\<close>

definition checked_rle_end :: "nat \<Rightarrow> nat \<Rightarrow> nat \<Rightarrow> nat \<Rightarrow> decode_failed + nat" where
  "checked_rle_end start encoded_run base_run range_end =
     bindE (ok_or ArithmeticOverflow (checked_add encoded_run base_run)) (\<lambda>run.
     bindE (ok_or ArithmeticOverflow (checked_add start run)) (\<lambda>e.
     if range_end < e then Inl InvalidPretreeRle else Inr e))"

fun read_lengths :: "nat \<Rightarrow> nat \<Rightarrow> bitstream \<Rightarrow> decode_failed + (nat list \<times> bitstream)" where
  "read_lengths 0 width s = Inr ([], s)"
| "read_lengths (Suc n) width s =
     bindE (read_bits width s) (\<lambda>(v, s1).
     bindE (read_lengths n width s1) (\<lambda>(ls, s2). Inr (unat v # ls, s2)))"

definition set_run :: "nat list \<Rightarrow> nat \<Rightarrow> nat \<Rightarrow> nat \<Rightarrow> nat list" where
  "set_run lens i e v = take i lens @ replicate (e - i) v @ drop e lens"

text \<open>One element of the encoded lengths: the new lengths, and the next index with the rest of the stream.\<close>

definition pretree_round :: "lzx_tree \<Rightarrow> nat \<Rightarrow> nat \<Rightarrow> nat list \<Rightarrow> bitstream \<Rightarrow>
    decode_failed + (nat list \<times> nat \<times> bitstream)" where
  "pretree_round t range_end i lens s =
     bindE (tree_decode_element t s) (\<lambda>(code, s1).
     if code \<le> 16 then
       if length lens \<le> i then Inl InvalidPathLengths
       else Inr (lens[i := (17 + lens ! i - code) mod 17], i + 1, s1)
     else if code = 17 then
       bindE (read_bits 4 s1) (\<lambda>(zeros, s2).
       bindE (checked_rle_end i (unat zeros) 4 range_end) (\<lambda>e.
       if length lens < e then Inl InvalidPretreeRle else Inr (set_run lens i e 0, e, s2)))
     else if code = 18 then
       bindE (read_bits 5 s1) (\<lambda>(zeros, s2).
       bindE (checked_rle_end i (unat zeros) 20 range_end) (\<lambda>e.
       if length lens < e then Inl InvalidPretreeRle else Inr (set_run lens i e 0, e, s2)))
     else if code = 19 then
       bindE (read_bits 1 s1) (\<lambda>(same, s2).
       bindE (tree_decode_element t s2) (\<lambda>(code', s3).
       if 16 < code' then Inl (InvalidPretreeElement code')
       else if length lens \<le> i then Inl InvalidPathLengths
       else
         bindE (checked_rle_end i (unat same) 4 range_end) (\<lambda>e.
         if length lens < e then Inl InvalidPretreeRle
         else Inr (set_run lens i e ((17 + lens ! i - code') mod 17), e, s3))))
     else Inl (InvalidPretreeElement code))"

lemma checked_rle_end_ok: "checked_rle_end i n base e = Inr e' \<Longrightarrow> e' = i + n + base \<and> e' \<le> e"
  by (auto simp: checked_rle_end_def bindE_Inr_iff checked_add_def ok_or_def split: if_splits)

lemma pretree_round_progress:
  assumes "pretree_round t range_end i lens s = Inr (lens', i', s')"
  shows "i < i'" "length lens' = length lens"
  using assms
  by (auto simp: pretree_round_def bindE_Inr_iff set_run_def dest!: checked_rle_end_ok split: if_splits)

text \<open>The loop over a range; the lengths read so far are kept when it fails.\<close>

function pretree_loop :: "lzx_tree \<Rightarrow> nat \<Rightarrow> nat \<Rightarrow> nat list \<Rightarrow> bitstream \<Rightarrow> nat list \<times> (decode_failed + bitstream)" where
  "pretree_loop t range_end i lens s =
     (if i < range_end then
        (case pretree_round t range_end i lens s of
           Inl e \<Rightarrow> (lens, Inl e)
         | Inr (lens', i', s') \<Rightarrow> pretree_loop t range_end i' lens' s')
      else (lens, Inr s))"
  by pat_completeness auto

termination
  by (relation "measure (\<lambda>(t, e, i, lens, s). e - i)") (auto dest: pretree_round_progress)

declare pretree_loop.simps [simp del]

definition update_range_with_pretree :: "nat \<Rightarrow> nat \<Rightarrow> nat list \<Rightarrow> bitstream \<Rightarrow> nat list \<times> (decode_failed + bitstream)" where
  "update_range_with_pretree range_start range_end lens s =
     (if range_end < range_start \<or> length lens < range_end then (lens, Inl InvalidPathLengths)
      else
        (case bindE (read_lengths 20 4 s) (\<lambda>(ls, s1). bindE (from_path_lengths ls) (\<lambda>t. Inr (t, s1))) of
           Inl e \<Rightarrow> (lens, Inl e)
         | Inr (t, s1) \<Rightarrow> pretree_loop t range_end range_start lens s1))"

section \<open>The canonical code\<close>

definition codes_of :: "nat list \<Rightarrow> nat \<Rightarrow> nat list" where
  "codes_of lens b = filter (\<lambda>c. lens ! c = b) [0..<length lens]"

definition canonical :: "nat \<Rightarrow> nat list \<Rightarrow> nat list" where
  "canonical largest lens = concat (map (codes_of lens) [1..<Suc largest])"

definition share :: "nat \<Rightarrow> nat list \<Rightarrow> nat \<Rightarrow> nat" where
  "share largest lens c = 2 ^ (largest - lens ! c)"

definition spread :: "nat \<Rightarrow> nat list \<Rightarrow> nat list \<Rightarrow> nat list" where
  "spread largest lens cs = concat (map (\<lambda>c. replicate (share largest lens c) c) cs)"

definition kraft :: "nat \<Rightarrow> nat list \<Rightarrow> nat" where
  "kraft largest lens = sum_list (map (\<lambda>l. if l = 0 then 0 else 2 ^ (largest - l)) lens)"

definition bits_nat :: "bool list \<Rightarrow> nat" where
  "bits_nat bs = horner_sum of_bool 2 (rev bs)"

text \<open>The code word of \<open>c\<close>: its first table index, cut to its own length.\<close>

definition codeword :: "nat list \<Rightarrow> nat \<Rightarrow> bool list" where
  "codeword lens c =
     (let largest = foldl max 0 lens;
          start = length (spread largest lens (takeWhile (\<lambda>x. x \<noteq> c) (canonical largest lens)))
      in rev (map (bit (start div share largest lens c)) [0..<lens ! c]))"

fun picks :: "nat \<Rightarrow> nat \<Rightarrow> nat list \<Rightarrow> nat list" where
  "picks b code [] = []"
| "picks b code (l # ls) = (if l = b then [code] else []) @ picks b (code + 1) ls"

lemma picks_shift: "picks b code ls = map ((+) code) (codes_of ls b)"
proof (induction ls arbitrary: code)
  case (Cons l ls)
  have "codes_of (l # ls) b = (if l = b then [0] else []) @ map Suc (codes_of ls b)"
    by (simp add: codes_of_def upt_conv_Cons filter_map comp_def del: upt_Suc flip: map_Suc_upt)
  with Cons show ?case by (simp add: comp_def)
qed (simp add: codes_of_def)

lemma picks_0: "picks b 0 ls = codes_of ls b"
  by (simp add: picks_shift map_idI)

lemma spread_simps [simp]:
  "spread largest lens [] = []" "spread largest lens (c # cs) = replicate (share largest lens c) c @ spread largest lens cs"
  "spread largest lens (xs @ ys) = spread largest lens xs @ spread largest lens ys"
  by (simp_all add: spread_def)

lemma fill_codes_picks:
  assumes "code + length ls \<le> 65536" and "length (done @ rest) \<le> 65536" and "a \<le> 65536"
  shows "fill_codes b a code ls (done @ rest, length done) =
    (let cs = picks b code ls in
     if a * length cs \<le> length rest
     then Inr (done @ concat (map (replicate a) cs) @ drop (a * length cs) rest, length done + a * length cs)
     else Inl InvalidPathLengths)"
  using assms
proof (induction ls arbitrary: code "done" rest)
  case (Cons l ls)
  show ?case
  proof (cases "l = b")
    case False
    with Cons show ?thesis by simp
  next
    case True
    let ?cs = "picks b (code + 1) ls"
    show ?thesis
    proof (cases "a \<le> length rest")
      case False
      with True Cons.prems show ?thesis by (simp add: checked_add_def u64_max_def)
    next
      case fits: True
      have "fill_codes b a code (l # ls) (done @ rest, length done) =
          fill_codes b a (code + 1) ls ((done @ replicate a code) @ drop a rest, length (done @ replicate a code))"
        using True fits Cons.prems by (simp add: checked_add_def u64_max_def)
      also have "\<dots> = (if a * length ?cs \<le> length (drop a rest)
          then Inr ((done @ replicate a code) @ concat (map (replicate a) ?cs) @ drop (a * length ?cs) (drop a rest),
            length (done @ replicate a code) + a * length ?cs) else Inl InvalidPathLengths)"
        using Cons.IH [of "code + 1" "done @ replicate a code" "drop a rest"] Cons.prems fits by (simp add: Let_def)
      finally show ?thesis using True fits by (simp add: Let_def add.commute le_diff_conv2)
    qed
  qed
qed simp

lemma fill_codes_block:
  assumes "length lens \<le> 65536" and "length (done @ rest) \<le> 65536" and "b \<le> largest" and "largest \<le> 16"
  shows "fill_codes b (2 ^ (largest - b)) 0 lens (done @ rest, length done) =
    (let bs = spread largest lens (codes_of lens b) in
     if length bs \<le> length rest then Inr (done @ bs @ drop (length bs) rest, length (done @ bs)) else Inl InvalidPathLengths)"
proof -
  have "spread largest lens (codes_of lens b) = concat (map (replicate (2 ^ (largest - b))) (codes_of lens b))"
    by (auto simp: spread_def share_def codes_of_def intro!: arg_cong [of _ _ concat])
  moreover have "length (concat (map (replicate n) cs)) = n * length cs" for n and cs :: "nat list"
    by (induction cs) simp_all
  moreover have "(2 :: nat) ^ (largest - b) \<le> 65536" using power_increasing [of "largest - b" 16 "2 :: nat"] assms(4) by simp
  ultimately show ?thesis
    using fill_codes_picks [of 0 lens "done" rest "2 ^ (largest - b)" b] assms by (simp add: picks_0 Let_def)
qed

lemma fill_lengths_block:
  assumes "length lens \<le> 65536" and "length (done @ rest) \<le> 65536" and "\<forall>b \<in> set bs. b \<le> largest" and "largest \<le> 16"
  shows "fill_lengths largest lens bs (done @ rest, length done) =
    (let out = spread largest lens (concat (map (codes_of lens) bs)) in
     if length out \<le> length rest then Inr (done @ out @ drop (length out) rest, length (done @ out)) else Inl InvalidPathLengths)"
  using assms
proof (induction bs arbitrary: "done" rest)
  case Nil
  then show ?case by simp
next
  case (Cons b bs)
  let ?now = "spread largest lens (codes_of lens b)" and ?then = "spread largest lens (concat (map (codes_of lens) bs))"
  show ?case
  proof (cases "length ?now \<le> length rest")
    case False
    with fill_codes_block [OF Cons.prems(1,2), of b largest] Cons.prems(3,4) show ?thesis by (simp add: Let_def)
  next
    case True
    then have "fill_lengths largest lens (b # bs) (done @ rest, length done) =
        fill_lengths largest lens bs ((done @ ?now) @ drop (length ?now) rest, length (done @ ?now))"
      using fill_codes_block [OF Cons.prems(1,2), of b largest] Cons.prems(3,4) by (simp add: Let_def)
    with Cons.IH [of "done @ ?now" "drop (length ?now) rest"] Cons.prems True show ?thesis
      by (simp add: Let_def add.commute le_diff_conv2)
  qed
qed

section \<open>Which trees exist\<close>

lemma foldl_max: "foldl max m ls = Max (insert m (set ls))" for m :: nat
proof (induction ls arbitrary: m)
  case (Cons l ls)
  have "Max (insert m (insert l (set ls))) = Max (insert (max m l) (set ls))"
    by (cases "ls = []") (simp_all add: max.assoc)
  with Cons show ?case by simp
qed simp

lemma largest_ge: "l \<in> set lens \<Longrightarrow> l \<le> foldl max 0 lens" for l :: nat
  by (simp add: foldl_max)

lemma length_codes_of: "length (codes_of lens b) = length (filter (\<lambda>l. l = b) lens)"
proof -
  have "filter (\<lambda>l. l = b) lens = map ((!) lens) (codes_of lens b)"
    by (simp add: codes_of_def flip: filter_map [unfolded comp_def, of "\<lambda>l. l = b" "(!) lens" "[0..<length lens]"] add: map_nth)
  then show ?thesis by simp
qed

lemma length_spread_codes: "length (spread largest lens (codes_of lens b)) = length (filter (\<lambda>l. l = b) lens) * 2 ^ (largest - b)"
proof -
  have "length (spread largest lens cs) = length cs * 2 ^ (largest - b)" if "\<forall>c \<in> set cs. lens ! c = b" for cs
    using that by (induction cs) (simp_all add: share_def)
  then show ?thesis by (simp add: codes_of_def flip: length_codes_of)
qed

lemma length_spread_canonical:
  assumes "\<forall>l \<in> set lens. l \<le> largest"
  shows "length (spread largest lens (canonical largest lens)) = kraft largest lens"
proof -
  have one: "sum_list (map (\<lambda>b. if l = b then 2 ^ (largest - b) else 0) [1..<Suc largest]) = (if l = 0 then 0 else (2 :: nat) ^ (largest - l))"
    if "l \<le> largest" for l
  proof -
    have "sum_list (map (\<lambda>b. if l = b then 2 ^ (largest - b) else 0) [1..<Suc largest]) =
        (\<Sum>b \<in> {1..<Suc largest}. if l = b then 2 ^ (largest - b) else (0 :: nat))"
      by (simp only: interv_sum_list_conv_sum_set_nat set_upt)
    with that show ?thesis by (simp add: sum.delta' del: upt_Suc sum.op_ivl_Suc)
  qed
  have "sum_list (map (\<lambda>b. length (filter (\<lambda>l. l = b) lens) * 2 ^ (largest - b)) [1..<Suc largest]) = kraft largest lens"
    using assms
  proof (induction lens)
    case (Cons l lens)
    have "length (filter (\<lambda>x. x = b) (l # lens)) * 2 ^ (largest - b) =
        (if l = b then 2 ^ (largest - b) else 0) + length (filter (\<lambda>x. x = b) lens) * 2 ^ (largest - b)" for b
      by simp
    then have "sum_list (map (\<lambda>b. length (filter (\<lambda>x. x = b) (l # lens)) * 2 ^ (largest - b)) [1..<Suc largest]) =
        sum_list (map (\<lambda>b. if l = b then 2 ^ (largest - b) else 0) [1..<Suc largest]) +
        sum_list (map (\<lambda>b. length (filter (\<lambda>x. x = b) lens) * 2 ^ (largest - b)) [1..<Suc largest])"
      by (simp only: sum_list_addf)
    with Cons one [of l] show ?case by (simp add: kraft_def)
  qed (simp add: kraft_def)
  moreover have "length (spread largest lens (concat (map (codes_of lens) bs))) =
      sum_list (map (\<lambda>b. length (filter (\<lambda>l. l = b) lens) * 2 ^ (largest - b)) bs)" for bs
    by (induction bs) (simp_all add: length_spread_codes)
  ultimately show ?thesis by (simp add: canonical_def)
qed

lemma create_instance_exact:
  assumes "lens \<noteq> []" and "length lens \<le> 65536" and "largest = foldl max 0 lens"
  shows "create_instance_allow_empty lens =
    (if largest = 0 then Inr None
     else if largest \<le> 16 \<and> kraft largest lens = 2 ^ largest
     then Inr (Some \<lparr>lt_path_lengths = lens, lt_largest_length = largest, lt_lookup = spread largest lens (canonical largest lens)\<rparr>)
     else Inl InvalidPathLengths)"
proof (cases "largest = 0 \<or> 16 < largest")
  case True
  with assms show ?thesis by (auto simp: create_instance_allow_empty_def Let_def)
next
  case False
  let ?out = "spread largest lens (canonical largest lens)"
  have "\<forall>l \<in> set lens. l \<le> largest" using largest_ge assms(3) by simp
  then have len: "length ?out = kraft largest lens" by (rule length_spread_canonical)
  have pow: "(2 :: nat) ^ largest \<le> 65536" using power_increasing [of largest 16 "2 :: nat"] False by simp
  have "fill_lengths largest lens [1..<Suc largest] (replicate (2 ^ largest) 0, 0) =
      (if kraft largest lens \<le> 2 ^ largest
       then Inr (?out @ drop (kraft largest lens) (replicate (2 ^ largest) 0), kraft largest lens) else Inl InvalidPathLengths)"
    using fill_lengths_block [of lens "[]" "replicate (2 ^ largest) 0" "[1..<Suc largest]" largest] assms(2) pow False len
    by (simp add: Let_def canonical_def)
  with False assms len show ?thesis by (auto simp: create_instance_allow_empty_def Let_def)
qed

section \<open>Looking up a code word\<close>

lemma bits_nat_simps [simp]:
  "bits_nat [] = 0" "bits_nat (bs @ [b]) = of_bool b + 2 * bits_nat bs"
  by (simp_all add: bits_nat_def)

lemma bits_nat_append: "bits_nat (xs @ ys) = bits_nat xs * 2 ^ length ys + bits_nat ys"
  by (induction ys rule: rev_induct) (simp_all flip: append_assoc)

lemma bits_nat_less: "bits_nat bs < 2 ^ length bs"
  by (induction bs rule: rev_induct) auto

lemma bits_value_nat: "bits_value bs = (of_nat (bits_nat bs) :: 'a::len word)"
  by (induction bs rule: rev_induct) (simp_all add: bits_value_def)

lemma unat_bits_value:
  assumes "length bs \<le> LENGTH('a)"
  shows "unat (bits_value bs :: 'a::len word) = bits_nat bs"
proof -
  have "bits_nat bs < 2 ^ LENGTH('a)"
    using bits_nat_less [of bs] power_increasing [OF assms, of "2 :: nat"] by linarith
  then show ?thesis by (simp add: bits_value_nat unsigned_of_nat take_bit_nat_eq_self)
qed

lemma bits_nat_cut: "bits_nat (rev (map (bit n) [0..<k])) = take_bit k n"
  by (simp add: bits_nat_def horner_sum_bit_eq_take_bit)

lemma set_codes_of: "c \<in> set (codes_of lens b) \<longleftrightarrow> c < length lens \<and> lens ! c = b"
  by (auto simp: codes_of_def)

lemma canonical_member:
  assumes "c < length lens" and "lens ! c \<noteq> 0" and "\<forall>l \<in> set lens. l \<le> largest"
  shows "c \<in> set (canonical largest lens)"
proof -
  have "1 \<le> lens ! c" "lens ! c \<le> largest" using assms by auto
  then show ?thesis using assms(1) by (auto simp: canonical_def set_codes_of less_Suc_eq_le)
qed

text \<open>Path lengths ascend along the canonical order, so a code starts at a multiple of its share.\<close>

lemma canonical_ascending: "sorted (map ((!) lens) (canonical largest lens))"
proof -
  have "sorted (map ((!) lens) (concat (map (codes_of lens) bs))) \<and>
      set (map ((!) lens) (concat (map (codes_of lens) bs))) \<subseteq> set bs" if "sorted bs" for bs
    using that
  proof (induction bs)
    case (Cons b bs)
    have "map ((!) lens) (codes_of lens b) = replicate (length (codes_of lens b)) b"
      by (rule replicate_eqI) (auto simp: set_codes_of)
    with Cons show ?case by (auto simp: sorted_append)
  qed simp
  moreover have "sorted [1..<Suc largest]" by (rule sorted_upt)
  ultimately show ?thesis unfolding canonical_def by blast
qed

lemma share_dvd:
  assumes "\<forall>x \<in> set cs. lens ! x \<le> lens ! c"
  shows "share largest lens c dvd length (spread largest lens cs)"
  using assms by (induction cs) (auto simp: share_def intro!: dvd_add le_imp_power_dvd)

lemma canonical_split:
  assumes "c \<in> set (canonical largest lens)"
  obtains before after where "canonical largest lens = before @ c # after"
    and "before = takeWhile (\<lambda>x. x \<noteq> c) (canonical largest lens)"
    and "share largest lens c dvd length (spread largest lens before)"
proof -
  let ?xs = "canonical largest lens"
  let ?before = "takeWhile (\<lambda>x. x \<noteq> c) ?xs"
  have "dropWhile (\<lambda>x. x \<noteq> c) ?xs \<noteq> []" using assms by (simp add: dropWhile_eq_Nil_conv)
  then obtain d after where d: "dropWhile (\<lambda>x. x \<noteq> c) ?xs = d # after" by (cases "dropWhile (\<lambda>x. x \<noteq> c) ?xs") auto
  with hd_dropWhile [of "\<lambda>x. x \<noteq> c" ?xs] have "d = c" by auto
  with d have split: "?xs = ?before @ c # after" using takeWhile_dropWhile_id [of "\<lambda>x. x \<noteq> c" ?xs] by simp
  have "sorted (map ((!) lens) (?before @ c # after))" using canonical_ascending split by metis
  then have "\<forall>x \<in> set ?before. lens ! x \<le> lens ! c" by (simp only: map_append list.map sorted_append) auto
  with split share_dvd that show ?thesis by blast
qed

lemma table_window:
  assumes "kraft largest lens = 2 ^ largest" and "\<forall>l \<in> set lens. l \<le> largest"
    and "c < length lens" and "lens ! c \<noteq> 0" and "largest = foldl max 0 lens"
  shows "length (codeword lens c) = lens ! c"
    and "x < share largest lens c \<Longrightarrow>
      spread largest lens (canonical largest lens) ! (bits_nat (codeword lens c) * share largest lens c + x) = c"
    and "x < share largest lens c \<Longrightarrow> bits_nat (codeword lens c) * share largest lens c + x < 2 ^ largest"
proof -
  let ?n = "share largest lens c"
  obtain before after where split: "canonical largest lens = before @ c # after"
    and before: "before = takeWhile (\<lambda>x. x \<noteq> c) (canonical largest lens)"
    and dvd: "?n dvd length (spread largest lens before)"
    using canonical_split canonical_member [OF assms(3,4,2)] by metis
  have "lens ! c \<le> largest" using assms by simp
  then have pow: "2 ^ (lens ! c) * ?n = 2 ^ largest" by (simp add: share_def flip: power_add)
  have total: "length (spread largest lens before) + ?n + length (spread largest lens after) = 2 ^ largest"
    using length_spread_canonical [OF assms(2)] assms(1) split by simp
  have "0 < ?n" by (simp add: share_def)
  moreover from this have "length (spread largest lens before) < 2 ^ (lens ! c) * ?n" using total pow by linarith
  ultimately have "length (spread largest lens before) div ?n < 2 ^ (lens ! c)" by (simp add: div_less_iff_less_mult)
  then have start: "bits_nat (codeword lens c) * ?n = length (spread largest lens before)"
    unfolding codeword_def Let_def assms(5) [symmetric] before [symmetric] bits_nat_cut
    using dvd by (simp add: take_bit_nat_eq_self)
  show "length (codeword lens c) = lens ! c" by (simp add: codeword_def Let_def)
  show "spread largest lens (canonical largest lens) ! (bits_nat (codeword lens c) * ?n + x) = c" if "x < ?n"
    unfolding start split using that by (simp add: nth_append)
  show "bits_nat (codeword lens c) * ?n + x < 2 ^ largest" if "x < ?n"
    unfolding start using that total by simp
qed

text \<open>C31. Whenever the decoder accepts a list of path lengths as a tree, that tree decodes the canonical Huffman
  code of those lengths: in front of the code word of an element, wherever it lies relative to the
  16-bit words of the stream and whatever follows it, the element is returned and exactly its code
  word is consumed.\<close>

theorem lzx_tree_decodes_codeword:
  assumes tree: "create_instance_allow_empty lens = Inr (Some t)" and "length lens \<le> 65536"
    and c: "c < length lens" "lens ! c \<noteq> 0"
    and s: "stream_ok s" "unread s = codeword lens c @ rest"
  shows "\<exists>s'. tree_decode_element t s = Inr (c, s') \<and> stream_ok s' \<and> unread s' = rest"
proof -
  define largest where "largest = foldl max 0 lens"
  have "lens \<noteq> []" using c by auto
  from create_instance_exact [OF this assms(2) largest_def] tree
  have t: "t = \<lparr>lt_path_lengths = lens, lt_largest_length = largest, lt_lookup = spread largest lens (canonical largest lens)\<rparr>"
    and full: "kraft largest lens = 2 ^ largest" and small: "largest \<le> 16" by (auto split: if_splits)
  have ge: "\<forall>l \<in> set lens. l \<le> largest" using largest_ge largest_def by blast
  note win = table_window [OF full ge c largest_def]
  have l: "lens ! c \<le> largest" using ge c by simp
  let ?pad = "take (largest - lens ! c) (rest @ replicate 16 False)"
  have v: "take largest (unread s @ replicate 16 False) = codeword lens c @ ?pad" using s(2) win(1) l by simp
  have pad: "length ?pad = largest - lens ! c" using small by simp
  have "peek_bits largest s = Inr (bits_value (codeword lens c @ ?pad))" using peek_bits_unread [OF s(1) small] v by simp
  moreover have "unat (bits_value (codeword lens c @ ?pad) :: u32) = bits_nat (codeword lens c) * share largest lens c + bits_nat ?pad"
    using win(1) pad l small by (simp add: unat_bits_value bits_nat_append share_def)
  moreover have x: "bits_nat ?pad < share largest lens c" using bits_nat_less [of ?pad] unfolding pad share_def .
  moreover have "length (spread largest lens (canonical largest lens)) = 2 ^ largest" using length_spread_canonical [OF ge] full by simp
  moreover obtain s' where "read_bits (lens ! c) s = Inr (bits_value (take (lens ! c) (unread s)), s')" "stream_ok s'"
    "unread s' = drop (lens ! c) (unread s)"
    using read_bits_unread [OF s(1), of "lens ! c"] l small s(2) win(1) by auto
  ultimately show ?thesis
    using win(2,3) [OF x] c s(2) win(1) by (simp add: tree_decode_element_def t Let_def not_le)
qed

theorem lzx_tree_decodes_codeword_witness:
  "create_instance_allow_empty [1, 2, 2] = Inr (Some \<lparr>lt_path_lengths = [1, 2, 2], lt_largest_length = 2, lt_lookup = [0, 0, 1, 2]\<rparr>) \<and>
   (\<exists>s'. tree_decode_element \<lparr>lt_path_lengths = [1, 2, 2], lt_largest_length = 2, lt_lookup = [0, 0, 1, 2]\<rparr> (bitstream_new [0, 0x80]) =
     Inr (1, s') \<and> stream_ok s' \<and> unread s' = replicate 14 False)"
proof -
  let ?t = "\<lparr>lt_path_lengths = [1, 2, 2], lt_largest_length = 2, lt_lookup = [0, 0, 1, 2]\<rparr>"
  have t: "create_instance_allow_empty [1, 2, 2] = Inr (Some ?t)"
  proof -
    have "replicate 4 0 = [0, 0, 0, 0 :: nat]" by (simp add: eval_nat_numeral)
    moreover have "[1..<Suc 2] = [1, 2]" by (simp add: upt_rec)
    ultimately show ?thesis
      by (simp add: create_instance_allow_empty_def checked_add_def u64_max_def numeral_2_eq_2 del: upt_Suc)
  qed
  have "codeword [1, 2, 2] 1 = [True, False]"
    by (simp add: codeword_def canonical_def codes_of_def share_def Let_def eval_nat_numeral upt_rec bit_Suc bit_0)
  moreover have "unread (bitstream_new [0, 0x80]) = [True, False] @ replicate 14 False"
  proof -
    have "u16_from_le_bytes 0 0x80 = 0x8000" by (simp add: u16_from_le_bytes_def)
    moreover have "word_bits 0x8000 = True # False # replicate 14 False" by code_simp
    ultimately show ?thesis by (simp add: unread_def bitstream_new_def)
  qed
  ultimately show ?thesis
    using t lzx_tree_decodes_codeword [OF t, of 1 "bitstream_new [0, 0x80]" "replicate 14 False"]
    by (simp add: stream_ok_def bitstream_new_def)
qed

end
