(* ===== verification/Oxide_Lzx_Window.thy ===== *)
theory Oxide_Lzx_Window
  imports Oxide_Lzx_Bits
begin

text \<open>
  The sliding window of the LZX decoder: \<open>libarchive_oxide-codecs/src/lzx/window.rs\<close>, a ring buffer
  with the position of the next byte. Seen as its history, oldest byte first, every operation is
  plain list arithmetic: a push and a raw copy append and forget the oldest bytes, a match appends
  the bytes at its distance one by one (also when source and destination overlap or wrap), and a
  view is the newest bytes.

  An operation returns the window as it leaves it, also when it fails.
\<close>

section \<open>The ring buffer\<close>

datatype window_size = KB32 | KB64 | KB128 | KB256 | KB512 | MB1 | MB2

record lzx_window =
  wn_pos :: nat
  wn_buffer :: bytes

definition MAX_CHUNK_SIZE :: nat where
  "MAX_CHUNK_SIZE = 32 * 1024"

fun position_slots :: "window_size \<Rightarrow> nat" where
  "position_slots KB32 = 30"
| "position_slots KB64 = 32"
| "position_slots KB128 = 34"
| "position_slots KB256 = 36"
| "position_slots KB512 = 38"
| "position_slots MB1 = 42"
| "position_slots MB2 = 50"

fun window_bytes :: "window_size \<Rightarrow> nat" where
  "window_bytes KB32 = 0x8000"
| "window_bytes KB64 = 0x10000"
| "window_bytes KB128 = 0x20000"
| "window_bytes KB256 = 0x40000"
| "window_bytes KB512 = 0x80000"
| "window_bytes MB1 = 0x100000"
| "window_bytes MB2 = 0x200000"

definition is_power_of_two :: "nat \<Rightarrow> bool" where
  "is_power_of_two n \<longleftrightarrow> n \<noteq> 0 \<and> n AND (n - 1) = 0"

definition create_buffer :: "window_size \<Rightarrow> decode_failed + lzx_window" where
  \<comment> \<open>the allocation of the buffer is taken to succeed\<close>
  "create_buffer ws =
     (let size = window_bytes ws in
      if size < MAX_CHUNK_SIZE \<or> \<not> is_power_of_two size then Inl WindowTooSmall
      else Inr \<lparr>wn_pos = 0, wn_buffer = replicate size 0\<rparr>)"

definition window_advance :: "nat \<Rightarrow> lzx_window \<Rightarrow> lzx_window \<times> (decode_failed + unit)" where
  "window_advance delta w =
     (if length (wn_buffer w) < delta then (w, Inl OverreadChunk)
      else
        (case checked_add (wn_pos w) delta of
           None \<Rightarrow> (w, Inl ArithmeticOverflow)
         | Some p \<Rightarrow> (w\<lparr>wn_pos := (if length (wn_buffer w) \<le> p then p - length (wn_buffer w) else p)\<rparr>, Inr ())))"

definition window_push :: "byte \<Rightarrow> lzx_window \<Rightarrow> lzx_window \<times> (decode_failed + unit)" where
  "window_push v w =
     (if length (wn_buffer w) \<le> wn_pos w then (w, Inl ArithmeticOverflow)
      else window_advance 1 (w\<lparr>wn_buffer := (wn_buffer w)[wn_pos w := v]\<rparr>))"

text \<open>\<open>copy_within(start..end, dest)\<close> of a slice, as \<open>memmove\<close>.\<close>

definition copy_within :: "nat \<Rightarrow> nat \<Rightarrow> nat \<Rightarrow> bytes \<Rightarrow> bytes" where
  "copy_within start e dest xs =
     take dest xs @ take (e - start) (drop start xs) @ drop (dest + (e - start)) xs"

definition copy_wrapped_byte :: "nat \<Rightarrow> nat \<Rightarrow> nat \<Rightarrow> bytes \<Rightarrow> bytes" where
  "copy_wrapped_byte pos offset i buf =
     (let msk = length buf - 1;
          dst = (pos + i) AND msk;
          src = (length buf + pos + i - offset) AND msk
      in buf[dst := buf ! src])"

definition copy_from_self :: "nat \<Rightarrow> nat \<Rightarrow> lzx_window \<Rightarrow> lzx_window \<times> (decode_failed + unit)" where
  "copy_from_self offset len w =
     (let n = length (wn_buffer w); pos = wn_pos w in
      if offset = 0 \<or> n < offset then (w, Inl (InvalidMatchOffset offset))
      else if MAX_CHUNK_SIZE < len then (w, Inl OverreadChunk)
      else
        (case checked_add pos len of
           None \<Rightarrow> (w, Inl ArithmeticOverflow)
         | Some destination_end \<Rightarrow>
             if offset \<le> pos \<and> len \<le> offset \<and> destination_end < n then
               (case checked_add (pos - offset) len of
                  None \<Rightarrow> (w, Inl ArithmeticOverflow)
                | Some source_end \<Rightarrow>
                    window_advance len (w\<lparr>wn_buffer := copy_within (pos - offset) source_end pos (wn_buffer w)\<rparr>))
             else window_advance len (w\<lparr>wn_buffer := fold (copy_wrapped_byte pos offset) [0..<len] (wn_buffer w)\<rparr>)))"

definition copy_from_bitstream :: "nat \<Rightarrow> bitstream \<Rightarrow> lzx_window \<Rightarrow> lzx_window \<times> (decode_failed + bitstream)" where
  "copy_from_bitstream len s w =
     (let n = length (wn_buffer w) in
      if n < len then (w, Inl WindowTooSmall)
      else
        (case bindE (ok_or ArithmeticOverflow (checked_add (wn_pos w) len)) (\<lambda>e.
           if n < e then
             bindE (ok_or ArithmeticOverflow (checked_sub (wn_pos w) (e - n))) (\<lambda>p.
             Inr \<lparr>wn_pos = p, wn_buffer = copy_within (e - n) n 0 (wn_buffer w)\<rparr>)
           else Inr w) of
           Inl err \<Rightarrow> (w, Inl err)
         | Inr w1 \<Rightarrow>
             (case checked_add (wn_pos w1) len of
                None \<Rightarrow> (w1, Inl ArithmeticOverflow)
              | Some e \<Rightarrow>
                  if length (wn_buffer w1) < e then (w1, Inl ArithmeticOverflow)
                  else
                    (case read_raw len s of
                       Inl err \<Rightarrow> (w1, Inl err)
                     | Inr (data, s1) \<Rightarrow>
                         (case window_advance len
                             (w1\<lparr>wn_buffer := take (wn_pos w1) (wn_buffer w1) @ data @ drop e (wn_buffer w1)\<rparr>) of
                            (w2, Inl err) \<Rightarrow> (w2, Inl err)
                          | (w2, Inr _) \<Rightarrow> (w2, Inr s1))))))"

definition rotate_right :: "nat \<Rightarrow> bytes \<Rightarrow> bytes" where
  "rotate_right k xs = drop (length xs - k) xs @ take (length xs - k) xs"

definition past_view :: "nat \<Rightarrow> lzx_window \<Rightarrow> lzx_window \<times> (decode_failed + bytes)" where
  "past_view len w =
     (if MAX_CHUNK_SIZE < len then (w, Inl ChunkTooLong)
      else
        (case (if wn_pos w \<noteq> 0 \<and> wn_pos w < len then
                 (let shift = len - wn_pos w in
                  case window_advance shift w of
                    (w1, Inl err) \<Rightarrow> (w1, Inl err)
                  | (w1, Inr _) \<Rightarrow> (w1\<lparr>wn_buffer := rotate_right shift (wn_buffer w1)\<rparr>, Inr ()))
               else (w, Inr ())) of
           (w1, Inl err) \<Rightarrow> (w1, Inl err)
         | (w1, Inr _) \<Rightarrow>
             (let p = (if wn_pos w1 = 0 then length (wn_buffer w1) else wn_pos w1) in
              case checked_sub p len of
                None \<Rightarrow> (w1, Inl ArithmeticOverflow)
              | Some start \<Rightarrow>
                  if length (wn_buffer w1) < p then (w1, Inl ArithmeticOverflow)
                  else (w1, Inr (take len (drop start (wn_buffer w1)))))))"

section \<open>The history\<close>

definition history :: "lzx_window \<Rightarrow> bytes" where
  "history w = rotate (wn_pos w) (wn_buffer w)"

definition window_ok :: "window_size \<Rightarrow> lzx_window \<Rightarrow> bool" where
  "window_ok ws w \<longleftrightarrow> length (wn_buffer w) = window_bytes ws \<and> wn_pos w < window_bytes ws"

text \<open>Bytes of a match: each one is the byte \<open>offset\<close> places before it.\<close>

fun lz_copy :: "nat \<Rightarrow> nat \<Rightarrow> bytes \<Rightarrow> bytes" where
  "lz_copy offset 0 out = out"
| "lz_copy offset (Suc n) out = lz_copy offset n (out @ [out ! (length out - offset)])"

lemma window_bytes_power: "\<exists>k \<in> {15..21}. window_bytes ws = 2 ^ k"
proof -
  have "window_bytes ws = 2 ^ (case ws of KB32 \<Rightarrow> 15 | KB64 \<Rightarrow> 16 | KB128 \<Rightarrow> 17 | KB256 \<Rightarrow> 18 | KB512 \<Rightarrow> 19 | MB1 \<Rightarrow> 20 | MB2 \<Rightarrow> 21)"
    by (cases ws) simp_all
  moreover have "(case ws of KB32 \<Rightarrow> 15 | KB64 \<Rightarrow> 16 | KB128 \<Rightarrow> 17 | KB256 \<Rightarrow> 18 | KB512 \<Rightarrow> 19 | MB1 \<Rightarrow> 20 | MB2 \<Rightarrow> 21) \<in> {15..21 :: nat}"
    by (cases ws) simp_all
  ultimately show ?thesis by blast
qed

lemma window_bytes_bounds:
  "MAX_CHUNK_SIZE \<le> window_bytes ws" "window_bytes ws \<le> 0x200000" "0 < window_bytes ws"
  by (cases ws; simp add: MAX_CHUNK_SIZE_def)+

lemma and_window_mask: "x AND (window_bytes ws - Suc 0) = x mod window_bytes ws"
proof -
  obtain k where "window_bytes ws = 2 ^ k" using window_bytes_power by blast
  then show ?thesis by (simp add: take_bit_eq_mask mask_eq_exp_minus_1 flip: take_bit_eq_mod)
qed

lemma create_buffer_ok: "create_buffer ws = Inr \<lparr>wn_pos = 0, wn_buffer = replicate (window_bytes ws) 0\<rparr>"
proof -
  obtain k where k: "window_bytes ws = 2 ^ k" using window_bytes_power by blast
  have "window_bytes ws AND (window_bytes ws - 1) = 0" using and_window_mask [of "window_bytes ws" ws] by simp
  then show ?thesis using window_bytes_bounds [of ws] by (simp add: create_buffer_def is_power_of_two_def Let_def)
qed

lemma advance_ok:
  assumes "window_ok ws w" and "delta \<le> window_bytes ws"
  shows "window_advance delta w = (w\<lparr>wn_pos := (wn_pos w + delta) mod window_bytes ws\<rparr>, Inr ())"
proof -
  have *: "length (wn_buffer w) = window_bytes ws" "wn_pos w < window_bytes ws" using assms by (simp_all add: window_ok_def)
  have "wn_pos w + delta \<le> u64_max" using * assms(2) window_bytes_bounds(2) [of ws] by (simp add: u64_max_def)
  then show ?thesis using * assms(2) by (auto simp: window_advance_def checked_add_def mod_if)
qed

text \<open>Writing at the position and moving on appends to the history.\<close>

lemma rotate_write:
  assumes "xs \<noteq> []"
  shows "rotate (p + 1) (xs[p mod length xs := v]) = tl (rotate p xs) @ [v]"
proof (rule nth_equalityI)
  let ?n = "length xs"
  show "length (rotate (p + 1) (xs[p mod ?n := v])) = length (tl (rotate p xs) @ [v])" using assms by simp
  fix i
  assume "i < length (rotate (p + 1) (xs[p mod ?n := v]))"
  then have i: "i < ?n" by simp
  show "rotate (p + 1) (xs[p mod ?n := v]) ! i = (tl (rotate p xs) @ [v]) ! i"
  proof (cases "i = ?n - 1")
    case True
    then have "p + 1 + i = p + ?n" using i by simp
    then have "(p + 1 + i) mod ?n = p mod ?n" by (metis mod_add_self2)
    moreover have "p mod ?n < ?n" using assms by simp
    ultimately have "xs[p mod ?n := v] ! ((p + 1 + i) mod ?n) = v" by (simp only: nth_list_update_eq)
    with True assms i show ?thesis by (simp add: nth_append nth_rotate del: rotate_Suc)
  next
    case False
    with i have less: "i + 1 < ?n" by simp
    then have "(p + 1 + i) mod ?n \<noteq> p mod ?n"
      using mod_eq_dvd_iff_nat [of p "p + 1 + i" ?n] by (auto dest: dvd_imp_le)
    moreover have "i < ?n - 1" using less by simp
    ultimately show ?thesis using less by (simp add: nth_append nth_rotate nth_tl del: rotate_Suc)
  qed
qed

lemma history_push:
  assumes "window_ok ws w"
  shows "\<exists>w'. window_push v w = (w', Inr ()) \<and> window_ok ws w' \<and> history w' = tl (history w) @ [v]"
proof -
  have *: "length (wn_buffer w) = window_bytes ws" "wn_pos w < window_bytes ws" using assms by (simp_all add: window_ok_def)
  let ?w = "w\<lparr>wn_buffer := (wn_buffer w)[wn_pos w := v]\<rparr>"
  have "window_push v w = (?w\<lparr>wn_pos := (wn_pos w + 1) mod window_bytes ws\<rparr>, Inr ())"
    using advance_ok [of ws ?w 1] * by (simp add: window_push_def window_ok_def)
  moreover have "rotate ((wn_pos w + 1) mod window_bytes ws) ((wn_buffer w)[wn_pos w := v]) = tl (rotate (wn_pos w) (wn_buffer w)) @ [v]"
    using rotate_write [of "wn_buffer w" "wn_pos w" v] * rotate_conv_mod [of "wn_pos w + 1" "(wn_buffer w)[wn_pos w := v]"]
    by fastforce
  ultimately show ?thesis using * by (auto simp: history_def window_ok_def)
qed

lemma lz_copy_length [simp]: "length (lz_copy offset n out) = length out + n"
  by (induction offset n out rule: lz_copy.induct) simp_all

lemma lz_copy_snoc: "lz_copy offset (Suc n) out = lz_copy offset n out @ [lz_copy offset n out ! (length out + n - offset)]"
proof (induction n arbitrary: out)
  case (Suc n)
  from Suc [of "out @ [out ! (length out - offset)]"] show ?case by simp
qed simp

text \<open>The byte loop appends one byte of the match per round.\<close>

lemma wrapped_length [simp]: "length (fold (copy_wrapped_byte pos offset) is buf) = length buf"
  by (induction "is" arbitrary: buf) (simp_all add: copy_wrapped_byte_def Let_def)

lemma wrapped_loop:
  assumes "length buf = window_bytes ws" and "0 < offset" and "offset \<le> window_bytes ws"
  shows "rotate (pos + n) (fold (copy_wrapped_byte pos offset) [0..<n] buf) = drop n (lz_copy offset n (rotate pos buf))"
proof (induction n)
  case (Suc n)
  let ?N = "window_bytes ws" and ?b = "fold (copy_wrapped_byte pos offset) [0..<n] buf" and ?out = "lz_copy offset n (rotate pos buf)"
  have len: "length ?b = ?N" using assms(1) by simp
  have step: "copy_wrapped_byte pos offset n ?b = ?b[(pos + n) mod ?N := ?b ! ((?N + pos + n - offset) mod ?N)]"
    unfolding copy_wrapped_byte_def Let_def len by (simp add: and_window_mask)
  have pos: "0 < ?N" by (rule window_bytes_bounds)
  have "?b ! ((?N + pos + n - offset) mod ?N) = rotate (pos + n) ?b ! (?N - offset)"
    using assms(2,3) len pos nth_rotate [of "?N - offset" ?b "pos + n"] by (simp add: algebra_simps)
  also have "\<dots> = ?out ! (?N + n - offset)" using Suc assms by (simp add: add.commute)
  finally have v: "?b ! ((?N + pos + n - offset) mod ?N) = ?out ! (?N + n - offset)" .
  have "rotate (pos + n + 1) (?b[(pos + n) mod ?N := ?out ! (?N + n - offset)]) = tl (drop n ?out) @ [?out ! (?N + n - offset)]"
    using rotate_write [of ?b "pos + n"] len pos Suc by fastforce
  also have "\<dots> = drop (Suc n) (lz_copy offset (Suc n) (rotate pos buf))"
    using assms(1) pos by (simp add: lz_copy_snoc drop_Suc tl_drop del: lz_copy.simps(2))
  finally show ?case using step v by simp
qed simp

text \<open>The fast path is the byte loop, block-wise.\<close>

lemma fast_path:
  assumes "length buf = window_bytes ws" and "0 < offset" and "offset \<le> pos" and "pos + n < window_bytes ws" and "n \<le> offset"
  shows "copy_within (pos - offset) (pos - offset + n) pos buf = fold (copy_wrapped_byte pos offset) [0..<n] buf"
  using assms
proof (induction n)
  case 0
  then show ?case by (simp add: copy_within_def)
next
  case (Suc n)
  let ?N = "window_bytes ws" and ?b = "copy_within (pos - offset) (pos - offset + n) pos buf"
  have b: "?b = take pos buf @ take n (drop (pos - offset) buf) @ drop (pos + n) buf" by (simp add: copy_within_def)
  have len: "length ?b = ?N" unfolding b using Suc.prems by simp
  have "(?N + pos + n - offset) mod ?N = pos - offset + n"
  proof -
    have "?N + pos + n - offset = ?N + (pos - offset + n)" using Suc.prems by simp
    then show ?thesis using Suc.prems by (simp only: mod_add_self1) simp
  qed
  moreover have "(pos + n) mod ?N = pos + n" using Suc.prems by simp
  ultimately have "copy_wrapped_byte pos offset n ?b = ?b[pos + n := ?b ! (pos - offset + n)]"
    by (simp add: copy_wrapped_byte_def Let_def len and_window_mask)
  also have "?b ! (pos - offset + n) = buf ! (pos - offset + n)" unfolding b using Suc.prems by (simp add: nth_append)
  also have "?b[pos + n := buf ! (pos - offset + n)] = take pos buf @ take (Suc n) (drop (pos - offset) buf) @ drop (pos + Suc n) buf"
  proof -
    have "drop (pos + n) buf = buf ! (pos + n) # drop (pos + Suc n) buf" using Suc.prems by (simp add: Cons_nth_drop_Suc)
    moreover have "take (Suc n) (drop (pos - offset) buf) = take n (drop (pos - offset) buf) @ [buf ! (pos - offset + n)]"
      using Suc.prems by (simp add: take_Suc_conv_app_nth)
    ultimately show ?thesis unfolding b using Suc.prems by (simp add: list_update_append)
  qed
  finally show ?case using Suc by (simp add: copy_within_def)
qed

lemma history_copy_from_self:
  assumes "window_ok ws w" and "0 < offset" and "offset \<le> window_bytes ws" and "len \<le> MAX_CHUNK_SIZE"
  shows "\<exists>w'. copy_from_self offset len w = (w', Inr ()) \<and> window_ok ws w' \<and> history w' = drop len (lz_copy offset len (history w))"
proof -
  let ?N = "window_bytes ws" and ?buf = "wn_buffer w" and ?pos = "wn_pos w"
  have *: "length ?buf = ?N" "?pos < ?N" "len \<le> ?N" using assms window_bytes_bounds(1) [of ws] by (simp_all add: window_ok_def)
  have "?pos + len \<le> u64_max" "?pos - offset + len \<le> u64_max" using * window_bytes_bounds(2) [of ws] by (simp_all add: u64_max_def)
  then have "copy_from_self offset len w = window_advance len (w\<lparr>wn_buffer := fold (copy_wrapped_byte ?pos offset) [0..<len] ?buf\<rparr>)"
    using assms * fast_path [OF *(1) assms(2), of ?pos len] by (auto simp: copy_from_self_def Let_def checked_add_def)
  also have "\<dots> = (w\<lparr>wn_buffer := fold (copy_wrapped_byte ?pos offset) [0..<len] ?buf, wn_pos := (?pos + len) mod ?N\<rparr>, Inr ())"
    using advance_ok [of ws "w\<lparr>wn_buffer := fold (copy_wrapped_byte ?pos offset) [0..<len] ?buf\<rparr>" len] * by (simp add: window_ok_def)
  finally show ?thesis
    using * wrapped_loop [OF *(1) assms(2,3), of ?pos len] rotate_conv_mod [of "?pos + len" "fold (copy_wrapped_byte ?pos offset) [0..<len] ?buf"]
    by (auto simp: history_def window_ok_def)
qed

lemma rotate_le: "k \<le> length xs \<Longrightarrow> rotate k xs = drop k xs @ take k xs"
  by (cases "k = length xs") (simp_all add: rotate_drop_take)

lemma rotate_mod: "length xs = n \<Longrightarrow> k \<le> n \<Longrightarrow> rotate (k mod n) xs = drop k xs @ take k xs"
  using rotate_conv_mod [of k xs] rotate_le [of k xs] by simp

lemma history_split:
  assumes "window_ok ws w"
  shows "history w = drop (wn_pos w) (wn_buffer w) @ take (wn_pos w) (wn_buffer w)"
  using assms by (simp add: history_def window_ok_def rotate_drop_take)

lemma length_history [simp]: "window_ok ws w \<Longrightarrow> length (history w) = window_bytes ws"
  by (simp add: history_def window_ok_def)

text \<open>A raw copy that would wrap moves the newest bytes to the front first.\<close>

lemma history_copy_from_bitstream:
  assumes "window_ok ws w" and "len \<le> window_bytes ws"
  shows "if length (bs_buffer s) < len
    then \<exists>w'. copy_from_bitstream len s w = (w', Inl UnexpectedEof)
    else \<exists>w'. copy_from_bitstream len s w = (w', Inr (s\<lparr>bs_buffer := drop len (bs_buffer s)\<rparr>)) \<and> window_ok ws w' \<and>
           history w' = drop len (history w @ take len (bs_buffer s))"
proof -
  let ?N = "window_bytes ws" and ?buf = "wn_buffer w" and ?pos = "wn_pos w"
  have *: "length ?buf = ?N" "?pos < ?N" using assms by (simp_all add: window_ok_def)
  have big: "?pos + len \<le> u64_max" "?N + len \<le> u64_max" using * assms(2) window_bytes_bounds(2) [of ws] by (simp_all add: u64_max_def)
  define w1 where "w1 = (if ?N < ?pos + len then \<lparr>wn_pos = ?N - len, wn_buffer = copy_within (?pos + len - ?N) ?N 0 ?buf\<rparr> else w)"
  let ?data = "take len (bs_buffer s)"
  let ?w2 = "w1\<lparr>wn_buffer := take (wn_pos w1) (wn_buffer w1) @ ?data @ drop (wn_pos w1 + len) (wn_buffer w1)\<rparr>"
  have w1: "length (wn_buffer w1) = ?N" "wn_pos w1 + len \<le> ?N" "wn_pos w1 < ?N"
    using * assms(2) by (auto simp: w1_def copy_within_def)
  have run: "copy_from_bitstream len s w = (case read_raw len s of Inl err \<Rightarrow> (w1, Inl err)
      | Inr (data, s1) \<Rightarrow> (case window_advance len (w1\<lparr>wn_buffer := take (wn_pos w1) (wn_buffer w1) @ data @ drop (wn_pos w1 + len) (wn_buffer w1)\<rparr>) of
          (w2, Inl err) \<Rightarrow> (w2, Inl err) | (w2, Inr _) \<Rightarrow> (w2, Inr s1)))"
  proof -
    have "checked_add (wn_pos w1) len = Some (wn_pos w1 + len)" using w1(2) big(2) by simp
    moreover have "bindE (ok_or ArithmeticOverflow (checked_add ?pos len)) (\<lambda>e. if ?N < e then
        bindE (ok_or ArithmeticOverflow (checked_sub ?pos (e - ?N))) (\<lambda>p. Inr \<lparr>wn_pos = p, wn_buffer = copy_within (e - ?N) ?N 0 ?buf\<rparr>) else Inr w) = Inr w1"
      using * assms(2) big(1) by (auto simp: w1_def checked_add_def checked_sub_def)
    ultimately show ?thesis using * assms(2) w1 by (simp add: copy_from_bitstream_def Let_def del: checked_add_Some)
  qed
  show ?thesis
  proof (cases "length (bs_buffer s) < len")
    case True
    then show ?thesis using run by (simp add: read_raw_def)
  next
    case False
    have ok: "length (wn_buffer ?w2) = ?N" using w1 False by simp
    have adv: "window_advance len ?w2 = (?w2\<lparr>wn_pos := (wn_pos w1 + len) mod ?N\<rparr>, Inr ())"
      using advance_ok [of ws ?w2 len] ok w1(3) assms(2) by (simp add: window_ok_def)
    have "rotate ((wn_pos w1 + len) mod ?N) (wn_buffer ?w2) = drop (wn_pos w1 + len) (wn_buffer ?w2) @ take (wn_pos w1 + len) (wn_buffer ?w2)"
      by (rule rotate_mod [OF ok w1(2)])
    also have "\<dots> = drop (wn_pos w1 + len) (wn_buffer w1) @ take (wn_pos w1) (wn_buffer w1) @ ?data"
      using w1 False by simp
    also have "\<dots> = drop len (history w @ ?data)"
      using * assms(2) unfolding history_split [OF assms(1)] by (auto simp: w1_def copy_within_def drop_take add.commute)
    finally have "history (?w2\<lparr>wn_pos := (wn_pos w1 + len) mod ?N\<rparr>) = drop len (history w @ ?data)" by (simp add: history_def)
    moreover have "copy_from_bitstream len s w = (?w2\<lparr>wn_pos := (wn_pos w1 + len) mod ?N\<rparr>, Inr (s\<lparr>bs_buffer := drop len (bs_buffer s)\<rparr>))"
      using run False adv by (simp add: read_raw_def)
    moreover have "window_ok ws (?w2\<lparr>wn_pos := (wn_pos w1 + len) mod ?N\<rparr>)" using ok * by (simp add: window_ok_def)
    ultimately show ?thesis using False by auto
  qed
qed

lemma past_view_newest:
  assumes "window_ok ws w" and "len \<le> MAX_CHUNK_SIZE"
  shows "\<exists>w'. past_view len w = (w', Inr (drop (window_bytes ws - len) (history w))) \<and> window_ok ws w' \<and> history w' = history w"
proof -
  let ?N = "window_bytes ws" and ?buf = "wn_buffer w" and ?pos = "wn_pos w"
  have *: "length ?buf = ?N" "?pos < ?N" "len \<le> ?N" using assms window_bytes_bounds(1) [of ws] by (simp_all add: window_ok_def)
  show ?thesis
  proof (cases "?pos \<noteq> 0 \<and> ?pos < len")
    case False
    then have "past_view len w = (w, Inr (drop (?N - len) (history w)))"
      using * assms(2) unfolding history_split [OF assms(1)] by (auto simp: past_view_def Let_def checked_sub_def drop_take)
    with assms(1) show ?thesis by blast
  next
    case True
    let ?shift = "len - ?pos"
    let ?w = "\<lparr>wn_pos = len mod ?N, wn_buffer = rotate_right ?shift ?buf\<rparr>"
    have adv: "window_advance ?shift w = (w\<lparr>wn_pos := len mod ?N\<rparr>, Inr ())"
      using advance_ok [OF assms(1), of ?shift] True * by simp
    have rot: "rotate_right ?shift ?buf = rotate (?N - ?shift) ?buf"
      using * by (simp add: rotate_right_def rotate_le)
    then have ok: "window_ok ws ?w" using * by (simp add: window_ok_def)
    have "rotate (len mod ?N) (rotate (?N - ?shift) ?buf) = rotate len (rotate (?N - ?shift) ?buf)"
      using rotate_conv_mod [of len "rotate (?N - ?shift) ?buf"] * by simp
    also have "\<dots> = rotate (?N + ?pos) ?buf" using True * by (simp add: rotate_rotate)
    also have "\<dots> = rotate ?pos ?buf" using *(1) by (metis rotate_conv_mod mod_add_self1)
    finally have h: "history ?w = history w" by (simp add: history_def rot)
    let ?p = "if len mod ?N = 0 then ?N else len mod ?N"
    have p: "?p = len" using True * by (auto simp: mod_if)
    have "past_view len w = (?w, Inr (take len (wn_buffer ?w)))"
      using True assms(2) * adv p rot by (simp add: past_view_def Let_def checked_sub_def split: if_splits)
    moreover have "take len (wn_buffer ?w) = drop (?N - len) (history ?w)"
      unfolding history_split [OF ok] using p * rot by (auto simp: mod_if)
    ultimately show ?thesis using ok h by auto
  qed
qed

end
