(* ===== verification/Oxide_Lzx.thy ===== *)
theory Oxide_Lzx
  imports Oxide_Lzx_Tree Oxide_Lzx_Window
begin

text \<open>
  The LZX decoder: \<open>libarchive_oxide-codecs/src/lzx/block.rs\<close> and \<open>mod.rs\<close>. A block brings its Huffman
  trees; each decoded element is a literal, a match or a stretch of stored bytes and is written to
  the sliding window; a finished chunk is read back from the window and gets its E8 call operands
  translated. Operations return the state they leave behind also when they fail, since the decoder
  object survives an error.
\<close>

section \<open>State threading\<close>

type_synonym ('s, 'a) run = "'s \<times> (decode_failed + 'a)"

definition bindS :: "('s, 'a) run \<Rightarrow> ('s \<Rightarrow> 'a \<Rightarrow> ('s, 'b) run) \<Rightarrow> ('s, 'b) run" where
  "bindS m k = (case m of (s, Inl e) \<Rightarrow> (s, Inl e) | (s, Inr a) \<Rightarrow> k s a)"

lemma bindS_simps [simp]: "bindS (s, Inl e) k = (s, Inl e)" "bindS (s, Inr a) k = k s a"
  by (simp_all add: bindS_def)

section \<open>Blocks\<close>

definition FOOTER_BITS :: "nat list" where
  "FOOTER_BITS =
    [0, 0, 0, 0, 1, 1, 2, 2, 3, 3, 4, 4, 5, 5, 6, 6, 7, 7, 8, 8, 9, 9, 10, 10, 11, 11, 12, 12, 13,
     13, 14, 14, 15, 15, 16, 16, 17, 17, 17, 17, 17, 17, 17, 17, 17, 17, 17, 17, 17, 17]"

definition BASE_POSITION :: "nat list" where
  "BASE_POSITION =
    [0, 1, 2, 3, 4, 6, 8, 12, 16, 24, 32, 48, 64, 96, 128, 192, 256, 384, 512, 768, 1024, 1536,
     2048, 3072, 4096, 6144, 8192, 12288, 16384, 24576, 32768, 49152, 65536, 98304, 131072, 196608,
     262144, 393216, 524288, 655360, 786432, 917504, 1048576, 1179648, 1310720, 1441792, 1572864,
     1703936, 1835008, 1966080]"

type_synonym lru = "nat \<times> nat \<times> nat"

datatype decoded = Single byte | Match nat nat | Read nat

datatype block_kind =
    Verbatim lzx_tree "lzx_tree option"
  | AlignedOffset lzx_tree lzx_tree "lzx_tree option"
  | Uncompressed lru

record lzx_block =
  bk_remaining :: nat
  bk_size :: nat
  bk_kind :: block_kind

record decoder_state =
  ds_window_size :: window_size
  ds_main_tree :: "nat list"
  ds_length_tree :: "nat list"

definition read_main_and_length_trees :: "bitstream \<Rightarrow> decoder_state \<Rightarrow> (decoder_state, bitstream) run" where
  "read_main_and_length_trees s st =
     (let (m1, res1) = update_range_with_pretree 0 256 (ds_main_tree st) s in
      bindS (st\<lparr>ds_main_tree := m1\<rparr>, res1) (\<lambda>st s.
      let (m2, res2) = update_range_with_pretree 256 (256 + 8 * position_slots (ds_window_size st)) (ds_main_tree st) s in
      bindS (st\<lparr>ds_main_tree := m2\<rparr>, res2) (\<lambda>st s.
      let (l, res3) = update_range_with_pretree 0 249 (ds_length_tree st) s in
      (st\<lparr>ds_length_tree := l\<rparr>, res3))))"

definition checked_add_u32 :: "nat \<Rightarrow> nat \<Rightarrow> nat option" where
  "checked_add_u32 a b = (if a + b \<le> u32_max then Some (a + b) else None)"

text \<open>The parts of an element: the match length, and an offset that is not a repeated one.\<close>

definition decode_match_length :: "lzx_tree option \<Rightarrow> nat \<Rightarrow> bitstream \<Rightarrow> decode_failed + (nat \<times> bitstream)" where
  "decode_match_length length_tree length_header s =
     (if length_header = 7 then
        bindE (ok_or EmptyTree length_tree) (\<lambda>t.
        bindE (tree_decode_element t s) (\<lambda>(v, s1). Inr (v + 7 + 2, s1)))
      else Inr (length_header + 2, s))"

definition decode_new_offset :: "lzx_tree option \<Rightarrow> nat \<Rightarrow> bitstream \<Rightarrow> decode_failed + (nat \<times> bitstream)" where
  "decode_new_offset aligned_offset_tree position_slot s =
     (if length FOOTER_BITS \<le> position_slot \<or> length BASE_POSITION \<le> position_slot then Inl (InvalidPositionSlot position_slot)
      else
        let offset_bits = FOOTER_BITS ! position_slot; base_position = BASE_POSITION ! position_slot in
        bindE (case aligned_offset_tree of
            Some t \<Rightarrow>
              bindE (if 3 \<le> offset_bits then
                       bindE (read_bits (offset_bits - 3) s) (\<lambda>(v, s1).
                       bindE (tree_decode_element t s1) (\<lambda>(a, s2). Inr (unat (push_bit 3 v), a, s2)))
                     else bindE (read_bits offset_bits s) (\<lambda>(v, s1). Inr (unat v, 0, s1)))
                (\<lambda>(verbatim_bits, aligned_bits, s1).
              bindE (ok_or ArithmeticOverflow (checked_add_u32 base_position verbatim_bits)) (\<lambda>x.
              bindE (ok_or ArithmeticOverflow (checked_add_u32 x aligned_bits)) (\<lambda>y. Inr (y, s1))))
          | None \<Rightarrow>
              bindE (read_bits offset_bits s) (\<lambda>(v, s1).
              bindE (ok_or ArithmeticOverflow (checked_add_u32 base_position (unat v))) (\<lambda>x. Inr (x, s1))))
          (\<lambda>(formatted_offset, s1).
        bindE (ok_or (InvalidMatchOffset 0) (checked_sub formatted_offset 2)) (\<lambda>match_offset.
        if match_offset = 0 then Inl (InvalidMatchOffset 0) else Inr (match_offset, s1))))"

text \<open>The offset of a match, with the queue of recent offsets.\<close>

definition decode_offset :: "lzx_tree option \<Rightarrow> nat \<Rightarrow> bitstream \<Rightarrow> lru \<Rightarrow> (lru, nat \<times> bitstream) run" where
  "decode_offset aligned_offset_tree position_slot s = (\<lambda>(r0, r1, r2).
     if position_slot = 0 then ((r0, r1, r2), Inr (r0, s))
     else if position_slot = 1 then ((r1, r0, r2), Inr (r1, s))
     else if position_slot = 2 then ((r2, r1, r0), Inr (r2, s))
     else
       (case decode_new_offset aligned_offset_tree position_slot s of
          Inl e \<Rightarrow> ((r0, r1, r2), Inl e)
        | Inr (match_offset, s1) \<Rightarrow> ((match_offset, r0, r1), Inr (match_offset, s1))))"

definition decode_element :: "lzx_tree option \<Rightarrow> lzx_tree \<Rightarrow> lzx_tree option \<Rightarrow> bitstream \<Rightarrow> lru \<Rightarrow>
    (lru, decoded \<times> bitstream) run" where
  "decode_element aligned_offset_tree main_tree length_tree s r =
     (case tree_decode_element main_tree s of
        Inl e \<Rightarrow> (r, Inl e)
      | Inr (main_element, s1) \<Rightarrow>
          if main_element < 256 then (r, Inr (Single (word_of_nat main_element), s1))
          else
            (case decode_match_length length_tree ((main_element - 256) AND 7) s1 of
               Inl e \<Rightarrow> (r, Inl e)
             | Inr (len, s2) \<Rightarrow>
                 if len = 0 then (r, Inl ZeroProgress)
                 else
                   bindS (decode_offset aligned_offset_tree (drop_bit 3 (main_element - 256)) s2 r) (\<lambda>r (offset, s3).
                   (r, if offset = 0 then Inl (InvalidMatchOffset 0) else Inr (Match offset len, s3)))))"

definition block_read :: "bitstream \<Rightarrow> decoder_state \<Rightarrow> (decoder_state, lzx_block \<times> bitstream) run" where
  "block_read s st =
     (case bindE (read_bits 3 s) (\<lambda>(kind, s1). bindE (read_u24_be s1) (\<lambda>(sz, s2). Inr (unat kind, unat sz, s2))) of
        Inl e \<Rightarrow> (st, Inl e)
      | Inr (kind, sz, s2) \<Rightarrow>
          if sz = 0 then (st, Inl (InvalidBlockSize sz))
          else
            bindS
              (if kind = 1 then
                 bindS (read_main_and_length_trees s2 st) (\<lambda>st s3.
                 (st, bindE (create_instance (ds_main_tree st)) (\<lambda>main.
                      bindE (create_instance_allow_empty (ds_length_tree st)) (\<lambda>len. Inr (Verbatim main len, s3)))))
               else if kind = 2 then
                 (case bindE (read_lengths 8 3 s2) (\<lambda>(ls, s3). bindE (from_path_lengths ls) (\<lambda>t. Inr (t, s3))) of
                    Inl e \<Rightarrow> (st, Inl e)
                  | Inr (t, s3) \<Rightarrow>
                      bindS (read_main_and_length_trees s3 st) (\<lambda>st s4.
                      (st, bindE (create_instance (ds_main_tree st)) (\<lambda>main.
                           bindE (create_instance_allow_empty (ds_length_tree st)) (\<lambda>len. Inr (AlignedOffset t main len, s4))))))
               else if kind = 3 then
                 (st, bindE (align s2) (\<lambda>s3.
                      bindE (read_u32_le s3) (\<lambda>(r0, s4).
                      bindE (read_u32_le s4) (\<lambda>(r1, s5).
                      bindE (read_u32_le s5) (\<lambda>(r2, s6). Inr (Uncompressed (unat r0, unat r1, unat r2), s6))))))
               else (st, Inl (InvalidBlock kind)))
              (\<lambda>st (kind, s'). (st, Inr (\<lparr>bk_remaining = sz, bk_size = sz, bk_kind = kind\<rparr>, s'))))"

definition block_decode_element :: "lzx_block \<Rightarrow> bitstream \<Rightarrow> lru \<Rightarrow> (lru, decoded \<times> bitstream) run" where
  "block_decode_element b s r =
     (case bk_kind b of
        Verbatim main_tree length_tree \<Rightarrow> decode_element None main_tree length_tree s r
      | AlignedOffset aligned_offset_tree main_tree length_tree \<Rightarrow>
          decode_element (Some aligned_offset_tree) main_tree length_tree s r
      | Uncompressed new_r \<Rightarrow> (new_r, Inr (Read (bk_remaining b), s)))"

section \<open>E8 translation\<close>

fun position_e8 :: "bytes \<Rightarrow> nat option" where
  "position_e8 [] = None"
| "position_e8 (b # bs) = (if b = 0xE8 then Some 0 else map_option Suc (position_e8 bs))"

definition i32_from_le_bytes :: "bytes \<Rightarrow> u32" where
  "i32_from_le_bytes bs =
     ucast (bs ! 0) OR push_bit 8 (ucast (bs ! 1)) OR push_bit 16 (ucast (bs ! 2)) OR push_bit 24 (ucast (bs ! 3))"

definition i32_to_le_bytes :: "u32 \<Rightarrow> bytes" where
  "i32_to_le_bytes w = [ucast w, ucast (drop_bit 8 w), ucast (drop_bit 16 w), ucast (drop_bit 24 w)]"

definition e8_operand :: "u32 \<Rightarrow> nat \<Rightarrow> u32 \<Rightarrow> u32 option" where
  "e8_operand translation_size current_pointer abs_val =
     (if - int current_pointer \<le> sint abs_val \<and> sint abs_val < sint translation_size then
        Some (if 0 \<le> sint abs_val then abs_val - word_of_nat current_pointer else abs_val + translation_size)
      else None)"

definition e8_write :: "nat \<Rightarrow> u32 option \<Rightarrow> bytes \<Rightarrow> bytes" where
  "e8_write pos rel_val idata =
     (case rel_val of
        None \<Rightarrow> idata
      | Some v \<Rightarrow> take (pos + 1) idata @ i32_to_le_bytes v @ drop (pos + 5) idata)"

function lzx_postprocess :: "u32 \<Rightarrow> nat \<Rightarrow> nat \<Rightarrow> bytes \<Rightarrow> (bytes, unit) run" where
  "lzx_postprocess translation_size chunk_offset processed idata =
     (if length idata < processed then (idata, Inl ArithmeticOverflow)
      else
        (case position_e8 (drop processed idata) of
           None \<Rightarrow> (idata, Inr ())
         | Some p \<Rightarrow>
             let pos = processed + p in
             if length idata - pos \<le> 10 then (idata, Inr ())
             else if u64_max < chunk_offset + pos \<or> 0x7FFFFFFF < chunk_offset + pos then (idata, Inl ArithmeticOverflow)
             else
               let abs_val = i32_from_le_bytes (drop (pos + 1) idata) in
               lzx_postprocess translation_size chunk_offset (pos + 5)
                 (e8_write pos (e8_operand translation_size (chunk_offset + pos) abs_val) idata)))"
  by pat_completeness auto

termination
  by (relation "measure (\<lambda>(_, _, processed, idata). length idata - processed)") (auto simp: i32_to_le_bytes_def e8_write_def split: option.splits)

declare lzx_postprocess.simps [simp del]

section \<open>The decoder\<close>

record post_process_state =
  pp_translation_size :: u32
  pp_data_chunk :: bytes

record lzx_decoder =
  ld_window :: lzx_window
  ld_state :: decoder_state
  ld_r :: lru
  ld_chunk_offset :: nat
  ld_first_chunk_read :: bool
  ld_current_block :: lzx_block
  ld_postprocess :: "post_process_state option"

definition lzx_new :: "window_size \<Rightarrow> decode_failed + lzx_decoder" where
  "lzx_new ws =
     bindE (create_buffer ws) (\<lambda>w.
     Inr \<lparr>ld_window = w,
          ld_state = \<lparr>ds_window_size = ws, ds_main_tree = canonical_tree_new (256 + 8 * position_slots ws),
                      ds_length_tree = canonical_tree_new 249\<rparr>,
          ld_r = (1, 1, 1), ld_chunk_offset = 0, ld_first_chunk_read = False,
          ld_current_block = \<lparr>bk_remaining = 0, bk_size = 0, bk_kind = Uncompressed (1, 1, 1)\<rparr>,
          ld_postprocess = None\<rparr>)"

definition try_read_first_chunk :: "lzx_decoder \<Rightarrow> bitstream \<Rightarrow> (lzx_decoder, bitstream) run" where
  \<comment> \<open>the allocation of the postprocessing buffer is taken to succeed\<close>
  "try_read_first_chunk d s =
     (if ld_first_chunk_read d then (d, Inr s)
      else
        let d = d\<lparr>ld_first_chunk_read := True\<rparr> in
        (case read_bit s of
           Inl e \<Rightarrow> (d, Inl e)
         | Inr (b, s1) \<Rightarrow>
             if b \<noteq> 0 then
               (case read_bits 32 s1 of
                  Inl e \<Rightarrow> (d, Inl e)
                | Inr (v, s2) \<Rightarrow>
                    (d\<lparr>ld_postprocess := Some \<lparr>pp_translation_size = v, pp_data_chunk = replicate MAX_CHUNK_SIZE 0\<rparr>\<rparr>, Inr s2))
             else (d\<lparr>ld_postprocess := None\<rparr>, Inr s1)))"

definition copy_match :: "nat \<Rightarrow> nat \<Rightarrow> nat \<Rightarrow> lzx_decoder \<Rightarrow> (lzx_decoder, unit) run" where
  "copy_match offset len decoded_len d =
     (case checked_add (ld_chunk_offset d) decoded_len of
        None \<Rightarrow> (d, Inl ArithmeticOverflow)
      | Some n \<Rightarrow>
          let available = min n (window_bytes (ds_window_size (ld_state d))) in
          if offset = 0 \<or> available < offset then (d, Inl (InvalidMatchOffset offset))
          else (let (w, res) = copy_from_self offset len (ld_window d) in (d\<lparr>ld_window := w\<rparr>, res)))"

definition consume_uncompressed_padding :: "lzx_block \<Rightarrow> bitstream \<Rightarrow> decode_failed + bitstream" where
  "consume_uncompressed_padding b s =
     (if bk_remaining b = 0 \<and> (case bk_kind b of Uncompressed _ \<Rightarrow> True | _ \<Rightarrow> False) \<and> bk_size b AND 1 \<noteq> 0
      then bindE (ok_or UnexpectedEof (read_byte s)) (\<lambda>(_, s1). Inr s1)
      else Inr s)"

definition apply_decoded :: "decoded \<Rightarrow> nat \<Rightarrow> nat \<Rightarrow> bitstream \<Rightarrow> lzx_decoder \<Rightarrow> (lzx_decoder, bitstream) run" where
  "apply_decoded decoded adv decoded_len s d =
     (case decoded of
        Single v \<Rightarrow> (let (w, res) = window_push v (ld_window d) in (d\<lparr>ld_window := w\<rparr>, bindE res (\<lambda>_. Inr s)))
      | Match offset len \<Rightarrow> bindS (copy_match offset len decoded_len d) (\<lambda>d _. (d, Inr s))
      | Read _ \<Rightarrow> (let (w, res) = copy_from_bitstream adv s (ld_window d) in (d\<lparr>ld_window := w\<rparr>, res)))"

text \<open>One round of the loop of \<open>decompress_next\<close>: at least one byte, or an error.\<close>

definition next_block :: "lzx_decoder \<Rightarrow> bitstream \<Rightarrow> (lzx_decoder, bitstream) run" where
  "next_block d s =
     (if bk_remaining (ld_current_block d) = 0 then
        (case block_read s (ld_state d) of
           (st, Inl e) \<Rightarrow> (d\<lparr>ld_state := st\<rparr>, Inl e)
         | (st, Inr (b, s1)) \<Rightarrow>
             (d\<lparr>ld_state := st, ld_current_block := b\<rparr>, if bk_remaining b = 0 then Inl (InvalidBlockSize 0) else Inr s1))
      else (d, Inr s))"

definition element_length :: "decoded \<Rightarrow> bitstream \<Rightarrow> nat" where
  "element_length decoded s =
     (case decoded of Single _ \<Rightarrow> 1 | Match _ len \<Rightarrow> len | Read len \<Rightarrow> min (length (bs_buffer s)) len)"

definition write_element :: "nat \<Rightarrow> nat \<Rightarrow> decoded \<Rightarrow> lzx_decoder \<Rightarrow> bitstream \<Rightarrow> (lzx_decoder, nat \<times> bitstream) run" where
  "write_element output_len decoded_len decoded d s =
     (let adv = element_length decoded s in
      if adv = 0 then (d, Inl UnexpectedEof)
      else
        (case bindE (ok_or ArithmeticOverflow (checked_sub output_len decoded_len)) (\<lambda>remaining_output.
           if remaining_output < adv then Inl OverreadChunk
           else if u32_max < adv then Inl ArithmeticOverflow
           else ok_or OverreadBlock (checked_sub (bk_remaining (ld_current_block d)) adv)) of
           Inl e \<Rightarrow> (d, Inl e)
         | Inr remaining_block \<Rightarrow>
             bindS (apply_decoded decoded adv decoded_len s d) (\<lambda>d s1.
             (case checked_add decoded_len adv of
                None \<Rightarrow> (d, Inl ArithmeticOverflow)
              | Some n \<Rightarrow>
                  let d = d\<lparr>ld_current_block := (ld_current_block d)\<lparr>bk_remaining := remaining_block\<rparr>\<rparr> in
                  (d, bindE (consume_uncompressed_padding (ld_current_block d) s1) (\<lambda>s2. Inr (n, s2)))))))"

definition decode_round :: "nat \<Rightarrow> nat \<Rightarrow> lzx_decoder \<Rightarrow> bitstream \<Rightarrow> (lzx_decoder, nat \<times> bitstream) run" where
  "decode_round output_len decoded_len d s =
     bindS (next_block d s) (\<lambda>d s.
     (case block_decode_element (ld_current_block d) s (ld_r d) of
        (r, Inl e) \<Rightarrow> (d\<lparr>ld_r := r\<rparr>, Inl e)
      | (r, Inr (decoded, s1)) \<Rightarrow> write_element output_len decoded_len decoded (d\<lparr>ld_r := r\<rparr>) s1))"

lemma write_element_progress:
  assumes "write_element output_len decoded_len decoded d s = (d', Inr (n, s'))"
  shows "decoded_len < n \<and> n \<le> output_len"
  using assms
  by (auto simp: write_element_def bindS_def Let_def bindE_Inr_iff split: if_splits sum.splits prod.splits option.splits)

lemma decode_round_progress:
  assumes "decode_round output_len decoded_len d s = (d', Inr (n, s'))"
  shows "decoded_len < n \<and> n \<le> output_len"
  using assms
  by (auto simp: decode_round_def bindS_def dest: write_element_progress split: sum.splits prod.splits)

function decompress_loop :: "nat \<Rightarrow> nat \<Rightarrow> lzx_decoder \<Rightarrow> bitstream \<Rightarrow> (lzx_decoder, unit) run" where
  "decompress_loop output_len decoded_len d s =
     (if decoded_len = output_len then (d, Inr ())
      else
        (case decode_round output_len decoded_len d s of
           (d1, Inl e) \<Rightarrow> (d1, Inl e)
         | (d1, Inr (n, s1)) \<Rightarrow> decompress_loop output_len n d1 s1))"
  by pat_completeness auto

termination
  by (relation "measure (\<lambda>(output_len, decoded_len, _, _). output_len - decoded_len)") (auto dest: decode_round_progress [OF sym])

declare decompress_loop.simps [simp del]

definition finish_chunk :: "nat \<Rightarrow> lzx_decoder \<Rightarrow> (lzx_decoder, bytes) run" where
  "finish_chunk decoded_len d =
     (let chunk_offset = ld_chunk_offset d in
      case checked_add chunk_offset decoded_len of
        None \<Rightarrow> (d, Inl ArithmeticOverflow)
      | Some n \<Rightarrow>
          let (w, view) = past_view decoded_len (ld_window d) in
          bindS (d\<lparr>ld_chunk_offset := n, ld_window := w\<rparr>, view) (\<lambda>d view.
          case ld_postprocess d of
            None \<Rightarrow> (d, Inr view)
          | Some pp \<Rightarrow>
              if 0x40000000 \<le> chunk_offset \<or> decoded_len \<le> 10 then (d, Inr view)
              else if length (pp_data_chunk pp) < decoded_len then (d, Inl OverreadChunk)
              else
                let (buf, res) = lzx_postprocess (pp_translation_size pp) chunk_offset 0 view in
                (d\<lparr>ld_postprocess := Some (pp\<lparr>pp_data_chunk := buf @ drop decoded_len (pp_data_chunk pp)\<rparr>)\<rparr>,
                 bindE res (\<lambda>_. Inr buf))))"

definition decompress_next :: "bytes \<Rightarrow> nat \<Rightarrow> lzx_decoder \<Rightarrow> (lzx_decoder, bytes) run" where
  "decompress_next chunk output_len d =
     (if output_len = 0 then (d, Inl ZeroProgress)
      else if MAX_CHUNK_SIZE < output_len then (d, Inl ChunkTooLong)
      else
        bindS (try_read_first_chunk d (bitstream_new chunk)) (\<lambda>d s.
        bindS (decompress_loop output_len 0 d s) (\<lambda>d _. finish_chunk output_len d)))"

definition lzx_reset :: "lzx_decoder \<Rightarrow> (lzx_decoder, unit) run" where
  "lzx_reset d =
     (case lzx_new (ds_window_size (ld_state d)) of
        Inl e \<Rightarrow> (d, Inl e)
      | Inr d' \<Rightarrow> (d', Inr ()))"

end
