(* ===== verification/Oxide_Lzx_E8.thy ===== *)
theory Oxide_Lzx_E8
  imports Oxide_Lzx
begin

text \<open>
  The E8 translation of \<open>libarchive_oxide-codecs/src/lzx/mod.rs\<close> as a pass over the bytes, and the
  proof that it undoes the translation a compressor applies: call operands are stored as absolute
  targets and become relative again.
\<close>

section \<open>Operands as bytes\<close>

lemma i32_from_to [simp]: "i32_from_le_bytes (i32_to_le_bytes w @ bs) = w"
proof (rule bit_word_eqI)
  fix n
  assume "n < LENGTH(32)"
  then consider "n < 8" | "8 \<le> n" "n < 16" | "16 \<le> n" "n < 24" | "24 \<le> n" "n < 32" by fastforce
  then show "bit (i32_from_le_bytes (i32_to_le_bytes w @ bs)) n = bit w n"
    by cases (auto simp: i32_from_le_bytes_def i32_to_le_bytes_def bit_or_iff bit_push_bit_iff bit_ucast_iff bit_drop_bit_eq)
qed

lemma i32_to_from:
  assumes "4 \<le> length bs"
  shows "i32_to_le_bytes (i32_from_le_bytes bs) = take 4 bs"
proof -
  have byte: "ucast (drop_bit k (i32_from_le_bytes bs)) = b" if "\<And>n. n < 8 \<Longrightarrow> bit (i32_from_le_bytes bs) (k + n) = bit b n" for k and b :: byte
    by (rule bit_word_eqI) (use that in \<open>simp add: bit_ucast_iff bit_drop_bit_eq\<close>)
  have "take 4 bs = [bs ! 0, bs ! 1, bs ! 2, bs ! 3]"
    using assms by (auto intro!: nth_equalityI simp: nth_Cons' less_Suc_eq numeral_eq_Suc)
  moreover have "bit (i32_from_le_bytes bs) n = bit (bs ! 0) n" "bit (i32_from_le_bytes bs) (8 + n) = bit (bs ! 1) n"
    "bit (i32_from_le_bytes bs) (16 + n) = bit (bs ! 2) n" "bit (i32_from_le_bytes bs) (24 + n) = bit (bs ! 3) n" if "n < 8" for n
    using that by (auto simp: i32_from_le_bytes_def bit_or_iff bit_push_bit_iff bit_ucast_iff dest: bit_imp_le_length)
  ultimately show ?thesis
    unfolding i32_to_le_bytes_def using byte [of 0 "bs ! 0"] by (simp add: byte)
qed

lemma i32_from_take: "4 \<le> length bs \<Longrightarrow> i32_from_le_bytes (take 4 bs @ ys) = i32_from_le_bytes bs"
  by (simp add: i32_from_le_bytes_def nth_append)

section \<open>One pass\<close>

definition e8_bytes :: "(u32 \<Rightarrow> u32 option) \<Rightarrow> bytes \<Rightarrow> bytes" where
  "e8_bytes f bs = (case f (i32_from_le_bytes bs) of None \<Rightarrow> take 4 bs | Some v \<Rightarrow> i32_to_le_bytes v)"

fun e8_map :: "(nat \<Rightarrow> u32 \<Rightarrow> u32 option) \<Rightarrow> nat \<Rightarrow> bytes \<Rightarrow> bytes" where
  "e8_map f p [] = []"
| "e8_map f p (b # bs) =
     (if length bs < 10 then b # bs
      else if b = 0xE8 then b # e8_bytes (f p) bs @ e8_map f (p + 5) (drop 4 bs)
      else b # e8_map f (p + 1) bs)"

lemma e8_map_short: "length bs \<le> 10 \<Longrightarrow> e8_map f p bs = bs"
  by (cases bs) auto

lemma e8_map_skip: "0xE8 \<notin> set xs \<Longrightarrow> 10 < length ys \<Longrightarrow> e8_map f p (xs @ ys) = xs @ e8_map f (p + length xs) ys"
  by (induction xs arbitrary: p) auto

lemma e8_map_none: "0xE8 \<notin> set xs \<Longrightarrow> length ys \<le> 10 \<Longrightarrow> e8_map f p (xs @ ys) = xs @ ys"
  by (induction xs arbitrary: p) (auto simp: e8_map_short)

lemma position_e8_None: "position_e8 bs = None \<longleftrightarrow> 0xE8 \<notin> set bs"
  by (induction bs) auto

lemma position_e8_Some: "position_e8 bs = Some p \<Longrightarrow> \<exists>xs ys. bs = xs @ 0xE8 # ys \<and> 0xE8 \<notin> set xs \<and> length xs = p"
proof (induction bs arbitrary: p)
  case (Cons b bs)
  show ?case
  proof (cases "b = 0xE8")
    case True
    with Cons.prems show ?thesis by auto
  next
    case False
    with Cons.prems obtain q where q: "position_e8 bs = Some q" "p = Suc q" by auto
    with Cons.IH obtain xs ys where "bs = xs @ 0xE8 # ys" "0xE8 \<notin> set xs" "length xs = q" by blast
    with False q(2) show ?thesis by (intro exI [of _ "b # xs"] exI [of _ ys]) auto
  qed
qed simp

lemma e8_bytes_length: "4 \<le> length bs \<Longrightarrow> length (e8_bytes f bs) = 4"
  by (auto simp: e8_bytes_def i32_to_le_bytes_def split: option.splits)

lemma e8_map_length [simp]: "length (e8_map f p bs) = length bs"
  by (induction f p bs rule: e8_map.induct) (auto simp: e8_bytes_length)

lemma e8_write_bytes:
  assumes "length pre = pos" and "4 \<le> length bs"
  shows "e8_write pos (f (i32_from_le_bytes bs)) (pre @ b # bs) = pre @ b # e8_bytes f bs @ drop 4 bs"
  using assms by (auto simp: e8_write_def e8_bytes_def split: option.splits)

text \<open>The loop of the decoder is the pass.\<close>

lemma postprocess_pass:
  assumes "length pre = k" and "off + k + length rest \<le> 0x7FFFFFFF"
  shows "lzx_postprocess ts off k (pre @ rest) = (pre @ e8_map (e8_operand ts) (off + k) rest, Inr ())"
  using assms
proof (induction "length rest" arbitrary: pre k rest rule: less_induct)
  case less
  show ?case
  proof (cases "position_e8 rest")
    case None
    then have "e8_map (e8_operand ts) (off + k) rest = rest" using e8_map_none [of rest "[]"] by (simp add: position_e8_None)
    with None less.prems show ?thesis by (subst lzx_postprocess.simps) simp
  next
    case (Some p)
    then obtain xs ys where rest: "rest = xs @ 0xE8 # ys" and xs: "0xE8 \<notin> set xs" "length xs = p" using position_e8_Some by blast
    show ?thesis
    proof (cases "length ys < 10")
      case True
      with Some less.prems rest xs show ?thesis by (subst lzx_postprocess.simps) (simp add: e8_map_none)
    next
      case False
      let ?pre = "pre @ xs @ 0xE8 # e8_bytes (e8_operand ts (off + (k + p))) ys"
      have w: "e8_write (k + p) (e8_operand ts (off + (k + p)) (i32_from_le_bytes ys)) (pre @ rest) = ?pre @ drop 4 ys"
        using e8_write_bytes [of "pre @ xs" "k + p" ys "e8_operand ts (off + (k + p))" "0xE8"] False less.prems(1) xs rest by simp
      have "lzx_postprocess ts off k (pre @ rest) = lzx_postprocess ts off (k + p + 5) (?pre @ drop 4 ys)"
        using Some less.prems False rest xs w
        by (subst lzx_postprocess.simps) (simp add: u64_max_def Let_def flip: append_assoc)
      also have "\<dots> = (?pre @ e8_map (e8_operand ts) (off + (k + p + 5)) (drop 4 ys), Inr ())"
        using less.hyps [of "drop 4 ys" ?pre "k + p + 5"] less.prems False rest xs by (simp add: e8_bytes_length)
      also have "\<dots> = (pre @ e8_map (e8_operand ts) (off + k) rest, Inr ())"
        using False xs by (simp add: rest e8_map_skip algebra_simps)
      finally show ?thesis .
    qed
  qed
qed

section \<open>Undoing the compressor\<close>

text \<open>The compressor stores a call target inside the translated range as an absolute address.\<close>

definition e8_absolute :: "u32 \<Rightarrow> nat \<Rightarrow> u32 \<Rightarrow> u32 option" where
  "e8_absolute ts cur rel =
     (if - int cur \<le> sint rel \<and> sint rel < sint ts then
        Some (if sint rel < sint ts - int cur then rel + word_of_nat cur else rel - ts)
      else None)"

lemma e8_map_inverse:
  assumes inv: "\<And>q v. p \<le> q \<Longrightarrow> q < p + length bs \<Longrightarrow>
      (case f q v of None \<Rightarrow> (case g q v of None \<Rightarrow> v | Some x \<Rightarrow> x) | Some w \<Rightarrow> (case g q w of None \<Rightarrow> w | Some x \<Rightarrow> x)) = v"
  shows "e8_map g p (e8_map f p bs) = bs"
  using inv
proof (induction f p bs rule: e8_map.induct)
  case (2 f p b bs)
  show ?case
  proof (cases "length bs < 10")
    case short: False
    show ?thesis
    proof (cases "b = 0xE8")
      case True
      have "e8_bytes (g p) (e8_bytes (f p) bs @ ys) = take 4 bs" for ys
        using "2.prems" [of p "i32_from_le_bytes bs"] short i32_to_from [of bs] i32_from_take [of bs]
        by (auto simp: e8_bytes_def split: option.splits)
      moreover have "e8_map g (p + 5) (e8_map f (p + 5) (drop 4 bs)) = drop 4 bs"
        using "2.IH"(1) short True "2.prems" by simp
      ultimately show ?thesis using short True by (simp add: e8_bytes_length)
    next
      case False
      show ?thesis using "2.IH"(2) short False "2.prems" by simp
    qed
  qed simp
qed simp

lemma e8_operand_absolute:
  assumes "0 < sint ts" and "cur < 2 ^ 31"
  shows "(case e8_absolute ts cur v of None \<Rightarrow> (case e8_operand ts cur v of None \<Rightarrow> v | Some x \<Rightarrow> x)
    | Some w \<Rightarrow> (case e8_operand ts cur w of None \<Rightarrow> w | Some x \<Rightarrow> x)) = v"
proof -
  have small: "sint (word_of_int i :: u32) = i" if "- (2 ^ 31) \<le> i" "i < 2 ^ 31" for i
    using that by (simp add: signed_of_int signed_take_bit_int_eq_self)
  have ts: "sint ts < 2 ^ 31" using sint_lt [of ts] by simp
  show ?thesis
  proof (cases "- int cur \<le> sint v \<and> sint v < sint ts")
    case False
    then show ?thesis by (auto simp: e8_absolute_def e8_operand_def)
  next
    case in_range: True
    show ?thesis
    proof (cases "sint v < sint ts - int cur")
      case True
      have "sint (v + word_of_nat cur) = sint v + int cur"
        using small [of "sint v + int cur"] in_range True ts assms by simp
      then show ?thesis using in_range True by (auto simp: e8_absolute_def e8_operand_def)
    next
      case False
      have "sint (v - ts) = sint v - sint ts"
        using small [of "sint v - sint ts"] in_range False ts assms by simp
      then show ?thesis using in_range False assms(1) by (auto simp: e8_absolute_def e8_operand_def)
    qed
  qed
qed

text \<open>C33. E8 translation restores the program a compressor has translated: for a positive translation size and
  any chunk within the first gigabytes, replacing relative call targets by absolute ones and running
  the fix-up loop of the decoder gives the chunk back, also where an operand looks like another call
  instruction and at the untouched last ten bytes.\<close>

theorem lzx_e8_roundtrip:
  assumes "0 < sint ts" and "off + length bs \<le> 0x7FFFFFFF"
  shows "lzx_postprocess ts off 0 (e8_map (e8_absolute ts) off bs) = (bs, Inr ())"
proof -
  have "e8_map (e8_operand ts) off (e8_map (e8_absolute ts) off bs) = bs"
    by (rule e8_map_inverse) (rule e8_operand_absolute, use assms in simp_all)
  with postprocess_pass [of "[]" 0 off "e8_map (e8_absolute ts) off bs" ts] assms(2) show ?thesis by simp
qed

theorem lzx_e8_roundtrip_witness:
  "lzx_postprocess 100 5 0 (e8_map (e8_absolute 100) 5 (0xE8 # 7 # replicate 12 0)) = (0xE8 # 7 # replicate 12 0, Inr ())"
  by (rule lzx_e8_roundtrip) simp_all

end
