(* ===== verification/Oxide_Lzx_Spec.thy ===== *)
theory Oxide_Lzx_Spec
  imports Oxide_Lzx_E8
begin

text \<open>
  What the LZX decoder promises, as a reference decoder without a window. A parser reads the chunk
  into the sequence of its literals, matches and stored stretches and knows nothing of the output;
  the sequence is then executed on the list of all bytes produced so far, where a match that would
  reach beyond them or beyond the window size is refused. The ring buffer decoder computes exactly
  this: the same bytes, the same errors and the same parser state.
\<close>

section \<open>Executing tokens\<close>

datatype lz_token = Lit byte | Copy nat nat | Stored bytes

fun lz_step :: "bytes \<Rightarrow> lz_token \<Rightarrow> bytes" where
  "lz_step out (Lit b) = out @ [b]"
| "lz_step out (Copy offset len) = lz_copy offset len out"
| "lz_step out (Stored bs) = out @ bs"

fun token_length :: "lz_token \<Rightarrow> nat" where
  "token_length (Lit b) = 1"
| "token_length (Copy offset len) = len"
| "token_length (Stored bs) = length bs"

text \<open>The distance of a match that reaches further back than \<open>bound\<close> bytes.\<close>

fun out_of_reach :: "nat \<Rightarrow> lz_token \<Rightarrow> nat option" where
  "out_of_reach bound (Copy offset len) = (if offset = 0 \<or> bound < offset then Some offset else None)"
| "out_of_reach bound _ = None"

text \<open>
  Execution on the list \<open>out\<close> of all bytes produced, \<open>base\<close> of which matches may reach: it stops at
  the first match that reaches further than \<open>base\<close> or than the window of \<open>w\<close> bytes, and reports its
  distance.
\<close>

fun lz_run :: "nat \<Rightarrow> nat \<Rightarrow> bytes \<Rightarrow> lz_token list \<Rightarrow> bytes \<times> nat option" where
  "lz_run w base out [] = (out, None)"
| "lz_run w base out (t # ts) =
     (case out_of_reach (min base w) t of
        Some offset \<Rightarrow> (out, Some offset)
      | None \<Rightarrow> lz_run w (base + token_length t) (lz_step out t) ts)"

text \<open>The newest \<open>n\<close> bytes of an output that is preceded by zeros.\<close>

definition recent :: "nat \<Rightarrow> bytes \<Rightarrow> bytes" where
  "recent n out = drop (length out) (replicate n 0 @ out)"

lemma length_recent [simp]: "length (recent n out) = n"
  by (simp add: recent_def)

lemma lz_copy_prefix:
  assumes "0 < offset" and "offset \<le> length out"
  shows "lz_copy offset n (zs @ out) = zs @ lz_copy offset n out"
  using assms(2)
proof (induction n arbitrary: out)
  case (Suc n)
  then have "length (zs @ out) - offset = length zs + (length out - offset)" by simp
  then have "(zs @ out) ! (length (zs @ out) - offset) = out ! (length out - offset)" by (simp only: nth_append_length_plus)
  with Suc.prems Suc.IH [of "out @ [out ! (length out - offset)]"] show ?case by simp
qed simp

lemma lz_copy_drop:
  assumes "0 < offset" and "offset + k \<le> length out"
  shows "lz_copy offset n (drop k out) = drop k (lz_copy offset n out)"
  using lz_copy_prefix [of offset "drop k out" n "take k out"] assms by simp

lemma length_lz_copy [simp]: "length (lz_copy offset n out) = length out + n"
  by (induction offset n out rule: lz_copy.induct) auto

lemma length_lz_step [simp]: "length (lz_step out t) = length out + token_length t"
  by (cases t) simp_all

lemma length_lz_run: "length out \<le> length (fst (lz_run w base out toks))"
proof (induction toks arbitrary: base out)
  case (Cons t toks)
  show ?case using Cons [of "lz_step out t" "base + token_length t"] by (simp split: option.split)
qed simp

lemma recent_copy:
  assumes "0 < offset" and "offset \<le> n" and "offset \<le> length out"
  shows "drop len (lz_copy offset len (recent n out)) = recent n (lz_copy offset len out)"
proof -
  have "lz_copy offset len (recent n out) = drop (length out) (lz_copy offset len (replicate n 0 @ out))"
    unfolding recent_def using assms by (intro lz_copy_drop) simp_all
  also have "\<dots> = drop (length out) (replicate n 0 @ lz_copy offset len out)" using assms by (simp add: lz_copy_prefix)
  finally show ?thesis by (auto simp: recent_def intro!: arg_cong [of _ _ "\<lambda>k. drop k (lz_copy offset len out)"])
qed

lemma recent_append: "length xs \<le> n \<Longrightarrow> drop (length xs) (recent n out @ xs) = recent n (out @ xs)"
  by (auto simp: recent_def intro!: arg_cong [of _ _ "\<lambda>k. drop k out"])

lemma recent_newest: "k \<le> n \<Longrightarrow> length out = m + k \<Longrightarrow> drop (n - k) (recent n out) = drop m out"
  by (auto simp: recent_def intro!: arg_cong [of _ _ "\<lambda>k. drop k out"])

section \<open>Windows\<close>

text \<open>What the decoder relies on of a window: its contents are a list that every operation extends.\<close>

locale lz_window =
  fixes ok :: "'w \<Rightarrow> bool" and contents :: "'w \<Rightarrow> bytes" and capacity :: nat
    and put :: "byte \<Rightarrow> 'w \<Rightarrow> ('w, unit) run"
    and copy :: "nat \<Rightarrow> nat \<Rightarrow> 'w \<Rightarrow> ('w, unit) run"
    and raw :: "nat \<Rightarrow> bitstream \<Rightarrow> 'w \<Rightarrow> ('w, bitstream) run"
    and view :: "nat \<Rightarrow> 'w \<Rightarrow> ('w, bytes) run"
  assumes capacity: "MAX_CHUNK_SIZE \<le> capacity"
    and put: "ok w \<Longrightarrow> \<exists>w'. put v w = (w', Inr ()) \<and> ok w' \<and> contents w' = drop 1 (contents w @ [v])"
    and copy: "ok w \<Longrightarrow> 0 < offset \<Longrightarrow> offset \<le> capacity \<Longrightarrow> len \<le> MAX_CHUNK_SIZE \<Longrightarrow>
      \<exists>w'. copy offset len w = (w', Inr ()) \<and> ok w' \<and> contents w' = drop len (lz_copy offset len (contents w))"
    and raw: "ok w \<Longrightarrow> len \<le> capacity \<Longrightarrow> len \<le> length (bs_buffer s) \<Longrightarrow>
      \<exists>w'. raw len s w = (w', Inr (s\<lparr>bs_buffer := drop len (bs_buffer s)\<rparr>)) \<and> ok w' \<and>
        contents w' = drop len (contents w @ take len (bs_buffer s))"
    and view: "ok w \<Longrightarrow> len \<le> MAX_CHUNK_SIZE \<Longrightarrow>
      \<exists>w'. view len w = (w', Inr (drop (capacity - len) (contents w))) \<and> ok w' \<and> contents w' = contents w"
begin

definition reflects :: "'w \<Rightarrow> bytes \<Rightarrow> bool" where
  "reflects w out \<longleftrightarrow> ok w \<and> contents w = recent capacity out"

lemma positive: "0 < capacity"
  using capacity by (simp add: MAX_CHUNK_SIZE_def)

lemma put_reflects: "reflects w out \<Longrightarrow> \<exists>w'. put v w = (w', Inr ()) \<and> reflects w' (lz_step out (Lit v))"
  using put [of w v] recent_append [of "[v]" capacity out] positive by (auto simp: reflects_def)

lemma copy_reflects:
  assumes "reflects w out" and "0 < offset" and "offset \<le> capacity" and "offset \<le> length out"
    and "len \<le> MAX_CHUNK_SIZE"
  shows "\<exists>w'. copy offset len w = (w', Inr ()) \<and> reflects w' (lz_step out (Copy offset len))"
  using copy [of w offset len] recent_copy [of offset capacity out len] assms by (auto simp: reflects_def)

lemma raw_reflects:
  assumes "reflects w out" and "len \<le> MAX_CHUNK_SIZE" and "len \<le> length (bs_buffer s)"
  shows "\<exists>w'. raw len s w = (w', Inr (s\<lparr>bs_buffer := drop len (bs_buffer s)\<rparr>)) \<and>
    reflects w' (lz_step out (Stored (take len (bs_buffer s))))"
proof -
  have "drop len (recent capacity out @ take len (bs_buffer s)) = recent capacity (out @ take len (bs_buffer s))"
    using recent_append [of "take len (bs_buffer s)" capacity out] assms(2,3) capacity by (simp only: length_take min_absorb2)
  with raw [of w len s] assms capacity show ?thesis by (auto simp: reflects_def)
qed

lemma view_reflects:
  assumes "reflects w out" and "len \<le> MAX_CHUNK_SIZE" and "length out = m + len"
  shows "\<exists>w'. view len w = (w', Inr (drop m out)) \<and> reflects w' out"
  using view [of w len] recent_newest [of len capacity out m] assms capacity by (auto simp: reflects_def)

end

interpretation lw: lz_window "window_ok ws" history "window_bytes ws" window_push copy_from_self copy_from_bitstream past_view for ws
proof unfold_locales
  show "\<exists>w'. window_push v w = (w', Inr ()) \<and> window_ok ws w' \<and> history w' = drop 1 (history w @ [v])" if "window_ok ws w" for w v
    using history_push [OF that, of v] length_history [OF that] window_bytes_bounds(3) [of ws] by (cases "history w") auto
  show "\<exists>w'. copy_from_bitstream len s w = (w', Inr (s\<lparr>bs_buffer := drop len (bs_buffer s)\<rparr>)) \<and> window_ok ws w' \<and>
      history w' = drop len (history w @ take len (bs_buffer s))"
    if "window_ok ws w" "len \<le> window_bytes ws" "len \<le> length (bs_buffer s)" for w len s
    using history_copy_from_bitstream [OF that(1,2), of s] that(3) by simp
qed (use window_bytes_bounds history_copy_from_self past_view_newest in auto)

section \<open>The reference decoder\<close>

text \<open>What the parser keeps between elements: the path lengths, the recent offsets and the open block.\<close>

record lz_parser =
  ps_state :: decoder_state
  ps_r :: lru
  ps_block :: lzx_block

definition parse_block :: "lz_parser \<Rightarrow> bitstream \<Rightarrow> decode_failed + (lz_parser \<times> bitstream)" where
  "parse_block p s =
     (if bk_remaining (ps_block p) = 0 then
        (case block_read s (ps_state p) of
           (st, Inl e) \<Rightarrow> Inl e
         | (st, Inr (b, s1)) \<Rightarrow>
             if bk_remaining b = 0 then Inl (InvalidBlockSize 0) else Inr (p\<lparr>ps_state := st, ps_block := b\<rparr>, s1))
      else Inr (p, s))"

definition element_token :: "decoded \<Rightarrow> bitstream \<Rightarrow> lz_token" where
  "element_token decoded s =
     (case decoded of
        Single v \<Rightarrow> Lit v | Match offset len \<Rightarrow> Copy offset len | Read len \<Rightarrow> Stored (take len (bs_buffer s)))"

text \<open>A stored stretch is cut out of the chunk; the other elements have been read already.\<close>

definition element_rest :: "decoded \<Rightarrow> bitstream \<Rightarrow> bitstream" where
  "element_rest decoded s = (case decoded of Read len \<Rightarrow> s\<lparr>bs_buffer := drop len (bs_buffer s)\<rparr> | _ \<Rightarrow> s)"

text \<open>
  An element of no length, one that overruns the chunk and one that overruns the block are errors;
  otherwise it is a token, after which the padding byte of a finished stored block may be missing.
\<close>

definition parse_element :: "nat \<Rightarrow> nat \<Rightarrow> decoded \<Rightarrow> lz_parser \<Rightarrow> bitstream \<Rightarrow>
    decode_failed + (lz_token \<times> (decode_failed + (nat \<times> lz_parser \<times> bitstream)))" where
  "parse_element output_len n decoded p s =
     (let t = element_token decoded s; b = ps_block p in
      if token_length t = 0 then Inl UnexpectedEof
      else if output_len < n + token_length t then Inl OverreadChunk
      else if bk_remaining b < token_length t then Inl OverreadBlock
      else
        let b' = b\<lparr>bk_remaining := bk_remaining b - token_length t\<rparr> in
        Inr (t, bindE (consume_uncompressed_padding b' (element_rest decoded s)) (\<lambda>s'.
                Inr (n + token_length t, p\<lparr>ps_block := b'\<rparr>, s'))))"

definition parse_round :: "nat \<Rightarrow> nat \<Rightarrow> lz_parser \<Rightarrow> bitstream \<Rightarrow>
    decode_failed + (lz_token \<times> (decode_failed + (nat \<times> lz_parser \<times> bitstream)))" where
  "parse_round output_len n p s =
     bindE (parse_block p s) (\<lambda>(p, s).
     (case block_decode_element (ps_block p) s (ps_r p) of
        (r, Inl e) \<Rightarrow> Inl e
      | (r, Inr (decoded, s1)) \<Rightarrow> parse_element output_len n decoded (p\<lparr>ps_r := r\<rparr>) s1))"

lemma parse_element_progress:
  "parse_element output_len n decoded p s = Inr (t, Inr (n', p', s')) \<Longrightarrow> n < n' \<and> n' \<le> output_len \<and> n' = n + token_length t"
  by (auto simp: parse_element_def Let_def bindE_Inr_iff split: if_splits)

lemma parse_round_progress:
  "parse_round output_len n p s = Inr (t, Inr (n', p', s')) \<Longrightarrow> n < n' \<and> n' \<le> output_len \<and> n' = n + token_length t"
  unfolding parse_round_def
  by (cases "parse_block p s"; cases "block_decode_element (ps_block (fst (projr (parse_block p s)))) (snd (projr (parse_block p s)))
        (ps_r (fst (projr (parse_block p s))))")
    (auto dest: parse_element_progress split: sum.splits prod.splits)

text \<open>The tokens of a chunk up to its end or the first error, and the parser at the end.\<close>

function lz_tokens :: "nat \<Rightarrow> nat \<Rightarrow> lz_parser \<Rightarrow> bitstream \<Rightarrow> lz_token list \<times> (decode_failed + lz_parser)" where
  "lz_tokens output_len n p s =
     (if n = output_len then ([], Inr p)
      else
        (case parse_round output_len n p s of
           Inl e \<Rightarrow> ([], Inl e)
         | Inr (t, Inl e) \<Rightarrow> ([t], Inl e)
         | Inr (t, Inr (n', p', s')) \<Rightarrow> (case lz_tokens output_len n' p' s' of (ts, r) \<Rightarrow> (t # ts, r))))"
  by pat_completeness auto

termination
  by (relation "measure (\<lambda>(output_len, n, _, _). output_len - n)") (auto dest!: parse_round_progress)

declare lz_tokens.simps [simp del]

record lz_reference =
  rf_parser :: lz_parser
  rf_started :: bool
  rf_translation :: "u32 option"
  rf_accounted :: nat
  rf_out :: bytes

definition parse_header :: "lz_reference \<Rightarrow> bitstream \<Rightarrow> decode_failed + (u32 option \<times> bitstream)" where
  "parse_header rf s =
     (if rf_started rf then Inr (rf_translation rf, s)
      else
        bindE (read_bit s) (\<lambda>(b, s1).
        if b \<noteq> 0 then bindE (read_bits 32 s1) (\<lambda>(v, s2). Inr (Some v, s2)) else Inr (None, s1)))"

definition e8_view :: "u32 option \<Rightarrow> nat \<Rightarrow> bytes \<Rightarrow> bytes" where
  "e8_view tr start data =
     (case tr of
        None \<Rightarrow> data
      | Some ts \<Rightarrow> if start < 0x40000000 then e8_map (e8_operand ts) start data else data)"

text \<open>
  A chunk in the reference decoder: all tokens are read first, then they are executed. Bytes written
  by a chunk that fails stay in \<open>rf_out\<close>, but only those of finished chunks are accounted for.
\<close>

definition lz_decode :: "nat \<Rightarrow> bytes \<Rightarrow> nat \<Rightarrow> lz_reference \<Rightarrow> lz_reference \<times> (decode_failed + bytes)" where
  "lz_decode w chunk output_len rf =
     (if output_len = 0 then (rf, Inl ZeroProgress)
      else if MAX_CHUNK_SIZE < output_len then (rf, Inl ChunkTooLong)
      else
        (case parse_header rf (bitstream_new chunk) of
           Inl e \<Rightarrow> (rf, Inl e)
         | Inr (tr, s) \<Rightarrow>
             let (toks, res) = lz_tokens output_len 0 (rf_parser rf) s;
                 (out, bad) = lz_run w (rf_accounted rf) (rf_out rf) toks in
             (case (bad, res) of
                (Some offset, _) \<Rightarrow> (rf\<lparr>rf_out := out\<rparr>, Inl (InvalidMatchOffset offset))
              | (None, Inl e) \<Rightarrow> (rf\<lparr>rf_out := out\<rparr>, Inl e)
              | (None, Inr p) \<Rightarrow>
                  (\<lparr>rf_parser = p, rf_started = True, rf_translation = tr,
                    rf_accounted = rf_accounted rf + output_len, rf_out = out\<rparr>,
                   Inr (e8_view tr (rf_accounted rf) (drop (length (rf_out rf)) out))))))"

section \<open>The decoder and its reference\<close>

definition parser_of :: "lzx_decoder \<Rightarrow> lz_parser" where
  "parser_of d = \<lparr>ps_state = ld_state d, ps_r = ld_r d, ps_block = ld_current_block d\<rparr>"

definition reference_of :: "lzx_decoder \<Rightarrow> bytes \<Rightarrow> lz_reference" where
  "reference_of d out =
     \<lparr>rf_parser = parser_of d, rf_started = ld_first_chunk_read d,
      rf_translation = map_option pp_translation_size (ld_postprocess d), rf_accounted = ld_chunk_offset d, rf_out = out\<rparr>"

lemma reference_of_sel [simp]:
  "rf_parser (reference_of d out) = parser_of d" "rf_started (reference_of d out) = ld_first_chunk_read d"
  "rf_accounted (reference_of d out) = ld_chunk_offset d" "rf_out (reference_of d out) = out"
  by (simp_all add: reference_of_def)

definition buffer_ok :: "post_process_state option \<Rightarrow> bool" where
  "buffer_ok pp \<longleftrightarrow> (case pp of None \<Rightarrow> True | Some p \<Rightarrow> length (pp_data_chunk p) = MAX_CHUNK_SIZE)"

text \<open>
  The decoder \<open>d\<close> has written \<open>out\<close>: its window shows the newest bytes of it, and no more of it is
  accounted for than exists.
\<close>

definition lzx_tracks :: "window_size \<Rightarrow> lzx_decoder \<Rightarrow> bytes \<Rightarrow> bool" where
  "lzx_tracks ws d out \<longleftrightarrow>
     ds_window_size (ld_state d) = ws \<and> window_ok ws (ld_window d) \<and>
     history (ld_window d) = recent (window_bytes ws) out \<and> ld_chunk_offset d \<le> length out \<and> buffer_ok (ld_postprocess d)"

definition ready :: "window_size \<Rightarrow> lzx_decoder \<Rightarrow> bytes \<Rightarrow> nat \<Rightarrow> bool" where
  "ready ws d out n \<longleftrightarrow>
     ds_window_size (ld_state d) = ws \<and> lw.reflects ws (ld_window d) out \<and> ld_chunk_offset d + n \<le> length out \<and>
     buffer_ok (ld_postprocess d)"

lemma tracks_ready: "lzx_tracks ws d out \<longleftrightarrow> ready ws d out 0"
  by (auto simp: lzx_tracks_def ready_def lw.reflects_def)

text \<open>What the elements of a chunk leave alone.\<close>

definition same_frame :: "lzx_decoder \<Rightarrow> lzx_decoder \<Rightarrow> bool" where
  "same_frame d d' \<longleftrightarrow>
     ds_window_size (ld_state d') = ds_window_size (ld_state d) \<and> ld_chunk_offset d' = ld_chunk_offset d \<and>
     ld_first_chunk_read d' = ld_first_chunk_read d \<and> ld_postprocess d' = ld_postprocess d"

lemma same_frame_refl [simp]: "same_frame d d"
  by (simp add: same_frame_def)

lemma same_frame_trans: "same_frame d d' \<Longrightarrow> same_frame d' d'' \<Longrightarrow> same_frame d d''"
  by (simp add: same_frame_def)

lemma frame_ready:
  "ready ws d out n \<Longrightarrow> same_frame d d' \<Longrightarrow> lw.reflects ws (ld_window d') out' \<Longrightarrow> length out + k \<le> length out' \<Longrightarrow>
   ready ws d' out' (n + k)"
  by (simp add: ready_def same_frame_def)

abbreviation reach :: "window_size \<Rightarrow> lzx_decoder \<Rightarrow> nat \<Rightarrow> nat" where
  "reach ws d n \<equiv> min (ld_chunk_offset d + n) (window_bytes ws)"

lemma token_length_element [simp]: "token_length (element_token decoded s) = element_length decoded s"
  by (cases decoded) (simp_all add: element_token_def element_length_def)

lemma apply_decoded_exec:
  assumes rd: "ready ws d out n" and adv: "adv = element_length decoded s" "adv \<le> MAX_CHUNK_SIZE"
    and small: "ld_chunk_offset d + n \<le> u64_max"
  shows "case out_of_reach (reach ws d n) (element_token decoded s) of
      Some offset \<Rightarrow> apply_decoded decoded adv n s d = (d, Inl (InvalidMatchOffset offset))
    | None \<Rightarrow> \<exists>w. apply_decoded decoded adv n s d = (d\<lparr>ld_window := w\<rparr>, Inr (element_rest decoded s)) \<and>
        lw.reflects ws w (lz_step out (element_token decoded s))"
proof -
  have win: "lw.reflects ws (ld_window d) out" "ds_window_size (ld_state d) = ws" "ld_chunk_offset d + n \<le> length out"
    using rd by (simp_all add: ready_def)
  show ?thesis
  proof (cases decoded)
    case (Single v)
    with lw.put_reflects [OF win(1), of v] show ?thesis
      by (auto simp: apply_decoded_def element_token_def element_rest_def)
  next
    case (Match offset len)
    show ?thesis
    proof (cases "offset = 0 \<or> reach ws d n < offset")
      case True
      with Match small win(2) show ?thesis
        by (auto simp: apply_decoded_def copy_match_def checked_add_def element_token_def)
    next
      case False
      then have "\<exists>w. copy_from_self offset len (ld_window d) = (w, Inr ()) \<and> lw.reflects ws w (lz_step out (Copy offset len))"
        using win adv Match by (intro lw.copy_reflects) (auto simp: element_length_def)
      with False Match small win(2) show ?thesis
        by (auto simp: apply_decoded_def copy_match_def checked_add_def element_token_def element_rest_def)
    qed
  next
    case (Read len)
    have rest: "take adv (bs_buffer s) = take len (bs_buffer s)" "drop adv (bs_buffer s) = drop len (bs_buffer s)"
      "adv \<le> length (bs_buffer s)"
      using adv(1) Read by (simp_all add: element_length_def min_def)
    from lw.raw_reflects [OF win(1) adv(2) rest(3)] Read rest show ?thesis
      by (auto simp: apply_decoded_def element_token_def element_rest_def)
  qed
qed

text \<open>One step of the decoder against one step of the parser.\<close>

definition follows :: "window_size \<Rightarrow> lzx_decoder \<Rightarrow> bytes \<Rightarrow> nat \<Rightarrow> (lzx_decoder, nat \<times> bitstream) run \<Rightarrow>
    decode_failed + (lz_token \<times> (decode_failed + (nat \<times> lz_parser \<times> bitstream))) \<Rightarrow> bool" where
  "follows ws d out n run parsed \<longleftrightarrow> same_frame d (fst run) \<and>
     (case parsed of
        Inl e \<Rightarrow> snd run = Inl e \<and> lw.reflects ws (ld_window (fst run)) out
      | Inr (t, rest) \<Rightarrow>
          (case out_of_reach (reach ws d n) t of
             Some offset \<Rightarrow> snd run = Inl (InvalidMatchOffset offset) \<and> lw.reflects ws (ld_window (fst run)) out
           | None \<Rightarrow> lw.reflects ws (ld_window (fst run)) (lz_step out t) \<and>
               (case rest of
                  Inl e \<Rightarrow> snd run = Inl e
                | Inr (n', p', s') \<Rightarrow> snd run = Inr (n', s') \<and> parser_of (fst run) = p')))"

lemma write_element_follows:
  assumes rd: "ready ws d out n" and len: "n \<le> output_len" "output_len \<le> MAX_CHUNK_SIZE"
    and small: "ld_chunk_offset d + output_len \<le> u64_max"
  shows "follows ws d out n (write_element output_len n decoded d s) (parse_element output_len n decoded (parser_of d) s)"
proof -
  let ?adv = "element_length decoded s" and ?b = "ld_current_block d"
  have win: "lw.reflects ws (ld_window d) out" using rd by (simp add: ready_def)
  show ?thesis
  proof (cases "?adv = 0 \<or> output_len < n + ?adv \<or> bk_remaining ?b < ?adv")
    case True
    have "?adv \<le> u32_max" if "\<not> output_len - n < ?adv" using that len(2) by (simp add: MAX_CHUNK_SIZE_def u32_max_def)
    with True len(1) win show ?thesis
      by (auto simp: follows_def write_element_def parse_element_def parser_of_def Let_def checked_sub_def)
  next
    case False
    then have small_adv: "?adv \<le> MAX_CHUNK_SIZE" "?adv \<le> u32_max" "n + ?adv \<le> u64_max" "\<not> output_len - n < ?adv"
      using len by (auto simp: MAX_CHUNK_SIZE_def u32_max_def u64_max_def)
    let ?b' = "?b\<lparr>bk_remaining := bk_remaining ?b - ?adv\<rparr>"
    have run: "write_element output_len n decoded d s =
        bindS (apply_decoded decoded ?adv n s d) (\<lambda>d s1.
          (d\<lparr>ld_current_block := (ld_current_block d)\<lparr>bk_remaining := bk_remaining ?b - ?adv\<rparr>\<rparr>,
           bindE (consume_uncompressed_padding ((ld_current_block d)\<lparr>bk_remaining := bk_remaining ?b - ?adv\<rparr>) s1) (\<lambda>s2. Inr (n + ?adv, s2))))"
      using False len(1) small_adv by (simp add: write_element_def checked_sub_def checked_add_def Let_def)
    have parsed: "parse_element output_len n decoded (parser_of d) s =
        Inr (element_token decoded s, bindE (consume_uncompressed_padding ?b' (element_rest decoded s)) (\<lambda>s'.
          Inr (n + ?adv, (parser_of d)\<lparr>ps_block := ?b'\<rparr>, s')))"
      using False by (simp add: parse_element_def parser_of_def Let_def)
    have "ld_chunk_offset d + n \<le> u64_max" using small len(1) by simp
    note exec = apply_decoded_exec [OF rd refl small_adv(1) this]
    show ?thesis
    proof (cases "out_of_reach (reach ws d n) (element_token decoded s)")
      case None
      then obtain w where "apply_decoded decoded ?adv n s d = (d\<lparr>ld_window := w\<rparr>, Inr (element_rest decoded s))"
        "lw.reflects ws w (lz_step out (element_token decoded s))" using exec by auto
      with None show ?thesis unfolding run parsed
        by (cases "consume_uncompressed_padding ?b' (element_rest decoded s)") (simp_all add: follows_def same_frame_def parser_of_def)
    next
      case (Some offset)
      with exec win show ?thesis unfolding run parsed by (simp add: follows_def)
    qed
  qed
qed

text \<open>Reading a block changes the trees only.\<close>

lemma read_trees_size [simp]:
  "ds_window_size (fst (read_main_and_length_trees s st)) = ds_window_size st"
  by (auto simp: read_main_and_length_trees_def Let_def bindS_def split: prod.splits sum.splits)

lemma read_trees_keeps: "read_main_and_length_trees s st = (st', res) \<Longrightarrow> ds_window_size st' = ds_window_size st"
  using read_trees_size [of s st] by simp

lemma block_read_keeps: "block_read s st = (st', res) \<Longrightarrow> ds_window_size st' = ds_window_size st"
  unfolding block_read_def bindS_def
  by (auto dest: read_trees_keeps split: prod.splits sum.splits if_splits)

lemma next_block_parses:
  "same_frame d (fst (next_block d s)) \<and> ld_window (fst (next_block d s)) = ld_window d \<and>
   parse_block (parser_of d) s = map_sum id (Pair (parser_of (fst (next_block d s)))) (snd (next_block d s))"
  by (auto simp: next_block_def parse_block_def parser_of_def same_frame_def dest: block_read_keeps split: prod.split sum.split)

lemma follows_frame:
  assumes "same_frame d d1" and "follows ws d1 out n run parsed"
  shows "follows ws d out n run parsed"
proof -
  have "ld_chunk_offset d1 = ld_chunk_offset d" using assms(1) by (simp add: same_frame_def)
  with assms(2) same_frame_trans [OF assms(1)] show ?thesis unfolding follows_def by metis
qed

lemma decode_round_follows:
  assumes "ready ws d out n" and "n \<le> output_len" "output_len \<le> MAX_CHUNK_SIZE" and "ld_chunk_offset d + output_len \<le> u64_max"
  shows "follows ws d out n (decode_round output_len n d s) (parse_round output_len n (parser_of d) s)"
proof -
  obtain d1 res where b: "next_block d s = (d1, res)" by fastforce
  have d1: "same_frame d d1" "ld_window d1 = ld_window d" "parse_block (parser_of d) s = map_sum id (Pair (parser_of d1)) res"
    using next_block_parses [of d s] b by simp_all
  have win: "lw.reflects ws (ld_window d1) out" using assms(1) d1(2) by (simp add: ready_def)
  show ?thesis
  proof (cases res)
    case (Inl e)
    with b d1 win show ?thesis by (simp add: decode_round_def parse_round_def follows_def)
  next
    case (Inr s1)
    obtain r el where el: "block_decode_element (ld_current_block d1) s1 (ld_r d1) = (r, el)" by fastforce
    let ?d = "d1\<lparr>ld_r := r\<rparr>"
    have frame: "same_frame d ?d" using d1(1) by (simp add: same_frame_def)
    show ?thesis
    proof (cases el)
      case (Inl e)
      with b \<open>res = Inr s1\<close> d1 el win frame show ?thesis
        by (simp add: decode_round_def parse_round_def follows_def parser_of_def)
    next
      case (Inr q)
      then obtain decoded s2 where q: "el = Inr (decoded, s2)" by (cases q) simp
      have "ready ws ?d out n" using frame_ready [OF assms(1) frame, of out 0] win by simp
      then have "follows ws ?d out n (write_element output_len n decoded ?d s2) (parse_element output_len n decoded (parser_of ?d) s2)"
        using assms(2-4) frame by (intro write_element_follows) (simp_all add: same_frame_def)
      moreover have "parser_of ?d = (parser_of d1)\<lparr>ps_r := r\<rparr>" by (simp add: parser_of_def)
      ultimately show ?thesis
        using b \<open>res = Inr s1\<close> d1(3) el q follows_frame [OF frame]
        by (simp add: decode_round_def parse_round_def parser_of_def)
    qed
  qed
qed

text \<open>The whole loop: what is written is what the tokens execute to, and the first obstacle is the same.\<close>

definition loop_follows :: "window_size \<Rightarrow> lzx_decoder \<Rightarrow> nat \<Rightarrow> (lzx_decoder, unit) run \<Rightarrow>
    bytes \<times> nat option \<Rightarrow> decode_failed + lz_parser \<Rightarrow> bool" where
  "loop_follows ws d final run executed res \<longleftrightarrow>
     same_frame d (fst run) \<and> lw.reflects ws (ld_window (fst run)) (fst executed) \<and>
     (case (snd executed, res) of
        (Some offset, _) \<Rightarrow> snd run = Inl (InvalidMatchOffset offset)
      | (None, Inl e) \<Rightarrow> snd run = Inl e
      | (None, Inr p) \<Rightarrow> snd run = Inr () \<and> parser_of (fst run) = p \<and> length (fst executed) = final)"

lemma loop_follows_frame: "same_frame d d1 \<Longrightarrow> loop_follows ws d1 final run executed res \<Longrightarrow> loop_follows ws d final run executed res"
  using same_frame_trans by (auto simp: loop_follows_def)

lemma loop_follows_tokens:
  assumes "ready ws d out n" and "n \<le> output_len" and "output_len \<le> MAX_CHUNK_SIZE" and "ld_chunk_offset d + output_len \<le> u64_max"
    and "lz_tokens output_len n (parser_of d) s = (toks, res)"
  shows "loop_follows ws d (length out + (output_len - n)) (decompress_loop output_len n d s)
    (lz_run (window_bytes ws) (ld_chunk_offset d + n) out toks) res"
  using assms
proof (induction output_len n d s arbitrary: out toks rule: decompress_loop.induct)
  case (1 output_len n d s)
  have win: "lw.reflects ws (ld_window d) out" using "1.prems"(1) by (simp add: ready_def)
  obtain d1 r where run: "decode_round output_len n d s = (d1, r)" by fastforce
  note step = decode_round_follows [OF "1.prems"(1-4), of s, unfolded run]
  show ?case
  proof (cases "n = output_len")
    case True
    with "1.prems"(5) win show ?thesis
      by (auto simp: decompress_loop.simps [of output_len output_len] lz_tokens.simps [of output_len output_len] loop_follows_def)
  next
    case False
    note unfolded = decompress_loop.simps [of output_len n d s, unfolded if_not_P [OF False] run]
      lz_tokens.simps [of output_len n "parser_of d" s, unfolded if_not_P [OF False]]
    show ?thesis
    proof (cases "parse_round output_len n (parser_of d) s")
      case (Inl e)
      with step "1.prems"(5) show ?thesis by (auto simp: unfolded follows_def loop_follows_def)
    next
      case (Inr q)
      then obtain t rest where t: "parse_round output_len n (parser_of d) s = Inr (t, rest)" by (cases q) simp
      show ?thesis
      proof (cases "out_of_reach (reach ws d n) t")
        case (Some offset)
        obtain ts where "toks = t # ts" using t "1.prems"(5) by (auto simp: unfolded split: sum.splits prod.splits)
        with Some step t show ?thesis by (auto simp: unfolded follows_def loop_follows_def)
      next
        case None
        show ?thesis
        proof (cases rest)
          case (Inl e)
          with None step t "1.prems"(5) show ?thesis by (auto simp: unfolded follows_def loop_follows_def)
        next
          case (Inr q)
          then obtain n' p' s' where rest: "rest = Inr (n', p', s')" by (cases q) simp
          have n': "n < n'" "n' \<le> output_len" "n' = n + token_length t" using parse_round_progress t rest by blast+
          have d1: "same_frame d d1" "lw.reflects ws (ld_window d1) (lz_step out t)" "r = Inr (n', s')" "parser_of d1 = p'"
            using step t rest None by (simp_all add: follows_def)
          obtain ts where ts: "lz_tokens output_len n' (parser_of d1) s' = (ts, res)" "toks = t # ts"
            using t rest d1(4) "1.prems"(5) by (auto simp: unfolded split: prod.splits)
          have rd: "ready ws d1 (lz_step out t) n'" using frame_ready [OF "1.prems"(1) d1(1,2), of "token_length t"] n'(3) by simp
          have off: "ld_chunk_offset d1 = ld_chunk_offset d" using d1(1) by (simp add: same_frame_def)
          have "loop_follows ws d1 (length (lz_step out t) + (output_len - n')) (decompress_loop output_len n' d1 s')
              (lz_run (window_bytes ws) (ld_chunk_offset d1 + n') (lz_step out t) ts) res"
            using "1.IH" [OF False run [symmetric] d1(3) refl rd n'(2) "1.prems"(3) _ ts(1)] "1.prems"(4) off by simp
          moreover have "length (lz_step out t) + (output_len - n') = length out + (output_len - n)" using n' by simp
          ultimately show ?thesis
            using loop_follows_frame [OF d1(1)] None ts(2) off n'(3) d1(3) by (simp add: unfolded add.assoc)
        qed
      qed
    qed
  qed
qed

section \<open>A chunk\<close>

lemma finish_chunk_exact:
  assumes "ready ws d out n" and "n \<le> MAX_CHUNK_SIZE" and "length out = m + n" and "ld_chunk_offset d + n \<le> u64_max"
  shows "\<exists>w pp. finish_chunk n d = (d\<lparr>ld_window := w, ld_chunk_offset := ld_chunk_offset d + n, ld_postprocess := pp\<rparr>,
      Inr (e8_view (map_option pp_translation_size (ld_postprocess d)) (ld_chunk_offset d) (drop m out))) \<and>
    lw.reflects ws w out \<and> buffer_ok pp \<and>
    map_option pp_translation_size pp = map_option pp_translation_size (ld_postprocess d)"
proof -
  have win: "lw.reflects ws (ld_window d) out" and buf: "buffer_ok (ld_postprocess d)" using assms(1) by (simp_all add: ready_def)
  obtain w where w: "past_view n (ld_window d) = (w, Inr (drop m out))" "lw.reflects ws w out"
    using lw.view_reflects [OF win assms(2,3)] by blast
  have view: "length (drop m out) = n" using assms(3) by simp
  show ?thesis
  proof (cases "ld_postprocess d")
    case None
    with w assms(4) show ?thesis
      by (intro exI [of _ w] exI [of _ None]) (simp add: finish_chunk_def Let_def checked_add_def e8_view_def buffer_ok_def)
  next
    case (Some pp)
    then have len: "length (pp_data_chunk pp) = MAX_CHUNK_SIZE" using buf by (simp add: buffer_ok_def)
    show ?thesis
    proof (cases "0x40000000 \<le> ld_chunk_offset d \<or> n \<le> 10")
      case True
      then have "e8_view (Some (pp_translation_size pp)) (ld_chunk_offset d) (drop m out) = drop m out"
        using view by (auto simp: e8_view_def e8_map_short)
      with True Some w len assms(4) show ?thesis
        by (intro exI [of _ w] exI [of _ "Some pp"]) (simp add: finish_chunk_def Let_def checked_add_def buffer_ok_def)
    next
      case False
      let ?new = "e8_map (e8_operand (pp_translation_size pp)) (ld_chunk_offset d) (drop m out)"
      have "lzx_postprocess (pp_translation_size pp) (ld_chunk_offset d) 0 (drop m out) = (?new, Inr ())"
        using postprocess_pass [of "[]" 0 "ld_chunk_offset d" "drop m out"] False view assms(2) by (simp add: MAX_CHUNK_SIZE_def)
      with False Some w len assms(2,4) view show ?thesis
        by (intro exI [of _ w] exI [of _ "Some (pp\<lparr>pp_data_chunk := ?new @ drop n (pp_data_chunk pp)\<rparr>)"])
          (simp add: finish_chunk_def Let_def checked_add_def buffer_ok_def e8_view_def)
    qed
  qed
qed

lemma finish_chunk_tracks:
  assumes "ready ws d out n" and "n \<le> MAX_CHUNK_SIZE" and "length out = m + n" and "ld_chunk_offset d + n \<le> u64_max"
  shows "lzx_tracks ws (fst (finish_chunk n d)) out"
  using finish_chunk_exact [OF assms] assms(1,3) by (auto simp: tracks_ready ready_def)

lemma first_chunk_parses:
  assumes "ready ws d out 0"
  shows "ready ws (fst (try_read_first_chunk d s)) out 0" (is ?r)
    and "ld_chunk_offset (fst (try_read_first_chunk d s)) = ld_chunk_offset d" (is ?o)
    and "parser_of (fst (try_read_first_chunk d s)) = parser_of d" (is ?p)
    and "ld_first_chunk_read (fst (try_read_first_chunk d s))" (is ?f)
    and "parse_header (reference_of d out) s = map_sum id
      (Pair (map_option pp_translation_size (ld_postprocess (fst (try_read_first_chunk d s))))) (snd (try_read_first_chunk d s))" (is ?h)
  using assms
  by (auto simp: try_read_first_chunk_def parse_header_def reference_of_def ready_def buffer_ok_def parser_of_def Let_def split: sum.split)

text \<open>C30. The LZX decoder with its ring buffer is the reference decoder, for every chunk and whatever was decoded
  before: it returns the same bytes or the same error. The reference decoder reads the chunk into
  literals, matches and stored stretches without looking at the output, and then executes them on
  the list of all bytes produced. So every returned byte is the literal, the stored byte or the copy
  that the chunk encodes at its place, followed by the E8 pass, and the chunk is refused with
  \<open>InvalidMatchOffset\<close> at the first match whose distance is zero, beyond the window or beyond the bytes
  of finished chunks and of this one: bytes the window was initialised with are never read. After a
  success the decoder is again in the state of the reference decoder; after a failure its window
  still shows exactly the bytes written until then.\<close>

theorem lzx_refines_reference:
  assumes "lzx_tracks ws d out" and "ld_chunk_offset d + output_len \<le> u64_max"
    and "decompress_next chunk output_len d = (d', res)"
    and "lz_decode (window_bytes ws) chunk output_len (reference_of d out) = (rf, res')"
  shows "res = res' \<and> lzx_tracks ws d' (rf_out rf) \<and>
    (case res of Inl _ \<Rightarrow> True | Inr _ \<Rightarrow> rf = reference_of d' (rf_out rf))"
proof (cases "output_len = 0 \<or> MAX_CHUNK_SIZE < output_len")
  case True
  with assms show ?thesis by (auto simp: decompress_next_def lz_decode_def reference_of_def)
next
  case False
  then have len: "output_len \<le> MAX_CHUNK_SIZE" by simp
  obtain d1 first where first: "try_read_first_chunk d (bitstream_new chunk) = (d1, first)" by fastforce
  note d1 = first_chunk_parses [OF assms(1) [unfolded tracks_ready], of "bitstream_new chunk", unfolded first fst_conv snd_conv]
  show ?thesis
  proof (cases first)
    case (Inl e)
    with False first d1 assms(3,4) show ?thesis
      by (auto simp: decompress_next_def lz_decode_def tracks_ready reference_of_def)
  next
    case (Inr s)
    let ?tr = "map_option pp_translation_size (ld_postprocess d1)"
    obtain toks parsed where toks: "lz_tokens output_len 0 (parser_of d) s = (toks, parsed)" by fastforce
    obtain out' bad where exec: "lz_run (window_bytes ws) (ld_chunk_offset d) out toks = (out', bad)" by fastforce
    obtain d2 r where loop: "decompress_loop output_len 0 d1 s = (d2, r)" by fastforce
    have small: "ld_chunk_offset d1 + output_len \<le> u64_max" using assms(2) d1(2) by simp
    have follows: "loop_follows ws d1 (length out + output_len) (d2, r) (out', bad) parsed"
      using loop_follows_tokens [OF d1(1) _ len small, of s toks parsed] toks exec loop d1(2,3) by simp
    have grown: "length out \<le> length out'" using length_lz_run [of out "window_bytes ws" "ld_chunk_offset d" toks] exec by simp
    have d2: "lzx_tracks ws d2 out'"
      using follows d1(1) grown frame_ready [OF d1(1), of d2 out' 0] by (simp add: tracks_ready loop_follows_def)
    have run: "(d', res) = bindS (d2, r) (\<lambda>d _. finish_chunk output_len d)"
      using assms(3) False first Inr loop by (simp add: decompress_next_def)
    have ref: "(rf, res') = (case (bad, parsed) of
                (Some offset, _) \<Rightarrow> ((reference_of d out)\<lparr>rf_out := out'\<rparr>, Inl (InvalidMatchOffset offset))
              | (None, Inl e) \<Rightarrow> ((reference_of d out)\<lparr>rf_out := out'\<rparr>, Inl e)
              | (None, Inr p) \<Rightarrow>
                  (\<lparr>rf_parser = p, rf_started = True, rf_translation = ?tr,
                    rf_accounted = ld_chunk_offset d + output_len, rf_out = out'\<rparr>,
                   Inr (e8_view ?tr (ld_chunk_offset d) (drop (length out) out'))))"
      using assms(4) False d1(5) Inr toks exec by (simp add: lz_decode_def split: option.splits sum.splits)
    show ?thesis
    proof (cases r)
      case (Inl e)
      with follows run ref d2 show ?thesis by (cases bad; cases parsed) (auto simp: loop_follows_def)
    next
      case (Inr u)
      then obtain p where ok: "bad = None" "parsed = Inr p" "parser_of d2 = p" "length out' = length out + output_len"
        using follows by (cases bad; cases parsed) (auto simp: loop_follows_def)
      have frame: "same_frame d1 d2" using follows by (simp add: loop_follows_def)
      have "ready ws d2 out' output_len"
        using frame_ready [OF d1(1) frame, of out' output_len] follows ok(4) by (simp add: loop_follows_def)
      moreover have "ld_chunk_offset d2 + output_len \<le> u64_max" using small frame by (simp add: same_frame_def)
      ultimately obtain w pp where fin: "finish_chunk output_len d2 =
          (d2\<lparr>ld_window := w, ld_chunk_offset := ld_chunk_offset d2 + output_len, ld_postprocess := pp\<rparr>,
           Inr (e8_view (map_option pp_translation_size (ld_postprocess d2)) (ld_chunk_offset d2) (drop (length out) out')))"
        "map_option pp_translation_size pp = map_option pp_translation_size (ld_postprocess d2)"
        and tracks: "lzx_tracks ws (fst (finish_chunk output_len d2)) out'"
        using finish_chunk_exact [OF _ len ok(4)] finish_chunk_tracks [OF _ len ok(4)] by blast
      with run Inr ref ok frame d1(2,4) show ?thesis
        by (auto simp: reference_of_def same_frame_def parser_of_def)
    qed
  qed
qed

lemma lzx_new_tracks:
  assumes "lzx_new ws = Inr d"
  shows "lzx_tracks ws d []" "ld_chunk_offset d = 0" "\<not> ld_first_chunk_read d" "bk_remaining (ld_current_block d) = 0"
  using assms window_bytes_bounds(3) [of ws]
  by (auto simp: lzx_new_def create_buffer_ok lzx_tracks_def window_ok_def history_def recent_def buffer_ok_def)

text \<open>
  A decoder in the middle of a block whose code has two words, the literal \<open>a\<close> and a match of two
  bytes at the most recent distance, which is one.
\<close>

definition small_tree :: lzx_tree where
  "small_tree = \<lparr>lt_path_lengths = replicate 97 0 @ [1] @ replicate 158 0 @ [1], lt_largest_length = 1, lt_lookup = [97, 256]\<rparr>"

definition small_parser :: lz_parser where
  "small_parser =
     \<lparr>ps_state = \<lparr>ds_window_size = KB32, ds_main_tree = [], ds_length_tree = []\<rparr>, ps_r = (1, 1, 1),
      ps_block = \<lparr>bk_remaining = 3, bk_size = 3, bk_kind = Verbatim small_tree None\<rparr>\<rparr>"

definition small_decoder :: lzx_decoder where
  "small_decoder =
     \<lparr>ld_window = \<lparr>wn_pos = 0, wn_buffer = replicate 0x8000 0\<rparr>, ld_state = ps_state small_parser, ld_r = ps_r small_parser,
      ld_chunk_offset = 0, ld_first_chunk_read = True, ld_current_block = ps_block small_parser, ld_postprocess = None\<rparr>"

definition small_reference :: lz_reference where
  "small_reference =
     \<lparr>rf_parser = small_parser, rf_started = True, rf_translation = None, rf_accounted = 0, rf_out = []\<rparr>"

lemmas small_steps =
  small_parser_def parse_round_def parse_block_def block_decode_element_def decode_element_def decode_match_length_def
  decode_offset_def parse_element_def element_token_def element_rest_def consume_uncompressed_padding_def Let_def

lemma small_literal:
  assumes "tree_decode_element small_tree s = Inr (97, s')" and "n < k" and "k \<le> n + bk_remaining (ps_block p)"
    and "bk_kind (ps_block p) = Verbatim small_tree None"
  shows "parse_round k n p s = Inr (Lit 97, Inr (n + 1, p\<lparr>ps_block := (ps_block p)\<lparr>bk_remaining := bk_remaining (ps_block p) - 1\<rparr>\<rparr>, s'))"
  using assms by (cases "ps_r p") (auto simp: small_steps)

lemma small_match:
  assumes "tree_decode_element small_tree s = Inr (256, s')" and "n + 2 \<le> k" and "k \<le> n + bk_remaining (ps_block p)"
    and "bk_kind (ps_block p) = Verbatim small_tree None" and "ps_r p = (1, 1, 1)"
  shows "parse_round k n p s = Inr (Copy 1 2, Inr (n + 2, p\<lparr>ps_block := (ps_block p)\<lparr>bk_remaining := bk_remaining (ps_block p) - 2\<rparr>\<rparr>, s'))"
  using assms by (auto simp: small_steps)

theorem lzx_refines_reference_witness:
  "lzx_tracks KB32 small_decoder [] \<and>
   snd (decompress_next [0x00, 0x40] 3 small_decoder) = Inr [97, 97, 97] \<and>
   snd (decompress_next [0x00, 0x80] 3 small_decoder) = Inl (InvalidMatchOffset 1)"
proof -
  have tracks: "lzx_tracks KB32 small_decoder []"
    by (simp add: lzx_tracks_def small_decoder_def small_parser_def window_ok_def history_def recent_def buffer_ok_def)
  have ref: "reference_of small_decoder [] = small_reference"
    by (simp add: reference_of_def parser_of_def small_decoder_def small_reference_def small_parser_def)
  have len: "ld_chunk_offset small_decoder + 3 \<le> u64_max" by (simp add: small_decoder_def u64_max_def)
  have trees:
    "tree_decode_element small_tree (bitstream_new [0x00, 0x40]) = Inr (97, \<lparr>bs_buffer = [], bs_n = 32768, bs_remaining = 15\<rparr>)"
    "tree_decode_element small_tree \<lparr>bs_buffer = [], bs_n = 32768, bs_remaining = 15\<rparr> = Inr (256, \<lparr>bs_buffer = [], bs_n = 1, bs_remaining = 14\<rparr>)"
    "tree_decode_element small_tree (bitstream_new [0x00, 0x80]) = Inr (256, \<lparr>bs_buffer = [], bs_n = 1, bs_remaining = 15\<rparr>)"
    "tree_decode_element small_tree \<lparr>bs_buffer = [], bs_n = 1, bs_remaining = 15\<rparr> = Inr (97, \<lparr>bs_buffer = [], bs_n = 2, bs_remaining = 14\<rparr>)"
    by code_simp+
  have toks: "\<exists>p. lz_tokens 3 0 small_parser (bitstream_new [0x00, 0x40]) = ([Lit 97, Copy 1 2], Inr p)"
    "\<exists>p. lz_tokens 3 0 small_parser (bitstream_new [0x00, 0x80]) = ([Copy 1 2, Lit 97], Inr p)"
    by (simp_all add: small_parser_def lz_tokens.simps small_literal [OF trees(1)] small_match [OF trees(2), simplified]
        small_match [OF trees(3)] small_literal [OF trees(4)] numeral_3_eq_3)
  have "snd (lz_decode 0x8000 [0x00, 0x40] 3 small_reference) = Inr [97, 97, 97]"
    "snd (lz_decode 0x8000 [0x00, 0x80] 3 small_reference) = Inl (InvalidMatchOffset 1)"
    using toks by (auto simp: lz_decode_def MAX_CHUNK_SIZE_def small_reference_def parse_header_def e8_view_def numeral_2_eq_2)
  with lzx_refines_reference [OF tracks len prod.collapse [symmetric] prod.collapse [symmetric], of "[0x00, 0x40]"]
    lzx_refines_reference [OF tracks len prod.collapse [symmetric] prod.collapse [symmetric], of "[0x00, 0x80]"] tracks
  show ?thesis by (simp add: ref)
qed

end
