(* ===== verification/Oxide_Lzx_Stored.thy ===== *)
theory Oxide_Lzx_Stored
  imports Oxide_Lzx_Spec
begin

text \<open>
  A chunk made of one uncompressed block, and the proof that a fresh decoder returns its bytes: the
  path from the bit reader through the block header, the window and the view to the caller.
\<close>

section \<open>Numbers in the bit stream\<close>

definition u16_to_le_bytes :: "u16 \<Rightarrow> bytes" where
  "u16_to_le_bytes w = [ucast w, ucast (drop_bit 8 w)]"

text \<open>No E8 translation, block type 3, the size in 24 bits, four bits of padding, three recent offsets of
  one, the data and its padding byte.\<close>

definition stored_chunk :: "bytes \<Rightarrow> bytes" where
  "stored_chunk data =
     (let n = length data in
      u16_to_le_bytes (word_of_nat (0x3000 + n div 4096)) @ u16_to_le_bytes (word_of_nat (n mod 4096 * 16)) @
      concat (replicate 3 [1, 0, 0, 0]) @ data @ replicate (n mod 2) 0)"

lemma u16_from_to [simp]: "u16_from_le_bytes (ucast w) (ucast (drop_bit 8 w)) = w" for w :: u16
proof (rule bit_word_eqI)
  fix n
  assume "n < LENGTH(16)"
  then consider "n < 8" | "8 \<le> n" "n < 16" by fastforce
  then show "bit (u16_from_le_bytes (ucast w) (ucast (drop_bit 8 w))) n = bit w n"
    by cases (auto simp: u16_from_le_bytes_def bit_or_iff bit_push_bit_iff bit_ucast_iff bit_drop_bit_eq)
qed

lemma bits_nat_word: "bits_nat (word_bits w) = unat w"
proof -
  have "word_bits w = rev (map (bit (unat w)) [0..<16])"
    by (rule nth_equalityI) (auto simp: rev_nth bit_unsigned_iff)
  moreover have "unat w < 2 ^ LENGTH(16)" by (rule unsigned_less)
  ultimately show ?thesis by (simp add: bits_nat_cut take_bit_nat_eq_self)
qed

lemma bits_nat_parts:
  assumes "k \<le> length xs"
  shows "bits_nat (take k xs) = bits_nat xs div 2 ^ (length xs - k)"
    and "bits_nat (drop k xs) = bits_nat xs mod 2 ^ (length xs - k)"
proof -
  have "bits_nat xs = bits_nat (take k xs) * 2 ^ (length xs - k) + bits_nat (drop k xs)"
    using bits_nat_append [of "take k xs" "drop k xs"] by simp
  moreover have "bits_nat (drop k xs) < 2 ^ (length xs - k)" using bits_nat_less [of "drop k xs"] by simp
  ultimately show "bits_nat (take k xs) = bits_nat xs div 2 ^ (length xs - k)"
    "bits_nat (drop k xs) = bits_nat xs mod 2 ^ (length xs - k)" by simp_all
qed

section \<open>Reading with the exact state\<close>

lemma length_buffer_bits: "length (buffer_bits bs) = 16 * (length bs div 2)"
  by (induction bs rule: buffer_bits.induct) simp_all

text \<open>A read inside the current word, and one that ends in the next word.\<close>

definition moved :: "nat \<Rightarrow> bitstream \<Rightarrow> bitstream \<Rightarrow> bool" where
  "moved k s s' \<longleftrightarrow> stream_ok s' \<and> unread s' = drop k (unread s) \<and>
     bs_remaining s' = (if k \<le> bs_remaining s then bs_remaining s - k else 16 + bs_remaining s - k) \<and>
     bs_buffer s' = (if k \<le> bs_remaining s then bs_buffer s else drop 2 (bs_buffer s))"

lemma oneword_moved:
  assumes "stream_ok s" and "k \<le> 16" and "k \<le> length (unread s)"
  shows "\<exists>s'. read_bits_oneword k s = Inr (bits_value (take k (unread s)), s') \<and> moved k s s'"
proof -
  obtain s' where s': "read_bits_oneword k s = Inr (bits_value (take k (unread s)), s')" "stream_ok s'" "unread s' = drop k (unread s)"
    using read_oneword [OF assms(1,2)] assms(3) by auto
  from s'(1) assms(1,2) have "bs_remaining s' = (if k \<le> bs_remaining s then bs_remaining s - k else 16 + bs_remaining s - k)"
    "bs_buffer s' = (if k \<le> bs_remaining s then bs_buffer s else drop 2 (bs_buffer s))"
    by (auto simp: read_bits_oneword_def advance_buffer_def bindE_Inr_iff Let_def split: if_splits)
  with s' show ?thesis by (auto simp: moved_def)
qed

lemma bits_moved:
  assumes "stream_ok s" and "k \<le> 16" and "k \<le> length (unread s)"
  shows "\<exists>v s'. read_bits k s = Inr (v, s') \<and> v = bits_value (take k (unread s)) \<and> unat v = bits_nat (take k (unread s)) \<and> moved k s s'"
  using oneword_moved [OF assms] assms(2) by (auto simp: read_bits_def ucast_value unat_bits_value)

lemma read_bit_oneword:
  assumes "stream_ok s"
  shows "read_bit s = read_bits_oneword 1 s"
proof (cases "bs_remaining s = 0")
  case True
  have "combine_words 0 (n AND 1) 1 = Inr (n AND 1)" for n :: u16
    by (cases "odd n") (simp_all add: combine_words_def and_one_eq mod_2_eq_odd Let_def)
  with True show ?thesis
    by (cases "advance_buffer s") (simp_all add: read_bit_def read_bits_oneword_def Let_def low_mask_def advance_buffer_def split: if_splits)
next
  case False
  with assms show ?thesis by (simp add: read_bit_def read_bits_oneword_def stream_ok_def Let_def low_mask_def)
qed

lemma u24_moved:
  assumes "stream_ok s" and "24 \<le> length (unread s)" and "bs_remaining s = 12"
  shows "\<exists>v s'. read_u24_be s = Inr (v, s') \<and> unat v = bits_nat (take 24 (unread s)) \<and>
    stream_ok s' \<and> bs_remaining s' = 4 \<and> bs_buffer s' = drop 2 (bs_buffer s)"
proof -
  obtain v1 s1 where 1: "read_bits 16 s = Inr (v1, s1)" "v1 = bits_value (take 16 (unread s))" "moved 16 s s1"
    using bits_moved [OF assms(1), of 16] assms(2) by auto
  then have s1: "stream_ok s1" "unread s1 = drop 16 (unread s)" by (simp_all add: moved_def)
  have more: "8 \<le> length (unread s1)" using assms(2) s1(2) by simp
  obtain v2 s2 where 2: "read_bits 8 s1 = Inr (v2, s2)" "v2 = bits_value (take 8 (unread s1))" "moved 8 s1 s2"
    using bits_moved [OF s1(1), of 8] more by auto
  have "take 24 (unread s) = take 16 (unread s) @ take 8 (drop 16 (unread s))" by (simp flip: take_add)
  moreover have "push_bit 8 v1 OR v2 = bits_value (take 16 (unread s) @ take 8 (unread s1))"
    using append_value [of "take 16 (unread s)" "take 8 (unread s1)", where 'a = 32] 1(2) 2(2) assms(2) s1(2) by simp
  ultimately have "read_u24_be s = Inr (bits_value (take 24 (unread s)), s2)" using 1(1) 2(1) s1(2) by (simp add: read_u24_be_def)
  with 1(3) 2(3) assms(3) show ?thesis by (auto simp: moved_def unat_bits_value)
qed

lemma u32_moved:
  assumes "bs_remaining s = 0" and "4 \<le> length (bs_buffer s)"
  shows "\<exists>v s'. read_u32_le s = Inr (v, s') \<and> bs_remaining s' = 0 \<and> bs_buffer s' = drop 4 (bs_buffer s)"
proof -
  have ok: "stream_ok s" "16 \<le> length (unread s)" using assms by (simp_all add: stream_ok_def unread_def length_buffer_bits)
  obtain s1 where 1: "read_bits_oneword 16 s = Inr (bits_value (take 16 (unread s)), s1)" "moved 16 s s1"
    using oneword_moved [OF ok(1) _ ok(2)] by auto
  then have s1: "stream_ok s1" "bs_remaining s1 = 0" "bs_buffer s1 = drop 2 (bs_buffer s)" using assms by (simp_all add: moved_def)
  have "16 \<le> length (unread s1)" using s1 assms by (simp add: unread_def length_buffer_bits)
  then obtain s2 where "read_bits_oneword 16 s1 = Inr (bits_value (take 16 (unread s1)), s2)" "moved 16 s1 s2"
    using oneword_moved [OF s1(1)] by auto
  with 1 s1 show ?thesis by (auto simp: read_u32_le_def moved_def)
qed

section \<open>The header\<close>

lemma stored_unread:
  "buffer_bits (u16_to_le_bytes a @ u16_to_le_bytes b @ bs) = word_bits a @ word_bits b @ buffer_bits bs"
  by (simp add: u16_to_le_bytes_def)

lemma stored_numbers:
  assumes "n \<le> 32768" and "xs = word_bits (word_of_nat (0x3000 + n div 4096)) @ word_bits (word_of_nat (n mod 4096 * 16)) @ rest"
  shows "bits_nat (take 1 xs) = 0" "bits_nat (take 3 (drop 1 xs)) = 3" "bits_nat (take 24 (drop 4 xs)) = n"
proof -
  let ?a = "word_of_nat (0x3000 + n div 4096) :: u16" and ?b = "word_of_nat (n mod 4096 * 16) :: u16"
  have q: "n div 4096 \<le> 8" using assms(1) by simp
  have a: "unat ?a = 0x3000 + n div 4096" using q by (simp add: unsigned_of_nat take_bit_nat_eq_self del: of_nat_add)
  have b: "unat ?b = n mod 4096 * 16" by (simp add: unsigned_of_nat take_bit_nat_eq_self del: of_nat_mult)
  have "take 1 xs = take 1 (word_bits ?a)" "take 3 (drop 1 xs) = take 3 (drop 1 (word_bits ?a))"
    "take 24 (drop 4 xs) = drop 4 (word_bits ?a) @ take 12 (word_bits ?b)"
    by (simp_all only: assms(2)) simp_all
  moreover have "bits_nat (take 1 (word_bits ?a)) = 0" using q by (simp add: bits_nat_parts bits_nat_word a del: of_nat_add)
  moreover have "bits_nat (take 3 (drop 1 (word_bits ?a))) = 3"
  proof -
    have "(0x3000 + n div 4096) mod 32768 = 0x3000 + n div 4096" using q by simp
    moreover have "(0x3000 + n div 4096) div 4096 = 3" using q by simp
    ultimately show ?thesis by (simp add: bits_nat_parts bits_nat_word a del: of_nat_add)
  qed
  moreover have "bits_nat (drop 4 (word_bits ?a) @ take 12 (word_bits ?b)) = n"
  proof -
    have "(n div 4096 + 3 * 4096) mod 4096 = n div 4096" using q by (simp only: mod_mult_self1) simp
    then have "(0x3000 + n div 4096) mod 4096 = n div 4096" by (simp add: add.commute)
    then show ?thesis by (simp add: bits_nat_append bits_nat_parts bits_nat_word a b del: of_nat_add of_nat_mult)
  qed
  ultimately show "bits_nat (take 1 xs) = 0" "bits_nat (take 3 (drop 1 xs)) = 3" "bits_nat (take 24 (drop 4 xs)) = n" by simp_all
qed

text \<open>Where the reader stands after the header: at the data, on a byte boundary.\<close>

lemma stored_header:
  assumes "n = length data" and "0 < n" and "n \<le> 32768"
  shows "\<exists>s1. read_bit (bitstream_new (stored_chunk data)) = Inr (0, s1) \<and>
    (\<exists>r s2. block_read s1 st = (st, Inr (\<lparr>bk_remaining = n, bk_size = n, bk_kind = Uncompressed r\<rparr>, s2)) \<and>
      bs_buffer s2 = data @ replicate (n mod 2) 0)"
proof -
  let ?s0 = "bitstream_new (stored_chunk data)" and ?tail = "data @ replicate (n mod 2) (0 :: byte)"
  let ?offs = "concat (replicate 3 [1, 0, 0, 0 :: byte])"
  let ?a = "word_of_nat (0x3000 + n div 4096) :: u16" and ?b = "word_of_nat (n mod 4096 * 16) :: u16"
  have chunk: "stored_chunk data = u16_to_le_bytes ?a @ u16_to_le_bytes ?b @ ?offs @ ?tail"
    by (simp add: stored_chunk_def Let_def assms(1))
  have u0: "unread ?s0 = word_bits ?a @ word_bits ?b @ buffer_bits (?offs @ ?tail)"
    unfolding unread_def bitstream_new_def chunk by (simp only: stored_unread bitstream.simps) simp
  note num = stored_numbers [OF assms(3) u0]
  have len: "32 \<le> length (unread ?s0)" unfolding u0 by simp
  have ok0: "stream_ok ?s0" by (simp add: stream_ok_def bitstream_new_def)
  obtain s1 where s1: "read_bits_oneword 1 ?s0 = Inr (bits_value (take 1 (unread ?s0)), s1)" "moved 1 ?s0 s1"
    using oneword_moved [OF ok0, of 1] len by auto
  have bit: "read_bit ?s0 = Inr (0, s1)"
    using s1(1) num(1) by (simp add: read_bit_oneword [OF ok0] bits_value_nat)
  have m1: "stream_ok s1" "unread s1 = drop 1 (unread ?s0)" "bs_remaining s1 = 15" "bs_buffer s1 = drop 2 (stored_chunk data)"
    using s1(2) by (simp_all add: moved_def bitstream_new_def)
  have l1: "3 \<le> length (unread s1)" using m1(2) len by simp
  obtain v s2 where s2: "read_bits 3 s1 = Inr (v, s2)" "unat v = 3" "moved 3 s1 s2"
    using bits_moved [OF m1(1) _ l1] m1(2) num(2) by auto
  have m2: "stream_ok s2" "unread s2 = drop 4 (unread ?s0)" "bs_remaining s2 = 12" "bs_buffer s2 = drop 2 (stored_chunk data)"
    using s2(3) m1 by (simp_all add: moved_def)
  have l2: "24 \<le> length (unread s2)" using m2(2) len by simp
  obtain x s3 where s3: "read_u24_be s2 = Inr (x, s3)" "unat x = n" "bs_remaining s3 = 4" "bs_buffer s3 = ?offs @ ?tail"
    using u24_moved [OF m2(1) l2 m2(3)] m2(2,4) num(3) chunk by (auto simp: u16_to_le_bytes_def)
  let ?s4 = "s3\<lparr>bs_remaining := 0\<rparr>"
  have al: "align s3 = Inr ?s4" using s3(3) by (simp add: align_def)
  obtain r0 s5 where 5: "read_u32_le ?s4 = Inr (r0, s5)" "bs_remaining s5 = 0" "bs_buffer s5 = drop 4 (?offs @ ?tail)"
    using u32_moved [of ?s4] s3(4) by (auto simp: numeral_3_eq_3)
  obtain r1 s6 where 6: "read_u32_le s5 = Inr (r1, s6)" "bs_remaining s6 = 0" "bs_buffer s6 = drop 8 (?offs @ ?tail)"
    using u32_moved [of s5] 5(2,3) by (auto simp: numeral_3_eq_3)
  obtain r2 s7 where 7: "read_u32_le s6 = Inr (r2, s7)" "bs_buffer s7 = drop 12 (?offs @ ?tail)"
    using u32_moved [of s6] 6(2,3) by (auto simp: numeral_3_eq_3)
  have "block_read s1 st = (st, Inr (\<lparr>bk_remaining = n, bk_size = n, bk_kind = Uncompressed (unat r0, unat r1, unat r2)\<rparr>, s7))"
    using s2 s3 al 5 6 7 assms(2) by (simp add: block_read_def)
  moreover have "bs_buffer s7 = ?tail" using 7(2) by (simp add: numeral_3_eq_3)
  ultimately show ?thesis using bit by blast
qed

section \<open>The whole chunk\<close>

lemma stored_round:
  assumes d: "ready ws d [] 0" "bk_remaining (ld_current_block d) = 0"
    and data: "n = length data" "0 < n" "n \<le> MAX_CHUNK_SIZE"
    and block: "block_read s (ld_state d) = (ld_state d, Inr (\<lparr>bk_remaining = n, bk_size = n, bk_kind = Uncompressed r\<rparr>, s2))"
    and buffer: "bs_buffer s2 = data @ replicate (n mod 2) 0"
  shows "\<exists>d'. decompress_loop n 0 d s = (d', Inr ()) \<and> ready ws d' data n \<and>
    ld_chunk_offset d' = ld_chunk_offset d \<and> ld_postprocess d' = ld_postprocess d"
proof -
  let ?b = "\<lparr>bk_remaining = n, bk_size = n, bk_kind = Uncompressed r\<rparr>"
  let ?d1 = "d\<lparr>ld_current_block := ?b, ld_r := r\<rparr>"
  have adv: "element_length (Read n) s2 = n" by (simp add: element_length_def buffer data(1))
  have "lw.reflects ws (ld_window d) []" using d(1) by (simp add: ready_def)
  from lw.raw_reflects [OF this data(3), of s2] obtain w
    where w: "copy_from_bitstream n s2 (ld_window d) = (w, Inr (s2\<lparr>bs_buffer := replicate (n mod 2) 0\<rparr>))" "lw.reflects ws w data"
    by (auto simp: buffer data(1))
  have pad: "\<exists>s3. consume_uncompressed_padding (?b\<lparr>bk_remaining := 0\<rparr>) (s2\<lparr>bs_buffer := replicate (n mod 2) 0\<rparr>) = Inr s3"
    by (cases "even n") (auto simp: consume_uncompressed_padding_def read_byte_def and_one_eq mod_2_eq_odd)
  then obtain s3 where s3: "consume_uncompressed_padding (?b\<lparr>bk_remaining := 0\<rparr>) (s2\<lparr>bs_buffer := replicate (n mod 2) 0\<rparr>) = Inr s3" ..
  let ?d2 = "?d1\<lparr>ld_window := w, ld_current_block := ?b\<lparr>bk_remaining := 0\<rparr>\<rparr>"
  have "n \<le> u32_max" using data(3) by (simp add: MAX_CHUNK_SIZE_def u32_max_def)
  moreover have "n \<le> u64_max" using data(3) by (simp add: MAX_CHUNK_SIZE_def u64_max_def)
  ultimately have "write_element n 0 (Read n) ?d1 s2 = (?d2, Inr (n, s3))"
    using adv data(2) w s3 by (simp add: write_element_def Let_def checked_sub_def checked_add_def apply_decoded_def)
  then have "decode_round n 0 d s = (?d2, Inr (n, s3))"
    using d(2) block data(2) by (simp add: decode_round_def next_block_def block_decode_element_def)
  then have "decompress_loop n 0 d s = (?d2, Inr ())"
    using data(2) by (simp add: decompress_loop.simps [of n 0] decompress_loop.simps [of n n])
  moreover have "ld_chunk_offset d = 0" using d(1) by (simp add: ready_def)
  ultimately show ?thesis using d(1) w(2) data(1) by (simp add: ready_def)
qed

text \<open>C32. A fresh decoder given a chunk with one uncompressed block returns exactly the stored bytes, for every
  window size and every length a chunk may have, and its window then shows them: the bit reader, the
  block header, the raw copy, the padding byte and the view fit together.\<close>

theorem lzx_stored_roundtrip:
  assumes "lzx_new ws = Inr d" and "data \<noteq> []" and "length data \<le> MAX_CHUNK_SIZE"
  shows "\<exists>d'. decompress_next (stored_chunk data) (length data) d = (d', Inr data) \<and> lzx_tracks ws d' data"
proof -
  let ?n = "length data" and ?d = "d\<lparr>ld_first_chunk_read := True, ld_postprocess := None\<rparr>"
  note new = lzx_new_tracks [OF assms(1)]
  obtain s1 r s2 where bit: "read_bit (bitstream_new (stored_chunk data)) = Inr (0, s1)"
    and block: "block_read s1 (ld_state ?d) = (ld_state ?d, Inr (\<lparr>bk_remaining = ?n, bk_size = ?n, bk_kind = Uncompressed r\<rparr>, s2))"
    and buffer: "bs_buffer s2 = data @ replicate (?n mod 2) 0"
    using stored_header [OF refl, of data "ld_state d"] assms(2,3) by (auto simp: MAX_CHUNK_SIZE_def)
  have first: "try_read_first_chunk d (bitstream_new (stored_chunk data)) = (?d, Inr s1)"
    using new(3) bit by (simp add: try_read_first_chunk_def)
  have rd: "ready ws ?d [] 0" "bk_remaining (ld_current_block ?d) = 0" using new by (simp_all add: tracks_ready ready_def buffer_ok_def)
  have n: "0 < ?n" using assms(2) by simp
  obtain d2 where d2: "decompress_loop ?n 0 ?d s1 = (d2, Inr ())" "ready ws d2 data ?n" "ld_chunk_offset d2 = 0" "ld_postprocess d2 = None"
    using stored_round [OF rd refl n assms(3) block buffer] new(2) by auto
  have len: "length data = 0 + ?n" by simp
  have "ld_chunk_offset d2 + ?n \<le> u64_max" using d2(3) assms(3) by (simp add: u64_max_def MAX_CHUNK_SIZE_def)
  note fin = finish_chunk_tracks [OF d2(2) assms(3) len this]
  obtain w where "past_view ?n (ld_window d2) = (w, Inr data)"
    using lw.view_reflects [OF _ assms(3) len] d2(2) by (auto simp: ready_def)
  then have "snd (finish_chunk ?n d2) = Inr data"
    using d2(3,4) assms(3) by (simp add: finish_chunk_def checked_add_def u64_max_def MAX_CHUNK_SIZE_def Let_def)
  moreover have "decompress_next (stored_chunk data) ?n d = finish_chunk ?n d2"
    using assms(2,3) first d2(1) by (simp add: decompress_next_def)
  ultimately show ?thesis using fin by (metis prod.collapse)
qed

theorem lzx_stored_roundtrip_witness:
  "\<exists>d d'. lzx_new KB32 = Inr d \<and> decompress_next (stored_chunk [97, 98, 99]) 3 d = (d', Inr [97, 98, 99]) \<and>
    lzx_tracks KB32 d' [97, 98, 99]"
proof -
  obtain d where d: "lzx_new KB32 = Inr d" by (simp add: lzx_new_def create_buffer_ok)
  with lzx_stored_roundtrip [OF d, of "[97, 98, 99]"] show ?thesis by (auto simp: MAX_CHUNK_SIZE_def numeral_3_eq_3)
qed

end
