(* ===== verification/Spec2Isabelle.thy ===== *)
theory Spec2Isabelle
  imports Oxide_Ar_Chunking Oxide_Warc_Spec Oxide_Cpio_Chunking Oxide_Cpio_Encoder Oxide_Sized_Decoders Oxide_Tar_Safety
    Oxide_Tar_Encoder Oxide_Oci_Apply Oxide_Delta Oxide_Bcj Oxide_Reader_Formats Oxide_Lzx_Stored
begin

text \<open>
  A verification development for \<open>libarchive_oxide\<close>, a library that reads and writes archives
  without trusting them. All source paths below are relative to \<open>src/\<close>.

  \<^bold>\<open>The program.\<close> The core crate \<open>libarchive_oxide-core/src\<close> holds sans-I/O decoders and
  encoders for the sequential formats. A decoder is a state machine: its caller shows it the bytes
  it has not yet consumed and says whether more will come, and each step returns how much was
  consumed and one event (a request for input or output, archive metadata, an entry, payload, the
  end of an entry, the end of the archive) or an error. An encoder takes commands in the same style.
  The facade crate \<open>libarchive_oxide/src\<close> drives these machines: \<open>stream.rs\<close> has the pipeline, which
  detects compression filters and the archive format and stacks filter layers in front of the
  decoder, the reader and the writer; \<open>path.rs\<close>, \<open>extraction.rs\<close>, \<open>engine.rs\<close>, \<open>filesystem.rs\<close> and
  \<open>filesystem_driver.rs\<close> decide what an archive may do to a directory and carry it out through a
  filesystem adapter; \<open>oci/\<close> does the same for container layers. The codecs crate
  \<open>libarchive_oxide-codecs/src\<close> holds byte filters and the LZX decoder of cabinet files.

  \<^bold>\<open>Modelling conventions.\<close> One definition per operation, in the order of the source and named
  after it; a long function is split at its branches and the parts are composed as the source
  composes them. Mutated state is a record that is passed and returned, also on errors, since the
  Rust methods leave the state as it was at the failing line. Errors are sums with the error on the
  left. Bytes are \<open>8 word\<close>, identifiers \<open>32 word\<close>; \<open>u64\<close> and \<open>usize\<close> (64 bit) are natural numbers
  with every checked, saturating or wrapping operation written out, \<open>i64\<close> is \<open>int\<close>. Driver loops
  whose end is a theorem are \<open>partial_function (option)\<close>: not returning is the value \<open>None\<close>, and
  theorems say that \<open>Some\<close> is reached. Buffers with a start and an end offset are the bytes between
  them together with the offset, because compaction depends on it.

  \<^bold>\<open>Theories, in dependency order.\<close>

  \<^item> \<open>Oxide_Prelude\<close>: slices, vectors, checked arithmetic, the collections of simplification rules.
  \<^item> \<open>Oxide_Error\<close>, \<open>Oxide_Limits\<close>, \<open>Oxide_Metadata\<close>: \<open>error.rs\<close>, \<open>limits.rs\<close>, \<open>meta.rs\<close> and
    \<open>metadata.rs\<close> of the core crate. Metadata validation is characterised, and the stored bytes of
    validated sparse metadata fit the declared size.
  \<^item> \<open>Oxide_Protocol\<close>: \<open>protocol.rs\<close>. The driver \<open>decode_all\<close> shows a decoder the whole rest of an
    input until it is done. The locales \<open>stepping_decoder\<close> and \<open>archive_decoder\<close> are the contract of
    a decoder: an invariant, consumption within the input, a rank that falls when nothing is
    consumed at the end of the input, an allowance that pays for payload. From it follow termination,
    that payload is a subsequence of the input, and the decoded-bytes budget.
  \<^item> \<open>Oxide_Chunking\<close>: \<open>presents\<close> is the relation between a byte string and the traces of all ways to
    show it piecewise; \<open>chunked_decoder\<close> is the local law that makes them agree.
  \<^item> \<open>Oxide_Sized\<close>, \<open>Oxide_Sized_Decoders\<close>: the locale \<open>sized_decoder\<close> and its interpretations;
    entries deliver exactly the size they declare, or nothing for the members of a thin ar archive.
  \<^item> \<open>Oxide_Empty_Raw\<close>: \<open>format/empty.rs\<close>, \<open>format/raw.rs\<close>, described completely.
  \<^item> \<open>Oxide_Ar_Decoder\<close>, \<open>Oxide_Ar_Encoder\<close>, \<open>Oxide_Ar_Roundtrip\<close>, \<open>Oxide_Ar_Chunking\<close>: \<open>format/ar.rs\<close>, its
    round trip and its independence of buffering.
  \<^item> \<open>Oxide_Warc\<close>, \<open>Oxide_Warc_Spec\<close>: \<open>format/warc.rs\<close>, and what it makes of well-formed files.
  \<^item> \<open>Oxide_Cpio_Header\<close>, \<open>Oxide_Cpio_Decoder\<close>, \<open>Oxide_Cpio_Chunking\<close>, \<open>Oxide_Cpio_Encoder\<close>: \<open>format/cpio.rs\<close>
    with its five dialects and the groups of hard links. The size of a queued entry record, which
    the decoder charges to the in-flight budget, is the parameter \<open>z\<close>.
  \<^item> \<open>Oxide_Tar_Header\<close>, \<open>Oxide_Tar_Pax\<close>, \<open>Oxide_Tar_Source\<close>, \<open>Oxide_Tar_Decoder\<close>, \<open>Oxide_Tar_Safety\<close>,
    \<open>Oxide_Tar_Encoder\<close>: \<open>format/tar.rs\<close>: numeric fields, checksums, extended headers, the buffered
    source, sparse maps, and the encoder. The in-flight budget bounds the bytes the decoder reads ahead
    and not the extended records it collects. The decoder writes the zeroes of a hole into the caller's
    buffer, so its step has the size of that buffer as an argument.
  \<^item> \<open>Oxide_Writer\<close>: \<open>ArchiveWriter\<close> of \<open>stream.rs\<close>. The locale \<open>archive_encoder\<close> relates an encoder to an
    abstract acceptor that takes whole commands; the three encoders interpret it.
  \<^item> \<open>Oxide_Codec\<close>, \<open>Oxide_Delta\<close>, \<open>Oxide_Bcj\<close>: the driver of \<open>libarchive_oxide-codecs/src/lib.rs\<close>, and
    \<open>delta.rs\<close> and \<open>bcj.rs\<close> as interpretations of \<open>stream_codec\<close>: their output is a function of the
    input stream, however it is cut.
  \<^item> \<open>Oxide_Lzx_Bits\<close>, \<open>Oxide_Lzx_Tree\<close>, \<open>Oxide_Lzx_Window\<close>, \<open>Oxide_Lzx\<close>: the LZX decoder of
    \<open>libarchive_oxide-codecs/src/lzx\<close>, file by file: \<open>bitstream.rs\<close> (the rotated register is the list
    of unread bits), \<open>tree.rs\<close> (a table exists exactly for complete codes and decodes the canonical
    code), \<open>window.rs\<close> (the ring buffer is its history), \<open>block.rs\<close> and \<open>mod.rs\<close>. \<open>Oxide_Lzx_Spec\<close>: the
    locale \<open>lz_window\<close> is what the decoder relies on of a window, and the decoder agrees with a
    reference that has none: it parses the chunk into tokens and runs them on the output so far,
    refusing a match that reaches before the first byte. \<open>Oxide_Lzx_E8\<close>: the translation of call operands.
    \<open>Oxide_Lzx_Stored\<close>: the way of a stored chunk through all parts.
  \<^item> \<open>Oxide_Probe\<close>: the identifiers and signature probes of \<open>filter.rs\<close> and \<open>format.rs\<close>.
  \<^item> \<open>Oxide_Pipeline\<close>: \<open>Pipeline\<close> of \<open>stream.rs\<close>: feeding, filter layers and their members, detection,
    polling. \<open>Oxide_Providers\<close>: \<open>provider.rs\<close>: chains of format and codec providers, the built-in
    formats, and the whole-format rows of \<open>capability.rs\<close>. \<open>Oxide_Chunk_Sizes\<close>: no decoder of the
    built-in formats reports a longer chunk of payload than the buffers of the pipeline.
    \<open>Oxide_Pipeline_Safety\<close>: its memory bound, for every provider set and every order of calls, with the
    payload copied out for the caller under a contract for the decoders, and an input on which it
    spins.
  \<^item> \<open>Oxide_Reader\<close>: \<open>ArchiveReader\<close> and \<open>Entry\<close> of \<open>stream.rs\<close>. The locale \<open>pipelined_decoder\<close> says when
    reading through the pipeline is decoding; \<open>Oxide_Reader_Formats\<close> interprets it for the formats
    that end where their input ends, and has the one place where the pipeline refuses what a decoder
    accepts.
  \<^item> \<open>Oxide_Path\<close>, \<open>Oxide_Extraction\<close>, \<open>Oxide_Filesystem\<close>, \<open>Oxide_Filesystem_Safety\<close>: path sanitising on
    Unix and on Windows, destination claims, the extraction plan, and the driver that applies it.
    The theorems confine every destination to the root, say exactly which Windows names are accepted
    (against the list of device names, not the code's test), and fix the order of adapter calls.
  \<^item> \<open>Oxide_Oci\<close>, \<open>Oxide_Oci_Apply\<close>: \<open>oci/plan.rs\<close> and \<open>oci/apply.rs\<close>: whiteouts, ownership, escapes
    through symbolic links, what becomes of absolute names, and that the applier executes a prefix of
    its plan, only after the layer was rewound, verified and opened.
  \<^item> This theory: what holds of every decoder and of every writer.

  \<^bold>\<open>Parameters.\<close> Code outside the repository, and code whose result the theorems do not depend on,
  is an argument: format and codec providers (a record of functions; the built-in formats are an
  instance, the built-in codecs an instance over arbitrary decompressors), the byte source of a
  reader and the sink of a writer, the filesystem adapter, Unicode normalisation and upper-casing,
  the outcome of rewinding, of the digest check and of opening a layer, the compile-time features. Theorems hold for all of their values
  unless a hypothesis says otherwise.

  \<^bold>\<open>Bounds and fuel.\<close> The only definition that runs on fuel is the loop inside the x86 branch filter,
  with a bound of two rounds; \<open>x86_loop_two_rounds\<close> proves this to be enough in every state in which the
  loop is entered. The lookahead and capacity constants are those of the source.

  \<^bold>\<open>Not modelled.\<close>
  \<^item> The random-access readers and writers (\<open>zip.rs\<close>, \<open>zip_stream.rs\<close>, \<open>sevenz.rs\<close>, \<open>cab.rs\<close>, \<open>iso_stream.rs\<close>,
    \<open>udf.rs\<close>, \<open>xar.rs\<close>, \<open>seek_stream.rs\<close>): they are built on third-party decompressors and on seekable
    file handles, and need a model of those first.
  \<^item> The adapters around third-party compressors (\<open>gzip.rs\<close>, \<open>zstd.rs\<close>, \<open>lz4.rs\<close> and the rest), which
    appear as codec parameters; LZW too is such an adapter. Of LZX, allocation failures are left out:
    \<open>create_buffer\<close> and \<open>try_read_first_chunk\<close> take allocation to succeed.
  \<^item> Overflow checks of debug builds: the RISC-V filter adds its position and an index without a check
    (\<open>bcj.rs\<close>, \<open>self.pos + i\<close>), which wraps in the model as in a release build and panics near the
    largest \<open>usize\<close> in a build with overflow checks.
  \<^item> The asynchronous adapters, which repeat the reader and writer behind an executor; the standard
    filesystem backend, archive creation and the spool, which are system calls.
  \<^item> Package inspection, which is built on third-party cryptography and on the zip reader; the command
    line, fuzz targets and build tasks.
  \<^item> Inside modelled parts: text formatting of errors, the writer over registered providers
    (\<open>ProviderArchiveWriter\<close>), the filter adapters in front of the reader's input
    (\<open>ReaderInput\<close>), and the per-method rows of the capability ledger.
\<close>

section \<open>What holds of every decoder\<close>

text \<open>
  C1. Every decoder finishes on every input: feeding any byte string at all to a fresh empty, raw,
  ar, WARC, cpio or tar decoder ends with the end of the archive or with an error, never with an
  unbounded run of steps. For tar this needs a non-empty output capacity, because the decoder
  writes the zeroes of a sparse hole in portions of that size.
\<close>

theorem decoders_terminate:
  "(\<exists>evs r. decode_all empty_step empty_new input = Some (evs, r)) \<and>
   (\<exists>evs r. decode_all raw_step (raw_with_limits l) input = Some (evs, r)) \<and>
   (\<exists>evs r. decode_all ar_step (ar_decoder_new l) input = Some (evs, r)) \<and>
   (\<exists>evs r. decode_all warc_step (warc_decoder_new l) input = Some (evs, r)) \<and>
   (\<exists>evs r. decode_all cpio_step (cpio_decoder_new z l) input = Some (evs, r)) \<and>
   (\<exists>evs r. decode_all (tar_step (Suc cap)) (tar_decoder_new l) input = Some (evs, r))"
  using empty_dec.decode_all_returns raw_dec.decode_all_returns ar_dec.decode_all_returns
    warc_dec.decode_all_returns cpio_dec.decode_all_returns tar_dec.decode_all_returns
  by (intro conjI) simp_all

text \<open>
  C2. No decoder invents payload and none exceeds its budget: whatever the input, the payload bytes
  a raw, ar, WARC or cpio decoder hands out, before success or before an error, are bytes of the archive
  in archive order, and there are at most \<open>decoded_total\<close> of them when that limit is set.
\<close>

theorem decoders_payload_bounded:
  "(\<exists>evs r. decode_all raw_step (raw_with_limits l) input = Some (evs, r) \<and>
      subseq (payload evs) input \<and> \<not> exceeds (decoded_total l) (length (payload evs))) \<and>
   (\<exists>evs r. decode_all ar_step (ar_decoder_new l) input = Some (evs, r) \<and>
      subseq (payload evs) input \<and> \<not> exceeds (decoded_total l) (length (payload evs))) \<and>
   (\<exists>evs r. decode_all warc_step (warc_decoder_new l) input = Some (evs, r) \<and>
      subseq (payload evs) input \<and> \<not> exceeds (decoded_total l) (length (payload evs))) \<and>
   (\<exists>evs r. decode_all cpio_step (cpio_decoder_new z l) input = Some (evs, r) \<and>
      subseq (payload evs) input \<and> \<not> exceeds (decoded_total l) (length (payload evs)))"
proof (intro conjI)
  show "\<exists>evs r. decode_all raw_step (raw_with_limits l) input = Some (evs, r) \<and>
      subseq (payload evs) input \<and> \<not> exceeds (decoded_total l) (length (payload evs))"
    by (rule raw_dec.decode_all_safe) (simp_all add: raw_with_limits_def)
  show "\<exists>evs r. decode_all ar_step (ar_decoder_new l) input = Some (evs, r) \<and>
      subseq (payload evs) input \<and> \<not> exceeds (decoded_total l) (length (payload evs))"
    by (rule ar_dec.decode_all_safe) (simp_all add: ar_allowance_def, simp add: ar_decoder_new_def option.map_ident)
  show "\<exists>evs r. decode_all warc_step (warc_decoder_new l) input = Some (evs, r) \<and>
      subseq (payload evs) input \<and> \<not> exceeds (decoded_total l) (length (payload evs))"
    by (rule warc_dec.decode_all_safe) (simp_all add: warc_allowance_def, simp add: warc_decoder_new_def option.map_ident)
  show "\<exists>evs r. decode_all cpio_step (cpio_decoder_new z l) input = Some (evs, r) \<and>
      subseq (payload evs) input \<and> \<not> exceeds (decoded_total l) (length (payload evs))"
    by (rule cpio_dec.decode_all_safe) (simp_all add: cpio_allowance_def, simp add: cpio_decoder_new_def option.map_ident)
qed

text \<open>
  C4. Entries arrive whole: on every input and up to the first error, the trace of an ar, WARC, cpio
  or tar decoder is well bracketed (entries do not nest, payload occurs only inside an entry, the
  archive does not end inside one), every entry declares its size, and an entry that ends has
  delivered exactly the bytes stored for it. That is the declared size, holes of sparse files and
  deferred hardlinks included, with one exception: the members of a thin ar archive, which are marked
  by the \<open>ar-thin\<close> extension, declare the size of an external file and deliver nothing.
\<close>

theorem decoders_deliver_declared_sizes:
  "(\<exists>evs r. decode_all ar_step (ar_decoder_new l) input = Some (evs, r) \<and> sizes_ok None evs) \<and>
   (\<exists>evs r. decode_all warc_step (warc_decoder_new l) input = Some (evs, r) \<and> sizes_ok None evs) \<and>
   (\<exists>evs r. decode_all cpio_step (cpio_decoder_new z l) input = Some (evs, r) \<and> sizes_ok None evs) \<and>
   (\<exists>evs r. decode_all (tar_step (Suc cap)) (tar_decoder_new l) input = Some (evs, r) \<and> sizes_ok None evs)"
  by (intro conjI ar_sized.decode_all_sized warc_sized.decode_all_sized cpio_sized.decode_all_sized
      tar_sized.decode_all_sized) (simp_all, simp_all add: ar_decoder_new_def warc_decoder_new_def)

text \<open>
  C5. Progress reports are honest: in every state an ar, WARC or cpio decoder can reach, a successful
  step passes \<open>DecodeStep::validate\<close> for the input it was shown, so the pipeline's run-time check
  never fires for these decoders.
\<close>

theorem decoder_steps_validate:
  "(\<forall>s s'. reached ar_step (ar_decoder_new l) s \<and> ar_step s input e = (s', Inr d) \<longrightarrow>
      decode_validate d (length input) cap = Inr d) \<and>
   (\<forall>s s'. reached warc_step (warc_decoder_new l) s \<and> warc_step s input e = (s', Inr d) \<longrightarrow>
      decode_validate d (length input) cap = Inr d) \<and>
   (\<forall>s s'. reached cpio_step (cpio_decoder_new z l) s \<and> cpio_step s input e = (s', Inr d) \<longrightarrow>
      decode_validate d (length input) cap = Inr d)"
  by (auto intro: ar_dec.step_validates [OF ar_dec.reached_inv [OF _ ar_inv_new]]
      warc_dec.step_validates [OF warc_dec.reached_inv [OF _ warc_inv_new]]
      cpio_dec.step_validates [OF cpio_dec.reached_inv [OF _ cpio_inv_new]])

theorem decoder_steps_validate_witness:
  "\<exists>s d. reached ar_step (ar_decoder_new limits_safe) (ar_decoder_new limits_safe) \<and>
     ar_step (ar_decoder_new limits_safe) (ascii ''!<a'') More = (s, Inr d) \<and>
     decode_validate d 3 0 = Inr d"
proof -
  obtain s d where st: "ar_step (ar_decoder_new limits_safe) (ascii ''!<a'') More = (s, Inr d)"
    by (simp add: ar_step_def ar_decoder_new_def ar_step_magic_def ar_fill_def ascii_def)
  have "decode_validate d (length (ascii ''!<a'')) 0 = Inr d"
    using decoder_steps_validate [of limits_safe "ascii ''!<a''" More d 0 0] st reached.initial by metis
  with st show ?thesis by (auto simp: ascii_def eval_nat_numeral intro: reached.initial)
qed

text \<open>
  C3. How an archive is cut into chunks cannot be observed: whenever a byte string decodes without
  error in one piece, every presentation of it in successive chunks, of any sizes, also decodes
  without error and reports the same entries, the same payload and the same end, up to requests for
  input and the merging of adjacent payload chunks. This holds for the raw, ar, WARC and cpio decoders.
\<close>

theorem decoders_chunking_unobservable:
  "(decode_all raw_step (raw_with_limits l) input = Some (evs, Inr ()) \<longrightarrow>
      presents raw_step (raw_with_limits l) input evs' r \<longrightarrow> r = Inr () \<and> norm evs' = norm evs) \<and>
   (decode_all ar_step (ar_decoder_new l) input = Some (evs, Inr ()) \<longrightarrow>
      presents ar_step (ar_decoder_new l) input evs' r \<longrightarrow> r = Inr () \<and> norm evs' = norm evs) \<and>
   (decode_all warc_step (warc_decoder_new l) input = Some (evs, Inr ()) \<longrightarrow>
      presents warc_step (warc_decoder_new l) input evs' r \<longrightarrow> r = Inr () \<and> norm evs' = norm evs) \<and>
   (decode_all cpio_step (cpio_decoder_new z l) input = Some (evs, Inr ()) \<longrightarrow>
      presents cpio_step (cpio_decoder_new z l) input evs' r \<longrightarrow> r = Inr () \<and> norm evs' = norm evs)"
  using raw_chunks.presentation_invisible [OF _ TrueI, of "raw_with_limits l" input evs' r evs]
    ar_chunks.presentation_invisible [OF _ ar_inv_new, of l input evs' r evs]
    warc_chunks.presentation_invisible [OF _ warc_inv_new, of l input evs' r evs]
    cpio_chunks.presentation_invisible [OF _ cpio_inv_new, of z l input evs' r evs]
  by blast

theorem decoders_chunking_unobservable_witness:
  "\<exists>evs. decode_all ar_step (ar_decoder_new limits_safe) AR_MAGIC = Some (evs, Inr ()) \<and>
     presents ar_step (ar_decoder_new limits_safe) AR_MAGIC evs (Inr ()) \<and> norm evs = [EvDone]"
proof -
  have d: "decode_all ar_step (ar_decoder_new limits_safe) AR_MAGIC = Some ([EvDone], Inr ())"
    using ar_decode_magic [of limits_safe "[]"]
    by (subst (asm) (2) decode_all.simps) (simp add: ar_step_def ar_step_header_def ar_decoder_new_def)
  have p: "presents ar_step (ar_decoder_new limits_safe) AR_MAGIC [EvDone] (Inr ())"
    by (rule ar_chunks.undivided_presents [OF d ar_inv_new])
  have "norm [EvDone] = norm [EvDone]"
    using decoders_chunking_unobservable [of limits_safe AR_MAGIC "[EvDone]" "[EvDone]" "Inr ()"] d p by blast
  with d p show ?thesis by (auto simp: norm_Cons)
qed

section \<open>What holds of every writer\<close>

abbreviation fresh_writer :: "'s \<Rightarrow> nat \<Rightarrow> ('s, bytes) archive_writer" where
  "fresh_writer enc n \<equiv> \<lparr>wr_output = [], wr_encoder = enc, wr_buffer = n, wr_failed = False\<rparr>"

text \<open>
  C6. The streaming writer refines the abstract acceptor of its format. An acceptor takes a whole
  command and yields all of its bytes at once; the encoder behind the writer produces them in
  portions of the writer's buffer, drains a queue before it takes a command, and takes data in parts.
  Whenever the acceptor takes the commands of an archive, the writer, with a buffer of any positive
  size and the bodies cut into any pieces, returns without error and has written exactly the
  acceptor's bytes. This holds for the ar encoder, the cpio encoder in every dialect and the tar
  encoder, sparse entries included.
\<close>

theorem writers_refine_acceptors:
  assumes valid: "\<forall>(md, ps) \<in> set es. validate md = Inr ()" and n: "0 < n"
  shows "(accept_commands ar_accept (archive_commands es) (ar_encoder_new l) = Inr (c, bs) \<longrightarrow>
      (\<exists>w. write_archive ar_enc_step vec_sink es (fresh_writer (ar_encoder_new l) n) = Some (w, Inr ()) \<and>
        wr_output w = bs)) \<and>
    (accept_commands cpio_accept (archive_commands es) (cpio_with_dialect l dialect) = Inr (c', bs) \<longrightarrow>
      (\<exists>w. write_archive cpio_enc_step vec_sink es (fresh_writer (cpio_with_dialect l dialect) n) =
          Some (w, Inr ()) \<and> wr_output w = bs)) \<and>
    (accept_commands tar_accept (archive_commands es) (tar_encoder_new l) = Inr (c'', bs) \<longrightarrow>
      (\<exists>w. write_archive tar_enc_step vec_sink es (fresh_writer (tar_encoder_new l) n) = Some (w, Inr ()) \<and>
        wr_output w = bs))"
proof (intro conjI impI)
  assume "accept_commands ar_accept (archive_commands es) (ar_encoder_new l) = Inr (c, bs)"
  then show "\<exists>w. write_archive ar_enc_step vec_sink es (fresh_writer (ar_encoder_new l) n) = Some (w, Inr ()) \<and>
      wr_output w = bs"
    using ar_enc.write_archive_returns [of "fresh_writer (ar_encoder_new l) n" es c bs] valid n
    by (simp add: ar_enc_inv_def ar_core_def ar_queue_def ar_encoder_new_def)
next
  assume "accept_commands cpio_accept (archive_commands es) (cpio_with_dialect l dialect) = Inr (c', bs)"
  then show "\<exists>w. write_archive cpio_enc_step vec_sink es (fresh_writer (cpio_with_dialect l dialect) n) =
      Some (w, Inr ()) \<and> wr_output w = bs"
    using cpio_enc.write_archive_returns [of "fresh_writer (cpio_with_dialect l dialect) n" es c' bs] valid n
    by (simp add: cpio_enc_inv_def cpio_core_def cpio_queue_def cpio_with_dialect_def cpio_encoder_new_def)
next
  assume "accept_commands tar_accept (archive_commands es) (tar_encoder_new l) = Inr (c'', bs)"
  then show "\<exists>w. write_archive tar_enc_step vec_sink es (fresh_writer (tar_encoder_new l) n) = Some (w, Inr ()) \<and>
      wr_output w = bs"
    using tar_enc.write_archive_returns [of "fresh_writer (tar_encoder_new l) n" es c'' bs] valid n
    by (simp add: tar_enc_inv_def tar_core_def tar_queue_def tar_encoder_new_def)
qed

theorem writers_refine_acceptors_witness:
  "\<exists>w. write_archive tar_enc_step vec_sink [] (fresh_writer (tar_encoder_new limits_safe) 7) =
    Some (w, Inr ()) \<and> wr_output w = replicate 1024 0"
proof -
  obtain c where "accept_commands tar_accept (archive_commands []) (tar_encoder_new limits_safe) =
      Inr (c, replicate 1024 0)"
    by (auto simp: archive_commands_def tar_accept_def tar_trailer_def tar_staged_def tar_encoder_new_def BLOCK_def
      resize_def)
  then show ?thesis
    using writers_refine_acceptors [of "[]" 7 limits_safe undefined "replicate 1024 0" undefined undefined c]
    by simp
qed

end
